(* ===== verification/Prelude.thy ===== *)
theory Prelude
  imports Main "HOL-Library.AList" "HOL-Library.Multiset"
begin

text \<open>
  Shared vocabulary of the development: how the JavaScript values the source uses are read in HOL,
  and the generic facts about lists, options and strings that the component theories share.

  \<^item> A JavaScript string is a \<^typ>\<open>string\<close>; \<open>split\<close>, \<open>join\<close>, \<open>startsWith\<close>, \<open>endsWith\<close> and
    \<open>str_includes\<close> are executable functions on it.
  \<^item> A plain object or a \<open>Map\<close> with string keys is an association list in insertion order:
    \<^const>\<open>map_of\<close> reads it, \<open>AList.update\<close> is assignment (an existing key keeps its place).
  \<^item> A \<open>Set\<close> is the list of its elements in insertion order, grown by \<open>set_add\<close>.
\<close>

named_theorems js_simps \<open>evaluation rules of the string and container primitives\<close>

type_synonym 'v obj = "(string \<times> 'v) list"

abbreviation keys :: "'v obj \<Rightarrow> string list" where
  "keys ob \<equiv> map fst ob"

section \<open>Strings\<close>

fun splitOn :: "char \<Rightarrow> string \<Rightarrow> string list" where
  "splitOn sep [] = [[]]"
| "splitOn sep (c # cs) =
     (if c = sep then [] # splitOn sep cs
      else (case splitOn sep cs of [] \<Rightarrow> [[c]] | w # ws \<Rightarrow> (c # w) # ws))"

fun joinWith :: "string \<Rightarrow> string list \<Rightarrow> string" where
  "joinWith sep [] = []"
| "joinWith sep [x] = x"
| "joinWith sep (x # y # ys) = x @ sep @ joinWith sep (y # ys)"

definition starts_with :: "string \<Rightarrow> string \<Rightarrow> bool" where
  "starts_with s p \<longleftrightarrow> take (length p) s = p"

definition ends_with :: "string \<Rightarrow> string \<Rightarrow> bool" where
  "ends_with s p \<longleftrightarrow> length p \<le> length s \<and> drop (length s - length p) s = p"

fun str_includes :: "string \<Rightarrow> string \<Rightarrow> bool" where
  "str_includes [] p \<longleftrightarrow> p = []"
| "str_includes (c # cs) p \<longleftrightarrow> starts_with (c # cs) p \<or> str_includes cs p"

text \<open>White space in the sense of \<open>String.prototype.trim\<close>, for the characters of a byte.\<close>

definition is_space :: "char \<Rightarrow> bool" where
  "is_space c \<longleftrightarrow> c \<in> set [CHR 0x09, CHR 0x0A, CHR 0x0B, CHR 0x0C, CHR 0x0D, CHR 0x20, CHR 0xA0]"

definition trim :: "string \<Rightarrow> string" where
  "trim s = rev (dropWhile is_space (rev (dropWhile is_space s)))"

lemma splitOn_not_Nil [simp]: "splitOn sep s \<noteq> []"
  by (induction s) (auto split: list.splits)

lemma splitOn_append: "splitOn sep (a @ sep # b) = splitOn sep a @ splitOn sep b"
  by (induction a) (auto split: list.splits)

lemma splitOn_atom: "sep \<notin> set s \<Longrightarrow> splitOn sep s = [s]"
  by (induction s) auto

lemma length_splitOn_pos [simp]: "0 < length (splitOn sep s)"
  by simp

lemma splitOn_no_sep: "w \<in> set (splitOn sep s) \<Longrightarrow> sep \<notin> set w"
  by (induction s arbitrary: w) (auto split: list.splits if_splits)

lemma joinWith_Cons: "xs \<noteq> [] \<Longrightarrow> joinWith sep (x # xs) = x @ sep @ joinWith sep xs"
  by (cases xs) auto

lemma joinWith_append:
  "xs \<noteq> [] \<Longrightarrow> ys \<noteq> [] \<Longrightarrow> joinWith sep (xs @ ys) = joinWith sep xs @ sep @ joinWith sep ys"
proof (induction xs)
  case (Cons x xs)
  then show ?case by (cases "xs = []") (simp_all add: joinWith_Cons)
qed simp

lemma joinWith_splitOn [simp]: "joinWith [sep] (splitOn sep s) = s"
proof (induction s)
  case (Cons c cs)
  show ?case
  proof (cases "c = sep")
    case True
    with Cons show ?thesis by (simp add: joinWith_Cons)
  next
    case False
    obtain w ws where w: "splitOn sep cs = w # ws"
      by (meson neq_Nil_conv splitOn_not_Nil)
    with False Cons show ?thesis by (cases ws) auto
  qed
qed simp

lemma splitOn_joinWith:
  "xs \<noteq> [] \<Longrightarrow> \<forall>x\<in>set xs. sep \<notin> set x \<Longrightarrow> splitOn sep (joinWith [sep] xs) = xs"
proof (induction xs rule: list_nonempty_induct)
  case (single x)
  then show ?case by (simp add: splitOn_atom)
next
  case (cons x xs)
  then show ?case by (simp add: joinWith_Cons splitOn_append splitOn_atom)
qed

lemma splitOn_inj: "splitOn sep s = splitOn sep t \<Longrightarrow> s = t"
  by (metis joinWith_splitOn)

lemma starts_with_iff: "starts_with s p \<longleftrightarrow> (\<exists>r. s = p @ r)"
  unfolding starts_with_def by (metis append_eq_conv_conj append_take_drop_id)

lemma starts_with_append [simp]: "starts_with (p @ r) p"
  by (auto simp: starts_with_iff)

lemma starts_with_Nil [simp]: "starts_with s []"
  by (simp add: starts_with_def)

lemma ends_with_iff: "ends_with s p \<longleftrightarrow> (\<exists>r. s = r @ p)"
  unfolding ends_with_def
  by (metis append_eq_conv_conj append_take_drop_id diff_add_inverse2 le_add2 length_append)

lemma includes_iff: "str_includes s p \<longleftrightarrow> (\<exists>a b. s = a @ p @ b)"
proof (induction s)
  case (Cons c cs)
  show ?case
  proof
    assume "str_includes (c # cs) p"
    then consider "starts_with (c # cs) p" | "str_includes cs p" by auto
    then show "\<exists>a b. c # cs = a @ p @ b"
    proof cases
      case 1 then show ?thesis by (metis append_Nil starts_with_iff)
    next
      case 2 with Cons show ?thesis by (metis append_Cons)
    qed
  next
    assume "\<exists>a b. c # cs = a @ p @ b"
    then obtain a b where ab: "c # cs = a @ p @ b" by blast
    show "str_includes (c # cs) p"
    proof (cases a)
      case Nil
      with ab have "starts_with (c # cs) p" by simp
      then show ?thesis by simp
    next
      case (Cons x xs) with ab Cons.IH show ?thesis by auto
    qed
  qed
qed auto

section \<open>Sets in insertion order\<close>

definition set_add :: "'a list \<Rightarrow> 'a \<Rightarrow> 'a list" where
  "set_add xs x = (if x \<in> set xs then xs else xs @ [x])"

definition to_set :: "'a list \<Rightarrow> 'a list" where
  "to_set xs = foldl set_add [] xs"

lemma set_set_add [simp]: "set (set_add xs x) = insert x (set xs)"
  by (auto simp: set_add_def)

lemma distinct_set_add [simp]: "distinct (set_add xs x) = distinct xs"
  by (auto simp: set_add_def)

lemma set_foldl_set_add [simp]: "set (foldl set_add acc xs) = set acc \<union> set xs"
  by (induction xs arbitrary: acc) auto

lemma distinct_foldl_set_add [simp]: "distinct (foldl set_add acc xs) = distinct acc"
  by (induction xs arbitrary: acc) auto

lemma foldl_set_add_distinct:
  "distinct xs \<Longrightarrow> set acc \<inter> set xs = {} \<Longrightarrow> foldl set_add acc xs = acc @ xs"
  by (induction xs arbitrary: acc) (auto simp: set_add_def)

lemma set_to_set [simp]: "set (to_set xs) = set xs"
  by (simp add: to_set_def)

lemma distinct_to_set [simp]: "distinct (to_set xs)"
  by (simp add: to_set_def)

lemma to_set_distinct: "distinct xs \<Longrightarrow> to_set xs = xs"
  by (simp add: to_set_def foldl_set_add_distinct)

section \<open>Searching\<close>

lemma find_map_same: "(\<And>x. P (f x) = P x) \<Longrightarrow> List.find P (map f xs) = map_option f (List.find P xs)"
  by (induction xs) auto

lemma find_append: "List.find P (xs @ ys) = (case List.find P xs of Some x \<Rightarrow> Some x | None \<Rightarrow> List.find P ys)"
  by (induction xs) auto

fun find_index :: "('a \<Rightarrow> bool) \<Rightarrow> 'a list \<Rightarrow> nat option" where
  "find_index P [] = None"
| "find_index P (x # xs) = (if P x then Some 0 else map_option Suc (find_index P xs))"

lemma find_index_SomeD:
  "find_index P xs = Some i \<Longrightarrow> i < length xs \<and> P (xs ! i) \<and> (\<forall>j<i. \<not> P (xs ! j))"
proof (induction xs arbitrary: i)
  case (Cons x xs)
  show ?case
  proof (cases "P x")
    case True with Cons.prems show ?thesis by auto
  next
    case False
    with Cons.prems obtain k where k: "find_index P xs = Some k" "i = Suc k" by auto
    with Cons.IH[OF k(1)] False show ?thesis
      by (auto simp: nth_Cons split: nat.splits)
  qed
qed simp

lemma find_index_None_iff: "find_index P xs = None \<longleftrightarrow> (\<forall>x\<in>set xs. \<not> P x)"
  by (induction xs) auto

lemma find_Some_mem: "List.find P xs = Some x \<Longrightarrow> x \<in> set xs \<and> P x"
  by (induction xs) (auto split: if_splits)

section \<open>Options in sequence\<close>

lemma those_eq_Some_iff: "those xs = Some ys \<longleftrightarrow> xs = map Some ys"
  by (induction xs arbitrary: ys) (auto split: option.splits simp: Cons_eq_map_conv)

lemma those_map_Some: "(\<forall>x\<in>set xs. \<exists>y. f x = Some y) \<Longrightarrow> \<exists>ys. those (map f xs) = Some ys"
  by (induction xs) auto

lemma map_of_mem_snd: "map_of xs k = Some v \<Longrightarrow> (k, v) \<in> set xs"
  by (rule map_of_SomeD)

section \<open>Decimal numerals\<close>

fun show_nat :: "nat \<Rightarrow> string" where
  "show_nat n = (if n < 10 then [char_of (48 + n)] else show_nat (n div 10) @ [char_of (48 + n mod 10)])"

declare show_nat.simps [simp del]

section \<open>Least-recently-used caches\<close>

lemma map_leD: "m \<subseteq>\<^sub>m m' \<Longrightarrow> m k = Some v \<Longrightarrow> m' k = Some v"
  by (metis domI map_le_def)

text \<open>The operations of a bounded cache package with string keys. The package is an argument of what uses
  it; the locale states what it documents: a lookup answers what is held and keeps it, a write holds the
  new entry and may drop others, never more than the bound are held.\<close>

record ('v, 'c) lru =
  lru_empty :: 'c
  lru_get :: "string \<Rightarrow> 'c \<Rightarrow> 'v option \<times> 'c"
  lru_set :: "string \<Rightarrow> 'v \<Rightarrow> 'c \<Rightarrow> 'c"
  lru_delete :: "string \<Rightarrow> 'c \<Rightarrow> 'c"
  lru_keys :: "'c \<Rightarrow> string list"

locale lru_cache =
  fixes L :: "('v, 'c) lru" and held :: "'c \<Rightarrow> string \<Rightarrow> 'v option" and bound :: nat
  assumes held_empty: "held (lru_empty L) = Map.empty"
    and get_held: "fst (lru_get L k c) = held c k"
    and held_get: "held (snd (lru_get L k c)) = held c"
    and held_set: "held (lru_set L k v c) \<subseteq>\<^sub>m (held c)(k \<mapsto> v)"
    and set_held: "held (lru_set L k v c) k = Some v"
    and held_delete: "held (lru_delete L k c) = (held c)(k := None)"
    and keys_held: "set (lru_keys L c) = dom (held c)"
    and card_set: "card (dom (held c)) \<le> bound \<Longrightarrow> card (dom (held (lru_set L k v c))) \<le> bound"
begin

text \<open>Every entry is the value of a partial function.\<close>

definition holds_of :: "(string \<Rightarrow> 'v option) \<Rightarrow> 'c \<Rightarrow> bool" where
  "holds_of f c \<longleftrightarrow> held c \<subseteq>\<^sub>m f"

lemma holds_of_empty: "holds_of f (lru_empty L)"
  by (simp add: holds_of_def held_empty)

text \<open>Reading a partial function through the cache: the value held, else the function's, which is stored.\<close>

definition through :: "(string \<Rightarrow> 'v option) \<Rightarrow> string \<Rightarrow> 'c \<Rightarrow> 'v option \<times> 'c" where
  "through f k c = (case lru_get L k c of
     (Some v, c1) \<Rightarrow> (Some v, c1)
   | (None, c1) \<Rightarrow> (case f k of None \<Rightarrow> (None, c1) | Some v \<Rightarrow> (Some v, lru_set L k v c1)))"

lemma through_answer: "holds_of f c \<Longrightarrow> fst (through f k c) = f k"
  using get_held[of k c, symmetric]
  by (auto simp: through_def holds_of_def dest: map_leD split: prod.split option.split)

lemma through_keeps:
  assumes "holds_of f c"
  shows "holds_of f (snd (through f k c))"
proof -
  have "held (lru_set L k v c') \<subseteq>\<^sub>m f" if "held c' \<subseteq>\<^sub>m f" "f k = Some v" for v c'
  proof (rule map_le_trans[OF held_set])
    show "(held c')(k \<mapsto> v) \<subseteq>\<^sub>m f" using that by (auto simp: map_le_def)
  qed
  then show ?thesis
    using assms held_get[of k c] by (auto simp: through_def holds_of_def split: prod.split option.split)
qed

lemma through_bounded: "card (dom (held c)) \<le> bound \<Longrightarrow> card (dom (held (snd (through f k c)))) \<le> bound"
  using held_get[of k c] card_set by (auto simp: through_def split: prod.split option.split)

end

text \<open>A cache of that kind: the entries as a list, most recently used first.\<close>

definition without :: "string \<Rightarrow> 'v obj \<Rightarrow> 'v obj" where
  "without k c = filter (\<lambda>e. fst e \<noteq> k) c"

definition list_lru :: "nat \<Rightarrow> ('v, 'v obj) lru" where
  "list_lru n = \<lparr>lru_empty = [],
     lru_get = (\<lambda>k c. case map_of c k of None \<Rightarrow> (None, c) | Some v \<Rightarrow> (Some v, (k, v) # without k c)),
     lru_set = (\<lambda>k v c. take n ((k, v) # without k c)),
     lru_delete = without, lru_keys = map fst\<rparr>"

lemma map_of_without: "map_of (without k c) = (map_of c)(k := None)"
  by (induction c) (auto simp: without_def fun_eq_iff)

lemma map_of_take_le: "map_of (take n c) \<subseteq>\<^sub>m map_of c"
  by (metis append_take_drop_id map_le_map_add map_of_append map_le_iff_map_add_commute)

interpretation list_lru: lru_cache "list_lru (Suc n)" map_of "Suc n" for n
proof
  fix k :: string and v :: 'v and c :: "'v obj"
  show "map_of (lru_empty (list_lru (Suc n))) = (Map.empty :: string \<Rightarrow> 'v option)"
    by (simp add: list_lru_def)
  show "fst (lru_get (list_lru (Suc n)) k c) = map_of c k"
    by (simp add: list_lru_def split: option.split)
  show "map_of (snd (lru_get (list_lru (Suc n)) k c)) = map_of c"
    by (auto simp: list_lru_def map_of_without fun_eq_iff split: option.split)
  show "map_of (lru_set (list_lru (Suc n)) k v c) \<subseteq>\<^sub>m (map_of c)(k \<mapsto> v)"
    using map_of_take_le[of "Suc n" "(k, v) # without k c"] by (simp add: list_lru_def map_of_without)
  show "map_of (lru_set (list_lru (Suc n)) k v c) k = Some v"
    by (simp add: list_lru_def)
  show "map_of (lru_delete (list_lru (Suc n)) k c) = (map_of c)(k := None)"
    by (simp add: list_lru_def map_of_without)
  show "set (lru_keys (list_lru (Suc n)) c) = dom (map_of c)"
    by (simp add: list_lru_def dom_map_of_conv_image_fst)
  have "card (dom (map_of xs)) \<le> length xs" for xs :: "'v obj"
    by (metis card_length dom_map_of_conv_image_fst length_map list.set_map)
  from this[of "lru_set (list_lru (Suc n)) k v c"]
  show "card (dom (map_of (lru_set (list_lru (Suc n)) k v c))) \<le> Suc n"
    by (simp add: list_lru_def)
qed

end
