(* ===== verification/Statechart.thy ===== *)
theory Statechart
  imports Prelude
begin

text \<open>
  The statechart engine, \<open>src/src/runtime/fsm.ts\<close>: the flat wire format and its validation, the
  tree of states, entry and exit sets, the event microstep \<open>step\<close>, the flat facade \<open>stepFlat\<close>
  and the eventless join macrostep \<open>settle\<close>.

  Paths are the source's strings, split at the separator exactly where the source splits them. A
  level of the tree is an association list in the order of \<open>Object.entries\<close>; the own keys of a
  level are what \<open>level[name]\<close> and \<open>name in level\<close> see, so state names are taken not to be
  members of \<open>Object.prototype\<close> (\<open>constructor\<close>, \<open>toString\<close>, \<dots>). A configuration is a
  \<open>Set\<close> in insertion order. Error messages of the validators are kept as values of a datatype.

  The recursion of \<open>enterLeaves\<close> does not return when a compound names the empty string as its
  initial state (or a parallel has a region so named), because the path then stays the same; the
  model returns \<^const>\<open>None\<close> exactly there.
\<close>

section \<open>The wire format\<close>

definition ANY_STATE :: string where
  "ANY_STATE = ''*''"

record Transition =
  t_from :: string
  t_on :: "string option"
  t_to :: string
  t_when :: "string option"

record Fsm =
  fsm_initial :: string
  fsm_states :: "string list"
  fsm_transitions :: "Transition list"

definition Transition_schema :: "Transition \<Rightarrow> bool" where
  "Transition_schema t \<longleftrightarrow>
     t_from t \<noteq> [] \<and> t_on t \<noteq> Some [] \<and> t_to t \<noteq> [] \<and> t_when t \<noteq> Some []"

definition Fsm_schema :: "Fsm \<Rightarrow> bool" where
  "Fsm_schema f \<longleftrightarrow>
     fsm_initial f \<noteq> [] \<and> fsm_states f \<noteq> [] \<and> [] \<notin> set (fsm_states f) \<and>
     list_all Transition_schema (fsm_transitions f)"

datatype fsm_error =
    InitialNotState string
  | FromUndeclared nat string
  | ToUndeclared nat string

definition validateFsm :: "Fsm \<Rightarrow> fsm_error list" where
  "validateFsm f =
     (if fsm_initial f \<in> set (fsm_states f) then [] else [InitialNotState (fsm_initial f)]) @
     concat (map (\<lambda>(i, t).
         (if t_from t \<noteq> ANY_STATE \<and> t_from t \<notin> set (fsm_states f)
          then [FromUndeclared i (t_from t)] else []) @
         (if t_to t \<notin> set (fsm_states f) then [ToUndeclared i (t_to t)] else []))
       (List.enumerate 0 (fsm_transitions f)))"

section \<open>The tree of states\<close>

definition PATH_SEP :: char where
  "PATH_SEP = CHR ''/''"

datatype depth = Shallow | Deep

datatype StateNode =
    Leaf
  | Final
  | History depth "string option"
  | Compound string "(string \<times> StateNode) list"
  | Parallel "(string \<times> StateNode) list"

type_synonym level = "(string \<times> StateNode) list"
type_synonym LastActive = "string obj"
type_synonym Configuration = "string list"

record Statechart =
  sc_initial :: string
  sc_root :: level
  sc_transitions :: "Transition list"

record StepResult =
  next_config :: Configuration
  transitioned :: bool
  via :: "nat option"
  lastActive :: LastActive

definition segs :: "string \<Rightarrow> string list" where
  "segs path = splitOn PATH_SEP path"

definition joinPath :: "string \<Rightarrow> string \<Rightarrow> string" where
  "joinPath a b = joinWith [PATH_SEP] (filter (\<lambda>p. 0 < length p) [a, b])"

fun substates :: "StateNode \<Rightarrow> level option" where
  "substates (Compound i ss) = Some ss"
| "substates (Parallel rs) = Some rs"
| "substates _ = None"

fun resolve_segs :: "level \<Rightarrow> string list \<Rightarrow> StateNode option" where
  "resolve_segs lv [] = None"
| "resolve_segs lv (n # ns) =
     (case map_of lv n of
        None \<Rightarrow> None
      | Some node \<Rightarrow>
          if ns = [] then Some node
          else (case substates node of None \<Rightarrow> None | Some lv' \<Rightarrow> resolve_segs lv' ns))"

definition resolveNode :: "Statechart \<Rightarrow> string \<Rightarrow> StateNode option" where
  "resolveNode sc path = resolve_segs (sc_root sc) (segs path)"

text \<open>The height of a level bounds the length of the paths that resolve in it.\<close>

fun level_height :: "level \<Rightarrow> nat" where
  "level_height [] = 0"
| "level_height ((n, node) # rest) =
     max (Suc (case node of Compound i ss \<Rightarrow> level_height ss | Parallel rs \<Rightarrow> level_height rs | _ \<Rightarrow> 0))
         (level_height rest)"

definition path_len :: "string \<Rightarrow> nat" where
  "path_len p = (if p = [] then 0 else length (segs p))"

lemma level_height_mem:
  "map_of lv n = Some node \<Longrightarrow> substates node = Some lv' \<Longrightarrow> Suc (level_height lv') \<le> level_height lv"
proof (induction lv rule: level_height.induct)
  case (2 m node' rest)
  then show ?case by (cases node'; auto split: if_splits simp: le_max_iff_disj)
qed simp

lemma resolve_segs_height: "resolve_segs lv ns = Some node \<Longrightarrow> length ns \<le> level_height lv"
proof (induction lv ns arbitrary: node rule: resolve_segs.induct)
  case (2 lv n ns)
  from 2(2) obtain nd where nd: "map_of lv n = Some nd"
    by (auto split: option.splits)
  have pos: "0 < level_height lv"
    using nd by (cases lv) auto
  show ?case
  proof (cases "ns = []")
    case True then show ?thesis using pos by simp
  next
    case False
    with 2(2) nd obtain lv' where lv': "substates nd = Some lv'" "resolve_segs lv' ns = Some node"
      by (auto split: option.splits)
    from 2(1)[OF nd False lv'] level_height_mem[OF nd lv'(1)] show ?thesis by simp
  qed
qed simp

lemma segs_joinPath:
  assumes "n \<noteq> []"
  shows "segs (joinPath p n) = (if p = [] then segs n else segs p @ segs n)"
  using assms by (simp add: segs_def joinPath_def splitOn_append)

lemma joinPath_Nil_iff [simp]: "joinPath p n = [] \<longleftrightarrow> p = [] \<and> n = []"
  by (simp add: joinPath_def)

lemma path_len_joinPath: "n \<noteq> [] \<Longrightarrow> path_len p < path_len (joinPath p n)"
  by (simp add: path_len_def segs_joinPath) (simp add: segs_def)

lemma path_len_resolve: "resolveNode sc p = Some node \<Longrightarrow> path_len p \<le> level_height (sc_root sc)"
  by (auto simp: resolveNode_def path_len_def dest: resolve_segs_height)

lemma enter_decreases:
  assumes "resolveNode sc p = Some node" and "n \<noteq> []"
  shows "Suc (level_height (sc_root sc)) - path_len (joinPath p n)
         < Suc (level_height (sc_root sc)) - path_len p"
  using path_len_resolve[OF assms(1)] path_len_joinPath[OF assms(2), of p] by linarith

function enterLeaves :: "Statechart \<Rightarrow> string \<Rightarrow> string list option" where
  "enterLeaves sc path =
     (case resolveNode sc path of
        None \<Rightarrow> Some []
      | Some Leaf \<Rightarrow> Some [path]
      | Some Final \<Rightarrow> Some [path]
      | Some (History d dflt) \<Rightarrow> Some []
      | Some (Compound i ss) \<Rightarrow>
          if i = [] then None else enterLeaves sc (joinPath path i)
      | Some (Parallel rs) \<Rightarrow>
          if [] \<in> set (keys rs) then None
          else map_option concat (those (map (\<lambda>r. enterLeaves sc (joinPath path r)) (keys rs))))"
  by pat_completeness auto
termination
  by (relation "measure (\<lambda>(sc, p). Suc (level_height (sc_root sc)) - path_len p)")
     (auto intro!: enter_decreases intro: rev_image_eqI)

declare enterLeaves.simps [simp del]

definition initialConfig :: "Statechart \<Rightarrow> Configuration option" where
  "initialConfig sc = map_option to_set (enterLeaves sc (sc_initial sc))"

definition soleState :: "Configuration \<Rightarrow> string" where
  "soleState config = (case config of [] \<Rightarrow> [] | leaf # _ \<Rightarrow> leaf)"

definition under :: "string \<Rightarrow> string \<Rightarrow> bool" where
  "under path leaf \<longleftrightarrow> leaf = path \<or> starts_with leaf (path @ [PATH_SEP])"

definition isActive :: "Configuration \<Rightarrow> string \<Rightarrow> bool" where
  "isActive config path = list_ex (under path) config"

fun common_prefix :: "string list \<Rightarrow> string list \<Rightarrow> string list" where
  "common_prefix (x # xs) (y # ys) = (if x = y then x # common_prefix xs ys else [])"
| "common_prefix _ _ = []"

definition lcca :: "string \<Rightarrow> string \<Rightarrow> string" where
  "lcca a b = joinWith [PATH_SEP] (common_prefix (segs a) (segs b))"

definition descendantsOf :: "Configuration \<Rightarrow> string \<Rightarrow> string list" where
  "descendantsOf config scope =
     (if scope = [] then config else filter (under scope) config)"

fun allPaths :: "level \<Rightarrow> string \<Rightarrow> string list" where
  "allPaths [] base = []"
| "allPaths ((name, node) # rest) base =
     (let path = joinPath base name
      in path # (case node of Compound i ss \<Rightarrow> allPaths ss path
                 | Parallel rs \<Rightarrow> allPaths rs path | _ \<Rightarrow> []) @ allPaths rest base)"

definition parentOf :: "string \<Rightarrow> string" where
  "parentOf path = joinWith [PATH_SEP] (butlast (segs path))"

fun compoundWalk :: "level \<Rightarrow> string \<Rightarrow> string list" where
  "compoundWalk [] base = []"
| "compoundWalk ((name, node) # rest) base =
     (let p = joinPath base name
      in (case node of Compound i ss \<Rightarrow> p # compoundWalk ss p
          | Parallel rs \<Rightarrow> compoundWalk rs p | _ \<Rightarrow> []) @ compoundWalk rest base)"

definition compoundPaths :: "Statechart \<Rightarrow> string list" where
  "compoundPaths sc = compoundWalk (sc_root sc) []"

fun parallelWalk :: "level \<Rightarrow> string \<Rightarrow> string list" where
  "parallelWalk [] base = []"
| "parallelWalk ((name, node) # rest) base =
     (let p = joinPath base name
      in (case node of Compound i ss \<Rightarrow> parallelWalk ss p
          | Parallel rs \<Rightarrow> p # parallelWalk rs p | _ \<Rightarrow> []) @ parallelWalk rest base)"

text \<open>\<open>Array.sort\<close> with the comparison of the source is a stable sort, deepest path first.\<close>

definition parallelPaths :: "Statechart \<Rightarrow> string list" where
  "parallelPaths sc =
     sort_key (\<lambda>p. - int (length (segs p))) (parallelWalk (sc_root sc) [])"

text \<open>
  \<open>Array.some\<close> over a predicate that may not return: elements are visited in order and the first
  true answer stops the search, as it does in the source.
\<close>

fun some_opt :: "('a \<Rightarrow> bool option) \<Rightarrow> 'a list \<Rightarrow> bool option" where
  "some_opt f [] = Some False"
| "some_opt f (x # xs) =
     (case f x of None \<Rightarrow> None | Some True \<Rightarrow> Some True | Some False \<Rightarrow> some_opt f xs)"

lemma some_opt_cong [fundef_cong]:
  "xs = ys \<Longrightarrow> (\<And>x. x \<in> set ys \<Longrightarrow> f x = g x) \<Longrightarrow> some_opt f xs = some_opt g ys"
  by (induction ys arbitrary: xs) (auto split: option.splits bool.splits)

function subtreeHasFinal :: "Statechart \<Rightarrow> string \<Rightarrow> bool option" where
  "subtreeHasFinal sc path =
     (case resolveNode sc path of
        None \<Rightarrow> Some False
      | Some Leaf \<Rightarrow> Some False
      | Some Final \<Rightarrow> Some True
      | Some (History d dflt) \<Rightarrow> Some False
      | Some (Compound i ss) \<Rightarrow>
          some_opt (\<lambda>k. if k = [] then None else subtreeHasFinal sc (joinPath path k)) (keys ss)
      | Some (Parallel rs) \<Rightarrow>
          some_opt (\<lambda>k. if k = [] then None else subtreeHasFinal sc (joinPath path k)) (keys rs))"
  by pat_completeness auto
termination
  by (relation "measure (\<lambda>(sc, p). Suc (level_height (sc_root sc)) - path_len p)")
     (auto intro!: enter_decreases)

declare subtreeHasFinal.simps [simp del]

section \<open>Validation of the tree\<close>

datatype chart_error =
    InitialNotTop string
  | CompoundInitial string string
  | HistoryNotInCompound string
  | HistoryDefault string string
  | TransFrom nat string
  | TransTo nat string
  | EventlessNotParallel nat string
  | NoJoin string

fun checkInitials :: "level \<Rightarrow> string \<Rightarrow> chart_error list" where
  "checkInitials [] base = []"
| "checkInitials ((name, node) # rest) base =
     (let path = joinPath base name
      in (case node of
            Compound i ss \<Rightarrow>
              (if i \<in> set (keys ss) then [] else [CompoundInitial path i]) @ checkInitials ss path
          | Parallel rs \<Rightarrow> checkInitials rs path
          | _ \<Rightarrow> []) @ checkInitials rest base)"

text \<open>
  \<open>checkHistory\<close> visits one level at a time: \<open>parent\<close> is the node that owns the level
  (\<^const>\<open>None\<close> at the root).
\<close>

fun checkHistory :: "level \<Rightarrow> string \<Rightarrow> StateNode option \<Rightarrow> chart_error list" where
  "checkHistory [] base parent = []"
| "checkHistory ((name, node) # rest) base parent =
     (let path = joinPath base name
      in (case node of
            History d dflt \<Rightarrow>
              (case parent of
                 Some (Compound i ss) \<Rightarrow>
                   (case dflt of None \<Rightarrow> []
                    | Some x \<Rightarrow> if x \<in> set (keys ss) then [] else [HistoryDefault path x])
               | _ \<Rightarrow> [HistoryNotInCompound path])
          | Compound i ss \<Rightarrow> checkHistory ss path (Some node)
          | Parallel rs \<Rightarrow> checkHistory rs path (Some node)
          | _ \<Rightarrow> []) @ checkHistory rest base parent)"

fun is_parallel :: "StateNode option \<Rightarrow> bool" where
  "is_parallel (Some (Parallel rs)) \<longleftrightarrow> True"
| "is_parallel _ \<longleftrightarrow> False"

definition checkTransitions :: "Statechart \<Rightarrow> chart_error list" where
  "checkTransitions sc =
     (let paths = set (allPaths (sc_root sc) [])
      in concat (map (\<lambda>(i, t).
           (if t_from t \<noteq> ANY_STATE \<and> t_from t \<notin> paths then [TransFrom i (t_from t)] else []) @
           (if t_to t \<notin> paths then [TransTo i (t_to t)] else []) @
           (if t_on t = None \<and> t_from t \<noteq> ANY_STATE \<and> \<not> is_parallel (resolveNode sc (t_from t))
            then [EventlessNotParallel i (t_from t)] else []))
         (List.enumerate 0 (sc_transitions sc))))"

definition checkJoins :: "Statechart \<Rightarrow> chart_error list option" where
  "checkJoins sc =
     map_option concat (those (map (\<lambda>p.
        case subtreeHasFinal sc p of
          None \<Rightarrow> None
        | Some f \<Rightarrow>
            Some (if f \<and> \<not> list_ex (\<lambda>t. t_from t = p \<and> t_on t = None) (sc_transitions sc)
                  then [NoJoin p] else []))
       (parallelPaths sc)))"

definition validateStatechart :: "Statechart \<Rightarrow> chart_error list option" where
  "validateStatechart sc =
     map_option (\<lambda>joins.
        (if sc_initial sc \<in> set (keys (sc_root sc)) then [] else [InitialNotTop (sc_initial sc)]) @
        checkInitials (sc_root sc) [] @ checkHistory (sc_root sc) [] None @
        checkTransitions sc @ joins) (checkJoins sc)"

section \<open>Entry, exit and the event microstep\<close>

definition enterTarget :: "Statechart \<Rightarrow> string \<Rightarrow> LastActive \<Rightarrow> string list option" where
  "enterTarget sc to la =
     (case resolveNode sc to of
        Some (History d dflt) \<Rightarrow>
          (let composite = parentOf to
           in case map_of la composite of
                None \<Rightarrow>
                  enterLeaves sc (case dflt of Some x \<Rightarrow> joinPath composite x | None \<Rightarrow> composite)
              | Some remembered \<Rightarrow>
                  if d = Deep then Some [remembered]
                  else enterLeaves sc
                    (joinWith [PATH_SEP] (take (length (segs composite) + 1) (segs remembered))))
      | _ \<Rightarrow> enterLeaves sc to)"

definition recordExits :: "Statechart \<Rightarrow> Configuration \<Rightarrow> string set \<Rightarrow> LastActive \<Rightarrow> LastActive" where
  "recordExits sc config exit la =
     foldl (\<lambda>nxt c.
        case List.find (\<lambda>leaf. starts_with leaf (c @ [PATH_SEP]) \<and> leaf \<in> exit) config of
          Some active \<Rightarrow> AList.update c active nxt
        | None \<Rightarrow> nxt) la (compoundPaths sc)"

fun is_history :: "StateNode option \<Rightarrow> bool" where
  "is_history (Some (History d dflt)) \<longleftrightarrow> True"
| "is_history _ \<longleftrightarrow> False"

definition guard_ok :: "(string \<Rightarrow> bool) option \<Rightarrow> string option \<Rightarrow> bool" where
  "guard_ok evalWhen w =
     (case w of None \<Rightarrow> True
      | Some expr \<Rightarrow> (case evalWhen of None \<Rightarrow> True | Some ev \<Rightarrow> ev expr))"

definition enabled :: "Configuration \<Rightarrow> string \<Rightarrow> (string \<Rightarrow> bool) option \<Rightarrow> Transition \<Rightarrow> bool" where
  "enabled config event evalWhen t \<longleftrightarrow>
     t_on t = Some event \<and> (t_from t = ANY_STATE \<or> isActive config (t_from t)) \<and>
     guard_ok evalWhen (t_when t)"

definition effectiveTo :: "Statechart \<Rightarrow> Transition \<Rightarrow> string" where
  "effectiveTo sc t = (if is_history (resolveNode sc (t_to t)) then parentOf (t_to t) else t_to t)"

definition exit_scope :: "Statechart \<Rightarrow> Transition \<Rightarrow> string" where
  "exit_scope sc t = (if t_from t = ANY_STATE then [] else lcca (t_from t) (effectiveTo sc t))"

text \<open>The configuration after leaving \<open>exit\<close> and entering \<open>entered\<close>.\<close>

definition replace_leaves :: "Configuration \<Rightarrow> string set \<Rightarrow> string list \<Rightarrow> Configuration" where
  "replace_leaves config exit entered =
     foldl set_add (filter (\<lambda>leaf. leaf \<notin> exit) config) entered"

definition fire :: "Statechart \<Rightarrow> Configuration \<Rightarrow> LastActive \<Rightarrow> nat \<Rightarrow> Transition \<Rightarrow> StepResult option" where
  "fire sc config la i t =
     (let exit = set (descendantsOf config (exit_scope sc t))
      in case enterTarget sc (t_to t) la of
           None \<Rightarrow> None
         | Some entered \<Rightarrow>
             (let nxt = replace_leaves config exit entered
              in Some \<lparr>next_config = nxt,
                   transitioned = (length nxt \<noteq> length config \<or> list_ex (\<lambda>p. p \<notin> set config) nxt),
                   via = Some i,
                   lastActive = recordExits sc config exit la\<rparr>))"

definition step ::
  "Statechart \<Rightarrow> Configuration \<Rightarrow> string \<Rightarrow> (string \<Rightarrow> bool) option \<Rightarrow> LastActive \<Rightarrow> StepResult option" where
  "step sc config event evalWhen la =
     (case find_index (enabled config event evalWhen) (sc_transitions sc) of
        Some i \<Rightarrow> fire sc config la i (sc_transitions sc ! i)
      | None \<Rightarrow> Some \<lparr>next_config = config, transitioned = False, via = None, lastActive = la\<rparr>)"

section \<open>Flat machines\<close>

definition fromFlat :: "Fsm \<Rightarrow> Statechart" where
  "fromFlat f = \<lparr>sc_initial = fsm_initial f,
     sc_root = foldl (\<lambda>root s. AList.update s Leaf root) [] (fsm_states f),
     sc_transitions = fsm_transitions f\<rparr>"

record FlatStepResult =
  flat_next :: string
  flat_transitioned :: bool
  flat_via :: "nat option"

definition stepFlat ::
  "Fsm \<Rightarrow> string \<Rightarrow> string \<Rightarrow> (string \<Rightarrow> bool) option \<Rightarrow> FlatStepResult option" where
  "stepFlat f current event evalWhen =
     map_option (\<lambda>r. \<lparr>flat_next = soleState (next_config r),
                       flat_transitioned = transitioned r, flat_via = via r\<rparr>)
       (step (fromFlat f) [current] event evalWhen [])"

section \<open>Parallel joins\<close>

definition isFinal :: "Statechart \<Rightarrow> string \<Rightarrow> bool" where
  "isFinal sc leaf \<longleftrightarrow> resolveNode sc leaf = Some Final"

definition regionDone :: "Statechart \<Rightarrow> string \<Rightarrow> Configuration \<Rightarrow> bool" where
  "regionDone sc rp config =
     list_ex (\<lambda>leaf. isFinal sc leaf \<and>
        (leaf = rp \<or> starts_with leaf (rp @ [PATH_SEP]) \<and> length (segs leaf) = length (segs rp) + 1))
       config"

definition allRegionsFinal :: "Statechart \<Rightarrow> string \<Rightarrow> Configuration \<Rightarrow> bool" where
  "allRegionsFinal sc p config =
     (case resolveNode sc p of
        Some (Parallel rs) \<Rightarrow> list_all (\<lambda>r. regionDone sc (joinPath p r) config) (keys rs)
      | _ \<Rightarrow> False)"

definition joinEdge :: "Statechart \<Rightarrow> (string \<Rightarrow> bool) option \<Rightarrow> string \<Rightarrow> Transition option" where
  "joinEdge sc evalWhen p =
     List.find (\<lambda>t. t_from t = p \<and> t_on t = None \<and> guard_ok evalWhen (t_when t)) (sc_transitions sc)"

definition joinable :: "Statechart \<Rightarrow> (string \<Rightarrow> bool) option \<Rightarrow> Configuration \<Rightarrow> string option" where
  "joinable sc evalWhen cur =
     List.find (\<lambda>p. isActive cur p \<and> allRegionsFinal sc p cur \<and> joinEdge sc evalWhen p \<noteq> None)
       (parallelPaths sc)"

fun settle_loop ::
  "nat \<Rightarrow> Statechart \<Rightarrow> (string \<Rightarrow> bool) option \<Rightarrow> Configuration \<Rightarrow> LastActive
     \<Rightarrow> (Configuration \<times> LastActive) option" where
  "settle_loop n sc evalWhen cur la =
     (if n = 0 then Some (cur, la)
      else (case joinable sc evalWhen cur of
              None \<Rightarrow> Some (cur, la)
            | Some p \<Rightarrow>
                (let join = the (joinEdge sc evalWhen p);
                     exit = set (descendantsOf cur p);
                     la' = recordExits sc cur exit la
                 in case enterTarget sc (t_to join) la' of
                      None \<Rightarrow> None
                    | Some entered \<Rightarrow>
                        settle_loop (n - 1) sc evalWhen (replace_leaves cur exit entered) la')))"

declare settle_loop.simps [simp del]

definition settle ::
  "Statechart \<Rightarrow> Configuration \<Rightarrow> (string \<Rightarrow> bool) option \<Rightarrow> LastActive
     \<Rightarrow> (Configuration \<times> LastActive) option" where
  "settle sc config evalWhen la = settle_loop 10000 sc evalWhen config la"

section \<open>Paths as segment lists\<close>

lemma segs_not_Nil [simp]: "segs p \<noteq> []"
  by (simp add: segs_def)

lemma segs_inj: "segs p = segs q \<longleftrightarrow> p = q"
  by (metis segs_def splitOn_inj)

lemma segs_atom: "PATH_SEP \<notin> set n \<Longrightarrow> segs n = [n]"
  by (simp add: segs_def splitOn_atom)

lemma joinWith_segs [simp]: "joinWith [PATH_SEP] (segs p) = p"
  by (simp add: segs_def)

lemma segs_joinWith:
  "ns \<noteq> [] \<Longrightarrow> set ns \<subseteq> set (segs p) \<Longrightarrow> segs (joinWith [PATH_SEP] ns) = ns"
  unfolding segs_def using splitOn_no_sep by (intro splitOn_joinWith) blast+

lemma under_iff: "under p q \<longleftrightarrow> (\<exists>r. segs q = segs p @ r)"
proof
  assume "under p q"
  then show "\<exists>r. segs q = segs p @ r"
    unfolding under_def starts_with_iff
    by (metis append_Cons append_Nil append_Nil2 append_assoc segs_def splitOn_append)
next
  assume "\<exists>r. segs q = segs p @ r"
  then obtain r where r: "segs q = segs p @ r" ..
  show "under p q"
  proof (cases "r = []")
    case True with r show ?thesis by (simp add: under_def segs_inj)
  next
    case False
    have "q = joinWith [PATH_SEP] (segs p @ r)" by (metis r joinWith_segs)
    with False have "q = p @ [PATH_SEP] @ joinWith [PATH_SEP] r"
      by (simp add: joinWith_append)
    then show ?thesis by (simp add: under_def starts_with_iff)
  qed
qed

lemma under_refl [simp]: "under p p"
  by (simp add: under_def)

lemma under_trans: "under p q \<Longrightarrow> under q r \<Longrightarrow> under p r"
  by (auto simp: under_iff)

lemma common_prefix_le:
  "(\<exists>r. xs = common_prefix xs ys @ r) \<and> (\<exists>r. ys = common_prefix xs ys @ r)"
  by (induction xs ys rule: common_prefix.induct) auto

lemma common_prefix_extends:
  "\<exists>r. common_prefix (zs @ xs) (zs @ ys) = zs @ r"
  by (induction zs) auto

lemma segs_lcca:
  assumes "lcca a b \<noteq> []"
  shows "segs (lcca a b) = common_prefix (segs a) (segs b)"
proof -
  have "common_prefix (segs a) (segs b) \<noteq> []" using assms by (auto simp: lcca_def)
  moreover have "set (common_prefix (segs a) (segs b)) \<subseteq> set (segs a)"
    by (metis common_prefix_le set_append sup_ge1)
  ultimately show ?thesis unfolding lcca_def by (rule segs_joinWith)
qed

lemma lcca_above: "lcca a b \<noteq> [] \<Longrightarrow> under (lcca a b) a \<and> under (lcca a b) b"
  by (metis common_prefix_le segs_lcca under_iff)

lemma lcca_within:
  assumes "under R a" and "under R b" and "R \<noteq> []"
  shows "lcca a b \<noteq> [] \<and> under R (lcca a b)"
proof -
  obtain x y where ab: "segs a = segs R @ x" "segs b = segs R @ y"
    using assms by (auto simp: under_iff)
  obtain r where r: "common_prefix (segs a) (segs b) = segs R @ r"
    using common_prefix_extends ab by metis
  have "lcca a b = joinWith [PATH_SEP] (segs R @ r)" by (simp add: lcca_def r)
  then have ne: "lcca a b \<noteq> []" using assms(3)
    by (cases "r = []") (simp_all add: joinWith_append)
  then have "segs (lcca a b) = segs R @ r" by (simp add: segs_lcca r)
  with ne show ?thesis by (auto simp: under_iff)
qed

lemma descendantsOf_mem: "leaf \<in> set (descendantsOf config scope) \<longleftrightarrow>
    leaf \<in> set config \<and> (scope = [] \<or> under scope leaf)"
  by (auto simp: descendantsOf_def)

lemma set_replace_leaves:
  "set (replace_leaves config ex entered) = (set config - ex) \<union> set entered"
  by (auto simp: replace_leaves_def)

lemma distinct_replace_leaves [simp]:
  "distinct config \<Longrightarrow> distinct (replace_leaves config ex entered)"
  by (simp add: replace_leaves_def)

section \<open>Active leaves\<close>

definition is_leaf :: "Statechart \<Rightarrow> string \<Rightarrow> bool" where
  "is_leaf sc p \<longleftrightarrow> resolveNode sc p = Some Leaf \<or> resolveNode sc p = Some Final"

definition leaf_config :: "Statechart \<Rightarrow> Configuration \<Rightarrow> bool" where
  "leaf_config sc c \<longleftrightarrow> distinct c \<and> list_all (is_leaf sc) c"

definition memory_ok :: "Statechart \<Rightarrow> LastActive \<Rightarrow> bool" where
  "memory_ok sc la \<longleftrightarrow>
     list_all (\<lambda>(c, leaf). is_leaf sc leaf \<and> starts_with leaf (c @ [PATH_SEP])) la"

lemma enterLeaves_is_leaf:
  "enterLeaves sc p = Some ls \<Longrightarrow> leaf \<in> set ls \<Longrightarrow> is_leaf sc leaf"
proof (induction sc p arbitrary: ls leaf rule: enterLeaves.induct)
  case (1 sc p)
  have eq: "enterLeaves sc p = Some ls" by (fact 1(3))
  show ?case
  proof (cases "resolveNode sc p")
    case None with eq 1(4) show ?thesis by (simp add: enterLeaves.simps)
  next
    case (Some node)
    show ?thesis
    proof (cases node)
      case (Compound i ss)
      with Some eq show ?thesis
        using 1(1)[OF Some Compound] 1(4) by (simp add: enterLeaves.simps[of sc p] split: if_splits)
    next
      case (Parallel rs)
      with Some eq obtain lss where lss:
        "map (\<lambda>r. enterLeaves sc (joinPath p r)) (keys rs) = map Some lss" "ls = concat lss"
        "[] \<notin> set (keys rs)"
        by (auto simp: enterLeaves.simps[of sc p] those_eq_Some_iff split: if_splits)
      from lss(2) 1(4) obtain l where l: "l \<in> set lss" "leaf \<in> set l" by auto
      then have "Some l \<in> set (map (\<lambda>r. enterLeaves sc (joinPath p r)) (keys rs))"
        unfolding lss(1) by simp
      then obtain r where r: "r \<in> set (keys rs)" "enterLeaves sc (joinPath p r) = Some l"
        by (metis (mono_tags, lifting) imageE list.set_map)
      from 1(2)[OF Some Parallel lss(3) r l(2)] show ?thesis .
    qed (use Some eq 1(4) in \<open>auto simp: enterLeaves.simps is_leaf_def\<close>)
  qed
qed

lemma memory_ok_lookup:
  "memory_ok sc la \<Longrightarrow> map_of la c = Some leaf \<Longrightarrow> is_leaf sc leaf \<and> starts_with leaf (c @ [PATH_SEP])"
  by (auto simp: memory_ok_def list_all_iff dest: map_of_SomeD)

lemma enterTarget_is_leaf:
  assumes "enterTarget sc to la = Some ls" and "memory_ok sc la" and "leaf \<in> set ls"
  shows "is_leaf sc leaf"
  using assms memory_ok_lookup[OF assms(2)] enterLeaves_is_leaf
  by (auto simp: enterTarget_def Let_def split: option.splits StateNode.splits if_splits)

lemma set_AList_update: "set (AList.update k v xs) \<subseteq> insert (k, v) (set xs)"
  by (induction xs) auto

lemma recordExits_memory_ok:
  assumes "leaf_config sc config" and "memory_ok sc la"
  shows "memory_ok sc (recordExits sc config ex la)"
proof -
  have "memory_ok sc la \<Longrightarrow> memory_ok sc (foldl (\<lambda>nxt c.
        case List.find (\<lambda>leaf. starts_with leaf (c @ [PATH_SEP]) \<and> leaf \<in> ex) config of
          Some active \<Rightarrow> AList.update c active nxt
        | None \<Rightarrow> nxt) la cs)" for la cs
  proof (induction cs arbitrary: la)
    case (Cons c cs)
    have "memory_ok sc (AList.update c leaf la)"
      if "List.find (\<lambda>leaf. starts_with leaf (c @ [PATH_SEP]) \<and> leaf \<in> ex) config = Some leaf" for leaf
      using find_Some_mem[OF that] assms(1) Cons.prems set_AList_update[of c leaf la]
      by (auto simp: memory_ok_def list_all_iff leaf_config_def)
    with Cons show ?case by (auto split: option.splits)
  qed simp
  with assms(2) show ?thesis by (simp add: recordExits_def)
qed

lemma replace_leaves_leaf_config:
  assumes "leaf_config sc config" and "\<And>l. l \<in> set entered \<Longrightarrow> is_leaf sc l"
  shows "leaf_config sc (replace_leaves config ex entered)"
  using assms by (auto simp: leaf_config_def list_all_iff set_replace_leaves)

lemma fire_leaf_config:
  assumes "fire sc config la i t = Some r" and "leaf_config sc config" and "memory_ok sc la"
  shows "leaf_config sc (next_config r) \<and> memory_ok sc (lastActive r)"
  using assms enterTarget_is_leaf[OF _ assms(3)]
  by (auto simp: fire_def Let_def recordExits_memory_ok split: option.splits
           intro!: replace_leaves_leaf_config)

lemma settle_loop_leaf_config:
  assumes "settle_loop n sc evalWhen c la = Some (c', la')"
    and "leaf_config sc c" and "memory_ok sc la"
  shows "leaf_config sc c' \<and> memory_ok sc la'"
  using assms
proof (induction n arbitrary: c la)
  case 0
  then show ?case by (simp add: settle_loop.simps)
next
  case (Suc n)
  show ?case
  proof (cases "joinable sc evalWhen c")
    case None
    with Suc.prems show ?thesis by (simp add: settle_loop.simps)
  next
    case (Some p)
    let ?ex = "set (descendantsOf c p)"
    let ?la = "recordExits sc c ?ex la"
    from Suc.prems Some obtain ls where ls:
      "enterTarget sc (t_to (the (joinEdge sc evalWhen p))) ?la = Some ls"
      "settle_loop n sc evalWhen (replace_leaves c ?ex ls) ?la = Some (c', la')"
      by (auto simp: settle_loop.simps[of "Suc n"] Let_def split: option.splits)
    have mem: "memory_ok sc ?la" using Suc.prems by (intro recordExits_memory_ok)
    moreover have "leaf_config sc (replace_leaves c ?ex ls)"
      using Suc.prems(2) enterTarget_is_leaf[OF ls(1) mem] by (rule replace_leaves_leaf_config)
    ultimately show ?thesis using Suc.IH[OF ls(2)] by simp
  qed
qed

text \<open>The states a run of the engine can be in: configuration and history memory together.\<close>

inductive chart_reach :: "Statechart \<Rightarrow> Configuration \<Rightarrow> LastActive \<Rightarrow> bool" for sc where
  reach_init: "initialConfig sc = Some c \<Longrightarrow> chart_reach sc c []"
| reach_step: "chart_reach sc c la \<Longrightarrow> step sc c ev evalWhen la = Some r \<Longrightarrow>
     chart_reach sc (next_config r) (lastActive r)"
| reach_settle: "chart_reach sc c la \<Longrightarrow> settle sc c evalWhen la = Some (c', la') \<Longrightarrow>
     chart_reach sc c' la'"

lemma initialConfig_leaf_config: "initialConfig sc = Some c \<Longrightarrow> leaf_config sc c"
  by (auto simp: initialConfig_def leaf_config_def list_all_iff dest: enterLeaves_is_leaf)

lemma step_leaf_config:
  "step sc c ev evalWhen la = Some r \<Longrightarrow> leaf_config sc c \<Longrightarrow> memory_ok sc la \<Longrightarrow>
     leaf_config sc (next_config r) \<and> memory_ok sc (lastActive r)"
  by (auto simp: step_def dest: fire_leaf_config split: option.splits)

lemma memory_ok_Nil [simp]: "memory_ok sc []"
  by (simp add: memory_ok_def)

lemma chart_reach_inv:
  assumes "chart_reach sc c la"
  shows "leaf_config sc c \<and> memory_ok sc la"
  using assms
proof (induction rule: chart_reach.induct)
  case (reach_init c)
  then show ?case by (simp add: initialConfig_leaf_config)
next
  case (reach_step c la ev evalWhen r)
  then show ?case by (blast dest: step_leaf_config)
next
  case (reach_settle c la evalWhen c' la')
  then show ?case unfolding settle_def by (blast dest: settle_loop_leaf_config)
qed

text \<open>
  C1. Configurations hold active leaves only: in every state a run of the engine can reach, from
  the initial configuration by any sequence of \<open>step\<close> and \<open>settle\<close> calls with any guard
  evaluators, the configuration is a duplicate-free list of paths that each resolve to an atomic
  state (a leaf or a final state, never a compound, a parallel or a history pseudostate), and every
  entry of the history memory is an atomic state below the compound it is remembered for.
\<close>

theorem reachable_configurations_are_leaves:
  assumes "chart_reach sc c la"
  shows "leaf_config sc c \<and> memory_ok sc la"
  using assms by (rule chart_reach_inv)

section \<open>Flat machines behave as transition tables\<close>

definition slash_free :: "Fsm \<Rightarrow> bool" where
  "slash_free f \<longleftrightarrow> list_all (\<lambda>s. PATH_SEP \<notin> set s) (fsm_states f)"

text \<open>The abstract meaning of a flat machine: a table searched in document order.\<close>

definition flat_enabled :: "string \<Rightarrow> string \<Rightarrow> (string \<Rightarrow> bool) option \<Rightarrow> Transition \<Rightarrow> bool" where
  "flat_enabled cur event evalWhen t \<longleftrightarrow>
     t_on t = Some event \<and> (t_from t = ANY_STATE \<or> t_from t = cur) \<and> guard_ok evalWhen (t_when t)"

definition flat_spec :: "Fsm \<Rightarrow> string \<Rightarrow> string \<Rightarrow> (string \<Rightarrow> bool) option \<Rightarrow> FlatStepResult" where
  "flat_spec f cur event evalWhen =
     (case find_index (flat_enabled cur event evalWhen) (fsm_transitions f) of
        None \<Rightarrow> \<lparr>flat_next = cur, flat_transitioned = False, flat_via = None\<rparr>
      | Some i \<Rightarrow> (let to = t_to (fsm_transitions f ! i)
                  in \<lparr>flat_next = to, flat_transitioned = (to \<noteq> cur), flat_via = Some i\<rparr>))"

lemma map_of_flat_root:
  "map_of (foldl (\<lambda>root s. AList.update s Leaf root) acc xs) k =
     (if k \<in> set xs then Some Leaf else map_of acc k)"
  by (induction xs arbitrary: acc) (auto simp: update_conv')

lemma resolve_fromFlat:
  "PATH_SEP \<notin> set s \<Longrightarrow> s \<in> set (fsm_states f) \<Longrightarrow> resolveNode (fromFlat f) s = Some Leaf"
  by (simp add: resolveNode_def segs_atom fromFlat_def map_of_flat_root)

lemma under_atom: "PATH_SEP \<notin> set q \<Longrightarrow> under p q \<longleftrightarrow> p = q"
  by (auto simp: under_def starts_with_iff)

lemma enabled_singleton:
  "PATH_SEP \<notin> set cur \<Longrightarrow> enabled [cur] event evalWhen = flat_enabled cur event evalWhen"
  by (auto simp: fun_eq_iff enabled_def flat_enabled_def isActive_def under_atom)

lemma lcca_atoms:
  "PATH_SEP \<notin> set a \<Longrightarrow> PATH_SEP \<notin> set b \<Longrightarrow> lcca a b = (if a = b then a else [])"
  by (simp add: lcca_def segs_atom)

lemma validateFsm_to:
  assumes "validateFsm f = []" and "i < length (fsm_transitions f)"
  shows "t_to (fsm_transitions f ! i) \<in> set (fsm_states f)"
proof (rule ccontr)
  assume n: "\<not> ?thesis"
  have "(i, fsm_transitions f ! i) \<in> set (List.enumerate 0 (fsm_transitions f))"
    using assms(2) by (force simp: in_set_enumerate_eq)
  with n assms(1) show False by (auto simp: validateFsm_def split: if_splits)
qed

lemma enumerate_concat_nil:
  assumes "concat (map f (List.enumerate 0 xs)) = []" and "i < length xs"
  shows "f (i, xs ! i) = []"
proof -
  have "(i, xs ! i) \<in> set (List.enumerate 0 xs)"
    using assms(2) by (force simp: in_set_enumerate_eq)
  with assms(1) show ?thesis by simp
qed

lemma step_fromFlat:
  assumes ok: "validateFsm f = []" "slash_free f" and cur: "cur \<in> set (fsm_states f)"
    and i: "find_index (flat_enabled cur event evalWhen) (fsm_transitions f) = Some i"
  defines "to \<equiv> t_to (fsm_transitions f ! i)"
  shows "\<exists>la. fire (fromFlat f) [cur] [] i (fsm_transitions f ! i) =
    Some \<lparr>next_config = [to], transitioned = (to \<noteq> cur), via = Some i, lastActive = la\<rparr>"
proof -
  have en: "flat_enabled cur event evalWhen (fsm_transitions f ! i)" "i < length (fsm_transitions f)"
    using find_index_SomeD[OF i] by auto
  have to: "to \<in> set (fsm_states f)" using ok en(2) unfolding to_def by (intro validateFsm_to)
  have sf: "PATH_SEP \<notin> set cur" "PATH_SEP \<notin> set to"
    using ok(2) cur to by (auto simp: slash_free_def list_all_iff)
  have r: "resolveNode (fromFlat f) to = Some Leaf"
    using sf(2) to by (rule resolve_fromFlat)
  have "descendantsOf [cur] (exit_scope (fromFlat f) (fsm_transitions f ! i)) = [cur]"
    using en sf r by (auto simp: exit_scope_def effectiveTo_def to_def[symmetric] flat_enabled_def lcca_atoms
        descendantsOf_def Let_def)
  moreover have "enterTarget (fromFlat f) to [] = Some [to]"
    by (simp add: enterTarget_def r enterLeaves.simps)
  ultimately show ?thesis
    by (auto simp: fire_def to_def[symmetric] replace_leaves_def set_add_def)
qed

lemma stepFlat_table:
  assumes "validateFsm f = []" and "slash_free f" and "cur \<in> set (fsm_states f)"
  shows "stepFlat f cur event evalWhen = Some (flat_spec f cur event evalWhen)"
proof (cases "find_index (flat_enabled cur event evalWhen) (fsm_transitions f)")
  have sf: "PATH_SEP \<notin> set cur"
    using assms by (auto simp: slash_free_def list_all_iff)
  have tr: "sc_transitions (fromFlat f) = fsm_transitions f" by (simp add: fromFlat_def)
  {
    case None
    then show ?thesis
      by (simp add: stepFlat_def step_def tr enabled_singleton[OF sf] flat_spec_def soleState_def)
  next
    case (Some i)
    from step_fromFlat[OF assms Some] obtain la where
      "fire (fromFlat f) [cur] [] i (fsm_transitions f ! i) =
         Some \<lparr>next_config = [t_to (fsm_transitions f ! i)],
               transitioned = (t_to (fsm_transitions f ! i) \<noteq> cur), via = Some i, lastActive = la\<rparr>"
      by blast
    with Some show ?thesis
      by (simp add: stepFlat_def step_def tr enabled_singleton[OF sf] flat_spec_def soleState_def
          Let_def)
  }
qed

text \<open>
  C16. A flat machine runs as its transition table. For a machine that \<open>validateFsm\<close> accepts and
  whose state names contain no path separator, \<open>stepFlat\<close> from a declared state always returns,
  and returns what the table says: the first transition in document order whose event is the given
  one, whose source is the current state or the wildcard and whose guard holds decides the next
  state; without one the machine stays, with \<open>transitioned\<close> false and \<open>via\<close> absent.
\<close>

theorem stepFlat_refines_table:
  assumes "validateFsm f = []" and "slash_free f" and "cur \<in> set (fsm_states f)"
  shows "stepFlat f cur event evalWhen = Some (flat_spec f cur event evalWhen)"
  using assms by (rule stepFlat_table)

definition demo_fsm :: Fsm where
  "demo_fsm = \<lparr>fsm_initial = ''scope'', fsm_states = [''scope'', ''plan''],
     fsm_transitions = [\<lparr>t_from = ''scope'', t_on = Some ''pass'', t_to = ''plan'', t_when = None\<rparr>,
       \<lparr>t_from = ANY_STATE, t_on = Some ''reset'', t_to = ''scope'', t_when = None\<rparr>]\<rparr>"

theorem stepFlat_refines_table_witness:
  "stepFlat demo_fsm ''scope'' ''pass'' None = Some (flat_spec demo_fsm ''scope'' ''pass'' None) \<and>
   flat_next (flat_spec demo_fsm ''scope'' ''pass'' None) = ''plan''"
proof -
  have h: "validateFsm demo_fsm = []" "slash_free demo_fsm" "''scope'' \<in> set (fsm_states demo_fsm)"
    by (simp_all add: demo_fsm_def validateFsm_def slash_free_def PATH_SEP_def ANY_STATE_def)
  have "flat_next (flat_spec demo_fsm ''scope'' ''pass'' None) = ''plan''"
    by (simp add: flat_spec_def demo_fsm_def flat_enabled_def guard_ok_def)
  with stepFlat_refines_table[OF h] show ?thesis by simp
qed

definition slash_fsm :: Fsm where
  "slash_fsm = \<lparr>fsm_initial = ''s'', fsm_states = [''s'', ''a/b''],
     fsm_transitions = [\<lparr>t_from = ''s'', t_on = Some ''go'', t_to = ''a/b'', t_when = None\<rparr>]\<rparr>"

text \<open>
  The separator is not excluded from flat state names: \<open>validateFsm\<close> (and the schema) accept a
  machine with a state called \<open>a/b\<close>, but the lifted tree cannot resolve that name, so the declared
  transition into it ends in the empty configuration and \<open>stepFlat\<close> reports the empty string as the
  next state.
\<close>

theorem stepFlat_loses_slash_state:
  "Fsm_schema slash_fsm \<and> validateFsm slash_fsm = [] \<and>
   stepFlat slash_fsm ''s'' ''go'' None =
     Some \<lparr>flat_next = [], flat_transitioned = True, flat_via = Some 0\<rparr>"
proof -
  have "stepFlat slash_fsm ''s'' ''go'' None =
     Some \<lparr>flat_next = [], flat_transitioned = True, flat_via = Some 0\<rparr>"
    by (simp add: slash_fsm_def stepFlat_def step_def fromFlat_def enabled_def isActive_def under_def
        guard_ok_def fire_def enterTarget_def resolveNode_def segs_def PATH_SEP_def exit_scope_def
        effectiveTo_def
        ANY_STATE_def lcca_def descendantsOf_def enterLeaves.simps replace_leaves_def soleState_def
        Let_def)
  then show ?thesis
    by (simp add: slash_fsm_def Fsm_schema_def Transition_schema_def validateFsm_def ANY_STATE_def)
qed

section \<open>The engine returns\<close>

text \<open>
  Every name in the tree, and every name a compound gives as initial, is a proper segment, and the
  names of a level differ (as the keys of an object do).
\<close>

fun names_ok :: "level \<Rightarrow> bool" where
  "names_ok [] \<longleftrightarrow> True"
| "names_ok ((n, node) # rest) \<longleftrightarrow>
     n \<noteq> [] \<and> PATH_SEP \<notin> set n \<and> n \<notin> set (keys rest) \<and>
     (case node of Compound i ss \<Rightarrow> i \<noteq> [] \<and> PATH_SEP \<notin> set i \<and> names_ok ss
      | Parallel rs \<Rightarrow> names_ok rs | _ \<Rightarrow> True) \<and>
     names_ok rest"

fun node_names_ok :: "StateNode \<Rightarrow> bool" where
  "node_names_ok (Compound i ss) \<longleftrightarrow> i \<noteq> [] \<and> PATH_SEP \<notin> set i \<and> names_ok ss"
| "node_names_ok (Parallel rs) \<longleftrightarrow> names_ok rs"
| "node_names_ok _ \<longleftrightarrow> True"

lemma names_ok_mem:
  "names_ok lv \<Longrightarrow> (n, node) \<in> set lv \<Longrightarrow> n \<noteq> [] \<and> PATH_SEP \<notin> set n \<and> node_names_ok node"
  by (induction lv rule: names_ok.induct) (auto split: StateNode.splits)

lemma node_names_ok_substates:
  "node_names_ok node \<Longrightarrow> substates node = Some lv \<Longrightarrow> names_ok lv"
  by (cases node) auto

lemma resolve_segs_names_ok:
  "names_ok lv \<Longrightarrow> resolve_segs lv ns = Some node \<Longrightarrow> node_names_ok node"
proof (induction lv ns arbitrary: node rule: resolve_segs.induct)
  case (2 lv n ns)
  from 2(3) obtain nd where nd: "map_of lv n = Some nd" by (auto split: option.splits)
  have "node_names_ok nd" using names_ok_mem[OF 2(2) map_of_SomeD[OF nd]] by simp
  with 2 nd show ?case
    by (auto split: if_splits option.splits dest: node_names_ok_substates)
qed simp

lemma resolveNode_names_ok:
  "names_ok (sc_root sc) \<Longrightarrow> resolveNode sc p = Some node \<Longrightarrow> node_names_ok node"
  by (auto simp: resolveNode_def intro: resolve_segs_names_ok)

lemma names_ok_keys: "names_ok lv \<Longrightarrow> [] \<notin> set (keys lv)"
  by (auto dest: names_ok_mem)

lemma enterLeaves_returns: "names_ok (sc_root sc) \<Longrightarrow> \<exists>ls. enterLeaves sc p = Some ls"
proof (induction sc p rule: enterLeaves.induct)
  case (1 sc p)
  show ?case
  proof (cases "resolveNode sc p")
    case None then show ?thesis by (simp add: enterLeaves.simps)
  next
    case (Some node)
    have ok: "node_names_ok node" using 1(3) Some by (rule resolveNode_names_ok)
    show ?thesis
    proof (cases node)
      case (Compound i ss)
      with 1(1)[OF Some Compound] ok 1(3) Some show ?thesis by (simp add: enterLeaves.simps[of sc p])
    next
      case (Parallel rs)
      then have k: "[] \<notin> set (keys rs)" using ok names_ok_keys by simp
      have "\<exists>lss. those (map (\<lambda>r. enterLeaves sc (joinPath p r)) (keys rs)) = Some lss"
        using 1(2)[OF Some Parallel k] 1(3) by (intro those_map_Some) auto
      with Some Parallel k show ?thesis by (auto simp: enterLeaves.simps[of sc p])
    qed (use Some in \<open>simp_all add: enterLeaves.simps\<close>)
  qed
qed

lemma enterTarget_returns: "names_ok (sc_root sc) \<Longrightarrow> \<exists>ls. enterTarget sc p la = Some ls"
  using enterLeaves_returns
  by (auto simp: enterTarget_def Let_def split: option.splits StateNode.splits)

lemma some_opt_returns: "(\<And>x. x \<in> set xs \<Longrightarrow> \<exists>b. f x = Some b) \<Longrightarrow> \<exists>b. some_opt f xs = Some b"
  by (induction xs) (force split: option.splits bool.splits)+

lemma subtreeHasFinal_returns: "names_ok (sc_root sc) \<Longrightarrow> \<exists>b. subtreeHasFinal sc p = Some b"
proof (induction sc p rule: subtreeHasFinal.induct)
  case (1 sc p)
  show ?case
  proof (cases "resolveNode sc p")
    case None then show ?thesis by (auto simp: subtreeHasFinal.simps)
  next
    case (Some node)
    have ok: "node_names_ok node" using 1(3) Some by (rule resolveNode_names_ok)
    show ?thesis
    proof (cases node)
      case (Compound i ss)
      have "k \<noteq> []" if "k \<in> set (keys ss)" for k
        using ok that unfolding Compound by (metis names_ok_keys node_names_ok.simps(1))
      then have "\<exists>b. some_opt (\<lambda>k. if k = [] then None else subtreeHasFinal sc (joinPath p k)) (keys ss) = Some b"
        using 1(1)[OF Some Compound] 1(3) by (intro some_opt_returns) auto
      with Some Compound show ?thesis by (simp add: subtreeHasFinal.simps[of sc p])
    next
      case (Parallel rs)
      have "k \<noteq> []" if "k \<in> set (keys rs)" for k
        using ok that unfolding Parallel by (metis names_ok_keys node_names_ok.simps(2))
      then have "\<exists>b. some_opt (\<lambda>k. if k = [] then None else subtreeHasFinal sc (joinPath p k)) (keys rs) = Some b"
        using 1(2)[OF Some Parallel] 1(3) by (intro some_opt_returns) auto
      with Some Parallel show ?thesis by (simp add: subtreeHasFinal.simps[of sc p])
    qed (use Some in \<open>auto simp: subtreeHasFinal.simps\<close>)
  qed
qed

lemma step_returns:
  assumes "names_ok (sc_root sc)" shows "\<exists>r. step sc c ev evalWhen la = Some r"
proof (cases "find_index (enabled c ev evalWhen) (sc_transitions sc)")
  case (Some i)
  obtain ls where "enterTarget sc (t_to (sc_transitions sc ! i)) la = Some ls"
    using enterTarget_returns[OF assms] by blast
  with Some show ?thesis by (simp add: step_def fire_def Let_def)
qed (simp add: step_def)

lemma settle_loop_returns:
  "names_ok (sc_root sc) \<Longrightarrow> \<exists>x. settle_loop n sc evalWhen c la = Some x"
proof (induction n arbitrary: c la)
  case (Suc n)
  then show ?case using enterTarget_returns[OF Suc.prems]
    by (auto simp: settle_loop.simps[of "Suc n"] Let_def split: option.splits)
       (metis option.distinct(1))
qed (simp add: settle_loop.simps)

lemma validateStatechart_returns:
  assumes "names_ok (sc_root sc)" shows "\<exists>errs. validateStatechart sc = Some errs"
proof -
  have "\<exists>jss. those (map (\<lambda>p.
        case subtreeHasFinal sc p of
          None \<Rightarrow> None
        | Some f \<Rightarrow>
            Some (if f \<and> \<not> list_ex (\<lambda>t. t_from t = p \<and> t_on t = None) (sc_transitions sc)
                  then [NoJoin p] else []))
       (parallelPaths sc)) = Some jss"
    by (rule those_map_Some) (use subtreeHasFinal_returns[OF assms] in \<open>force split: option.splits\<close>)
  then show ?thesis by (auto simp: validateStatechart_def checkJoins_def)
qed

text \<open>
  C20. The engine is total on every chart whose state names (and the initial names its compounds
  give) are non-empty and contain no separator: validation, the initial configuration, every
  \<open>step\<close> and every \<open>settle\<close> return a result, whatever the configuration, event, guards and
  history memory are.
\<close>

theorem engine_returns:
  assumes "names_ok (sc_root sc)"
  shows "(\<exists>errs. validateStatechart sc = Some errs) \<and> (\<exists>c0. initialConfig sc = Some c0) \<and>
         (\<exists>r. step sc c ev evalWhen la = Some r) \<and> (\<exists>x. settle sc c evalWhen la = Some x)"
  using validateStatechart_returns[OF assms] enterLeaves_returns[OF assms] step_returns[OF assms]
    settle_loop_returns[OF assms]
  by (simp add: initialConfig_def settle_def)

section \<open>Regions are independent\<close>

lemma under_joinPath: "p \<noteq> [] \<Longrightarrow> under p (joinPath p n)"
  by (cases "n = []") (auto simp: under_iff segs_joinPath, simp add: joinPath_def)

lemma enterLeaves_under:
  "enterLeaves sc p = Some ls \<Longrightarrow> leaf \<in> set ls \<Longrightarrow> p \<noteq> [] \<Longrightarrow> under p leaf"
proof (induction sc p arbitrary: ls leaf rule: enterLeaves.induct)
  case (1 sc p)
  have eq: "enterLeaves sc p = Some ls" by (fact 1(3))
  show ?case
  proof (cases "resolveNode sc p")
    case None with eq 1(4) show ?thesis by (simp add: enterLeaves.simps)
  next
    case (Some node)
    show ?thesis
    proof (cases node)
      case (Compound i ss)
      with Some eq have "i \<noteq> []" "enterLeaves sc (joinPath p i) = Some ls"
        by (auto simp: enterLeaves.simps[of sc p] split: if_splits)
      with 1(1)[OF Some Compound _ _ 1(4)] 1(5) show ?thesis
        by (metis joinPath_Nil_iff under_joinPath under_trans)
    next
      case (Parallel rs)
      with Some eq obtain lss where lss:
        "map (\<lambda>r. enterLeaves sc (joinPath p r)) (keys rs) = map Some lss" "ls = concat lss"
        "[] \<notin> set (keys rs)"
        by (auto simp: enterLeaves.simps[of sc p] those_eq_Some_iff split: if_splits)
      from lss(2) 1(4) obtain l where l: "l \<in> set lss" "leaf \<in> set l" by auto
      then have "Some l \<in> set (map (\<lambda>r. enterLeaves sc (joinPath p r)) (keys rs))"
        unfolding lss(1) by simp
      then obtain r where r: "r \<in> set (keys rs)" "enterLeaves sc (joinPath p r) = Some l"
        by (metis (mono_tags, lifting) imageE list.set_map)
      from 1(2)[OF Some Parallel lss(3) r l(2)] 1(5) show ?thesis
        by (metis joinPath_Nil_iff under_joinPath under_trans)
    qed (use Some eq 1(4) in \<open>auto simp: enterLeaves.simps\<close>)
  qed
qed

lemma under_of_starts_with: "starts_with q (p @ [PATH_SEP]) \<Longrightarrow> under p q"
  by (simp add: under_def)

lemma segs_take_under:
  assumes "segs q = segs p @ r"
  shows "segs (joinWith [PATH_SEP] (take (length (segs p) + 1) (segs q))) = segs p @ take 1 r"
proof -
  have "take (length (segs p) + 1) (segs q) = segs p @ take 1 r" by (simp add: assms)
  moreover have "segs (joinWith [PATH_SEP] (segs p @ take 1 r)) = segs p @ take 1 r"
    by (rule segs_joinWith[of _ q]) (auto simp: assms dest: in_set_takeD)
  ultimately show ?thesis by simp
qed

lemma enterTarget_under:
  assumes "enterTarget sc (t_to t) la = Some ls" and mem: "memory_ok sc la"
    and leaf: "leaf \<in> set ls" and ne: "effectiveTo sc t \<noteq> []"
  shows "under (effectiveTo sc t) leaf"
proof (cases "is_history (resolveNode sc (t_to t))")
  case False
  then have "enterLeaves sc (t_to t) = Some ls"
    using assms(1) by (auto simp: enterTarget_def split: option.splits StateNode.splits)
  with False leaf ne show ?thesis by (simp add: effectiveTo_def enterLeaves_under)
next
  case True
  then obtain d x where h: "resolveNode sc (t_to t) = Some (History d x)"
    by (cases "resolveNode sc (t_to t)" rule: is_history.cases) auto
  let ?c = "parentOf (t_to t)"
  have eff: "effectiveTo sc t = ?c" "?c \<noteq> []" using True ne by (auto simp: effectiveTo_def)
  have dflt: "under ?c (case x of Some y \<Rightarrow> joinPath ?c y | None \<Rightarrow> ?c)"
    using eff(2) by (auto split: option.splits intro: under_joinPath)
  have ne': "q \<noteq> []" if "under ?c q" for q
    using that eff(2) by (auto simp: under_def starts_with_iff)
  show ?thesis
  proof (cases "map_of la ?c")
    case None
    with h assms(1) have "enterLeaves sc (case x of Some y \<Rightarrow> joinPath ?c y | None \<Rightarrow> ?c) = Some ls"
      by (simp add: enterTarget_def Let_def)
    from enterLeaves_under[OF this leaf ne'[OF dflt]] dflt show ?thesis
      unfolding eff(1) by (rule under_trans[rotated])
  next
    case (Some m)
    have um: "under ?c m" using memory_ok_lookup[OF mem Some] by (simp add: under_of_starts_with)
    then obtain r where r: "segs m = segs ?c @ r" by (auto simp: under_iff)
    let ?q = "joinWith [PATH_SEP] (take (length (segs ?c) + 1) (segs m))"
    have uq: "under ?c ?q" using segs_take_under[OF r] by (auto simp: under_iff)
    show ?thesis
    proof (cases d)
      case Deep with h Some assms(1) leaf um show ?thesis by (auto simp: enterTarget_def Let_def eff(1))
    next
      case Shallow
      with h Some assms(1) have "enterLeaves sc ?q = Some ls" by (simp add: enterTarget_def Let_def)
      from enterLeaves_under[OF this leaf ne'[OF uq]] uq show ?thesis
        unfolding eff(1) by (rule under_trans[rotated])
    qed
  qed
qed

lemma step_via:
  "step sc c ev evalWhen la = Some r \<Longrightarrow> via r = Some i \<Longrightarrow>
     i < length (sc_transitions sc) \<and> enabled c ev evalWhen (sc_transitions sc ! i) \<and>
     fire sc c la i (sc_transitions sc ! i) = Some r"
  by (auto simp: step_def fire_def Let_def dest!: find_index_SomeD split: option.splits)

text \<open>
  A transition inside a region does not touch the rest of the chart. If the transition that
  \<open>step\<close> takes has its source and its (effective) target inside the subtree at \<open>R\<close>, then the
  active leaves outside that subtree are exactly the same before and after the step, so orthogonal
  regions advance independently.
\<close>

theorem region_isolation:
  assumes "step sc c ev evalWhen la = Some r" and "via r = Some i"
    and "memory_ok sc la" and "R \<noteq> []" and "t_from (sc_transitions sc ! i) \<noteq> ANY_STATE"
    and "under R (t_from (sc_transitions sc ! i))"
    and "under R (effectiveTo sc (sc_transitions sc ! i))"
  shows "{leaf \<in> set (next_config r). \<not> under R leaf} = {leaf \<in> set c. \<not> under R leaf}"
proof -
  let ?t = "sc_transitions sc ! i"
  obtain ls where ls: "enterTarget sc (t_to ?t) la = Some ls"
    "next_config r = replace_leaves c (set (descendantsOf c (exit_scope sc ?t))) ls"
    using step_via[OF assms(1,2)] by (auto simp: fire_def Let_def split: option.splits)
  have sc: "exit_scope sc ?t \<noteq> []" "under R (exit_scope sc ?t)"
    using assms(5) lcca_within[OF assms(6,7,4)] by (auto simp: exit_scope_def)
  have "effectiveTo sc ?t \<noteq> []"
    using assms(4,7) by (auto simp: under_def starts_with_iff)
  then have new: "under R l" if "l \<in> set ls" for l
    using enterTarget_under[OF ls(1) assms(3) that] assms(7) under_trans by blast
  show ?thesis
    using sc new under_trans[OF sc(2)] by (auto simp: ls(2) set_replace_leaves descendantsOf_mem)
qed

section \<open>The join macrostep reaches a fixpoint\<close>

text \<open>
  A chart whose eventless joins leave their parallel, stay inside the parallels that enclose it,
  and enter no parallel.
\<close>

definition joins_local :: "Statechart \<Rightarrow> bool" where
  "joins_local sc \<longleftrightarrow>
     list_all (\<lambda>t. t_on t = None \<longrightarrow>
        effectiveTo sc t \<noteq> [] \<and> \<not> under (t_from t) (effectiveTo sc t) \<and>
        list_all (\<lambda>q. \<not> under (effectiveTo sc t) q \<and>
           (under q (effectiveTo sc t) \<longrightarrow> under q (t_from t))) (parallelPaths sc))
       (sc_transitions sc)"

definition active_parallels :: "Statechart \<Rightarrow> Configuration \<Rightarrow> string list" where
  "active_parallels sc c = filter (isActive c) (parallelPaths sc)"

lemma isActive_iff: "isActive c p \<longleftrightarrow> (\<exists>leaf\<in>set c. under p leaf)"
  by (auto simp: isActive_def list_ex_iff)

lemma under_comparable: "under p x \<Longrightarrow> under q x \<Longrightarrow> under p q \<or> under q p"
proof -
  assume "under p x" "under q x"
  then obtain r s where "segs p @ r = segs q @ s" by (metis under_iff)
  then obtain us where "segs p = segs q @ us \<or> segs q = segs p @ us"
    unfolding append_eq_append_conv2 by (metis (full_types))
  then show ?thesis by (auto simp: under_iff)
qed

lemma length_filter_strict:
  assumes "\<And>x. P x \<Longrightarrow> Q x" and "y \<in> set xs" and "Q y" and "\<not> P y"
  shows "length (filter P xs) < length (filter Q xs)"
  using assms(2-) 
proof (induction xs)
  case (Cons x xs)
  have "length (filter P xs) \<le> length (filter Q xs)"
    using assms(1) by (induction xs) auto
  with Cons show ?case using assms(1) by auto
qed simp

lemma joinEdge_SomeD:
  "joinEdge sc evalWhen p = Some t \<Longrightarrow> t \<in> set (sc_transitions sc) \<and> t_from t = p \<and> t_on t = None"
  unfolding joinEdge_def by (drule find_Some_mem) simp

lemma joinable_SomeD:
  assumes "joinable sc evalWhen c = Some p"
  shows "p \<in> set (parallelPaths sc) \<and> isActive c p \<and> allRegionsFinal sc p c \<and>
     (\<exists>t. joinEdge sc evalWhen p = Some t \<and> t \<in> set (sc_transitions sc) \<and> t_from t = p \<and> t_on t = None)"
  using find_Some_mem[OF assms[unfolded joinable_def]] joinEdge_SomeD by blast

lemma join_decreases:
  assumes loc: "joins_local sc" and j: "joinable sc evalWhen c = Some p"
    and ls: "enterTarget sc (t_to (the (joinEdge sc evalWhen p))) la = Some ls"
    and mem: "memory_ok sc la"
  shows "length (active_parallels sc (replace_leaves c (set (descendantsOf c p)) ls))
         < length (active_parallels sc c)"
proof -
  obtain t where t: "joinEdge sc evalWhen p = Some t" "t \<in> set (sc_transitions sc)"
    "t_from t = p" "t_on t = None" and p: "p \<in> set (parallelPaths sc)" "isActive c p"
    using joinable_SomeD[OF j] by blast
  let ?e = "effectiveTo sc t"
  have e: "?e \<noteq> []" "\<not> under p ?e"
    "\<And>q. q \<in> set (parallelPaths sc) \<Longrightarrow> \<not> under ?e q \<and> (under q ?e \<longrightarrow> under q p)"
    using loc t by (auto simp: joins_local_def list_all_iff)
  have new: "under ?e l" if "l \<in> set ls" for l
    using enterTarget_under[of sc t la ls l] ls t(1) mem that e(1) by simp
  let ?c = "replace_leaves c (set (descendantsOf c p)) ls"
  have still: "isActive c q" if q: "q \<in> set (parallelPaths sc)" "isActive ?c q" for q
  proof -
    from q(2) obtain l where l: "l \<in> set ?c" "under q l" by (auto simp: isActive_iff)
    show ?thesis
    proof (cases "l \<in> set ls")
      case True
      then have "under q p" using under_comparable[OF new[OF True] l(2)] e(3)[OF q(1)] by blast
      with p(2) show ?thesis by (auto simp: isActive_iff intro: under_trans)
    next
      case False with l show ?thesis by (auto simp: isActive_iff set_replace_leaves)
    qed
  qed
  moreover have "\<not> isActive ?c p"
  proof
    assume "isActive ?c p"
    then obtain l where l: "l \<in> set ?c" "under p l" by (auto simp: isActive_iff)
    then have "l \<in> set ls" by (auto simp: set_replace_leaves descendantsOf_mem)
    from under_comparable[OF new[OF this] l(2)] e(2) e(3)[OF p(1)] show False by blast
  qed
  moreover have "active_parallels sc ?c = filter (\<lambda>q. q \<in> set (parallelPaths sc) \<and> isActive ?c q) (parallelPaths sc)"
    unfolding active_parallels_def by (rule filter_cong) auto
  ultimately show ?thesis
    using p length_filter_strict[of "\<lambda>q. q \<in> set (parallelPaths sc) \<and> isActive ?c q" "isActive c" p
        "parallelPaths sc"]
    unfolding active_parallels_def by simp
qed

lemma settle_loop_fixpoint:
  assumes "joins_local sc" and "leaf_config sc c" and "memory_ok sc la"
    and "length (active_parallels sc c) < n" and "settle_loop n sc evalWhen c la = Some (c', la')"
  shows "joinable sc evalWhen c' = None"
  using assms(2-)
proof (induction n arbitrary: c la)
  case (Suc n)
  show ?case
  proof (cases "joinable sc evalWhen c")
    case None with Suc.prems show ?thesis by (simp add: settle_loop.simps)
  next
    case (Some p)
    let ?ex = "set (descendantsOf c p)"
    let ?la = "recordExits sc c ?ex la"
    from Suc.prems Some obtain ls where ls:
      "enterTarget sc (t_to (the (joinEdge sc evalWhen p))) ?la = Some ls"
      "settle_loop n sc evalWhen (replace_leaves c ?ex ls) ?la = Some (c', la')"
      by (auto simp: settle_loop.simps[of "Suc n"] Let_def split: option.splits)
    have mem: "memory_ok sc ?la" using Suc.prems by (intro recordExits_memory_ok)
    show ?thesis
    proof (rule Suc.IH[OF _ mem _ ls(2)])
      show "leaf_config sc (replace_leaves c ?ex ls)"
        using Suc.prems(1) enterTarget_is_leaf[OF ls(1) mem] by (rule replace_leaves_leaf_config)
      show "length (active_parallels sc (replace_leaves c ?ex ls)) < n"
        using join_decreases[OF assms(1) Some ls(1) mem] Suc.prems(3) by simp
    qed
  qed
qed simp

lemma settle_at_fixpoint: "joinable sc evalWhen c = None \<Longrightarrow> settle sc c evalWhen la = Some (c, la)"
  by (simp add: settle_def settle_loop.simps)

text \<open>
  \<open>settle\<close> reaches its fixpoint before the iteration backstop. On a chart with proper names,
  fewer than ten thousand parallel states and joins that leave their own parallel without entering
  another, \<open>settle\<close> returns a configuration in which no parallel is ready to join any more, and
  settling that configuration again changes nothing.
\<close>

theorem settle_reaches_fixpoint:
  assumes "names_ok (sc_root sc)" and "joins_local sc" and "length (parallelPaths sc) < 10000"
    and "leaf_config sc c" and "memory_ok sc la"
  shows "\<exists>c' la'. settle sc c evalWhen la = Some (c', la') \<and> joinable sc evalWhen c' = None \<and>
           settle sc c' evalWhen la' = Some (c', la')"
proof -
  obtain c' la' where r: "settle sc c evalWhen la = Some (c', la')"
    using settle_loop_returns[OF assms(1)] unfolding settle_def by (metis surj_pair)
  have "length (active_parallels sc c) < 10000"
    using assms(3) le_less_trans[OF length_filter_le] unfolding active_parallels_def by blast
  from settle_loop_fixpoint[OF assms(2,4,5) this r[unfolded settle_def]]
  have "joinable sc evalWhen c' = None" .
  with r settle_at_fixpoint show ?thesis by blast
qed

section \<open>Charts without orthogonal regions\<close>

definition proper_child :: "level \<Rightarrow> string \<Rightarrow> bool" where
  "proper_child ss n \<longleftrightarrow> map_of ss n \<noteq> None \<and> \<not> is_history (map_of ss n)"

text \<open>
  No parallel states; the initial state of a compound and the default of a history pseudostate
  are declared children that are not themselves history pseudostates.
\<close>

fun hier_ok :: "level \<Rightarrow> bool" where
  "hier_ok [] \<longleftrightarrow> True"
| "hier_ok ((n, node) # rest) \<longleftrightarrow>
     (case node of
        Compound i ss \<Rightarrow> proper_child ss i \<and> hier_ok ss \<and>
          list_all (\<lambda>(m, nd). case nd of History d (Some x) \<Rightarrow> proper_child ss x | _ \<Rightarrow> True) ss
      | Parallel rs \<Rightarrow> False
      | _ \<Rightarrow> True) \<and> hier_ok rest"

fun node_hier_ok :: "StateNode \<Rightarrow> bool" where
  "node_hier_ok (Compound i ss) \<longleftrightarrow> proper_child ss i \<and> hier_ok ss \<and>
     list_all (\<lambda>(m, nd). case nd of History d (Some x) \<Rightarrow> proper_child ss x | _ \<Rightarrow> True) ss"
| "node_hier_ok (Parallel rs) \<longleftrightarrow> False"
| "node_hier_ok _ \<longleftrightarrow> True"

definition hierarchical :: "Statechart \<Rightarrow> bool" where
  "hierarchical sc \<longleftrightarrow> names_ok (sc_root sc) \<and> hier_ok (sc_root sc) \<and>
     list_all (\<lambda>(n, nd). \<not> is_history (Some nd)) (sc_root sc) \<and>
     validateStatechart sc = Some []"

lemma hier_ok_mem: "hier_ok lv \<Longrightarrow> (n, nd) \<in> set lv \<Longrightarrow> node_hier_ok nd"
  by (induction lv rule: hier_ok.induct) (auto split: StateNode.splits)

lemma resolve_segs_snoc:
  "ns \<noteq> [] \<Longrightarrow> resolve_segs lv (ns @ [n]) =
     (case resolve_segs lv ns of None \<Rightarrow> None
      | Some nd \<Rightarrow> (case substates nd of None \<Rightarrow> None | Some lv' \<Rightarrow> map_of lv' n))"
  by (induction lv ns rule: resolve_segs.induct) (auto split: option.splits)

lemma resolve_segs_prefix:
  "ns \<noteq> [] \<Longrightarrow> resolve_segs lv (ns @ ms) = Some node \<Longrightarrow>
     \<exists>nd. resolve_segs lv ns = Some nd \<and> (if ms = [] then nd = node else substates nd \<noteq> None)"
proof (induction ms arbitrary: node rule: rev_induct)
  case (snoc m ms)
  then obtain nd where nd: "resolve_segs lv (ns @ ms) = Some nd" "substates nd \<noteq> None"
    using resolve_segs_snoc[of "ns @ ms" lv m] by (auto split: option.splits)
  from snoc.IH[OF snoc.prems(1) nd(1)] nd(2) show ?case by (auto split: if_splits)
qed auto

lemma resolve_segs_hier_ok:
  "hier_ok lv \<Longrightarrow> resolve_segs lv ns = Some node \<Longrightarrow> node_hier_ok node"
proof (induction lv ns arbitrary: node rule: resolve_segs.induct)
  case (2 lv n ns)
  from 2(3) obtain nd where nd: "map_of lv n = Some nd" by (auto split: option.splits)
  have ok: "node_hier_ok nd" using hier_ok_mem[OF 2(2) map_of_SomeD[OF nd]] .
  have sub: "hier_ok lv'" if "substates nd = Some lv'" for lv' using ok that by (cases nd) auto
  from 2 nd ok sub show ?case by (auto split: if_splits option.splits)
qed simp

lemma resolve_child:
  assumes "resolveNode sc p = Some nd" and "substates nd = Some lv" and "map_of lv n = Some ch"
    and "names_ok (sc_root sc)"
  shows "resolveNode sc (joinPath p n) = Some ch"
proof -
  have "names_ok lv"
    using resolveNode_names_ok[OF assms(4,1)] assms(2) by (rule node_names_ok_substates)
  then have n: "n \<noteq> []" "segs n = [n]"
    using names_ok_mem[of lv n ch] map_of_SomeD[OF assms(3)] segs_atom by auto
  have "map_of (sc_root sc) [] = None"
    using names_ok_keys[OF assms(4)] by (simp add: map_of_eq_None_iff)
  then have "p \<noteq> []"
    using assms(1) by (auto simp: resolveNode_def segs_def)
  with n assms show ?thesis by (simp add: resolveNode_def segs_joinPath resolve_segs_snoc)
qed

lemma enterLeaves_single:
  "names_ok (sc_root sc) \<Longrightarrow> hier_ok (sc_root sc) \<Longrightarrow> resolveNode sc p = Some nd \<Longrightarrow>
     \<not> is_history (Some nd) \<Longrightarrow> \<exists>q. enterLeaves sc p = Some [q]"
proof (induction sc p arbitrary: nd rule: enterLeaves.induct)
  case (1 sc p)
  have ok: "node_hier_ok nd" using 1(4,5) by (simp add: resolveNode_def resolve_segs_hier_ok)
  have nm: "node_names_ok nd" using 1(3,5) by (rule resolveNode_names_ok)
  show ?case
  proof (cases nd)
    case (Compound i ss)
    then obtain ch where ch: "map_of ss i = Some ch" "\<not> is_history (Some ch)"
      using ok by (auto simp: proper_child_def)
    have "resolveNode sc (joinPath p i) = Some ch"
      using resolve_child[OF 1(5) _ ch(1) 1(3)] Compound by simp
    with 1(1)[OF 1(5) Compound _ 1(3,4) _ ch(2)] nm Compound 1(5) show ?thesis
      by (simp add: enterLeaves.simps[of sc p])
  qed (use 1(5,6) ok in \<open>auto simp: enterLeaves.simps\<close>)
qed

lemma hier_ok_no_parallel: "hier_ok lv \<Longrightarrow> parallelWalk lv base = []"
  by (induction lv base rule: parallelWalk.induct) (auto split: StateNode.splits)

lemma validate_pieces:
  assumes "validateStatechart sc = Some []"
  shows "sc_initial sc \<in> set (keys (sc_root sc))" and "checkTransitions sc = []"
  using assms by (auto simp: validateStatechart_def split: if_splits)

lemma allPaths_resolve:
  "names_ok lv \<Longrightarrow> p \<in> set (allPaths lv base) \<Longrightarrow>
     \<exists>ns nd. ns \<noteq> [] \<and> resolve_segs lv ns = Some nd \<and> segs p = (if base = [] then ns else segs base @ ns)"
proof (induction lv base rule: allPaths.induct)
  case (2 name node rest base)
  have nm: "name \<noteq> []" "segs name = [name]" "name \<notin> set (keys rest)" "names_ok rest"
    using 2(4) segs_atom by auto
  let ?path = "joinPath base name"
  have seg: "segs ?path = (if base = [] then [name] else segs base @ [name])"
    using nm by (simp add: segs_joinPath)
  have sub: "\<exists>ns nd. ns \<noteq> [] \<and> resolve_segs ((name, node) # rest) ns = Some nd \<and>
      segs p = (if base = [] then ns else segs base @ ns)"
    if "substates node = Some lv'" "ns \<noteq> [] \<and> resolve_segs lv' ns = Some nd \<and> segs p = segs ?path @ ns"
    for lv' ns nd
    using that seg by (intro exI[of _ "name # ns"]) auto
  consider "p = ?path"
    | i ss where "node = Compound i ss" "p \<in> set (allPaths ss ?path)"
    | rs where "node = Parallel rs" "p \<in> set (allPaths rs ?path)"
    | "p \<in> set (allPaths rest base)"
    using 2(5) by (auto simp: Let_def split: StateNode.splits)
  then show ?case
  proof cases
    case 1
    then show ?thesis using seg by (intro exI[of _ "[name]"]) auto
  next
    case (2 i ss)
    have "names_ok ss" using "2.prems"(1) 2(1) by simp
    from "2.IH"(1)[OF refl 2(1) this 2(2)] nm(1) obtain ns nd where
      "ns \<noteq> [] \<and> resolve_segs ss ns = Some nd \<and> segs p = segs ?path @ ns" by auto
    then show ?thesis using 2(1) by (intro sub) auto
  next
    case (3 rs)
    have "names_ok rs" using "2.prems"(1) 3(1) by simp
    from "2.IH"(2)[OF refl 3(1) this 3(2)] nm(1) obtain ns nd where
      "ns \<noteq> [] \<and> resolve_segs rs ns = Some nd \<and> segs p = segs ?path @ ns" by auto
    then show ?thesis using 3(1) by (intro sub) auto
  next
    case 4
    then obtain ns nd where ns: "ns \<noteq> []" "resolve_segs rest ns = Some nd"
      "segs p = (if base = [] then ns else segs base @ ns)"
      using "2.IH"(3)[OF refl nm(4)] by blast
    then obtain m ms where m: "ns = m # ms" by (cases ns) auto
    have "map_of rest name = None" using nm(3) by (simp add: map_of_eq_None_iff)
    then have "m \<noteq> name" using ns(2) m by auto
    with ns m show ?thesis by (intro exI[of _ ns] exI[of _ nd]) simp
  qed
qed simp

lemma checkTransitions_to:
  assumes "checkTransitions sc = []" and "i < length (sc_transitions sc)"
  shows "t_to (sc_transitions sc ! i) \<in> set (allPaths (sc_root sc) [])"
  using enumerate_concat_nil[OF assms(1)[unfolded checkTransitions_def Let_def] assms(2)]
  by (auto split: if_splits)

lemma target_resolves:
  assumes "names_ok (sc_root sc)" and "validateStatechart sc = Some []"
    and "i < length (sc_transitions sc)"
  shows "\<exists>nd. resolveNode sc (t_to (sc_transitions sc ! i)) = Some nd"
  using allPaths_resolve[OF assms(1) checkTransitions_to[OF validate_pieces(2)[OF assms(2)] assms(3)]]
  by (auto simp: resolveNode_def)

lemma root_history_free:
  assumes "list_all (\<lambda>(n, nd). \<not> is_history (Some nd)) lv" and "resolve_segs lv ns = Some nd"
    and "is_history (Some nd)"
  shows "butlast ns \<noteq> [] \<and> (\<exists>pn. resolve_segs lv (butlast ns) = Some pn \<and>
           (\<exists>lv'. substates pn = Some lv' \<and> map_of lv' (last ns) = Some nd))"
proof -
  have ne: "ns \<noteq> []" using assms(2) by auto
  have "butlast ns \<noteq> []"
  proof
    assume "butlast ns = []"
    then obtain n where "ns = [n]" using ne by (cases ns) (auto split: if_splits)
    with assms show False by (auto simp: list_all_iff split: option.splits dest: map_of_SomeD)
  qed
  with ne assms(2) show ?thesis
    using resolve_segs_snoc[of "butlast ns" lv "last ns"] by (auto split: option.splits)
qed

lemma enterTarget_single:
  assumes h: "hierarchical sc" and mem: "memory_ok sc la" and r: "resolveNode sc to = Some nd"
  shows "\<exists>q. enterTarget sc to la = Some [q]"
proof (cases "is_history (Some nd)")
  case False
  have "enterTarget sc to la = enterLeaves sc to"
    using r False by (cases nd) (auto simp: enterTarget_def)
  with enterLeaves_single[OF _ _ r False] h show ?thesis by (simp add: hierarchical_def)
next
  case True
  then obtain d x where hist: "nd = History d x" by (cases nd) auto
  let ?c = "parentOf to"
  have hh: "names_ok (sc_root sc)" "hier_ok (sc_root sc)" using h by (auto simp: hierarchical_def)
  from root_history_free[OF _ r[unfolded resolveNode_def] True] h obtain pn lv where
    bl: "butlast (segs to) \<noteq> []" and pn: "resolve_segs (sc_root sc) (butlast (segs to)) = Some pn"
    "substates pn = Some lv" "map_of lv (last (segs to)) = Some nd"
    by (auto simp: hierarchical_def)
  have sc: "segs ?c = butlast (segs to)"
    unfolding parentOf_def using bl
    by (rule segs_joinWith[of _ to]) (meson in_set_butlastD subsetI)
  have rc: "resolveNode sc ?c = Some pn" using pn(1) by (simp add: resolveNode_def sc)
  have "node_hier_ok pn" using resolve_segs_hier_ok[OF hh(2) pn(1)] .
  then obtain i where comp: "pn = Compound i lv" "node_hier_ok (Compound i lv)"
    using pn(2) by (cases pn) auto
  have dflt: "\<exists>q. enterLeaves sc (case x of Some y \<Rightarrow> joinPath ?c y | None \<Rightarrow> ?c) = Some [q]"
  proof (cases x)
    case None
    with enterLeaves_single[OF hh rc] comp show ?thesis by simp
  next
    case (Some y)
    have "proper_child lv y"
      using comp(2) map_of_SomeD[OF pn(3)] hist Some by (auto simp: list_all_iff)
    then obtain ch where ch: "map_of lv y = Some ch" "\<not> is_history (Some ch)"
      by (auto simp: proper_child_def)
    from enterLeaves_single[OF hh resolve_child[OF rc pn(2) ch(1) hh(1)] ch(2)] Some
    show ?thesis by simp
  qed
  show ?thesis
  proof (cases "map_of la ?c")
    case None with r hist dflt show ?thesis by (simp add: enterTarget_def Let_def)
  next
    case (Some m)
    from memory_ok_lookup[OF mem Some] obtain r' where m: "is_leaf sc m" "m = ?c @ [PATH_SEP] @ r'"
      by (auto simp: starts_with_iff)
    then have sm: "segs m = segs ?c @ segs r'" by (simp add: segs_def splitOn_append)
    let ?q = "joinWith [PATH_SEP] (take (length (segs ?c) + 1) (segs m))"
    obtain hd' tl' where r': "segs r' = hd' # tl'" by (meson neq_Nil_conv segs_not_Nil)
    have sq: "segs ?q = segs ?c @ [hd']" using segs_take_under[OF sm] r' by simp
    obtain ln where ln: "resolve_segs (sc_root sc) ((segs ?c @ [hd']) @ tl') = Some ln"
      "\<not> is_history (Some ln)"
      using m(1) sm r' by (auto simp: is_leaf_def resolveNode_def)
    from resolve_segs_prefix[OF _ ln(1)] obtain n1 where
      n1: "resolve_segs (sc_root sc) (segs ?c @ [hd']) = Some n1"
      "if tl' = [] then n1 = ln else substates n1 \<noteq> None" by auto
    have "\<not> is_history (Some n1)" using n1(2) ln(2) by (cases n1) (auto split: if_splits)
    with enterLeaves_single[OF hh, of ?q n1] n1(1) sq obtain q where "enterLeaves sc ?q = Some [q]"
      by (auto simp: resolveNode_def)
    with r hist Some show ?thesis by (cases d) (auto simp: enterTarget_def Let_def)
  qed
qed

lemma step_single:
  assumes h: "hierarchical sc" and mem: "memory_ok sc la" and s: "step sc [p] ev evalWhen la = Some r"
  shows "\<exists>q. next_config r = [q]"
proof (cases "via r")
  case None
  with s show ?thesis by (auto simp: step_def fire_def Let_def split: option.splits)
next
  case (Some i)
  let ?t = "sc_transitions sc ! i"
  have i: "i < length (sc_transitions sc)" "enabled [p] ev evalWhen ?t" "fire sc [p] la i ?t = Some r"
    using step_via[OF s Some] by auto
  have "\<exists>nd. resolveNode sc (t_to ?t) = Some nd"
    using target_resolves[OF _ _ i(1)] h by (auto simp: hierarchical_def)
  then obtain q where q: "enterTarget sc (t_to ?t) la = Some [q]"
    using enterTarget_single[OF h mem] by blast
  have "descendantsOf [p] (exit_scope sc ?t) = [p]"
  proof (cases "exit_scope sc ?t = []")
    case False
    then have f: "t_from ?t \<noteq> ANY_STATE" "under (exit_scope sc ?t) (t_from ?t)"
      using lcca_above by (auto simp: exit_scope_def split: if_splits)
    with i(2) have "under (exit_scope sc ?t) p"
      by (auto simp: enabled_def isActive_iff intro: under_trans)
    with False show ?thesis by (simp add: descendantsOf_def)
  qed (simp add: descendantsOf_def)
  with i(3) q show ?thesis by (auto simp: fire_def replace_leaves_def set_add_def)
qed

text \<open>
  Exactly one active leaf in a hierarchical machine: in a validated chart without parallel
  states (and in which no compound starts in, and no history defaults to, a history pseudostate),
  every reachable configuration has exactly one active leaf.
\<close>

theorem hierarchical_single_leaf:
  assumes "hierarchical sc" and "chart_reach sc c la"
  shows "\<exists>p. c = [p]"
  using assms(2)
proof (induction rule: chart_reach.induct)
  case (reach_init c)
  obtain nd where nd: "map_of (sc_root sc) (sc_initial sc) = Some nd" "(sc_initial sc, nd) \<in> set (sc_root sc)"
    using validate_pieces(1)[of sc] assms(1)
    by (metis (no_types, lifting) hierarchical_def map_of_SomeD not_None_eq map_of_eq_None_iff list.set_map)
  have "PATH_SEP \<notin> set (sc_initial sc)" "\<not> is_history (Some nd)"
    using nd(2) assms(1) names_ok_mem[OF _ nd(2)] by (auto simp: hierarchical_def list_all_iff)
  then have "resolveNode sc (sc_initial sc) = Some nd" "\<not> is_history (Some nd)"
    using nd(1) by (simp_all add: resolveNode_def segs_atom)
  with enterLeaves_single[of sc "sc_initial sc" nd] assms(1) reach_init show ?case
    by (auto simp: hierarchical_def initialConfig_def to_set_def set_add_def)
next
  case (reach_step c la ev evalWhen r)
  have "memory_ok sc la" using chart_reach_inv[OF reach_step.hyps(1)] by simp
  then show ?case using reach_step step_single[OF assms(1)] by blast
next
  case (reach_settle c la evalWhen c' la')
  have "parallelPaths sc = []"
    using assms(1) by (simp add: hierarchical_def parallelPaths_def hier_ok_no_parallel)
  then have "joinable sc evalWhen c = None" by (simp add: joinable_def)
  with reach_settle settle_at_fixpoint show ?case by auto
qed

section \<open>A chart with two regions\<close>

definition trans :: "string \<Rightarrow> string option \<Rightarrow> string \<Rightarrow> Transition" where
  "trans a ev b = \<lparr>t_from = a, t_on = ev, t_to = b, t_when = None\<rparr>"

definition demo_chart :: Statechart where
  "demo_chart = \<lparr>sc_initial = ''build'',
     sc_root = [(''build'', Parallel
                   [(''fe'', Compound ''a'' [(''a'', Leaf), (''done'', Final)]),
                    (''be'', Compound ''x'' [(''x'', Leaf), (''y'', Leaf), (''done'', Final)])]),
                (''end'', Leaf)],
     sc_transitions =
       [trans ''build/fe/a'' (Some ''fe'') ''build/fe/done'',
        trans ''build/be/x'' (Some ''be'') ''build/be/done'',
        trans ''build/fe/a'' (Some ''cross'') ''build/be/y'',
        trans ''build'' None ''end'']\<rparr>"

lemma demo_chart_valid: "validateStatechart demo_chart = Some []"
  by code_simp

lemma demo_chart_names: "names_ok (sc_root demo_chart)"
  by code_simp

lemma demo_chart_init: "initialConfig demo_chart = Some [''build/fe/a'', ''build/be/x'']"
  by code_simp

definition demo_after_fe :: StepResult where
  "demo_after_fe = \<lparr>next_config = [''build/be/x'', ''build/fe/done''], transitioned = True,
     via = Some 0, lastActive = [(''build/fe'', ''build/fe/a'')]\<rparr>"

lemma demo_chart_step:
  "step demo_chart [''build/fe/a'', ''build/be/x''] ''fe'' None [] = Some demo_after_fe"
  by code_simp

theorem reachable_configurations_are_leaves_witness:
  "leaf_config demo_chart (next_config demo_after_fe) \<and> memory_ok demo_chart (lastActive demo_after_fe)"
proof (rule reachable_configurations_are_leaves)
  show "chart_reach demo_chart (next_config demo_after_fe) (lastActive demo_after_fe)"
    using chart_reach.reach_step[OF chart_reach.reach_init[OF demo_chart_init] demo_chart_step] .
qed

theorem engine_returns_witness:
  "\<exists>r. step demo_chart [''build/fe/a''] ''be'' None [] = Some r"
  using engine_returns[OF demo_chart_names] by blast

theorem region_isolation_witness:
  "{leaf \<in> set (next_config demo_after_fe). \<not> under ''build/fe'' leaf}
     = {leaf \<in> set [''build/fe/a'', ''build/be/x'']. \<not> under ''build/fe'' leaf} \<and>
   ''build/be/x'' \<in> {leaf \<in> set (next_config demo_after_fe). \<not> under ''build/fe'' leaf}"
proof
  have v: "via demo_after_fe = Some 0" by code_simp
  have t: "t_from (sc_transitions demo_chart ! 0) \<noteq> ANY_STATE"
    "under ''build/fe'' (t_from (sc_transitions demo_chart ! 0))"
    "under ''build/fe'' (effectiveTo demo_chart (sc_transitions demo_chart ! 0))"
    by code_simp+
  show "{leaf \<in> set (next_config demo_after_fe). \<not> under ''build/fe'' leaf}
     = {leaf \<in> set [''build/fe/a'', ''build/be/x'']. \<not> under ''build/fe'' leaf}"
    using region_isolation[OF demo_chart_step v memory_ok_Nil _ t] by simp
  show "''build/be/x'' \<in> {leaf \<in> set (next_config demo_after_fe). \<not> under ''build/fe'' leaf}"
    by (simp add: demo_after_fe_def under_def starts_with_def PATH_SEP_def)
qed

theorem settle_reaches_fixpoint_witness:
  "(\<exists>c' la'. settle demo_chart [''build/fe/done'', ''build/be/done''] None [] = Some (c', la') \<and>
     joinable demo_chart None c' = None) \<and>
   joinable demo_chart None [''build/fe/done'', ''build/be/done''] = Some ''build''"
proof
  have "joins_local demo_chart" "length (parallelPaths demo_chart) < 10000"
    "leaf_config demo_chart [''build/fe/done'', ''build/be/done'']"
    by code_simp+
  from settle_reaches_fixpoint[OF demo_chart_names this memory_ok_Nil, of None]
  show "\<exists>c' la'. settle demo_chart [''build/fe/done'', ''build/be/done''] None [] = Some (c', la') \<and>
     joinable demo_chart None c' = None" by blast
  show "joinable demo_chart None [''build/fe/done'', ''build/be/done''] = Some ''build''"
    by code_simp
qed

definition nested_chart :: Statechart where
  "nested_chart = \<lparr>sc_initial = ''work'',
     sc_root = [(''work'', Compound ''plan'' [(''plan'', Leaf), (''code'', Leaf), (''hist'', History Shallow None)]),
                (''paused'', Leaf)],
     sc_transitions =
       [trans ''work/plan'' (Some ''pass'') ''work/code'',
        trans ''work'' (Some ''pause'') ''paused'',
        trans ''paused'' (Some ''resume'') ''work/hist'']\<rparr>"

theorem hierarchical_single_leaf_witness:
  "hierarchical nested_chart \<and> (\<exists>p. [''work/plan''] = [p])"
proof
  show h: "hierarchical nested_chart" by code_simp
  have "initialConfig nested_chart = Some [''work/plan'']" by code_simp
  then show "\<exists>p. [''work/plan''] = [p]"
    using hierarchical_single_leaf[OF h chart_reach.reach_init] by blast
qed

text \<open>
  A transition from one region of a parallel state into another drops a region. On a chart that
  \<open>validateStatechart\<close> accepts, the exit set of such a transition is the whole parallel state (its
  least common ancestor) while only the target region is entered again: the parallel stays active
  with one of its two regions holding no active leaf, although a configuration is documented to have
  all regions of an active parallel active.
\<close>

theorem cross_region_drops_region:
  "validateStatechart demo_chart = Some [] \<and>
   initialConfig demo_chart = Some [''build/fe/a'', ''build/be/x''] \<and>
   map_option next_config (step demo_chart [''build/fe/a'', ''build/be/x''] ''cross'' None [])
     = Some [''build/be/y''] \<and>
   isActive [''build/be/y''] ''build'' \<and> \<not> isActive [''build/be/y''] ''build/fe''"
proof -
  have "map_option next_config (step demo_chart [''build/fe/a'', ''build/be/x''] ''cross'' None [])
     = Some [''build/be/y'']" by code_simp
  moreover have "isActive [''build/be/y''] ''build'' \<and> \<not> isActive [''build/be/y''] ''build/fe''"
    by code_simp
  ultimately show ?thesis using demo_chart_valid demo_chart_init by simp
qed

end
