(* ===== verification/FsmState.thy ===== *)
theory FsmState
  imports Statechart
begin

text \<open>
  Per-session machine state, \<open>src/src/runtime/fsm_state.ts\<close>, with the observers an advance
  triggers: the transition log (\<open>runtime/observe/transition_log.ts\<close>) and the goal map with its
  worksheets (\<open>runtime/goal_map/\<close>); and the two pack functions over it (\<open>functions/fsm.ts\<close>).

  The session-state directory is a partial map from (session, key) to the parsed content of the
  file. A read that fails and a file that is not JSON, or is JSON of another shape, are values of
  \<open>content\<close>. Faults of the observers (which the source swallows) and of the file lock are boolean
  parameters, so every theorem holds for any pattern of faults.
\<close>

section \<open>The goal map\<close>

record GoalClaim =
  claim_session :: string
  claim_at :: string

record Worksheet =
  sliceId :: string
  startedAt :: string
  goalRef :: string
  ws_taskId :: "string option"

record GoalMap =
  goal :: string
  createdAt :: string
  claim :: "GoalClaim option"
  worksheets :: "Worksheet list"

datatype goal_error = ClaimedBy string string

definition claimGoalMap :: "GoalMap \<Rightarrow> string \<Rightarrow> string \<Rightarrow> GoalMap" where
  "claimGoalMap gm sessionId now = gm\<lparr>claim := Some \<lparr>claim_session = sessionId, claim_at = now\<rparr>\<rparr>"

definition reassignGoalMap :: "GoalMap \<Rightarrow> string \<Rightarrow> string \<Rightarrow> bool \<Rightarrow> goal_error + GoalMap" where
  "reassignGoalMap gm sessionId now force =
     (case claim gm of
        Some cl \<Rightarrow>
          if claim_session cl \<noteq> sessionId \<and> \<not> force
          then Inl (ClaimedBy (claim_session cl) sessionId)
          else Inr (claimGoalMap gm sessionId now)
      | None \<Rightarrow> Inr (claimGoalMap gm sessionId now))"

definition startWorksheet :: "GoalMap \<Rightarrow> string \<Rightarrow> string \<Rightarrow> GoalMap" where
  "startWorksheet gm slice now =
     gm\<lparr>worksheets := worksheets gm @
        [\<lparr>sliceId = slice, startedAt = now, goalRef = goal gm, ws_taskId = None\<rparr>]\<rparr>"

definition linkTaskId :: "GoalMap \<Rightarrow> string \<Rightarrow> GoalMap" where
  "linkTaskId gm taskId =
     (case find_index (\<lambda>w. ws_taskId w = None) (rev (worksheets gm)) of
        None \<Rightarrow> gm
      | Some r \<Rightarrow>
          (let idx = length (worksheets gm) - 1 - r
           in gm\<lparr>worksheets := map (\<lambda>(k, w). if k = idx then w\<lparr>ws_taskId := Some taskId\<rparr> else w)
                 (List.enumerate 0 (worksheets gm))\<rparr>))"

section \<open>The state on disk\<close>

record FsmHistoryEntry =
  h_state :: string
  h_at :: string

record FsmStateFile =
  sf_state :: string
  sf_started_at :: "string option"
  sf_history :: "FsmHistoryEntry list"

datatype content = NotJson | OtherJson | StateJson FsmStateFile

record TransitionRecord =
  tr_session :: string
  tr_pack :: string
  tr_from :: string
  tr_to :: string
  tr_on :: string
  tr_at :: string
  tr_via :: int

record world =
  files :: "string \<times> string \<Rightarrow> content option"
  transition_log :: "string \<Rightarrow> TransitionRecord list"
  goal_maps :: "string \<Rightarrow> GoalMap option"
  session_cwd :: "string \<Rightarrow> string option"
  active_task :: "string \<Rightarrow> string option"
  home :: string

definition fsmStateKey :: "string \<Rightarrow> string option \<Rightarrow> string" where
  "fsmStateKey pack taskId =
     (case taskId of None \<Rightarrow> ''fsm-'' @ pack | Some t \<Rightarrow> ''fsm-'' @ pack @ ''-'' @ t)"

definition fsmKey :: "string \<Rightarrow> string" where
  "fsmKey packName = fsmStateKey packName None"

definition isFsmStateFile :: "content \<Rightarrow> FsmStateFile option" where
  "isFsmStateFile c = (case c of StateJson f \<Rightarrow> Some f | _ \<Rightarrow> None)"

definition readFsmStateFile :: "world \<Rightarrow> string \<Rightarrow> string \<Rightarrow> string option \<Rightarrow> FsmStateFile option" where
  "readFsmStateFile w sessionId packName taskId =
     Option.bind (files w (sessionId, fsmStateKey packName taskId)) isFsmStateFile"

definition readFsmState :: "world \<Rightarrow> string \<Rightarrow> string \<Rightarrow> Fsm \<Rightarrow> string option \<Rightarrow> string" where
  "readFsmState w sessionId packName f taskId =
     (case readFsmStateFile w sessionId packName taskId of
        Some sf \<Rightarrow> if sf_state sf \<in> set (fsm_states f) then sf_state sf else fsm_initial f
      | None \<Rightarrow> fsm_initial f)"

definition readFsmStateRaw :: "world \<Rightarrow> string \<Rightarrow> string \<Rightarrow> string option" where
  "readFsmStateRaw w sessionId packName =
     map_option sf_state (Option.bind (files w (sessionId, fsmKey packName)) isFsmStateFile)"

definition appendTransition :: "world \<Rightarrow> TransitionRecord \<Rightarrow> world" where
  "appendTransition w rec =
     w\<lparr>transition_log := (transition_log w)(tr_session rec := transition_log w (tr_session rec) @ [rec])\<rparr>"

definition observeGoalTransition :: "world \<Rightarrow> string \<Rightarrow> string \<Rightarrow> string \<Rightarrow> world" where
  "observeGoalTransition w session to now =
     (if to \<noteq> ''scoping'' \<and> to \<noteq> ''tasks_loaded'' then w
      else (let cwd = (case session_cwd w session of Some d \<Rightarrow> d | None \<Rightarrow> home w)
            in case goal_maps w cwd of
                 None \<Rightarrow> w
               | Some gm \<Rightarrow>
                   if to = ''scoping''
                   then w\<lparr>goal_maps := (goal_maps w)(cwd \<mapsto> startWorksheet gm now now)\<rparr>
                   else (case active_task w session of
                           Some t \<Rightarrow> if t = [] then w
                             else w\<lparr>goal_maps := (goal_maps w)(cwd \<mapsto> linkTaskId gm t)\<rparr>
                         | None \<Rightarrow> w)))"

definition write_state :: "world \<Rightarrow> string \<Rightarrow> string \<Rightarrow> string \<Rightarrow> FsmHistoryEntry list \<Rightarrow> string \<Rightarrow> world" where
  "write_state w sessionId key state history now =
     w\<lparr>files := (files w)((sessionId, key) \<mapsto>
        StateJson \<lparr>sf_state = state, sf_started_at = Some now,
                   sf_history = history @ [\<lparr>h_state = state, h_at = now\<rparr>]\<rparr>)\<rparr>"

definition advanceFsmState ::
  "world \<Rightarrow> bool \<Rightarrow> bool \<Rightarrow> string \<Rightarrow> string \<Rightarrow> Fsm \<Rightarrow> string \<Rightarrow> string \<Rightarrow> (string \<Rightarrow> bool) option
     \<Rightarrow> (FlatStepResult \<times> world) option" where
  "advanceFsmState w log_fault goal_fault sessionId packName f event now evalWhen =
     (let current = readFsmState w sessionId packName f None
      in case stepFlat f current event evalWhen of
           None \<Rightarrow> None
         | Some result \<Rightarrow>
             if flat_transitioned result then
               (let toState = flat_next result;
                    history = (case Option.bind (files w (sessionId, fsmKey packName)) isFsmStateFile of
                                 Some sf \<Rightarrow> sf_history sf | None \<Rightarrow> []);
                    w1 = write_state w sessionId (fsmKey packName) toState history now;
                    w2 = (if log_fault then w1 else appendTransition w1
                            \<lparr>tr_session = sessionId, tr_pack = packName, tr_from = current,
                             tr_to = toState, tr_on = event, tr_at = now,
                             tr_via = (case flat_via result of Some i \<Rightarrow> int i | None \<Rightarrow> -1)\<rparr>);
                    w3 = (if goal_fault then w2 else observeGoalTransition w2 sessionId toState now)
                in Some (result, w3))
             else Some (result, w))"

datatype persist_error = LockError

definition persistActorState ::
  "world \<Rightarrow> bool \<Rightarrow> string \<Rightarrow> string \<Rightarrow> string \<Rightarrow> string \<Rightarrow> string option \<Rightarrow> string option
     \<Rightarrow> (persist_error + bool) \<times> world" where
  "persistActorState w lock_fault sessionId packName current now taskId expectedCurrent =
     (let key = fsmStateKey packName taskId;
          w1 = (case files w (sessionId, key) of
                  None \<Rightarrow> w\<lparr>files := (files w)((sessionId, key) \<mapsto> NotJson)\<rparr>
                | Some _ \<Rightarrow> w)
      in if lock_fault then (Inl LockError, w1)
         else (let prior = readFsmStateFile w1 sessionId packName taskId
               in case prior of
                    Some sf \<Rightarrow>
                      if (\<exists>e\<in>set_option expectedCurrent. sf_state sf \<noteq> e) then (Inr False, w1)
                      else if sf_state sf = current then (Inr True, w1)
                      else (Inr True, write_state w1 sessionId key current (sf_history sf) now)
                  | None \<Rightarrow> (Inr True, write_state w1 sessionId key current [] now)))"

definition clearFsmState :: "world \<Rightarrow> string \<Rightarrow> string \<Rightarrow> world" where
  "clearFsmState w sessionId packName =
     w\<lparr>files := (files w)((sessionId, fsmKey packName) := None)\<rparr>"

section \<open>The pack functions\<close>

definition read_fsm_state :: "world \<Rightarrow> string option \<Rightarrow> string \<Rightarrow> string \<Rightarrow> Fsm option \<Rightarrow> string option" where
  "read_fsm_state w pack sessionId packId packFsm =
     (case pack of
        Some p \<Rightarrow> readFsmStateRaw w sessionId p
      | None \<Rightarrow> map_option (\<lambda>f. readFsmState w sessionId packId f None) packFsm)"

definition advance_fsm ::
  "world \<Rightarrow> bool \<Rightarrow> bool \<Rightarrow> string \<Rightarrow> string \<Rightarrow> string \<Rightarrow> Fsm option \<Rightarrow> string \<Rightarrow> (string \<Rightarrow> bool)
     \<Rightarrow> (string option \<times> world) option" where
  "advance_fsm w log_fault goal_fault event sessionId packId packFsm now evalCond =
     (case packFsm of
        None \<Rightarrow> Some (None, w)
      | Some f \<Rightarrow> map_option (\<lambda>(r, w'). (Some (flat_next r), w'))
          (advanceFsmState w log_fault goal_fault sessionId packId f event now (Some evalCond)))"

section \<open>Frame facts\<close>

lemma appendTransition_files [simp]: "files (appendTransition w r) = files w"
  by (simp add: appendTransition_def)

lemma observeGoal_files [simp]: "files (observeGoalTransition w s t n) = files w"
  by (simp add: observeGoalTransition_def Let_def split: option.splits)

lemma observeGoal_log [simp]: "transition_log (observeGoalTransition w s t n) = transition_log w"
  by (simp add: observeGoalTransition_def Let_def split: option.splits)

lemma write_state_log [simp]: "transition_log (write_state w s k st h n) = transition_log w"
  by (simp add: write_state_def)

lemma readFsmState_declared:
  "fsm_initial f \<in> set (fsm_states f) \<Longrightarrow> readFsmState w s p f t \<in> set (fsm_states f)"
  by (simp add: readFsmState_def split: option.splits)

lemma validateFsm_initial: "validateFsm f = [] \<Longrightarrow> fsm_initial f \<in> set (fsm_states f)"
  by (simp add: validateFsm_def split: if_splits)

lemma flat_spec_next_declared:
  "validateFsm f = [] \<Longrightarrow> cur \<in> set (fsm_states f) \<Longrightarrow> flat_next (flat_spec f cur ev g) \<in> set (fsm_states f)"
  using find_index_SomeD[of "flat_enabled cur ev g" "fsm_transitions f"]
  by (auto simp: flat_spec_def Let_def validateFsm_to split: option.splits)

lemma flat_spec_edge:
  assumes "flat_transitioned (flat_spec f cur ev g)"
  shows "\<exists>i t. flat_via (flat_spec f cur ev g) = Some i \<and> i < length (fsm_transitions f) \<and>
      t = fsm_transitions f ! i \<and> t_on t = Some ev \<and> (t_from t = ANY_STATE \<or> t_from t = cur) \<and>
      guard_ok g (t_when t) \<and> flat_next (flat_spec f cur ev g) = t_to t"
  using assms find_index_SomeD[of "flat_enabled cur ev g" "fsm_transitions f"]
  by (auto simp: flat_spec_def Let_def flat_enabled_def split: option.splits)

lemma advance_moves:
  assumes "stepFlat f (readFsmState w s p f None) ev g = Some r" and "flat_transitioned r"
    and "flat_via r = Some i"
  shows "\<exists>w'. advanceFsmState w lf gf s p f ev now g = Some (r, w') \<and>
     files w' = (files w)((s, fsmStateKey p None) \<mapsto> StateJson \<lparr>sf_state = flat_next r,
        sf_started_at = Some now,
        sf_history = (case readFsmStateFile w s p None of Some sf \<Rightarrow> sf_history sf | None \<Rightarrow> []) @
          [\<lparr>h_state = flat_next r, h_at = now\<rparr>]\<rparr>) \<and>
     transition_log w' s = transition_log w s @
       (if lf then [] else [\<lparr>tr_session = s, tr_pack = p, tr_from = readFsmState w s p f None,
          tr_to = flat_next r, tr_on = ev, tr_at = now, tr_via = int i\<rparr>])"
  using assms
  by (auto simp: advanceFsmState_def Let_def fsmKey_def readFsmStateFile_def write_state_def
      appendTransition_def)

text \<open>
  Advancing a session machine moves only along a declared transition and keeps the stored state
  declared. For a valid flat machine (state names without the separator), \<open>advanceFsmState\<close> always
  returns, whatever was on disk before (nothing, garbage, or a state the machine no longer has) and
  whichever observers fail; the state read back afterwards is the reported next state and is
  declared; if the machine did not move, nothing at all has changed; and if it moved, the move is a
  declared transition on the given event out of the state read before, the file's history grew by
  exactly that entry, and the session log grew by one record of the move (or stayed the same when
  the log failed).
\<close>

theorem advanceFsmState_correct:
  fixes w :: world and s p :: string and f :: Fsm
  assumes "validateFsm f = []" and "slash_free f"
  defines "cur \<equiv> readFsmState w s p f None"
  shows "\<exists>r w'. advanceFsmState w lf gf s p f ev now g = Some (r, w') \<and>
     readFsmState w' s p f None = flat_next r \<and> flat_next r \<in> set (fsm_states f) \<and>
     (\<not> flat_transitioned r \<longrightarrow> w' = w \<and> flat_next r = cur) \<and>
     (flat_transitioned r \<longrightarrow>
        (\<exists>i. flat_via r = Some i \<and> i < length (fsm_transitions f) \<and>
           t_on (fsm_transitions f ! i) = Some ev \<and>
           (t_from (fsm_transitions f ! i) = ANY_STATE \<or> t_from (fsm_transitions f ! i) = cur) \<and>
           t_to (fsm_transitions f ! i) = flat_next r \<and>
           map_option sf_history (readFsmStateFile w' s p None) =
             Some ((case readFsmStateFile w s p None of Some sf \<Rightarrow> sf_history sf | None \<Rightarrow> []) @
                   [\<lparr>h_state = flat_next r, h_at = now\<rparr>]) \<and>
           transition_log w' s = transition_log w s @
             (if lf then [] else [\<lparr>tr_session = s, tr_pack = p, tr_from = cur, tr_to = flat_next r,
                tr_on = ev, tr_at = now, tr_via = int i\<rparr>])))"
proof -
  let ?r = "flat_spec f cur ev g"
  have cur: "cur \<in> set (fsm_states f)"
    using validateFsm_initial[OF assms(1)] by (simp add: cur_def readFsmState_declared)
  have st: "stepFlat f cur ev g = Some ?r"
    using stepFlat_table[OF assms(1,2) cur] .
  have nx: "flat_next ?r \<in> set (fsm_states f)" by (rule flat_spec_next_declared[OF assms(1) cur])
  show ?thesis
  proof (cases "flat_transitioned ?r")
    case False
    then have "flat_next ?r = cur" by (auto simp: flat_spec_def Let_def split: option.splits)
    with False st nx show ?thesis by (simp add: advanceFsmState_def cur_def[symmetric] Let_def)
  next
    case True
    from flat_spec_edge[OF True] obtain i where "flat_via ?r = Some i" "i < length (fsm_transitions f)"
      "t_on (fsm_transitions f ! i) = Some ev"
      "t_from (fsm_transitions f ! i) = ANY_STATE \<or> t_from (fsm_transitions f ! i) = cur"
      "t_to (fsm_transitions f ! i) = flat_next ?r" by auto
    note i = this
    obtain w' where w': "advanceFsmState w lf gf s p f ev now g = Some (?r, w')"
      "readFsmStateFile w' s p None = Some \<lparr>sf_state = flat_next ?r, sf_started_at = Some now,
        sf_history = (case readFsmStateFile w s p None of Some sf \<Rightarrow> sf_history sf | None \<Rightarrow> []) @
          [\<lparr>h_state = flat_next ?r, h_at = now\<rparr>]\<rparr>"
      "transition_log w' s = transition_log w s @
        (if lf then [] else [\<lparr>tr_session = s, tr_pack = p, tr_from = cur,
          tr_to = flat_next ?r, tr_on = ev, tr_at = now, tr_via = int i\<rparr>])"
      using advance_moves[of f w s p ev g ?r i lf gf now] st True i(1) unfolding cur_def
      by (auto simp: readFsmStateFile_def isFsmStateFile_def)
    show ?thesis
    proof (intro exI conjI)
      show "advanceFsmState w lf gf s p f ev now g = Some (?r, w')" by (fact w'(1))
      show "readFsmState w' s p f None = flat_next ?r" using w'(2) nx by (simp add: readFsmState_def)
      show "\<not> flat_transitioned ?r \<longrightarrow> w' = w \<and> flat_next ?r = cur" using True by simp
      show "flat_transitioned ?r \<longrightarrow> (\<exists>i. flat_via ?r = Some i \<and> i < length (fsm_transitions f) \<and>
           t_on (fsm_transitions f ! i) = Some ev \<and>
           (t_from (fsm_transitions f ! i) = ANY_STATE \<or> t_from (fsm_transitions f ! i) = cur) \<and>
           t_to (fsm_transitions f ! i) = flat_next ?r \<and>
           map_option sf_history (readFsmStateFile w' s p None) =
             Some ((case readFsmStateFile w s p None of Some sf \<Rightarrow> sf_history sf | None \<Rightarrow> []) @
                   [\<lparr>h_state = flat_next ?r, h_at = now\<rparr>]) \<and>
           transition_log w' s = transition_log w s @
             (if lf then [] else [\<lparr>tr_session = s, tr_pack = p, tr_from = cur, tr_to = flat_next ?r,
                tr_on = ev, tr_at = now, tr_via = int i\<rparr>]))"
        using i w'(2,3) by (intro impI exI[of _ i]) simp
    qed (fact nx)
  qed
qed

definition empty_world :: world where
  "empty_world = \<lparr>files = Map.empty, transition_log = (\<lambda>_. []), goal_maps = Map.empty,
     session_cwd = Map.empty, active_task = Map.empty, home = ''/h''\<rparr>"

lemma demo_fsm_ok: "validateFsm demo_fsm = []" "slash_free demo_fsm"
  by code_simp+

theorem advanceFsmState_correct_witness:
  "\<exists>r w'. advanceFsmState empty_world False False ''s'' ''p'' demo_fsm ''pass'' ''t'' None = Some (r, w') \<and>
     flat_next r = ''plan'' \<and> readFsmState w' ''s'' ''p'' demo_fsm None = ''plan''"
proof -
  have "flat_next (flat_spec demo_fsm ''scope'' ''pass'' None) = ''plan''" by code_simp
  moreover have "readFsmState empty_world ''s'' ''p'' demo_fsm None = ''scope''"
    by (simp add: readFsmState_def readFsmStateFile_def empty_world_def demo_fsm_def)
  moreover obtain r w' where r:
    "advanceFsmState empty_world False False ''s'' ''p'' demo_fsm ''pass'' ''t'' None = Some (r, w')"
    "readFsmState w' ''s'' ''p'' demo_fsm None = flat_next r"
    using advanceFsmState_correct[OF demo_fsm_ok] by blast
  moreover have "stepFlat demo_fsm ''scope'' ''pass'' None = Some (flat_spec demo_fsm ''scope'' ''pass'' None)"
    by (rule stepFlat_table[OF demo_fsm_ok]) (simp add: demo_fsm_def)
  ultimately show ?thesis
    by (auto simp: advanceFsmState_def Let_def split: if_splits)
qed

text \<open>
  The compare-and-set of \<open>persistActorState\<close>. When a file holds a readable state, a call with
  an expected state persists exactly when the stored state is the expected one: otherwise it reports
  \<open>false\<close> and the world is unchanged. So of two writers that both expect the state \<open>a\<close> and want to
  move to different states, the one that runs second under the lock is refused and does not
  overwrite the first.
\<close>

theorem persistActorState_cas:
  assumes "readFsmStateFile w s p t = Some sf"
    and "b \<noteq> sf_state sf" and "c \<noteq> b"
  shows "fst (persistActorState w False s p b now t (Some (sf_state sf))) = Inr True \<and>
         readFsmStateFile (snd (persistActorState w False s p b now t (Some (sf_state sf)))) s p t =
           Some \<lparr>sf_state = b, sf_started_at = Some now,
                 sf_history = sf_history sf @ [\<lparr>h_state = b, h_at = now\<rparr>]\<rparr> \<and>
         (let w1 = snd (persistActorState w False s p b now t (Some (sf_state sf)))
          in persistActorState w1 False s p c now' t (Some (sf_state sf)) = (Inr False, w1))"
proof -
  from assms(1) obtain ct where ct: "files w (s, fsmStateKey p t) = Some ct"
    by (cases "files w (s, fsmStateKey p t)") (auto simp: readFsmStateFile_def)
  let ?w1 = "write_state w s (fsmStateKey p t) b (sf_history sf) now"
  have first: "persistActorState w False s p b now t (Some (sf_state sf)) = (Inr True, ?w1)"
    using assms ct by (simp add: persistActorState_def Let_def)
  have rd: "readFsmStateFile ?w1 s p t = Some \<lparr>sf_state = b, sf_started_at = Some now,
      sf_history = sf_history sf @ [\<lparr>h_state = b, h_at = now\<rparr>]\<rparr>"
    by (simp add: readFsmStateFile_def write_state_def isFsmStateFile_def)
  have "files ?w1 (s, fsmStateKey p t) \<noteq> None" by (simp add: write_state_def)
  with rd have "persistActorState ?w1 False s p c now' t (Some (sf_state sf)) = (Inr False, ?w1)"
    using assms(2) by (auto simp: persistActorState_def Let_def)
  with first rd show ?thesis by simp
qed

definition one_file_world :: world where
  "one_file_world = empty_world\<lparr>files := [(''s'', ''fsm-p'') \<mapsto>
     StateJson \<lparr>sf_state = ''a'', sf_started_at = None, sf_history = []\<rparr>]\<rparr>"

theorem persistActorState_cas_witness:
  "fst (persistActorState one_file_world False ''s'' ''p'' ''b'' ''t'' None (Some ''a'')) = Inr True"
  using persistActorState_cas[of one_file_world "''s''" "''p''" None
      "\<lparr>sf_state = ''a'', sf_started_at = None, sf_history = []\<rparr>" "''b''" "''c''" "''t''"]
  by (simp add: readFsmStateFile_def one_file_world_def fsmStateKey_def isFsmStateFile_def)

text \<open>
  Key isolation of per-task machine state, and its limit. Within one pack the session-level key
  and the keys of distinct tasks are all different; but the key does not determine the pack: the
  task \<open>x\<close> of pack \<open>a\<close> and the session-level machine of a pack called \<open>a-x\<close> share one key, so the
  documented absence of leakage between machines does not extend across such pack names.
\<close>

theorem fsmStateKey_isolation:
  "(fsmStateKey p t = fsmStateKey p t' \<longleftrightarrow> t = t') \<and>
   fsmStateKey ''a'' (Some ''x'') = fsmStateKey ''a-x'' None"
  by (auto simp: fsmStateKey_def split: option.splits)

text \<open>
  Goal ownership. A goal map claimed by another session is never reassigned without force;
  every reassignment that succeeds leaves the goal, its creation time and all worksheets untouched
  and makes the requesting session the owner.
\<close>

theorem reassignGoalMap_ownership:
  "(case reassignGoalMap gm s now force of
      Inl e \<Rightarrow> \<not> force \<and> (\<exists>cl. claim gm = Some cl \<and> claim_session cl \<noteq> s \<and> e = ClaimedBy (claim_session cl) s)
    | Inr gm' \<Rightarrow> (force \<or> claim gm = None \<or> map_option claim_session (claim gm) = Some s) \<and>
        gm' = gm\<lparr>claim := Some \<lparr>claim_session = s, claim_at = now\<rparr>\<rparr> \<and>
        goal gm' = goal gm \<and> createdAt gm' = createdAt gm \<and> worksheets gm' = worksheets gm)"
  by (auto simp: reassignGoalMap_def claimGoalMap_def split: option.splits sum.splits)

end
