(* ===== verification/WorkGraph.thy ===== *)
theory WorkGraph
  imports Prelude "HOL-Library.List_Lexorder" "HOL-Library.Char_ord" "HOL-Library.Option_ord"
    "HOL-Library.Product_Lexorder"
begin

text \<open>
  The event-sourced work graph: op identity and the projection reducer (\<open>src/src/workgraph/events.ts\<close>)
  over the data of \<open>types.ts\<close>. The store built on it is in theory \<open>WorkStore\<close>.

  A database is a record of its tables: the op log, the two projections and the sync cursor,
  together with the op files of the git source. Rows keep the column values of the SQL statements,
  with \<^const>\<open>None\<close> for NULL, and a comparison with NULL is false, as in a WHERE clause. JSON text
  columns are kept as the JSON value they encode. The parameters of the model are gathered in a
  record: the SHA-256 hex digest, \<open>JSON.stringify\<close> on scalars, and the rendering of a time as an
  ISO-8601 text. Text is ordered by character code, as SQLite compares it.
\<close>

section \<open>JSON and identity\<close>

datatype json = JUndef | JNull | JBool bool | JNum int | JStr string | JArr "json list"
  | JObj "(string \<times> json) list"

record wg_env =
  sha256 :: "string \<Rightarrow> string"
  stringify :: "json \<Rightarrow> string"
  iso :: "int \<Rightarrow> string"

fun canonicalJson :: "wg_env \<Rightarrow> json \<Rightarrow> string" where
  "canonicalJson E JUndef = ''null''"
| "canonicalJson E (JArr vs) = ''['' @ joinWith '','' (map (canonicalJson E) vs) @ '']''"
| "canonicalJson E (JObj kvs) =
     ''{'' @ joinWith '',''
       (map (\<lambda>(k, c). stringify E (JStr k) @ '':'' @ c)
         (sort_key fst (map (\<lambda>(k, v). (k, canonicalJson E v)) kvs))) @ ''}''"
| "canonicalJson E v = stringify E v"

definition UNIT_SEP :: char where
  "UNIT_SEP = CHR 0x1F"

definition edgeKey :: "wg_env \<Rightarrow> string \<Rightarrow> string \<Rightarrow> string" where
  "edgeKey E fromId toId = take 16 (sha256 E (fromId @ [UNIT_SEP] @ toId))"

definition newline :: string where
  "newline = [CHR 0x0A]"

definition makeOpId :: "wg_env \<Rightarrow> string \<Rightarrow> json \<Rightarrow> nat \<Rightarrow> string \<Rightarrow> string" where
  "makeOpId E ty payload lamport actorId =
     ''op-'' @ take 16 (sha256 E (ty @ newline @ show_nat lamport @ newline @ actorId @ newline @
        canonicalJson E payload))"

definition newIssueId :: "wg_env \<Rightarrow> string \<Rightarrow> string \<Rightarrow> nat \<Rightarrow> string \<Rightarrow> string" where
  "newIssueId E title body lamport actorId =
     ''wg-'' @ take 12 (sha256 E (canonicalJson E (JObj [(''title'', JStr title), (''body'', JStr body)]) @
        newline @ show_nat lamport @ newline @ actorId))"

fun coerce_str :: "json \<Rightarrow> string" where
  "coerce_str (JStr x) = x"
| "coerce_str _ = []"

section \<open>Tables\<close>

datatype WgOpType = issue_created | issue_set | dep_added | dep_removed | issue_archived
  | issue_unarchived | claim_acquired | claim_renewed | wedge_marked | wedge_cleared | claim_released

fun op_type_name :: "WgOpType \<Rightarrow> string" where
  "op_type_name issue_created = ''issue_created''"
| "op_type_name issue_set = ''issue_set''"
| "op_type_name dep_added = ''dep_added''"
| "op_type_name dep_removed = ''dep_removed''"
| "op_type_name issue_archived = ''issue_archived''"
| "op_type_name issue_unarchived = ''issue_unarchived''"
| "op_type_name claim_acquired = ''claim_acquired''"
| "op_type_name claim_renewed = ''claim_renewed''"
| "op_type_name wedge_marked = ''wedge_marked''"
| "op_type_name wedge_cleared = ''wedge_cleared''"
| "op_type_name claim_released = ''claim_released''"

record WgOp =
  op_id :: string
  op_issue :: string
  op_lamport :: nat
  op_type :: WgOpType
  op_payload :: "json obj"
  op_project :: string
  op_actor :: "string option"

record issue_row =
  i_id :: string
  i_title :: string
  i_body :: string
  i_status :: string
  i_created_at :: string
  i_updated_at :: string
  i_lww :: nat
  i_claim_token :: "string option"
  i_claim_audience :: "json option"
  i_claim_expires_at :: "string option"
  i_wedge_reason :: "string option"
  i_archive_reason :: "string option"
  i_project :: string
  i_created_lamport :: nat
  i_actor :: "string option"

record edge_row =
  e_key :: string
  e_from :: string
  e_to :: string
  e_type :: string
  e_project :: string

text \<open>A file of the git source: an op, or text that \<open>JSON.parse\<close> rejects. A missing project is the
  empty text.\<close>

datatype op_file = OpJson WgOp | BadJson

record db =
  wg_ops :: "WgOp list"
  wg_issues :: "issue_row list"
  wg_edges :: "edge_row list"
  sync_cursor :: "nat option"
  source_dir :: "op_file list option"

definition payload_get :: "json obj \<Rightarrow> string \<Rightarrow> json" where
  "payload_get p k = (case map_of p k of Some v \<Rightarrow> v | None \<Rightarrow> JUndef)"

abbreviation payload_str :: "WgOp \<Rightarrow> string \<Rightarrow> string" where
  "payload_str oper k \<equiv> coerce_str (payload_get (op_payload oper) k)"

text \<open>\<open>COALESCE(?, column)\<close> with the bound value \<open>p.k === undefined ? null : s(p.k)\<close>.\<close>

definition coalesce :: "WgOp \<Rightarrow> string \<Rightarrow> string \<Rightarrow> string" where
  "coalesce oper k old =
     (if payload_get (op_payload oper) k = JUndef then old else payload_str oper k)"

definition text_le :: "string option \<Rightarrow> string \<Rightarrow> bool" where
  "text_le a b = (case a of None \<Rightarrow> False | Some x \<Rightarrow> x \<le> b)"

definition update_where :: "('a \<Rightarrow> bool) \<Rightarrow> ('a \<Rightarrow> 'a) \<Rightarrow> 'a list \<Rightarrow> 'a list" where
  "update_where P f xs = map (\<lambda>x. if P x then f x else x) xs"

section \<open>The reducer\<close>

text \<open>The row an op targets and the guard of its WHERE clause.\<close>

definition row_guard :: "WgOp \<Rightarrow> issue_row \<Rightarrow> bool" where
  "row_guard oper r \<longleftrightarrow> i_id r = op_issue oper \<and>
     (case op_type oper of
        issue_set \<Rightarrow> i_lww r \<le> op_lamport oper
      | issue_archived \<Rightarrow> i_lww r \<le> op_lamport oper
      | issue_unarchived \<Rightarrow> i_lww r \<le> op_lamport oper
      | claim_acquired \<Rightarrow> i_status r = ''open'' \<and>
          (i_claim_token r = None \<or> text_le (i_claim_expires_at r) (payload_str oper ''ts''))
      | claim_renewed \<Rightarrow> i_status r = ''open'' \<and>
          i_claim_token r = Some (payload_str oper ''expectedToken'')
      | claim_released \<Rightarrow> payload_str oper ''expectedToken'' = [] \<or>
          i_claim_token r = Some (payload_str oper ''expectedToken'')
      | _ \<Rightarrow> True)"

definition row_update :: "WgOp \<Rightarrow> issue_row \<Rightarrow> issue_row" where
  "row_update oper r =
     (case op_type oper of
        issue_set \<Rightarrow> r\<lparr>i_title := coalesce oper ''title'' (i_title r),
          i_body := coalesce oper ''body'' (i_body r),
          i_status := coalesce oper ''status'' (i_status r),
          i_updated_at := payload_str oper ''ts'', i_lww := op_lamport oper\<rparr>
      | issue_archived \<Rightarrow> r\<lparr>i_status := ''archived'',
          i_archive_reason := Some (payload_str oper ''reason''),
          i_updated_at := payload_str oper ''ts'', i_lww := op_lamport oper\<rparr>
      | issue_unarchived \<Rightarrow> r\<lparr>i_status := ''open'', i_archive_reason := None,
          i_updated_at := payload_str oper ''ts'', i_lww := op_lamport oper\<rparr>
      | claim_acquired \<Rightarrow> r\<lparr>i_claim_token := Some (payload_str oper ''claimToken''),
          i_claim_audience := Some (payload_get (op_payload oper) ''audience''),
          i_claim_expires_at := Some (payload_str oper ''expiresAt''),
          i_updated_at := payload_str oper ''ts''\<rparr>
      | claim_renewed \<Rightarrow> r\<lparr>i_claim_expires_at := Some (payload_str oper ''expiresAt''),
          i_updated_at := payload_str oper ''ts''\<rparr>
      | wedge_marked \<Rightarrow> r\<lparr>i_wedge_reason := Some (payload_str oper ''reason''),
          i_updated_at := payload_str oper ''ts''\<rparr>
      | wedge_cleared \<Rightarrow> r\<lparr>i_wedge_reason := None, i_updated_at := payload_str oper ''ts''\<rparr>
      | claim_released \<Rightarrow> r\<lparr>i_claim_token := None, i_claim_audience := None,
          i_claim_expires_at := None, i_updated_at := payload_str oper ''ts''\<rparr>
      | _ \<Rightarrow> r)"

definition actor_of :: "WgOp \<Rightarrow> string" where
  "actor_of oper = (case op_actor oper of Some a \<Rightarrow> a | None \<Rightarrow> ''legacy'')"

definition new_row :: "WgOp \<Rightarrow> issue_row" where
  "new_row oper = \<lparr>i_id = op_issue oper, i_title = payload_str oper ''title'',
     i_body = payload_str oper ''body'', i_status = ''open'',
     i_created_at = payload_str oper ''ts'', i_updated_at = payload_str oper ''ts'',
     i_lww = op_lamport oper, i_claim_token = None, i_claim_audience = None,
     i_claim_expires_at = None, i_wedge_reason = None, i_archive_reason = None,
     i_project = op_project oper, i_created_lamport = op_lamport oper,
     i_actor = Some (actor_of oper)\<rparr>"

definition upsert_edge :: "wg_env \<Rightarrow> WgOp \<Rightarrow> edge_row list \<Rightarrow> edge_row list" where
  "upsert_edge E oper es =
     (let f = payload_str oper ''from''; t = payload_str oper ''to''; k = edgeKey E f t
      in if k \<in> e_key ` set es
         then update_where (\<lambda>e. e_key e = k) (\<lambda>e. e\<lparr>e_type := payload_str oper ''type''\<rparr>) es
         else es @ [\<lparr>e_key = k, e_from = f, e_to = t, e_type = payload_str oper ''type'',
                     e_project = op_project oper\<rparr>])"

definition applyOp :: "wg_env \<Rightarrow> WgOp \<Rightarrow> db \<Rightarrow> db" where
  "applyOp E oper d =
     (case op_type oper of
        issue_created \<Rightarrow>
          if op_issue oper \<in> i_id ` set (wg_issues d) then d
          else d\<lparr>wg_issues := wg_issues d @ [new_row oper]\<rparr>
      | dep_added \<Rightarrow> d\<lparr>wg_edges := upsert_edge E oper (wg_edges d)\<rparr>
      | dep_removed \<Rightarrow>
          d\<lparr>wg_edges := filter (\<lambda>e. e_key e \<noteq>
               edgeKey E (payload_str oper ''from'') (payload_str oper ''to'')) (wg_edges d)\<rparr>
      | _ \<Rightarrow> d\<lparr>wg_issues := update_where (row_guard oper) (row_update oper) (wg_issues d)\<rparr>)"


section \<open>Replaying an op log\<close>

text \<open>
  The interface between a reducer and the code that replays a log: ops are folded in the order of a
  key, and folding an op twice in a row is folding it once.
\<close>

locale op_log =
  fixes fold_op :: "'o \<Rightarrow> 's \<Rightarrow> 's" and order_key :: "'o \<Rightarrow> 'k::linorder"
  assumes fold_op_retry: "fold_op x (fold_op x s) = fold_op x s"
begin

definition replay :: "'o list \<Rightarrow> 's \<Rightarrow> 's" where
  "replay xs s = fold fold_op (sort_key order_key xs) s"

lemma sort_key_perm:
  "mset xs = mset ys \<Longrightarrow> distinct (map order_key xs) \<Longrightarrow>
   sort_key order_key xs = sort_key order_key ys"
  by (rule sort_key_inj_key_eq) (simp_all add: distinct_map)

lemma replay_perm:
  "mset xs = mset ys \<Longrightarrow> distinct (map order_key xs) \<Longrightarrow> replay xs s = replay ys s"
  by (simp add: replay_def sort_key_perm)

lemma replay_sorted: "sorted (map order_key xs) \<Longrightarrow> replay xs s = fold fold_op xs s"
  by (simp add: replay_def sort_key_id_if_sorted)

lemma replay_snoc:
  assumes "sorted (map order_key xs)" "\<forall>y\<in>set xs. order_key y \<le> order_key x"
  shows "replay (xs @ [x]) s = fold_op x (replay xs s)"
proof -
  have "sorted (map order_key (xs @ [x]))" using assms by (auto simp: sorted_append)
  then show ?thesis using assms(1) by (simp add: replay_sorted)
qed

end


section \<open>The reducer on one issue\<close>

definition find_row :: "db \<Rightarrow> string \<Rightarrow> issue_row option" where
  "find_row d i = List.find (\<lambda>r. i_id r = i) (wg_issues d)"

definition step_row :: "WgOp \<Rightarrow> issue_row \<Rightarrow> issue_row" where
  "step_row oper r = (if row_guard oper r then row_update oper r else r)"

lemma i_id_row_update [simp]: "i_id (row_update oper r) = i_id r"
  by (simp add: row_update_def split: WgOpType.splits)

lemma i_id_step_row [simp]: "i_id (step_row oper r) = i_id r"
  by (simp add: step_row_def)

lemma update_where_rows: "update_where (row_guard oper) (row_update oper) rs = map (step_row oper) rs"
  by (simp add: update_where_def step_row_def)

lemma find_row_None: "find_row d i = None \<longleftrightarrow> i \<notin> i_id ` set (wg_issues d)"
  by (auto simp: find_row_def find_None_iff)

lemma find_row_id: "find_row d i = Some r \<Longrightarrow> i_id r = i"
  by (auto simp: find_row_def dest: find_Some_mem)

text \<open>How one op changes one issue: the only op that creates it is its first creation, the edge ops
  leave it alone, and every other op is a guarded update of the row it names.\<close>

lemma find_row_applyOp:
  "find_row (applyOp E oper d) i =
     (case op_type oper of
        issue_created \<Rightarrow> (case find_row d i of Some r \<Rightarrow> Some r
           | None \<Rightarrow> if i = op_issue oper then Some (new_row oper) else None)
      | dep_added \<Rightarrow> find_row d i
      | dep_removed \<Rightarrow> find_row d i
      | _ \<Rightarrow> map_option (step_row oper) (find_row d i))"
proof (cases "op_type oper")
  case issue_created
  then show ?thesis
    by (auto simp: applyOp_def find_row_def find_append new_row_def find_None_iff
        split: option.splits dest: find_Some_mem)
qed (simp_all add: applyOp_def find_row_def update_where_rows find_map_same)

lemma ids_applyOp:
  "distinct (map i_id (wg_issues d)) \<Longrightarrow> distinct (map i_id (wg_issues (applyOp E oper d)))"
  by (cases "op_type oper")
    (simp_all add: applyOp_def update_where_rows o_def new_row_def)

lemma applyOp_frame [simp]:
  "wg_ops (applyOp E oper d) = wg_ops d" "source_dir (applyOp E oper d) = source_dir d"
  "sync_cursor (applyOp E oper d) = sync_cursor d"
  by (simp_all add: applyOp_def split: WgOpType.splits)

lemma applyOp_wg_ops_update [simp]:
  "applyOp E oper (d\<lparr>wg_ops := w\<rparr>) = (applyOp E oper d)\<lparr>wg_ops := w\<rparr>"
  "applyOp E oper (d\<lparr>source_dir := s\<rparr>) = (applyOp E oper d)\<lparr>source_dir := s\<rparr>"
  "applyOp E oper (d\<lparr>sync_cursor := c\<rparr>) = (applyOp E oper d)\<lparr>sync_cursor := c\<rparr>"
  by (auto simp: applyOp_def split: WgOpType.splits)

subsection \<open>Retrying an op\<close>

lemma coalesce_idem [simp]: "coalesce oper k (coalesce oper k v) = coalesce oper k v"
  by (simp add: coalesce_def)

lemma step_row_idem: "step_row oper (step_row oper r) = step_row oper r"
proof (cases "row_guard oper r")
  case True
  then show ?thesis
    by (cases "op_type oper") (simp_all add: step_row_def row_guard_def row_update_def)
qed (simp add: step_row_def)

lemma keys_retype:
  "map e_key (update_where P (\<lambda>e. e\<lparr>e_type := t\<rparr>) es) = map e_key es"
  by (induction es) (simp_all add: update_where_def)

lemma retype_idem:
  "(\<And>e. P (e\<lparr>e_type := t\<rparr>) = P e) \<Longrightarrow>
   update_where P (\<lambda>e. e\<lparr>e_type := t\<rparr>) (update_where P (\<lambda>e. e\<lparr>e_type := t\<rparr>) es) =
   update_where P (\<lambda>e. e\<lparr>e_type := t\<rparr>) es"
  by (induction es) (simp_all add: update_where_def)

lemma retype_none: "\<forall>e\<in>set es. \<not> P e \<Longrightarrow> update_where P f es = es"
  by (induction es) (simp_all add: update_where_def)

lemma upsert_edge_idem: "upsert_edge E oper (upsert_edge E oper es) = upsert_edge E oper es"
proof -
  let ?k = "edgeKey E (payload_str oper ''from'') (payload_str oper ''to'')"
  let ?t = "payload_str oper ''type''"
  have keys: "?k \<in> e_key ` set (update_where (\<lambda>e. e_key e = ?k) (\<lambda>e. e\<lparr>e_type := ?t\<rparr>) es) \<longleftrightarrow>
      ?k \<in> e_key ` set es"
    by (metis keys_retype set_map)
  show ?thesis
  proof (cases "?k \<in> e_key ` set es")
    case True
    then show ?thesis by (simp add: upsert_edge_def Let_def keys retype_idem)
  next
    case False
    then have "\<forall>e\<in>set es. e_key e \<noteq> ?k" by (metis image_eqI)
    then show ?thesis using False
      by (simp add: upsert_edge_def Let_def update_where_def retype_none[unfolded update_where_def])
  qed
qed

lemma applyOp_retry: "applyOp E oper (applyOp E oper d) = applyOp E oper d"
  by (cases "op_type oper")
    (simp_all add: applyOp_def update_where_rows step_row_idem upsert_edge_idem o_def new_row_def)

definition op_key :: "WgOp \<Rightarrow> nat \<times> string" where
  "op_key oper = (op_lamport oper, op_id oper)"

interpretation wg_log: op_log "applyOp E" op_key for E
  by unfold_locales (rule applyOp_retry)


section \<open>Content addresses do not depend on insertion order\<close>

inductive reordered :: "json \<Rightarrow> json \<Rightarrow> bool" where
  same: "reordered v v"
| arr: "list_all2 reordered vs ws \<Longrightarrow> reordered (JArr vs) (JArr ws)"
| obj: "list_all2 (\<lambda>p q. fst p = fst q \<and> reordered (snd p) (snd q)) kvs lws \<Longrightarrow> mset lws = mset kws \<Longrightarrow>
        distinct (map fst kvs) \<Longrightarrow> reordered (JObj kvs) (JObj kws)"

lemma sort_pairs_perm:
  "mset xs = mset ys \<Longrightarrow> distinct (map fst xs) \<Longrightarrow> sort_key fst xs = sort_key fst ys"
  by (rule sort_key_inj_key_eq) (simp_all add: distinct_map)

lemma canonicalJson_reordered: "reordered v w \<Longrightarrow> canonicalJson E v = canonicalJson E w"
proof (induction rule: reordered.induct)
  case (arr vs ws)
  then have "map (canonicalJson E) vs = map (canonicalJson E) ws"
    by (auto simp: list_all2_conv_all_nth intro: nth_equalityI)
  then show ?case by simp
next
  case (obj kvs lws kws)
  let ?c = "\<lambda>(k, v). (k, canonicalJson E v)"
  have "map ?c kvs = map ?c lws"
    using obj.IH by (auto simp: list_all2_conv_all_nth split_beta intro!: nth_equalityI)
  moreover have "mset (map ?c lws) = mset (map ?c kws)" using obj.hyps by simp
  ultimately have "mset (map ?c kvs) = mset (map ?c kws)" by simp
  moreover have "distinct (map fst (map ?c kvs))"
    using obj.hyps by (simp add: o_def split_beta)
  ultimately have "sort_key fst (map ?c kvs) = sort_key fst (map ?c kws)" by (rule sort_pairs_perm)
  then show ?case by simp
qed simp

text \<open>
  The content address of an op does not depend on the insertion order of object keys, at any
  depth of its payload: two payloads that differ only in the order of the keys of their objects have
  the same canonical text, hence the same op id.
\<close>

theorem makeOpId_insertion_order:
  assumes "reordered payload payload'"
  shows "canonicalJson E payload = canonicalJson E payload' \<and>
    makeOpId E ty payload lamport actor = makeOpId E ty payload' lamport actor"
  using canonicalJson_reordered[OF assms] by (simp add: makeOpId_def)

text \<open>A concrete environment: a digest that keeps the digits of its input, and times written as
  four digits.\<close>

definition demo_env :: wg_env where
  "demo_env = \<lparr>sha256 = filter (\<lambda>c. c \<in> set ''0123456789''), stringify = (\<lambda>v. case v of JStr x \<Rightarrow> x | _ \<Rightarrow> ''null''),
     iso = (\<lambda>t. map (\<lambda>k. char_of (48 + nat k)) [t div 1000 mod 10, t div 100 mod 10, t div 10 mod 10, t mod 10])\<rparr>"

theorem makeOpId_insertion_order_witness:
  "makeOpId demo_env ''issue_created'' (JObj [(''a'', JNull), (''b'', JObj [(''x'', JNull), (''y'', JStr ''v'')])]) 1 ''r'' =
   makeOpId demo_env ''issue_created'' (JObj [(''b'', JObj [(''y'', JStr ''v''), (''x'', JNull)]), (''a'', JNull)]) 1 ''r''"
proof -
  have "reordered (JObj [(''x'', JNull), (''y'', JStr ''v'')]) (JObj [(''y'', JStr ''v''), (''x'', JNull)])"
    by (rule reordered.obj[where lws = "[(''x'', JNull), (''y'', JStr ''v'')]"])
      (simp_all add: reordered.same add_mset_commute)
  then have "reordered (JObj [(''a'', JNull), (''b'', JObj [(''x'', JNull), (''y'', JStr ''v'')])])
      (JObj [(''b'', JObj [(''y'', JStr ''v''), (''x'', JNull)]), (''a'', JNull)])"
    by (intro reordered.obj[where lws = "[(''a'', JNull), (''b'', JObj [(''y'', JStr ''v''), (''x'', JNull)])]"])
      (simp_all add: reordered.same add_mset_commute)
  then show ?thesis using makeOpId_insertion_order by blast
qed

section \<open>Last writer wins\<close>

definition retire_op :: "WgOp \<Rightarrow> bool" where
  "retire_op oper \<longleftrightarrow> op_type oper = issue_archived \<or> op_type oper = issue_unarchived"

lemma step_row_retire:
  assumes "retire_op a"
  obtains st re where "\<And>r. step_row a r = (if i_id r = op_issue a \<and> i_lww r \<le> op_lamport a
     then r\<lparr>i_status := st, i_archive_reason := re, i_updated_at := payload_str a ''ts'',
            i_lww := op_lamport a\<rparr> else r)"
proof (cases "op_type a = issue_archived")
  case True
  show ?thesis
    by (rule that[of "Some (payload_str a ''reason'')" "''archived''"])
      (simp add: True step_row_def row_guard_def row_update_def)
next
  case False
  with assms have "op_type a = issue_unarchived" by (simp add: retire_op_def)
  then show ?thesis
    by (intro that[of None "''open''"]) (simp add: step_row_def row_guard_def row_update_def)
qed

lemma step_row_commute:
  assumes "retire_op a" "retire_op b" "op_lamport a \<noteq> op_lamport b"
  shows "step_row a (step_row b r) = step_row b (step_row a r)"
proof -
  obtain sa ra where a: "\<And>r. step_row a r = (if i_id r = op_issue a \<and> i_lww r \<le> op_lamport a
     then r\<lparr>i_status := sa, i_archive_reason := ra, i_updated_at := payload_str a ''ts'',
            i_lww := op_lamport a\<rparr> else r)"
    using step_row_retire[OF assms(1)] by blast
  obtain sb rb where b: "\<And>r. step_row b r = (if i_id r = op_issue b \<and> i_lww r \<le> op_lamport b
     then r\<lparr>i_status := sb, i_archive_reason := rb, i_updated_at := payload_str b ''ts'',
            i_lww := op_lamport b\<rparr> else r)"
    using step_row_retire[OF assms(2)] by blast
  show ?thesis using assms(3) unfolding a b by (cases "op_lamport a < op_lamport b") auto
qed

lemma applyOp_retire: "retire_op a \<Longrightarrow> applyOp E a d = d\<lparr>wg_issues := map (step_row a) (wg_issues d)\<rparr>"
  by (auto simp: retire_op_def applyOp_def update_where_rows)

text \<open>
  Archiving converges: any two orders in which a set of archive and unarchive ops with distinct
  lamports reaches the projection give the same projection, so an archived issue is not brought back
  by an older unarchive that arrives late.
\<close>

theorem archive_ops_converge:
  assumes "mset xs = mset ys" "\<forall>a\<in>set xs. retire_op a" "distinct (map op_lamport xs)"
  shows "fold (applyOp E) xs d = fold (applyOp E) ys d"
proof -
  have "fold (applyOp E) xs = fold (applyOp E) ys"
  proof (rule fold_multiset_equiv[OF _ assms(1)])
    fix a b assume ab: "a \<in> set xs" "b \<in> set xs"
    show "applyOp E a \<circ> applyOp E b = applyOp E b \<circ> applyOp E a"
    proof (cases "a = b")
      case False
      then have "op_lamport a \<noteq> op_lamport b"
        using ab assms(3) by (auto simp: distinct_map inj_on_def)
      then show ?thesis using ab assms(2)
        by (auto simp: fun_eq_iff applyOp_retire step_row_commute)
    qed simp
  qed
  then show ?thesis by simp
qed

definition demo_op :: "WgOpType \<Rightarrow> string \<Rightarrow> nat \<Rightarrow> json obj \<Rightarrow> WgOp" where
  "demo_op ty i n p = \<lparr>op_id = i, op_issue = ''wg-1'', op_lamport = n, op_type = ty, op_payload = p,
     op_project = ''legacy-global'', op_actor = Some ''r''\<rparr>"

definition empty_db :: db where
  "empty_db = \<lparr>wg_ops = [], wg_issues = [], wg_edges = [], sync_cursor = None, source_dir = Some []\<rparr>"

definition open_db :: db where
  "open_db = applyOp demo_env (demo_op issue_created ''op-1'' 1 [(''title'', JStr ''t'')]) empty_db"

theorem archive_ops_converge_witness:
  "fold (applyOp demo_env) [demo_op issue_unarchived ''op-2'' 2 [], demo_op issue_archived ''op-3'' 3 []] open_db =
   fold (applyOp demo_env) [demo_op issue_archived ''op-3'' 3 [], demo_op issue_unarchived ''op-2'' 2 []] open_db \<and>
   map_option i_status (find_row (fold (applyOp demo_env)
     [demo_op issue_archived ''op-3'' 3 [], demo_op issue_unarchived ''op-2'' 2 []] open_db) ''wg-1'') = Some ''archived''"
proof -
  have "map_option i_status (find_row (fold (applyOp demo_env)
     [demo_op issue_archived ''op-3'' 3 [], demo_op issue_unarchived ''op-2'' 2 []] open_db) ''wg-1'') = Some ''archived''"
    by code_simp
  then show ?thesis
    using archive_ops_converge[of "[demo_op issue_unarchived ''op-2'' 2 [], demo_op issue_archived ''op-3'' 3 []]"
        "[demo_op issue_archived ''op-3'' 3 [], demo_op issue_unarchived ''op-2'' 2 []]" demo_env open_db]
    by (simp add: demo_op_def retire_op_def)
qed


section \<open>Claims\<close>

text \<open>An op that may take the claim \<open>tok\<close>, good until \<open>e\<close>, away from its holder: a release that
  names the token or names none, an acquisition at or after the expiry, or the holder's own renewal to
  an earlier expiry.\<close>

definition ends_claim :: "string \<Rightarrow> string \<Rightarrow> string \<Rightarrow> WgOp \<Rightarrow> bool" where
  "ends_claim i tok e oper \<longleftrightarrow> op_issue oper = i \<and>
     (case op_type oper of
        claim_released \<Rightarrow> payload_str oper ''expectedToken'' = [] \<or> payload_str oper ''expectedToken'' = tok
      | claim_acquired \<Rightarrow> e \<le> payload_str oper ''ts''
      | claim_renewed \<Rightarrow> payload_str oper ''expectedToken'' = tok \<and> payload_str oper ''expiresAt'' < e
      | _ \<Rightarrow> False)"

definition holds_claim :: "db \<Rightarrow> string \<Rightarrow> string \<Rightarrow> string \<Rightarrow> bool" where
  "holds_claim d i tok e \<longleftrightarrow>
     (\<exists>r x. find_row d i = Some r \<and> i_claim_token r = Some tok \<and> i_claim_expires_at r = Some x \<and> e \<le> x)"

lemma holds_claim_step:
  assumes "holds_claim d i tok e" "\<not> ends_claim i tok e oper"
  shows "holds_claim (applyOp E oper d) i tok e"
proof -
  obtain r x where r: "find_row d i = Some r" "i_claim_token r = Some tok"
      "i_claim_expires_at r = Some x" "e \<le> x"
    using assms(1) by (auto simp: holds_claim_def)
  note rid = find_row_id[OF r(1)]
  have "\<exists>y. i_claim_token (step_row oper r) = Some tok \<and> i_claim_expires_at (step_row oper r) = Some y \<and> e \<le> y"
  proof (cases "row_guard oper r")
    case True
    then show ?thesis
      using assms(2) r(2-4) rid
      by (cases "op_type oper")
        (auto simp: step_row_def row_guard_def row_update_def ends_claim_def text_le_def)
  qed (use r in \<open>simp add: step_row_def\<close>)
  then show ?thesis using r
    by (cases "op_type oper") (auto simp: holds_claim_def find_row_applyOp)
qed

text \<open>
  C31. A claim excludes every other claimant until it ends. Once an issue is held under a token that
  is good until \<open>e\<close>, it is still held under that token after any sequence of ops on any issues,
  except through a release that names the token (or names none), an acquisition stamped at or after
  the expiry, or the holder's own renewal to an earlier time.
\<close>

theorem claim_excludes_others:
  assumes "holds_claim d i tok e" "\<forall>oper\<in>set ops. \<not> ends_claim i tok e oper"
  shows "holds_claim (fold (applyOp E) ops d) i tok e"
  using assms
proof (induction ops arbitrary: d)
  case (Cons oper ops)
  then have "holds_claim (applyOp E oper d) i tok e" by (auto intro: holds_claim_step)
  with Cons show ?case by simp
qed simp

definition claim_op :: "string \<Rightarrow> nat \<Rightarrow> string \<Rightarrow> string \<Rightarrow> string \<Rightarrow> WgOp" where
  "claim_op i n tok ts e = demo_op claim_acquired i n
     [(''claimToken'', JStr tok), (''expiresAt'', JStr e), (''ts'', JStr ts)]"

theorem claim_excludes_others_witness:
  "holds_claim (fold (applyOp demo_env)
     [claim_op ''op-3'' 3 ''B'' ''110'' ''300'', demo_op claim_released ''op-4'' 4 [(''expectedToken'', JStr ''B'')],
      demo_op wedge_marked ''op-5'' 5 []] (applyOp demo_env (claim_op ''op-2'' 2 ''A'' ''100'' ''200'') open_db))
     ''wg-1'' ''A'' ''200''"
proof -
  have "find_row (applyOp demo_env (claim_op ''op-2'' 2 ''A'' ''100'' ''200'') open_db) ''wg-1'' =
     Some ((new_row (demo_op issue_created ''op-1'' 1 [(''title'', JStr ''t'')]))\<lparr>
       i_claim_token := Some ''A'', i_claim_audience := Some JUndef, i_claim_expires_at := Some ''200'',
       i_updated_at := ''100''\<rparr>)"
    by code_simp
  then have "holds_claim (applyOp demo_env (claim_op ''op-2'' 2 ''A'' ''100'' ''200'') open_db) ''wg-1'' ''A'' ''200''"
    by (simp add: holds_claim_def)
  moreover have "\<not> ends_claim ''wg-1'' ''A'' ''200'' (claim_op ''op-3'' 3 ''B'' ''110'' ''300'')"
    "\<not> ends_claim ''wg-1'' ''A'' ''200'' (demo_op claim_released ''op-4'' 4 [(''expectedToken'', JStr ''B'')])"
    "\<not> ends_claim ''wg-1'' ''A'' ''200'' (demo_op wedge_marked ''op-5'' 5 [])"
    by code_simp+
  ultimately show ?thesis by (intro claim_excludes_others) simp_all
qed

end
