(* ===== verification/WorkStore.thy ===== *)
theory WorkStore
  imports WorkGraph
begin

text \<open>
  The work-graph store (\<open>src/src/workgraph/store.ts\<close>, \<open>audience.ts\<close> and the id check of
  \<open>storage/atomic_file.ts\<close>): the append path, the queries, the claim protocol, the sync cursor and
  the rebuild from op files.

  A statement can fail and other processes share the database file, so an append runs against a
  schedule: for each attempt, the fault the database reports and what other processes do to the
  database between the two statements of the attempt. A quiet schedule has neither. Times are given
  in milliseconds and rendered by the environment; the random part of a claim token is an argument.
\<close>

section \<open>Reading rows\<close>

definition EDGE_TYPES :: "string list" where
  "EDGE_TYPES = [''blocks'', ''parent-child'', ''discovered-from'', ''related'']"

datatype IssueStatus = Open | In_progress | Closed | Archived

fun status_text :: "IssueStatus \<Rightarrow> string" where
  "status_text Open = ''open''"
| "status_text In_progress = ''in_progress''"
| "status_text Closed = ''closed''"
| "status_text Archived = ''archived''"

record Issue =
  id_of :: string
  title :: string
  body :: string
  status :: IssueStatus
  created_at :: string
  updatedAt :: string
  claimToken :: "string option"
  claimAudience :: "json option"
  claimExpiresAt :: "string option"
  wedgeReason :: "string option"
  archiveReason :: "string option"

definition toStatus :: "string \<Rightarrow> IssueStatus" where
  "toStatus s = (if s = ''in_progress'' then In_progress else if s = ''closed'' then Closed
     else if s = ''archived'' then Archived else Open)"

definition optStr :: "string option \<Rightarrow> string option" where
  "optStr v = (case v of Some x \<Rightarrow> if x = [] then None else Some x | None \<Rightarrow> None)"

text \<open>The audience column holds \<open>JSON.stringify\<close> of the audience, or the empty text when the op had
  none, which reads back as no audience.\<close>

definition parseAudience :: "json option \<Rightarrow> json option" where
  "parseAudience v = (case v of Some JUndef \<Rightarrow> None | _ \<Rightarrow> v)"

definition rowToIssue :: "issue_row \<Rightarrow> Issue" where
  "rowToIssue r = \<lparr>id_of = i_id r, title = i_title r, body = i_body r, status = toStatus (i_status r),
     created_at = i_created_at r, updatedAt = i_updated_at r, claimToken = optStr (i_claim_token r),
     claimAudience = parseAudience (i_claim_audience r), claimExpiresAt = optStr (i_claim_expires_at r),
     wedgeReason = optStr (i_wedge_reason r), archiveReason = optStr (i_archive_reason r)\<rparr>"

definition getIssue :: "db \<Rightarrow> string \<Rightarrow> Issue option" where
  "getIssue d i = map_option rowToIssue (find_row d i)"

section \<open>Migration\<close>

definition created_lamport_of :: "WgOp list \<Rightarrow> string \<Rightarrow> nat" where
  "created_lamport_of ops i =
     (case map op_lamport (filter (\<lambda>x. op_issue x = i \<and> op_type x = issue_created) ops) of
        [] \<Rightarrow> 0 | l # ls \<Rightarrow> foldr min ls l)"

definition backfillTuple :: "db \<Rightarrow> db" where
  "backfillTuple d = d\<lparr>
     wg_issues := map (\<lambda>r. r\<lparr>i_created_lamport :=
         (if i_created_lamport r = 0 then created_lamport_of (wg_ops d) (i_id r) else i_created_lamport r),
         i_actor := Some (case i_actor r of Some a \<Rightarrow> a | None \<Rightarrow> ''legacy'')\<rparr>) (wg_issues d),
     wg_ops := map (\<lambda>x. x\<lparr>op_actor := Some (actor_of x)\<rparr>) (wg_ops d)\<rparr>"

section \<open>Appending an op\<close>

definition MAX_APPEND_RETRIES :: nat where
  "MAX_APPEND_RETRIES = 8"

definition LOCAL_PROJECT :: string where
  "LOCAL_PROJECT = ''legacy-global''"

datatype fault = Busy | DupOpId | OtherFault string

datatype wg_error = SqlFault fault | FileFault | UnsafeRecordId | NoIssue string | NotProjected
  | IssueLost | BadEdgeType string | SelfEdge | EndpointMissing | TokenRequired | BadTtl | InvalidTime | BadOpFile

definition isBusy :: "fault \<Rightarrow> bool" where
  "isBusy f \<longleftrightarrow> f = Busy"

definition isDupOpId :: "fault \<Rightarrow> bool" where
  "isDupOpId f \<longleftrightarrow> f = DupOpId"

record sched =
  ins_fault :: "nat \<Rightarrow> fault option"
  ins_others :: "nat \<Rightarrow> db \<Rightarrow> db"
  file_fault :: bool
  prj_fault :: "nat \<Rightarrow> fault option"
  prj_others :: "nat \<Rightarrow> db \<Rightarrow> db"

definition quiet :: sched where
  "quiet = \<lparr>ins_fault = (\<lambda>_. None), ins_others = (\<lambda>_. id), file_fault = False,
     prj_fault = (\<lambda>_. None), prj_others = (\<lambda>_. id)\<rparr>"

definition next_lamport :: "WgOp list \<Rightarrow> nat" where
  "next_lamport ops = foldr max (map op_lamport ops) 0 + 1"

definition safeRecordId :: "string \<Rightarrow> string option" where
  "safeRecordId i = (if i = [] \<or> str_includes i ''/'' \<or> str_includes i [CHR 92] \<or> str_includes i ''..''
     then None else Some i)"

definition candidate_op ::
  "wg_env \<Rightarrow> string \<Rightarrow> (nat \<Rightarrow> string) \<Rightarrow> WgOpType \<Rightarrow> json obj \<Rightarrow> string \<Rightarrow> nat \<Rightarrow> WgOp" where
  "candidate_op E actor issueId ty payload ts lamport =
     \<lparr>op_id = makeOpId E (op_type_name ty) (JObj payload) lamport actor, op_issue = issueId lamport,
      op_lamport = lamport, op_type = ty, op_payload = AList.update ''ts'' (JStr ts) payload,
      op_project = LOCAL_PROJECT, op_actor = Some actor\<rparr>"

text \<open>The insert loop, by the number of attempts that remain after this one.\<close>

fun insert_op ::
  "wg_env \<Rightarrow> sched \<Rightarrow> string \<Rightarrow> (nat \<Rightarrow> string) \<Rightarrow> WgOpType \<Rightarrow> json obj \<Rightarrow> string \<Rightarrow> nat \<Rightarrow> db \<Rightarrow>
   (wg_error + WgOp) \<times> db" where
  "insert_op E sc actor issueId ty payload ts left d =
     (let attempt = MAX_APPEND_RETRIES - left;
          d1 = ins_others sc attempt d;
          oper = candidate_op E actor issueId ty payload ts (next_lamport (wg_ops d));
          outcome = (case ins_fault sc attempt of Some f \<Rightarrow> Some f
             | None \<Rightarrow> if op_id oper \<in> op_id ` set (wg_ops d1) then Some DupOpId else None)
      in case outcome of
           None \<Rightarrow> (Inr oper, d1\<lparr>wg_ops := wg_ops d1 @ [oper]\<rparr>)
         | Some f \<Rightarrow> (case left of
             Suc n \<Rightarrow> if isBusy f \<or> isDupOpId f
                then insert_op E sc actor issueId ty payload ts n d1 else (Inl (SqlFault f), d1)
           | 0 \<Rightarrow> (Inl (SqlFault f), d1)))"

declare insert_op.simps [simp del]

definition write_op_file :: "sched \<Rightarrow> WgOp \<Rightarrow> db \<Rightarrow> wg_error option \<times> db" where
  "write_op_file sc oper d =
     (case source_dir d of
        None \<Rightarrow> (None, d)
      | Some fs \<Rightarrow> (case safeRecordId (op_id oper) of
          None \<Rightarrow> (Some UnsafeRecordId, d)
        | Some _ \<Rightarrow> if file_fault sc then (Some FileFault, d)
            else (None, d\<lparr>source_dir := Some (filter
               (\<lambda>f. case f of OpJson x \<Rightarrow> op_id x \<noteq> op_id oper | BadJson \<Rightarrow> True) fs @ [OpJson oper])\<rparr>)))"

fun project_op :: "wg_env \<Rightarrow> sched \<Rightarrow> WgOp \<Rightarrow> nat \<Rightarrow> db \<Rightarrow> wg_error option \<times> db" where
  "project_op E sc oper left d =
     (let attempt = MAX_APPEND_RETRIES - left; d1 = prj_others sc attempt d
      in case prj_fault sc attempt of
           None \<Rightarrow> (None, applyOp E oper d1)
         | Some f \<Rightarrow> (case left of
             Suc n \<Rightarrow> if isBusy f then project_op E sc oper n d1 else (Some (SqlFault f), d1)
           | 0 \<Rightarrow> (Some (SqlFault f), d1)))"

declare project_op.simps [simp del]

definition appendOp ::
  "wg_env \<Rightarrow> sched \<Rightarrow> string \<Rightarrow> int \<Rightarrow> (nat \<Rightarrow> string) \<Rightarrow> WgOpType \<Rightarrow> json obj \<Rightarrow> db \<Rightarrow>
   (wg_error + nat \<times> string) \<times> db" where
  "appendOp E sc actor now issueId ty payload d =
     (case insert_op E sc actor issueId ty payload (iso E now) MAX_APPEND_RETRIES d of
        (Inl e, d1) \<Rightarrow> (Inl e, d1)
      | (Inr oper, d1) \<Rightarrow> (case write_op_file sc oper d1 of
          (Some e, d2) \<Rightarrow> (Inl e, d2)
        | (None, d2) \<Rightarrow> (case project_op E sc oper MAX_APPEND_RETRIES d2 of
            (Some e, d3) \<Rightarrow> (Inl e, d3)
          | (None, d3) \<Rightarrow> (Inr (op_lamport oper, op_issue oper), d3))))"


section \<open>The store operations\<close>

text \<open>Operations that append one op on an existing issue share their guard.\<close>

definition append_existing ::
  "wg_env \<Rightarrow> sched \<Rightarrow> string \<Rightarrow> int \<Rightarrow> string \<Rightarrow> WgOpType \<Rightarrow> json obj \<Rightarrow> db \<Rightarrow> (wg_error + unit) \<times> db" where
  "append_existing E sc actor now i ty payload d =
     (if getIssue d i = None then (Inl (NoIssue i), d)
      else case appendOp E sc actor now (\<lambda>_. i) ty payload d of
        (Inl e, d1) \<Rightarrow> (Inl e, d1) | (Inr _, d1) \<Rightarrow> (Inr (), d1))"

definition init :: "db \<Rightarrow> db" where
  "init d = backfillTuple d"

definition createIssue ::
  "wg_env \<Rightarrow> sched \<Rightarrow> string \<Rightarrow> int \<Rightarrow> string \<Rightarrow> string \<Rightarrow> db \<Rightarrow> (wg_error + Issue) \<times> db" where
  "createIssue E sc actor now t b d =
     (case appendOp E sc actor now (\<lambda>l. newIssueId E t b l actor) issue_created
             [(''title'', JStr t), (''body'', JStr b)] d of
        (Inl e, d1) \<Rightarrow> (Inl e, d1)
      | (Inr (_, i), d1) \<Rightarrow> (case getIssue d1 i of None \<Rightarrow> (Inl NotProjected, d1) | Some x \<Rightarrow> (Inr x, d1)))"

definition row_order :: "issue_row \<Rightarrow> nat \<times> string option" where
  "row_order r = (i_created_lamport r, i_actor r)"

definition listIssues :: "db \<Rightarrow> IssueStatus option \<Rightarrow> Issue list" where
  "listIssues d st = map rowToIssue (sort_key row_order
     (case st of Some x \<Rightarrow> filter (\<lambda>r. i_status r = status_text x) (wg_issues d) | None \<Rightarrow> wg_issues d))"

definition listEdges :: "db \<Rightarrow> (string \<times> string \<times> string) list" where
  "listEdges d = map (\<lambda>e. (e_from e, e_to e, e_type e)) (sort_key e_key (wg_edges d))"

record issue_patch =
  p_status :: "IssueStatus option"
  p_title :: "string option"
  p_body :: "string option"

definition patch_payload :: "issue_patch \<Rightarrow> json obj" where
  "patch_payload p =
     (case p_title p of Some t \<Rightarrow> [(''title'', JStr t)] | None \<Rightarrow> []) @
     (case p_body p of Some b \<Rightarrow> [(''body'', JStr b)] | None \<Rightarrow> []) @
     (case p_status p of Some st \<Rightarrow> [(''status'', JStr (status_text st))] | None \<Rightarrow> [])"

text \<open>\<open>updateIssue\<close> also says whether the close callback ran; \<open>hooked\<close> is whether one is installed.\<close>

definition updateIssue ::
  "wg_env \<Rightarrow> sched \<Rightarrow> string \<Rightarrow> int \<Rightarrow> bool \<Rightarrow> string \<Rightarrow> issue_patch \<Rightarrow> db \<Rightarrow>
   (wg_error + Issue \<times> bool) \<times> db" where
  "updateIssue E sc actor now hooked i p d =
     (case getIssue d i of
        None \<Rightarrow> (Inl (NoIssue i), d)
      | Some cur \<Rightarrow> (case appendOp E sc actor now (\<lambda>_. i) issue_set (patch_payload p) d of
          (Inl e, d1) \<Rightarrow> (Inl e, d1)
        | (Inr _, d1) \<Rightarrow> (case getIssue d1 i of
            None \<Rightarrow> (Inl IssueLost, d1)
          | Some nxt \<Rightarrow> (Inr (nxt, hooked \<and> (p_status p = Some Closed \<or> p_status p = Some Archived) \<and>
              Some (status cur) \<noteq> p_status p), d1))))"

definition addEdge ::
  "wg_env \<Rightarrow> sched \<Rightarrow> string \<Rightarrow> int \<Rightarrow> string \<Rightarrow> string \<Rightarrow> string \<Rightarrow> db \<Rightarrow> (wg_error + unit) \<times> db" where
  "addEdge E sc actor now fromId toId ty d =
     (if ty \<notin> set EDGE_TYPES then (Inl (BadEdgeType ty), d)
      else if fromId = toId then (Inl SelfEdge, d)
      else if getIssue d fromId = None \<or> getIssue d toId = None then (Inl EndpointMissing, d)
      else case appendOp E sc actor now (\<lambda>_. fromId) dep_added
             [(''from'', JStr fromId), (''to'', JStr toId), (''type'', JStr ty)] d of
        (Inl e, d1) \<Rightarrow> (Inl e, d1) | (Inr _, d1) \<Rightarrow> (Inr (), d1))"

definition blocked :: "db \<Rightarrow> string \<Rightarrow> bool" where
  "blocked d i = list_ex (\<lambda>e. e_to e = i \<and> e_type e = ''blocks'' \<and>
     list_ex (\<lambda>x. i_id x = e_from e \<and> i_status x \<notin> {''closed'', ''archived''}) (wg_issues d)) (wg_edges d)"

definition ready_row :: "wg_env \<Rightarrow> int \<Rightarrow> db \<Rightarrow> issue_row \<Rightarrow> bool" where
  "ready_row E now d r \<longleftrightarrow> i_status r = ''open'' \<and>
     (i_claim_token r = None \<or> text_le (i_claim_expires_at r) (iso E now)) \<and>
     i_wedge_reason r = None \<and> \<not> blocked d (i_id r)"

definition listReady :: "wg_env \<Rightarrow> int \<Rightarrow> db \<Rightarrow> Issue list" where
  "listReady E now d = map rowToIssue (sort_key row_order (filter (ready_row E now d) (wg_issues d)))"

definition MAX_SAFE_INTEGER :: int where
  "MAX_SAFE_INTEGER = 9007199254740991"

text \<open>\<open>toISOString\<close> throws outside the range of a \<open>Date\<close>.\<close>

definition date_ok :: "int \<Rightarrow> bool" where
  "date_ok t \<longleftrightarrow> \<bar>t\<bar> \<le> 8640000000000000"

definition renew_until ::
  "wg_env \<Rightarrow> sched \<Rightarrow> string \<Rightarrow> int \<Rightarrow> string \<Rightarrow> string \<Rightarrow> string \<Rightarrow> db \<Rightarrow> (wg_error + bool \<times> string) \<times> db" where
  "renew_until E sc actor ts i expectedToken expiresAt d =
     (case appendOp E sc actor ts (\<lambda>_. i) claim_renewed
             [(''expectedToken'', JStr expectedToken), (''expiresAt'', JStr expiresAt)] d of
        (Inl e, d1) \<Rightarrow> (Inl e, d1)
      | (Inr _, d1) \<Rightarrow> (Inr ((case getIssue d1 i of None \<Rightarrow> False
          | Some c \<Rightarrow> claimToken c = Some expectedToken \<and> claimExpiresAt c = Some expiresAt), expiresAt), d1))"

definition renewClaim ::
  "wg_env \<Rightarrow> sched \<Rightarrow> string \<Rightarrow> int \<Rightarrow> int \<Rightarrow> string \<Rightarrow> string \<Rightarrow> int \<Rightarrow> db \<Rightarrow>
   (wg_error + bool \<times> string) \<times> db" where
  "renewClaim E sc actor now ts i expectedToken ttlSec d =
     (if getIssue d i = None then (Inl (NoIssue i), d)
      else if expectedToken = [] then (Inl TokenRequired, d)
      else if \<bar>ttlSec\<bar> > MAX_SAFE_INTEGER \<or> ttlSec < 1 then (Inl BadTtl, d)
      else if \<not> date_ok (now + ttlSec * 1000) then (Inl InvalidTime, d)
      else renew_until E sc actor ts i expectedToken (iso E (now + ttlSec * 1000)) d)"

definition wedgeMark ::
  "wg_env \<Rightarrow> sched \<Rightarrow> string \<Rightarrow> int \<Rightarrow> string \<Rightarrow> string \<Rightarrow> db \<Rightarrow> (wg_error + unit) \<times> db" where
  "wedgeMark E sc actor now i reason = append_existing E sc actor now i wedge_marked [(''reason'', JStr reason)]"

definition clearWedge :: "wg_env \<Rightarrow> sched \<Rightarrow> string \<Rightarrow> int \<Rightarrow> string \<Rightarrow> db \<Rightarrow> (wg_error + unit) \<times> db" where
  "clearWedge E sc actor now i = append_existing E sc actor now i wedge_cleared []"

definition archiveIssue ::
  "wg_env \<Rightarrow> sched \<Rightarrow> string \<Rightarrow> int \<Rightarrow> string \<Rightarrow> string option \<Rightarrow> db \<Rightarrow> (wg_error + unit) \<times> db" where
  "archiveIssue E sc actor now i reason = append_existing E sc actor now i issue_archived
     (case reason of None \<Rightarrow> [] | Some r \<Rightarrow> [(''reason'', JStr r)])"

definition unarchiveIssue :: "wg_env \<Rightarrow> sched \<Rightarrow> string \<Rightarrow> int \<Rightarrow> string \<Rightarrow> db \<Rightarrow> (wg_error + unit) \<times> db" where
  "unarchiveIssue E sc actor now i = append_existing E sc actor now i issue_unarchived []"

definition releaseClaim ::
  "wg_env \<Rightarrow> sched \<Rightarrow> string \<Rightarrow> int \<Rightarrow> string \<Rightarrow> string option \<Rightarrow> db \<Rightarrow> (wg_error + unit) \<times> db" where
  "releaseClaim E sc actor now i tok = append_existing E sc actor now i claim_released
     (case tok of None \<Rightarrow> [] | Some t \<Rightarrow> [(''expectedToken'', JStr t)])"

text \<open>The token of a claim attempt; \<open>nonce\<close> is its random text.\<close>

definition claim_token :: "wg_env \<Rightarrow> string \<Rightarrow> string \<Rightarrow> string" where
  "claim_token E i nonce = ''clm-'' @ take 16 (sha256 E (i @ newline @ nonce))"

definition has_token :: "db \<Rightarrow> string \<Rightarrow> string \<Rightarrow> bool" where
  "has_token d i tok = (case getIssue d i of None \<Rightarrow> False | Some c \<Rightarrow> claimToken c = Some tok)"

text \<open>\<open>auth0\<close> and \<open>auth1\<close> are the answers of \<open>isAuthorized\<close> before and after the compare-and-set; the
  release, if any, runs on its own schedule.\<close>

definition claim_with ::
  "wg_env \<Rightarrow> sched \<Rightarrow> sched \<Rightarrow> string \<Rightarrow> int \<Rightarrow> string \<Rightarrow> json \<Rightarrow> string \<Rightarrow> string \<Rightarrow> bool \<Rightarrow> db \<Rightarrow>
   (wg_error + bool \<times> string) \<times> db" where
  "claim_with E sc sc' actor ts i audience expiresAt tok auth1 d =
     (case appendOp E sc actor ts (\<lambda>_. i) claim_acquired
             [(''claimToken'', JStr tok), (''audience'', audience), (''expiresAt'', JStr expiresAt)] d of
        (Inl e, d1) \<Rightarrow> (Inl e, d1)
      | (Inr _, d1) \<Rightarrow>
          if has_token d1 i tok \<and> \<not> auth1
          then (case appendOp E sc' actor ts (\<lambda>_. i) claim_released [(''expectedToken'', JStr tok)] d1 of
              (Inl e, d2) \<Rightarrow> (Inl e, d2) | (Inr _, d2) \<Rightarrow> (Inr (False, expiresAt), d2))
          else (Inr (has_token d1 i tok, expiresAt), d1))"

definition claimIssue ::
  "wg_env \<Rightarrow> sched \<Rightarrow> sched \<Rightarrow> string \<Rightarrow> int \<Rightarrow> int \<Rightarrow> string \<Rightarrow> string \<Rightarrow> json \<Rightarrow> int \<Rightarrow> bool \<Rightarrow> bool \<Rightarrow> db \<Rightarrow>
   (wg_error + bool \<times> string) \<times> db" where
  "claimIssue E sc sc' actor now ts nonce i audience ttlSec auth0 auth1 d =
     (if getIssue d i = None then (Inl (NoIssue i), d)
      else if \<not> date_ok (now + ttlSec * 1000) then (Inl InvalidTime, d)
      else if \<not> auth0 then (Inr (False, iso E (now + ttlSec * 1000)), d)
      else claim_with E sc sc' actor ts i audience (iso E (now + ttlSec * 1000)) (claim_token E i nonce) auth1 d)"

definition row_to_op :: "WgOp \<Rightarrow> WgOp" where
  "row_to_op x = x\<lparr>op_actor := Some (case op_actor x of Some a \<Rightarrow> if a = [] then ''legacy'' else a
     | None \<Rightarrow> ''legacy'')\<rparr>"

definition listEvents :: "db \<Rightarrow> string \<Rightarrow> WgOp list" where
  "listEvents d i = map row_to_op (sort_key op_key (filter (\<lambda>x. op_issue x = i) (wg_ops d)))"

definition listOpsSince :: "db \<Rightarrow> nat \<Rightarrow> WgOp list" where
  "listOpsSince d cursor = map row_to_op (sort_key op_key (filter (\<lambda>x. cursor < op_lamport x) (wg_ops d)))"

definition readHighWater :: "db \<Rightarrow> nat" where
  "readHighWater d = (case sync_cursor d of Some n \<Rightarrow> n | None \<Rightarrow> 0)"

definition advanceHighWater :: "db \<Rightarrow> nat \<Rightarrow> db" where
  "advanceHighWater d n = d\<lparr>sync_cursor := Some (case sync_cursor d of Some m \<Rightarrow> max m n | None \<Rightarrow> n)\<rparr>"

section \<open>Rebuilding from the op files\<close>

fun load_op :: "op_file \<Rightarrow> WgOp option" where
  "load_op BadJson = None"
| "load_op (OpJson x) = Some (x\<lparr>op_project := (if op_project x = [] then ''legacy-global'' else op_project x),
     op_actor := Some (case op_actor x of Some a \<Rightarrow> if a = [] then ''legacy'' else a | None \<Rightarrow> ''legacy'')\<rparr>)"

definition replay_op :: "wg_env \<Rightarrow> WgOp \<Rightarrow> db \<Rightarrow> db" where
  "replay_op E x d = applyOp E x
     (if op_id x \<in> op_id ` set (wg_ops d) then d else d\<lparr>wg_ops := wg_ops d @ [x]\<rparr>)"

definition rebuildWorkGraph :: "wg_env \<Rightarrow> db \<Rightarrow> (wg_error + nat) \<times> db" where
  "rebuildWorkGraph E d =
     (let d0 = d\<lparr>wg_ops := [], wg_issues := [], wg_edges := []\<rparr>
      in case source_dir d of
           None \<Rightarrow> (Inr 0, d0)
         | Some fs \<Rightarrow> (case those (map load_op fs) of
             None \<Rightarrow> (Inl BadOpFile, d0)
           | Some ops \<Rightarrow> (Inr (length ops), fold (replay_op E) (sort_key op_key ops) d0)))"

section \<open>Audience of a claim\<close>

definition claim_audience :: "string option \<Rightarrow> string option \<Rightarrow> json" where
  "claim_audience claudecode codex_thread_id =
     (case claudecode of
        Some v \<Rightarrow> if v \<noteq> [] then JObj [(''source'', JStr ''claudecode''), (''version'', JStr v)]
          else (case codex_thread_id of
              Some t \<Rightarrow> if t \<noteq> [] then JObj [(''source'', JStr ''codex''), (''threadId'', JStr t)]
                else JObj [(''source'', JStr ''unknown'')]
            | None \<Rightarrow> JObj [(''source'', JStr ''unknown'')])
      | None \<Rightarrow> (case codex_thread_id of
              Some t \<Rightarrow> if t \<noteq> [] then JObj [(''source'', JStr ''codex''), (''threadId'', JStr t)]
                else JObj [(''source'', JStr ''unknown'')]
            | None \<Rightarrow> JObj [(''source'', JStr ''unknown'')]))"


section \<open>The append path without interference\<close>

definition calm :: "sched \<Rightarrow> bool" where
  "calm sc \<longleftrightarrow> ins_others sc = (\<lambda>_. id) \<and> prj_others sc = (\<lambda>_. id)"

lemma insert_op_calm:
  assumes "calm sc" "insert_op E sc actor iss ty payload ts left d = (res, d')"
  shows "(\<exists>e. res = Inl e \<and> d' = d) \<or>
    (\<exists>oper. oper = candidate_op E actor iss ty payload ts (next_lamport (wg_ops d)) \<and> res = Inr oper \<and>
       op_id oper \<notin> op_id ` set (wg_ops d) \<and> d' = d\<lparr>wg_ops := wg_ops d @ [oper]\<rparr>)"
  using assms(2)
proof (induction left)
  case 0
  then show ?case using assms(1)
    by (subst (asm) insert_op.simps) (auto simp: Let_def calm_def split: option.splits if_splits)
next
  case (Suc n)
  from Suc.prems show ?case using assms(1)
    by (subst (asm) insert_op.simps)
      (auto simp: Let_def calm_def split: option.splits if_splits dest!: Suc.IH)
qed

lemma project_op_calm:
  assumes "calm sc" "project_op E sc oper left d = (res, d')"
  shows "(res = None \<and> d' = applyOp E oper d) \<or> ((\<exists>e. res = Some e) \<and> d' = d)"
  using assms(2)
proof (induction left)
  case 0
  then show ?case using assms(1)
    by (subst (asm) project_op.simps) (auto simp: Let_def calm_def split: option.splits)
next
  case (Suc n)
  from Suc.prems show ?case using assms(1)
    by (subst (asm) project_op.simps)
      (auto simp: Let_def calm_def split: option.splits if_splits dest: Suc.IH)
qed

text \<open>Phase 2 gets through: only \<open>SQLITE_BUSY\<close> faults, and not more of them than there are retries.\<close>

definition projects :: "sched \<Rightarrow> bool" where
  "projects sc \<longleftrightarrow> (\<exists>k\<le>MAX_APPEND_RETRIES. prj_fault sc k = None \<and> (\<forall>j<k. prj_fault sc j = Some Busy))"

definition clean :: "sched \<Rightarrow> bool" where
  "clean sc \<longleftrightarrow> calm sc \<and> \<not> file_fault sc \<and> projects sc"

lemma project_op_gets_through:
  assumes "calm sc" "k \<le> MAX_APPEND_RETRIES" "prj_fault sc k = None"
    "\<forall>j<k. prj_fault sc j = Some Busy" "n \<le> k"
  shows "project_op E sc oper (MAX_APPEND_RETRIES - n) d = (None, applyOp E oper d)"
  using assms(5)
proof (induction "k - n" arbitrary: n)
  case 0
  then have "n = k" by simp
  then show ?case using assms(1-3) by (subst project_op.simps) (simp add: Let_def calm_def)
next
  case (Suc m)
  then have lt: "n < k" by simp
  then obtain q where q: "MAX_APPEND_RETRIES - n = Suc q" "q = MAX_APPEND_RETRIES - Suc n"
    using assms(2) by (metis Suc_diff_Suc less_le_trans)
  have "project_op E sc oper (MAX_APPEND_RETRIES - Suc n) d = (None, applyOp E oper d)"
    using Suc lt by (intro Suc.hyps(1)) auto
  moreover have "MAX_APPEND_RETRIES - Suc q = n" using q lt assms(2) by linarith
  ultimately show ?case using assms(1,4) lt q(1)
    unfolding q(1) by (subst project_op.simps) (simp add: Let_def calm_def isBusy_def q(2))
qed

lemma project_op_clean:
  "clean sc \<Longrightarrow> project_op E sc oper MAX_APPEND_RETRIES d = (None, applyOp E oper d)"
  using project_op_gets_through[of sc _ 0] by (auto simp: clean_def projects_def)


text \<open>What the code relies on of the digest: \<open>digest('hex')\<close> writes hexadecimal digits.\<close>

definition hex_env :: "wg_env \<Rightarrow> bool" where
  "hex_env E \<longleftrightarrow> (\<forall>x. set (sha256 E x) \<subseteq> set ''0123456789abcdef'')"

lemma str_includes_subset: "str_includes x p \<Longrightarrow> set p \<subseteq> set x"
  by (auto simp: includes_iff)

lemma safeRecordId_makeOpId:
  assumes "hex_env E"
  shows "safeRecordId (makeOpId E ty p l a) = Some (makeOpId E ty p l a)"
proof -
  have sub: "set (makeOpId E ty p l a) \<subseteq> set ''op-0123456789abcdef''"
    using assms set_take_subset[of 16 "sha256 E _"]
    unfolding makeOpId_def hex_env_def set_append by fastforce
  have "\<not> str_includes (makeOpId E ty p l a) q" if "\<not> set q \<subseteq> set ''op-0123456789abcdef''" for q
    using str_includes_subset[of "makeOpId E ty p l a" q] sub that by blast
  then show ?thesis by (simp add: safeRecordId_def) (simp add: makeOpId_def)
qed

definition add_file :: "WgOp \<Rightarrow> op_file list \<Rightarrow> op_file list" where
  "add_file oper fs = filter (\<lambda>f. case f of OpJson x \<Rightarrow> op_id x \<noteq> op_id oper | BadJson \<Rightarrow> True) fs @ [OpJson oper]"

text \<open>The whole effect of an append: nothing, or the op is logged under a fresh id with the next
  lamport, filed and folded.\<close>

definition logged :: "wg_env \<Rightarrow> WgOp \<Rightarrow> db \<Rightarrow> db" where
  "logged E oper d = applyOp E oper (d\<lparr>wg_ops := wg_ops d @ [oper],
     source_dir := map_option (add_file oper) (source_dir d)\<rparr>)"

lemma write_op_file_clean:
  assumes "clean sc" "hex_env E"
  shows "write_op_file sc (candidate_op E actor iss ty payload ts l) d =
    (None, d\<lparr>source_dir := map_option (add_file (candidate_op E actor iss ty payload ts l)) (source_dir d)\<rparr>)"
  using assms
  by (auto simp: write_op_file_def candidate_op_def safeRecordId_makeOpId clean_def add_file_def
      split: option.splits)

lemma appendOp_clean:
  assumes "clean sc" "hex_env E"
  obtains (failed) e where "appendOp E sc actor now iss ty payload d = (Inl e, d)"
  | (appended) oper where "oper = candidate_op E actor iss ty payload (iso E now) (next_lamport (wg_ops d))"
      "op_id oper \<notin> op_id ` set (wg_ops d)"
      "appendOp E sc actor now iss ty payload d = (Inr (op_lamport oper, op_issue oper), logged E oper d)"
proof -
  obtain res d1 where ins: "insert_op E sc actor iss ty payload (iso E now) MAX_APPEND_RETRIES d = (res, d1)"
    by (rule prod.exhaust)
  have "calm sc" using assms by (simp add: clean_def)
  from insert_op_calm[OF this ins]
  consider e where "res = Inl e" "d1 = d"
    | oper where "oper = candidate_op E actor iss ty payload (iso E now) (next_lamport (wg_ops d))"
       "res = Inr oper" "op_id oper \<notin> op_id ` set (wg_ops d)" "d1 = d\<lparr>wg_ops := wg_ops d @ [oper]\<rparr>"
    by blast
  then show ?thesis
  proof cases
    case 1
    with ins show ?thesis by (intro failed) (simp add: appendOp_def)
  next
    case (2 oper)
    with ins assms show ?thesis
      by (intro appended[of oper])
        (simp_all add: appendOp_def write_op_file_clean project_op_clean logged_def)
  qed
qed

lemma appendOp_result_clean:
  assumes "clean sc" "hex_env E" "appendOp E sc actor now iss ty payload d = (Inr (l, i), d')"
  shows "d' = logged E (candidate_op E actor iss ty payload (iso E now) (next_lamport (wg_ops d))) d \<and>
    l = next_lamport (wg_ops d) \<and> i = iss l"
  using assms(3)
  by (cases rule: appendOp_clean[OF assms(1,2), of actor now iss ty payload d])
    (auto simp: candidate_op_def)

lemma lamport_below_next: "x \<in> set ops \<Longrightarrow> op_lamport x < next_lamport ops"
  by (induction ops) (auto simp: next_lamport_def)

section \<open>The live database and its rebuild\<close>

text \<open>Every operation of the store that writes, called by a named replica on a schedule without
  interference or fatal fault.\<close>

inductive store_step :: "wg_env \<Rightarrow> db \<Rightarrow> db \<Rightarrow> bool" for E where
  init: "store_step E d (init d)"
| createIssue: "clean sc \<Longrightarrow> actor \<noteq> [] \<Longrightarrow> createIssue E sc actor now t b d = (res, d') \<Longrightarrow> store_step E d d'"
| updateIssue: "clean sc \<Longrightarrow> actor \<noteq> [] \<Longrightarrow> updateIssue E sc actor now h i p d = (res', d') \<Longrightarrow> store_step E d d'"
| addEdge: "clean sc \<Longrightarrow> actor \<noteq> [] \<Longrightarrow> addEdge E sc actor now f t ty d = (res'', d') \<Longrightarrow> store_step E d d'"
| renewClaim: "clean sc \<Longrightarrow> actor \<noteq> [] \<Longrightarrow> renewClaim E sc actor now ts i tok ttl d = (res3, d') \<Longrightarrow> store_step E d d'"
| wedgeMark: "clean sc \<Longrightarrow> actor \<noteq> [] \<Longrightarrow> wedgeMark E sc actor now i reason d = (res'', d') \<Longrightarrow> store_step E d d'"
| clearWedge: "clean sc \<Longrightarrow> actor \<noteq> [] \<Longrightarrow> clearWedge E sc actor now i d = (res'', d') \<Longrightarrow> store_step E d d'"
| archiveIssue: "clean sc \<Longrightarrow> actor \<noteq> [] \<Longrightarrow> archiveIssue E sc actor now i why d = (res'', d') \<Longrightarrow> store_step E d d'"
| unarchiveIssue: "clean sc \<Longrightarrow> actor \<noteq> [] \<Longrightarrow> unarchiveIssue E sc actor now i d = (res'', d') \<Longrightarrow> store_step E d d'"
| releaseClaim: "clean sc \<Longrightarrow> actor \<noteq> [] \<Longrightarrow> releaseClaim E sc actor now i tk d = (res'', d') \<Longrightarrow> store_step E d d'"
| claimIssue: "clean sc \<Longrightarrow> clean sc' \<Longrightarrow> actor \<noteq> [] \<Longrightarrow>
    claimIssue E sc sc' actor now ts nonce i aud ttl a0 a1 d = (res3, d') \<Longrightarrow> store_step E d d'"
| advanceHighWater: "store_step E d (advanceHighWater d n)"
| rebuild: "store_step E d (snd (rebuildWorkGraph E d))"

inductive store_run :: "wg_env \<Rightarrow> db \<Rightarrow> bool" for E where
  start: "store_run E empty_db"
| step: "store_run E d \<Longrightarrow> store_step E d d' \<Longrightarrow> store_run E d'"

text \<open>The invariant of a run: the op files are exactly the op log, lamports strictly increase, ids are
  distinct, and the two projections are the fold of the log.\<close>

definition project_log :: "wg_env \<Rightarrow> db \<Rightarrow> db" where
  "project_log E d = fold (applyOp E) (wg_ops d) (d\<lparr>wg_issues := [], wg_edges := []\<rparr>)"

definition log_inv :: "wg_env \<Rightarrow> db \<Rightarrow> bool" where
  "log_inv E d \<longleftrightarrow> source_dir d = Some (map OpJson (wg_ops d)) \<and>
     sorted_wrt (<) (map op_lamport (wg_ops d)) \<and> distinct (map op_id (wg_ops d)) \<and>
     (\<forall>x\<in>set (wg_ops d). op_project x = LOCAL_PROJECT \<and> (\<exists>a. op_actor x = Some a \<and> a \<noteq> []) \<and> 0 < op_lamport x) \<and>
     project_log E d = d"

lemma fold_applyOp_wg_ops [simp]:
  "fold (applyOp E) ops (d\<lparr>wg_ops := w\<rparr>) = (fold (applyOp E) ops d)\<lparr>wg_ops := w\<rparr>"
  "fold (applyOp E) ops (d\<lparr>source_dir := v\<rparr>) = (fold (applyOp E) ops d)\<lparr>source_dir := v\<rparr>"
  "fold (applyOp E) ops (d\<lparr>sync_cursor := c\<rparr>) = (fold (applyOp E) ops d)\<lparr>sync_cursor := c\<rparr>"
  by (induction ops arbitrary: d) simp_all

lemma fold_applyOp_frame [simp]:
  "wg_ops (fold (applyOp E) ops d) = wg_ops d" "source_dir (fold (applyOp E) ops d) = source_dir d"
  "sync_cursor (fold (applyOp E) ops d) = sync_cursor d"
  by (induction ops arbitrary: d) simp_all

lemma add_file_fresh:
  "op_id oper \<notin> op_id ` set ops \<Longrightarrow> add_file oper (map OpJson ops) = map OpJson (ops @ [oper])"
  by (induction ops) (auto simp: add_file_def)


lemma applyOp_base [simp]:
  "(applyOp E oper d)\<lparr>wg_issues := [], wg_edges := []\<rparr> = d\<lparr>wg_issues := [], wg_edges := []\<rparr>"
  by (simp add: applyOp_def split: WgOpType.splits)

lemma base_commute:
  "d\<lparr>wg_ops := w, source_dir := v, wg_issues := [], wg_edges := []\<rparr> =
   d\<lparr>wg_issues := [], wg_edges := [], wg_ops := w, source_dir := v\<rparr>"
  by simp

lemma base_cursor:
  "d\<lparr>sync_cursor := c, wg_issues := [], wg_edges := []\<rparr> =
   d\<lparr>wg_issues := [], wg_edges := [], sync_cursor := c\<rparr>"
  by simp

lemma project_log_logged:
  assumes "project_log E d = d"
  shows "project_log E (logged E oper d) = logged E oper d"
proof -
  let ?v = "map_option (add_file oper) (source_dir d)"
  have "project_log E (logged E oper d) =
      applyOp E oper (fold (applyOp E) (wg_ops d) (d\<lparr>wg_issues := [], wg_edges := [],
        wg_ops := wg_ops d @ [oper], source_dir := ?v\<rparr>))"
    unfolding project_log_def by (simp add: logged_def base_commute del: applyOp_wg_ops_update fold_applyOp_wg_ops)
  also have "\<dots> = applyOp E oper ((project_log E d)\<lparr>wg_ops := wg_ops d @ [oper], source_dir := ?v\<rparr>)"
    by (simp add: project_log_def)
  also have "\<dots> = logged E oper d" using assms by (simp add: logged_def)
  finally show ?thesis by simp
qed

lemma log_inv_logged:
  assumes inv: "log_inv E d" and "actor \<noteq> []" and fresh: "op_id oper \<notin> op_id ` set (wg_ops d)"
    and oper: "oper = candidate_op E actor iss ty payload ts (next_lamport (wg_ops d))"
  shows "log_inv E (logged E oper d)"
proof -
  have src: "source_dir d = Some (map OpJson (wg_ops d))" using inv by (simp add: log_inv_def)
  have fields: "op_project oper = LOCAL_PROJECT" "op_actor oper = Some actor"
      "op_lamport oper = next_lamport (wg_ops d)"
    by (simp_all add: oper candidate_op_def)
  have d: "project_log E d = d" using inv by (simp add: log_inv_def)
  have "project_log E (logged E oper d) = logged E oper d" using d by (rule project_log_logged)
  moreover have "wg_ops (logged E oper d) = wg_ops d @ [oper]"
      "source_dir (logged E oper d) = Some (map OpJson (wg_ops d @ [oper]))"
    using fresh by (simp_all add: logged_def src add_file_fresh)
  ultimately show ?thesis
    using inv fresh fields assms(2) lamport_below_next[of _ "wg_ops d"]
    by (auto simp: log_inv_def sorted_wrt_append next_lamport_def)
qed


lemma log_inv_appendOp:
  assumes "clean sc" "hex_env E" "actor \<noteq> []" "log_inv E d"
    "appendOp E sc actor now iss ty payload d = (res, d')"
  shows "log_inv E d'"
  using assms(4,5)
  by (cases rule: appendOp_clean[OF assms(1,2), of actor now iss ty payload d])
    (auto intro: log_inv_logged[OF assms(4,3)])

lemma log_inv_append_existing:
  "clean sc \<Longrightarrow> hex_env E \<Longrightarrow> actor \<noteq> [] \<Longrightarrow> log_inv E d \<Longrightarrow>
   append_existing E sc actor now i ty payload d = (res, d') \<Longrightarrow> log_inv E d'"
  by (auto simp: append_existing_def split: if_splits prod.splits sum.splits dest: log_inv_appendOp)

lemma load_own_op:
  "op_project x = LOCAL_PROJECT \<Longrightarrow> op_actor x = Some a \<Longrightarrow> a \<noteq> [] \<Longrightarrow> load_op (OpJson x) = Some x"
  by (simp add: LOCAL_PROJECT_def)

lemma fold_replay_op:
  assumes "distinct (map op_id ops)" "op_id ` set ops \<inter> op_id ` set (wg_ops d) = {}"
  shows "fold (replay_op E) ops d = (fold (applyOp E) ops d)\<lparr>wg_ops := wg_ops d @ ops\<rparr>"
  using assms
proof (induction ops arbitrary: d)
  case (Cons x xs)
  let ?d1 = "applyOp E x (d\<lparr>wg_ops := wg_ops d @ [x]\<rparr>)"
  have "fold (replay_op E) xs ?d1 = (fold (applyOp E) xs ?d1)\<lparr>wg_ops := wg_ops ?d1 @ xs\<rparr>"
    using Cons.prems by (intro Cons.IH) auto
  moreover have "replay_op E x d = ?d1" using Cons.prems by (auto simp: replay_op_def)
  ultimately show ?case by simp
qed simp

lemma sorted_op_key: "sorted_wrt (<) (map op_lamport ops) \<Longrightarrow> sorted (map op_key ops)"
  by (induction ops) (auto simp: op_key_def less_eq_prod_def)

lemma rebuild_own_log:
  assumes "log_inv E d"
  shows "rebuildWorkGraph E d = (Inr (length (wg_ops d)), d)"
proof -
  let ?base = "d\<lparr>wg_ops := [], wg_issues := [], wg_edges := []\<rparr>"
  have "those (map load_op (map OpJson (wg_ops d))) = Some (wg_ops d)"
    using assms by (auto simp: log_inv_def those_eq_Some_iff load_own_op simp del: load_op.simps)
  moreover have "sort_key op_key (wg_ops d) = wg_ops d"
    using assms by (simp add: log_inv_def sorted_op_key sort_key_id_if_sorted)
  moreover have "fold (replay_op E) (wg_ops d) ?base = project_log E d"
  proof -
    have "fold (replay_op E) (wg_ops d) ?base = (fold (applyOp E) (wg_ops d) ?base)\<lparr>wg_ops := wg_ops d\<rparr>"
      using assms by (subst fold_replay_op) (simp_all add: log_inv_def)
    also have "\<dots> = (project_log E d)\<lparr>wg_ops := wg_ops d\<rparr>"
    proof -
      have "?base = (d\<lparr>wg_issues := [], wg_edges := []\<rparr>)\<lparr>wg_ops := []\<rparr>" by simp
      then show ?thesis by (simp only: fold_applyOp_wg_ops project_log_def) simp
    qed
    also have "\<dots> = project_log E d" using assms by (simp add: log_inv_def)
    finally show ?thesis .
  qed
  ultimately show ?thesis
    using assms by (simp add: rebuildWorkGraph_def log_inv_def)
qed

definition stamped :: "issue_row \<Rightarrow> bool" where
  "stamped r \<longleftrightarrow> 0 < i_created_lamport r \<and> i_actor r \<noteq> None"

lemma stamped_step_row: "stamped r \<Longrightarrow> stamped (step_row oper r)"
  by (cases "op_type oper") (simp_all add: stamped_def step_row_def row_update_def)

lemma stamped_applyOp:
  assumes "\<forall>r\<in>set (wg_issues d). stamped r" "0 < op_lamport oper"
  shows "\<forall>r\<in>set (wg_issues (applyOp E oper d)). stamped r"
proof -
  have "stamped (new_row oper)" using assms(2) by (simp add: new_row_def stamped_def)
  then show ?thesis using assms(1)
    by (cases "op_type oper") (auto simp: applyOp_def update_where_rows stamped_step_row)
qed

lemma stamped_fold:
  "\<forall>x\<in>set ops. 0 < op_lamport x \<Longrightarrow> \<forall>r\<in>set (wg_issues d). stamped r \<Longrightarrow>
   \<forall>r\<in>set (wg_issues (fold (applyOp E) ops d)). stamped r"
proof (induction ops arbitrary: d)
  case (Cons x xs)
  have "\<forall>r\<in>set (wg_issues (applyOp E x d)). stamped r"
    using Cons.prems by (intro stamped_applyOp) auto
  with Cons.IH[of "applyOp E x d"] Cons.prems(1) show ?case by simp
qed simp

lemma backfill_stamped_row:
  "stamped r \<Longrightarrow> r\<lparr>i_created_lamport := (if i_created_lamport r = 0 then n else i_created_lamport r),
     i_actor := Some (case i_actor r of Some a \<Rightarrow> a | None \<Rightarrow> ''legacy'')\<rparr> = r"
  by (cases r) (auto simp: stamped_def)

lemma init_own_log:
  assumes "log_inv E d"
  shows "init d = d"
proof -
  have "\<forall>r\<in>set (wg_issues (project_log E d)). stamped r"
    using assms unfolding project_log_def by (intro stamped_fold) (auto simp: log_inv_def)
  then have rows: "\<forall>r\<in>set (wg_issues d). stamped r" using assms by (simp add: log_inv_def)
  have "map (\<lambda>r. r\<lparr>i_created_lamport :=
         (if i_created_lamport r = 0 then created_lamport_of (wg_ops d) (i_id r) else i_created_lamport r),
         i_actor := Some (case i_actor r of Some a \<Rightarrow> a | None \<Rightarrow> ''legacy'')\<rparr>) (wg_issues d) = wg_issues d"
    using rows by (intro map_idI) (simp add: backfill_stamped_row)
  moreover have "map (\<lambda>x. x\<lparr>op_actor := Some (actor_of x)\<rparr>) (wg_ops d) = wg_ops d"
  proof (rule map_idI)
    fix x assume "x \<in> set (wg_ops d)"
    then obtain a where "op_actor x = Some a" using assms by (auto simp: log_inv_def)
    then show "x\<lparr>op_actor := Some (actor_of x)\<rparr> = x" by (cases x) (simp add: actor_of_def)
  qed
  ultimately show ?thesis by (simp add: init_def backfillTuple_def)
qed


lemmas append_cases = prod.splits sum.splits if_splits option.splits

lemma log_inv_claimIssue:
  assumes "clean sc" "clean sc'" "hex_env E" "actor \<noteq> []" "log_inv E d"
    "claimIssue E sc sc' actor now ts nonce i aud ttl a0 a1 d = (res, d')"
  shows "log_inv E d'"
  using assms
  by (auto simp: claimIssue_def claim_with_def split: append_cases dest: log_inv_appendOp)

lemma log_inv_step:
  assumes "store_step E d d'" "hex_env E" "log_inv E d"
  shows "log_inv E d'"
  using assms
proof (cases rule: store_step.cases)
  case (createIssue sc actor now t b res)
  then show ?thesis using assms
    by (auto simp: createIssue_def split: append_cases dest: log_inv_appendOp)
next
  case (updateIssue sc actor now h i p res')
  then show ?thesis using assms
    by (auto simp: updateIssue_def split: append_cases dest: log_inv_appendOp)
next
  case (addEdge sc actor now f t ty res'')
  then show ?thesis using assms
    by (auto simp: addEdge_def split: append_cases dest: log_inv_appendOp)
next
  case (renewClaim sc actor now ts i tok ttl res3)
  then show ?thesis using assms
    by (auto simp: renewClaim_def renew_until_def split: append_cases dest: log_inv_appendOp)
next
  case (claimIssue sc sc' actor now ts nonce i aud ttl a0 a1 res3)
  then show ?thesis using assms log_inv_claimIssue by blast
next
  case (advanceHighWater n)
  have "project_log E (d\<lparr>sync_cursor := c\<rparr>) = (project_log E d)\<lparr>sync_cursor := c\<rparr>" for c
    by (simp add: project_log_def base_cursor)
  with advanceHighWater assms(3) show ?thesis by (simp add: log_inv_def advanceHighWater_def)
qed (auto simp: init_own_log rebuild_own_log wedgeMark_def clearWedge_def archiveIssue_def
    unarchiveIssue_def releaseClaim_def intro: log_inv_append_existing)

lemma log_inv_run: "store_run E d \<Longrightarrow> hex_env E \<Longrightarrow> log_inv E d"
proof (induction rule: store_run.induct)
  case start
  show ?case by (simp add: log_inv_def empty_db_def project_log_def)
qed (rule log_inv_step)


text \<open>
  Op identity along a run: lamports are strictly increasing in append order, so no two ops of
  the log share a lamport, and their ids are distinct.
\<close>

theorem run_lamports_unique:
  assumes "store_run E d" "hex_env E"
  shows "sorted_wrt (<) (map op_lamport (wg_ops d)) \<and> distinct (map op_id (wg_ops d))"
  using log_inv_run[OF assms] by (simp add: log_inv_def)

interpretation wg_replay: op_log "replay_op E" op_key for E
proof unfold_locales
  fix x d
  have "op_id x \<in> op_id ` set (wg_ops (replay_op E x d))" by (simp add: replay_op_def)
  then show "replay_op E x (replay_op E x d) = replay_op E x d"
    by (subst replay_op_def) (simp add: replay_op_def applyOp_retry)
qed

lemma replay_op_source_dir:
  "replay_op E x (d\<lparr>source_dir := v\<rparr>) = (replay_op E x d)\<lparr>source_dir := v\<rparr>"
  by (simp add: replay_op_def)

lemma fold_replay_source_dir:
  "fold (replay_op E) ops (d\<lparr>source_dir := v\<rparr>) = (fold (replay_op E) ops d)\<lparr>source_dir := v\<rparr>"
  by (induction ops arbitrary: d) (simp_all add: replay_op_source_dir)

lemma base_source_dir:
  "d\<lparr>source_dir := v, wg_ops := [], wg_issues := [], wg_edges := []\<rparr> =
   d\<lparr>wg_ops := [], wg_issues := [], wg_edges := [], source_dir := v\<rparr>"
  by simp

lemma those_perm:
  "mset xs = mset ys \<Longrightarrow> those xs = Some us \<Longrightarrow> \<exists>vs. those ys = Some vs \<and> mset us = mset vs"
proof -
  assume m: "mset xs = mset ys" and "those xs = Some us"
  then have xs: "xs = map Some us" by (simp add: those_eq_Some_iff)
  then have "\<forall>y\<in>set ys. \<exists>v. y = Some v" using m by (metis ex_map_conv mset_eq_setD)
  then obtain vs where ys: "ys = map Some vs" by (metis ex_map_conv)
  have "image_mset the (mset xs) = image_mset the (mset ys)" using m by simp
  then have "mset us = mset vs" by (simp add: xs ys multiset.map_comp o_def)
  then show ?thesis using ys by (auto simp: those_eq_Some_iff)
qed

text \<open>
  Replicas converge: rebuilding from the same op files gives the same result and the same tables
  whatever order the directory lists them in (a git merge may add files anywhere), provided the file
  names, which are the op ids, are distinct.
\<close>

theorem rebuild_order_independent:
  assumes "mset fs = mset fs'" "distinct (map (op_id \<circ> the \<circ> load_op) fs)"
  shows "rebuildWorkGraph E (d\<lparr>source_dir := Some fs'\<rparr>) =
    (let (res, db') = rebuildWorkGraph E (d\<lparr>source_dir := Some fs\<rparr>) in (res, db'\<lparr>source_dir := Some fs'\<rparr>))"
proof (cases "those (map load_op fs)")
  case None
  have m: "mset (map load_op fs') = mset (map load_op fs)" using assms(1) by simp
  have "those (map load_op fs') = None"
    using those_perm[OF m] None by (cases "those (map load_op fs')") auto
  with None show ?thesis by (simp add: rebuildWorkGraph_def)
next
  case (Some us)
  obtain vs where vs: "those (map load_op fs') = Some vs" "mset us = mset vs"
    using those_perm[OF _ Some, of "map load_op fs'"] assms(1) by auto
  have "map load_op fs = map Some us" using Some by (simp add: those_eq_Some_iff)
  then have "map the (map load_op fs) = us" by (simp add: o_def)
  then have "map (the \<circ> load_op) fs = us" by simp
  then have "distinct (map op_id us)" using assms(2) by (metis comp_assoc map_map)
  then have "distinct (map op_key us)" by (auto simp: distinct_map inj_on_def op_key_def)
  then have "sort_key op_key us = sort_key op_key vs"
    using vs(2) by (intro wg_replay.sort_key_perm)
  moreover have "length us = length vs" using vs(2) by (rule mset_eq_length)
  ultimately show ?thesis
    using Some vs(1) by (simp add: rebuildWorkGraph_def Let_def base_source_dir fold_replay_source_dir)
qed


section \<open>The claim protocol\<close>

lemma find_row_frame [simp]:
  "find_row (d\<lparr>wg_ops := w\<rparr>) i = find_row d i" "find_row (d\<lparr>source_dir := v\<rparr>) i = find_row d i"
  "find_row (d\<lparr>sync_cursor := c\<rparr>) i = find_row d i"
  by (simp_all add: find_row_def)

lemma find_row_logged [simp]: "find_row (logged E oper d) i = find_row (applyOp E oper d) i"
  by (simp add: logged_def)

lemma candidate_fields [simp]:
  "op_type (candidate_op E actor iss ty payload ts l) = ty"
  "op_issue (candidate_op E actor iss ty payload ts l) = iss l"
  "op_lamport (candidate_op E actor iss ty payload ts l) = l"
  by (simp_all add: candidate_op_def)

lemma candidate_ts [simp]:
  "payload_get (op_payload (candidate_op E actor iss ty payload ts l)) ''ts'' = JStr ts"
  by (simp add: candidate_op_def payload_get_def update_conv)

lemma candidate_payload:
  "k \<noteq> ''ts'' \<Longrightarrow> payload_get (op_payload (candidate_op E actor iss ty payload ts l)) k = payload_get payload k"
  by (simp add: candidate_op_def payload_get_def update_conv)

definition claimable :: "wg_env \<Rightarrow> int \<Rightarrow> issue_row \<Rightarrow> bool" where
  "claimable E ts r \<longleftrightarrow> i_status r = ''open'' \<and>
     (i_claim_token r = None \<or> text_le (i_claim_expires_at r) (iso E ts))"

lemma has_token_iff: "tok \<noteq> [] \<Longrightarrow> has_token d i tok \<longleftrightarrow> (\<exists>r. find_row d i = Some r \<and> i_claim_token r = Some tok)"
  by (auto simp: has_token_def getIssue_def rowToIssue_def optStr_def split: option.splits)

lemma claim_row:
  assumes "find_row d i = Some r"
    "oper = candidate_op E actor (\<lambda>_. i) claim_acquired
       [(''claimToken'', JStr tok), (''audience'', aud), (''expiresAt'', JStr e)] (iso E ts) l"
  shows "find_row (applyOp E oper d) i = Some (if claimable E ts r
     then r\<lparr>i_claim_token := Some tok, i_claim_audience := Some aud, i_claim_expires_at := Some e,
            i_updated_at := iso E ts\<rparr> else r)"
  using assms find_row_id[OF assms(1)]
  by (auto simp: find_row_applyOp step_row_def row_guard_def row_update_def claimable_def
      candidate_payload payload_get_def[of "[_, _, _]"])

lemma release_row:
  assumes "find_row d i = Some r" "i_claim_token r = Some tok" "tok \<noteq> []"
    "oper = candidate_op E actor (\<lambda>_. i) claim_released [(''expectedToken'', JStr tok)] (iso E ts) l"
  shows "\<exists>r'. find_row (applyOp E oper d) i = Some r' \<and> i_claim_token r' = None"
  using assms find_row_id[OF assms(1)]
  by (auto simp: find_row_applyOp step_row_def row_guard_def row_update_def
      candidate_payload payload_get_def[of "[_]"])

text \<open>
  What the answer of \<open>claimIssue\<close> means. For a token that the row does not already carry, an
  authorised call that returns reports a win exactly when the issue was open and unclaimed or its
  claim had expired by the time of the append, and authority was not lost meanwhile; a winner then
  holds the claim until the reported expiry, and after any other answer its token is not on the issue
  (a claim that landed after authority was lost has been released again).
\<close>

theorem claimIssue_answer:
  assumes "clean sc" "clean sc'" "hex_env E" "find_row d i = Some r"
    "tok = claim_token E i nonce" "i_claim_token r \<noteq> Some tok"
    "claimIssue E sc sc' actor now ts nonce i aud ttl True auth d = (Inr (won, e), d')"
  shows "(won \<longleftrightarrow> auth \<and> claimable E ts r) \<and>
    (if won then holds_claim d' i tok e else \<not> has_token d' i tok)"
proof -
  let ?p = "[(''claimToken'', JStr tok), (''audience'', aud), (''expiresAt'', JStr e)]"
  have tok: "tok \<noteq> []" by (simp add: assms(5) claim_token_def)
  have cw: "claim_with E sc sc' actor ts i aud e tok auth d = (Inr (won, e), d')"
    using assms(4,5,7)
    by (auto simp: claimIssue_def getIssue_def claim_with_def split: append_cases)
  obtain res d1 where ap: "appendOp E sc actor ts (\<lambda>_. i) claim_acquired ?p d = (res, d1)"
    by (rule prod.exhaust)
  obtain l j where "res = Inr (l, j)"
    using cw ap by (cases res) (auto simp: claim_with_def)
  note ap = ap[unfolded this]
  define oper where "oper = candidate_op E actor (\<lambda>_. i) claim_acquired ?p (iso E ts) (next_lamport (wg_ops d))"
  have d1: "d1 = logged E oper d"
    using appendOp_result_clean[OF assms(1,3) ap] by (simp add: oper_def)
  note row = claim_row[OF assms(4) oper_def]
  have has: "has_token d1 i tok \<longleftrightarrow> claimable E ts r"
    using assms(6) by (simp add: has_token_iff[OF tok] d1 row)
  show ?thesis
  proof (cases "claimable E ts r \<and> \<not> auth")
    case False
    then have "won = claimable E ts r" "d' = d1" using cw ap has by (auto simp: claim_with_def)
    with False has row show ?thesis by (auto simp: holds_claim_def d1)
  next
    case True
    then obtain l' j' where ap2:
        "appendOp E sc' actor ts (\<lambda>_. i) claim_released [(''expectedToken'', JStr tok)] d1 = (Inr (l', j'), d')"
        and "\<not> won"
      using cw ap has by (auto simp: claim_with_def split: prod.splits sum.splits)
    define op2 where "op2 = candidate_op E actor (\<lambda>_. i) claim_released [(''expectedToken'', JStr tok)]
        (iso E ts) (next_lamport (wg_ops d1))"
    have "d' = logged E op2 d1"
      using appendOp_result_clean[OF assms(2,3) ap2] by (simp add: op2_def)
    moreover obtain r1 where r1: "find_row d1 i = Some r1" "i_claim_token r1 = Some tok"
      using True row by (simp add: d1)
    ultimately have "\<not> has_token d' i tok"
      using release_row[OF r1 tok op2_def] by (auto simp: has_token_iff[OF tok])
    with True \<open>\<not> won\<close> show ?thesis by simp
  qed
qed


section \<open>The ready queue\<close>

lemma lww_step_row:
  "i_lww r \<le> n \<Longrightarrow> op_lamport oper \<le> n \<Longrightarrow> i_lww (step_row oper r) \<le> n"
  by (cases "op_type oper") (simp_all add: step_row_def row_update_def)

lemma lww_applyOp:
  assumes "\<forall>r\<in>set (wg_issues d). i_lww r \<le> n" "op_lamport oper \<le> n"
  shows "\<forall>r\<in>set (wg_issues (applyOp E oper d)). i_lww r \<le> n"
proof -
  have "i_lww (new_row oper) \<le> n" using assms(2) by (simp add: new_row_def)
  then show ?thesis using assms
    by (cases "op_type oper") (auto simp: applyOp_def update_where_rows lww_step_row)
qed

lemma rows_fold:
  assumes "\<forall>x\<in>set ops. op_lamport x \<le> n" "\<forall>r\<in>set (wg_issues d). i_lww r \<le> n"
    "distinct (map i_id (wg_issues d))"
  shows "(\<forall>r\<in>set (wg_issues (fold (applyOp E) ops d)). i_lww r \<le> n) \<and>
    distinct (map i_id (wg_issues (fold (applyOp E) ops d)))"
  using assms
proof (induction ops arbitrary: d)
  case (Cons x xs)
  have "\<forall>r\<in>set (wg_issues (applyOp E x d)). i_lww r \<le> n"
    using Cons.prems by (intro lww_applyOp) auto
  moreover have "distinct (map i_id (wg_issues (applyOp E x d)))" using Cons.prems by (intro ids_applyOp)
  ultimately show ?case using Cons.IH[of "applyOp E x d"] Cons.prems(1) by simp
qed simp

lemma run_rows:
  assumes "store_run E d" "hex_env E"
  shows "(\<forall>r\<in>set (wg_issues d). i_lww r \<le> next_lamport (wg_ops d)) \<and> distinct (map i_id (wg_issues d))"
proof -
  have "project_log E d = d" using log_inv_run[OF assms] by (simp add: log_inv_def)
  then show ?thesis
    using rows_fold[of "wg_ops d" "next_lamport (wg_ops d)" "d\<lparr>wg_issues := [], wg_edges := []\<rparr>" E]
    by (simp add: project_log_def lamport_below_next less_imp_le)
qed

definition blocked_by_other :: "db \<Rightarrow> string \<Rightarrow> string \<Rightarrow> bool" where
  "blocked_by_other d a i = list_ex (\<lambda>e. e_to e = i \<and> e_from e \<noteq> a \<and> e_type e = ''blocks'' \<and>
     list_ex (\<lambda>x. i_id x = e_from e \<and> i_status x \<notin> {''closed'', ''archived''}) (wg_issues d)) (wg_edges d)"

lemma archived_row:
  assumes "op_type oper = issue_archived" "op_issue oper = i_id r" "i_lww r \<le> op_lamport oper"
  shows "i_status (step_row oper r) = ''archived''"
  using assms by (simp add: step_row_def row_guard_def row_update_def)

lemma other_row: "op_issue oper \<noteq> i_id r \<Longrightarrow> step_row oper r = r"
  by (simp add: step_row_def row_guard_def)

lemma blocked_after_archive:
  assumes "op_type oper = issue_archived" "\<forall>r\<in>set (wg_issues d). i_lww r \<le> op_lamport oper"
    "\<not> blocked_by_other d (op_issue oper) b"
  shows "\<not> blocked (applyOp E oper d) b"
proof
  assume "blocked (applyOp E oper d) b"
  then obtain e r where e: "e \<in> set (wg_edges d)" "e_to e = b" "e_type e = ''blocks''"
      and r: "r \<in> set (wg_issues d)" "i_id r = e_from e" "i_status (step_row oper r) \<notin> {''closed'', ''archived''}"
    using assms(1) by (auto simp: blocked_def applyOp_def list_ex_iff update_where_rows)
  show False
  proof (cases "e_from e = op_issue oper")
    case True
    with r assms(1,2) archived_row[of oper r] show False by auto
  next
    case False
    with r have "i_status r \<notin> {''closed'', ''archived''}" by (simp add: other_row)
    with e r False assms(3) show False by (auto simp: blocked_by_other_def list_ex_iff)
  qed
qed

text \<open>
  Archiving the last open blocker makes its dependent ready. In any reachable store, when
  \<open>archiveIssue\<close> succeeds on an issue and every other blocker of an open, unwedged issue with no live
  claim is closed or archived, that issue is listed by \<open>listReady\<close> afterwards.
\<close>

theorem archiving_last_blocker_readies:
  assumes "store_run E d" "hex_env E" "clean sc" "archiveIssue E sc actor now a why d = (Inr (), d')"
    "find_row d b = Some r" "b \<noteq> a" "\<not> blocked_by_other d a b"
    "claimable E now' r" "i_wedge_reason r = None"
  shows "b \<in> id_of ` set (listReady E now' d')"
proof -
  let ?p = "case why of None \<Rightarrow> [] | Some r \<Rightarrow> [(''reason'', JStr r)]"
  obtain l j where ap: "appendOp E sc actor now (\<lambda>_. a) issue_archived ?p d = (Inr (l, j), d')"
    using assms(4) by (auto simp: archiveIssue_def append_existing_def split: append_cases)
  define oper where "oper = candidate_op E actor (\<lambda>_. a) issue_archived ?p (iso E now) (next_lamport (wg_ops d))"
  have d': "d' = logged E oper d"
    using appendOp_result_clean[OF assms(3,2) ap] by (simp add: oper_def)
  have oper: "op_type oper = issue_archived" "op_issue oper = a" "op_lamport oper = next_lamport (wg_ops d)"
    by (simp_all add: oper_def)
  have "\<not> blocked (applyOp E oper d) b"
    using run_rows[OF assms(1,2)] assms(7) oper by (intro blocked_after_archive) auto
  then have "\<not> blocked d' b" by (simp add: d' logged_def blocked_def)
  moreover have "find_row d' b = Some r"
    using assms(5,6) oper find_row_id[OF assms(5)] by (simp add: d' find_row_applyOp other_row)
  ultimately have "ready_row E now' d' r" "r \<in> set (wg_issues d')"
    using assms(8,9) find_row_id[OF assms(5)] find_Some_mem[of _ "wg_issues d'" r]
    by (auto simp: ready_row_def claimable_def find_row_def)
  then show ?thesis
    using find_row_id[OF assms(5)] by (auto simp: listReady_def rowToIssue_def image_iff)
qed

text \<open>
  A held issue is not offered: while a claim is live, \<open>listReady\<close> does not list the issue.
\<close>

theorem claimed_issue_not_ready:
  assumes "store_run E d" "hex_env E" "holds_claim d i tok e" "iso E now < e"
  shows "i \<notin> id_of ` set (listReady E now d)"
proof
  assume "i \<in> id_of ` set (listReady E now d)"
  then obtain r where r: "r \<in> set (wg_issues d)" "i_id r = i" "ready_row E now d r"
    by (auto simp: listReady_def rowToIssue_def)
  obtain q x where q: "find_row d i = Some q" "i_claim_token q = Some tok"
      "i_claim_expires_at q = Some x" "e \<le> x"
    using assms(3) by (auto simp: holds_claim_def)
  have "q \<in> set (wg_issues d)" "i_id q = i"
    using q(1) find_Some_mem[of _ "wg_issues d" q] by (auto simp: find_row_def)
  then have "r = q"
    using r run_rows[OF assms(1,2)] by (auto simp: distinct_map inj_on_def)
  then show False using r(3) q assms(4) by (auto simp: ready_row_def text_le_def)
qed


section \<open>A concrete run\<close>

lemma clean_quiet: "clean quiet"
  by (auto simp: clean_def calm_def quiet_def projects_def)

lemma hex_demo_env: "hex_env demo_env"
  by (auto simp: hex_env_def demo_env_def)

definition run1 :: db where
  "run1 = snd (createIssue demo_env quiet ''r'' 100 ''t'' [] empty_db)"

definition run2 :: db where
  "run2 = snd (createIssue demo_env quiet ''r'' 110 ''u'' [] run1)"

definition run3 :: db where
  "run3 = snd (addEdge demo_env quiet ''r'' 120 ''wg-1'' ''wg-2'' ''blocks'' run2)"

definition run4 :: db where
  "run4 = snd (claimIssue demo_env quiet quiet ''r'' 130 130 ''7'' ''wg-1'' JNull 1 True True run3)"

lemma run1_ok: "store_run demo_env run1"
  unfolding run1_def
  by (rule store_run.step[OF store_run.start], rule store_step.createIssue[OF clean_quiet])
    (simp_all add: prod_eq_iff)

lemma run2_ok: "store_run demo_env run2"
  unfolding run2_def
  by (rule store_run.step[OF run1_ok], rule store_step.createIssue[OF clean_quiet])
    (simp_all add: prod_eq_iff)

lemma run3_ok: "store_run demo_env run3"
  unfolding run3_def
  by (rule store_run.step[OF run2_ok], rule store_step.addEdge[OF clean_quiet])
    (simp_all add: prod_eq_iff)

lemma run4_ok: "store_run demo_env run4"
  unfolding run4_def
  by (rule store_run.step[OF run3_ok], rule store_step.claimIssue[OF clean_quiet clean_quiet])
    (simp_all add: prod_eq_iff)

lemma run3_ops: "map op_id (wg_ops run3) = [''op-1'', ''op-2'', ''op-312'']"
  by code_simp


definition two_files :: "op_file list" where
  "two_files = [OpJson (demo_op issue_archived ''op-3'' 3 []), OpJson (demo_op issue_created ''op-1'' 1 [])]"

theorem rebuild_order_independent_witness:
  "wg_issues (snd (rebuildWorkGraph demo_env (empty_db\<lparr>source_dir := Some (rev two_files)\<rparr>))) =
   wg_issues (snd (rebuildWorkGraph demo_env (empty_db\<lparr>source_dir := Some two_files\<rparr>)))"
  using rebuild_order_independent[of two_files "rev two_files" demo_env empty_db]
  by (simp add: two_files_def demo_op_def split_beta)

definition open_row :: issue_row where
  "open_row = the (find_row run3 ''wg-1'')"

lemma run4_answer:
  "claimIssue demo_env quiet quiet ''r'' 130 130 ''7'' ''wg-1'' JNull 1 True True run3 = (Inr (True, ''1130''), run4)"
proof -
  have "fst (claimIssue demo_env quiet quiet ''r'' 130 130 ''7'' ''wg-1'' JNull 1 True True run3) = Inr (True, ''1130'')"
    by code_simp
  then show ?thesis by (simp add: run4_def prod_eq_iff)
qed

lemma run3_row: "find_row run3 ''wg-1'' = Some open_row" "i_claim_token open_row = None" "claimable demo_env 130 open_row"
  by code_simp+

theorem claimIssue_answer_witness:
  "claimable demo_env 130 open_row \<and> holds_claim run4 ''wg-1'' (claim_token demo_env ''wg-1'' ''7'') ''1130''"
  using claimIssue_answer[OF clean_quiet clean_quiet hex_demo_env run3_row(1) refl _ run4_answer]
  by (simp add: run3_row(2))

theorem claimed_issue_not_ready_witness:
  "''wg-1'' \<notin> id_of ` set (listReady demo_env 140 run4)"
proof -
  have tok: "claim_token demo_env ''wg-1'' ''7'' = ''clm-17''" by code_simp
  have row: "map_option (\<lambda>r. (i_claim_token r, i_claim_expires_at r)) (find_row run4 ''wg-1'') =
      Some (Some ''clm-17'', Some ''1130'')"
    by code_simp
  have "holds_claim run4 ''wg-1'' ''clm-17'' ''1130''"
    using row by (auto simp: holds_claim_def)
  moreover have "iso demo_env 140 < ''1130''" by code_simp
  ultimately show ?thesis using claimed_issue_not_ready[OF run4_ok hex_demo_env] by blast
qed

definition blocked_row :: issue_row where
  "blocked_row = the (find_row run3 ''wg-2'')"

theorem archiving_last_blocker_readies_witness:
  "map id_of (listReady demo_env 150 run3) = [''wg-1''] \<and>
   ''wg-2'' \<in> id_of ` set (listReady demo_env 150 (snd (archiveIssue demo_env quiet ''r'' 140 ''wg-1'' None run3)))"
proof -
  have "fst (archiveIssue demo_env quiet ''r'' 140 ''wg-1'' None run3) = Inr ()" by code_simp
  then have ar: "archiveIssue demo_env quiet ''r'' 140 ''wg-1'' None run3 =
      (Inr (), snd (archiveIssue demo_env quiet ''r'' 140 ''wg-1'' None run3))"
    by (simp add: prod_eq_iff)
  have row: "find_row run3 ''wg-2'' = Some blocked_row" "\<not> blocked_by_other run3 ''wg-1'' ''wg-2''"
      "claimable demo_env 150 blocked_row" "i_wedge_reason blocked_row = None"
      "map id_of (listReady demo_env 150 run3) = [''wg-1'']"
    by code_simp+
  show ?thesis
    using archiving_last_blocker_readies[OF run3_ok hex_demo_env clean_quiet ar row(1) _ row(2-4)] row(5)
    by simp
qed

section \<open>Two processes on one database\<close>

text \<open>A rival process appends its claim after the first process has logged its own, and folds it
  before the first process folds.\<close>

definition rival_claim :: "db \<Rightarrow> (wg_error + bool \<times> string) \<times> db" where
  "rival_claim d = claimIssue demo_env quiet quiet ''s'' 140 140 ''8'' ''wg-1'' JNull 1 True True d"

definition rival :: "nat \<Rightarrow> db \<Rightarrow> db" where
  "rival n d = snd (rival_claim d)"

definition raced_claim :: "(wg_error + bool \<times> string) \<times> db" where
  "raced_claim = claimIssue demo_env (quiet\<lparr>prj_others := rival\<rparr>) quiet ''r'' 130 130 ''7'' ''wg-1''
     JNull 1 True True run1"

text \<open>
  Logging an op and folding it are two statements, so two processes can fold in the opposite
  order of their lamports, and the projection is then not the fold of the log: here the process whose
  op has the higher lamport is told that it holds the claim (and the other that it lost), while a
  rebuild of the same op files gives the claim to the other process.
\<close>

theorem raced_claim_lost_by_rebuild:
  "fst raced_claim = Inr (False, ''1130'') \<and>
   map_option i_claim_token (find_row (snd raced_claim) ''wg-1'') = Some (Some ''clm-18'') \<and>
   map_option i_claim_token (find_row (snd (rebuildWorkGraph demo_env (snd raced_claim))) ''wg-1'') =
     Some (Some ''clm-17'')"
proof -
  have "fst raced_claim = Inr (False, ''1130'')" by code_simp
  moreover have "map_option i_claim_token (find_row (snd raced_claim) ''wg-1'') = Some (Some ''clm-18'')"
    by code_simp
  moreover have "map_option i_claim_token (find_row (snd (rebuildWorkGraph demo_env (snd raced_claim))) ''wg-1'') =
     Some (Some ''clm-17'')"
    by code_simp
  ultimately show ?thesis by simp
qed

text \<open>Another process marks the issue and a reconcile moves the cursor past it, between the two
  statements of an archive.\<close>

definition rival_mark :: "nat \<Rightarrow> db \<Rightarrow> db" where
  "rival_mark n d = advanceHighWater (snd (wedgeMark demo_env quiet ''s'' 140 ''wg-1'' ''9'' d)) 2"

definition raced_archive :: "(wg_error + unit) \<times> db" where
  "raced_archive = archiveIssue demo_env (quiet\<lparr>ins_others := rival_mark\<rparr>) ''r'' 130 ''wg-1'' None run1"

text \<open>
  Two processes that read the same maximum log two ops under one lamport, because only ops with
  equal content have equal ids; a cursor that has moved past that lamport in between never reports
  the second op. Here the archive succeeds and is in the log, but \<open>listOpsSince\<close> the cursor is empty
  both before and after it.
\<close>

theorem raced_op_missed_by_cursor:
  "fst raced_archive = Inr () \<and>
   map (\<lambda>x. (op_lamport x, op_type x)) (wg_ops (snd raced_archive)) =
     [(1, issue_created), (2, wedge_marked), (2, issue_archived)] \<and>
   listOpsSince (snd raced_archive) (readHighWater (snd raced_archive)) = []"
proof -
  have "fst raced_archive = Inr ()" by code_simp
  moreover have "map (\<lambda>x. (op_lamport x, op_type x)) (wg_ops (snd raced_archive)) =
     [(1, issue_created), (2, wedge_marked), (2, issue_archived)]"
    by code_simp
  moreover have "listOpsSince (snd raced_archive) (readHighWater (snd raced_archive)) = []" by code_simp
  ultimately show ?thesis by simp
qed

end
