(* ===== verification/HarnessSync.thy ===== *)
theory HarnessSync
  imports WorkStore
begin

text \<open>
  Materialising the harness task list into the work graph (\<open>src/src/workgraph/harness_map.ts\<close> and
  \<open>harness_sync.ts\<close>): the binding table, the inbound sync and the two-way reconcile.

  The source injects the work-graph facade and the binding store, so both are records of operations
  here, and two locales state what the sync relies on of each. They are interpreted on the work-graph
  store and on the binding table, and the properties of the sync are read off those interpretations.
\<close>

section \<open>The binding table\<close>

type_synonym harness_map = "((string \<times> string) \<times> string) list"

definition hm_bind :: "string \<Rightarrow> string \<Rightarrow> string \<Rightarrow> harness_map \<Rightarrow> harness_map" where
  "hm_bind project harnessId wgId m =
     (if (project, harnessId) \<in> fst ` set m then m else m @ [((project, harnessId), wgId)])"

definition hm_get :: "string \<Rightarrow> string \<Rightarrow> harness_map \<Rightarrow> string option" where
  "hm_get project harnessId m = map_of m (project, harnessId)"

definition hm_getByWgId :: "string \<Rightarrow> string \<Rightarrow> harness_map \<Rightarrow> string option" where
  "hm_getByWgId project wgId m =
     map_option (snd \<circ> fst) (List.find (\<lambda>((p, h), w). p = project \<and> w = wgId) m)"

section \<open>What the sync is given\<close>

record HarnessTaskLike =
  ht_id :: string
  ht_subject :: string
  ht_status :: string
  ht_taskId :: "string option"
  ht_spec :: "string option"

record 'w WgSyncFacade =
  fc_createIssue :: "string \<Rightarrow> string \<Rightarrow> 'w \<Rightarrow> (wg_error + string) \<times> 'w"
  fc_getIssue :: "string \<Rightarrow> 'w \<Rightarrow> Issue option"
  fc_updateIssue :: "string \<Rightarrow> IssueStatus \<Rightarrow> 'w \<Rightarrow> (wg_error + unit) \<times> 'w"

record 'm HarnessMapReaderWriter =
  mp_get :: "string \<Rightarrow> string \<Rightarrow> 'm \<Rightarrow> string option"
  mp_bind :: "string \<Rightarrow> string \<Rightarrow> string \<Rightarrow> 'm \<Rightarrow> 'm"
  mp_getByWgId :: "string \<Rightarrow> string \<Rightarrow> 'm \<Rightarrow> string option"

definition mapStatus :: "string \<Rightarrow> IssueStatus option" where
  "mapStatus st = (if st \<in> set [''pending'', ''in_progress''] then Some Open
     else if st \<in> set [''completed'', ''deleted''] then Some Closed else None)"

definition HARNESS_TASK_STAMP :: string where
  "HARNESS_TASK_STAMP = ''harness-task:''"

definition isHarnessOwnedBody :: "string \<Rightarrow> bool" where
  "isHarnessOwnedBody b \<longleftrightarrow> list_ex (\<lambda>line. starts_with line HARNESS_TASK_STAMP) (splitOn (CHR 0x0A) b)"

definition opt_part :: "string \<Rightarrow> string option \<Rightarrow> string list" where
  "opt_part label v = (case v of None \<Rightarrow> [] | Some x \<Rightarrow> if x = [] then [] else [label @ x])"

definition provenanceBody :: "HarnessTaskLike \<Rightarrow> string" where
  "provenanceBody t = joinWith newline ([HARNESS_TASK_STAMP @ ht_id t] @
     opt_part ''task-spec:'' (ht_taskId t) @ opt_part ''spec:'' (ht_spec t))"

section \<open>The inbound half\<close>

record SyncResult =
  created :: "string list"
  updated :: "string list"
  skippedClosed :: "string list"
  staleOpenHarnessIds :: "string list"

definition empty_result :: SyncResult where
  "empty_result = \<lparr>created = [], updated = [], skippedClosed = [], staleOpenHarnessIds = []\<rparr>"

record ('w, 'm) sync_state =
  s_wg :: 'w
  s_map :: 'm
  s_result :: SyncResult

definition issue_title :: "HarnessTaskLike \<Rightarrow> string" where
  "issue_title t = (if trim (ht_subject t) \<noteq> [] then ht_subject t else ''harness task '' @ ht_id t)"

definition materialize ::
  "'w WgSyncFacade \<Rightarrow> 'm HarnessMapReaderWriter \<Rightarrow> string \<Rightarrow> HarnessTaskLike \<Rightarrow> ('w, 'm) sync_state \<Rightarrow>
   wg_error option \<times> ('w, 'm) sync_state" where
  "materialize wg mp project t s =
     (case fc_createIssue wg (issue_title t) (provenanceBody t) (s_wg s) of
        (Inl e, w) \<Rightarrow> (Some e, s\<lparr>s_wg := w\<rparr>)
      | (Inr i, w) \<Rightarrow> (None, s\<lparr>s_wg := w, s_map := mp_bind mp project (ht_id t) i (s_map s),
          s_result := (s_result s)\<lparr>created := created (s_result s) @ [ht_id t]\<rparr>\<rparr>))"

definition reconcile_bound ::
  "'w WgSyncFacade \<Rightarrow> string \<Rightarrow> HarnessTaskLike \<Rightarrow> IssueStatus \<Rightarrow> ('w, 'm) sync_state \<Rightarrow>
   wg_error option \<times> ('w, 'm) sync_state" where
  "reconcile_bound wg existing t target s =
     (case fc_getIssue wg existing (s_wg s) of
        None \<Rightarrow> (None, s)
      | Some issue \<Rightarrow>
          if status issue = Closed
          then (None, s\<lparr>s_result := (s_result s)\<lparr>skippedClosed := skippedClosed (s_result s) @ [existing],
             staleOpenHarnessIds := staleOpenHarnessIds (s_result s) @
               (if target = Open then [ht_id t] else [])\<rparr>\<rparr>)
          else if status issue \<noteq> target
          then (case fc_updateIssue wg existing target (s_wg s) of
              (Inl e, w) \<Rightarrow> (Some e, s\<lparr>s_wg := w\<rparr>)
            | (Inr _, w) \<Rightarrow> (None, s\<lparr>s_wg := w,
                s_result := (s_result s)\<lparr>updated := updated (s_result s) @ [existing]\<rparr>\<rparr>))
          else (None, s))"

definition sync_task ::
  "'w WgSyncFacade \<Rightarrow> 'm HarnessMapReaderWriter \<Rightarrow> string \<Rightarrow> HarnessTaskLike \<Rightarrow> ('w, 'm) sync_state \<Rightarrow>
   wg_error option \<times> ('w, 'm) sync_state" where
  "sync_task wg mp project t s =
     (case mapStatus (ht_status t) of
        None \<Rightarrow> (None, s)
      | Some target \<Rightarrow> (case mp_get mp project (ht_id t) (s_map s) of
          None \<Rightarrow> if target = Open then materialize wg mp project t s else (None, s)
        | Some existing \<Rightarrow> reconcile_bound wg existing t target s))"

fun sync_tasks ::
  "'w WgSyncFacade \<Rightarrow> 'm HarnessMapReaderWriter \<Rightarrow> string \<Rightarrow> HarnessTaskLike list \<Rightarrow> ('w, 'm) sync_state \<Rightarrow>
   wg_error option \<times> ('w, 'm) sync_state" where
  "sync_tasks wg mp project [] s = (None, s)"
| "sync_tasks wg mp project (t # ts) s =
     (case sync_task wg mp project t s of
        (Some e, s1) \<Rightarrow> (Some e, s1)
      | (None, s1) \<Rightarrow> sync_tasks wg mp project ts s1)"

definition syncHarnessToWorkgraph ::
  "'w WgSyncFacade \<Rightarrow> 'm HarnessMapReaderWriter \<Rightarrow> string \<Rightarrow> HarnessTaskLike list \<Rightarrow> 'w \<Rightarrow> 'm \<Rightarrow>
   (wg_error + SyncResult) \<times> 'w \<times> 'm" where
  "syncHarnessToWorkgraph wg mp project tasks w m =
     (case sync_tasks wg mp project tasks \<lparr>s_wg = w, s_map = m, s_result = empty_result\<rparr> of
        (Some e, s) \<Rightarrow> (Inl e, s_wg s, s_map s)
      | (None, s) \<Rightarrow> (Inr (s_result s), s_wg s, s_map s))"

section \<open>The outbound half\<close>

datatype OutboundDelta = create string string | status_closed string | close string

definition isWgTerminal :: "IssueStatus \<Rightarrow> bool" where
  "isWgTerminal st \<longleftrightarrow> st = Closed \<or> st = Archived"

definition EXISTENCE_OPS :: "WgOpType list" where
  "EXISTENCE_OPS = [issue_created, issue_set, issue_archived, issue_unarchived]"

definition existenceIssueIds :: "WgOp list \<Rightarrow> string list" where
  "existenceIssueIds wgOps = to_set (map op_issue (filter (\<lambda>x. op_type x \<in> set EXISTENCE_OPS) wgOps))"

definition outbound_issue ::
  "'w WgSyncFacade \<Rightarrow> 'm HarnessMapReaderWriter \<Rightarrow> string \<Rightarrow> 'w \<Rightarrow> 'm \<Rightarrow>
   string list \<times> OutboundDelta list \<Rightarrow> string \<Rightarrow> string list \<times> OutboundDelta list" where
  "outbound_issue wg mp project w m acc issueId =
     (case acc of (emitted, out) \<Rightarrow>
       (case fc_getIssue wg issueId w of
          None \<Rightarrow> acc
        | Some issue \<Rightarrow> if isHarnessOwnedBody (body issue) then acc
            else (case mp_getByWgId mp project issueId m of
                None \<Rightarrow> if isWgTerminal (status issue) then acc
                  else (emitted, out @ [create issueId (title issue)])
              | Some h \<Rightarrow> if isWgTerminal (status issue) \<and> h \<notin> set emitted
                  then (set_add emitted h, out @ [status_closed h]) else acc)))"

definition reconcileHarnessWorkgraph ::
  "'w WgSyncFacade \<Rightarrow> 'm HarnessMapReaderWriter \<Rightarrow> string \<Rightarrow> HarnessTaskLike list \<Rightarrow> WgOp list \<Rightarrow> 'w \<Rightarrow> 'm \<Rightarrow>
   (wg_error + SyncResult \<times> OutboundDelta list) \<times> 'w \<times> 'm" where
  "reconcileHarnessWorkgraph wg mp project tasks wgOps w m =
     (case syncHarnessToWorkgraph wg mp project tasks w m of
        (Inl e, w1, m1) \<Rightarrow> (Inl e, w1, m1)
      | (Inr inbound, w1, m1) \<Rightarrow>
          (let stale = to_set (staleOpenHarnessIds inbound);
               (emitted, out) = foldl (outbound_issue wg mp project w1 m1) (stale, map close stale)
                 (existenceIssueIds wgOps)
           in (Inr (inbound, out), w1, m1)))"

section \<open>What the sync relies on\<close>

locale wg_facade =
  fixes wg :: "'w WgSyncFacade"
  assumes create_keeps: "fc_createIssue wg t b w = (res, w') \<Longrightarrow> fc_getIssue wg j w = Some x \<Longrightarrow>
      fc_getIssue wg j w' = Some x"
    and update_frame: "fc_updateIssue wg i st w = (res', w') \<Longrightarrow> j \<noteq> i \<Longrightarrow>
      fc_getIssue wg j w' = fc_getIssue wg j w"

locale binding_store =
  fixes mp :: "'m HarnessMapReaderWriter"
  assumes get_bind: "mp_get mp p h (mp_bind mp p' h' i m) =
      (if p = p' \<and> h = h' then Some (case mp_get mp p h m of Some j \<Rightarrow> j | None \<Rightarrow> i) else mp_get mp p h m)"

locale harness_sync = wg_facade wg + binding_store mp
  for wg :: "'w WgSyncFacade" and mp :: "'m HarnessMapReaderWriter"
begin

lemma sync_task_keeps_closed:
  assumes "sync_task wg mp project t s = (res, s')"
    "fc_getIssue wg i (s_wg s) = Some x" "status x = Closed"
  shows "fc_getIssue wg i (s_wg s') = Some x"
proof -
  have upd: "fc_getIssue wg i w' = Some x"
    if "fc_updateIssue wg j st (s_wg s) = (r, w')" "fc_getIssue wg j (s_wg s) = Some y" "status y \<noteq> Closed" for j st r w' y
  proof -
    have "i \<noteq> j" using that assms(2,3) by auto
    then show ?thesis using update_frame[OF that(1), of i] assms(2) by simp
  qed
  have cre: "fc_getIssue wg i w' = Some x" if "fc_createIssue wg tt b (s_wg s) = (r, w')" for tt b r w'
    using create_keeps[OF that assms(2)] .
  show ?thesis using assms(1,2) upd cre
    by (auto simp: sync_task_def materialize_def reconcile_bound_def
        split: option.splits if_splits prod.splits sum.splits)
qed

lemma sync_tasks_keeps_closed:
  "sync_tasks wg mp project ts s = (res, s') \<Longrightarrow> fc_getIssue wg i (s_wg s) = Some x \<Longrightarrow>
   status x = Closed \<Longrightarrow> fc_getIssue wg i (s_wg s') = Some x"
  by (induction ts arbitrary: s) (auto split: prod.splits option.splits dest: sync_task_keeps_closed)

lemma bind_keeps: "mp_get mp p h m = Some j \<Longrightarrow> mp_get mp p h (mp_bind mp p' h' i m) = Some j"
  by (auto simp: get_bind)

lemma sync_task_map:
  assumes "sync_task wg mp project t s = (res, s')"
  shows "s_map s' = s_map s \<or> (\<exists>i. s_map s' = mp_bind mp project (ht_id t) i (s_map s))"
  using assms
  by (auto simp: sync_task_def materialize_def reconcile_bound_def
      split: option.splits if_splits prod.splits sum.splits)

lemma sync_tasks_keeps_binding:
  "sync_tasks wg mp project ts s = (res, s') \<Longrightarrow> mp_get mp p h (s_map s) = Some j \<Longrightarrow>
   mp_get mp p h (s_map s') = Some j"
proof (induction ts arbitrary: s)
  case (Cons t ts)
  obtain r s1 where st: "sync_task wg mp project t s = (r, s1)" by (rule prod.exhaust)
  have "mp_get mp p h (s_map s1) = Some j"
    using sync_task_map[OF st] Cons.prems(2) bind_keeps by auto
  with st Cons show ?case by (auto split: option.splits)
qed simp

lemma sync_task_binds:
  assumes "sync_task wg mp project t s = (None, s')" "mapStatus (ht_status t) = Some Open"
  shows "\<exists>i. mp_get mp project (ht_id t) (s_map s') = Some i"
  using assms
  by (auto simp: sync_task_def materialize_def reconcile_bound_def get_bind
      split: option.splits if_splits prod.splits sum.splits)

lemma sync_tasks_binds:
  "sync_tasks wg mp project ts s = (None, s') \<Longrightarrow> t \<in> set ts \<Longrightarrow> mapStatus (ht_status t) = Some Open \<Longrightarrow>
   \<exists>i. mp_get mp project (ht_id t) (s_map s') = Some i"
proof (induction ts arbitrary: s)
  case (Cons u ts)
  obtain s1 where st: "sync_task wg mp project u s = (None, s1)" and rest: "sync_tasks wg mp project ts s1 = (None, s')"
    using Cons.prems(1) by (auto split: prod.splits option.splits)
  show ?case
  proof (cases "t = u")
    case True
    then show ?thesis
      using sync_task_binds[OF st] Cons.prems(3) sync_tasks_keeps_binding[OF rest] by blast
  qed (use Cons rest in auto)
qed simp

lemma bound_task_creates_nothing:
  assumes "sync_task wg mp project t s = (res, s')"
    "mapStatus (ht_status t) = Some Open \<Longrightarrow> \<exists>i. mp_get mp project (ht_id t) (s_map s) = Some i"
  shows "created (s_result s') = created (s_result s) \<and> s_map s' = s_map s"
  using assms
  by (auto simp: sync_task_def reconcile_bound_def
      split: option.splits if_splits prod.splits sum.splits)

lemma bound_tasks_create_nothing:
  assumes "sync_tasks wg mp project ts s = (res, s')"
    "\<forall>t\<in>set ts. mapStatus (ht_status t) = Some Open \<longrightarrow> (\<exists>i. mp_get mp project (ht_id t) (s_map s) = Some i)"
  shows "created (s_result s') = created (s_result s) \<and> s_map s' = s_map s"
  using assms
proof (induction ts arbitrary: s)
  case (Cons t ts)
  obtain r s1 where st: "sync_task wg mp project t s = (r, s1)" by (rule prod.exhaust)
  have "created (s_result s1) = created (s_result s) \<and> s_map s1 = s_map s"
    using Cons.prems(2) by (intro bound_task_creates_nothing[OF st]) simp
  with st Cons show ?case by (auto split: option.splits)
qed simp

end


section \<open>The store and the table meet the contracts\<close>

text \<open>The work-graph store as the facade of one sync, on any schedule of faults without
  interference.\<close>

definition calmed :: "sched \<Rightarrow> sched" where
  "calmed sc = sc\<lparr>ins_others := (\<lambda>_. id), prj_others := (\<lambda>_. id)\<rparr>"

definition store_create :: "wg_env \<Rightarrow> sched \<Rightarrow> string \<Rightarrow> int \<Rightarrow> string \<Rightarrow> string \<Rightarrow> db \<Rightarrow> (wg_error + string) \<times> db" where
  "store_create E sc actor now t b d =
     map_prod (map_sum id id_of) id (createIssue E (calmed sc) actor now t b d)"

definition store_get :: "string \<Rightarrow> db \<Rightarrow> Issue option" where
  "store_get i d = getIssue d i"

definition store_update ::
  "wg_env \<Rightarrow> sched \<Rightarrow> string \<Rightarrow> int \<Rightarrow> bool \<Rightarrow> string \<Rightarrow> IssueStatus \<Rightarrow> db \<Rightarrow> (wg_error + unit) \<times> db" where
  "store_update E sc actor now hooked i st d = map_prod (map_sum id (\<lambda>_. ())) id
     (updateIssue E (calmed sc) actor now hooked i \<lparr>p_status = Some st, p_title = None, p_body = None\<rparr> d)"

definition store_facade :: "wg_env \<Rightarrow> sched \<Rightarrow> string \<Rightarrow> int \<Rightarrow> bool \<Rightarrow> db WgSyncFacade" where
  "store_facade E sc actor now hooked =
     \<lparr>fc_createIssue = store_create E sc actor now, fc_getIssue = store_get,
      fc_updateIssue = store_update E sc actor now hooked\<rparr>"

lemmas store_facade_defs = store_facade_def store_create_def store_get_def store_update_def

definition table_map :: "harness_map HarnessMapReaderWriter" where
  "table_map = \<lparr>mp_get = hm_get, mp_bind = hm_bind, mp_getByWgId = hm_getByWgId\<rparr>"

lemma calm_calmed [simp]: "calm (calmed sc)"
  by (simp add: calm_def calmed_def)

lemma getIssue_cong: "wg_issues d = wg_issues d' \<Longrightarrow> getIssue d i = getIssue d' i"
  by (simp add: getIssue_def find_row_def)

lemma write_op_file_issues: "write_op_file sc oper d = (res, d') \<Longrightarrow> wg_issues d' = wg_issues d"
  by (auto simp: write_op_file_def split: option.splits if_splits)

lemma wg_issues_applyOp_cong:
  "wg_issues d = wg_issues d' \<Longrightarrow> wg_issues (applyOp E oper d) = wg_issues (applyOp E oper d')"
  by (cases "op_type oper") (simp_all add: applyOp_def)

lemma appendOp_issues:
  assumes "calm sc" "appendOp E sc actor now iss ty payload d = (res, d')"
  shows "wg_issues d' = wg_issues d \<or>
    (\<exists>l. wg_issues d' = wg_issues (applyOp E (candidate_op E actor iss ty payload (iso E now) l) d))"
proof -
  obtain r1 d1 where ins: "insert_op E sc actor iss ty payload (iso E now) MAX_APPEND_RETRIES d = (r1, d1)"
    by (rule prod.exhaust)
  note c1 = insert_op_calm[OF assms(1) ins]
  show ?thesis
  proof (cases r1)
    case (Inl e)
    with c1 assms(2) ins show ?thesis by (auto simp: appendOp_def)
  next
    case (Inr oper)
    with c1 have oper: "oper = candidate_op E actor iss ty payload (iso E now) (next_lamport (wg_ops d))"
      and d1: "wg_issues d1 = wg_issues d" by auto
    obtain r2 d2 where wf: "write_op_file sc oper d1 = (r2, d2)" by (rule prod.exhaust)
    have d2: "wg_issues d2 = wg_issues d" using write_op_file_issues[OF wf] d1 by simp
    obtain r3 d3 where pr: "project_op E sc oper MAX_APPEND_RETRIES d2 = (r3, d3)" by (rule prod.exhaust)
    have d3: "d3 = d2 \<or> d3 = applyOp E oper d2" using project_op_calm[OF assms(1) pr] by auto
    have "d' = d2 \<or> d' = d3" using assms(2) ins Inr wf pr
      by (auto simp: appendOp_def split: option.splits)
    then show ?thesis using d2 d3 wg_issues_applyOp_cong[OF d2, of E oper] oper by auto
  qed
qed

lemma appendOp_getIssue:
  assumes "calm sc" "appendOp E sc actor now iss ty payload d = (res, d')"
    "getIssue d j = Some x" "ty = issue_created \<or> (\<forall>l. iss l \<noteq> j)"
  shows "getIssue d' j = Some x"
proof -
  have keep: "getIssue (applyOp E (candidate_op E actor iss ty payload (iso E now) l) d) j = Some x" for l
  proof -
    obtain z where z: "find_row d j = Some z" "x = rowToIssue z" using assms(3) by (auto simp: getIssue_def)
    have "ty \<noteq> issue_created \<Longrightarrow> step_row (candidate_op E actor iss ty payload (iso E now) l) z = z"
      using assms(4) find_row_id[OF z(1)] by (intro other_row) auto
    then show ?thesis using z by (cases ty) (simp_all add: getIssue_def find_row_applyOp)
  qed
  from appendOp_issues[OF assms(1,2)] show ?thesis
    using keep assms(3) getIssue_cong by metis
qed

lemma appendOp_getIssue_None:
  assumes "calm sc" "appendOp E sc actor now (\<lambda>_. i) issue_set payload d = (res, d')" "getIssue d j = None"
  shows "getIssue d' j = None"
proof -
  have "getIssue (applyOp E (candidate_op E actor (\<lambda>_. i) issue_set payload (iso E now) l) d) j = None" for l
    using assms(3) by (simp add: getIssue_def find_row_applyOp)
  with appendOp_issues[OF assms(1,2)] show ?thesis using assms(3) getIssue_cong by metis
qed

interpretation store_wg: wg_facade "store_facade E sc actor now hooked" for E sc actor now hooked
proof unfold_locales
  fix t b w res w' j x
  assume "fc_createIssue (store_facade E sc actor now hooked) t b w = (res, w')"
    and g: "fc_getIssue (store_facade E sc actor now hooked) j w = Some x"
  then obtain r where "createIssue E (calmed sc) actor now t b w = (r, w')"
    by (cases "createIssue E (calmed sc) actor now t b w") (auto simp: store_facade_defs)
  then obtain r' where "appendOp E (calmed sc) actor now (\<lambda>l. newIssueId E t b l actor) issue_created
      [(''title'', JStr t), (''body'', JStr b)] w = (r', w')"
    by (auto simp: createIssue_def split: append_cases)
  from appendOp_getIssue[OF calm_calmed this] g
  show "fc_getIssue (store_facade E sc actor now hooked) j w' = Some x" by (simp add: store_facade_defs)
next
  fix i st w res' w' j
  assume "fc_updateIssue (store_facade E sc actor now hooked) i st w = (res', w')" and ne: "j \<noteq> i"
  then obtain r where "updateIssue E (calmed sc) actor now hooked i
      \<lparr>p_status = Some st, p_title = None, p_body = None\<rparr> w = (r, w')"
    by (cases "updateIssue E (calmed sc) actor now hooked i
      \<lparr>p_status = Some st, p_title = None, p_body = None\<rparr> w") (auto simp: store_facade_defs)
  then consider "w' = w" | r' p where "appendOp E (calmed sc) actor now (\<lambda>_. i) issue_set p w = (r', w')"
    by (auto simp: updateIssue_def split: append_cases)
  then show "fc_getIssue (store_facade E sc actor now hooked) j w' =
      fc_getIssue (store_facade E sc actor now hooked) j w"
  proof cases
    case 2
    then show ?thesis
      using appendOp_getIssue[OF calm_calmed 2, of j] appendOp_getIssue_None[OF calm_calmed 2, of j] ne
      by (cases "getIssue w j") (auto simp: store_facade_defs)
  qed simp
qed

lemma hm_bind_cases:
  "hm_bind p h i m = (case map_of m (p, h) of None \<Rightarrow> m @ [((p, h), i)] | Some _ \<Rightarrow> m)"
  using map_of_eq_None_iff[of m "(p, h)"] by (auto simp: hm_bind_def split: option.splits)

interpretation table: binding_store table_map
proof unfold_locales
  fix p h p' h' i m
  show "mp_get table_map p h (mp_bind table_map p' h' i m) =
      (if p = p' \<and> h = h' then Some (case mp_get table_map p h m of Some j \<Rightarrow> j | None \<Rightarrow> i)
       else mp_get table_map p h m)"
    by (simp add: table_map_def hm_get_def hm_bind_cases map_add_def split: option.splits)
qed

interpretation store_sync: harness_sync "store_facade E sc actor now hooked" table_map for E sc actor now hooked
  by unfold_locales

section \<open>Properties of the sync\<close>

text \<open>
  C37. Closed is final for the sync. Whatever the harness list says, and even when the sync fails half
  way, an issue that was closed before a sync into the work-graph store is unchanged after it.
\<close>

theorem sync_never_reopens_closed:
  assumes "syncHarnessToWorkgraph (store_facade E sc actor now hooked) table_map project tasks d m = (res, d', m')"
    "getIssue d i = Some x" "status x = Closed"
  shows "getIssue d' i = Some x"
proof -
  let ?s = "\<lparr>s_wg = d, s_map = m, s_result = empty_result\<rparr>"
  obtain r s' where st: "sync_tasks (store_facade E sc actor now hooked) table_map project tasks ?s = (r, s')"
    by (rule prod.exhaust)
  have "d' = s_wg s'" using assms(1) st by (auto simp: syncHarnessToWorkgraph_def split: option.splits)
  moreover have "fc_getIssue (store_facade E sc actor now hooked) i (s_wg s') = Some x"
    using store_sync.sync_tasks_keeps_closed[OF st] assms(2,3) by (simp add: store_facade_defs)
  ultimately show ?thesis by (simp add: store_facade_defs)
qed

text \<open>
  The sync is idempotent in what it creates: once a sync of a task list has returned, syncing
  the same list again creates no issue and changes no binding, and a binding that exists never
  changes.
\<close>

theorem second_sync_creates_nothing:
  assumes "syncHarnessToWorkgraph (store_facade E sc actor now hooked) table_map project tasks d m = (Inr r1, d1, m1)"
    "syncHarnessToWorkgraph (store_facade E sc2 actor now2 hooked) table_map project tasks d1 m1 = (Inr r2, d2, m2)"
  shows "created r2 = [] \<and> m2 = m1 \<and> (hm_get p h m = Some w \<longrightarrow> hm_get p h m1 = Some w)"
proof -
  let ?f1 = "store_facade E sc actor now hooked" and ?f2 = "store_facade E sc2 actor now2 hooked"
  obtain s1 where s1: "sync_tasks ?f1 table_map project tasks \<lparr>s_wg = d, s_map = m, s_result = empty_result\<rparr> = (None, s1)"
      "m1 = s_map s1"
    using assms(1) by (auto simp: syncHarnessToWorkgraph_def split: prod.splits option.splits)
  obtain s2 where s2: "sync_tasks ?f2 table_map project tasks \<lparr>s_wg = d1, s_map = m1, s_result = empty_result\<rparr> = (None, s2)"
      "m2 = s_map s2" "r2 = s_result s2"
    using assms(2) by (auto simp: syncHarnessToWorkgraph_def split: prod.splits option.splits)
  have "created (s_result s2) = created empty_result \<and> s_map s2 = m1"
    using store_sync.bound_tasks_create_nothing[OF s2(1)] store_sync.sync_tasks_binds[OF s1(1)] s1(2) by auto
  moreover have "hm_get p h m = Some w \<Longrightarrow> hm_get p h m1 = Some w"
    using store_sync.sync_tasks_keeps_binding[OF s1(1), of p h w] s1(2) by (simp add: table_map_def)
  ultimately show ?thesis using s2 by (simp add: empty_result_def)
qed


section \<open>Concrete syncs\<close>

definition task :: "string \<Rightarrow> string \<Rightarrow> HarnessTaskLike" where
  "task i st = \<lparr>ht_id = i, ht_subject = ''do'', ht_status = st, ht_taskId = None, ht_spec = None\<rparr>"

definition demo_facade :: "int \<Rightarrow> db WgSyncFacade" where
  "demo_facade now = store_facade demo_env quiet ''r'' now False"

definition sync1 :: "(wg_error + SyncResult) \<times> db \<times> harness_map" where
  "sync1 = syncHarnessToWorkgraph (demo_facade 100) table_map ''p'' [task ''7'' ''pending''] empty_db []"

definition synced_db :: db where
  "synced_db = fst (snd sync1)"

definition synced_map :: harness_map where
  "synced_map = snd (snd sync1)"

definition sync2 :: "(wg_error + SyncResult) \<times> db \<times> harness_map" where
  "sync2 = syncHarnessToWorkgraph (demo_facade 110) table_map ''p'' [task ''7'' ''pending''] synced_db synced_map"

lemma sync1_result: "sync1 = (Inr (empty_result\<lparr>created := [''7'']\<rparr>), synced_db, synced_map)"
proof -
  have "fst sync1 = Inr (empty_result\<lparr>created := [''7'']\<rparr>)" by code_simp
  then show ?thesis by (simp add: synced_db_def synced_map_def prod_eq_iff)
qed

theorem second_sync_creates_nothing_witness:
  "sync2 = (Inr empty_result, fst (snd sync2), synced_map) \<and> hm_get ''p'' ''7'' synced_map = Some ''wg-71''"
proof -
  have r: "fst sync2 = Inr empty_result" and g: "hm_get ''p'' ''7'' synced_map = Some ''wg-71''"
    by code_simp+
  have "snd (snd sync2) = synced_map"
    using second_sync_creates_nothing[OF sync1_result[unfolded sync1_def demo_facade_def],
        of quiet 110 empty_result "fst (snd sync2)" "snd (snd sync2)"] r
    by (simp add: sync2_def demo_facade_def prod_eq_iff)
  with r g show ?thesis by (simp add: prod_eq_iff)
qed

definition close_patch :: issue_patch where
  "close_patch = \<lparr>p_status = Some Closed, p_title = None, p_body = None\<rparr>"

definition closed_db :: db where
  "closed_db = snd (updateIssue demo_env quiet ''r'' 110 False ''wg-71'' close_patch synced_db)"

definition sync_closed :: "(wg_error + SyncResult) \<times> db \<times> harness_map" where
  "sync_closed = syncHarnessToWorkgraph (demo_facade 120) table_map ''p'' [task ''7'' ''pending''] closed_db synced_map"

theorem sync_never_reopens_closed_witness:
  "map_option status (getIssue (fst (snd sync_closed)) ''wg-71'') = Some Closed"
proof -
  have "map_option status (getIssue closed_db ''wg-71'') = Some Closed" by code_simp
  then obtain x where x: "getIssue closed_db ''wg-71'' = Some x" "status x = Closed" by auto
  have "getIssue (fst (snd sync_closed)) ''wg-71'' = Some x"
    by (rule sync_never_reopens_closed[where res = "fst sync_closed" and m' = "snd (snd sync_closed)"
          and tasks = "[task ''7'' ''pending'']", OF _ x])
      (simp add: sync_closed_def demo_facade_def)
  with x show ?thesis by simp
qed

definition archived_db :: db where
  "archived_db = snd (archiveIssue demo_env quiet ''r'' 110 ''wg-71'' None synced_db)"

definition sync_archived :: "(wg_error + SyncResult) \<times> db \<times> harness_map" where
  "sync_archived = syncHarnessToWorkgraph (demo_facade 120) table_map ''p'' [task ''7'' ''pending''] archived_db synced_map"

text \<open>
  Archived is not terminal for the inbound sync. Only \<open>closed\<close> is guarded, so an issue that was
  archived while its harness task is still listed is set back to open by the next sync (and is ready
  to be worked on again), although the outbound half and the store treat \<open>archived\<close> as terminal.
\<close>

theorem sync_reopens_archived:
  "map_option status (getIssue archived_db ''wg-71'') = Some Archived \<and>
   fst sync_archived = Inr (empty_result\<lparr>updated := [''wg-71'']\<rparr>) \<and>
   map_option status (getIssue (fst (snd sync_archived)) ''wg-71'') = Some Open \<and>
   map id_of (listReady demo_env 130 (fst (snd sync_archived))) = [''wg-71'']"
proof -
  have "map_option status (getIssue archived_db ''wg-71'') = Some Archived" by code_simp
  moreover have "fst sync_archived = Inr (empty_result\<lparr>updated := [''wg-71'']\<rparr>)" by code_simp
  moreover have "map_option status (getIssue (fst (snd sync_archived)) ''wg-71'') = Some Open" by code_simp
  moreover have "map id_of (listReady demo_env 130 (fst (snd sync_archived))) = [''wg-71'']" by code_simp
  ultimately show ?thesis by simp
qed

text \<open>
  The reverse binding is not single valued. The key of the table is the harness id alone, so two
  harness tasks bind to one issue; the reverse lookup then names only the first of them.
\<close>

theorem reverse_binding_ambiguous:
  "h \<noteq> h' \<Longrightarrow> hm_get p h (hm_bind p h' w (hm_bind p h w [])) = Some w \<and>
   hm_get p h' (hm_bind p h' w (hm_bind p h w [])) = Some w \<and>
   hm_getByWgId p w (hm_bind p h' w (hm_bind p h w [])) = Some h"
  by (simp add: hm_get_def hm_bind_def hm_getByWgId_def)

theorem reverse_binding_ambiguous_witness:
  "hm_getByWgId ''p'' ''wg-1'' (hm_bind ''p'' ''2'' ''wg-1'' (hm_bind ''p'' ''1'' ''wg-1'' [])) = Some ''1''"
  using reverse_binding_ambiguous[of "''1''" "''2''"] by simp

end
