(* ===== verification/Bus.thy ===== *)
theory Bus
  imports Prelude
begin

text \<open>
  The event bus (\<open>src/src/runtime/bus/types.ts\<close>, \<open>ring.ts\<close>, \<open>bus.ts\<close>): the envelope, the ring buffer
  behind the replay window, and publishing with isolated subscribers.

  The ring is refined to the list of everything ever pushed: a locale states what a replay window
  promises about that list, the bus lemmas are proved from the promise, and the ring of the source is
  shown to keep it. A cell of the ring that was never written reads as \<^const>\<open>None\<close>.
\<close>

section \<open>Envelopes\<close>

datatype MessageKind = tool_call | post_tool_call | prompt_submit | session_start | session_end | stop
  | schedule | webhook | inbound_channel | file_changed
  | transition | gate_action | memory_tick | topology | lap

record 'p Envelope =
  env_seq :: nat
  env_from :: string
  env_to :: string
  env_kind :: MessageKind
  env_corr :: "string option"
  env_payload :: 'p
  env_ts :: int

section \<open>The ring\<close>

record 'a CircularBuffer =
  cap :: nat
  buf :: "'a option list"
  head :: nat
  rsize :: nat
  totalAdded :: nat

definition new_ring :: "int \<Rightarrow> 'a CircularBuffer" where
  "new_ring capacity = (let c = nat (max 1 capacity)
     in \<lparr>cap = c, buf = replicate c None, head = 0, rsize = 0, totalAdded = 0\<rparr>)"

definition push :: "'a \<Rightarrow> 'a CircularBuffer \<Rightarrow> 'a CircularBuffer" where
  "push entry r =
     (let index = (head r + rsize r) mod cap r;
          r1 = r\<lparr>buf := (buf r)[index := Some entry]\<rparr>;
          r2 = (if rsize r < cap r then r1\<lparr>rsize := rsize r + 1\<rparr> else r1\<lparr>head := (head r + 1) mod cap r\<rparr>)
      in r2\<lparr>totalAdded := totalAdded r + 1\<rparr>)"

definition ring_since :: "'a CircularBuffer \<Rightarrow> int \<Rightarrow> 'a option list \<times> bool" where
  "ring_since r cursor =
     (if rsize r = 0 then ([], False)
      else let oldest = int (totalAdded r) - int (rsize r) + 1;
               gap = cursor < oldest - 1;
               start = max (cursor + 1) oldest
           in (map (\<lambda>k. buf r ! nat ((int (head r) + (k - oldest)) mod int (cap r)))
                 [start..int (totalAdded r)], gap))"

section \<open>The ring holds the last entries\<close>

text \<open>The abstract window over everything pushed so far: the last \<open>c\<close> entries.\<close>

definition window :: "nat \<Rightarrow> 'a list \<Rightarrow> 'a list" where
  "window c xs = drop (length xs - c) xs"

definition ring_log :: "'a CircularBuffer \<Rightarrow> 'a list \<Rightarrow> bool" where
  "ring_log r xs \<longleftrightarrow> 0 < cap r \<and> length (buf r) = cap r \<and> head r < cap r \<and>
     rsize r = min (length xs) (cap r) \<and> totalAdded r = length xs \<and>
     (\<forall>k<rsize r. buf r ! ((head r + k) mod cap r) = Some (window (cap r) xs ! k))"

lemma length_window [simp]: "length (window c xs) = min (length xs) c"
  by (simp add: window_def)

lemma window_nth: "k < min (length xs) c \<Longrightarrow> window c xs ! k = xs ! (length xs - min (length xs) c + k)"
  by (auto simp: window_def min_def)

lemma ring_log_new: "ring_log (new_ring capacity) []"
  by (simp add: ring_log_def new_ring_def Let_def)

lemma mod_add_cancel:
  fixes h j k c :: nat
  assumes "j < c" "k < c" "(h + j) mod c = (h + k) mod c"
  shows "j = k"
proof -
  have "(int h + int j) mod int c = (int h + int k) mod int c"
    using assms(3) by (metis of_nat_add of_nat_mod)
  then have "int j mod int c = int k mod int c"
    by (metis add_diff_cancel_left' mod_diff_left_eq)
  then show ?thesis using assms(1,2) by simp
qed

lemma ring_log_push:
  assumes "ring_log r xs"
  shows "ring_log (push e r) (xs @ [e])"
proof (cases "length xs < cap r")
  case True
  let ?c = "cap r" and ?h = "head r" and ?n = "length xs"
  have inv: "0 < ?c" "length (buf r) = ?c" "?h < ?c" "rsize r = ?n" "totalAdded r = ?n"
    and cells: "\<forall>k<?n. buf r ! ((?h + k) mod ?c) = Some (window ?c xs ! k)"
    using assms True by (auto simp: ring_log_def min_def)
  have "(buf r)[(?h + ?n) mod ?c := Some e] ! ((?h + k) mod ?c) = Some (window ?c (xs @ [e]) ! k)"
    if k: "k < Suc ?n" for k
  proof (cases "k = ?n")
    case True
    then show ?thesis using inv \<open>?n < ?c\<close> by (simp add: window_nth)
  next
    case False
    then have kn: "k < ?n" using k by simp
    have "(?h + k) mod ?c \<noteq> (?h + ?n) mod ?c"
      using mod_add_cancel[of k ?c ?n ?h] kn True by auto
    then show ?thesis using cells kn True by (simp add: window_nth nth_append)
  qed
  then show ?thesis using inv True by (simp add: ring_log_def push_def Let_def)
next
  case False
  let ?c = "cap r" and ?h = "head r" and ?n = "length xs"
  have inv: "0 < ?c" "length (buf r) = ?c" "?h < ?c" "rsize r = ?c" "totalAdded r = ?n" "?c \<le> ?n"
    and cells: "\<forall>k<?c. buf r ! ((?h + k) mod ?c) = Some (window ?c xs ! k)"
    using assms False by (auto simp: ring_log_def min_def)
  have "(buf r)[?h := Some e] ! (((?h + 1) mod ?c + k) mod ?c) = Some (window ?c (xs @ [e]) ! k)"
    if k: "k < ?c" for k
  proof -
    have pos: "((?h + 1) mod ?c + k) mod ?c = (?h + Suc k) mod ?c" by (simp add: mod_add_left_eq)
    show ?thesis
    proof (cases "Suc k = ?c")
      case True
      then have "k = ?c - 1" by simp
      then show ?thesis using inv pos True by (simp add: window_nth)
    next
      case False
      then have sk: "Suc k < ?c" using k by simp
      then have "(?h + Suc k) mod ?c \<noteq> (?h + 0) mod ?c" using mod_add_cancel[of "Suc k" ?c 0 ?h] by auto
      moreover have "buf r ! ((?h + Suc k) mod ?c) = Some (window ?c xs ! Suc k)"
        using cells sk by blast
      ultimately have "(buf r)[?h := Some e] ! ((?h + Suc k) mod ?c) = Some (window ?c xs ! Suc k)"
        using inv by simp
      moreover have "window ?c (xs @ [e]) ! k = window ?c xs ! Suc k"
      proof -
        have idx: "Suc ?n - ?c + k < ?n" "Suc ?n - ?c + k = ?n - ?c + Suc k" using sk inv(6) by linarith+
        have "window ?c (xs @ [e]) ! k = (xs @ [e]) ! (Suc ?n - ?c + k)" using k inv(6) by (simp add: window_nth)
        also have "\<dots> = xs ! (?n - ?c + Suc k)" using idx by (simp add: nth_append)
        also have "\<dots> = window ?c xs ! Suc k" using sk inv(6) by (simp add: window_nth)
        finally show ?thesis .
      qed
      ultimately show ?thesis using pos by simp
    qed
  qed
  then show ?thesis using inv by (simp add: ring_log_def push_def Let_def)
qed


lemma upto_int_upt: "[int s + 1..int n] = map (\<lambda>i. int i + 1) [s..<n]"
proof (induction n)
  case (Suc n)
  show ?case
  proof (cases "s \<le> n")
    case True
    then have "[int s + 1..int (Suc n)] = [int s + 1..int n] @ [int (Suc n)]"
      by (simp add: upto_rec2)
    with True Suc show ?thesis by simp
  qed simp
qed simp

lemma drop_as_map: "drop s xs = map (\<lambda>i. xs ! i) [s..<length xs]"
  using drop_map[of s "\<lambda>i. xs ! i" "[0..<length xs]"] by (simp add: map_nth)

lemma ring_log_since:
  assumes "ring_log r xs"
  shows "ring_since r cursor =
    (map Some (drop (max (nat cursor) (length xs - cap r)) xs), xs \<noteq> [] \<and> cursor < int (length xs - cap r))"
proof (cases "xs = []")
  case True
  then show ?thesis using assms by (simp add: ring_log_def ring_since_def)
next
  case False
  let ?c = "cap r" and ?n = "length xs"
  let ?m = "min ?n ?c"
  let ?s = "max (nat cursor) (?n - ?m)"
  have inv: "0 < ?c" "rsize r = ?m" "totalAdded r = ?n" "0 < ?m"
    and cells: "\<forall>k<?m. buf r ! ((head r + k) mod ?c) = Some (window ?c xs ! k)"
    using assms False by (auto simp: ring_log_def)
  have "int ?n - int ?m = int (?n - ?m)" by (simp add: of_nat_diff)
  moreover have "max (cursor + 1) (int q + 1) = int (max (nat cursor) q) + 1" for q by linarith
  ultimately have start: "max (cursor + 1) (int ?n - int ?m + 1) = int ?s + 1" by metis
  have "map (\<lambda>k. buf r ! nat ((int (head r) + (k - (int ?n - int ?m + 1))) mod int ?c)) [int ?s + 1..int ?n] =
      map (\<lambda>i. Some (xs ! i)) [?s..<?n]"
    unfolding upto_int_upt map_map
  proof (rule map_cong[OF refl])
    fix i assume "i \<in> set [?s..<?n]"
    then have i: "?n - ?m \<le> i" "i < ?n" by auto
    define j where "j = i - (?n - ?m)"
    have j: "j < ?m" "i = ?n - ?m + j" using i inv(4) by (auto simp: j_def)
    have "int (head r) + (int i + 1 - (int ?n - int ?m + 1)) = int (head r + j)"
      using j(2) by (simp add: of_nat_diff)
    then have "nat ((int (head r) + (int i + 1 - (int ?n - int ?m + 1))) mod int ?c) = (head r + j) mod ?c"
      by (metis nat_int of_nat_mod)
    then show "((\<lambda>k. buf r ! nat ((int (head r) + (k - (int ?n - int ?m + 1))) mod int ?c)) \<circ> (\<lambda>i. int i + 1)) i =
        Some (xs ! i)"
      using cells j by (simp add: window_nth)
  qed
  then have ev: "map (\<lambda>k. buf r ! nat ((int (head r) + (k - (int ?n - int ?m + 1))) mod int ?c))
      [max (cursor + 1) (int ?n - int ?m + 1)..int ?n] = map Some (drop ?s xs)"
    by (simp only: start drop_as_map map_map o_def)
  have "?n - ?m = ?n - ?c" by (simp add: min_def)
  moreover have "int ?n - int ?m = int (?n - ?m)" by (simp add: of_nat_diff)
  moreover have "ring_since r cursor = (map Some (drop ?s xs), cursor < int ?n - int ?m)"
    unfolding ring_since_def Let_def inv(2,3) ev if_not_P[OF gr_implies_not0[OF inv(4)]] by simp
  ultimately show ?thesis using False by simp
qed


section \<open>The contract of a replay window\<close>

locale replay_window =
  fixes add :: "'e \<Rightarrow> 'r \<Rightarrow> 'r" and since :: "'r \<Rightarrow> int \<Rightarrow> 'e option list \<times> bool"
    and keeps :: "'r \<Rightarrow> nat" and holds :: "'r \<Rightarrow> 'e list \<Rightarrow> bool"
  assumes add_holds: "holds r xs \<Longrightarrow> holds (add e r) (xs @ [e])"
    and keeps_add: "keeps (add e r) = keeps r"
    and since_holds: "holds r xs \<Longrightarrow> since r c =
      (map Some (drop (max (nat c) (length xs - keeps r)) xs), xs \<noteq> [] \<and> c < int (length xs - keeps r))"
begin

lemma add_all_holds: "holds r xs \<Longrightarrow> holds (fold add es r) (xs @ es)"
proof (induction es arbitrary: r xs)
  case (Cons e es)
  then have "holds (fold add es (add e r)) ((xs @ [e]) @ es)" by (intro Cons.IH add_holds)
  then show ?case by simp
qed simp

lemma keeps_all: "keeps (fold add es r) = keeps r"
  by (induction es arbitrary: r) (simp_all add: keeps_add)

text \<open>A reader that polls before more than \<open>keeps\<close> entries were added misses nothing and sees no gap.\<close>

lemma poll_complete:
  assumes "holds r xs" "length es \<le> keeps r"
  shows "since (fold add es r) (int (length xs)) = (map Some es, False)"
proof -
  have "length (xs @ es) - keeps (fold add es r) \<le> length xs"
    using assms(2) by (simp add: keeps_all)
  then show ?thesis
    using since_holds[OF add_all_holds[OF assms(1)], of es "int (length xs)"] by (auto simp: keeps_all max_def)
qed

text \<open>A reader that polls too late is told so.\<close>

lemma late_poll_gap:
  assumes "holds r xs" "keeps r < length es"
  shows "snd (since (fold add es r) (int (length xs)))"
  using assms since_holds[OF add_all_holds[OF assms(1)], of es "int (length xs)"]
  by (auto simp: keeps_all)

end

interpretation ring: replay_window push ring_since cap ring_log
proof unfold_locales
  show "cap (push e r) = cap r" for e and r :: "'a CircularBuffer"
    by (simp add: push_def Let_def)
qed (simp_all add: ring_log_push ring_log_since)

section \<open>The bus\<close>

record 'p PublishInput =
  in_from :: string
  in_to :: string
  in_kind :: MessageKind
  in_corr :: "string option"
  in_payload :: 'p

text \<open>Subscribers are named by the order of their subscription. A filter answers, or throws
  (\<^const>\<open>None\<close>); the pending deliveries are the queue of microtasks.\<close>

record 'p Bus =
  hwm :: nat
  subs :: "(nat \<times> ('p Envelope \<Rightarrow> bool option)) list"
  bus_ring :: "'p Envelope CircularBuffer"
  microtasks :: "(nat \<times> 'p Envelope) list"
  next_sub :: nat

definition new_bus :: "int \<Rightarrow> 'p Bus" where
  "new_bus capacity =
     \<lparr>hwm = 0, subs = [], bus_ring = new_ring capacity, microtasks = [], next_sub = 0\<rparr>"

definition envelope :: "nat \<Rightarrow> int \<Rightarrow> 'p PublishInput \<Rightarrow> 'p Envelope" where
  "envelope n now inp = \<lparr>env_seq = n, env_from = in_from inp, env_to = in_to inp, env_kind = in_kind inp,
     env_corr = in_corr inp, env_payload = in_payload inp, env_ts = now\<rparr>"

definition matches :: "'p Envelope \<Rightarrow> nat \<times> ('p Envelope \<Rightarrow> bool option) \<Rightarrow> bool" where
  "matches e sub = (case snd sub e of Some m \<Rightarrow> m | None \<Rightarrow> False)"

definition publish :: "int \<Rightarrow> 'p PublishInput \<Rightarrow> 'p Bus \<Rightarrow> 'p Envelope \<times> 'p Bus" where
  "publish now inp b =
     (let full = envelope (hwm b + 1) now inp
      in (full, b\<lparr>hwm := hwm b + 1, bus_ring := push full (bus_ring b),
           microtasks := microtasks b @ map (\<lambda>sub. (fst sub, full)) (filter (matches full) (subs b))\<rparr>))"

definition subscribe :: "('p Envelope \<Rightarrow> bool option) \<Rightarrow> 'p Bus \<Rightarrow> nat \<times> 'p Bus" where
  "subscribe flt b = (next_sub b, b\<lparr>subs := subs b @ [(next_sub b, flt)], next_sub := next_sub b + 1\<rparr>)"

definition unsubscribe :: "nat \<Rightarrow> 'p Bus \<Rightarrow> 'p Bus" where
  "unsubscribe i b = b\<lparr>subs := filter (\<lambda>sub. fst sub \<noteq> i) (subs b)\<rparr>"

definition bus_since :: "'p Bus \<Rightarrow> int \<Rightarrow> 'p Envelope option list \<times> bool" where
  "bus_since b n = ring_since (bus_ring b) n"

text \<open>Running the microtasks: a handler changes the state of the rest of the program and may throw,
  which the queue swallows.\<close>

definition run_microtasks :: "(nat \<Rightarrow> 'p Envelope \<Rightarrow> 's \<Rightarrow> unit option \<times> 's) \<Rightarrow> 'p Bus \<Rightarrow> 's \<Rightarrow> 's \<times> 'p Bus" where
  "run_microtasks fn b s = (fold (\<lambda>(i, e) s. snd (fn i e s)) (microtasks b) s, b\<lparr>microtasks := []\<rparr>)"

section \<open>Properties of the bus\<close>

definition publish_all :: "(int \<times> 'p PublishInput) list \<Rightarrow> 'p Bus \<Rightarrow> 'p Bus" where
  "publish_all ins b = fold (\<lambda>(now, inp) b. snd (publish now inp b)) ins b"

text \<open>What publishing the inputs in order should leave: one envelope per input, numbered from 1.\<close>

definition sent :: "nat \<Rightarrow> (int \<times> 'p PublishInput) list \<Rightarrow> 'p Envelope list" where
  "sent n ins = map (\<lambda>(k, now, inp). envelope (n + k + 1) now inp) (enumerate 0 ins)"

lemma sent_Cons: "sent n ((now, inp) # ins) = envelope (n + 1) now inp # sent (n + 1) ins"
  by (simp add: sent_def enumerate_Suc_eq split_beta)

lemma length_sent [simp]: "length (sent n ins) = length ins"
  by (simp add: sent_def)

lemma publish_all_state:
  "hwm (publish_all ins b) = hwm b + length ins \<and>
   bus_ring (publish_all ins b) = fold push (sent (hwm b) ins) (bus_ring b)"
proof (induction ins arbitrary: b)
  case Nil
  show ?case by (simp add: publish_all_def sent_def)
next
  case (Cons i ins)
  obtain now inp where i: "i = (now, inp)" by (cases i)
  have "publish_all (i # ins) b = publish_all ins (snd (publish now inp b))"
    by (simp add: publish_all_def i)
  then show ?case using Cons[of "snd (publish now inp b)"] by (simp add: publish_def Let_def i sent_Cons)
qed

lemma env_seq_sent: "map env_seq (sent n ins) = [n + 1..<n + length ins + 1]"
proof (induction ins arbitrary: n)
  case Nil
  show ?case by (simp add: sent_def)
next
  case (Cons i ins)
  obtain now inp where i: "i = (now, inp)" by (cases i)
  show ?case
    using Cons[of "n + 1"] upt_conv_Cons[of "n + 1" "n + length (i # ins) + 1"]
    by (simp add: i sent_Cons envelope_def)
qed

lemma bus_ring_log: "ring_log (bus_ring (publish_all ins (new_bus capacity))) (sent 0 ins)"
  using ring.add_all_holds[OF ring_log_new, of "sent 0 ins" capacity]
  by (simp add: publish_all_state) (simp add: new_bus_def)

lemma bus_ring_cap: "cap (bus_ring (publish_all ins (new_bus capacity))) = nat (max 1 capacity)"
  by (simp add: publish_all_state ring.keeps_all) (simp add: new_bus_def new_ring_def Let_def)

text \<open>
  C38. Replay from the bus is replay from the sequence of publications. After any publications on a
  new bus, \<open>since(n)\<close> returns, with no cell missing, exactly the published envelopes whose sequence
  number is above both \<open>n\<close> and the evicted prefix; their numbers are consecutive up to the last one
  published, and \<open>gap\<close> is set exactly when a number above \<open>n\<close> was evicted (or \<open>n\<close> is negative).
\<close>

theorem bus_since_replays:
  "bus_since (publish_all ins (new_bus capacity)) n =
     (let evicted = length ins - nat (max 1 capacity)
      in (map Some (drop (max (nat n) evicted) (sent 0 ins)), ins \<noteq> [] \<and> n < int evicted)) \<and>
   map env_seq (drop k (sent 0 ins)) = [k + 1..<length ins + 1]"
proof -
  have "sent 0 ins \<noteq> [] \<longleftrightarrow> ins \<noteq> []" by (metis length_0_conv length_sent)
  moreover have "map env_seq (drop k (sent 0 ins)) = [k + 1..<length ins + 1]"
    by (simp only: drop_map[symmetric] env_seq_sent drop_upt) simp
  ultimately show ?thesis
    by (simp add: bus_since_def ring.since_holds[OF bus_ring_log] bus_ring_cap Let_def)
qed

text \<open>
  Subscribers are isolated from one another. Publishing returns an envelope and numbers it the
  same whatever the filters do, and what is queued for the other subscribers does not depend on a
  subscriber whose filter throws: it is what would be queued if that subscriber were not there.
\<close>

theorem throwing_subscriber_isolated:
  assumes "\<forall>e. flt e = None"
  shows "publish now inp (b\<lparr>subs := xs @ (i, flt) # ys\<rparr>) =
    (let (e, b') = publish now inp (b\<lparr>subs := xs @ ys\<rparr>) in (e, b'\<lparr>subs := xs @ (i, flt) # ys\<rparr>))"
  using assms by (simp add: publish_def Let_def matches_def)

definition demo_input :: "string \<Rightarrow> string PublishInput" where
  "demo_input p = \<lparr>in_from = ''a'', in_to = ''b'', in_kind = tool_call, in_corr = None, in_payload = p\<rparr>"

theorem throwing_subscriber_isolated_witness:
  "map fst (microtasks (snd (publish 0 (demo_input ''x'')
      ((new_bus 4)\<lparr>subs := [(0, \<lambda>_. Some True), (1, \<lambda>_. None), (2, \<lambda>_. Some True)]\<rparr>)))) = [0, 2]"
  using throwing_subscriber_isolated[where flt = "\<lambda>_. None" and now = 0 and inp = "demo_input ''x''"
      and b = "new_bus 4" and xs = "[(0, \<lambda>_. Some True)]" and i = 1 and ys = "[(2, \<lambda>_. Some True)]"]
  by (simp add: publish_def new_bus_def matches_def Let_def)

end
