(* ===== verification/Actors.thy ===== *)
theory Actors
  imports Statechart Bus
begin

text \<open>
  Actors on the bus: the actor contract and the state machine actor (\<open>src/src/runtime/actor/port.ts\<close>),
  the supervisor that guards a \<open>receive\<close> (\<open>actor/supervisor.ts\<close>), the topology of connected actors
  (\<open>topology/topology.ts\<close>) and the gate actions (\<open>gate/kernel.ts\<close>).

  An actor is a record of operations on its own state. Code that can throw returns \<^const>\<open>Inl\<close> of the
  message, with the state it left behind. The clock is an argument of the guarded call.
\<close>

section \<open>What actors publish\<close>

datatype payload = Transition_payload string string string | Wedge_payload string string
  | Connect_payload string bool | Disconnect_payload string | Gate_payload string string
  | Moved_payload string string | GateFail_payload string string string | Other_payload string

section \<open>The actor contract\<close>

datatype Effect = Emit string MessageKind payload | Write_state string | Side_effect nat

record ActorState =
  current :: string
  history :: "string list"
  wedged :: "string option"

record 's ActorPort =
  ap_addr :: string
  ap_receive :: "payload Envelope \<Rightarrow> 's \<Rightarrow> (string + Effect list) \<times> 's"
  ap_restart :: "'s \<Rightarrow> 's"
  ap_toWedge :: "string \<Rightarrow> 's \<Rightarrow> 's"
  ap_onConnect :: "'s \<Rightarrow> string option \<times> 's"
  ap_onDisconnect :: "'s \<Rightarrow> string option \<times> 's"

subsection \<open>The state machine actor\<close>

definition initial_actor :: "Fsm \<Rightarrow> ActorState" where
  "initial_actor f = \<lparr>current = fsm_initial f, history = [], wedged = None\<rparr>"

definition overflow :: string where
  "overflow = ''Maximum call stack size exceeded''"

definition base_receive ::
  "Fsm \<Rightarrow> (payload Envelope \<Rightarrow> string + string option) \<Rightarrow> payload Envelope \<Rightarrow> ActorState \<Rightarrow>
   (string + Effect list) \<times> ActorState" where
  "base_receive f eventFor env s =
     (case eventFor env of
        Inl err \<Rightarrow> (Inl err, s)
      | Inr None \<Rightarrow> (Inr [], s)
      | Inr (Some event) \<Rightarrow>
          (case step (fromFlat f) [current s] event None [] of
             None \<Rightarrow> (Inl overflow, s)
           | Some result \<Rightarrow>
               if \<not> transitioned result then (Inr [], s)
               else let to = soleState (next_config result)
                 in (Inr [Write_state to,
                       Emit ''topic:transition'' transition (Transition_payload (current s) to event)],
                     s\<lparr>history := history s @ [current s], current := to\<rparr>)))"

definition base_restart :: "Fsm \<Rightarrow> ActorState \<Rightarrow> ActorState" where
  "base_restart f s = initial_actor f"

definition base_toWedge :: "string \<Rightarrow> ActorState \<Rightarrow> ActorState" where
  "base_toWedge reason s = s\<lparr>wedged := Some reason\<rparr>"

text \<open>An actor without connection hooks.\<close>

definition no_hook :: "'s \<Rightarrow> string option \<times> 's" where
  "no_hook s = (None, s)"

definition base_actor ::
  "string \<Rightarrow> Fsm \<Rightarrow> (payload Envelope \<Rightarrow> string + string option) \<Rightarrow> ActorState ActorPort" where
  "base_actor addr f eventFor =
     \<lparr>ap_addr = addr, ap_receive = base_receive f eventFor, ap_restart = base_restart f,
      ap_toWedge = base_toWedge, ap_onConnect = no_hook, ap_onDisconnect = no_hook\<rparr>"

section \<open>The supervisor\<close>

record RestartPolicy =
  maxRestarts :: nat
  windowMs :: int
  backoffMs :: "nat \<Rightarrow> int"

definition defaultPolicy :: RestartPolicy where
  "defaultPolicy = \<lparr>maxRestarts = 3, windowMs = 60000, backoffMs = (\<lambda>n. min (2000 * 2 ^ (n - 1)) 30000)\<rparr>"

record 's guarded =
  g_state :: 's
  g_restarts :: "int list"
  g_bus :: "payload Bus"

text \<open>How a guarded call ended: the effects of the actor, a restart after a pause, or the actor parked.
  The call itself returns the effects, and none in the other two cases.\<close>

datatype outcome = Handled "Effect list" | Restarted int | Parked

definition wedge_notice :: "string \<Rightarrow> string \<Rightarrow> payload PublishInput" where
  "wedge_notice addr reason = \<lparr>in_from = ''supervisor'', in_to = ''topic:transition'', in_kind = transition,
     in_corr = None, in_payload = Wedge_payload addr reason\<rparr>"

definition guard ::
  "RestartPolicy \<Rightarrow> 's ActorPort \<Rightarrow> int \<Rightarrow> payload Envelope \<Rightarrow> 's guarded \<Rightarrow> outcome \<times> 's guarded" where
  "guard pol port now env g =
     (case ap_receive port env (g_state g) of
        (Inr effs, s) \<Rightarrow> (Handled effs, g\<lparr>g_state := s\<rparr>)
      | (Inl reason, s) \<Rightarrow>
          (let restarts = filter (\<lambda>t. now - t < windowMs pol) (g_restarts g) @ [now]
           in if maxRestarts pol < length restarts
              then (Parked, g\<lparr>g_state := ap_toWedge port reason s, g_restarts := restarts,
                      g_bus := snd (publish now (wedge_notice (ap_addr port) reason) (g_bus g))\<rparr>)
              else (Restarted (backoffMs pol (length restarts)),
                    g\<lparr>g_state := ap_restart port s, g_restarts := restarts\<rparr>)))"

fun guard_effects :: "outcome \<Rightarrow> Effect list" where
  "guard_effects (Handled effs) = effs"
| "guard_effects _ = []"

fun guard_run ::
  "RestartPolicy \<Rightarrow> 's ActorPort \<Rightarrow> (int \<times> payload Envelope) list \<Rightarrow> 's guarded \<Rightarrow>
   (int \<times> outcome) list \<times> 's guarded" where
  "guard_run pol port [] g = ([], g)"
| "guard_run pol port ((now, env) # calls) g =
     (case guard pol port now env g of (out, g1) \<Rightarrow>
        (case guard_run pol port calls g1 of (outs, g2) \<Rightarrow> ((now, out) # outs, g2)))"

section \<open>The topology\<close>

text \<open>Actors are objects, named here by a number; the registry maps addresses to them in insertion
  order.\<close>

record 's Topology =
  registry :: "(string \<times> nat) list"
  objects :: "nat \<Rightarrow> 's"
  t_bus :: "payload Bus"

definition topology_notice :: "payload \<Rightarrow> payload PublishInput" where
  "topology_notice p = \<lparr>in_from = ''topology'', in_to = ''topic:topology'', in_kind = topology,
     in_corr = None, in_payload = p\<rparr>"

definition connected :: "'s Topology \<Rightarrow> string list" where
  "connected t = map fst (registry t)"

definition isConnected :: "'s Topology \<Rightarrow> string \<Rightarrow> bool" where
  "isConnected t addr \<longleftrightarrow> addr \<in> fst ` set (registry t)"

definition topo_connect ::
  "(nat \<Rightarrow> 's ActorPort) \<Rightarrow> int \<Rightarrow> nat \<Rightarrow> (string + bool) option \<Rightarrow> 's Topology \<Rightarrow> (string + bool) \<times> 's Topology" where
  "topo_connect port now i g t =
     (case g of
        Some (Inl e) \<Rightarrow> (Inl e, t)
      | Some (Inr False) \<Rightarrow> (Inr False, t)
      | _ \<Rightarrow>
          (let addr = ap_addr (port i) in
           if isConnected t addr then (Inr True, t)
           else let t1 = t\<lparr>registry := registry t @ [(addr, i)]\<rparr>
             in case ap_onConnect (port i) (objects t1 i) of
                  (Some err, s) \<Rightarrow>
                    (Inr False, t1\<lparr>registry := filter (\<lambda>(a, _). a \<noteq> addr) (registry t1),
                       objects := (objects t1)(i := ap_toWedge (port i) err s),
                       t_bus := snd (publish now (topology_notice (Connect_payload addr True)) (t_bus t1))\<rparr>)
                | (None, s) \<Rightarrow>
                    (Inr True, t1\<lparr>objects := (objects t1)(i := s),
                       t_bus := snd (publish now (topology_notice (Connect_payload addr False)) (t_bus t1))\<rparr>)))"

definition topo_disconnect ::
  "(nat \<Rightarrow> 's ActorPort) \<Rightarrow> int \<Rightarrow> string \<Rightarrow> 's Topology \<Rightarrow> string option \<times> 's Topology" where
  "topo_disconnect port now addr t =
     (case map_of (registry t) addr of
        None \<Rightarrow> (None, t)
      | Some i \<Rightarrow> (case ap_onDisconnect (port i) (objects t i) of
          (Some err, s) \<Rightarrow> (Some err, t\<lparr>objects := (objects t)(i := s)\<rparr>)
        | (None, s) \<Rightarrow> (None, t\<lparr>objects := (objects t)(i := s),
            registry := filter (\<lambda>(a, _). a \<noteq> addr) (registry t),
            t_bus := snd (publish now (topology_notice (Disconnect_payload addr)) (t_bus t))\<rparr>)))"

section \<open>Gate actions\<close>

datatype Action = pass | warn | block | halt

fun action_name :: "Action \<Rightarrow> string" where
  "action_name pass = ''pass''"
| "action_name warn = ''warn''"
| "action_name block = ''block''"
| "action_name halt = ''halt''"

datatype Verdict = WEDGE | HUMAN_REQUIRED

record GateEffect =
  exitCode :: nat
  gate_message :: "string option"
  verdict :: "Verdict option"

fun run_action :: "Action \<Rightarrow> string \<Rightarrow> bool \<Rightarrow> GateEffect" where
  "run_action pass message humanRequired = \<lparr>exitCode = 0, gate_message = None, verdict = None\<rparr>"
| "run_action warn message humanRequired = \<lparr>exitCode = 0, gate_message = Some message, verdict = None\<rparr>"
| "run_action block message humanRequired = \<lparr>exitCode = 2, gate_message = Some message, verdict = None\<rparr>"
| "run_action halt message humanRequired =
     \<lparr>exitCode = 2, gate_message = Some message,
      verdict = Some (if humanRequired then HUMAN_REQUIRED else WEDGE)\<rparr>"

definition gate_notice :: "string \<Rightarrow> Action \<Rightarrow> string \<Rightarrow> payload PublishInput" where
  "gate_notice frm action failureType = \<lparr>in_from = frm, in_to = ''topic:transition'', in_kind = gate_action,
     in_corr = None, in_payload = Gate_payload (action_name action) failureType\<rparr>"

definition applyAction ::
  "int \<Rightarrow> Action \<Rightarrow> string \<Rightarrow> string obj \<Rightarrow> string \<Rightarrow> bool \<Rightarrow> payload Bus \<Rightarrow> GateEffect \<times> payload Bus" where
  "applyAction now action failureType messages frm humanRequired b =
     (let message = (case map_of messages failureType of Some m \<Rightarrow> m | None \<Rightarrow> ''gate:'' @ action_name action)
      in (run_action action message humanRequired,
          if action \<noteq> pass then snd (publish now (gate_notice frm action failureType) b) else b))"


section \<open>The contract between supervisor and actor\<close>

locale actor_port =
  fixes port :: "'s ActorPort" and healthy :: "'s \<Rightarrow> bool"
  assumes receive_healthy: "healthy s \<Longrightarrow> healthy (snd (ap_receive port env s))"
    and restart_healthy: "healthy s \<Longrightarrow> healthy (ap_restart port s)"
    and wedge_healthy: "healthy s \<Longrightarrow> healthy (ap_toWedge port reason s)"
begin

text \<open>Whatever crashes, restarts and parks in between, a guarded actor stays in a state of its own.\<close>

lemma guard_healthy: "healthy (g_state g) \<Longrightarrow> healthy (g_state (snd (guard pol port now env g)))"
  using receive_healthy[of "g_state g" env]
  by (auto simp: guard_def Let_def restart_healthy wedge_healthy split: prod.splits sum.splits)

lemma guard_run_healthy:
  "healthy (g_state g) \<Longrightarrow> healthy (g_state (snd (guard_run pol port calls g)))"
proof (induction calls arbitrary: g)
  case (Cons c calls)
  obtain now env where c: "c = (now, env)" by (cases c)
  show ?case
    using Cons.IH[OF guard_healthy[OF Cons.prems, of pol now env]] by (simp add: c split_beta)
qed simp

end

definition declared :: "Fsm \<Rightarrow> ActorState \<Rightarrow> bool" where
  "declared f s \<longleftrightarrow> (validateFsm f = [] \<and> slash_free f \<longrightarrow> current s \<in> set (fsm_states f))"

lemma flat_next_declared:
  assumes "validateFsm f = []" "cur \<in> set (fsm_states f)"
  shows "flat_next (flat_spec f cur event g) \<in> set (fsm_states f)"
  using assms find_index_SomeD[of "flat_enabled cur event g" "fsm_transitions f"] validateFsm_to[OF assms(1)]
  by (auto simp: flat_spec_def Let_def split: option.splits)

lemma initial_declared: "validateFsm f = [] \<Longrightarrow> fsm_initial f \<in> set (fsm_states f)"
  by (auto simp: validateFsm_def split: if_splits)

text \<open>On a valid machine the actor steps by its table.\<close>

lemma base_receive_table:
  assumes "validateFsm f = []" "slash_free f" "current s \<in> set (fsm_states f)" "eventFor env = Inr (Some event)"
  shows "base_receive f eventFor env s =
    (let r = flat_spec f (current s) event None
     in if flat_transitioned r
        then (Inr [Write_state (flat_next r),
                Emit ''topic:transition'' transition (Transition_payload (current s) (flat_next r) event)],
              s\<lparr>history := history s @ [current s], current := flat_next r\<rparr>)
        else (Inr [], s))"
proof -
  have "stepFlat f (current s) event None = Some (flat_spec f (current s) event None)"
    by (rule stepFlat_table[OF assms(1-3)])
  then obtain r where r: "step (fromFlat f) [current s] event None [] = Some r"
      "flat_spec f (current s) event None =
        \<lparr>flat_next = soleState (next_config r), flat_transitioned = transitioned r, flat_via = via r\<rparr>"
    by (auto simp: stepFlat_def)
  then show ?thesis using assms(4) by (simp add: base_receive_def Let_def)
qed

lemma declared_receive: "declared f s \<Longrightarrow> declared f (snd (base_receive f eventFor env s))"
proof (cases "validateFsm f = [] \<and> slash_free f")
  case True
  assume "declared f s"
  then have cur: "current s \<in> set (fsm_states f)" using True by (simp add: declared_def)
  have "current (snd (base_receive f eventFor env s)) \<in> set (fsm_states f)"
  proof (cases "eventFor env")
    case (Inr o1)
    show ?thesis
    proof (cases o1)
      case None
      then show ?thesis using Inr cur by (simp add: base_receive_def)
    next
      case (Some event)
      then show ?thesis
        using base_receive_table[of f s eventFor env event] flat_next_declared[of f "current s" event None] True cur Inr
        by (simp add: Let_def)
    qed
  qed (simp add: base_receive_def cur)
  then show ?thesis by (simp add: declared_def)
qed (auto simp: declared_def)

interpretation base: actor_port "base_actor addr f eventFor" "declared f" for addr f eventFor
proof unfold_locales
  fix s env reason assume "declared f s"
  then show "declared f (snd (ap_receive (base_actor addr f eventFor) env s))"
    "declared f (ap_restart (base_actor addr f eventFor) s)"
    "declared f (ap_toWedge (base_actor addr f eventFor) reason s)"
    by (simp_all add: base_actor_def declared_receive base_restart_def base_toWedge_def)
      (simp_all add: declared_def initial_actor_def initial_declared)
qed

section \<open>Properties\<close>

text \<open>
  An actor moves by its table and says so. On a valid machine, a received envelope either leaves
  the actor as it was with no effect (it maps to no event, or the table has no transition), or moves it
  to the state the table gives, records the state it left, and returns exactly two effects: the write
  of the new state and the announcement of that transition.
\<close>

theorem base_actor_follows_table:
  assumes "validateFsm f = []" "slash_free f" "current s \<in> set (fsm_states f)" "eventFor env = Inr ev"
  shows "case ap_receive (base_actor addr f eventFor) env s of
      (Inl e, s') \<Rightarrow> False
    | (Inr effs, s') \<Rightarrow>
        (case ev of None \<Rightarrow> effs = [] \<and> s' = s
         | Some event \<Rightarrow>
            (let r = flat_spec f (current s) event None
             in current s' = flat_next r \<and> wedged s' = wedged s \<and>
                (if flat_transitioned r
                 then history s' = history s @ [current s] \<and>
                   effs = [Write_state (current s'),
                     Emit ''topic:transition'' transition (Transition_payload (current s) (current s') event)]
                 else effs = [] \<and> s' = s)))"
proof (cases ev)
  case None
  then show ?thesis using assms(4) by (simp add: base_actor_def base_receive_def)
next
  case (Some event)
  have "\<not> flat_transitioned (flat_spec f (current s) event None) \<Longrightarrow>
      flat_next (flat_spec f (current s) event None) = current s"
    by (auto simp: flat_spec_def Let_def split: option.splits)
  then show ?thesis
    using base_receive_table[OF assms(1-3), of eventFor env event] assms(4) Some
    by (simp add: base_actor_def Let_def)
qed

definition env0 :: "payload Envelope" where
  "env0 = envelope 1 0 (topology_notice (Other_payload ''x''))"

theorem base_actor_follows_table_witness:
  "ap_receive (base_actor ''a'' demo_fsm (\<lambda>_. Inr (Some ''pass''))) env0 (initial_actor demo_fsm) =
   (Inr [Write_state ''plan'', Emit ''topic:transition'' transition (Transition_payload ''scope'' ''plan'' ''pass'')],
    \<lparr>current = ''plan'', history = [''scope''], wedged = None\<rparr>)"
proof -
  have h: "validateFsm demo_fsm = []" "slash_free demo_fsm"
      "current (initial_actor demo_fsm) \<in> set (fsm_states demo_fsm)"
    by (simp_all add: demo_fsm_def validateFsm_def slash_free_def PATH_SEP_def ANY_STATE_def initial_actor_def)
  have spec: "flat_spec demo_fsm ''scope'' ''pass'' None = \<lparr>flat_next = ''plan'', flat_transitioned = True, flat_via = Some 0\<rparr>"
    by (simp add: flat_spec_def demo_fsm_def flat_enabled_def guard_ok_def)
  have cur: "current (initial_actor demo_fsm) = ''scope''" "history (initial_actor demo_fsm) = []"
      "wedged (initial_actor demo_fsm) = None"
    by (simp_all add: initial_actor_def demo_fsm_def)
  show ?thesis
    using base_actor_follows_table[OF h, where eventFor = "\<lambda>_. Inr (Some ''pass'')" and env = env0
        and ev = "Some ''pass''" and addr = "''a''"]
    by (auto simp: Let_def cur spec split: prod.splits sum.splits)
qed

text \<open>
  Parking does not stop an actor. The wedge is only a mark in the actor's state, which neither
  \<open>receive\<close> nor the supervisor looks at: a guarded actor that was parked processes the next envelope
  exactly as one that was not, and a later restart clears the mark.
\<close>

theorem parked_actor_still_runs:
  "guard pol (base_actor addr f eventFor) now env (g\<lparr>g_state := base_toWedge reason (g_state g)\<rparr>) =
   (let (out, g') = guard pol (base_actor addr f eventFor) now env g
    in (out, case out of Handled effs \<Rightarrow> g'\<lparr>g_state := base_toWedge reason (g_state g')\<rparr> | _ \<Rightarrow> g')) \<and>
   wedged (ap_restart (base_actor addr f eventFor) (base_toWedge reason (g_state g))) = None"
  by (auto simp: guard_def base_actor_def base_toWedge_def base_receive_def base_restart_def initial_actor_def
      Let_def split: sum.splits option.splits)


subsection \<open>Restart intensity\<close>

fun is_restart :: "outcome \<Rightarrow> bool" where
  "is_restart (Restarted _) \<longleftrightarrow> True"
| "is_restart _ \<longleftrightarrow> False"

fun is_crash :: "outcome \<Rightarrow> bool" where
  "is_crash (Handled _) \<longleftrightarrow> False"
| "is_crash _ \<longleftrightarrow> True"

definition restarts_in :: "int \<Rightarrow> int \<Rightarrow> (int \<times> outcome) list \<Rightarrow> nat" where
  "restarts_in w t tr = length (filter (\<lambda>(n, out). is_restart out \<and> t - w < n \<and> n \<le> t) tr)"

text \<open>The supervisor remembers exactly the crashes that can still lie in a window of the present or
  of the future.\<close>

definition remembers :: "int \<Rightarrow> (int \<times> outcome) list \<Rightarrow> int list \<Rightarrow> bool" where
  "remembers w tr rs \<longleftrightarrow> (\<forall>t. (\<forall>(n, out)\<in>set tr. n \<le> t) \<longrightarrow>
     length (filter (\<lambda>(n, out). is_crash out \<and> t - n < w) tr) = length (filter (\<lambda>c. t - c < w) rs))"

lemma restart_is_crash: "is_restart out \<Longrightarrow> is_crash out"
  by (cases out) auto

lemma filter_window: "now \<le> t \<Longrightarrow>
  filter (\<lambda>c. t - c < w) (filter (\<lambda>c. now - c < w) rs) = filter (\<lambda>c. t - c < (w::int)) rs"
  by (auto intro!: filter_cong)

lemma remembers_step:
  assumes "remembers w tr rs" "\<forall>(n, out)\<in>set tr. n \<le> now" "is_crash out"
  shows "remembers w (tr @ [(now, out)]) (filter (\<lambda>c. now - c < w) rs @ [now])"
  unfolding remembers_def
proof (intro allI impI)
  fix t assume t: "\<forall>(n, out')\<in>set (tr @ [(now, out)]). n \<le> t"
  then have "now \<le> t" by simp
  have "length (filter (\<lambda>(n, out). is_crash out \<and> t - n < w) tr) = length (filter (\<lambda>c. t - c < w) rs)"
    using assms(1) t by (auto simp: remembers_def)
  then show "length (filter (\<lambda>(n, out). is_crash out \<and> t - n < w) (tr @ [(now, out)])) =
      length (filter (\<lambda>c. t - c < w) (filter (\<lambda>c. now - c < w) rs @ [now]))"
    using assms(3) filter_window[OF \<open>now \<le> t\<close>, of w rs] by simp
qed

lemma remembers_handled:
  "remembers w tr rs \<Longrightarrow> \<not> is_crash out \<Longrightarrow> remembers w (tr @ [(now, out)]) rs"
  by (auto simp: remembers_def)

lemma restart_bound_step:
  assumes "remembers w tr rs" "\<forall>(n, out)\<in>set tr. n \<le> now" "\<forall>t. restarts_in w t tr \<le> m"
    "is_restart out \<Longrightarrow> length (filter (\<lambda>c. now - c < w) rs @ [now]) \<le> m"
  shows "\<forall>t. restarts_in w t (tr @ [(now, out)]) \<le> m"
proof
  fix t
  show "restarts_in w t (tr @ [(now, out)]) \<le> m"
  proof (cases "is_restart out \<and> t - w < now \<and> now \<le> t")
    case False
    then show ?thesis using assms(3) by (auto simp: restarts_in_def)
  next
    case True
    then have all: "\<forall>(n, out)\<in>set tr. n \<le> t" using assms(2) by fastforce
    have "length (filter (\<lambda>(n, out). is_restart out \<and> t - w < n \<and> n \<le> t) tr) \<le>
        length (filter (\<lambda>(n, out). is_crash out \<and> t - n < w) tr)"
    proof (induction tr)
      case (Cons x xs)
      then show ?case using restart_is_crash by (cases x) auto
    qed simp
    also have "\<dots> = length (filter (\<lambda>c. t - c < w) rs)" using assms(1) all by (auto simp: remembers_def)
    also have "\<dots> = length (filter (\<lambda>c. t - c < w) (filter (\<lambda>c. now - c < w) rs))"
      using filter_window[of now t w rs] True by simp
    also have "\<dots> \<le> length (filter (\<lambda>c. now - c < w) rs)" by (rule length_filter_le)
    finally show ?thesis using assms(4) True by (simp add: restarts_in_def)
  qed
qed

lemma guard_outcome:
  "guard pol port now env g = (out, g') \<Longrightarrow>
   (if is_crash out
    then g_restarts g' = filter (\<lambda>c. now - c < windowMs pol) (g_restarts g) @ [now] \<and>
      (is_restart out \<longrightarrow> length (g_restarts g') \<le> maxRestarts pol)
    else g_restarts g' = g_restarts g)"
  by (auto simp: guard_def Let_def split: prod.splits sum.splits if_splits)

lemma guard_run_bound:
  assumes "guard_run pol port calls g = (outs, g')" "sorted (map fst calls)"
    "\<forall>(n, out)\<in>set tr. \<forall>c\<in>set calls. n \<le> fst c" "remembers (windowMs pol) tr (g_restarts g)"
    "\<forall>t. restarts_in (windowMs pol) t tr \<le> maxRestarts pol"
  shows "\<forall>t. restarts_in (windowMs pol) t (tr @ outs) \<le> maxRestarts pol"
  using assms
proof (induction calls arbitrary: g tr outs)
  case (Cons c calls)
  obtain now env where c: "c = (now, env)" by (cases c)
  obtain out g1 where g1: "guard pol port now env g = (out, g1)" by (rule prod.exhaust)
  obtain outs1 where outs1: "guard_run pol port calls g1 = (outs1, g')" "outs = (now, out) # outs1"
    using Cons.prems(1) by (auto simp: c g1 split: prod.splits)
  note go = guard_outcome[OF g1]
  have le: "\<forall>(n, out)\<in>set tr. n \<le> now" using Cons.prems(3) by (auto simp: c)
  have "remembers (windowMs pol) (tr @ [(now, out)]) (g_restarts g1)"
    using go remembers_step[OF Cons.prems(4) le, of out] remembers_handled[OF Cons.prems(4), of out now]
    by (cases "is_crash out") auto
  moreover have "\<forall>t. restarts_in (windowMs pol) t (tr @ [(now, out)]) \<le> maxRestarts pol"
  proof (rule restart_bound_step[OF Cons.prems(4) le Cons.prems(5)])
    assume "is_restart out"
    then show "length (filter (\<lambda>c. now - c < windowMs pol) (g_restarts g) @ [now]) \<le> maxRestarts pol"
      using go restart_is_crash[of out] by auto
  qed
  moreover have "\<forall>(n, out)\<in>set (tr @ [(now, out)]). \<forall>c\<in>set calls. n \<le> fst c"
    using Cons.prems(2,3) by (auto simp: c)
  ultimately have "\<forall>t. restarts_in (windowMs pol) t ((tr @ [(now, out)]) @ outs1) \<le> maxRestarts pol"
    using Cons.prems(2) by (intro Cons.IH[OF outs1(1)]) auto
  then show ?case by (simp add: outs1(2))
qed simp


definition crashing :: "ActorState ActorPort" where
  "crashing = base_actor ''a'' demo_fsm (\<lambda>_. Inl ''boom'')"

definition crash_calls :: "(int \<times> payload Envelope) list" where
  "crash_calls = map (\<lambda>t. (t, env0)) [0, 10, 20, 30, 70000]"

definition crash_start :: "ActorState guarded" where
  "crash_start = \<lparr>g_state = initial_actor demo_fsm, g_restarts = [], g_bus = new_bus 4\<rparr>"



subsection \<open>The topology and its log\<close>

text \<open>What an observer of the bus concludes from the topology messages.\<close>

fun topology_view :: "string list \<Rightarrow> payload \<Rightarrow> string list" where
  "topology_view as (Connect_payload a failed) = (if failed then as else as @ [a])"
| "topology_view as (Disconnect_payload a) = filter (\<lambda>x. x \<noteq> a) as"
| "topology_view as _ = as"

fun is_topology_payload :: "payload \<Rightarrow> bool" where
  "is_topology_payload (Connect_payload _ _) \<longleftrightarrow> True"
| "is_topology_payload (Disconnect_payload _) \<longleftrightarrow> True"
| "is_topology_payload _ \<longleftrightarrow> False"

inductive topo_reach :: "(nat \<Rightarrow> 's ActorPort) \<Rightarrow> 's Topology \<Rightarrow> bool" for port where
  start: "topo_reach port \<lparr>registry = [], objects = obs, t_bus = new_bus capacity\<rparr>"
| connect: "topo_reach port t \<Longrightarrow> topo_connect port now i g t = (res, t') \<Longrightarrow> topo_reach port t'"
| disconnect: "topo_reach port t \<Longrightarrow> topo_disconnect port now addr t = (res', t') \<Longrightarrow> topo_reach port t'"
| other: "topo_reach port t \<Longrightarrow> \<not> is_topology_payload (in_payload inp) \<Longrightarrow>
    topo_reach port (t\<lparr>t_bus := snd (publish now inp (t_bus t))\<rparr>)"

definition log_explains :: "'s Topology \<Rightarrow> payload Envelope list \<Rightarrow> bool" where
  "log_explains t xs \<longleftrightarrow> ring_log (bus_ring (t_bus t)) xs \<and>
     connected t = foldl topology_view [] (map env_payload xs) \<and> distinct (connected t)"

lemma log_explains_publish:
  assumes "log_explains t xs" "t_bus t' = snd (publish now inp (t_bus t))"
    "connected t' = topology_view (connected t) (in_payload inp)" "distinct (connected t')"
  shows "\<exists>ys. log_explains t' ys"
proof
  show "log_explains t' (xs @ [envelope (hwm (t_bus t) + 1) now inp])"
    using assms ring_log_push
    by (auto simp: log_explains_def publish_def Let_def envelope_def)
qed

lemma connected_remove: "map fst (filter (\<lambda>(a, i). a \<noteq> addr) rs) = filter (\<lambda>a. a \<noteq> addr) (map fst rs)"
  by (induction rs) auto

lemma log_explains_connect:
  assumes "log_explains t xs" "topo_connect port now i g t = (res, t')"
  shows "\<exists>ys. log_explains t' ys"
proof (cases "t' = t")
  case False
  let ?a = "ap_addr (port i)"
  have new: "?a \<notin> set (connected t)"
    using assms(2) False
    by (auto simp: topo_connect_def isConnected_def connected_def Let_def split: option.splits sum.splits bool.splits if_splits)
  have gone: "filter (\<lambda>(a, k). a \<noteq> ?a) (registry t) = registry t"
    using new by (intro filter_True) (force simp: connected_def)
  have "(t_bus t' = snd (publish now (topology_notice (Connect_payload ?a True)) (t_bus t)) \<and>
        connected t' = connected t) \<or>
      (t_bus t' = snd (publish now (topology_notice (Connect_payload ?a False)) (t_bus t)) \<and>
        connected t' = connected t @ [?a])"
    using assms(2) False new
    by (auto simp: topo_connect_def isConnected_def connected_def Let_def gone
        split: option.splits sum.splits bool.splits if_splits prod.splits)
  then obtain w where bus: "t_bus t' = snd (publish now (topology_notice (Connect_payload ?a w)) (t_bus t))"
      and reg: "connected t' = (if w then connected t else connected t @ [?a])"
    by auto
  show ?thesis
    using assms(1) new reg
    by (intro log_explains_publish[OF assms(1) bus]) (auto simp: topology_notice_def log_explains_def)
qed (use assms(1) in auto)

lemma log_explains_disconnect:
  assumes "log_explains t xs" "topo_disconnect port now addr t = (res, t')"
  shows "\<exists>ys. log_explains t' ys"
proof (cases "res = None \<and> t' \<noteq> t")
  case True
  then have bus: "t_bus t' = snd (publish now (topology_notice (Disconnect_payload addr)) (t_bus t))"
    and reg: "connected t' = filter (\<lambda>x. x \<noteq> addr) (connected t)"
    using assms(2)
    by (auto simp: topo_disconnect_def connected_def connected_remove split: option.splits prod.splits)
  show ?thesis
    using assms(1) reg
    by (intro log_explains_publish[OF assms(1) bus]) (auto simp: topology_notice_def log_explains_def)
next
  case False
  then have "registry t' = registry t \<and> t_bus t' = t_bus t"
    using assms(2) by (auto simp: topo_disconnect_def split: option.splits prod.splits)
  then show ?thesis using assms(1) by (auto simp: log_explains_def connected_def)
qed

text \<open>
  The topology is observable. However actors connect and disconnect, with hooks that fail and
  guards that refuse or throw, an address is registered at most once, and the connected addresses, in
  order, are exactly what the topology messages on the bus say: every completed connect and disconnect
  is announced, and a connect that was rolled back leaves nothing registered.
\<close>

theorem topology_log_reconstructs:
  assumes "topo_reach port t"
  shows "\<exists>xs. log_explains t xs"
  using assms
proof (induction rule: topo_reach.induct)
  case (start obs capacity)
  have "log_explains \<lparr>registry = [], objects = obs, t_bus = new_bus capacity\<rparr> []"
    by (simp add: log_explains_def connected_def new_bus_def ring_log_new)
  then show ?case by blast
next
  case (connect t now i g res t')
  then show ?case using log_explains_connect by blast
next
  case (disconnect t now addr res' t')
  then show ?case using log_explains_disconnect by blast
next
  case (other t inp now)
  then obtain xs where xs: "log_explains t xs" by blast
  have "topology_view as p = as" if "\<not> is_topology_payload p" for as p
    using that by (cases p) auto
  then show ?case
    using xs other.hyps
    by (intro log_explains_publish[OF xs, where now = now and inp = inp])
      (auto simp: connected_def log_explains_def)
qed

definition faulty_hook :: "ActorState \<Rightarrow> string option \<times> ActorState" where
  "faulty_hook s = (Some ''no setup'', s)"

definition demo_ports :: "nat \<Rightarrow> ActorState ActorPort" where
  "demo_ports i = (if i = 0 then base_actor ''a'' demo_fsm (\<lambda>_. Inr None)
     else (base_actor ''b'' demo_fsm (\<lambda>_. Inr None))\<lparr>ap_onConnect := faulty_hook\<rparr>)"

definition topo0 :: "ActorState Topology" where
  "topo0 = \<lparr>registry = [], objects = (\<lambda>_. initial_actor demo_fsm), t_bus = new_bus 8\<rparr>"

definition topo2 :: "ActorState Topology" where
  "topo2 = snd (topo_connect demo_ports 2 1 None (snd (topo_connect demo_ports 1 0 None topo0)))"

theorem topology_log_reconstructs_witness:
  "(\<exists>xs. log_explains topo2 xs) \<and> connected topo2 = [''a''] \<and>
   wedged (objects topo2 1) = Some ''no setup'' \<and> hwm (t_bus topo2) = 2"
proof -
  have "topo_reach demo_ports topo2"
    unfolding topo2_def topo0_def
    by (rule topo_reach.connect[OF topo_reach.connect[OF topo_reach.start]]) (simp_all add: prod_eq_iff)
  then have "\<exists>xs. log_explains topo2 xs" by (rule topology_log_reconstructs)
  then show ?thesis
    by (simp add: topo2_def topo0_def topo_connect_def demo_ports_def base_actor_def no_hook_def faulty_hook_def
        isConnected_def connected_def base_toWedge_def publish_def new_bus_def Let_def)
qed

end
