(* ===== verification/Floors.thy ===== *)
theory Floors
  imports Actors
begin

text \<open>
  The floors every pack runs under: the progress floor and its persistence
  (\<open>src/src/runtime/guard/progress_floor.ts\<close>, \<open>floor_state.ts\<close>, \<open>floor_hook.ts\<close>), the resource floor
  (\<open>resource_floor.ts\<close>), the completion connector (\<open>connector.ts\<close>), and the safety floor with its policy
  (\<open>safety_floor.ts\<close>, \<open>safety_policy.ts\<close>, the tool aliases of \<open>integrations/pi/tool_aliases.ts\<close>).

  The counters are maps from text to numbers. A persisted snapshot is the JSON object of the source;
  what \<open>JSON.stringify\<close> makes of the arguments of a call is part of the call, and their digest is an
  argument of the hook.
\<close>

section \<open>The progress floor\<close>

record ToolObservation =
  o_tool :: string
  o_argsHash :: string
  o_failed :: bool
  o_idempotentSameResult :: bool

definition EXACT_WARN :: nat where "EXACT_WARN = 2"
definition EXACT_BLOCK :: nat where "EXACT_BLOCK = 5"
definition SAME_TOOL_WARN :: nat where "SAME_TOOL_WARN = 3"
definition SAME_TOOL_HALT :: nat where "SAME_TOOL_HALT = 8"
definition NO_PROGRESS_WARN :: nat where "NO_PROGRESS_WARN = 2"
definition NO_PROGRESS_BLOCK :: nat where "NO_PROGRESS_BLOCK = 5"

lemmas thresholds = EXACT_WARN_def EXACT_BLOCK_def SAME_TOOL_WARN_def SAME_TOOL_HALT_def
  NO_PROGRESS_WARN_def NO_PROGRESS_BLOCK_def

record FloorCounters =
  exact :: "nat obj"
  sameTool :: "nat obj"
  noProgress :: "nat obj"

definition counter :: "nat obj \<Rightarrow> string \<Rightarrow> nat" where
  "counter m k = (case map_of m k of Some n \<Rightarrow> n | None \<Rightarrow> 0)"

definition inc :: "nat obj \<Rightarrow> string \<Rightarrow> nat obj" where
  "inc m k = AList.update k (counter m k + 1) m"

definition no_counters :: FloorCounters where
  "no_counters = \<lparr>exact = [], sameTool = [], noProgress = []\<rparr>"

definition floor_observe :: "ToolObservation \<Rightarrow> FloorCounters \<Rightarrow> Action \<times> FloorCounters" where
  "floor_observe call c =
     (if o_failed call
      then let ex = inc (exact c) (o_argsHash call);
               np = AList.delete (o_argsHash call) (noProgress c);
               st = inc (sameTool c) (o_tool call);
               exactN = counter ex (o_argsHash call);
               sameN = counter st (o_tool call)
           in (if SAME_TOOL_HALT \<le> sameN then halt
               else if EXACT_BLOCK \<le> exactN then block
               else if EXACT_WARN \<le> exactN \<or> SAME_TOOL_WARN \<le> sameN then warn
               else pass,
               \<lparr>exact = ex, sameTool = st, noProgress = np\<rparr>)
      else if o_idempotentSameResult call
      then let np = inc (noProgress c) (o_argsHash call); k = counter np (o_argsHash call)
           in (if NO_PROGRESS_BLOCK \<le> k then block else if NO_PROGRESS_WARN \<le> k then warn else pass,
               c\<lparr>noProgress := np\<rparr>)
      else (pass, c))"

definition max_count :: "nat obj \<Rightarrow> nat" where
  "max_count m = foldr max (map snd m) 0"

definition floor_counts :: "FloorCounters \<Rightarrow> nat \<times> nat \<times> nat" where
  "floor_counts c = (max_count (exact c), max_count (sameTool c), max_count (noProgress c))"

subsection \<open>Across processes\<close>

text \<open>The persisted file of a session: absent, unreadable, or an object whose fields may be missing.\<close>

datatype floor_file = Absent | Corrupt
  | FloorJson "nat obj option" "nat obj option" "nat obj option"

definition field :: "nat obj option \<Rightarrow> nat obj" where
  "field v = (case v of Some m \<Rightarrow> m | None \<Rightarrow> [])"

fun loadFloorState :: "floor_file \<Rightarrow> FloorCounters" where
  "loadFloorState (FloorJson e s n) = \<lparr>exact = field e, sameTool = field s, noProgress = field n\<rparr>"
| "loadFloorState _ = no_counters"

definition saveFloorState :: "FloorCounters \<Rightarrow> floor_file" where
  "saveFloorState c = FloorJson (Some (exact c)) (Some (sameTool c)) (Some (noProgress c))"

definition observation :: "(string \<Rightarrow> string) \<Rightarrow> string \<Rightarrow> string \<Rightarrow> int \<Rightarrow> ToolObservation" where
  "observation digest tool argsJson code = \<lparr>o_tool = tool, o_argsHash = take 16 (digest argsJson),
     o_failed = (code \<noteq> 0), o_idempotentSameResult = False\<rparr>"

text \<open>One hook process: load, observe, save. The write can fail, and then the file stays.\<close>

definition observeCall ::
  "(string \<Rightarrow> string) \<Rightarrow> bool \<Rightarrow> string \<Rightarrow> string \<Rightarrow> int \<Rightarrow> floor_file \<Rightarrow> Action option \<times> floor_file" where
  "observeCall digest writable tool argsJson code f =
     (case floor_observe (observation digest tool argsJson code) (loadFloorState f) of
        (a, c) \<Rightarrow> if writable then (Some a, saveFloorState c) else (None, f))"

section \<open>The resource floor and the connector\<close>

record ResourceConfig =
  rc_cap :: int
  rc_warnOffset :: int

definition DEFAULT_WARN_OFFSET :: int where
  "DEFAULT_WARN_OFFSET = 1"

definition resource_observe :: "ResourceConfig \<Rightarrow> nat \<Rightarrow> Action \<times> nat" where
  "resource_observe cfg seen =
     (let n = seen + 1
      in (if rc_cap cfg \<le> int n then halt
          else if rc_cap cfg - rc_warnOffset cfg \<le> int n then warn else pass, n))"

datatype LoopVerdict = Continue | Release | Break string

definition evaluateCompletion :: "bool \<Rightarrow> Action \<Rightarrow> LoopVerdict" where
  "evaluateCompletion completionGuardHeld floorAction =
     (if floorAction = halt then Break ''progress-floor-degenerate''
      else if completionGuardHeld then Release else Continue)"

section \<open>The safety floor\<close>

datatype tier = hardline | dangerous
datatype refinement = pipe_to_shell | delete_verb

record SafetyRule =
  r_id :: "string option"
  r_tool :: "string option"
  r_argPattern :: string
  r_tier :: tier
  r_message :: string
  r_match :: "refinement option"

record AllowRule =
  a_tool :: "string option"
  a_argPattern :: string

record SafetyPolicy =
  forbid :: "SafetyRule list"
  allow :: "AllowRule list"

record SafetyResult =
  s_action :: Action
  s_message :: "string option"
  s_ruleId :: "string option"

record SafetyCall =
  c_tool :: string
  c_command :: "string option"
  c_file_path :: "string option"
  c_json :: string

definition uniqueAliases :: "string \<Rightarrow> string list" where
  "uniqueAliases tool = (if tool = ''MultiEdit'' then [''MultiEdit'', ''Edit''] else [tool])"

definition toolMatches :: "string \<Rightarrow> string \<Rightarrow> bool" where
  "toolMatches actual expected \<longleftrightarrow> expected \<in> set (uniqueAliases actual)"

text \<open>The file editors: \<open>/^(Write|Edit|NotebookEdit)$/\<close> on some alias of the tool.\<close>

definition is_file_editor :: "string \<Rightarrow> bool" where
  "is_file_editor tool \<longleftrightarrow>
     list_ex (\<lambda>n. n \<in> set [''Write'', ''Edit'', ''NotebookEdit'']) (uniqueAliases tool)"

definition str_or_empty :: "string option \<Rightarrow> string" where
  "str_or_empty v = (case v of Some x \<Rightarrow> x | None \<Rightarrow> [])"

definition text_or_json :: "string option \<Rightarrow> SafetyCall \<Rightarrow> string" where
  "text_or_json v call = (if str_or_empty v \<noteq> [] then str_or_empty v else c_json call)"

definition actionText :: "SafetyCall \<Rightarrow> string" where
  "actionText call =
     (if c_tool call = ''Bash'' then c_tool call @ '' '' @ text_or_json (c_command call) call
      else if is_file_editor (c_tool call) then c_tool call @ '' '' @ str_or_empty (c_file_path call)
      else if c_tool call = ''Read'' then c_tool call @ '' '' @ text_or_json (c_file_path call) call
      else c_tool call @ '' '' @ c_json call)"

subsection \<open>The regular expressions of the refinements\<close>

definition is_word :: "char \<Rightarrow> bool" where
  "is_word c \<longleftrightarrow> (let n = of_char c :: nat
     in (48 \<le> n \<and> n \<le> 57) \<or> (65 \<le> n \<and> n \<le> 90) \<or> n = 95 \<or> (97 \<le> n \<and> n \<le> 122))"

definition word_ends :: "string \<Rightarrow> bool" where
  "word_ends rest \<longleftrightarrow> (case rest of [] \<Rightarrow> True | c # _ \<Rightarrow> \<not> is_word c)"

text \<open>All suffixes of a text, each with the character before it.\<close>

fun positions :: "char option \<Rightarrow> string \<Rightarrow> (char option \<times> string) list" where
  "positions p [] = [(p, [])]"
| "positions p (c # cs) = (p, c # cs) # positions (Some c) cs"

definition word_starts :: "char option \<Rightarrow> bool" where
  "word_starts p \<longleftrightarrow> (case p of None \<Rightarrow> True | Some c \<Rightarrow> \<not> is_word c)"

definition word_at :: "string list \<Rightarrow> string \<Rightarrow> bool" where
  "word_at ws s \<longleftrightarrow> list_ex (\<lambda>w. starts_with s w \<and> word_ends (drop (length w) s)) ws"

text \<open>\<open>/\|\s*(sh|bash)\b/\<close>\<close>

definition pipes_to_shell :: "string \<Rightarrow> bool" where
  "pipes_to_shell hay \<longleftrightarrow> list_ex (\<lambda>(p, s). starts_with s ''|'' \<and>
     word_at [''sh'', ''bash''] (dropWhile is_space (drop 1 s))) (positions None hay)"

text \<open>\<open>/\b(rm|unlink|shred|truncate)\b/\<close>\<close>

definition has_delete_verb :: "string \<Rightarrow> bool" where
  "has_delete_verb hay \<longleftrightarrow> list_ex (\<lambda>(p, s). word_starts p \<and>
     word_at [''rm'', ''unlink'', ''shred'', ''truncate''] s) (positions None hay)"

text \<open>\<open>/>>?\s*[^\s|;&<>]*\.opensquid/\<close>: after a redirect and white space, a run of target characters
  that contains \<open>.opensquid\<close> (the optional second redirect character only lets the match start one
  character earlier).\<close>

definition target_char :: "char \<Rightarrow> bool" where
  "target_char c \<longleftrightarrow> \<not> is_space c \<and> c \<notin> set ''|;&<>''"

definition redirects_to_substrate :: "string \<Rightarrow> bool" where
  "redirects_to_substrate hay \<longleftrightarrow> list_ex (\<lambda>(p, s). starts_with s ''>'' \<and>
     str_includes (takeWhile target_char (dropWhile is_space (drop 1 s))) ''.opensquid'') (positions None hay)"

definition refinement_holds :: "refinement option \<Rightarrow> string \<Rightarrow> bool" where
  "refinement_holds m hay =
     (case m of
        None \<Rightarrow> True
      | Some pipe_to_shell \<Rightarrow> pipes_to_shell hay
      | Some delete_verb \<Rightarrow> has_delete_verb hay \<or> redirects_to_substrate hay)"

definition tool_ok :: "SafetyCall \<Rightarrow> string option \<Rightarrow> bool" where
  "tool_ok call t = (case t of None \<Rightarrow> True | Some x \<Rightarrow> toolMatches (c_tool call) x)"

definition allow_matches :: "SafetyCall \<Rightarrow> AllowRule \<Rightarrow> bool" where
  "allow_matches call a \<longleftrightarrow> tool_ok call (a_tool a) \<and> str_includes (actionText call) (a_argPattern a)"

definition rule_matches :: "SafetyCall \<Rightarrow> SafetyRule \<Rightarrow> bool" where
  "rule_matches call r \<longleftrightarrow> tool_ok call (r_tool r) \<and> str_includes (actionText call) (r_argPattern r) \<and>
     refinement_holds (r_match r) (actionText call)"

definition deny :: "bool \<Rightarrow> SafetyRule \<Rightarrow> SafetyResult" where
  "deny dangerousToWarn r =
     \<lparr>s_action = (if r_tier r = hardline then halt else if dangerousToWarn then warn else block),
      s_message = Some (r_message r),
      s_ruleId = Some (case r_id r of Some i \<Rightarrow> i | None \<Rightarrow> r_argPattern r)\<rparr>"

definition checkSafety :: "SafetyCall \<Rightarrow> SafetyPolicy \<Rightarrow> bool \<Rightarrow> SafetyResult" where
  "checkSafety call policy dangerousToWarn =
     (if list_ex (allow_matches call) (allow policy)
      then \<lparr>s_action = pass, s_message = None, s_ruleId = None\<rparr>
      else case List.find (rule_matches call) (forbid policy) of
        None \<Rightarrow> \<lparr>s_action = pass, s_message = None, s_ruleId = None\<rparr>
      | Some r \<Rightarrow> deny dangerousToWarn r)"

definition safety_rule :: "string \<Rightarrow> string \<Rightarrow> string \<Rightarrow> tier \<Rightarrow> refinement option \<Rightarrow> string \<Rightarrow> SafetyRule" where
  "safety_rule i tool pat t m msg = \<lparr>r_id = Some i, r_tool = Some tool, r_argPattern = pat, r_tier = t,
     r_message = msg, r_match = m\<rparr>"

definition DEFAULT_SAFETY_POLICY :: SafetyPolicy where
  "DEFAULT_SAFETY_POLICY = \<lparr>
     forbid = [
       safety_rule ''rm-rf-root'' ''Bash'' ''rm -rf /'' hardline None ''recursive root delete is forbidden'',
       safety_rule ''rm-rf-home'' ''Bash'' ''rm -rf ~'' hardline None ''recursive home delete is forbidden'',
       safety_rule ''substrate-env-write'' ''Write'' ''.opensquid/.env'' hardline None
         ''writing the opensquid secret store (.env) is forbidden'',
       safety_rule ''substrate-env-edit'' ''Edit'' ''.opensquid/.env'' hardline None
         ''editing the opensquid secret store (.env) is forbidden'',
       safety_rule ''substrate-env-exfil'' ''Bash'' ''.opensquid/.env'' hardline None
         ''exfiltrating the opensquid secret store via a shell is forbidden'',
       safety_rule ''substrate-delete'' ''Bash'' ''.opensquid/'' hardline (Some delete_verb)
         ''deleting opensquid substrate state is forbidden'',
       safety_rule ''substrate-write'' ''Write'' ''/.opensquid/'' dangerous None ''writing opensquid substrate state'',
       safety_rule ''substrate-edit'' ''Edit'' ''/.opensquid/'' dangerous None ''editing opensquid substrate state'',
       safety_rule ''chmod-777'' ''Bash'' ''chmod 777'' dangerous None ''world-writable chmod is dangerous'',
       safety_rule ''pipe-to-shell'' ''Bash'' ''curl'' dangerous (Some pipe_to_shell)
         ''piping a remote script to a shell is dangerous''],
     allow = [\<lparr>a_tool = Some ''Write'', a_argPattern = ''/.opensquid/context.md''\<rparr>,
       \<lparr>a_tool = Some ''Edit'', a_argPattern = ''/.opensquid/context.md''\<rparr>]\<rparr>"

text \<open>The policy file, when it is present and parses, replaces the default.\<close>

definition loadSafetyPolicy :: "SafetyPolicy option \<Rightarrow> SafetyPolicy" where
  "loadSafetyPolicy file = (case file of Some p \<Rightarrow> p | None \<Rightarrow> DEFAULT_SAFETY_POLICY)"


section \<open>The progress floor counts the history\<close>

definition floor_run :: "ToolObservation list \<Rightarrow> FloorCounters" where
  "floor_run cs = foldl (\<lambda>s c. snd (floor_observe c s)) no_counters cs"

text \<open>What the counters stand for: the failures with the same arguments, the failures of the tool, and
  the repeated results since the last failure with the same arguments.\<close>

definition failures_of_args :: "ToolObservation list \<Rightarrow> string \<Rightarrow> nat" where
  "failures_of_args cs h = length (filter (\<lambda>c. o_failed c \<and> o_argsHash c = h) cs)"

definition failures_of_tool :: "ToolObservation list \<Rightarrow> string \<Rightarrow> nat" where
  "failures_of_tool cs t = length (filter (\<lambda>c. o_failed c \<and> o_tool c = t) cs)"

definition repeats_of_args :: "ToolObservation list \<Rightarrow> string \<Rightarrow> nat" where
  "repeats_of_args cs h = foldl (\<lambda>n c. if o_argsHash c \<noteq> h then n else if o_failed c then 0
     else if o_idempotentSameResult c then n + 1 else n) 0 cs"

definition floor_spec :: "ToolObservation list \<Rightarrow> Action" where
  "floor_spec cs = (let c = last cs; h = o_argsHash c in
     if o_failed c
     then (if 8 \<le> failures_of_tool cs (o_tool c) then halt
           else if 5 \<le> failures_of_args cs h then block
           else if 2 \<le> failures_of_args cs h \<or> 3 \<le> failures_of_tool cs (o_tool c) then warn else pass)
     else if o_idempotentSameResult c
     then (if 5 \<le> repeats_of_args cs h then block else if 2 \<le> repeats_of_args cs h then warn else pass)
     else pass)"

lemma counter_inc: "counter (inc m k) j = (if j = k then counter m k + 1 else counter m j)"
  by (simp add: counter_def inc_def update_conv)

lemma counter_delete: "counter (AList.delete k m) j = (if j = k then 0 else counter m j)"
  by (simp add: counter_def delete_conv)

lemma floor_run_snoc: "floor_run (cs @ [c]) = snd (floor_observe c (floor_run cs))"
  by (simp add: floor_run_def)

lemma counters_are_counts:
  "counter (exact (floor_run cs)) h = failures_of_args cs h \<and>
   counter (sameTool (floor_run cs)) t = failures_of_tool cs t \<and>
   counter (noProgress (floor_run cs)) h = repeats_of_args cs h"
proof (induction cs rule: rev_induct)
  case Nil
  show ?case
    by (simp add: floor_run_def no_counters_def counter_def failures_of_args_def failures_of_tool_def
        repeats_of_args_def)
next
  case (snoc c cs)
  then show ?case
    by (auto simp: floor_run_snoc floor_observe_def Let_def counter_inc counter_delete
        failures_of_args_def failures_of_tool_def repeats_of_args_def)
qed

lemma floor_observe_spec: "fst (floor_observe c (floor_run cs)) = floor_spec (cs @ [c])"
  using counters_are_counts[of cs "o_argsHash c" "o_tool c"]
  by (simp add: floor_observe_def floor_spec_def Let_def counter_inc thresholds
      failures_of_args_def failures_of_tool_def repeats_of_args_def)

lemma load_save: "loadFloorState (saveFloorState c) = c"
  by (simp add: saveFloorState_def field_def)

definition hook_run :: "(string \<Rightarrow> string) \<Rightarrow> (string \<times> string \<times> int) list \<Rightarrow> floor_file" where
  "hook_run digest calls =
     foldl (\<lambda>f (tool, args, code). snd (observeCall digest True tool args code f)) Absent calls"

definition observe_all :: "(string \<Rightarrow> string) \<Rightarrow> (string \<times> string \<times> int) list \<Rightarrow> ToolObservation list" where
  "observe_all digest calls = map (\<lambda>(tool, args, code). observation digest tool args code) calls"

lemma hook_run_counters: "loadFloorState (hook_run digest calls) = floor_run (observe_all digest calls)"
proof (induction calls rule: rev_induct)
  case Nil
  show ?case by (simp add: hook_run_def observe_all_def floor_run_def)
next
  case (snoc c calls)
  obtain tool args code where c: "c = (tool, args, code)" by (metis prod_cases3)
  have "hook_run digest (calls @ [c]) = snd (observeCall digest True tool args code (hook_run digest calls))"
    by (simp add: hook_run_def c)
  moreover have "observe_all digest (calls @ [c]) = observe_all digest calls @ [observation digest tool args code]"
    by (simp add: observe_all_def c)
  ultimately show ?case
    using snoc by (simp add: observeCall_def floor_run_snoc load_save split_beta)
qed


text \<open>
  The exact-failure counter ignores the tool. Two different tools that fail once each with the
  same arguments already count as a repeated identical call, and after five such failures, no two of
  the same tool, the floor blocks.
\<close>

theorem exact_failure_ignores_tool:
  "floor_spec (map (\<lambda>t. \<lparr>o_tool = t, o_argsHash = h, o_failed = True, o_idempotentSameResult = False\<rparr>)
     [''A'', ''B'']) = warn \<and>
   fst (floor_observe \<lparr>o_tool = ''E'', o_argsHash = h, o_failed = True, o_idempotentSameResult = False\<rparr>
     (floor_run (map (\<lambda>t. \<lparr>o_tool = t, o_argsHash = h, o_failed = True, o_idempotentSameResult = False\<rparr>)
       [''A'', ''B'', ''C'', ''D'']))) = block"
  by (simp add: floor_observe_spec floor_spec_def Let_def failures_of_args_def failures_of_tool_def)

section \<open>The safety floor\<close>

definition hardline_first :: "SafetyPolicy \<Rightarrow> bool" where
  "hardline_first p \<longleftrightarrow> list_all (\<lambda>r. r_tier r = dangerous) (dropWhile (\<lambda>r. r_tier r = hardline) (forbid p))"

lemma find_in_prefix:
  "x \<in> set (takeWhile Q xs) \<Longrightarrow> P x \<Longrightarrow> \<exists>y. List.find P xs = Some y \<and> Q y"
  by (induction xs) (auto split: if_splits)

lemma hardline_in_prefix:
  assumes "hardline_first p" "r \<in> set (forbid p)" "r_tier r = hardline"
  shows "r \<in> set (takeWhile (\<lambda>r. r_tier r = hardline) (forbid p))" (is "r \<in> set (takeWhile ?Q ?f)")
proof -
  have "r \<in> set (takeWhile ?Q ?f) \<or> r \<in> set (dropWhile ?Q ?f)"
    using assms(2) unfolding set_append[symmetric] by (metis Un_iff set_append takeWhile_dropWhile_id)
  moreover have "r \<notin> set (dropWhile ?Q ?f)"
    using assms(1,3) unfolding hardline_first_def list_all_iff by (metis tier.distinct(1))
  ultimately show ?thesis by blast
qed

text \<open>
  A hardline rule holds whatever the options, in a policy that lists its hardline rules first (as
  the default policy does): a call that matches one and no allow rule is halted, with yolo on or off;
  and under any policy the option changes nothing but turning a block into a warning.
\<close>

theorem hardline_rules_hold:
  assumes "hardline_first p" "r \<in> set (forbid p)" "r_tier r = hardline" "rule_matches call r"
    "\<not> list_ex (allow_matches call) (allow p)"
  shows "s_action (checkSafety call p yolo) = halt \<and>
    s_action (checkSafety call' p' True) =
      (if s_action (checkSafety call' p' False) = block then warn else s_action (checkSafety call' p' False))"
proof -
  obtain y where "List.find (rule_matches call) (forbid p) = Some y" "r_tier y = hardline"
    using find_in_prefix[OF hardline_in_prefix[OF assms(1-3)], of "rule_matches call"] assms(4) by blast
  then show ?thesis using assms(5) by (auto simp: checkSafety_def deny_def split: option.splits)
qed

definition bash :: "string \<Rightarrow> SafetyCall" where
  "bash cmd = \<lparr>c_tool = ''Bash'', c_command = Some cmd, c_file_path = None, c_json = ''{}''\<rparr>"

theorem hardline_rules_hold_witness:
  "s_action (checkSafety (bash ''sudo rm -rf /'') DEFAULT_SAFETY_POLICY True) = halt"
proof -
  have h: "hardline_first DEFAULT_SAFETY_POLICY"
    by (simp add: hardline_first_def DEFAULT_SAFETY_POLICY_def safety_rule_def)
  have m: "rule_matches (bash ''sudo rm -rf /'')
      (safety_rule ''rm-rf-root'' ''Bash'' ''rm -rf /'' hardline None ''recursive root delete is forbidden'')"
    by (simp add: rule_matches_def tool_ok_def toolMatches_def uniqueAliases_def actionText_def text_or_json_def
        str_or_empty_def refinement_holds_def safety_rule_def bash_def starts_with_def)
  let ?r = "safety_rule ''rm-rf-root'' ''Bash'' ''rm -rf /'' hardline None ''recursive root delete is forbidden''"
  have mem: "?r \<in> set (forbid DEFAULT_SAFETY_POLICY)" by (simp add: DEFAULT_SAFETY_POLICY_def)
  have tier: "r_tier ?r = hardline" by (simp add: safety_rule_def)
  have free: "\<not> list_ex (allow_matches (bash ''sudo rm -rf /'')) (allow DEFAULT_SAFETY_POLICY)"
    by (simp add: DEFAULT_SAFETY_POLICY_def allow_matches_def tool_ok_def toolMatches_def uniqueAliases_def bash_def)
  show ?thesis using hardline_rules_hold[OF h mem tier m free] by blast
qed

definition shadowing_policy :: SafetyPolicy where
  "shadowing_policy = \<lparr>forbid = [safety_rule ''rm'' ''Bash'' ''rm '' dangerous None ''rm'',
     safety_rule ''rm-rf-root'' ''Bash'' ''rm -rf /'' hardline None ''recursive root delete is forbidden''],
     allow = []\<rparr>"

text \<open>
  The guarantee is a matter of configuration. The first matching rule decides, so a policy that
  lists a dangerous rule before a hardline one turns the hardline halt into a block, and into a mere
  warning under yolo; and the default policy sees a substrate secret only under its literal path: the
  same file named through \<open>/./\<close> is only warned about.
\<close>

theorem hardline_can_be_shadowed:
  "s_action (checkSafety (bash ''rm -rf /'') shadowing_policy True) = warn \<and>
   s_action (checkSafety \<lparr>c_tool = ''Write'', c_command = None, c_file_path = Some ''/h/.opensquid/.env'',
     c_json = ''{}''\<rparr> DEFAULT_SAFETY_POLICY True) = halt \<and>
   s_action (checkSafety \<lparr>c_tool = ''Write'', c_command = None, c_file_path = Some ''/h/.opensquid/./.env'',
     c_json = ''{}''\<rparr> DEFAULT_SAFETY_POLICY True) = warn"
proof -
  have "s_action (checkSafety (bash ''rm -rf /'') shadowing_policy True) = warn" by code_simp
  moreover have "s_action (checkSafety \<lparr>c_tool = ''Write'', c_command = None, c_file_path = Some ''/h/.opensquid/.env'',
     c_json = ''{}''\<rparr> DEFAULT_SAFETY_POLICY True) = halt" by code_simp
  moreover have "s_action (checkSafety \<lparr>c_tool = ''Write'', c_command = None, c_file_path = Some ''/h/.opensquid/./.env'',
     c_json = ''{}''\<rparr> DEFAULT_SAFETY_POLICY True) = warn" by code_simp
  ultimately show ?thesis by simp
qed

end
