(* ===== verification/PackV2.thy ===== *)
theory PackV2
  imports WorkGraph Actors
begin

text \<open>
  Packs: the schema of a flowchart pack (\<open>src/src/packs/schemas/pack_v2.ts\<close>) and its compiler
  (\<open>src/src/packs/compile_v2.ts\<close>).

  A parsed pack is a record; the maps of states, flows and guards are association lists in key order.
  \<open>PackV2_schema\<close> collects what the schema demands of those fields beyond their types: non-empty
  texts, total decisions, and the issues of \<open>superRefine\<close>. Fields that the compiler and the drivers do
  not read (\<open>detected_by\<close>, \<open>discipline\<close>, \<open>audits\<close>, \<open>commit_gate\<close>, \<open>versioning\<close>, \<open>foundation\<close>) are left
  out, and \<open>serves\<close> is an opaque JSON value, because only its presence counts here.
\<close>

section \<open>The schema\<close>

datatype StateKind = executor | gate | decision | sub_flow | terminal

datatype EvidenceRef = EvidenceKey string | EvidenceObj string "string option" "bool option"

record OnFail =
  of_action :: Action
  of_message :: string

record ExecutorDecl =
  ex_executor :: "string option"
  ex_skills :: "string list"
  ex_directive :: string
  ex_completion :: string
  ex_emits :: string

record GateDecl =
  ga_guard :: string
  ga_trigger :: "string list option"
  ga_on_pass_emits :: string
  ga_on_fail :: OnFail
  ga_writes :: "string list option"
  ga_report :: "string option"
  ga_summary :: "bool option"
  ga_report_phases :: "bool option"
  ga_goal_alignment :: "bool option"
  ga_reads :: "EvidenceRef list option"
  ga_does :: "string option"
  ga_phases :: "string list option"

datatype DecisionBranch = GuardedBranch string string | ElseBranch string

datatype FinalOutcome = shipped | wedge

datatype StateV2 =
    ExecutorState ExecutorDecl
  | GateState GateDecl
  | DecisionState "DecisionBranch list"
  | SubFlowState string string
  | TerminalState FinalOutcome

record FsmV2 =
  fv_initial :: string
  fv_states :: "StateV2 obj"
  fv_transitions :: "Transition list"

datatype PackScope = universal | domain | specialty | workflow | project
datatype Activation = always_on | on_demand | project_scoped

datatype TransitionReaction = freeze_captured_ask | reset_captured_ask | reconcile_decomposition
  | ensure_acceptance | reset_verification_loop

record Reactions =
  on_enter :: "TransitionReaction list obj option"
  on_leave :: "TransitionReaction list obj option"

record Automation =
  au_entry :: string
  au_stages :: "string list"

record PackV2 =
  pk_name :: string
  pk_version :: string
  pk_scope :: PackScope
  pk_activation :: Activation
  pk_serves :: "json option"
  pk_fsm :: "FsmV2 option"
  pk_automation :: "Automation option"
  pk_reactions :: "Reactions option"
  pk_flows :: "FsmV2 obj option"
  pk_guards :: "string obj"
  pk_messages :: "string obj"

definition opt_all :: "('a \<Rightarrow> bool) \<Rightarrow> 'a option \<Rightarrow> bool" where
  "opt_all P v \<longleftrightarrow> (case v of None \<Rightarrow> True | Some x \<Rightarrow> P x)"

definition opt_ex :: "('a \<Rightarrow> bool) \<Rightarrow> 'a option \<Rightarrow> bool" where
  "opt_ex P v \<longleftrightarrow> (case v of None \<Rightarrow> False | Some x \<Rightarrow> P x)"

definition nonempty :: "string \<Rightarrow> bool" where
  "nonempty s \<longleftrightarrow> s \<noteq> []"

definition some_nonempty :: "string list \<Rightarrow> bool" where
  "some_nonempty xs \<longleftrightarrow> xs \<noteq> [] \<and> list_all nonempty xs"

fun EvidenceRef_schema :: "EvidenceRef \<Rightarrow> bool" where
  "EvidenceRef_schema (EvidenceKey k) \<longleftrightarrow> k \<noteq> []"
| "EvidenceRef_schema (EvidenceObj k l e) \<longleftrightarrow> k \<noteq> [] \<and> l \<noteq> Some []"

fun is_else :: "DecisionBranch \<Rightarrow> bool" where
  "is_else (ElseBranch e) \<longleftrightarrow> True"
| "is_else (GuardedBranch g e) \<longleftrightarrow> False"

fun branch_emits :: "DecisionBranch \<Rightarrow> string" where
  "branch_emits (ElseBranch e) = e"
| "branch_emits (GuardedBranch g e) = e"

fun DecisionBranch_schema :: "DecisionBranch \<Rightarrow> bool" where
  "DecisionBranch_schema (GuardedBranch g e) \<longleftrightarrow> g \<noteq> [] \<and> e \<noteq> []"
| "DecisionBranch_schema (ElseBranch e) \<longleftrightarrow> e \<noteq> []"

text \<open>A decision ends with exactly one \<open>else\<close> branch.\<close>

definition decision_total :: "DecisionBranch list \<Rightarrow> bool" where
  "decision_total bs \<longleftrightarrow> length (filter is_else bs) = 1 \<and> bs \<noteq> [] \<and> is_else (last bs)"

definition GateState_schema :: "GateDecl \<Rightarrow> bool" where
  "GateState_schema g \<longleftrightarrow> ga_guard g \<noteq> [] \<and> opt_all some_nonempty (ga_trigger g) \<and>
     ga_on_pass_emits g \<noteq> [] \<and> of_action (ga_on_fail g) \<noteq> pass \<and> of_message (ga_on_fail g) \<noteq> [] \<and>
     opt_all (list_all nonempty) (ga_writes g) \<and> ga_report g \<noteq> Some [] \<and>
     opt_all (list_all EvidenceRef_schema) (ga_reads g) \<and> ga_does g \<noteq> Some [] \<and>
     opt_all some_nonempty (ga_phases g)"

fun StateV2_schema :: "StateV2 \<Rightarrow> bool" where
  "StateV2_schema (ExecutorState x) \<longleftrightarrow> ex_executor x \<noteq> Some [] \<and> ex_directive x \<noteq> [] \<and>
     ex_completion x \<noteq> [] \<and> ex_emits x \<noteq> []"
| "StateV2_schema (GateState g) \<longleftrightarrow> GateState_schema g"
| "StateV2_schema (DecisionState bs) \<longleftrightarrow> bs \<noteq> [] \<and> list_all DecisionBranch_schema bs \<and> decision_total bs"
| "StateV2_schema (SubFlowState f e) \<longleftrightarrow> f \<noteq> [] \<and> e \<noteq> []"
| "StateV2_schema (TerminalState out) \<longleftrightarrow> True"

definition FsmV2_schema :: "FsmV2 \<Rightarrow> bool" where
  "FsmV2_schema f \<longleftrightarrow> fv_initial f \<noteq> [] \<and> distinct (keys (fv_states f)) \<and>
     list_all (StateV2_schema \<circ> snd) (fv_states f) \<and> list_all Transition_schema (fv_transitions f)"

datatype pack_issue = EntryNotGate | ReactionsNeedFsm | ReactionNotState string string
  | AutomationNeedsFsm | StagesNotUnique | EntryNotStage | StageNotState nat string
  | StageTerminal nat string

definition is_gate :: "StateV2 option \<Rightarrow> bool" where
  "is_gate st \<longleftrightarrow> (case st of Some (GateState g) \<Rightarrow> True | _ \<Rightarrow> False)"

definition reaction_issues :: "FsmV2 \<Rightarrow> string \<Rightarrow> TransitionReaction list obj option \<Rightarrow> pack_issue list" where
  "reaction_issues f edge bindings =
     (case bindings of None \<Rightarrow> []
      | Some b \<Rightarrow> map (ReactionNotState edge) (filter (\<lambda>k. map_of (fv_states f) k = None) (keys b)))"

definition stage_issues :: "FsmV2 \<Rightarrow> nat \<times> string \<Rightarrow> pack_issue list" where
  "stage_issues f = (\<lambda>(i, st). case map_of (fv_states f) st of
       None \<Rightarrow> [StageNotState i st]
     | Some (TerminalState out) \<Rightarrow> [StageTerminal i st]
     | Some _ \<Rightarrow> [])"

definition automation_issues :: "FsmV2 option \<Rightarrow> Automation \<Rightarrow> pack_issue list" where
  "automation_issues fsm a =
     (case fsm of
        None \<Rightarrow> [AutomationNeedsFsm]
      | Some f \<Rightarrow>
          (if distinct (au_stages a) then [] else [StagesNotUnique]) @
          (if au_entry a \<in> set (au_stages a) then [] else [EntryNotStage]) @
          concat (map (stage_issues f) (List.enumerate 0 (au_stages a))))"

definition superRefine :: "PackV2 \<Rightarrow> pack_issue list" where
  "superRefine p =
     (case pk_fsm p of
        Some f \<Rightarrow> if pk_serves p \<noteq> None \<and> \<not> is_gate (map_of (fv_states f) (fv_initial f))
                  then [EntryNotGate] else []
      | None \<Rightarrow> []) @
     (case pk_reactions p of
        None \<Rightarrow> []
      | Some r \<Rightarrow> (case pk_fsm p of
          None \<Rightarrow> [ReactionsNeedFsm]
        | Some f \<Rightarrow> reaction_issues f ''on_enter'' (on_enter r) @ reaction_issues f ''on_leave'' (on_leave r))) @
     (case pk_automation p of
        None \<Rightarrow> []
      | Some a \<Rightarrow> automation_issues (pk_fsm p) a)"

definition Automation_schema :: "Automation \<Rightarrow> bool" where
  "Automation_schema a \<longleftrightarrow> au_entry a \<noteq> [] \<and> some_nonempty (au_stages a)"

definition Reactions_schema :: "Reactions \<Rightarrow> bool" where
  "Reactions_schema r \<longleftrightarrow> opt_all (list_all (\<lambda>b. snd b \<noteq> [])) (on_enter r) \<and>
     opt_all (list_all (\<lambda>b. snd b \<noteq> [])) (on_leave r)"

definition PackV2_schema :: "PackV2 \<Rightarrow> bool" where
  "PackV2_schema p \<longleftrightarrow> pk_name p \<noteq> [] \<and> pk_version p \<noteq> [] \<and> opt_all FsmV2_schema (pk_fsm p) \<and>
     opt_all Automation_schema (pk_automation p) \<and> opt_all Reactions_schema (pk_reactions p) \<and>
     opt_all (list_all (FsmV2_schema \<circ> snd)) (pk_flows p) \<and> superRefine p = []"

section \<open>The compiler\<close>

record StateMeta =
  sm_kind :: StateKind
  sm_automated :: bool
  sm_executor :: "string option"
  sm_skills :: "string list"
  sm_directive :: "string option"
  sm_completion :: "string option"
  sm_emits :: "string option"
  sm_guard :: "string option"
  sm_trigger :: "string list option"
  sm_onFail :: "OnFail option"
  sm_writes :: "string list option"
  sm_report :: "string option"
  sm_summary :: "bool option"
  sm_reportPhases :: "bool option"
  sm_goalAlignment :: "bool option"
  sm_reads :: "EvidenceRef list option"
  sm_does :: "string option"
  sm_phases :: "string list option"
  sm_branches :: "DecisionBranch list option"
  sm_flow :: "string option"
  sm_outcome :: "FinalOutcome option"

definition no_meta :: "StateKind \<Rightarrow> bool \<Rightarrow> StateMeta" where
  "no_meta k a = \<lparr>sm_kind = k, sm_automated = a, sm_executor = None, sm_skills = [], sm_directive = None,
     sm_completion = None, sm_emits = None, sm_guard = None, sm_trigger = None, sm_onFail = None,
     sm_writes = None, sm_report = None, sm_summary = None, sm_reportPhases = None,
     sm_goalAlignment = None, sm_reads = None, sm_does = None, sm_phases = None, sm_branches = None,
     sm_flow = None, sm_outcome = None\<rparr>"

fun stateMeta :: "bool \<Rightarrow> StateV2 \<Rightarrow> StateMeta" where
  "stateMeta a (ExecutorState x) = (no_meta executor a)\<lparr>sm_executor := ex_executor x,
     sm_skills := ex_skills x, sm_directive := Some (ex_directive x),
     sm_completion := Some (ex_completion x), sm_emits := Some (ex_emits x)\<rparr>"
| "stateMeta a (GateState g) = (no_meta gate a)\<lparr>sm_guard := Some (ga_guard g),
     sm_onFail := Some (ga_on_fail g), sm_emits := Some (ga_on_pass_emits g), sm_trigger := ga_trigger g,
     sm_writes := ga_writes g, sm_report := ga_report g, sm_summary := ga_summary g,
     sm_reportPhases := ga_report_phases g, sm_goalAlignment := ga_goal_alignment g,
     sm_reads := ga_reads g, sm_does := ga_does g, sm_phases := ga_phases g\<rparr>"
| "stateMeta a (DecisionState bs) = (no_meta decision a)\<lparr>sm_branches := Some bs\<rparr>"
| "stateMeta a (SubFlowState f e) = (no_meta sub_flow a)\<lparr>sm_flow := Some f, sm_emits := Some e\<rparr>"
| "stateMeta a (TerminalState out) = (no_meta terminal a)\<lparr>sm_outcome := Some out\<rparr>"

text \<open>What a state adds to the set of events the driver emits, and the guards it refers to.\<close>

fun state_emits :: "StateV2 \<Rightarrow> string list" where
  "state_emits (ExecutorState x) = [ex_emits x]"
| "state_emits (GateState g) = [ga_on_pass_emits g]"
| "state_emits (DecisionState bs) = map branch_emits bs"
| "state_emits (SubFlowState f e) = [e]"
| "state_emits (TerminalState out) = []"

fun branch_guards :: "DecisionBranch \<Rightarrow> string list" where
  "branch_guards (GuardedBranch g e) = [g]"
| "branch_guards (ElseBranch e) = []"

fun state_guards :: "StateV2 \<Rightarrow> string list" where
  "state_guards (GateState g) = [ga_guard g]"
| "state_guards (DecisionState bs) = concat (map branch_guards bs)"
| "state_guards _ = []"

datatype compile_error = InvalidFsm "fsm_error list" | DuplicateBranchEmit string string
  | UnroutedEmits "string list" | DanglingGuard string | UnregisteredFlow string string

fun first_duplicate :: "string list \<Rightarrow> string list \<Rightarrow> string option" where
  "first_duplicate seen [] = None"
| "first_duplicate seen (e # es) = (if e \<in> set seen then Some e else first_duplicate (e # seen) es)"

definition assertDistinctBranchEmits :: "string \<Rightarrow> DecisionBranch list \<Rightarrow> compile_error option" where
  "assertDistinctBranchEmits st bs =
     map_option (DuplicateBranchEmit st) (first_duplicate [] (map branch_emits bs))"

definition branch_error :: "string \<times> StateV2 \<Rightarrow> compile_error option" where
  "branch_error = (\<lambda>(name, st). case st of
     DecisionState bs \<Rightarrow> assertDistinctBranchEmits name bs | _ \<Rightarrow> None)"

fun first_error :: "('a \<Rightarrow> 'e option) \<Rightarrow> 'a list \<Rightarrow> 'e option" where
  "first_error f [] = None"
| "first_error f (x # xs) = (case f x of Some e \<Rightarrow> Some e | None \<Rightarrow> first_error f xs)"

record Machine =
  ma_fsm :: "Fsm option"
  ma_meta :: "StateMeta obj"
  ma_automation :: "Automation option"
  ma_reactions :: "Reactions option"
  ma_guardExprs :: "string obj option"

text \<open>A compiled pack and the flat registry of flows, which every compiled machine shares.\<close>

record CompiledPack =
  machine :: Machine
  flows :: "Machine obj option"

definition compiled_fsm :: "FsmV2 \<Rightarrow> Fsm" where
  "compiled_fsm f = \<lparr>fsm_initial = fv_initial f, fsm_states = keys (fv_states f),
     fsm_transitions = fv_transitions f\<rparr>"

definition compiled_meta :: "PackV2 \<Rightarrow> FsmV2 \<Rightarrow> StateMeta obj" where
  "compiled_meta p f =
     (let automated = (case pk_automation p of None \<Rightarrow> [] | Some a \<Rightarrow> to_set (au_stages a))
      in map (\<lambda>(name, st). (name, stateMeta (name \<in> set automated) st)) (fv_states f))"

definition emitted :: "FsmV2 \<Rightarrow> string list" where
  "emitted f = to_set (concat (map (state_emits \<circ> snd) (fv_states f)))"

definition unrouted :: "FsmV2 \<Rightarrow> string list" where
  "unrouted f = filter (\<lambda>e. Some e \<notin> set (map t_on (fv_transitions f))) (emitted f)"

definition guardRefs :: "FsmV2 \<Rightarrow> string list" where
  "guardRefs f = concat (map (state_guards \<circ> snd) (fv_states f))"

definition compileMachine :: "PackV2 \<Rightarrow> compile_error + Machine" where
  "compileMachine p =
     (case pk_fsm p of
        None \<Rightarrow> Inr \<lparr>ma_fsm = None, ma_meta = [], ma_automation = pk_automation p,
                  ma_reactions = pk_reactions p, ma_guardExprs = None\<rparr>
      | Some f \<Rightarrow>
          (if validateFsm (compiled_fsm f) \<noteq> [] then Inl (InvalidFsm (validateFsm (compiled_fsm f)))
           else case first_error branch_error (fv_states f) of
             Some e \<Rightarrow> Inl e
           | None \<Rightarrow>
               (if unrouted f \<noteq> [] then Inl (UnroutedEmits (unrouted f))
                else case List.find (\<lambda>g. g \<notin> set (keys (pk_guards p))) (guardRefs f) of
                  Some g \<Rightarrow> Inl (DanglingGuard g)
                | None \<Rightarrow> Inr \<lparr>ma_fsm = Some (compiled_fsm f), ma_meta = compiled_meta p f,
                    ma_automation = pk_automation p, ma_reactions = pk_reactions p,
                    ma_guardExprs = Some (pk_guards p)\<rparr>)))"

text \<open>The pack a nested machine is compiled from: the parent without automation and reactions.\<close>

definition flow_pack :: "PackV2 \<Rightarrow> FsmV2 \<Rightarrow> PackV2" where
  "flow_pack p f = p\<lparr>pk_automation := None, pk_reactions := None, pk_fsm := Some f\<rparr>"

fun compile_flows :: "PackV2 \<Rightarrow> FsmV2 obj \<Rightarrow> compile_error + Machine obj" where
  "compile_flows p [] = Inr []"
| "compile_flows p ((name, f) # fs) =
     (case compileMachine (flow_pack p f) of
        Inl e \<Rightarrow> Inl e
      | Inr m \<Rightarrow> (case compile_flows p fs of Inl e \<Rightarrow> Inl e | Inr ms \<Rightarrow> Inr ((name, m) # ms)))"

definition flow_error :: "string list \<Rightarrow> string \<times> StateV2 \<Rightarrow> compile_error option" where
  "flow_error registered = (\<lambda>(st, s). case s of
     SubFlowState f e \<Rightarrow> if f \<in> set registered then None else Some (UnregisteredFlow st f)
   | _ \<Rightarrow> None)"

definition compilePackV2 :: "PackV2 \<Rightarrow> compile_error + CompiledPack" where
  "compilePackV2 p =
     (case compileMachine p of
        Inl e \<Rightarrow> Inl e
      | Inr m \<Rightarrow>
          (case pk_flows p of
             None \<Rightarrow> Inr \<lparr>machine = m, flows = None\<rparr>
           | Some fs \<Rightarrow>
               (case compile_flows p fs of
                  Inl e \<Rightarrow> Inl e
                | Inr ms \<Rightarrow>
                    (case first_error (flow_error (keys fs))
                       (concat (map fv_states ((case pk_fsm p of None \<Rightarrow> [] | Some f \<Rightarrow> [f]) @ map snd fs))) of
                       Some e \<Rightarrow> Inl e
                     | None \<Rightarrow> Inr \<lparr>machine = m, flows = Some ms\<rparr>))))"

section \<open>What compiling guarantees\<close>

text \<open>What the drivers rely on, for the metadata of one state: the event it emits is routed somewhere
  in the machine, a decision ends with an \<open>else\<close>, its guards are registered, and a sub-flow names a
  registered machine whenever there is a registry.\<close>

definition routed :: "Fsm \<Rightarrow> string \<Rightarrow> bool" where
  "routed f e \<longleftrightarrow> list_ex (\<lambda>t. t_on t = Some e) (fsm_transitions f)"

fun branch_sound :: "Fsm \<Rightarrow> string list \<Rightarrow> DecisionBranch \<Rightarrow> bool" where
  "branch_sound f gs (GuardedBranch g e) \<longleftrightarrow> g \<in> set gs \<and> routed f e"
| "branch_sound f gs (ElseBranch e) \<longleftrightarrow> routed f e"

definition meta_sound :: "Fsm \<Rightarrow> string list \<Rightarrow> string list option \<Rightarrow> StateMeta \<Rightarrow> bool" where
  "meta_sound f gs registered m \<longleftrightarrow>
     (case sm_kind m of
        executor \<Rightarrow> opt_ex (routed f) (sm_emits m)
      | gate \<Rightarrow> opt_ex (\<lambda>g. g \<in> set gs) (sm_guard m) \<and> opt_ex (routed f) (sm_emits m) \<and>
          opt_ex (\<lambda>a. of_action a \<noteq> pass) (sm_onFail m)
      | decision \<Rightarrow> opt_ex (\<lambda>bs. bs \<noteq> [] \<and> is_else (last bs) \<and> list_all (branch_sound f gs) bs \<and>
          distinct (map branch_emits bs)) (sm_branches m)
      | sub_flow \<Rightarrow> opt_ex (routed f) (sm_emits m) \<and>
          opt_ex (\<lambda>fl. case registered of None \<Rightarrow> True | Some r \<Rightarrow> fl \<in> set r) (sm_flow m)
      | terminal \<Rightarrow> sm_outcome m \<noteq> None)"

definition machine_sound :: "string list option \<Rightarrow> Machine \<Rightarrow> bool" where
  "machine_sound registered m \<longleftrightarrow>
     (case ma_fsm m of
        None \<Rightarrow> ma_meta m = []
      | Some f \<Rightarrow> validateFsm f = [] \<and> keys (ma_meta m) = fsm_states f \<and> ma_guardExprs m \<noteq> None \<and>
          list_all (\<lambda>b. meta_sound f (keys (the (ma_guardExprs m))) registered (snd b)) (ma_meta m))"

definition compiled_sound :: "CompiledPack \<Rightarrow> bool" where
  "compiled_sound c \<longleftrightarrow> machine_sound (map_option keys (flows c)) (machine c) \<and>
     (case flows c of None \<Rightarrow> True
      | Some ms \<Rightarrow> list_all (machine_sound (Some (keys ms)) \<circ> snd) ms)"

lemma first_error_None: "first_error f xs = None \<longleftrightarrow> (\<forall>x\<in>set xs. f x = None)"
  by (induction xs) (auto split: option.splits)

lemma first_duplicate_None: "first_duplicate seen es = None \<longleftrightarrow> distinct es \<and> set es \<inter> set seen = {}"
  by (induction es arbitrary: seen) auto

lemma branch_sound_iff:
  "branch_sound f gs b \<longleftrightarrow> routed f (branch_emits b) \<and> set (branch_guards b) \<subseteq> set gs"
  by (cases b) auto

lemma keys_compiled_meta: "keys (compiled_meta p f) = keys (fv_states f)"
  by (simp add: compiled_meta_def Let_def split_beta o_def)

lemma stateMeta_sound:
  assumes "StateV2_schema st" "branch_error (n, st) = None"
    and "\<And>e. e \<in> set (state_emits st) \<Longrightarrow> routed f e" "\<And>g. g \<in> set (state_guards st) \<Longrightarrow> g \<in> set gs"
    and "\<And>r. registered = Some r \<Longrightarrow> flow_error r (n, st) = None"
  shows "meta_sound f gs registered (stateMeta a st)"
proof (cases st)
  case (GateState g)
  then show ?thesis
    using assms by (simp add: meta_sound_def no_meta_def opt_ex_def GateState_schema_def)
next
  case (DecisionState bs)
  then have "bs \<noteq> []" "is_else (last bs)" "distinct (map branch_emits bs)"
    using assms(1,2) by (auto simp: decision_total_def branch_error_def assertDistinctBranchEmits_def first_duplicate_None)
  moreover have "list_all (branch_sound f gs) bs"
    using DecisionState assms(3,4) by (auto simp: list_all_iff branch_sound_iff)
  ultimately show ?thesis by (simp add: DecisionState meta_sound_def no_meta_def opt_ex_def)
next
  case (SubFlowState fl e)
  then show ?thesis
    using assms(3,5) by (auto simp: meta_sound_def no_meta_def opt_ex_def flow_error_def split: option.splits if_splits)
qed (use assms in \<open>simp_all add: meta_sound_def no_meta_def opt_ex_def\<close>)

lemma unrouted_Nil: "unrouted f = [] \<Longrightarrow> (n, st) \<in> set (fv_states f) \<Longrightarrow> e \<in> set (state_emits st) \<Longrightarrow>
    routed (compiled_fsm f) e"
  by (force simp: unrouted_def emitted_def filter_empty_conv routed_def compiled_fsm_def list_ex_iff)

lemma guardRefs_found:
  assumes "List.find (\<lambda>g. g \<notin> set gs) (guardRefs f) = None" "(n, st) \<in> set (fv_states f)" "g \<in> set (state_guards st)"
  shows "g \<in> set gs"
  using assms by (force simp: guardRefs_def find_None_iff)

lemma compileMachine_sound:
  assumes "compileMachine p = Inr m" "opt_all FsmV2_schema (pk_fsm p)"
    and "\<And>r f. registered = Some r \<Longrightarrow> pk_fsm p = Some f \<Longrightarrow> list_all (\<lambda>x. flow_error r x = None) (fv_states f)"
  shows "machine_sound registered m"
proof (cases "pk_fsm p")
  case None
  then show ?thesis using assms(1) by (auto simp: compileMachine_def machine_sound_def)
next
  case (Some f)
  have v: "validateFsm (compiled_fsm f) = []" and b: "first_error branch_error (fv_states f) = None"
    and u: "unrouted f = []" and g: "List.find (\<lambda>g. g \<notin> set (keys (pk_guards p))) (guardRefs f) = None"
    and m: "ma_fsm m = Some (compiled_fsm f)" "ma_meta m = compiled_meta p f" "ma_guardExprs m = Some (pk_guards p)"
    using assms(1) Some by (auto simp: compileMachine_def split: if_splits option.splits)
  have "meta_sound (compiled_fsm f) (keys (pk_guards p)) registered (stateMeta a st)"
    if i: "(n, st) \<in> set (fv_states f)" for n st a
  proof (rule stateMeta_sound)
    show "StateV2_schema st" using assms(2) Some i by (auto simp: opt_all_def FsmV2_schema_def list_all_iff)
    show "branch_error (n, st) = None" using b i by (auto simp: first_error_None)
    show "routed (compiled_fsm f) e" if "e \<in> set (state_emits st)" for e using unrouted_Nil[OF u i that] .
    show "g \<in> set (keys (pk_guards p))" if "g \<in> set (state_guards st)" for g
      using guardRefs_found[OF g i that] .
    show "flow_error r (n, st) = None" if "registered = Some r" for r
      using assms(3)[OF that Some] i by (auto simp: list_all_iff)
  qed
  then show ?thesis
    using v m by (auto simp: machine_sound_def keys_compiled_meta list_all_iff compiled_meta_def Let_def)
      (simp add: compiled_fsm_def o_def split_beta)
qed

lemma compile_flows_sound:
  assumes "compile_flows p fs = Inr ms" "list_all (FsmV2_schema \<circ> snd) fs"
    and "list_all (\<lambda>f. list_all (\<lambda>x. flow_error r x = None) (fv_states (snd f))) fs"
  shows "keys ms = keys fs \<and> list_all (machine_sound (Some r) \<circ> snd) ms"
  using assms
proof (induction fs arbitrary: ms)
  case (Cons x fs)
  obtain name f where x: "x = (name, f)" by (cases x)
  obtain m ms' where m: "compileMachine (flow_pack p f) = Inr m" "compile_flows p fs = Inr ms'" "ms = (name, m) # ms'"
    using Cons.prems(1) by (auto simp: x split: sum.splits)
  have "machine_sound (Some r) m"
    by (rule compileMachine_sound[OF m(1)]) (use Cons.prems(2,3) in \<open>simp_all add: x flow_pack_def opt_all_def\<close>)
  then show ?case using Cons.IH[OF m(2)] Cons.prems m(3) by (simp add: x)
qed simp

lemma compile_sound:
  assumes "PackV2_schema p" "compilePackV2 p = Inr c"
  shows "compiled_sound c"
proof -
  have sch: "opt_all FsmV2_schema (pk_fsm p)" "opt_all (list_all (FsmV2_schema \<circ> snd)) (pk_flows p)"
    using assms(1) by (auto simp: PackV2_schema_def)
  obtain m where m: "compileMachine p = Inr m" using assms(2) by (auto simp: compilePackV2_def split: sum.splits)
  show ?thesis
  proof (cases "pk_flows p")
    case None
    then show ?thesis
      using assms(2) m compileMachine_sound[OF m sch(1), of None] by (auto simp: compilePackV2_def compiled_sound_def)
  next
    case (Some fs)
    obtain ms where ms: "compile_flows p fs = Inr ms" and c: "c = \<lparr>machine = m, flows = Some ms\<rparr>"
      and e: "first_error (flow_error (keys fs))
        (concat (map fv_states ((case pk_fsm p of None \<Rightarrow> [] | Some f \<Rightarrow> [f]) @ map snd fs))) = None"
      using assms(2) m Some by (auto simp: compilePackV2_def split: sum.splits option.splits)
    have own: "list_all (\<lambda>x. flow_error (keys fs) x = None) (fv_states f)" if "pk_fsm p = Some f" for f
      using e that by (auto simp: first_error_None list_all_iff)
    have sub: "list_all (\<lambda>f. list_all (\<lambda>x. flow_error (keys fs) x = None) (fv_states (snd f))) fs"
      using e by (auto simp: first_error_None list_all_iff)
    have ks: "keys ms = keys fs" and "list_all (machine_sound (Some (keys fs)) \<circ> snd) ms"
      using compile_flows_sound[OF ms _ sub] sch(2) Some by (auto simp: opt_all_def)
    moreover have "machine_sound (Some (keys fs)) m"
      by (rule compileMachine_sound[OF m sch(1)]) (use own in auto)
    ultimately show ?thesis by (simp add: compiled_sound_def c)
  qed
qed

definition gate_decl :: "string \<Rightarrow> string list option \<Rightarrow> string \<Rightarrow> OnFail \<Rightarrow> GateDecl" where
  "gate_decl g trig e a = \<lparr>ga_guard = g, ga_trigger = trig, ga_on_pass_emits = e, ga_on_fail = a,
     ga_writes = None, ga_report = None, ga_summary = None, ga_report_phases = None,
     ga_goal_alignment = None, ga_reads = None, ga_does = None, ga_phases = None\<rparr>"

definition edge :: "string \<Rightarrow> string \<Rightarrow> string \<Rightarrow> Transition" where
  "edge a e b = \<lparr>t_from = a, t_on = Some e, t_to = b, t_when = None\<rparr>"

definition plain_pack :: "FsmV2 \<Rightarrow> FsmV2 obj option \<Rightarrow> PackV2" where
  "plain_pack f fs = \<lparr>pk_name = ''demo'', pk_version = ''1.0.0'', pk_scope = workflow, pk_activation = on_demand,
     pk_serves = None, pk_fsm = Some f, pk_automation = None, pk_reactions = None, pk_flows = fs,
     pk_guards = [(''ok'', ''verdict''), (''big'', ''size'')], pk_messages = []\<rparr>"

definition review_gate :: GateDecl where
  "review_gate = gate_decl ''ok'' (Some [''tool_call'']) ''passed'' \<lparr>of_action = block, of_message = ''resolve it''\<rparr>"

definition demo_states :: "StateV2 obj" where
  "demo_states = [(''review'', GateState review_gate),
     (''size'', DecisionState [GuardedBranch ''big'' ''large'', ElseBranch ''small'']),
     (''nested'', SubFlowState ''child'' ''finished''), (''done'', TerminalState shipped)]"

definition demo_flow :: FsmV2 where
  "demo_flow = \<lparr>fv_initial = ''review'', fv_states = demo_states, fv_transitions =
     [edge ''review'' ''passed'' ''size'', edge ''size'' ''large'' ''nested'', edge ''size'' ''small'' ''done'',
      edge ''nested'' ''finished'' ''done'']\<rparr>"

definition child_flow :: FsmV2 where
  "child_flow = \<lparr>fv_initial = ''end'', fv_states = [(''end'', TerminalState shipped)], fv_transitions = []\<rparr>"

definition demo_pack :: PackV2 where
  "demo_pack = plain_pack demo_flow (Some [(''child'', child_flow)])"

definition demo_machine :: Machine where
  "demo_machine = \<lparr>ma_fsm = Some (compiled_fsm demo_flow),
     ma_meta = map (\<lambda>(n, st). (n, stateMeta False st)) demo_states, ma_automation = None, ma_reactions = None,
     ma_guardExprs = Some [(''ok'', ''verdict''), (''big'', ''size'')]\<rparr>"

definition child_machine :: Machine where
  "child_machine = \<lparr>ma_fsm = Some (compiled_fsm child_flow),
     ma_meta = [(''end'', stateMeta False (TerminalState shipped))], ma_automation = None, ma_reactions = None,
     ma_guardExprs = Some [(''ok'', ''verdict''), (''big'', ''size'')]\<rparr>"

definition demo_compiled :: CompiledPack where
  "demo_compiled = \<lparr>machine = demo_machine, flows = Some [(''child'', child_machine)]\<rparr>"

lemma demo_schema: "PackV2_schema demo_pack"
  by code_simp

lemma demo_compiles: "compilePackV2 demo_pack = Inr demo_compiled"
  by code_simp

text \<open>
  C34. Compiling is sound for every machine of the pack. For a pack that the schema accepts,
  a result of \<open>compilePackV2\<close> is a set of machines with valid tables, one metadata entry per state, in
  which each driver-emitted event is routed by some transition, each decision ends with an \<open>else\<close> and
  has pairwise distinct events, each guard is registered and each sub-flow names a machine of the
  shared registry whenever the pack has one.
\<close>

theorem compiled_pack_sound:
  assumes "PackV2_schema p" "compilePackV2 p = Inr c"
  shows "compiled_sound c"
  using assms by (rule compile_sound)

theorem compiled_pack_sound_witness: "compiled_sound demo_compiled"
  using compiled_pack_sound[OF demo_schema demo_compiles] by blast

end
