(* ===== verification/LoopDriver.thy ===== *)
theory LoopDriver
  imports PackV2 Floors
begin

text \<open>
  Running a compiled pack: the guard dispatch (\<open>src/src/runtime/loop/gate_dispatch.ts\<close>,
  \<open>guard_evaluator.ts\<close>), the loop driver (\<open>driver.ts\<close>) and the observed actor
  (\<open>v2_observed_actor.ts\<close>).

  The expression engine behind a guard is an argument: a total function, because it fails closed.
  Executors and their registry are the outside world: a pull of an executor changes the world and
  yields a step, nothing more, or a failure. The inner loop of an executor need not end, so it is a
  partial function; a sub-flow runs on a driver of its own, and the model counts the nesting depth,
  which is the only fuel. Awaiting a machine that awaits itself never returns, and is \<^const>\<open>None\<close> at
  every depth.
\<close>

section \<open>Guard dispatch\<close>

datatype driver_error = NoTransition string string | NoEmit string StateKind | NotTotal
  | NoGuardExpr string | NoMeta string string | NoFsm | NoChild string string | Thrown string
  | StackOverflow

definition quoted :: "string \<Rightarrow> string" where
  "quoted s = [CHR 39] @ s @ [CHR 39]"

fun state_kind_text :: "StateKind \<Rightarrow> string" where
  "state_kind_text executor = ''executor''"
| "state_kind_text gate = ''gate''"
| "state_kind_text decision = ''decision''"
| "state_kind_text sub_flow = ''sub_flow''"
| "state_kind_text terminal = ''terminal''"

fun error_text :: "driver_error \<Rightarrow> string" where
  "error_text (NoTransition st ev) =
     ''gate_dispatch: no '' @ quoted ev @ '' transition from '' @ quoted st @ '' (compiler invariant violated)''"
| "error_text (NoEmit st k) = ''gate_dispatch: state '' @ quoted st @ '' (kind '' @ quoted (state_kind_text k) @
     '') has no emit event (compiler invariant)''"
| "error_text NotTotal =
     ''gate_dispatch: decision state had no matching branch and no else (totality violated)''"
| "error_text (NoGuardExpr g) = ''FAC-CUT.2: no guard expression for ref '' @ quoted g"
| "error_text (NoMeta who st) = who @ '': no meta for state '' @ quoted st"
| "error_text NoFsm = ''LOOP.1: driver requires a behavior pack (compiled pack has no fsm)''"
| "error_text (NoChild st f) =
     ''LOOP.1: sub_flow '' @ quoted st @ '' -> flow '' @ quoted f @ '' has no compiled nested machine''"
| "error_text (Thrown msg) = msg"
| "error_text StackOverflow = overflow"

datatype DriverStep = Advance string "string option" | Enforce Action string
  | Ended FinalOutcome "string option"

definition transitionOn :: "Fsm \<Rightarrow> string \<Rightarrow> string \<Rightarrow> driver_error + string" where
  "transitionOn f state event =
     (case step (fromFlat f) [state] event None [] of
        None \<Rightarrow> Inl StackOverflow
      | Some r \<Rightarrow> if \<not> transitioned r then Inl (NoTransition state event) else Inr (soleState (next_config r)))"

definition emitOf :: "string \<Rightarrow> StateMeta \<Rightarrow> driver_error + string" where
  "emitOf state m = (case sm_emits m of None \<Rightarrow> Inl (NoEmit state (sm_kind m)) | Some e \<Rightarrow> Inr e)"

definition advance_on :: "Fsm \<Rightarrow> string \<Rightarrow> string \<Rightarrow> string option \<Rightarrow> driver_error + DriverStep" where
  "advance_on f state event notice =
     (case transitionOn f state event of Inl e \<Rightarrow> Inl e | Inr to \<Rightarrow> Inr (Advance to notice))"

definition advance_emit :: "Fsm \<Rightarrow> string \<Rightarrow> StateMeta \<Rightarrow> string option \<Rightarrow> driver_error + DriverStep" where
  "advance_emit f state m notice =
     (case emitOf state m of Inl e \<Rightarrow> Inl e | Inr ev \<Rightarrow> advance_on f state ev notice)"

type_synonym 'c guards = "string \<Rightarrow> 'c \<Rightarrow> driver_error + bool"

definition gate_on_fail :: "string \<Rightarrow> StateMeta \<Rightarrow> OnFail" where
  "gate_on_fail state m = (case sm_onFail m of Some a \<Rightarrow> a
     | None \<Rightarrow> \<lparr>of_action = block, of_message = ''gate '' @ quoted state @ '' failed''\<rparr>)"

definition evalGate :: "Fsm \<Rightarrow> string \<Rightarrow> StateMeta \<Rightarrow> 'c guards \<Rightarrow> 'c \<Rightarrow> driver_error + DriverStep" where
  "evalGate f state m guards ctx =
     (case guards (str_or_empty (sm_guard m)) ctx of
        Inl e \<Rightarrow> Inl e
      | Inr True \<Rightarrow> advance_emit f state m None
      | Inr False \<Rightarrow>
          (let onFail = gate_on_fail state m
           in if of_action onFail = warn then advance_emit f state m (Some (of_message onFail))
              else Inr (Enforce (of_action onFail) (of_message onFail))))"

fun eval_branches ::
  "Fsm \<Rightarrow> string \<Rightarrow> 'c guards \<Rightarrow> 'c \<Rightarrow> DecisionBranch list \<Rightarrow> driver_error + DriverStep" where
  "eval_branches f state guards ctx [] = Inl NotTotal"
| "eval_branches f state guards ctx (ElseBranch e # bs) = advance_on f state e None"
| "eval_branches f state guards ctx (GuardedBranch g e # bs) =
     (case guards g ctx of
        Inl err \<Rightarrow> Inl err
      | Inr True \<Rightarrow> advance_on f state e None
      | Inr False \<Rightarrow> eval_branches f state guards ctx bs)"

definition evalDecision :: "Fsm \<Rightarrow> string \<Rightarrow> StateMeta \<Rightarrow> 'c guards \<Rightarrow> 'c \<Rightarrow> driver_error + DriverStep" where
  "evalDecision f state m guards ctx =
     eval_branches f state guards ctx (case sm_branches m of None \<Rightarrow> [] | Some bs \<Rightarrow> bs)"

text \<open>The production evaluator: a registry of expressions.\<close>

definition registry_guards :: "string obj \<Rightarrow> (string \<Rightarrow> 'c \<Rightarrow> bool) \<Rightarrow> 'c guards" where
  "registry_guards exprs evalCondition ref ctx =
     (case map_of exprs ref of None \<Rightarrow> Inl (NoGuardExpr ref) | Some e \<Rightarrow> Inr (evalCondition e ctx))"

section \<open>The loop driver\<close>

record InnerStep =
  is_observation :: ToolObservation
  is_completionGuardHeld :: bool

record ('x, 'w, 'c) LoopDeps =
  ensureExecutor :: "string \<Rightarrow> 'w \<Rightarrow> (string + 'x) \<times> 'w"
  executor_next :: "'x \<Rightarrow> 'w \<Rightarrow> (string + InnerStep option) \<times> 'w"
  driver_guards :: "'c guards"
  makeFloor :: FloorCounters

text \<open>How the inner loop of an executor ends.\<close>

datatype executor_end = Failed string | GaveUp | Released | Broken string

partial_function (option) executor_loop ::
  "('w \<Rightarrow> (string + InnerStep option) \<times> 'w) \<Rightarrow> FloorCounters \<Rightarrow> 'w \<Rightarrow> (executor_end \<times> 'w) option" where
  "executor_loop nxt c w =
     (case nxt w of
        (Inl e, w') \<Rightarrow> Some (Failed e, w')
      | (Inr None, w') \<Rightarrow> Some (GaveUp, w')
      | (Inr (Some inner), w') \<Rightarrow>
          (case evaluateCompletion (is_completionGuardHeld inner) (fst (floor_observe (is_observation inner) c)) of
             Release \<Rightarrow> Some (Released, w')
           | Break reason \<Rightarrow> Some (Broken reason, w')
           | Continue \<Rightarrow> executor_loop nxt (snd (floor_observe (is_observation inner) c)) w'))"

definition executor_name :: "string \<Rightarrow> StateMeta \<Rightarrow> string" where
  "executor_name state m = (case sm_executor m of Some n \<Rightarrow> n | None \<Rightarrow> state)"

text \<open>The machine is looked up where the driver uses it, which throws when the pack has none.\<close>

definition advance_own :: "Machine \<Rightarrow> string \<Rightarrow> StateMeta \<Rightarrow> driver_error + DriverStep" where
  "advance_own ma state m =
     (case ma_fsm ma of None \<Rightarrow> Inl NoFsm | Some f \<Rightarrow> advance_emit f state m None)"

definition runExecutor ::
  "('x, 'w, 'c) LoopDeps \<Rightarrow> Machine \<Rightarrow> string \<Rightarrow> StateMeta \<Rightarrow> 'w \<Rightarrow> ((driver_error + DriverStep) \<times> 'w) option" where
  "runExecutor D ma state m w =
     (case ensureExecutor D (executor_name state m) w of
        (Inl e, w1) \<Rightarrow> Some (Inl (Thrown e), w1)
      | (Inr x, w1) \<Rightarrow>
          (case executor_loop (executor_next D x) (makeFloor D) w1 of
             None \<Rightarrow> None
           | Some (Failed e, w2) \<Rightarrow> Some (Inl (Thrown e), w2)
           | Some (GaveUp, w2) \<Rightarrow>
               Some (Inr (Ended wedge (Some (''executor '' @ quoted (executor_name state m) @ '' exhausted''))), w2)
           | Some (Released, w2) \<Rightarrow> Some (advance_own ma state m, w2)
           | Some (Broken reason, w2) \<Rightarrow> Some (Inr (Ended wedge (Some reason)), w2)))"

type_synonym 'w terminal_run = "((driver_error + FinalOutcome) \<times> 'w) option"

definition runSubFlow ::
  "(CompiledPack \<Rightarrow> 'w \<Rightarrow> 'w terminal_run) \<Rightarrow> CompiledPack \<Rightarrow> string \<Rightarrow> StateMeta \<Rightarrow> 'w \<Rightarrow>
   ((driver_error + DriverStep) \<times> 'w) option" where
  "runSubFlow run c state m w =
     (case Option.bind (flows c) (\<lambda>ms. map_of ms (str_or_empty (sm_flow m))) of
        None \<Rightarrow> Some (Inl (NoChild state (str_or_empty (sm_flow m))), w)
      | Some child \<Rightarrow>
          (case run \<lparr>machine = child, flows = flows c\<rparr> w of
             None \<Rightarrow> None
           | Some (Inl e, w') \<Rightarrow> Some (Inl e, w')
           | Some (Inr shipped, w') \<Rightarrow> Some (advance_own (machine c) state m, w')
           | Some (Inr wedge, w') \<Rightarrow> Some (Inr (Ended wedge
               (Some (''sub_flow '' @ quoted (case sm_flow m of Some fl \<Rightarrow> fl | None \<Rightarrow> state) @ '' wedged''))), w')))"

definition dispatch ::
  "(Fsm \<Rightarrow> string \<Rightarrow> StateMeta \<Rightarrow> 'c guards \<Rightarrow> 'c \<Rightarrow> driver_error + DriverStep) \<Rightarrow> ('x, 'w, 'c) LoopDeps \<Rightarrow> Machine \<Rightarrow>
   string \<Rightarrow> StateMeta \<Rightarrow> 'c \<Rightarrow> driver_error + DriverStep" where
  "dispatch ev D ma state m ctx =
     (case ma_fsm ma of None \<Rightarrow> Inl NoFsm | Some f \<Rightarrow> ev f state m (driver_guards D) ctx)"

definition driver_step ::
  "(CompiledPack \<Rightarrow> 'w \<Rightarrow> 'w terminal_run) \<Rightarrow> ('x, 'w, 'c) LoopDeps \<Rightarrow> CompiledPack \<Rightarrow> string \<Rightarrow> 'c \<Rightarrow> 'w \<Rightarrow>
   ((driver_error + DriverStep) \<times> 'w) option" where
  "driver_step run D c state ctx w =
     (case map_of (ma_meta (machine c)) state of
        None \<Rightarrow> Some (Inl (NoMeta ''LOOP.1'' state), w)
      | Some m \<Rightarrow>
          (case sm_kind m of
             executor \<Rightarrow> runExecutor D (machine c) state m w
           | gate \<Rightarrow> Some (dispatch evalGate D (machine c) state m ctx, w)
           | decision \<Rightarrow> Some (dispatch evalDecision D (machine c) state m ctx, w)
           | sub_flow \<Rightarrow> runSubFlow run c state m w
           | terminal \<Rightarrow> Some (Inr (Ended (case sm_outcome m of Some out \<Rightarrow> out | None \<Rightarrow> wedge) None), w)))"

fun drive ::
  "(string \<Rightarrow> 'w \<Rightarrow> ((driver_error + DriverStep) \<times> 'w) option) \<Rightarrow> nat \<Rightarrow> string \<Rightarrow> 'w \<Rightarrow> 'w terminal_run" where
  "drive stp 0 cur w = Some (Inr wedge, w)"
| "drive stp (Suc n) cur w =
     (case stp cur w of
        None \<Rightarrow> None
      | Some (Inl e, w') \<Rightarrow> Some (Inl e, w')
      | Some (Inr (Ended out reason), w') \<Rightarrow> Some (Inr out, w')
      | Some (Inr (Enforce a msg), w') \<Rightarrow> Some (Inr wedge, w')
      | Some (Inr (Advance nxt notice), w') \<Rightarrow> drive stp n nxt w')"

text \<open>The cap on the states a driver visits.\<close>

definition MAX_STEPS :: nat where
  "MAX_STEPS = 10000"

fun runToTerminal ::
  "nat \<Rightarrow> ('x, 'w, 'c) LoopDeps \<Rightarrow> 'c \<Rightarrow> CompiledPack \<Rightarrow> 'w \<Rightarrow> 'w terminal_run" where
  "runToTerminal 0 D ctx c w = None"
| "runToTerminal (Suc d) D ctx c w =
     (case ma_fsm (machine c) of
        None \<Rightarrow> Some (Inl NoFsm, w)
      | Some f \<Rightarrow> drive (\<lambda>st. driver_step (runToTerminal d D ctx) D c st ctx) MAX_STEPS (fsm_initial f) w)"

section \<open>The observed actor\<close>

fun kind_text :: "MessageKind \<Rightarrow> string" where
  "kind_text tool_call = ''tool_call''"
| "kind_text post_tool_call = ''post_tool_call''"
| "kind_text prompt_submit = ''prompt_submit''"
| "kind_text session_start = ''session_start''"
| "kind_text session_end = ''session_end''"
| "kind_text stop = ''stop''"
| "kind_text schedule = ''schedule''"
| "kind_text webhook = ''webhook''"
| "kind_text inbound_channel = ''inbound_channel''"
| "kind_text file_changed = ''file_changed''"
| "kind_text transition = ''transition''"
| "kind_text gate_action = ''gate_action''"
| "kind_text memory_tick = ''memory_tick''"
| "kind_text topology = ''topology''"
| "kind_text lap = ''lap''"

definition gateFail :: "string \<Rightarrow> Action \<Rightarrow> string \<Rightarrow> Effect" where
  "gateFail state action message =
     Emit ''topic:gate_action'' gate_action (GateFail_payload (action_name action) state message)"

definition advance_effects :: "string \<Rightarrow> string \<Rightarrow> string option \<Rightarrow> Effect list" where
  "advance_effects cur nxt notice =
     [Write_state nxt, Emit ''topic:transition'' transition (Moved_payload cur nxt)] @
     (case notice of None \<Rightarrow> [] | Some msg \<Rightarrow> [gateFail cur warn msg])"

definition is_kind :: "StateMeta obj \<Rightarrow> string \<Rightarrow> StateKind \<Rightarrow> bool" where
  "is_kind meta st k \<longleftrightarrow> (case map_of meta st of None \<Rightarrow> False | Some m \<Rightarrow> sm_kind m = k)"

text \<open>The chain of a \<open>receive\<close>: the state being walked is a local variable, the history is a field.\<close>

fun observed_chain ::
  "(string \<Rightarrow> StateMeta \<Rightarrow> driver_error + DriverStep) \<Rightarrow> StateMeta obj \<Rightarrow> nat \<Rightarrow> string \<Rightarrow> Effect list \<Rightarrow>
   ActorState \<Rightarrow> (string + Effect list) \<times> ActorState" where
  "observed_chain ev meta 0 cur effs s = (Inr effs, s\<lparr>current := cur\<rparr>)"
| "observed_chain ev meta (Suc n) cur effs s =
     (case map_of meta cur of
        None \<Rightarrow> (Inl (error_text (NoMeta ''V2ObservedActor'' cur)), s)
      | Some m \<Rightarrow>
          (if sm_kind m \<noteq> gate \<and> sm_kind m \<noteq> decision then (Inr effs, s\<lparr>current := cur\<rparr>)
           else case ev cur m of
             Inl e \<Rightarrow> (Inl (error_text e), s)
           | Inr (Enforce a msg) \<Rightarrow> (Inr (effs @ [gateFail cur a msg]), s\<lparr>current := cur\<rparr>)
           | Inr (Ended out reason) \<Rightarrow> (Inr effs, s\<lparr>current := cur\<rparr>)
           | Inr (Advance nxt notice) \<Rightarrow>
               (let effs1 = effs @ advance_effects cur nxt notice; s1 = s\<lparr>history := history s @ [cur]\<rparr>
                in if is_kind meta nxt gate then (Inr effs1, s1\<lparr>current := nxt\<rparr>)
                   else observed_chain ev meta n nxt effs1 s1)))"

definition MAX_CHAIN :: nat where
  "MAX_CHAIN = 10000"

definition observed_eval ::
  "Fsm \<Rightarrow> 'c guards \<Rightarrow> 'c \<Rightarrow> string \<Rightarrow> StateMeta \<Rightarrow> driver_error + DriverStep" where
  "observed_eval f guards ctx cur m =
     (if sm_kind m = gate then evalGate f cur m guards ctx else evalDecision f cur m guards ctx)"

definition awaits_other :: "StateMeta obj \<Rightarrow> string \<Rightarrow> MessageKind \<Rightarrow> bool" where
  "awaits_other meta cur k \<longleftrightarrow> is_kind meta cur gate \<and>
     kind_text k \<notin> set (case Option.bind (map_of meta cur) sm_trigger of None \<Rightarrow> [] | Some ts \<Rightarrow> ts)"

definition observed_receive ::
  "Fsm \<Rightarrow> StateMeta obj \<Rightarrow> 'c guards \<Rightarrow> (payload \<Rightarrow> 'c) \<Rightarrow> payload Envelope \<Rightarrow> ActorState \<Rightarrow>
   (string + Effect list) \<times> ActorState" where
  "observed_receive f meta guards ctx_of env s =
     (if awaits_other meta (current s) (env_kind env) then (Inr [], s)
      else observed_chain (observed_eval f guards (ctx_of (env_payload env))) meta MAX_CHAIN (current s) [] s)"

definition observed_actor ::
  "string \<Rightarrow> (string \<Rightarrow> 'c \<Rightarrow> bool) \<Rightarrow> (payload \<Rightarrow> 'c) \<Rightarrow> Machine \<Rightarrow> Fsm \<Rightarrow> ActorState ActorPort" where
  "observed_actor addr evalCondition ctx_of m f =
     \<lparr>ap_addr = addr,
      ap_receive = observed_receive f (ma_meta m)
        (registry_guards (case ma_guardExprs m of Some g \<Rightarrow> g | None \<Rightarrow> []) evalCondition) ctx_of,
      ap_restart = base_restart f, ap_toWedge = base_toWedge, ap_onConnect = no_hook, ap_onDisconnect = no_hook\<rparr>"

definition observed_kinds :: "StateMeta obj \<Rightarrow> string list" where
  "observed_kinds meta = to_set (concat (map (\<lambda>(n, m). case sm_trigger m of None \<Rightarrow> [] | Some ts \<Rightarrow> ts) meta))"

section \<open>An observed actor on a compiled pack\<close>

text \<open>The moves the metadata allows: some event that the state emits leads to another state.\<close>

definition meta_emits :: "StateMeta \<Rightarrow> string list" where
  "meta_emits m = (case sm_emits m of None \<Rightarrow> [] | Some e \<Rightarrow> [e]) @
     (case sm_branches m of None \<Rightarrow> [] | Some bs \<Rightarrow> map branch_emits bs)"

definition emits_of :: "StateMeta obj \<Rightarrow> string \<Rightarrow> string list" where
  "emits_of meta st = (case map_of meta st of None \<Rightarrow> [] | Some m \<Rightarrow> meta_emits m)"

definition leads :: "Fsm \<Rightarrow> string \<Rightarrow> string \<Rightarrow> bool" where
  "leads f a e \<longleftrightarrow> flat_transitioned (flat_spec f a e None)"

definition moves :: "Fsm \<Rightarrow> StateMeta obj \<Rightarrow> string \<Rightarrow> string \<Rightarrow> bool" where
  "moves f meta a b \<longleftrightarrow> list_ex (\<lambda>e. leads f a e \<and> b = flat_next (flat_spec f a e None)) (emits_of meta a)"

definition runnable :: "Machine \<Rightarrow> Fsm \<Rightarrow> bool" where
  "runnable m f \<longleftrightarrow> machine_sound None m \<and> ma_fsm m = Some f \<and> slash_free f"

lemma machine_sound_None: "machine_sound r m \<Longrightarrow> machine_sound None m"
proof -
  have "meta_sound f gs r x \<Longrightarrow> meta_sound f gs None x" for f gs x
    by (auto simp: meta_sound_def opt_ex_def split: StateKind.splits option.splits)
  then show "machine_sound r m \<Longrightarrow> machine_sound None m"
    by (auto simp: machine_sound_def list_all_iff split: option.splits)
qed

lemma transitionOn_table:
  assumes "validateFsm f = []" "slash_free f" "cur \<in> set (fsm_states f)"
  shows "transitionOn f cur e = (if leads f cur e then Inr (flat_next (flat_spec f cur e None))
     else Inl (NoTransition cur e))"
proof -
  have "stepFlat f cur e None = Some (flat_spec f cur e None)" by (rule stepFlat_table[OF assms])
  then obtain z where z: "step (fromFlat f) [cur] e None [] = Some z"
      "flat_spec f cur e None =
        \<lparr>flat_next = soleState (next_config z), flat_transitioned = transitioned z, flat_via = via z\<rparr>"
    by (auto simp: stepFlat_def)
  then show ?thesis by (simp add: transitionOn_def leads_def)
qed

text \<open>What one dispatch can answer in a sound machine.\<close>

definition step_ok :: "Fsm \<Rightarrow> StateMeta obj \<Rightarrow> string \<Rightarrow> driver_error + DriverStep \<Rightarrow> bool" where
  "step_ok f meta cur r \<longleftrightarrow> (case r of
     Inl e \<Rightarrow> list_ex (\<lambda>ev. e = NoTransition cur ev \<and> \<not> leads f cur ev) (emits_of meta cur)
   | Inr (Advance nxt notice) \<Rightarrow> moves f meta cur nxt
   | Inr (Enforce a msg) \<Rightarrow> (a = block \<or> a = halt) \<and> is_kind meta cur gate
   | Inr (Ended out reason) \<Rightarrow> False)"

lemma advance_on_ok:
  assumes "validateFsm f = []" "slash_free f" "cur \<in> set (fsm_states f)" "e \<in> set (emits_of meta cur)"
  shows "step_ok f meta cur (advance_on f cur e notice)"
  using assms(4) transitionOn_table[OF assms(1-3), of e]
  by (auto simp: advance_on_def step_ok_def moves_def list_ex_iff)

lemma eval_branches_ok:
  assumes "validateFsm f = []" "slash_free f" "cur \<in> set (fsm_states f)"
    and "bs \<noteq> []" "is_else (last bs)" "list_all (branch_sound f (keys exprs)) bs"
    and "set (map branch_emits bs) \<subseteq> set (emits_of meta cur)"
  shows "step_ok f meta cur (eval_branches f cur (registry_guards exprs ec) ctx bs)"
  using assms(4-)
proof (induction bs)
  case (Cons b bs)
  show ?case
  proof (cases b)
    case (ElseBranch e)
    then show ?thesis using Cons.prems(4) by (simp add: advance_on_ok[OF assms(1-3)])
  next
    case (GuardedBranch g e)
    then obtain x where x: "map_of exprs g = Some x" and bs: "bs \<noteq> []"
      using Cons.prems(1-3) by (cases "map_of exprs g"; cases bs) (auto simp: map_of_eq_None_iff)
    show ?thesis
    proof (cases "ec x ctx")
      case True
      then show ?thesis
        using Cons.prems(4) by (simp add: GuardedBranch registry_guards_def x advance_on_ok[OF assms(1-3)])
    next
      case False
      then show ?thesis
        using Cons.IH[OF bs] Cons.prems bs by (simp add: GuardedBranch registry_guards_def x)
    qed
  qed
qed simp

lemma observed_eval_ok:
  assumes r: "runnable m f" and cur: "cur \<in> set (fsm_states f)" and sm: "map_of (ma_meta m) cur = Some sm"
    and k: "sm_kind sm = gate \<or> sm_kind sm = decision" and ex: "ma_guardExprs m = Some exprs"
  shows "step_ok f (ma_meta m) cur (observed_eval f (registry_guards exprs ec) ctx cur sm)"
proof -
  have f: "validateFsm f = []" "slash_free f" and ms: "meta_sound f (keys exprs) None sm"
    using r ex map_of_SomeD[OF sm] by (force simp: runnable_def machine_sound_def list_all_iff)+
  have em: "emits_of (ma_meta m) cur = meta_emits sm" by (simp add: emits_of_def sm)
  show ?thesis
  proof (cases "sm_kind sm = gate")
    case True
    obtain g e a where s: "sm_guard sm = Some g" "g \<in> set (keys exprs)" "sm_emits sm = Some e" "sm_onFail sm = Some a"
        "of_action a \<noteq> pass"
      using ms True by (auto simp: meta_sound_def opt_ex_def split: option.splits)
    obtain x where x: "map_of exprs g = Some x" using s(2) by (cases "map_of exprs g") (auto simp: map_of_eq_None_iff)
    have adv: "step_ok f (ma_meta m) cur (advance_emit f cur sm notice)" for notice
      using advance_on_ok[OF f cur, of e "ma_meta m"] by (simp add: advance_emit_def emitOf_def s em meta_emits_def)
    have "of_action a = warn \<or> of_action a = block \<or> of_action a = halt" using s(5) by (cases "of_action a") auto
    moreover have "step_ok f (ma_meta m) cur (Inr (Enforce (of_action a) (of_message a)))" if "of_action a \<noteq> warn"
      using that calculation True by (auto simp: step_ok_def is_kind_def sm)
    ultimately show ?thesis
      using adv True
      by (cases "ec x ctx")
        (auto simp: observed_eval_def evalGate_def s str_or_empty_def registry_guards_def x gate_on_fail_def)
  next
    case False
    then have d: "sm_kind sm = decision" using k by simp
    then obtain bs where "sm_branches sm = Some bs" "bs \<noteq> []" "is_else (last bs)"
        "list_all (branch_sound f (keys exprs)) bs"
      using ms by (auto simp: meta_sound_def opt_ex_def split: option.splits)
    then show ?thesis
      using eval_branches_ok[OF f cur, of bs exprs "ma_meta m" ec ctx] False
      by (simp add: observed_eval_def evalDecision_def em meta_emits_def)
  qed
qed

text \<open>The states a \<open>receive\<close> walked through, and the states its effects write.\<close>

definition walked :: "ActorState \<Rightarrow> ActorState \<Rightarrow> string list" where
  "walked s s' = drop (length (history s)) (history s') @ [current s']"

fun written :: "Effect list \<Rightarrow> string list" where
  "written [] = []"
| "written (Write_state x # es) = x # written es"
| "written (_ # es) = written es"

lemma written_append [simp]: "written (xs @ ys) = written xs @ written ys"
  by (induction xs rule: written.induct) auto

lemma written_advance [simp]: "written (advance_effects a b n) = [b]"
  by (cases n) (auto simp: advance_effects_def gateFail_def)

lemma written_gateFail [simp]: "written [gateFail st a msg] = []"
  by (simp add: gateFail_def)

definition stuck :: "Fsm \<Rightarrow> StateMeta obj \<Rightarrow> string \<Rightarrow> bool" where
  "stuck f meta e \<longleftrightarrow> list_ex (\<lambda>st. list_ex (\<lambda>ev. e = error_text (NoTransition st ev) \<and> \<not> leads f st ev)
     (emits_of meta st)) (fsm_states f)"

lemma stuckI:
  "st \<in> set (fsm_states f) \<Longrightarrow> ev \<in> set (emits_of meta st) \<Longrightarrow> \<not> leads f st ev \<Longrightarrow>
   stuck f meta (error_text (NoTransition st ev))"
  unfolding stuck_def list_ex_iff by blast

definition chain_ok ::
  "Fsm \<Rightarrow> StateMeta obj \<Rightarrow> nat \<Rightarrow> string \<Rightarrow> Effect list \<Rightarrow> ActorState \<Rightarrow> (string + Effect list) \<times> ActorState \<Rightarrow> bool" where
  "chain_ok f meta n cur effs s out \<longleftrightarrow> (case out of
     (Inl e, s') \<Rightarrow> current s' = current s \<and> wedged s' = wedged s \<and> stuck f meta e
   | (Inr effs', s') \<Rightarrow> wedged s' = wedged s \<and> current s' \<in> set (fsm_states f) \<and>
      (\<exists>w. history s' = history s @ w \<and> successively (moves f meta) (w @ [current s']) \<and>
         hd (w @ [current s']) = cur \<and> written effs' = written effs @ tl (w @ [current s']) \<and>
         list_all (\<lambda>st. is_kind meta st decision) (tl w) \<and> (w = [] \<or> is_kind meta cur gate \<or> is_kind meta cur decision) \<and>
         (n \<le> length w \<or> \<not> is_kind meta (current s') decision)))"

lemma moves_declared:
  "validateFsm f = [] \<Longrightarrow> a \<in> set (fsm_states f) \<Longrightarrow> moves f meta a b \<Longrightarrow> b \<in> set (fsm_states f)"
  by (auto simp: moves_def list_ex_iff flat_next_declared)

lemma chain_stop:
  "cur \<in> set (fsm_states f) \<Longrightarrow> written effs' = written effs \<Longrightarrow> n = 0 \<or> \<not> is_kind meta cur decision \<Longrightarrow>
   chain_ok f meta n cur effs s (Inr effs', s\<lparr>current := cur\<rparr>)"
  by (auto simp: chain_ok_def intro!: exI[of _ "[]"])

lemma chain_extend:
  assumes out: "chain_ok f meta n nxt (effs @ advance_effects cur nxt notice) (s\<lparr>history := history s @ [cur]\<rparr>) out"
    and mv: "moves f meta cur nxt" and k: "is_kind meta cur gate \<or> is_kind meta cur decision"
    and ng: "\<not> is_kind meta nxt gate"
  shows "chain_ok f meta (Suc n) cur effs s out"
proof (cases out)
  case (Pair res s')
  show ?thesis
  proof (cases res)
    case (Inr effs')
    obtain w where w: "history s' = (history s @ [cur]) @ w" "successively (moves f meta) (w @ [current s'])"
        "hd (w @ [current s']) = nxt" "written effs' = written effs @ nxt # tl (w @ [current s'])"
        "list_all (\<lambda>st. is_kind meta st decision) (tl w)" "w = [] \<or> is_kind meta nxt decision"
        "n \<le> length w \<or> \<not> is_kind meta (current s') decision"
      using out ng by (auto simp: chain_ok_def Pair Inr)
    have "nxt # tl (w @ [current s']) = w @ [current s']" using w(3) by (cases w) auto
    moreover have "list_all (\<lambda>st. is_kind meta st decision) w" using w(3,5,6) by (cases w) auto
    moreover have "successively (moves f meta) (cur # w @ [current s'])" using w(2,3) mv by (cases w) auto
    ultimately show ?thesis
      using out w k by (auto simp: chain_ok_def Pair Inr intro!: exI[of _ "cur # w"])
  qed (use out in \<open>auto simp: chain_ok_def Pair\<close>)
qed

lemma observed_chain_ok:
  assumes r: "runnable m f" and ex: "ma_guardExprs m = Some exprs"
  shows "cur \<in> set (fsm_states f) \<Longrightarrow> chain_ok f (ma_meta m) n cur effs s
    (observed_chain (observed_eval f (registry_guards exprs ec) ctx) (ma_meta m) n cur effs s)"
proof (induction n arbitrary: cur effs s)
  case 0
  then show ?case using chain_stop[of cur f effs effs 0] by simp
next
  case (Suc n)
  let ?meta = "ma_meta m"
  have v: "validateFsm f = []" "keys ?meta = fsm_states f" using r by (auto simp: runnable_def machine_sound_def)
  obtain sm where sm: "map_of ?meta cur = Some sm"
    using Suc.prems map_of_eq_None_iff[of ?meta cur] v(2) by (cases "map_of ?meta cur") (simp_all, metis list.set_map)
  have kind: "is_kind ?meta cur k \<longleftrightarrow> sm_kind sm = k" for k by (simp add: is_kind_def sm)
  show ?case
  proof (cases "sm_kind sm = gate \<or> sm_kind sm = decision")
    case False
    then show ?thesis using chain_stop[OF Suc.prems, of effs effs "Suc n" ?meta s] kind by (simp add: sm)
  next
    case True
    note ok = observed_eval_ok[OF r Suc.prems sm True ex, of ec ctx]
    show ?thesis
    proof (cases "observed_eval f (registry_guards exprs ec) ctx cur sm")
      case (Inl e)
      then show ?thesis
        using ok True stuckI[OF Suc.prems]
        by (auto simp: sm chain_ok_def step_ok_def list_ex_iff simp del: error_text.simps)
    next
      case (Inr st)
      show ?thesis
      proof (cases st)
        case (Advance nxt notice)
        have mv: "moves f ?meta cur nxt" using ok by (simp add: Inr Advance step_ok_def)
        have nd: "nxt \<in> set (fsm_states f)" by (rule moves_declared[OF v(1) Suc.prems mv])
        show ?thesis
        proof (cases "is_kind ?meta nxt gate")
          case True
          then have "\<not> is_kind ?meta nxt decision" by (auto simp: is_kind_def split: option.splits)
          then show ?thesis
            using True \<open>sm_kind sm = gate \<or> sm_kind sm = decision\<close> mv nd kind
            by (auto simp: sm Inr Advance Let_def chain_ok_def intro!: exI[of _ "[cur]"])
        next
          case False
          then show ?thesis
            using chain_extend[OF Suc.IH[OF nd] mv _ False] True kind
            by (auto simp: sm Inr Advance Let_def)
        qed
      next
        case (Enforce a msg)
        then show ?thesis
          using ok kind True chain_stop[OF Suc.prems, of "effs @ [gateFail cur a msg]" effs "Suc n" ?meta s]
          by (simp add: sm Inr step_ok_def)
      next
        case (Ended out reason)
        then show ?thesis using ok by (simp add: Inr step_ok_def)
      qed
    qed
  qed
qed

lemma observed_receive_ok:
  assumes "runnable m f" "current s \<in> set (fsm_states f)"
  shows "chain_ok f (ma_meta m) MAX_CHAIN (current s) [] s (ap_receive (observed_actor addr ec ctx_of m f) env s)"
proof -
  obtain exprs where ex: "ma_guardExprs m = Some exprs"
    using assms(1) by (auto simp: runnable_def machine_sound_def)
  show ?thesis
  proof (cases "awaits_other (ma_meta m) (current s) (env_kind env)")
    case True
    then have "\<not> is_kind (ma_meta m) (current s) decision"
      by (auto simp: awaits_other_def is_kind_def split: option.splits)
    then show ?thesis
      using chain_stop[OF assms(2), of "[]" "[]" MAX_CHAIN "ma_meta m" s] True
      by (simp add: observed_actor_def observed_receive_def)
  next
    case False
    then show ?thesis
      using observed_chain_ok[OF assms(1) ex assms(2), of MAX_CHAIN "[]" s ec "ctx_of (env_payload env)"]
      by (simp add: observed_actor_def observed_receive_def ex)
  qed
qed

lemma chain_ok_declared:
  "chain_ok f meta n cur effs s out \<Longrightarrow> current s \<in> set (fsm_states f) \<Longrightarrow> current (snd out) \<in> set (fsm_states f)"
  by (auto simp: chain_ok_def split: prod.splits sum.splits)

text \<open>The observed actor is a supervised actor: it stays in a declared state through crashes, restarts
  and parking.\<close>

definition observed_declared :: "Machine \<Rightarrow> Fsm \<Rightarrow> ActorState \<Rightarrow> bool" where
  "observed_declared m f s \<longleftrightarrow> (runnable m f \<longrightarrow> current s \<in> set (fsm_states f))"

interpretation observed: actor_port "observed_actor addr ec ctx_of m f" "observed_declared m f" for addr ec ctx_of m f
proof unfold_locales
  fix s env reason assume s: "observed_declared m f s"
  show "observed_declared m f (snd (ap_receive (observed_actor addr ec ctx_of m f) env s))"
    unfolding observed_declared_def
  proof
    assume r: "runnable m f"
    then have "current s \<in> set (fsm_states f)" using s by (simp add: observed_declared_def)
    then show "current (snd (ap_receive (observed_actor addr ec ctx_of m f) env s)) \<in> set (fsm_states f)"
      using chain_ok_declared[OF observed_receive_ok[OF r]] by simp
  qed
  show "observed_declared m f (ap_restart (observed_actor addr ec ctx_of m f) s)"
    by (auto simp: observed_declared_def observed_actor_def base_restart_def initial_actor_def runnable_def
        machine_sound_def initial_declared)
  show "observed_declared m f (ap_toWedge (observed_actor addr ec ctx_of m f) reason s)"
    using s by (simp add: observed_declared_def observed_actor_def base_toWedge_def)
qed

lemma compiled_runnable:
  "PackV2_schema p \<Longrightarrow> compilePackV2 p = Inr c \<Longrightarrow> ma_fsm (machine c) = Some f \<Longrightarrow> slash_free f \<Longrightarrow>
   runnable (machine c) f"
  using compile_sound[of p c] by (auto simp: runnable_def compiled_sound_def intro: machine_sound_None)

text \<open>
  C33. An observed actor on a compiled pack walks its table. An envelope either leaves it at rest, or
  takes it from its state along moves of the table, each by an event that the metadata of the state
  emits; the effects write exactly the states entered, every state in between is a decision, so one
  observation passes at most one gate, and the walk only stops in a decision when it has hit the cap
  on the chain. The only way to fail is an emitted event that leads nowhere from the state that emits
  it, and a failed envelope leaves the actor's current state alone. No other invariant of the compiler
  is ever violated at run time.
\<close>

theorem observed_actor_walks_table:
  assumes "PackV2_schema p" "compilePackV2 p = Inr c" "ma_fsm (machine c) = Some f" "slash_free f"
    and "current s \<in> set (fsm_states f)"
  shows "case ap_receive (observed_actor addr ec ctx_of (machine c) f) env s of
      (Inl e, s') \<Rightarrow> current s' = current s \<and> stuck f (ma_meta (machine c)) e
    | (Inr effs, s') \<Rightarrow> current s' \<in> set (fsm_states f) \<and>
        take (length (history s)) (history s') = history s \<and>
        successively (moves f (ma_meta (machine c))) (walked s s') \<and> hd (walked s s') = current s \<and>
        written effs = tl (walked s s') \<and>
        list_all (\<lambda>st. is_kind (ma_meta (machine c)) st decision) (butlast (tl (walked s s'))) \<and>
        (MAX_CHAIN < length (walked s s') \<or> \<not> is_kind (ma_meta (machine c)) (current s') decision)"
proof -
  note out = observed_receive_ok[OF compiled_runnable[OF assms(1-4)] assms(5), of addr ec ctx_of env]
  have "butlast (tl (w @ [x])) = tl w" for w and x :: string by (cases w) auto
  then show ?thesis
    using out by (auto simp: chain_ok_def walked_def split: prod.splits sum.splits)
qed

definition demo_env :: "MessageKind \<Rightarrow> payload Envelope" where
  "demo_env k = \<lparr>env_seq = 1, env_from = ''agent'', env_to = ''pack:demo'', env_kind = k, env_corr = None,
     env_payload = Other_payload ''ctx'', env_ts = 0\<rparr>"

text \<open>An expression engine for the examples: the first guard of the demo pack holds, the other does
  not.\<close>

definition demo_eval :: "string \<Rightarrow> payload \<Rightarrow> bool" where
  "demo_eval e c = (e = ''verdict'')"

definition observed_run :: "Machine \<Rightarrow> Fsm \<Rightarrow> MessageKind \<Rightarrow> (string + Effect list) \<times> ActorState" where
  "observed_run m f k = observed_receive f (ma_meta m)
     (registry_guards (case ma_guardExprs m of Some g \<Rightarrow> g | None \<Rightarrow> []) demo_eval) id (demo_env k) (initial_actor f)"

lemma ap_receive_observed:
  "ap_receive (observed_actor addr demo_eval id m f) (demo_env k) (initial_actor f) = observed_run m f k"
  by (simp add: observed_actor_def observed_run_def)

lemma demo_machine_fsm: "ma_fsm (machine demo_compiled) = Some (compiled_fsm demo_flow)"
  "slash_free (compiled_fsm demo_flow)"
  "current (initial_actor (compiled_fsm demo_flow)) \<in> set (fsm_states (compiled_fsm demo_flow))"
  by code_simp+

theorem observed_actor_walks_table_witness:
  "case observed_run demo_machine (compiled_fsm demo_flow) tool_call of
     (Inl e, s') \<Rightarrow> current s' = ''review''
   | (Inr effs, s') \<Rightarrow> written effs = tl (walked (initial_actor (compiled_fsm demo_flow)) s')"
proof -
  have m: "machine demo_compiled = demo_machine" by (simp add: demo_compiled_def)
  have c: "current (initial_actor (compiled_fsm demo_flow)) = ''review''" by code_simp
  show ?thesis
    using observed_actor_walks_table[OF demo_schema demo_compiles demo_machine_fsm,
        where addr = "''a''" and ec = demo_eval and ctx_of = id and env = "demo_env tool_call"]
    unfolding ap_receive_observed m c by (auto split: prod.splits sum.splits)
qed

section \<open>Where compiling stops short\<close>

text \<open>A pack whose decision emits an event that only another state routes, and a pack whose gate loops
  on itself.\<close>

definition misrouted_flow :: FsmV2 where
  "misrouted_flow = \<lparr>fv_initial = ''review'', fv_states =
     [(''review'', GateState review_gate), (''size'', DecisionState [ElseBranch ''small'']),
      (''done'', TerminalState shipped)],
     fv_transitions = [edge ''review'' ''passed'' ''size'', edge ''review'' ''small'' ''done'']\<rparr>"

definition looping_flow :: FsmV2 where
  "looping_flow = \<lparr>fv_initial = ''review'', fv_states = [(''review'', GateState review_gate)],
     fv_transitions = [edge ''review'' ''passed'' ''review'']\<rparr>"

definition flow_machine :: "FsmV2 \<Rightarrow> Machine" where
  "flow_machine f = \<lparr>ma_fsm = Some (compiled_fsm f), ma_meta = compiled_meta (plain_pack f None) f,
     ma_automation = None, ma_reactions = None, ma_guardExprs = Some [(''ok'', ''verdict''), (''big'', ''size'')]\<rparr>"

lemma flow_packs_compile:
  "PackV2_schema (plain_pack misrouted_flow None)" "PackV2_schema (plain_pack looping_flow None)"
  "compilePackV2 (plain_pack misrouted_flow None) = Inr \<lparr>machine = flow_machine misrouted_flow, flows = None\<rparr>"
  "compilePackV2 (plain_pack looping_flow None) = Inr \<lparr>machine = flow_machine looping_flow, flows = None\<rparr>"
  by code_simp+

definition demo_dispatch :: "FsmV2 \<Rightarrow> string \<Rightarrow> driver_error + DriverStep" where
  "demo_dispatch fl st = observed_eval (compiled_fsm fl) (registry_guards [(''ok'', ''verdict''), (''big'', ''size'')] demo_eval)
     (Other_payload ''ctx'') st (the (map_of (ma_meta (flow_machine fl)) st))"

lemma flow_dispatch:
  "demo_dispatch misrouted_flow ''review'' = Inr (Advance ''size'' None)"
  "demo_dispatch misrouted_flow ''size'' = Inl (NoTransition ''size'' ''small'')"
  "demo_dispatch looping_flow ''review'' = Inl (NoTransition ''review'' ''passed'')"
  by code_simp+

lemma flow_kinds:
  "map_of (ma_meta (flow_machine misrouted_flow)) ''review'' = Some (stateMeta False (GateState review_gate))"
  "map_of (ma_meta (flow_machine misrouted_flow)) ''size'' = Some (stateMeta False (DecisionState [ElseBranch ''small'']))"
  "map_of (ma_meta (flow_machine looping_flow)) ''review'' = Some (stateMeta False (GateState review_gate))"
  "sm_kind (stateMeta False (GateState review_gate)) = gate"
  "sm_kind (stateMeta False (DecisionState [ElseBranch ''small''])) = decision"
  "is_kind (ma_meta (flow_machine misrouted_flow)) ''size'' gate = False"
  "\<not> awaits_other (ma_meta (flow_machine misrouted_flow)) ''review'' tool_call"
  "\<not> awaits_other (ma_meta (flow_machine looping_flow)) ''review'' tool_call"
  by code_simp+

lemma chain_cap: "MAX_CHAIN = Suc (Suc 9998)"
  by (simp add: MAX_CHAIN_def)

text \<open>
  Routing is checked per event name, not per state. The compiler only asks that an emitted event
  occurs on some transition of the machine, so it accepts a decision whose event is routed from
  another state, and a gate that is routed back to itself, which the dispatch takes for a missing
  transition. Both packs pass the schema and compile, and both throw on the first observation that
  passes the gate; in the first one the history already records the gate as left, while the current
  state is still the gate.
\<close>

theorem routing_checked_by_name_only:
  "PackV2_schema (plain_pack misrouted_flow None) \<and> PackV2_schema (plain_pack looping_flow None) \<and>
   compilePackV2 (plain_pack misrouted_flow None) = Inr \<lparr>machine = flow_machine misrouted_flow, flows = None\<rparr> \<and>
   compilePackV2 (plain_pack looping_flow None) = Inr \<lparr>machine = flow_machine looping_flow, flows = None\<rparr> \<and>
   observed_run (flow_machine misrouted_flow) (compiled_fsm misrouted_flow) tool_call =
     (Inl (error_text (NoTransition ''size'' ''small'')), \<lparr>current = ''review'', history = [''review''], wedged = None\<rparr>) \<and>
   observed_run (flow_machine looping_flow) (compiled_fsm looping_flow) tool_call =
     (Inl (error_text (NoTransition ''review'' ''passed'')), \<lparr>current = ''review'', history = [], wedged = None\<rparr>)"
proof -
  have g: "(case ma_guardExprs (flow_machine fl) of Some g \<Rightarrow> g | None \<Rightarrow> []) = [(''ok'', ''verdict''), (''big'', ''size'')]" for fl
    by (simp add: flow_machine_def)
  have init: "initial_actor (compiled_fsm fl) = \<lparr>current = ''review'', history = [], wedged = None\<rparr>"
    if "fv_initial fl = ''review''" for fl using that by (simp add: initial_actor_def compiled_fsm_def)
  have i: "fv_initial misrouted_flow = ''review''" "fv_initial looping_flow = ''review''"
    by (simp_all add: misrouted_flow_def looping_flow_def)
  note run = flow_kinds flow_dispatch[unfolded demo_dispatch_def flow_kinds option.sel]
  let ?ev = "\<lambda>fl. observed_eval (compiled_fsm fl) (registry_guards [(''ok'', ''verdict''), (''big'', ''size'')] demo_eval)
    (Other_payload ''ctx'')"
  let ?s = "\<lparr>current = ''review'', history = [], wedged = None\<rparr>"
  have "observed_chain (?ev misrouted_flow) (ma_meta (flow_machine misrouted_flow)) (Suc (Suc n)) ''review'' [] ?s =
      (Inl (error_text (NoTransition ''size'' ''small'')), ?s\<lparr>history := [''review'']\<rparr>)" for n
    by (simp add: run Let_def del: error_text.simps stateMeta.simps)
  moreover have "observed_chain (?ev looping_flow) (ma_meta (flow_machine looping_flow)) (Suc (Suc n)) ''review'' [] ?s =
      (Inl (error_text (NoTransition ''review'' ''passed'')), ?s)" for n
    by (simp add: run Let_def del: error_text.simps stateMeta.simps)
  ultimately have
    "observed_chain (?ev misrouted_flow) (ma_meta (flow_machine misrouted_flow)) MAX_CHAIN ''review'' [] ?s =
      (Inl (error_text (NoTransition ''size'' ''small'')), ?s\<lparr>history := [''review'']\<rparr>)"
    "observed_chain (?ev looping_flow) (ma_meta (flow_machine looping_flow)) MAX_CHAIN ''review'' [] ?s =
      (Inl (error_text (NoTransition ''review'' ''passed'')), ?s)"
    unfolding chain_cap by blast+
  then show ?thesis
    by (intro conjI flow_packs_compile)
      (simp_all add: observed_run_def observed_receive_def g init[OF i(1)] init[OF i(2)] demo_env_def flow_kinds
        del: error_text.simps)
qed

section \<open>What ends the inner loop of an executor\<close>

text \<open>The pulls of an executor, left to run: the world before the \<open>k\<close>-th, its answer, and the
  observations up to and including it.\<close>

fun world_after :: "('w \<Rightarrow> 'a \<times> 'w) \<Rightarrow> nat \<Rightarrow> 'w \<Rightarrow> 'w" where
  "world_after nxt 0 w = w"
| "world_after nxt (Suc k) w = world_after nxt k (snd (nxt w))"

definition pull :: "('w \<Rightarrow> (string + InnerStep option) \<times> 'w) \<Rightarrow> nat \<Rightarrow> 'w \<Rightarrow> string + InnerStep option" where
  "pull nxt k w = fst (nxt (world_after nxt k w))"

fun pulled :: "string + InnerStep option \<Rightarrow> ToolObservation list" where
  "pulled (Inr (Some inner)) = [is_observation inner]"
| "pulled _ = []"

text \<open>The eighth failure of one tool, whatever else was called in between.\<close>

definition degenerate :: "ToolObservation list \<Rightarrow> bool" where
  "degenerate obs \<longleftrightarrow> obs \<noteq> [] \<and> o_failed (last obs) \<and> 8 \<le> failures_of_tool obs (o_tool (last obs))"

text \<open>A pull that ends the loop, and how; \<open>past\<close> are the observations before it.\<close>

definition ends_at :: "ToolObservation list \<Rightarrow> string + InnerStep option \<Rightarrow> executor_end option" where
  "ends_at past r = (case r of
     Inl e \<Rightarrow> Some (Failed e)
   | Inr None \<Rightarrow> Some GaveUp
   | Inr (Some inner) \<Rightarrow>
       if degenerate (past @ [is_observation inner]) then Some (Broken ''progress-floor-degenerate'')
       else if is_completionGuardHeld inner then Some Released else None)"

definition ending :: "('w \<Rightarrow> (string + InnerStep option) \<times> 'w) \<Rightarrow> ToolObservation list \<Rightarrow> 'w \<Rightarrow> nat \<Rightarrow> executor_end option" where
  "ending nxt past w k = ends_at (past @ concat (map (\<lambda>i. pulled (pull nxt i w)) [0..<k])) (pull nxt k w)"

lemma floor_spec_halt: "floor_spec (past @ [c]) = halt \<longleftrightarrow> degenerate (past @ [c])"
  by (auto simp: floor_spec_def degenerate_def Let_def)

lemma executor_loop_unfold:
  "executor_loop nxt (floor_run past) w = (case ends_at past (fst (nxt w)) of
     Some e \<Rightarrow> Some (e, snd (nxt w))
   | None \<Rightarrow> executor_loop nxt (floor_run (past @ pulled (fst (nxt w)))) (snd (nxt w)))"
proof (cases "nxt w")
  case (Pair r w')
  show ?thesis
  proof (cases r)
    case (Inr st)
    show ?thesis
    proof (cases st)
      case (Some inner)
      have "fst (floor_observe (is_observation inner) (floor_run past)) = floor_spec (past @ [is_observation inner])"
        by (rule floor_observe_spec)
      then show ?thesis
        using floor_spec_halt[of past "is_observation inner"]
        by (subst executor_loop.simps)
          (simp add: Pair Inr Some ends_at_def evaluateCompletion_def floor_run_snoc)
    qed (subst executor_loop.simps, simp add: Pair Inr ends_at_def)
  qed (subst executor_loop.simps, simp add: Pair ends_at_def)
qed

lemma ending_0: "ending nxt past w 0 = ends_at past (fst (nxt w))"
  by (simp add: ending_def pull_def)

lemma pull_Suc: "pull nxt (Suc i) w = pull nxt i (snd (nxt w))"
  by (simp add: pull_def)

lemma ending_Suc: "ending nxt past w (Suc k) = ending nxt (past @ pulled (fst (nxt w))) (snd (nxt w)) k"
proof -
  have "map (\<lambda>i. pulled (pull nxt i w)) [0..<Suc k] =
      pulled (fst (nxt w)) # map (\<lambda>i. pulled (pull nxt i (snd (nxt w)))) [0..<k]"
    unfolding upt_conv_Cons[OF zero_less_Suc] map_Suc_upt[symmetric] by (simp add: pull_Suc) (simp add: pull_def)
  then show ?thesis by (simp add: ending_def pull_Suc)
qed

lemma executor_loop_ends:
  "(\<And>j. j < k \<Longrightarrow> ending nxt past w j = None) \<Longrightarrow> ending nxt past w k = Some e \<Longrightarrow>
   executor_loop nxt (floor_run past) w = Some (e, world_after nxt (Suc k) w)"
proof (induction k arbitrary: past w)
  case 0
  then show ?case by (subst executor_loop_unfold) (simp add: ending_0)
next
  case (Suc k)
  have "ends_at past (fst (nxt w)) = None" using Suc.prems(1)[of 0] by (simp add: ending_0)
  moreover have "executor_loop nxt (floor_run (past @ pulled (fst (nxt w)))) (snd (nxt w)) =
      Some (e, world_after nxt (Suc k) (snd (nxt w)))"
    by (rule Suc.IH) (use Suc.prems in \<open>force simp: ending_Suc\<close>)+
  ultimately show ?case by (subst executor_loop_unfold) simp
qed

lemma executor_loop_returns:
  assumes "executor_loop nxt c w = Some r"
  shows "\<forall>past. c = floor_run past \<longrightarrow> (\<exists>k. ending nxt past w k \<noteq> None)"
proof (rule executor_loop.raw_induct[OF _ assms], intro allI impI)
  fix loop :: "('a \<Rightarrow> (string + InnerStep option) \<times> 'a) \<Rightarrow> FloorCounters \<Rightarrow> 'a \<Rightarrow> (executor_end \<times> 'a) option"
  fix nxt :: "'a \<Rightarrow> (string + InnerStep option) \<times> 'a" and c w y past
  assume IH: "\<And>nxt c w y. loop nxt c w = Some y \<Longrightarrow> \<forall>past. c = floor_run past \<longrightarrow> (\<exists>k. ending nxt past w k \<noteq> None)"
    and body: "(case nxt w of
        (Inl e, w') \<Rightarrow> Some (Failed e, w')
      | (Inr None, w') \<Rightarrow> Some (GaveUp, w')
      | (Inr (Some inner), w') \<Rightarrow>
          (case evaluateCompletion (is_completionGuardHeld inner) (fst (floor_observe (is_observation inner) c)) of
             Release \<Rightarrow> Some (Released, w')
           | Break reason \<Rightarrow> Some (Broken reason, w')
           | Continue \<Rightarrow> loop nxt (snd (floor_observe (is_observation inner) c)) w')) = Some y"
    and c: "c = floor_run past"
  show "\<exists>k. ending nxt past w k \<noteq> None"
  proof (cases "ends_at past (fst (nxt w))")
    case (Some e)
    then show ?thesis by (auto simp: ending_0 intro!: exI[of _ 0])
  next
    case None
    then obtain inner where i: "fst (nxt w) = Inr (Some inner)"
      by (cases "fst (nxt w)") (auto simp: ends_at_def split: option.splits)
    then have n: "nxt w = (Inr (Some inner), snd (nxt w))" by (metis prod.collapse)
    have "loop nxt (floor_run (past @ [is_observation inner])) (snd (nxt w)) = Some y"
      using body None unfolding c
      by (subst (asm) n) (simp add: i ends_at_def evaluateCompletion_def floor_run_snoc floor_observe_spec
          floor_spec_halt split: if_splits)
    then obtain k where "ending nxt (past @ [is_observation inner]) (snd (nxt w)) k \<noteq> None" using IH by blast
    then have "ending nxt past w (Suc k) \<noteq> None" by (simp add: ending_Suc i)
    then show ?thesis by (rule exI)
  qed
qed

text \<open>
  The inner loop of an executor ends exactly at the first pull that decides it: the executor
  fails or gives up, or the call is the eighth failure of its tool, or the completion guard holds.
  A degenerate call breaks the loop even if the guard holds; nothing the executor claims releases it
  while the guard fails; and without such a pull the loop never returns.
\<close>

theorem executor_loop_decided:
  "executor_loop nxt no_counters w =
     (if \<exists>k. ending nxt [] w k \<noteq> None
      then let k = LEAST k. ending nxt [] w k \<noteq> None
           in Some (the (ending nxt [] w k), world_after nxt (Suc k) w)
      else None)"
proof -
  have c: "no_counters = floor_run []" by (simp add: floor_run_def)
  show ?thesis
  proof (cases "\<exists>k. ending nxt [] w k \<noteq> None")
    case True
    let ?k = "LEAST k. ending nxt [] w k \<noteq> None"
    have "ending nxt [] w ?k = Some (the (ending nxt [] w ?k))" using LeastI_ex[OF True] by (simp add: option.collapse)
    moreover have "ending nxt [] w j = None" if "j < ?k" for j using not_less_Least[OF that] by simp
    ultimately have "executor_loop nxt no_counters w = Some (the (ending nxt [] w ?k), world_after nxt (Suc ?k) w)"
      unfolding c by (intro executor_loop_ends)
    then show ?thesis using True by (simp only: if_True Let_def)
  next
    case False
    then have "executor_loop nxt no_counters w = None"
      using executor_loop_returns[of nxt no_counters w] c by (meson not_None_eq)
    then show ?thesis using False by (simp only: if_False)
  qed
qed

section \<open>A sub-flow that runs itself\<close>

text \<open>A registry in which a flow's sub-flow is the flow itself, directly or through others, passes the
  compiler: it only checks that the names are registered.\<close>

definition recursive_flow :: FsmV2 where
  "recursive_flow = \<lparr>fv_initial = ''again'', fv_states =
     [(''again'', SubFlowState ''self'' ''finished''), (''done'', TerminalState shipped)],
     fv_transitions = [edge ''again'' ''finished'' ''done'']\<rparr>"

definition recursive_pack :: PackV2 where
  "recursive_pack = plain_pack recursive_flow (Some [(''self'', recursive_flow)])"

definition recursive_compiled :: CompiledPack where
  "recursive_compiled = \<lparr>machine = flow_machine recursive_flow, flows = Some [(''self'', flow_machine recursive_flow)]\<rparr>"

text \<open>
  Sub-flows may recurse, and then they never return. The compiler accepts a flow whose initial
  state runs the flow itself; the driver starts a new driver for it, which starts the next, and no
  depth of nesting lets it return, although the cap on steps is there so that a sub-flow that does not
  terminate becomes a wedge.
\<close>

theorem recursive_sub_flow_never_returns:
  "PackV2_schema recursive_pack \<and> compilePackV2 recursive_pack = Inr recursive_compiled \<and>
   runToTerminal d D ctx recursive_compiled w = None"
proof (intro conjI)
  show "PackV2_schema recursive_pack" "compilePackV2 recursive_pack = Inr recursive_compiled" by code_simp+
  have m: "map_of (ma_meta (machine recursive_compiled)) ''again'' = Some (stateMeta False (SubFlowState ''self'' ''finished''))"
    "Option.bind (flows recursive_compiled) (\<lambda>ms. map_of ms ''self'') = Some (flow_machine recursive_flow)"
    "map_option fsm_initial (ma_fsm (machine recursive_compiled)) = Some ''again''"
    "\<lparr>machine = flow_machine recursive_flow, flows = flows recursive_compiled\<rparr> = recursive_compiled"
    by code_simp+
  show "runToTerminal d D ctx recursive_compiled w = None"
  proof (induction d arbitrary: w)
    case (Suc d)
    have "driver_step (runToTerminal d D ctx) D recursive_compiled ''again'' ctx w = None"
      by (simp add: driver_step_def m(1) no_meta_def runSubFlow_def str_or_empty_def m(2,4) Suc.IH)
    then have "drive (\<lambda>st. driver_step (runToTerminal d D ctx) D recursive_compiled st ctx) (Suc n) ''again'' w = None" for n
      by simp
    moreover have "MAX_STEPS = Suc 9999" by (simp add: MAX_STEPS_def)
    ultimately have "drive (\<lambda>st. driver_step (runToTerminal d D ctx) D recursive_compiled st ctx) MAX_STEPS ''again'' w = None"
      by metis
    then show ?case using m(3) by (auto split: option.splits)
  qed simp
qed

end
