(* ===== verification/ExprSyntax.thy ===== *)
theory ExprSyntax
  imports Floors "HOL-Library.Log_Nat"
begin

text \<open>
  The guard language, syntax: the lexer, the grammar and the syntax trees of
  \<open>src/src/runtime/evaluator/expression/\<close> (\<open>lexer.ts\<close>, \<open>parser.ts\<close>, \<open>ast.ts\<close>).

  The lexer and parser generators are a library; the token patterns and the grammar rules are the
  code's. A token pattern is tried at each position in the declared order, and a character that no
  pattern matches is an error. The grammar is read by recursive descent, one clause per rule, with
  one token of look-ahead, and the whole input has to be consumed. The functions of the rules count
  their calls, and \<open>parse_fuel\<close> shows that the count \<open>parse\<close> starts with always suffices. Source
  offsets, which only serve error messages, are left out of tokens and nodes.
\<close>

section \<open>Numbers\<close>

text \<open>A number of the language: a double, so a rational with at most 53 significant bits, an infinity,
  or not a number.\<close>

datatype jsnum = Fin rat | Infinity bool | NaN

definition pow2 :: "int \<Rightarrow> rat" where
  "pow2 e = (if 0 \<le> e then 2 ^ nat e else 1 / 2 ^ nat (- e))"

definition round_even :: "rat \<Rightarrow> int" where
  "round_even x = (let f = \<lfloor>x\<rfloor>; d = x - of_int f
     in if d < 1 / 2 then f else if 1 / 2 < d then f + 1 else if even f then f else f + 1)"

definition exponent :: "rat \<Rightarrow> int" where
  "exponent x = (case quotient_of x of (p, q) \<Rightarrow>
     let e = int (floorlog 2 (nat p)) - int (floorlog 2 (nat q)) in if pow2 e \<le> x then e else e - 1)"

text \<open>The nearest double of a rational that is not negative.\<close>

definition to_double :: "rat \<Rightarrow> jsnum" where
  "to_double x =
     (if x = 0 then Fin 0
      else let u = pow2 (max (exponent x) (- 1022) - 52); r = of_int (round_even (x / u)) * u
        in if pow2 1024 \<le> r then Infinity True else Fin r)"

definition digit_value :: "char \<Rightarrow> nat" where
  "digit_value c = of_char c - 48"

definition is_digit :: "char \<Rightarrow> bool" where
  "is_digit c \<longleftrightarrow> (let n = of_char c :: nat in 48 \<le> n \<and> n \<le> 57)"

definition digits_value :: "string \<Rightarrow> nat" where
  "digits_value s = foldl (\<lambda>v c. 10 * v + digit_value c) 0 s"

text \<open>\<open>Number\<close> on the text of a number literal.\<close>

definition numberOf :: "string \<Rightarrow> jsnum" where
  "numberOf s = (let i = takeWhile is_digit s; f = drop 1 (dropWhile is_digit s)
     in to_double (of_nat (digits_value (i @ f)) / 10 ^ length f))"

section \<open>Tokens\<close>

datatype token = StringLit string | NumberLit string | TrueTok | FalseTok | NullTok | EqEq | NotEq
  | Lte | Gte | Lt | Gt | AndAnd | OrOr | Bang | LParen | RParen | LBracket | RBracket | Comma | Dot
  | Identifier string

definition is_newline :: "char \<Rightarrow> bool" where
  "is_newline c \<longleftrightarrow> c = CHR 0x0A \<or> c = CHR 0x0D"

definition DQUOTE :: char where "DQUOTE = CHR 0x22"
definition BACKSLASH :: char where "BACKSLASH = CHR 0x5C"

text \<open>The length of the rest of a string literal, with its closing quote.\<close>

fun literal_rest :: "string \<Rightarrow> nat option" where
  "literal_rest [] = None"
| "literal_rest [c] = (if c = DQUOTE then Some 1 else None)"
| "literal_rest (c # d # cs) =
     (if c = DQUOTE then Some 1
      else if c = BACKSLASH
      then (if is_newline d then None else map_option (\<lambda>n. n + 2) (literal_rest cs))
      else map_option Suc (literal_rest (d # cs)))"

text \<open>\<open>/\d+(?:\.\d+)?/\<close>, of a text that starts with a digit.\<close>

definition number_len :: "string \<Rightarrow> nat" where
  "number_len s = (let i = length (takeWhile is_digit s); r = drop i s
     in if starts_with r ''.'' \<and> takeWhile is_digit (drop 1 r) \<noteq> []
        then i + 1 + length (takeWhile is_digit (drop 1 r)) else i)"

definition is_ident_start :: "char \<Rightarrow> bool" where
  "is_ident_start c \<longleftrightarrow> is_word c \<and> \<not> is_digit c"

definition keyword :: "string \<Rightarrow> string \<Rightarrow> bool" where
  "keyword w s \<longleftrightarrow> starts_with s w \<and> word_ends (drop (length w) s)"

text \<open>The patterns after the literals, in their order: text, token.\<close>

definition operator_tokens :: "(string \<times> token) list" where
  "operator_tokens = [(''==='', EqEq), (''=='', EqEq), (''!=='', NotEq), (''!='', NotEq), (''<='', Lte),
     (''>='', Gte), (''<'', Lt), (''>'', Gt), (''&&'', AndAnd), (''||'', OrOr), (''!'', Bang), (''('', LParen),
     ('')'', RParen), (''['', LBracket), ('']'', RBracket), ('','', Comma), (''.'', Dot)]"

text \<open>The token at the head of a text, if any (white space is dropped), and how far it reaches beyond
  its first character.\<close>

definition next_token :: "string \<Rightarrow> (token option \<times> nat) option" where
  "next_token s =
     (if s = [] then None
      else if is_space (hd s) then Some (None, length (takeWhile is_space s) - 1)
      else if hd s = DQUOTE then map_option (\<lambda>n. (Some (StringLit (take (n + 1) s)), n)) (literal_rest (tl s))
      else if is_digit (hd s) then Some (Some (NumberLit (take (number_len s) s)), number_len s - 1)
      else if keyword ''true'' s then Some (Some TrueTok, 3)
      else if keyword ''false'' s then Some (Some FalseTok, 4)
      else if keyword ''null'' s then Some (Some NullTok, 3)
      else case List.find (\<lambda>(w, t). starts_with s w) operator_tokens of
          Some (w, t) \<Rightarrow> Some (Some t, length w - 1)
        | None \<Rightarrow> if is_ident_start (hd s)
            then Some (Some (Identifier (takeWhile is_word s)), length (takeWhile is_word s) - 1) else None)"

function tokenize :: "string \<Rightarrow> token list option" where
  "tokenize s =
     (if s = [] then Some []
      else case next_token s of
          None \<Rightarrow> None
        | Some (t, n) \<Rightarrow> map_option (\<lambda>ts. (case t of None \<Rightarrow> ts | Some x \<Rightarrow> x # ts)) (tokenize (drop (Suc n) s)))"
  by pat_completeness auto
termination by (relation "measure length") auto

declare tokenize.simps [simp del]

section \<open>Syntax trees\<close>

datatype BinaryOp = OpEq | OpNeq | OpLt | OpLte | OpGt | OpGte | OpAnd | OpOr

datatype PathSegment = Prop string | IndexNum jsnum | IndexStr string

datatype lit = LStr string | LNum jsnum | LBool bool | LNull

datatype ASTNode = Literal lit | Name string | Path ASTNode "PathSegment list"
  | Call string "ASTNode list" | Unary ASTNode | Binary BinaryOp ASTNode ASTNode

definition esc_char :: "char \<Rightarrow> char" where
  "esc_char c = (if c = CHR ''n'' then CHR 0x0A else if c = CHR ''t'' then CHR 0x09
     else if c = CHR ''r'' then CHR 0x0D else c)"

fun unescape :: "string \<Rightarrow> string" where
  "unescape [] = []"
| "unescape [c] = [c]"
| "unescape (c # d # cs) = (if c = BACKSLASH then esc_char d # unescape cs else c # unescape (d # cs))"

definition parseStringLit :: "string \<Rightarrow> string" where
  "parseStringLit raw = unescape (butlast (drop 1 raw))"

section \<open>The grammar\<close>

text \<open>The outcome of a rule: out of calls, a syntax error, or a value and the rest of the input.\<close>

datatype 'a parsed = Out | Bad | Got 'a "token list"

fun literal_of :: "token \<Rightarrow> lit option" where
  "literal_of (StringLit raw) = Some (LStr (parseStringLit raw))"
| "literal_of (NumberLit raw) = Some (LNum (numberOf raw))"
| "literal_of TrueTok = Some (LBool True)"
| "literal_of FalseTok = Some (LBool False)"
| "literal_of NullTok = Some LNull"
| "literal_of _ = None"

fun compare_op :: "token \<Rightarrow> BinaryOp option" where
  "compare_op EqEq = Some OpEq"
| "compare_op NotEq = Some OpNeq"
| "compare_op Lte = Some OpLte"
| "compare_op Gte = Some OpGte"
| "compare_op Lt = Some OpLt"
| "compare_op Gt = Some OpGt"
| "compare_op _ = None"

text \<open>Consume one given token.\<close>

definition consume :: "token \<Rightarrow> token list \<Rightarrow> token list option" where
  "consume t ts = (case ts of [] \<Rightarrow> None | x # r \<Rightarrow> if x = t then Some r else None)"

fun index_segment :: "token \<Rightarrow> PathSegment option" where
  "index_segment (NumberLit i) = Some (IndexNum (numberOf i))"
| "index_segment (StringLit k) = Some (IndexStr (parseStringLit k))"
| "index_segment _ = None"

fun prop_segment :: "token \<Rightarrow> PathSegment option" where
  "prop_segment (Identifier x) = Some (Prop x)"
| "prop_segment _ = None"

definition add_segment :: "PathSegment option \<Rightarrow> PathSegment list parsed \<Rightarrow> PathSegment list parsed" where
  "add_segment s p = (case s of None \<Rightarrow> Bad | Some seg \<Rightarrow>
     (case p of Got ss r \<Rightarrow> Got (seg # ss) r | Bad \<Rightarrow> Bad | Out \<Rightarrow> Out))"

fun pathSegments :: "token list \<Rightarrow> PathSegment list parsed" where
  "pathSegments [] = Got [] []"
| "pathSegments (t # ts) =
     (if t = Dot then (case ts of [] \<Rightarrow> Bad | x # r \<Rightarrow> add_segment (prop_segment x) (pathSegments r))
      else if t = LBracket
      then (case ts of i # c # r \<Rightarrow> if c = RBracket then add_segment (index_segment i) (pathSegments r) else Bad
            | _ \<Rightarrow> Bad)
      else Got [] (t # ts))"

definition path_node :: "string \<Rightarrow> PathSegment list \<Rightarrow> ASTNode" where
  "path_node x ss = (if ss = [] then Name x else Path (Name x) ss)"

definition next_compare :: "token list \<Rightarrow> BinaryOp option" where
  "next_compare ts = (case ts of [] \<Rightarrow> None | t # r \<Rightarrow> compare_op t)"

text \<open>The rules of the grammar; the rest of a chain carries what was read so far, and so do the arguments
  of a call. The body of a rule calls other rules through its first argument.\<close>

datatype rule = Expression | OrExpr | OrRest ASTNode | AndExpr | AndRest ASTNode | NotExpr | CompareExpr
  | Primary | CallArgs string "ASTNode list"

definition then_rule :: "ASTNode parsed \<Rightarrow> (ASTNode \<Rightarrow> token list \<Rightarrow> ASTNode parsed) \<Rightarrow> ASTNode parsed" where
  "then_rule p k = (case p of Got a r \<Rightarrow> k a r | Bad \<Rightarrow> Bad | Out \<Rightarrow> Out)"

definition call_or_path ::
  "(rule \<Rightarrow> token list \<Rightarrow> ASTNode parsed) \<Rightarrow> string \<Rightarrow> token list \<Rightarrow> ASTNode parsed" where
  "call_or_path P f ts =
     (case consume LParen ts of
        None \<Rightarrow> (case pathSegments ts of Got ss r \<Rightarrow> Got (path_node f ss) r | Bad \<Rightarrow> Bad | Out \<Rightarrow> Out)
      | Some r1 \<Rightarrow> (case consume RParen r1 of Some r2 \<Rightarrow> Got (Call f []) r2 | None \<Rightarrow> P (CallArgs f []) r1))"

fun rule_body :: "(rule \<Rightarrow> token list \<Rightarrow> ASTNode parsed) \<Rightarrow> rule \<Rightarrow> token list \<Rightarrow> ASTNode parsed" where
  "rule_body P Expression ts = P OrExpr ts"
| "rule_body P OrExpr ts = then_rule (P AndExpr ts) (\<lambda>a. P (OrRest a))"
| "rule_body P (OrRest a) ts = (case consume OrOr ts of
     None \<Rightarrow> Got a ts
   | Some r \<Rightarrow> then_rule (P AndExpr r) (\<lambda>b. P (OrRest (Binary OpOr a b))))"
| "rule_body P AndExpr ts = then_rule (P NotExpr ts) (\<lambda>a. P (AndRest a))"
| "rule_body P (AndRest a) ts = (case consume AndAnd ts of
     None \<Rightarrow> Got a ts
   | Some r \<Rightarrow> then_rule (P NotExpr r) (\<lambda>b. P (AndRest (Binary OpAnd a b))))"
| "rule_body P NotExpr ts = (case consume Bang ts of
     None \<Rightarrow> P CompareExpr ts
   | Some r \<Rightarrow> then_rule (P CompareExpr r) (\<lambda>a. Got (Unary a)))"
| "rule_body P CompareExpr ts = then_rule (P Primary ts) (\<lambda>a r. case next_compare r of
     None \<Rightarrow> Got a r
   | Some oper \<Rightarrow> then_rule (P Primary (tl r)) (\<lambda>b. Got (Binary oper a b)))"
| "rule_body P Primary ts = (case ts of
     [] \<Rightarrow> Bad
   | t # r \<Rightarrow>
      (if t = LParen
       then then_rule (P Expression r) (\<lambda>a r1. case consume RParen r1 of Some r2 \<Rightarrow> Got a r2 | None \<Rightarrow> Bad)
       else case literal_of t of
         Some l \<Rightarrow> Got (Literal l) r
       | None \<Rightarrow> (case prop_segment t of Some (Prop f) \<Rightarrow> call_or_path P f r | _ \<Rightarrow> Bad)))"
| "rule_body P (CallArgs f as) ts = then_rule (P Expression ts) (\<lambda>a r. case consume Comma r of
     Some r1 \<Rightarrow> P (CallArgs f (as @ [a])) r1
   | None \<Rightarrow> (case consume RParen r of Some r1 \<Rightarrow> Got (Call f (as @ [a])) r1 | None \<Rightarrow> Bad))"

primrec parse_rule :: "nat \<Rightarrow> rule \<Rightarrow> token list \<Rightarrow> ASTNode parsed" where
  "parse_rule 0 = (\<lambda>q ts. Out)"
| "parse_rule (Suc n) = rule_body (parse_rule n)"

definition fuel_for :: "token list \<Rightarrow> nat" where
  "fuel_for ts = 10 * length ts + 7"

definition parse_tokens :: "token list \<Rightarrow> ASTNode option" where
  "parse_tokens ts = (case parse_rule (fuel_for ts) Expression ts of Got a [] \<Rightarrow> Some a | _ \<Rightarrow> None)"

datatype expr_error = EmptyExpression | LexError | SyntaxError

definition parse_trimmed :: "string \<Rightarrow> expr_error + ASTNode" where
  "parse_trimmed s = (case tokenize s of
     None \<Rightarrow> Inl LexError
   | Some ts \<Rightarrow> (case parse_tokens ts of None \<Rightarrow> Inl SyntaxError | Some a \<Rightarrow> Inr a))"

definition parseExpression :: "string \<Rightarrow> expr_error + ASTNode" where
  "parseExpression expr = (if trim expr = [] then Inl EmptyExpression else parse_trimmed (trim expr))"

section \<open>The count of calls never runs out\<close>

text \<open>How much of the input a rule consumes at least, and how many calls it needs at most.\<close>

definition least :: "rule \<Rightarrow> nat" where
  "least q = (case q of OrRest a \<Rightarrow> 0 | AndRest a \<Rightarrow> 0 | _ \<Rightarrow> 1)"

definition calls :: "rule \<Rightarrow> nat" where
  "calls q = (case q of Expression \<Rightarrow> 7 | OrExpr \<Rightarrow> 6 | AndExpr \<Rightarrow> 5 | NotExpr \<Rightarrow> 4 | CompareExpr \<Rightarrow> 3
     | Primary \<Rightarrow> 2 | CallArgs f as \<Rightarrow> 8 | _ \<Rightarrow> 1)"

lemma consume_Some: "consume t ts = Some r \<longleftrightarrow> ts = t # r"
  by (cases ts) (auto simp: consume_def)

lemma then_rule_Got: "then_rule p k = Got a r \<longleftrightarrow> (\<exists>b s. p = Got b s \<and> k b s = Got a r)"
  by (cases p) (auto simp: then_rule_def)

lemma then_rule_Out: "then_rule p k = Out \<longleftrightarrow> p = Out \<or> (\<exists>b s. p = Got b s \<and> k b s = Out)"
  by (cases p) (auto simp: then_rule_def)

lemma add_segment_Got: "add_segment s p = Got ss r \<longleftrightarrow> (\<exists>x xs. s = Some x \<and> p = Got xs r \<and> ss = x # xs)"
  by (auto simp: add_segment_def split: option.splits parsed.splits)

lemma pathSegments_rest: "pathSegments ts = Got ss r \<Longrightarrow> length r \<le> length ts"
  by (induction ts arbitrary: ss rule: pathSegments.induct)
    (auto simp: add_segment_Got split: if_splits list.splits, (meson le_SucI)+)

lemma add_segment_total: "p \<noteq> Out \<Longrightarrow> add_segment s p \<noteq> Out"
  by (cases s; cases p) (simp_all add: add_segment_def)

lemma pathSegments_total: "pathSegments ts \<noteq> Out"
  by (induction ts rule: pathSegments.induct) (simp_all add: add_segment_total split: list.split)

lemma next_compare_Some: "next_compare ts = Some oper \<Longrightarrow> ts \<noteq> []"
  by (auto simp: next_compare_def)

lemma call_or_path_Got:
  assumes "call_or_path P f ts = Got a r"
    and "\<And>us b s. P (CallArgs f []) us = Got b s \<Longrightarrow> length s \<le> length us"
  shows "length r \<le> length ts"
  using assms
  by (auto simp: call_or_path_def consume_Some split: option.splits parsed.splits dest: pathSegments_rest)
    (meson le_SucI)+

lemma rule_body_consumes:
  assumes P: "\<And>q us a r. P q us = Got a r \<Longrightarrow> length r + least q \<le> length us"
    and "rule_body P q ts = Got a r"
  shows "length r + least q \<le> length ts"
proof (cases q)
  case (OrRest b)
  then show ?thesis
    using assms(2) by (force simp: then_rule_Got consume_Some least_def split: option.splits dest!: P)
next
  case (AndRest b)
  then show ?thesis
    using assms(2) by (force simp: then_rule_Got consume_Some least_def split: option.splits dest!: P)
next
  case Primary
  have c: "length s \<le> length us" if "P (CallArgs f []) us = Got b s" for f us b s using P[OF that] by simp
  obtain t us where ts: "ts = t # us" using assms(2) Primary by (cases ts) auto
  have "length r \<le> length us" if "call_or_path P f us = Got a r" for f using call_or_path_Got[OF that c] .
  moreover have "length r \<le> length us" if t: "then_rule (P Expression us)
      (\<lambda>a r1. case consume RParen r1 of Some r2 \<Rightarrow> Got a r2 | None \<Rightarrow> Bad) = Got a r"
  proof -
    obtain b u where u: "P Expression us = Got b u"
        "(case consume RParen u of Some r2 \<Rightarrow> Got b r2 | None \<Rightarrow> Bad) = Got a r"
      using t unfolding then_rule_Got by blast
    then have "consume RParen u = Some r" by (cases "consume RParen u") simp_all
    then show ?thesis using P[OF u(1)] by (simp add: consume_Some)
  qed
  ultimately have "length r \<le> length us"
    using assms(2) Primary ts by (simp split: if_splits option.splits PathSegment.splits)
  then show ?thesis by (simp add: ts Primary least_def)
next
  case (CallArgs f as)
  then show ?thesis
    using assms(2) by (auto simp: then_rule_Got consume_Some least_def split: option.splits dest!: P)
next
  case CompareExpr
  then show ?thesis
    using assms(2) by (auto simp: then_rule_Got least_def split: option.splits dest!: P dest: next_compare_Some)
next
  case NotExpr
  then show ?thesis
    using assms(2) by (auto simp: then_rule_Got consume_Some least_def split: option.splits dest!: P)
qed (use assms(2) in \<open>auto simp: then_rule_Got least_def dest!: P\<close>)

lemma parse_consumes: "parse_rule n q ts = Got a r \<Longrightarrow> length r + least q \<le> length ts"
proof (induction n arbitrary: q ts a r)
  case (Suc n)
  show ?case by (rule rule_body_consumes[of "parse_rule n" q ts a r]) (use Suc in simp_all)
qed simp

lemma parse_total: "calls q + 10 * length ts \<le> n \<Longrightarrow> parse_rule n q ts \<noteq> Out"
proof (induction n arbitrary: q ts)
  case 0
  then show ?case by (cases q) (simp_all add: calls_def)
next
  case (Suc n)
  have P: "parse_rule n q' us \<noteq> Out" if "calls q' + 10 * length us < calls q + 10 * length ts" for q' us
    using Suc.IH[of q' us] Suc.prems that by simp
  note c = parse_consumes[of n]
  show ?case
  proof (cases q)
    case Primary
    show ?thesis
      using P[of Expression "tl ts"] P[of "CallArgs f []" us for f us] pathSegments_total
      by (cases ts) (auto simp: Primary calls_def then_rule_Out call_or_path_def consume_Some
          split: option.splits if_splits PathSegment.splits parsed.splits)
  next
    case (CallArgs f as)
    then show ?thesis
      using P by (auto simp: calls_def then_rule_Out consume_Some least_def split: option.splits dest!: c)
  next
    case CompareExpr
    then show ?thesis
      using P by (auto simp: calls_def then_rule_Out least_def split: option.splits dest!: c)
  qed (use P in \<open>auto simp: calls_def then_rule_Out consume_Some least_def split: option.splits dest!: c\<close>)
qed

text \<open>More calls change nothing once there is an answer.\<close>

lemma then_rule_mono:
  "then_rule p k \<noteq> Out \<Longrightarrow> p' = p \<or> p = Out \<Longrightarrow> (\<And>a r. k a r \<noteq> Out \<Longrightarrow> k' a r = k a r) \<Longrightarrow> then_rule p' k' = then_rule p k"
  by (cases p) (auto simp: then_rule_def)

lemma call_or_path_mono:
  "call_or_path P f ts \<noteq> Out \<Longrightarrow> (\<And>q us. P q us \<noteq> Out \<Longrightarrow> P' q us = P q us) \<Longrightarrow>
   call_or_path P' f ts = call_or_path P f ts"
  by (auto simp: call_or_path_def split: option.splits)

lemma rule_body_mono:
  assumes P: "\<And>q us. P q us \<noteq> Out \<Longrightarrow> P' q us = P q us" and b: "rule_body P q ts \<noteq> Out"
  shows "rule_body P' q ts = rule_body P q ts"
proof -
  have p: "P' q us = P q us \<or> P q us = Out" for q us using P by blast
  show ?thesis
  proof (cases q)
    case Primary
    show ?thesis
      using b Primary
      by (cases ts)
        (auto split: option.splits PathSegment.splits intro!: then_rule_mono p call_or_path_mono[OF _ P])
  next
    case CompareExpr
    then show ?thesis
      using b by (auto intro!: then_rule_mono[OF _ p] split: option.splits)
  qed (use b P in \<open>auto split: option.splits intro!: then_rule_mono[OF _ p]\<close>)
qed

lemma parse_mono: "parse_rule n q ts \<noteq> Out \<Longrightarrow> n \<le> m \<Longrightarrow> parse_rule m q ts = parse_rule n q ts"
proof (induction n arbitrary: m q ts)
  case (Suc n)
  then obtain k where m: "m = Suc k" "n \<le> k" by (cases m) auto
  have "rule_body (parse_rule k) q ts = rule_body (parse_rule n) q ts"
    by (rule rule_body_mono) (use Suc.IH[OF _ m(2)] Suc.prems(1) in simp_all)
  then show ?case using m(1) by simp
qed simp

lemma parse_fuel: "fuel_for ts \<le> n \<Longrightarrow> parse_rule n Expression ts = parse_rule (fuel_for ts) Expression ts \<and>
    parse_rule (fuel_for ts) Expression ts \<noteq> Out"
  using parse_total[of Expression ts "fuel_for ts"] parse_mono[of "fuel_for ts" Expression ts n]
  by (simp add: fuel_for_def calls_def)

section \<open>Printing\<close>

text \<open>A tree as tokens, with parentheses around every operand that is not a literal, a name, a path or a
  call.\<close>

definition escape_char :: "char \<Rightarrow> string" where
  "escape_char c = (if c = DQUOTE \<or> c = BACKSLASH then [BACKSLASH, c]
     else if c = CHR 0x0A then [BACKSLASH, CHR ''n''] else if c = CHR 0x0D then [BACKSLASH, CHR ''r''] else [c])"

definition quote_string :: "string \<Rightarrow> string" where
  "quote_string s = DQUOTE # concat (map escape_char s) @ [DQUOTE]"

fun number_nat :: "jsnum \<Rightarrow> nat" where
  "number_nat (Fin q) = nat \<lfloor>q\<rfloor>"
| "number_nat _ = 0"

definition number_token :: "jsnum \<Rightarrow> token" where
  "number_token x = NumberLit (show_nat (number_nat x))"

fun lit_token :: "lit \<Rightarrow> token" where
  "lit_token (LStr s) = StringLit (quote_string s)"
| "lit_token (LNum x) = number_token x"
| "lit_token (LBool True) = TrueTok"
| "lit_token (LBool False) = FalseTok"
| "lit_token LNull = NullTok"

fun segment_tokens :: "PathSegment \<Rightarrow> token list" where
  "segment_tokens (Prop p) = [Dot, Identifier p]"
| "segment_tokens (IndexNum x) = [LBracket, number_token x, RBracket]"
| "segment_tokens (IndexStr k) = [LBracket, StringLit (quote_string k), RBracket]"

fun op_token :: "BinaryOp \<Rightarrow> token" where
  "op_token OpEq = EqEq"
| "op_token OpNeq = NotEq"
| "op_token OpLt = Lt"
| "op_token OpLte = Lte"
| "op_token OpGt = Gt"
| "op_token OpGte = Gte"
| "op_token OpAnd = AndAnd"
| "op_token OpOr = OrOr"

fun is_atom :: "ASTNode \<Rightarrow> bool" where
  "is_atom (Unary a) = False"
| "is_atom (Binary oper a b) = False"
| "is_atom a = True"

definition wrap :: "bool \<Rightarrow> token list \<Rightarrow> token list" where
  "wrap atomic ts = (if atomic then ts else LParen # ts @ [RParen])"

fun separated :: "token list list \<Rightarrow> token list" where
  "separated [] = []"
| "separated [ts] = ts"
| "separated (ts # us # rest) = ts @ Comma # separated (us # rest)"

fun unparse :: "ASTNode \<Rightarrow> token list" where
  "unparse (Literal l) = [lit_token l]"
| "unparse (Name x) = [Identifier x]"
| "unparse (Path a ss) = unparse a @ concat (map segment_tokens ss)"
| "unparse (Call f as) = Identifier f # LParen # separated (map unparse as) @ [RParen]"
| "unparse (Unary a) = Bang # wrap (is_atom a) (unparse a)"
| "unparse (Binary oper a b) = wrap (is_atom a) (unparse a) @ op_token oper # wrap (is_atom b) (unparse b)"

text \<open>The trees a source text can denote exactly: identifiers that are not keywords, paths that start at
  a name, and number literals that are natural numbers below \<open>2 ^ 53\<close>.\<close>

definition ident_ok :: "string \<Rightarrow> bool" where
  "ident_ok x \<longleftrightarrow> x \<noteq> [] \<and> is_ident_start (hd x) \<and> list_all is_word x \<and>
     x \<noteq> ''true'' \<and> x \<noteq> ''false'' \<and> x \<noteq> ''null''"

fun number_ok :: "jsnum \<Rightarrow> bool" where
  "number_ok (Fin q) \<longleftrightarrow> of_nat (nat \<lfloor>q\<rfloor>) = q \<and> q < 2 ^ 53"
| "number_ok _ \<longleftrightarrow> False"

fun lit_ok :: "lit \<Rightarrow> bool" where
  "lit_ok (LNum x) \<longleftrightarrow> number_ok x"
| "lit_ok _ \<longleftrightarrow> True"

fun segment_ok :: "PathSegment \<Rightarrow> bool" where
  "segment_ok (Prop p) \<longleftrightarrow> ident_ok p"
| "segment_ok (IndexNum x) \<longleftrightarrow> number_ok x"
| "segment_ok (IndexStr k) \<longleftrightarrow> True"

fun printable :: "ASTNode \<Rightarrow> bool" where
  "printable (Literal l) \<longleftrightarrow> lit_ok l"
| "printable (Name x) \<longleftrightarrow> ident_ok x"
| "printable (Path a ss) \<longleftrightarrow> (case a of Name x \<Rightarrow> ident_ok x | _ \<Rightarrow> False) \<and> ss \<noteq> [] \<and> list_all segment_ok ss"
| "printable (Call f as) \<longleftrightarrow> ident_ok f \<and> list_all printable as"
| "printable (Unary a) \<longleftrightarrow> printable a"
| "printable (Binary oper a b) \<longleftrightarrow> printable a \<and> printable b"

section \<open>Parsing what was printed\<close>

text \<open>Reading a rule with enough calls, as a relation with one introduction rule per clause of the
  grammar.\<close>

definition parses :: "rule \<Rightarrow> token list \<Rightarrow> ASTNode \<Rightarrow> token list \<Rightarrow> bool" where
  "parses q ts a r \<longleftrightarrow> (\<exists>n. parse_rule n q ts = Got a r)"

lemma parses_body:
  assumes "\<And>P. (\<And>p us b s. (p, us, b, s) \<in> set cs \<Longrightarrow> P p us = Got b s) \<Longrightarrow> rule_body P q ts = Got a r"
    and "\<And>p us b s. (p, us, b, s) \<in> set cs \<Longrightarrow> parses p us b s"
  shows "parses q ts a r"
proof -
  have "\<exists>n. \<forall>(p, us, b, s) \<in> set cs. parse_rule n p us = Got b s"
    using assms(2)
  proof (induction cs)
    case (Cons c cs)
    obtain p us b s where c: "c = (p, us, b, s)" by (cases c)
    obtain n where n: "\<forall>(p, us, b, s) \<in> set cs. parse_rule n p us = Got b s" using Cons by fastforce
    obtain m where m: "parse_rule m p us = Got b s" using Cons.prems[of p us b s] by (auto simp: c parses_def)
    have "parse_rule (max m n) p us = Got b s" using parse_mono[of m p us "max m n"] m by simp
    moreover have "parse_rule (max m n) p us = Got b s" if "(p, us, b, s) \<in> set cs" for p us b s
      using parse_mono[of n p us "max m n"] n that by fastforce
    ultimately show ?case by (intro exI[of _ "max m n"]) (auto simp: c)
  qed simp
  then obtain n where n: "\<forall>(p, us, b, s) \<in> set cs. parse_rule n p us = Got b s" by blast
  have "rule_body (parse_rule n) q ts = Got a r" by (rule assms(1)) (use n in fastforce)
  then have "parse_rule (Suc n) q ts = Got a r" by simp
  then show ?thesis unfolding parses_def by blast
qed

lemma consume_same [simp]: "consume t (t # r) = Some r"
  by (simp add: consume_def)

lemma parses_Expression: "parses OrExpr ts a r \<Longrightarrow> parses Expression ts a r"
  by (rule parses_body[of "[(OrExpr, ts, a, r)]"]) auto

lemma parses_OrExpr: "parses AndExpr ts a r \<Longrightarrow> parses (OrRest a) r b s \<Longrightarrow> parses OrExpr ts b s"
  by (rule parses_body[of "[(AndExpr, ts, a, r), (OrRest a, r, b, s)]"]) (auto simp: then_rule_def)

lemma parses_OrRest: "parses AndExpr r b s \<Longrightarrow> parses (OrRest (Binary OpOr a b)) s c t \<Longrightarrow>
    parses (OrRest a) (OrOr # r) c t"
  by (rule parses_body[of "[(AndExpr, r, b, s), (OrRest (Binary OpOr a b), s, c, t)]"]) (auto simp: then_rule_def)

lemma parses_OrRest_end: "consume OrOr ts = None \<Longrightarrow> parses (OrRest a) ts a ts"
  by (rule parses_body[of "[]"]) auto

lemma parses_AndExpr: "parses NotExpr ts a r \<Longrightarrow> parses (AndRest a) r b s \<Longrightarrow> parses AndExpr ts b s"
  by (rule parses_body[of "[(NotExpr, ts, a, r), (AndRest a, r, b, s)]"]) (auto simp: then_rule_def)

lemma parses_AndRest: "parses NotExpr r b s \<Longrightarrow> parses (AndRest (Binary OpAnd a b)) s c t \<Longrightarrow>
    parses (AndRest a) (AndAnd # r) c t"
  by (rule parses_body[of "[(NotExpr, r, b, s), (AndRest (Binary OpAnd a b), s, c, t)]"]) (auto simp: then_rule_def)

lemma parses_AndRest_end: "consume AndAnd ts = None \<Longrightarrow> parses (AndRest a) ts a ts"
  by (rule parses_body[of "[]"]) auto

lemma parses_Bang: "parses CompareExpr r a s \<Longrightarrow> parses NotExpr (Bang # r) (Unary a) s"
  by (rule parses_body[of "[(CompareExpr, r, a, s)]"]) (auto simp: then_rule_def)

lemma parses_NotExpr: "parses CompareExpr ts a s \<Longrightarrow> consume Bang ts = None \<Longrightarrow> parses NotExpr ts a s"
  by (rule parses_body[of "[(CompareExpr, ts, a, s)]"]) auto

lemma parses_CompareExpr: "parses Primary ts a r \<Longrightarrow> next_compare r = None \<Longrightarrow> parses CompareExpr ts a r"
  by (rule parses_body[of "[(Primary, ts, a, r)]"]) (auto simp: then_rule_def)

lemma parses_compare: "parses Primary ts a (t # r) \<Longrightarrow> compare_op t = Some oper \<Longrightarrow> parses Primary r b s \<Longrightarrow>
    parses CompareExpr ts (Binary oper a b) s"
proof (rule parses_body[of "[(Primary, ts, a, t # r), (Primary, r, b, s)]"])
  fix P assume o: "compare_op t = Some oper"
    and P: "\<And>p us b' s'. (p, us, b', s') \<in> set [(Primary, ts, a, t # r), (Primary, r, b, s)] \<Longrightarrow> P p us = Got b' s'"
  have "P Primary ts = Got a (t # r)" "P Primary r = Got b s" by (rule P; simp)+
  then show "rule_body P CompareExpr ts = Got (Binary oper a b) s" by (simp add: then_rule_def next_compare_def o)
qed auto

lemma parses_parens: "parses Expression r a (RParen # s) \<Longrightarrow> parses Primary (LParen # r) a s"
  by (rule parses_body[of "[(Expression, r, a, RParen # s)]"]) (auto simp: then_rule_def)

lemma parses_literal: "literal_of t = Some l \<Longrightarrow> parses Primary (t # r) (Literal l) r"
  by (rule parses_body[of "[]"]) auto

lemma parses_path: "pathSegments r = Got ss s \<Longrightarrow> consume LParen r = None \<Longrightarrow>
    parses Primary (Identifier x # r) (path_node x ss) s"
  by (rule parses_body[of "[]"]) (auto simp: call_or_path_def)

lemma parses_call: "consume RParen r = None \<Longrightarrow> parses (CallArgs f []) r a s \<Longrightarrow>
    parses Primary (Identifier f # LParen # r) a s"
  by (rule parses_body[of "[(CallArgs f [], r, a, s)]"]) (auto simp: call_or_path_def)

lemma parses_call_empty: "parses Primary (Identifier f # LParen # RParen # r) (Call f []) r"
  by (rule parses_body[of "[]"]) (auto simp: call_or_path_def)

lemma parses_args_last: "parses Expression ts a (RParen # s) \<Longrightarrow> parses (CallArgs f as) ts (Call f (as @ [a])) s"
  by (rule parses_body[of "[(Expression, ts, a, RParen # s)]"]) (auto simp: then_rule_def consume_def)

lemma parses_args: "parses Expression ts a (Comma # r) \<Longrightarrow> parses (CallArgs f (as @ [a])) r b s \<Longrightarrow>
    parses (CallArgs f as) ts b s"
  by (rule parses_body[of "[(Expression, ts, a, Comma # r), (CallArgs f (as @ [a]), r, b, s)]"])
    (auto simp: then_rule_def)

subsection \<open>Literals\<close>

lemma unescape_escape: "unescape (concat (map escape_char s)) = s"
proof (induction s)
  case (Cons c s)
  show ?case
  proof (cases "escape_char c = [c]")
    case True
    then have "c \<noteq> BACKSLASH" by (auto simp: escape_char_def)
    then have "unescape (c # t) = c # unescape t" for t by (cases t) auto
    then show ?thesis using True Cons by simp
  next
    case False
    then obtain d where d: "escape_char c = [BACKSLASH, d]" "esc_char d = c"
      by (auto simp: escape_char_def esc_char_def DQUOTE_def BACKSLASH_def split: if_splits)
    then show ?thesis using Cons by simp
  qed
qed simp

lemma parse_quoted: "parseStringLit (quote_string s) = s"
  by (simp add: parseStringLit_def quote_string_def butlast_append unescape_escape)

lemma digit_char: "d < 10 \<Longrightarrow> is_digit (char_of (48 + d))" "d < 10 \<Longrightarrow> digit_value (char_of (48 + d :: nat)) = d"
  by (simp_all add: is_digit_def digit_value_def Let_def)

lemma show_nat_digits: "list_all is_digit (show_nat n) \<and> digits_value (show_nat n) = n \<and> show_nat n \<noteq> []"
proof (induction n rule: show_nat.induct)
  case (1 n)
  show ?case
  proof (cases "n < 10")
    case True
    then show ?thesis by (subst (1 2 3) show_nat.simps) (simp add: digit_char digits_value_def)
  next
    case False
    have m: "n mod 10 < 10" by simp
    show ?thesis
      using 1[OF False] False digit_char[OF m]
      by (subst (1 2 3) show_nat.simps) (simp add: digits_value_def)
  qed
qed

lemma takeWhile_all: "list_all P s \<Longrightarrow> takeWhile P s = s \<and> dropWhile P s = []"
  by (induction s) auto

lemma pow2_nonneg: "0 \<le> e \<Longrightarrow> pow2 e = 2 ^ nat e"
  by (simp add: pow2_def)

lemma pow2_neg: "0 \<le> e \<Longrightarrow> pow2 (- e) = 1 / 2 ^ nat e"
  by (cases "e = 0") (simp_all add: pow2_def)

lemma to_double_nat:
  assumes "n < 2 ^ 53"
  shows "to_double (of_nat n) = Fin (of_nat n)"
proof (cases "n = 0")
  case False
  have fl: "floorlog 2 n \<le> 53" using assms floorlog_leI[of n 2 53] by simp
  have q: "quotient_of (of_nat n :: rat) = (int n, 1)" by simp
  define e where "e = max (exponent (of_nat n)) (- 1022) - 52"
  have "floorlog 2 (1::nat) = 1" by (simp add: floorlog_def)
  then have "exponent (of_nat n) \<le> 52" using fl by (simp add: exponent_def q Let_def)
  then have e: "0 \<le> - e" by (simp add: e_def)
  have u: "pow2 e = 1 / 2 ^ nat (- e)" using pow2_neg[OF e] by simp
  have r: "of_nat n / pow2 e = of_int (int n * 2 ^ nat (- e))" by (simp add: u)
  have "round_even (of_int z) = z" for z by (simp add: round_even_def)
  then have "round_even (of_nat n / pow2 e) = int n * 2 ^ nat (- e)" unfolding r .
  then have "of_int (round_even (of_nat n / pow2 e)) * pow2 e = of_nat n" by (simp add: u)
  moreover have "of_nat n < pow2 1024"
  proof -
    have "(of_nat n :: rat) < of_nat (2 ^ 53)" using assms by (simp only: of_nat_less_iff)
    also have "\<dots> \<le> pow2 1024" by (simp add: pow2_def)
    finally show ?thesis .
  qed
  ultimately show ?thesis using False by (simp add: to_double_def Let_def e_def[symmetric])
qed (simp add: to_double_def)

lemma numberOf_show: "n < 2 ^ 53 \<Longrightarrow> numberOf (show_nat n) = Fin (of_nat n)"
proof -
  have d: "takeWhile is_digit (show_nat n) = show_nat n" "dropWhile is_digit (show_nat n) = []"
    using takeWhile_all show_nat_digits by blast+
  assume "n < 2 ^ 53"
  then show ?thesis using show_nat_digits[of n] by (simp add: numberOf_def Let_def d to_double_nat)
qed

lemma numberOf_token: "number_ok x \<Longrightarrow> numberOf (show_nat (number_nat x)) = x"
proof (cases x)
  case (Fin q)
  assume ok: "number_ok x"
  then have q: "(of_nat (nat \<lfloor>q\<rfloor>) :: rat) = q" "q < 2 ^ 53" using Fin by auto
  then have "(of_nat (nat \<lfloor>q\<rfloor>) :: rat) < of_nat (2 ^ 53)" by simp
  then have "nat \<lfloor>q\<rfloor> < 2 ^ 53" by (simp only: of_nat_less_iff)
  then show ?thesis using numberOf_show[of "nat \<lfloor>q\<rfloor>"] q(1) by (simp add: Fin)
qed auto

lemma literal_of_token: "lit_ok l \<Longrightarrow> literal_of (lit_token l) = Some l"
  by (cases l rule: lit_token.cases) (auto simp: parse_quoted number_token_def numberOf_token)

subsection \<open>Trees\<close>

definition stops :: "token list \<Rightarrow> bool" where
  "stops r \<longleftrightarrow> consume LParen r = None \<and> pathSegments r = Got [] r"

definition ends :: "token list \<Rightarrow> bool" where
  "ends r \<longleftrightarrow> stops r \<and> next_compare r = None \<and> consume AndAnd r = None \<and> consume OrOr r = None"

lemma stops_tokens: "stops (RParen # r)" "stops (Comma # r)" "stops []" "stops (op_token oper # r)"
  by (cases oper; simp add: stops_def consume_def)+

lemma ends_tokens: "ends (RParen # r)" "ends (Comma # r)" "ends []"
  by (simp_all add: ends_def stops_tokens) (simp_all add: consume_def next_compare_def)

lemma pathSegments_tokens:
  "list_all segment_ok ss \<Longrightarrow> stops r \<Longrightarrow> pathSegments (concat (map segment_tokens ss) @ r) = Got ss r"
proof (induction ss)
  case (Cons x ss)
  then show ?case
    by (cases x) (auto simp: add_segment_def number_token_def numberOf_token parse_quoted)
qed (simp add: stops_def)

lemma parses_chain_not: "parses NotExpr ts a r \<Longrightarrow> ends r \<Longrightarrow> parses Expression ts a r"
  by (auto simp: ends_def intro: parses_Expression parses_OrExpr parses_AndExpr parses_OrRest_end parses_AndRest_end)

lemma parses_chain:
  assumes "parses CompareExpr ts a r" "ends r" "consume Bang ts = None"
  shows "parses Expression ts a r"
  by (rule parses_chain_not[OF parses_NotExpr[OF assms(1,3)] assms(2)])

lemma parses_atom: "parses Primary ts a r \<Longrightarrow> ends r \<Longrightarrow> consume Bang ts = None \<Longrightarrow> parses Expression ts a r"
  by (rule parses_chain[OF parses_CompareExpr]) (simp_all add: ends_def)

lemma no_bang_atom: "printable a \<Longrightarrow> consume Bang (wrap (is_atom a) (unparse a) @ r) = None"
proof (cases a)
  case (Literal l)
  then show ?thesis by (cases l rule: lit_token.cases) (auto simp: wrap_def consume_def number_token_def)
next
  case (Path b ss)
  then show "printable a \<Longrightarrow> ?thesis" by (cases b) (auto simp: wrap_def consume_def)
qed (auto simp: wrap_def consume_def)

text \<open>What is proved of a tree: it is read back as an expression, and as an operand.\<close>

definition reads_back :: "ASTNode \<Rightarrow> bool" where
  "reads_back a \<longleftrightarrow> (\<forall>r. ends r \<longrightarrow> parses Expression (unparse a @ r) a r) \<and>
     (\<forall>r. stops r \<longrightarrow> parses Primary (wrap (is_atom a) (unparse a) @ r) a r)"

lemma reads_back_atom:
  assumes "is_atom a" "printable a" "\<And>r. stops r \<Longrightarrow> parses Primary (unparse a @ r) a r"
  shows "reads_back a"
proof -
  have "consume Bang (unparse a @ r) = None" for r using no_bang_atom[OF assms(2), of r] assms(1) by (simp add: wrap_def)
  then show ?thesis
    using assms(1,3) parses_atom by (auto simp: reads_back_def wrap_def ends_def)
qed

lemma reads_back_compound:
  assumes "\<not> is_atom a" "\<And>r. ends r \<Longrightarrow> parses Expression (unparse a @ r) a r"
  shows "reads_back a"
  using assms parses_parens[OF assms(2)[OF ends_tokens(1)]] by (auto simp: reads_back_def wrap_def)

lemma reads_back_args:
  assumes "list_all reads_back as" "as \<noteq> []"
  shows "parses (CallArgs f pre) (separated (map unparse as) @ RParen # r) (Call f (pre @ as)) r"
  using assms
proof (induction as arbitrary: pre)
  case (Cons a as)
  have a: "parses Expression (unparse a @ s) a s" if "ends s" for s using Cons.prems(1) that by (simp add: reads_back_def)
  show ?case
  proof (cases as)
    case Nil
    then show ?thesis using parses_args_last[OF a[OF ends_tokens(1)], of f pre r] by simp
  next
    case (Cons b bs)
    then have "parses (CallArgs f (pre @ [a])) (separated (map unparse as) @ RParen # r) (Call f ((pre @ [a]) @ as)) r"
      using Cons.IH[of "pre @ [a]"] Cons.prems(1) by simp
    then show ?thesis using parses_args[OF a[OF ends_tokens(2)]] Cons by simp
  qed
qed simp

lemma operand_NotExpr:
  "reads_back a \<Longrightarrow> printable a \<Longrightarrow> stops r \<Longrightarrow> next_compare r = None \<Longrightarrow>
   parses NotExpr (wrap (is_atom a) (unparse a) @ r) a r"
  by (auto simp: reads_back_def no_bang_atom intro!: parses_NotExpr parses_CompareExpr)

lemma unparse_head: "printable a \<Longrightarrow> consume RParen (unparse a @ r) = None"
proof (induction a arbitrary: r rule: unparse.induct)
  case (1 l)
  then show ?case by (cases l rule: lit_token.cases) (auto simp: consume_def number_token_def)
next
  case (3 a ss)
  then show ?case by (cases a) (auto simp: consume_def)
next
  case (6 oper a b)
  then show ?case using "6.IH"(1) by (simp add: wrap_def) (simp add: consume_def)
qed (auto simp: consume_def)

lemma no_close: "as \<noteq> [] \<Longrightarrow> list_all printable as \<Longrightarrow> consume RParen (separated (map unparse as) @ r) = None"
  by (cases as rule: list.exhaust; cases "tl as") (auto simp: unparse_head)

lemma reads_back_binary:
  assumes a: "reads_back a" "printable a" and b: "reads_back b" "printable b"
  shows "reads_back (Binary oper a b)"
proof (rule reads_back_compound)
  fix r assume r: "ends r"
  then have r': "stops r" "next_compare r = None" "consume AndAnd r = None" "consume OrOr r = None"
    by (auto simp: ends_def)
  let ?A = "wrap (is_atom a) (unparse a)" and ?B = "wrap (is_atom b) (unparse b)"
  have pa: "parses Primary (?A @ op_token oper # ?B @ r) a (op_token oper # ?B @ r)"
    using a(1) stops_tokens(4) by (simp add: reads_back_def)
  have pb: "parses Primary (?B @ r) b r" using b(1) r'(1) by (simp add: reads_back_def)
  have nb: "parses NotExpr (?B @ r) b r" by (rule operand_NotExpr[OF b r'(1,2)])
  note bang = no_bang_atom[OF a(2), of "op_token oper # ?B @ r"]
  have na: "parses NotExpr (?A @ op_token oper # ?B @ r) a (op_token oper # ?B @ r)" if "compare_op (op_token oper) = None"
    by (rule operand_NotExpr[OF a stops_tokens(4)]) (simp add: next_compare_def that)
  consider "oper = OpOr" | "oper = OpAnd" | "compare_op (op_token oper) = Some oper" by (cases oper) auto
  then have "parses Expression (?A @ op_token oper # ?B @ r) (Binary oper a b) r"
  proof cases
    case 1
    have "parses AndExpr (?A @ OrOr # ?B @ r) a (OrOr # ?B @ r)"
      using na 1 by (auto intro!: parses_AndExpr parses_AndRest_end simp: consume_def)
    moreover have "parses AndExpr (?B @ r) b r" using nb r'(3) by (auto intro: parses_AndExpr parses_AndRest_end)
    ultimately show ?thesis
      using 1 r'(4) by (auto intro: parses_Expression parses_OrExpr parses_OrRest parses_OrRest_end)
  next
    case 2
    have "parses NotExpr (?A @ AndAnd # ?B @ r) a (AndAnd # ?B @ r)" using na 2 by simp
    then have "parses AndExpr (?A @ AndAnd # ?B @ r) (Binary OpAnd a b) r"
      using nb r'(3) by (auto intro: parses_AndExpr parses_AndRest parses_AndRest_end)
    then show ?thesis using 2 r'(4) by (auto intro: parses_Expression parses_OrExpr parses_OrRest_end)
  next
    case 3
    show ?thesis by (rule parses_chain[OF parses_compare[OF pa 3 pb] r bang])
  qed
  then show "parses Expression (unparse (Binary oper a b) @ r) (Binary oper a b) r" by simp
qed simp

lemma printable_reads_back: "printable a \<Longrightarrow> reads_back a"
proof (induction a rule: unparse.induct)
  case (1 l)
  then show ?case by (auto intro!: reads_back_atom parses_literal literal_of_token)
next
  case (2 x)
  have "parses Primary (Identifier x # r) (Name x) r" if "stops r" for r
    using parses_path[of r "[]" r x] that by (simp add: stops_def path_node_def)
  then show ?case using 2 by (auto intro!: reads_back_atom)
next
  case (3 a ss)
  then obtain x where a: "a = Name x" by (cases a) auto
  have "consume LParen (concat (map segment_tokens ss) @ r) = None" for r
    using 3(2) by (cases ss; cases "hd ss") (auto simp: a consume_def)
  then have "parses Primary (Identifier x # concat (map segment_tokens ss) @ r) (Path (Name x) ss) r" if "stops r" for r
    using parses_path[OF pathSegments_tokens[OF _ that], of ss x] 3(2) by (simp add: a path_node_def)
  then show ?case using 3(2) by (auto intro!: reads_back_atom simp: a)
next
  case (4 f as)
  have "parses Primary (unparse (Call f as) @ r) (Call f as) r" for r
  proof (cases "as = []")
    case False
    have "list_all reads_back as" using 4 by (auto simp: list_all_iff)
    then have "parses (CallArgs f []) (separated (map unparse as) @ RParen # r) (Call f as) r"
      using reads_back_args[OF _ False, where pre = "[]"] by simp
    moreover have "consume RParen (separated (map unparse as) @ RParen # r) = None"
      using no_close[OF False] 4(2) by simp
    ultimately show ?thesis using parses_call by simp
  qed (simp add: parses_call_empty)
  then show ?case using 4(2) by (intro reads_back_atom) simp_all
next
  case (5 a)
  have "parses Expression (Bang # wrap (is_atom a) (unparse a) @ r) (Unary a) r" if "ends r" for r
    using 5 that by (intro parses_chain_not parses_Bang parses_CompareExpr) (simp_all add: ends_def reads_back_def)
  then show ?case by (intro reads_back_compound) simp_all
next
  case (6 oper a b)
  then show ?case by (simp add: reads_back_binary)
qed

lemma parse_unparse: "printable a \<Longrightarrow> parse_tokens (unparse a) = Some a"
proof -
  assume "printable a"
  then have "parses Expression (unparse a @ []) a []"
    using printable_reads_back ends_tokens(3) unfolding reads_back_def by blast
  then obtain n where n: "parse_rule n Expression (unparse a) = Got a []" by (auto simp: parses_def)
  let ?f = "fuel_for (unparse a)"
  have "parse_rule ?f Expression (unparse a) = Got a []"
    using parse_mono[of n Expression "unparse a" "max n ?f"] parse_fuel[of "unparse a" "max n ?f"] n by simp
  then show ?thesis by (simp add: parse_tokens_def)
qed

section \<open>Lexing what was printed\<close>

fun image :: "token \<Rightarrow> string" where
  "image (StringLit raw) = raw"
| "image (NumberLit raw) = raw"
| "image (Identifier x) = x"
| "image TrueTok = ''true''"
| "image FalseTok = ''false''"
| "image NullTok = ''null''"
| "image EqEq = ''==''"
| "image NotEq = ''!=''"
| "image Lte = ''<=''"
| "image Gte = ''>=''"
| "image Lt = ''<''"
| "image Gt = ''>''"
| "image AndAnd = ''&&''"
| "image OrOr = ''||''"
| "image Bang = ''!''"
| "image LParen = ''(''"
| "image RParen = '')''"
| "image LBracket = ''[''"
| "image RBracket = '']''"
| "image Comma = '',''"
| "image Dot = ''.''"

fun token_ok :: "token \<Rightarrow> bool" where
  "token_ok (StringLit raw) \<longleftrightarrow> raw \<noteq> [] \<and> hd raw = DQUOTE \<and> last raw = DQUOTE \<and> (\<forall>r. literal_rest (tl raw @ r) = Some (length raw - 1))"
| "token_ok (NumberLit raw) \<longleftrightarrow> raw \<noteq> [] \<and> list_all is_digit raw"
| "token_ok (Identifier x) \<longleftrightarrow> ident_ok x"
| "token_ok _ \<longleftrightarrow> True"

text \<open>The text of a token list: the tokens, separated by spaces.\<close>

definition spaced :: "token list \<Rightarrow> string" where
  "spaced ts = joinWith '' '' (map image ts)"

definition print_expr :: "ASTNode \<Rightarrow> string" where
  "print_expr a = spaced (unparse a)"

lemma literal_rest_quoted: "literal_rest (concat (map escape_char s) @ DQUOTE # r) = Some (Suc (length (concat (map escape_char s))))"
proof (induction s)
  case Nil
  show ?case by (cases r) simp_all
next
  case (Cons c s)
  obtain d ds where d: "concat (map escape_char s) @ DQUOTE # r = d # ds"
    by (cases "concat (map escape_char s)") auto
  show ?case
  proof (cases "escape_char c = [c]")
    case True
    then have "c \<noteq> BACKSLASH" "c \<noteq> DQUOTE" by (auto simp: escape_char_def)
    then show ?thesis using True Cons d by simp
  next
    case False
    then obtain e where "escape_char c = [BACKSLASH, e]" "\<not> is_newline e"
      by (auto simp: escape_char_def is_newline_def DQUOTE_def BACKSLASH_def split: if_splits)
    then show ?thesis using Cons by (simp add: DQUOTE_def BACKSLASH_def)
  qed
qed

lemma quoted_ok: "token_ok (StringLit (quote_string s))"
  using literal_rest_quoted[of s] by (simp add: quote_string_def)

text \<open>Where a token ends: at the end of the text or at a space.\<close>

definition boundary :: "string \<Rightarrow> bool" where
  "boundary r \<longleftrightarrow> (case r of [] \<Rightarrow> True | c # cs \<Rightarrow> c = CHR '' '')"

lemma takeWhile_boundary: "list_all P s \<Longrightarrow> \<not> P (CHR '' '') \<Longrightarrow> boundary r \<Longrightarrow> takeWhile P (s @ r) = s"
  by (induction s) (auto simp: boundary_def split: list.splits)

lemma char_classes:
  "\<not> is_word (CHR '' '')" "\<not> is_digit (CHR '' '')" "is_digit c \<Longrightarrow> is_word c" "is_word c \<Longrightarrow> \<not> is_space c"
  "is_word c \<Longrightarrow> c \<noteq> DQUOTE" "\<not> is_space DQUOTE" "\<not> is_digit DQUOTE"
  "is_word c \<Longrightarrow> c \<notin> set ''=!<>&|()[],.''"
  by (auto simp: is_word_def is_digit_def is_space_def DQUOTE_def Let_def)

lemma starts_Cons: "starts_with (c # cs) (d # ds) \<Longrightarrow> c = d"
  by (simp add: starts_with_def)

lemma no_operator: "is_word c \<Longrightarrow> List.find (\<lambda>(w, t). starts_with (c # cs) w) operator_tokens = None"
  using char_classes(8)[of c] by (auto simp: operator_tokens_def dest!: starts_Cons)

lemma keyword_whole:
  assumes k: "keyword w (x @ r)" "list_all is_word w" and x: "list_all is_word x" "boundary r"
  shows "x = w"
proof -
  obtain u where u: "x @ r = w @ u" using k(1) by (auto simp: keyword_def starts_with_iff)
  then have "word_ends u" using k(1) by (simp add: keyword_def)
  then have "takeWhile is_word (w @ u) = w"
    using k(2) by (cases u) (auto simp: word_ends_def takeWhile_append list_all_iff takeWhile_all)
  moreover have "takeWhile is_word (x @ r) = x" by (rule takeWhile_boundary[OF x(1) char_classes(1) x(2)])
  ultimately show ?thesis using u by simp
qed

lemma next_token_word:
  assumes x: "ident_ok x" and r: "boundary r"
  shows "next_token (x @ r) = Some (Some (Identifier x), length x - 1)"
proof -
  obtain c cs where c: "x = c # cs" using x by (cases x) (auto simp: ident_ok_def)
  have w: "list_all is_word x" and ic: "is_ident_start c" and wc: "is_word c" using x by (auto simp: ident_ok_def c)
  have kw: "\<not> keyword w (x @ r)" if "w \<noteq> x" "list_all is_word w" for w
    using keyword_whole[OF _ that(2) w r] that(1) by blast
  have "list_all is_word ''true''" "list_all is_word ''false''" "list_all is_word ''null''" by code_simp+
  then have "\<not> keyword ''true'' (x @ r)" "\<not> keyword ''false'' (x @ r)" "\<not> keyword ''null'' (x @ r)"
    using kw x by (auto simp: ident_ok_def)
  then show ?thesis
    using ic wc char_classes(4,5)[OF wc] no_operator[OF wc, of "cs @ r"] takeWhile_boundary[OF w char_classes(1) r]
    by (simp add: next_token_def c is_ident_start_def)
qed

lemma next_token_number:
  assumes x: "x \<noteq> []" "list_all is_digit x" and r: "boundary r"
  shows "next_token (x @ r) = Some (Some (NumberLit x), length x - 1)"
proof -
  obtain c cs where c: "x = c # cs" using x by (cases x) auto
  have dc: "is_digit c" using x by (simp add: c)
  have "takeWhile is_digit (x @ r) = x" by (rule takeWhile_boundary[OF x(2) char_classes(2) r])
  moreover have "\<not> starts_with r ''.''" using r by (cases r) (auto simp: boundary_def starts_with_def)
  ultimately have "number_len (x @ r) = length x" by (simp add: number_len_def Let_def)
  then show ?thesis
    using dc char_classes(3)[OF dc] char_classes(4,5)[of c] by (simp add: next_token_def c)
qed

lemma next_token_image:
  "token_ok t \<Longrightarrow> boundary r \<Longrightarrow> next_token (image t @ r) = Some (Some t, length (image t) - 1)"
  by (cases t)
    (auto simp: next_token_word next_token_number,
     auto simp: next_token_def operator_tokens_def keyword_def starts_with_def is_space_def is_digit_def DQUOTE_def
       boundary_def word_ends_def is_word_def split: list.splits)

lemma image_ends: "token_ok t \<Longrightarrow> image t \<noteq> [] \<and> \<not> is_space (hd (image t)) \<and> \<not> is_space (last (image t))"
proof (cases t)
  case (Identifier x)
  assume "token_ok t"
  then have "x \<noteq> []" "list_all is_word x" using Identifier by (auto simp: ident_ok_def)
  then show ?thesis using char_classes(4) by (simp add: Identifier list_all_iff)
next
  case (NumberLit x)
  assume "token_ok t"
  then show ?thesis using NumberLit char_classes(3,4) by (simp add: list_all_iff)
qed (auto simp: is_space_def DQUOTE_def)

lemma tokenize_image:
  assumes "token_ok t" "boundary r"
  shows "tokenize (image t @ r) = map_option (Cons t) (tokenize r)"
proof -
  have "image t \<noteq> []" using image_ends[OF assms(1)] by blast
  then have "drop (Suc (length (image t) - 1)) (image t @ r) = r" by simp
  then show ?thesis
    using next_token_image[OF assms] \<open>image t \<noteq> []\<close> by (subst tokenize.simps) (simp add: option.map_comp o_def)
qed

lemma tokenize_space:
  assumes "r \<noteq> []" "\<not> is_space (hd r)"
  shows "tokenize ('' '' @ r) = tokenize r"
proof -
  have "takeWhile is_space ('' '' @ r) = '' ''" using assms by (cases r) (auto simp: is_space_def)
  then have "next_token ('' '' @ r) = Some (None, 0)" by (simp add: next_token_def is_space_def)
  then show ?thesis by (subst tokenize.simps) (simp add: option.map_ident)
qed

lemma spaced_Cons: "spaced (t # u # ts) = image t @ '' '' @ spaced (u # ts)"
  by (simp add: spaced_def)

lemma spaced_ends:
  "ts \<noteq> [] \<Longrightarrow> list_all token_ok ts \<Longrightarrow>
   spaced ts \<noteq> [] \<and> \<not> is_space (hd (spaced ts)) \<and> \<not> is_space (last (spaced ts))"
proof (induction ts rule: induct_list012)
  case (2 t)
  then show ?case using image_ends[of t] by (simp add: spaced_def)
next
  case (3 t u ts)
  then have "spaced (u # ts) \<noteq> []" "\<not> is_space (last (spaced (u # ts)))" by simp_all
  then show ?case using 3(4) image_ends[of t] by (simp add: spaced_Cons)
qed simp

lemma tokenize_spaced: "list_all token_ok ts \<Longrightarrow> tokenize (spaced ts) = Some ts"
proof (induction ts rule: induct_list012)
  case 1
  show ?case by (simp add: spaced_def tokenize.simps)
next
  case (2 t)
  then show ?case using tokenize_image[of t "[]"] by (simp add: spaced_def boundary_def tokenize.simps)
next
  case (3 t u ts)
  have e: "spaced (u # ts) \<noteq> []" "\<not> is_space (hd (spaced (u # ts)))" using spaced_ends[of "u # ts"] 3(3) by simp_all
  have "tokenize (spaced (t # u # ts)) = map_option (Cons t) (tokenize ('' '' @ spaced (u # ts)))"
    unfolding spaced_Cons by (rule tokenize_image) (use 3(3) in \<open>simp_all add: boundary_def\<close>)
  also have "\<dots> = Some (t # u # ts)" unfolding tokenize_space[OF e] using 3 by simp
  finally show ?case .
qed

lemma trim_id: "s \<noteq> [] \<Longrightarrow> \<not> is_space (hd s) \<Longrightarrow> \<not> is_space (last s) \<Longrightarrow> trim s = s"
proof -
  assume s: "s \<noteq> []" "\<not> is_space (hd s)" "\<not> is_space (last s)"
  then have "dropWhile is_space s = s" by (cases s) auto
  moreover have "dropWhile is_space (rev s) = rev s" using s by (cases "rev s") (auto simp: hd_rev)
  ultimately show ?thesis by (simp add: trim_def)
qed

lemma number_token_ok: "token_ok (number_token x)"
  using show_nat_digits by (simp add: number_token_def)

lemma lit_token_ok: "token_ok (lit_token l)"
  by (cases l rule: lit_token.cases) (simp_all only: lit_token.simps number_token_ok quoted_ok, simp_all)

lemma segment_tokens_ok: "segment_ok x \<Longrightarrow> list_all token_ok (segment_tokens x)"
  by (cases x) (simp_all add: number_token_ok quoted_ok del: token_ok.simps, simp_all)

lemma wrap_ok: "list_all token_ok ts \<Longrightarrow> list_all token_ok (wrap b ts)"
  by (simp add: wrap_def)

lemma op_token_ok: "token_ok (op_token oper)"
  by (cases oper) simp_all

lemma separated_ok: "list_all (list_all token_ok) tss \<Longrightarrow> list_all token_ok (separated tss)"
  by (induction tss rule: separated.induct) simp_all

lemma unparse_ok: "printable a \<Longrightarrow> list_all token_ok (unparse a) \<and> unparse a \<noteq> []"
proof (induction a rule: unparse.induct)
  case (3 a ss)
  then show ?case by (cases a) (auto simp: list_all_iff dest!: bspec segment_tokens_ok[unfolded list_all_iff])
next
  case (4 f as)
  then show ?case using separated_ok[of "map unparse as"] by (simp add: list_all_iff)
next
  case (6 oper a b)
  then show ?case by (simp add: wrap_ok op_token_ok)
qed (simp_all add: lit_token_ok wrap_ok del: lit_token.simps)

lemma parse_print:
  assumes "printable a"
  shows "parseExpression (print_expr a) = Inr a"
proof -
  note ok = unparse_ok[OF assms]
  have e: "spaced (unparse a) \<noteq> []" "\<not> is_space (hd (spaced (unparse a)))" "\<not> is_space (last (spaced (unparse a)))"
    using spaced_ends ok by blast+
  then show ?thesis
    using trim_id[OF e] tokenize_spaced[of "unparse a"] ok parse_unparse[OF assms]
    by (simp add: parseExpression_def print_expr_def parse_trimmed_def)
qed


definition demo_expr :: ASTNode where
  "demo_expr = Binary OpOr (Binary OpEq (Name ''verdict'') (Literal (LStr ''PASS''))) (Unary
     (Binary OpAnd (Path (Name ''matches'') [Prop ''length'', IndexStr ''k'']) (Call ''len'' [Name ''x'', Literal LNull])))"


end
