(* ===== verification/ExprEval.thy ===== *)
theory ExprEval
  imports ExprSyntax
begin

text \<open>
  The guard language, meaning: the interpreter (\<open>src/src/runtime/evaluator/expression/interpreter.ts\<close>)
  with its depth and step caps, the function registry (\<open>functions.ts\<close>), the policy values of
  \<open>integrations/pi/tool_aliases.ts\<close>, the parse cache (\<open>cache.ts\<close>) and \<open>evalCondition\<close>
  (\<open>index.ts\<close>).

  A value is a JavaScript value that a binding can hold, functions apart; everything that is not
  primitive (arrays, objects, byte buffers, dates with their ISO text, if valid) carries an identity,
  which is what strict equality compares. The regular expression engine behind
  \<open>match\<close> is an argument. The warnings printed on a failed condition are left out.
\<close>

section \<open>Values\<close>

datatype val = VUndef | VNull | VBool bool | VNum jsnum | VStr string
  | VArr nat "val list" | VObj nat "(string \<times> val) list" | VBytes nat string | VDate nat "string option"

fun num_eq :: "jsnum \<Rightarrow> jsnum \<Rightarrow> bool" where
  "num_eq NaN y \<longleftrightarrow> False"
| "num_eq x y \<longleftrightarrow> x = y"

fun num_less :: "jsnum \<Rightarrow> jsnum \<Rightarrow> bool" where
  "num_less (Fin a) (Fin b) \<longleftrightarrow> a < b"
| "num_less (Fin a) (Infinity p) \<longleftrightarrow> p"
| "num_less (Infinity p) (Fin b) \<longleftrightarrow> \<not> p"
| "num_less (Infinity p) (Infinity q) \<longleftrightarrow> \<not> p \<and> q"
| "num_less _ _ \<longleftrightarrow> False"

fun truthy :: "val \<Rightarrow> bool" where
  "truthy VUndef \<longleftrightarrow> False"
| "truthy VNull \<longleftrightarrow> False"
| "truthy (VBool b) \<longleftrightarrow> b"
| "truthy (VNum x) \<longleftrightarrow> x \<noteq> Fin 0 \<and> x \<noteq> NaN"
| "truthy (VStr s) \<longleftrightarrow> s \<noteq> []"
| "truthy _ \<longleftrightarrow> True"

fun strict_eq :: "val \<Rightarrow> val \<Rightarrow> bool" where
  "strict_eq (VNum x) (VNum y) \<longleftrightarrow> num_eq x y"
| "strict_eq (VArr i xs) (VArr j ys) \<longleftrightarrow> i = j"
| "strict_eq (VObj i xs) (VObj j ys) \<longleftrightarrow> i = j"
| "strict_eq (VBytes i xs) (VBytes j ys) \<longleftrightarrow> i = j"
| "strict_eq (VDate i d) (VDate j e) \<longleftrightarrow> i = j"
| "strict_eq v w \<longleftrightarrow> v = w"

section \<open>Policy tool values\<close>

definition POLICY_TAG :: string where
  "POLICY_TAG = ''__opensquidPolicyToolValue''"

definition asPolicyToolValue :: "val \<Rightarrow> (string \<times> val list) option" where
  "asPolicyToolValue v = (case v of
     VObj i kvs \<Rightarrow> (case (map_of kvs POLICY_TAG, map_of kvs ''actual'', map_of kvs ''aliases'') of
       (Some (VBool True), Some (VStr a), Some (VArr j xs)) \<Rightarrow> Some (a, xs) | _ \<Rightarrow> None)
   | _ \<Rightarrow> None)"

definition policyToolActualName :: "val \<Rightarrow> string option" where
  "policyToolActualName v = (case v of VStr s \<Rightarrow> Some s | _ \<Rightarrow> map_option fst (asPolicyToolValue v))"

definition match_named :: "string \<Rightarrow> val \<Rightarrow> bool" where
  "match_named a v = (case policyToolActualName v of None \<Rightarrow> False | Some t \<Rightarrow> toolMatches a t)"

definition toolValueEquals :: "val \<Rightarrow> val \<Rightarrow> bool option" where
  "toolValueEquals l r = (case asPolicyToolValue l of
     Some (a, xs) \<Rightarrow> Some (match_named a r)
   | None \<Rightarrow> map_option (\<lambda>(a, xs). match_named a l) (asPolicyToolValue r))"

text \<open>\<open>some\<close> over the aliases; a test that throws ends the walk.\<close>

fun some_alias :: "(val \<Rightarrow> bool option) \<Rightarrow> val list \<Rightarrow> bool option" where
  "some_alias f [] = Some False"
| "some_alias f (x # xs) = (case f x of None \<Rightarrow> None | Some True \<Rightarrow> Some True | Some False \<Rightarrow> some_alias f xs)"

definition withToolAliases :: "val \<Rightarrow> (val \<Rightarrow> bool option) \<Rightarrow> bool option option" where
  "withToolAliases v f = map_option (\<lambda>(a, xs). some_alias f xs) (asPolicyToolValue v)"

text \<open>String methods on an alias: arrays and buffers have \<open>includes\<close> too, anything else throws.\<close>

fun alias_includes :: "string \<Rightarrow> val \<Rightarrow> bool option" where
  "alias_includes n (VStr s) = Some (str_includes s n)"
| "alias_includes n (VArr i xs) = Some (VStr n \<in> set xs)"
| "alias_includes n (VBytes i s) = Some (str_includes s n)"
| "alias_includes n _ = None"

fun alias_string :: "(string \<Rightarrow> bool) \<Rightarrow> val \<Rightarrow> bool option" where
  "alias_string f (VStr s) = Some (f s)"
| "alias_string f _ = None"

section \<open>The function registry\<close>

text \<open>A handler answers a value, or throws.\<close>

type_synonym handler = "val list \<Rightarrow> val option"

definition arg :: "nat \<Rightarrow> val list \<Rightarrow> val" where
  "arg i vs = (if i < length vs then vs ! i else VUndef)"

definition num_of :: "nat \<Rightarrow> val" where
  "num_of n = VNum (Fin (of_nat n))"

definition fn_len :: handler where
  "fn_len vs = Some (case policyToolActualName (arg 0 vs) of
     Some s \<Rightarrow> num_of (length s)
   | None \<Rightarrow> (case arg 0 vs of VArr i xs \<Rightarrow> num_of (length xs) | VObj i kvs \<Rightarrow> num_of (length kvs)
     | VBytes i s \<Rightarrow> num_of (length s) | _ \<Rightarrow> num_of 0))"

definition on_text :: "(val \<Rightarrow> bool option) \<Rightarrow> (string \<Rightarrow> bool) \<Rightarrow> val \<Rightarrow> val option" where
  "on_text on_alias on_string s = (case withToolAliases s on_alias of
     Some r \<Rightarrow> map_option VBool r
   | None \<Rightarrow> Some (VBool (case policyToolActualName s of Some t \<Rightarrow> on_string t | None \<Rightarrow> False)))"

definition fn_contains :: handler where
  "fn_contains vs = (case arg 1 vs of
     VStr n \<Rightarrow> on_text (alias_includes n) (\<lambda>t. str_includes t n) (arg 0 vs) | _ \<Rightarrow> Some (VBool False))"

definition fn_startsWith :: handler where
  "fn_startsWith vs = (case arg 1 vs of
     VStr p \<Rightarrow> on_text (alias_string (\<lambda>t. starts_with t p)) (\<lambda>t. starts_with t p) (arg 0 vs)
   | _ \<Rightarrow> Some (VBool False))"

definition fn_endsWith :: handler where
  "fn_endsWith vs = (case arg 1 vs of
     VStr p \<Rightarrow> on_text (alias_string (\<lambda>t. ends_with t p)) (\<lambda>t. ends_with t p) (arg 0 vs)
   | _ \<Rightarrow> Some (VBool False))"

text \<open>The engine compiles a pattern, or refuses it, to a test of a value that answers or throws.\<close>

type_synonym re2 = "string \<Rightarrow> (val \<Rightarrow> bool option) option"

definition fn_match :: "re2 \<Rightarrow> handler" where
  "fn_match re vs = Some (VBool (case (policyToolActualName (arg 0 vs), arg 1 vs) of
     (Some t, VStr p) \<Rightarrow> (case re p of
         None \<Rightarrow> False
       | Some test \<Rightarrow> (case withToolAliases (arg 0 vs) test of
           Some r \<Rightarrow> r = Some True | None \<Rightarrow> test (VStr t) = Some True))
   | _ \<Rightarrow> False))"

definition FUNCTIONS :: "re2 \<Rightarrow> string \<Rightarrow> handler option" where
  "FUNCTIONS re name = (if name = ''len'' then Some fn_len else if name = ''contains'' then Some fn_contains
     else if name = ''startsWith'' then Some fn_startsWith else if name = ''endsWith'' then Some fn_endsWith
     else if name = ''match'' then Some (fn_match re) else None)"

section \<open>The interpreter\<close>

definition MAX_DEPTH :: nat where "MAX_DEPTH = 64"
definition MAX_STEPS :: nat where "MAX_STEPS = 10000"

datatype eval_error = DepthLimit | StepLimit | UnknownFunction string | HandlerThrew

fun lit_value :: "lit \<Rightarrow> val" where
  "lit_value (LStr s) = VStr s"
| "lit_value (LNum x) = VNum x"
| "lit_value (LBool b) = VBool b"
| "lit_value LNull = VNull"

definition applyCompare :: "BinaryOp \<Rightarrow> val \<Rightarrow> val \<Rightarrow> bool" where
  "applyCompare oper l r = (case oper of
     OpEq \<Rightarrow> (case toolValueEquals l r of Some b \<Rightarrow> b | None \<Rightarrow> strict_eq l r)
   | OpNeq \<Rightarrow> (case toolValueEquals l r of Some b \<Rightarrow> \<not> b | None \<Rightarrow> \<not> strict_eq l r)
   | _ \<Rightarrow> (case (l, r) of
       (VNum x, VNum y) \<Rightarrow>
         (case oper of OpLt \<Rightarrow> num_less x y | OpLte \<Rightarrow> num_less x y \<or> num_eq x y
          | OpGt \<Rightarrow> num_less y x | _ \<Rightarrow> num_less y x \<or> num_eq x y)
     | _ \<Rightarrow> False))"

text \<open>Own properties: the entries of an object, of an array its elements and its length, of a buffer its
  bytes.\<close>

definition array_index :: "string \<Rightarrow> nat option" where
  "array_index s = (if s \<noteq> [] \<and> list_all is_digit s \<and> (s = ''0'' \<or> hd s \<noteq> CHR ''0'')
     then Some (digits_value s) else None)"

fun own_property :: "val \<Rightarrow> string \<Rightarrow> val option" where
  "own_property (VObj i kvs) k = map_of kvs k"
| "own_property (VArr i xs) k =
     (if k = ''length'' then Some (num_of (length xs))
      else case array_index k of Some n \<Rightarrow> if n < length xs then Some (xs ! n) else None | None \<Rightarrow> None)"
| "own_property (VBytes i s) k = (case array_index k of
     Some n \<Rightarrow> if n < length s then Some (num_of (of_char (s ! n))) else None | None \<Rightarrow> None)"
| "own_property _ k = None"

definition or_undefined :: "val option \<Rightarrow> val" where
  "or_undefined v = (case v of Some x \<Rightarrow> x | None \<Rightarrow> VUndef)"

fun element :: "val list \<Rightarrow> jsnum \<Rightarrow> val" where
  "element xs (Fin q) = (if q = of_int \<lfloor>q\<rfloor> \<and> 0 \<le> q \<and> nat \<lfloor>q\<rfloor> < length xs then xs ! nat \<lfloor>q\<rfloor> else VUndef)"
| "element xs _ = VUndef"

fun step_segment :: "PathSegment \<Rightarrow> val \<Rightarrow> val" where
  "step_segment (Prop p) v =
     (if p = ''length''
      then (case v of VArr i xs \<Rightarrow> num_of (length xs) | VStr s \<Rightarrow> num_of (length s)
            | _ \<Rightarrow> or_undefined (own_property v p))
      else or_undefined (own_property v p))"
| "step_segment (IndexNum x) v = (case v of VArr i xs \<Rightarrow> element xs x | _ \<Rightarrow> VUndef)"
| "step_segment (IndexStr k) v = or_undefined (own_property v k)"

text \<open>A null or undefined value ends the walk with undefined, which every later step keeps.\<close>

fun resolvePath :: "val \<Rightarrow> PathSegment list \<Rightarrow> val" where
  "resolvePath v [] = v"
| "resolvePath v (seg # ps) =
     (if v = VNull \<or> v = VUndef then VUndef else resolvePath (step_segment seg v) ps)"

text \<open>The caps on a visit: the depth of the node, and the visits so far, this one included.\<close>

definition over_limit :: "nat \<Rightarrow> nat \<Rightarrow> eval_error option" where
  "over_limit depth steps =
     (if MAX_DEPTH < depth then Some DepthLimit else if MAX_STEPS < steps + 1 then Some StepLimit else None)"

fun evaluate :: "(string \<Rightarrow> handler option) \<Rightarrow> val obj \<Rightarrow> ASTNode \<Rightarrow> nat \<Rightarrow> nat \<Rightarrow> (eval_error + val) \<times> nat"
  and evaluateArgs :: "(string \<Rightarrow> handler option) \<Rightarrow> val obj \<Rightarrow> ASTNode list \<Rightarrow> nat \<Rightarrow> nat \<Rightarrow> (eval_error + val list) \<times> nat"
where
  "evaluate R B (Literal l) d s = (case over_limit d s of
     Some e \<Rightarrow> (Inl e, s) | None \<Rightarrow> (Inr (lit_value l), s + 1))"
| "evaluate R B (Name x) d s = (case over_limit d s of
     Some e \<Rightarrow> (Inl e, s) | None \<Rightarrow> (Inr (or_undefined (map_of B x)), s + 1))"
| "evaluate R B (Path a ps) d s = (case over_limit d s of
     Some e \<Rightarrow> (Inl e, s)
   | None \<Rightarrow> (case evaluate R B a (d + 1) (s + 1) of
       (Inl e, s1) \<Rightarrow> (Inl e, s1) | (Inr v, s1) \<Rightarrow> (Inr (resolvePath v ps), s1)))"
| "evaluate R B (Call f as) d s = (case over_limit d s of
     Some e \<Rightarrow> (Inl e, s)
   | None \<Rightarrow> (case R f of
       None \<Rightarrow> (Inl (UnknownFunction f), s + 1)
     | Some h \<Rightarrow> (case evaluateArgs R B as (d + 1) (s + 1) of
         (Inl e, s1) \<Rightarrow> (Inl e, s1)
       | (Inr vs, s1) \<Rightarrow> (case h vs of None \<Rightarrow> (Inl HandlerThrew, s1) | Some v \<Rightarrow> (Inr v, s1)))))"
| "evaluate R B (Unary a) d s = (case over_limit d s of
     Some e \<Rightarrow> (Inl e, s)
   | None \<Rightarrow> (case evaluate R B a (d + 1) (s + 1) of
       (Inl e, s1) \<Rightarrow> (Inl e, s1) | (Inr v, s1) \<Rightarrow> (Inr (VBool (\<not> truthy v)), s1)))"
| "evaluate R B (Binary oper a b) d s = (case over_limit d s of
     Some e \<Rightarrow> (Inl e, s)
   | None \<Rightarrow> (case evaluate R B a (d + 1) (s + 1) of
       (Inl e, s1) \<Rightarrow> (Inl e, s1)
     | (Inr v, s1) \<Rightarrow>
         (if oper = OpAnd then (if truthy v then evaluate R B b (d + 1) s1 else (Inr v, s1))
          else if oper = OpOr then (if truthy v then (Inr v, s1) else evaluate R B b (d + 1) s1)
          else (case evaluate R B b (d + 1) s1 of
              (Inl e, s2) \<Rightarrow> (Inl e, s2)
            | (Inr w, s2) \<Rightarrow> (Inr (VBool (applyCompare oper v w)), s2)))))"
| "evaluateArgs R B [] d s = (Inr [], s)"
| "evaluateArgs R B (a # as) d s = (case evaluate R B a d s of
     (Inl e, s1) \<Rightarrow> (Inl e, s1)
   | (Inr v, s1) \<Rightarrow> (case evaluateArgs R B as d s1 of (Inl e, s2) \<Rightarrow> (Inl e, s2) | (Inr vs, s2) \<Rightarrow> (Inr (v # vs), s2)))"

section \<open>Conditions\<close>

text \<open>The parse cache, of a bounded cache package; it is created for \<open>MAX_ENTRIES\<close> trees.\<close>

definition MAX_ENTRIES :: nat where "MAX_ENTRIES = 256"

type_synonym 'c cache = "(ASTNode, 'c) lru"

definition getCached :: "'c cache \<Rightarrow> string \<Rightarrow> 'c \<Rightarrow> ASTNode option \<times> 'c" where
  "getCached L k c = lru_get L k c"

definition setCached :: "'c cache \<Rightarrow> string \<Rightarrow> ASTNode \<Rightarrow> 'c \<Rightarrow> 'c" where
  "setCached L k a c = lru_set L k a c"

definition holds_value :: "(string \<Rightarrow> handler option) \<Rightarrow> val obj \<Rightarrow> ASTNode \<Rightarrow> bool" where
  "holds_value R B a = (case fst (evaluate R B a 0 0) of Inl e \<Rightarrow> False | Inr v \<Rightarrow> truthy v)"

definition evalCondition :: "'c cache \<Rightarrow> (string \<Rightarrow> handler option) \<Rightarrow> string \<Rightarrow> val obj \<Rightarrow> 'c \<Rightarrow> bool \<times> 'c" where
  "evalCondition L R expr B c =
     (let key = trim expr in
      if key = [] then (True, c)
      else case getCached L key c of
          (Some a, c1) \<Rightarrow> (holds_value R B a, c1)
        | (None, c1) \<Rightarrow> (case parse_trimmed key of
            Inl e \<Rightarrow> (False, c1)
          | Inr a \<Rightarrow> (holds_value R B a, setCached L key a c1)))"

section \<open>The caps change nothing else\<close>

text \<open>The meaning of a tree without counters, its height below the root, and its nodes.\<close>

fun denote :: "(string \<Rightarrow> handler option) \<Rightarrow> val obj \<Rightarrow> ASTNode \<Rightarrow> eval_error + val"
  and denoteArgs :: "(string \<Rightarrow> handler option) \<Rightarrow> val obj \<Rightarrow> ASTNode list \<Rightarrow> eval_error + val list"
where
  "denote R B (Literal l) = Inr (lit_value l)"
| "denote R B (Name x) = Inr (or_undefined (map_of B x))"
| "denote R B (Path a ps) = (case denote R B a of Inl e \<Rightarrow> Inl e | Inr v \<Rightarrow> Inr (resolvePath v ps))"
| "denote R B (Call f as) = (case R f of
     None \<Rightarrow> Inl (UnknownFunction f)
   | Some h \<Rightarrow> (case denoteArgs R B as of
       Inl e \<Rightarrow> Inl e | Inr vs \<Rightarrow> (case h vs of None \<Rightarrow> Inl HandlerThrew | Some v \<Rightarrow> Inr v)))"
| "denote R B (Unary a) = (case denote R B a of Inl e \<Rightarrow> Inl e | Inr v \<Rightarrow> Inr (VBool (\<not> truthy v)))"
| "denote R B (Binary oper a b) = (case denote R B a of
     Inl e \<Rightarrow> Inl e
   | Inr v \<Rightarrow>
       (if oper = OpAnd then (if truthy v then denote R B b else Inr v)
        else if oper = OpOr then (if truthy v then Inr v else denote R B b)
        else (case denote R B b of Inl e \<Rightarrow> Inl e | Inr w \<Rightarrow> Inr (VBool (applyCompare oper v w)))))"
| "denoteArgs R B [] = Inr []"
| "denoteArgs R B (a # as) = (case denote R B a of
     Inl e \<Rightarrow> Inl e
   | Inr v \<Rightarrow> (case denoteArgs R B as of Inl e \<Rightarrow> Inl e | Inr vs \<Rightarrow> Inr (v # vs)))"

fun height :: "ASTNode \<Rightarrow> nat" and heights :: "ASTNode list \<Rightarrow> nat" where
  "height (Literal l) = 0"
| "height (Name x) = 0"
| "height (Path a ps) = Suc (height a)"
| "height (Call f as) = (if as = [] then 0 else Suc (heights as))"
| "height (Unary a) = Suc (height a)"
| "height (Binary oper a b) = Suc (max (height a) (height b))"
| "heights [] = 0"
| "heights (a # as) = max (height a) (heights as)"

fun nodes :: "ASTNode \<Rightarrow> nat" and nodesArgs :: "ASTNode list \<Rightarrow> nat" where
  "nodes (Literal l) = 1"
| "nodes (Name x) = 1"
| "nodes (Path a ps) = Suc (nodes a)"
| "nodes (Call f as) = Suc (nodesArgs as)"
| "nodes (Unary a) = Suc (nodes a)"
| "nodes (Binary oper a b) = Suc (nodes a + nodes b)"
| "nodesArgs [] = 0"
| "nodesArgs (a # as) = nodes a + nodesArgs as"

text \<open>An outcome agrees with a reference outcome, or is a cap that the sizes justify.\<close>

definition capped :: "nat \<Rightarrow> nat \<Rightarrow> eval_error + 'a \<Rightarrow> eval_error + 'a \<Rightarrow> bool" where
  "capped deepest visits r ref \<longleftrightarrow> r = ref \<or> (r = Inl DepthLimit \<and> MAX_DEPTH < deepest) \<or> (r = Inl StepLimit \<and> MAX_STEPS < visits)"

definition agrees :: "nat \<Rightarrow> nat \<Rightarrow> nat \<Rightarrow> nat \<Rightarrow> (eval_error + 'a) \<times> nat \<Rightarrow> eval_error + 'a \<Rightarrow> bool" where
  "agrees d h s n out ref \<longleftrightarrow> s \<le> snd out \<and> snd out \<le> s + n \<and> capped (d + h) (s + n) (fst out) ref"

lemma agrees_limit: "over_limit d s = Some e \<Longrightarrow> 0 < n \<Longrightarrow> agrees d h s n (Inl e, s) ref"
  by (auto simp: agrees_def capped_def over_limit_def split: if_splits)

lemma agrees_mono: "agrees d h s n out ref \<Longrightarrow> d + h \<le> d' + h' \<Longrightarrow> s' \<le> s \<Longrightarrow> s + n \<le> s' + n' \<Longrightarrow> agrees d' h' s' n' out ref"
  by (auto simp: agrees_def capped_def)

text \<open>Sequencing: what follows a successful sub-evaluation agrees when it agrees from there.\<close>

lemma agrees_bind:
  assumes "agrees d h s n out ref" and "d + h \<le> d' + h'" "s' \<le> s" "s + n \<le> s' + n'"
    and "\<And>v s1. out = (Inr v, s1) \<Longrightarrow> ref = Inr v \<Longrightarrow> s \<le> s1 \<Longrightarrow> s1 \<le> s + n \<Longrightarrow> agrees d' h' s' n' (k v s1) (k' v)"
  shows "agrees d' h' s' n' (case out of (Inl e, s1) \<Rightarrow> (Inl e, s1) | (Inr v, s1) \<Rightarrow> k v s1)
    (case ref of Inl e \<Rightarrow> Inl e | Inr v \<Rightarrow> k' v)"
proof (cases out)
  case (Pair r s1)
  show ?thesis
  proof (cases r)
    case (Inl e)
    then show ?thesis using assms(1-4) Pair by (auto simp: agrees_def capped_def)
  next
    case (Inr v)
    then show ?thesis using assms Pair by (auto simp: agrees_def capped_def)
  qed
qed

lemma agrees_done: "s' \<le> s1 \<Longrightarrow> s1 \<le> s' + n' \<Longrightarrow> agrees d' h' s' n' (r, s1) r"
  by (simp add: agrees_def capped_def)

lemma evaluate_agrees:
  "agrees d (height a) s (nodes a) (evaluate R B a d s) (denote R B a)"
  "agrees d (heights as) s (nodesArgs as) (evaluateArgs R B as d s) (denoteArgs R B as)"
proof (induction R B a d s and R B as d s rule: evaluate_evaluateArgs.induct)
  case (1 R B l d s)
  then show ?case by (auto split: option.split intro: agrees_limit agrees_done)
next
  case (2 R B x d s)
  then show ?case by (auto split: option.split intro: agrees_limit agrees_done)
next
  case (3 R B a ps d s)
  show ?case
  proof (cases "over_limit d s")
    case None
    show ?thesis
      unfolding evaluate.simps denote.simps None option.case
      by (rule agrees_bind[OF 3[OF None]]) (auto intro: agrees_done)
  qed (simp add: agrees_limit)
next
  case (4 R B f as d s)
  show ?case
  proof (cases "over_limit d s")
    case None
    show ?thesis
    proof (cases "R f")
      case (Some h)
      show ?thesis
      proof (cases "as = []")
        case False
        show ?thesis
          unfolding evaluate.simps denote.simps None Some option.case
          by (rule agrees_bind[OF 4[OF None Some]]) (use False in \<open>auto split: option.split intro: agrees_done\<close>)
      qed (auto simp: None Some split: option.split intro: agrees_done)
    qed (simp add: None agrees_done)
  qed (simp add: agrees_limit)
next
  case (5 R B a d s)
  show ?case
  proof (cases "over_limit d s")
    case None
    show ?thesis
      unfolding evaluate.simps denote.simps None option.case
      by (rule agrees_bind[OF 5[OF None]]) (auto intro: agrees_done)
  qed (simp add: agrees_limit)
next
  case (6 R B oper a b d s)
  show ?case
  proof (cases "over_limit d s")
    case None
    show ?thesis
      unfolding evaluate.simps denote.simps None option.case
    proof (rule agrees_bind[OF 6(1)[OF None]])
      fix v s1 assume e: "evaluate R B a (d + 1) (s + 1) = (Inr v, s1)" and s1: "s + 1 \<le> s1" "s1 \<le> s + 1 + nodes a"
      have b: "agrees (d + 1) (height b) s1 (nodes b) (evaluate R B b (d + 1) s1) (denote R B b)"
        if "oper = OpAnd \<and> truthy v \<or> oper = OpOr \<and> \<not> truthy v \<or> oper \<noteq> OpAnd \<and> oper \<noteq> OpOr"
        using 6(2-4)[OF None e[symmetric] refl] that by auto
      have b': "agrees d (height (Binary oper a b)) s (nodes (Binary oper a b)) (evaluate R B b (d + 1) s1) (denote R B b)"
        if "oper = OpAnd \<and> truthy v \<or> oper = OpOr \<and> \<not> truthy v"
        using agrees_mono[OF b] that s1 by auto
      have stop: "agrees d (height (Binary oper a b)) s (nodes (Binary oper a b)) (Inr v, s1) (Inr v)"
        using s1 by (intro agrees_done) auto
      have cmp: "agrees d (height (Binary oper a b)) s (nodes (Binary oper a b))
          (case evaluate R B b (d + 1) s1 of (Inl e, s2) \<Rightarrow> (Inl e, s2) | (Inr w, s2) \<Rightarrow> (Inr (VBool (applyCompare oper v w)), s2))
          (case denote R B b of Inl e \<Rightarrow> Inl e | Inr w \<Rightarrow> Inr (VBool (applyCompare oper v w)))"
        if "oper \<noteq> OpAnd \<and> oper \<noteq> OpOr"
        by (rule agrees_bind[OF b]) (use that s1 in \<open>auto intro: agrees_done\<close>)
      show "agrees d (height (Binary oper a b)) s (nodes (Binary oper a b))
        (if oper = OpAnd then if truthy v then evaluate R B b (d + 1) s1 else (Inr v, s1)
         else if oper = OpOr then if truthy v then (Inr v, s1) else evaluate R B b (d + 1) s1
         else case evaluate R B b (d + 1) s1 of (Inl e, s2) \<Rightarrow> (Inl e, s2) | (Inr w, s2) \<Rightarrow> (Inr (VBool (applyCompare oper v w)), s2))
        (if oper = OpAnd then if truthy v then denote R B b else Inr v
         else if oper = OpOr then if truthy v then Inr v else denote R B b
         else case denote R B b of Inl e \<Rightarrow> Inl e | Inr w \<Rightarrow> Inr (VBool (applyCompare oper v w)))"
        using b' stop cmp by (auto split: if_split)
    qed auto
  qed (simp add: agrees_limit)
next
  case (7 R B d s)
  then show ?case by (simp add: agrees_done)
next
  case (8 R B a as d s)
  show ?case
    unfolding evaluateArgs.simps denoteArgs.simps
  proof (rule agrees_bind[OF 8(1)])
    fix v s1 assume e: "evaluate R B a d s = (Inr v, s1)" and s1: "s \<le> s1" "s1 \<le> s + nodes a"
    show "agrees d (heights (a # as)) s (nodesArgs (a # as))
        (case evaluateArgs R B as d s1 of (Inl e, s2) \<Rightarrow> (Inl e, s2) | (Inr vs, s2) \<Rightarrow> (Inr (v # vs), s2))
        (case denoteArgs R B as of Inl e \<Rightarrow> Inl e | Inr vs \<Rightarrow> Inr (v # vs))"
      by (rule agrees_bind[OF 8(2)[OF e[symmetric] refl]]) (use s1 in \<open>auto intro: agrees_done\<close>)
  qed auto
qed

text \<open>
  The interpreter against the meaning of the tree: it answers what the tree means, values, short
  circuits and errors included, with at most one counted visit for each node. The only other answers
  are the depth error, on a tree of more than 64 levels below the root, and the step error, on a
  tree of more than 10000 nodes; so on every smaller tree the caps are never seen.
\<close>

theorem interpreter_limits:
  "capped (height a) (nodes a) (fst (evaluate R B a 0 0)) (denote R B a) \<and> snd (evaluate R B a 0 0) \<le> nodes a"
  using evaluate_agrees(1)[of 0 a 0 R B] by (simp add: agrees_def)

section \<open>The cache is transparent\<close>

text \<open>The parser as a partial function, and a condition answered without a cache.\<close>

definition parse_ok :: "string \<Rightarrow> ASTNode option" where
  "parse_ok key = (case parse_trimmed key of Inl e \<Rightarrow> None | Inr a \<Rightarrow> Some a)"

definition condition_holds :: "(string \<Rightarrow> handler option) \<Rightarrow> string \<Rightarrow> val obj \<Rightarrow> bool" where
  "condition_holds R expr B \<longleftrightarrow> trim expr = [] \<or>
     (case parse_ok (trim expr) of None \<Rightarrow> False | Some a \<Rightarrow> holds_value R B a)"

fun evalConditions :: "'c cache \<Rightarrow> (string \<Rightarrow> handler option) \<Rightarrow> (string \<times> val obj) list \<Rightarrow> 'c \<Rightarrow> bool list \<times> 'c" where
  "evalConditions L R [] c = ([], c)"
| "evalConditions L R ((expr, B) # qs) c = (case evalCondition L R expr B c of
     (b, c1) \<Rightarrow> (case evalConditions L R qs c1 of (bs, c2) \<Rightarrow> (b # bs, c2)))"

locale expr_cache = lru_cache L held bound
  for L :: "(ASTNode, 'c) lru" and held :: "'c \<Rightarrow> string \<Rightarrow> ASTNode option" and bound :: nat
begin

lemma evalCondition_through:
  "evalCondition L R expr B c = (if trim expr = [] then (True, c)
     else case through parse_ok (trim expr) c of
       (r, c') \<Rightarrow> (case r of None \<Rightarrow> False | Some a \<Rightarrow> holds_value R B a, c'))"
  by (auto simp: evalCondition_def getCached_def setCached_def Let_def through_def parse_ok_def
      split: prod.split option.split sum.split)

lemma evalCondition_answer:
  "holds_of parse_ok c \<Longrightarrow> fst (evalCondition L R expr B c) = condition_holds R expr B"
  using through_answer[of parse_ok c "trim expr"]
  by (auto simp: evalCondition_through condition_holds_def split: prod.splits)

lemma evalCondition_keeps: "holds_of parse_ok c \<Longrightarrow> holds_of parse_ok (snd (evalCondition L R expr B c))"
  using through_keeps[of parse_ok c "trim expr"] by (auto simp: evalCondition_through split: prod.splits)

lemma evalCondition_bounded:
  "card (dom (held c)) \<le> bound \<Longrightarrow> card (dom (held (snd (evalCondition L R expr B c)))) \<le> bound"
  using through_bounded[of c parse_ok "trim expr"] by (auto simp: evalCondition_through split: prod.splits)

lemma evalConditions_transparent:
  assumes "holds_of parse_ok c" and "card (dom (held c)) \<le> bound"
  shows "fst (evalConditions L R qs c) = map (\<lambda>(e, B). condition_holds R e B) qs \<and>
    card (dom (held (snd (evalConditions L R qs c)))) \<le> bound"
  using assms
proof (induction qs arbitrary: c)
  case (Cons q qs)
  obtain expr B where q: "q = (expr, B)" by fastforce
  obtain b c1 where e: "evalCondition L R expr B c = (b, c1)" by fastforce
  have "holds_of parse_ok c1" "card (dom (held c1)) \<le> bound" "b = condition_holds R expr B"
    using evalCondition_keeps[OF Cons.prems(1), of R expr B] evalCondition_bounded[OF Cons.prems(2), of R expr B]
      evalCondition_answer[OF Cons.prems(1), of R expr B] by (simp_all add: e)
  with Cons.IH[of c1] show ?case by (auto simp: q e split: prod.split)
qed simp

end

interpretation list_cache: expr_cache "list_lru (Suc n)" map_of "Suc n" for n
  by (rule expr_cache.intro) (rule list_lru.lru_cache_axioms)


definition demo_conditions :: "(string \<times> val obj) list" where
  "demo_conditions = [(''a == 1'', [(''a'', VNum (Fin 1))]), ([], []), (''a <'', [])]"


end
