(* ===== verification/Durable.thy ===== *)
theory Durable
  imports ExprEval "HOL-Library.List_Lexorder" "HOL-Library.Char_ord"
begin

text \<open>
  Durable execution, storage: canonical JSON (\<open>src/src/runtime/durable/canonical_json.ts\<close>), run identity
  (\<open>run_id.ts\<close>), the checkpoint store (\<open>checkpoint_store.ts\<close>) and the resumer (\<open>resumer.ts\<close>).

  Values are those of the guard language. A JSON text is represented by the value it denotes; the
  identities of arrays and objects are no part of a text, so whatever reads one reads it through
  \<open>erase\<close>, and a value that is read back keeps the identities it was written with. The tables are lists
  of rows in the order of their row ids, and the database does what the statements say.
\<close>

section \<open>Base64\<close>

definition B64_ALPHABET :: string where
  "B64_ALPHABET = ''ABCDEFGHIJKLMNOPQRSTUVWXYZabcdefghijklmnopqrstuvwxyz0123456789+/''"

definition b64_char :: "nat \<Rightarrow> char" where
  "b64_char n = B64_ALPHABET ! n"

text \<open>\<open>toString('base64')\<close>.\<close>

fun b64_encode :: "string \<Rightarrow> string" where
  "b64_encode [] = []"
| "b64_encode [a] = (let x = of_char a in [b64_char (x div 4), b64_char (x mod 4 * 16), CHR ''='', CHR ''=''])"
| "b64_encode [a, b] = (let x = of_char a; y = of_char b
     in [b64_char (x div 4), b64_char (x mod 4 * 16 + y div 16), b64_char (y mod 16 * 4), CHR ''=''])"
| "b64_encode (a # b # c # r) = (let x = of_char a; y = of_char b; z = of_char c
     in b64_char (x div 4) # b64_char (x mod 4 * 16 + y div 16) # b64_char (y mod 16 * 4 + z div 64)
        # b64_char (z mod 64) # b64_encode r)"

text \<open>\<open>Buffer.from(_, 'base64')\<close>: the two URL characters count, every other character is skipped, and the
  first padding character ends the text.\<close>

definition b64_digit :: "char \<Rightarrow> nat option" where
  "b64_digit c = (if c = CHR ''-'' then Some 62 else if c = CHR ''_'' then Some 63
     else find_index (\<lambda>d. d = c) B64_ALPHABET)"

fun b64_bytes :: "nat list \<Rightarrow> string" where
  "b64_bytes (a # b # c # d # r) =
     char_of (a * 4 + b div 16) # char_of (b mod 16 * 16 + c div 4) # char_of (c mod 4 * 64 + d) # b64_bytes r"
| "b64_bytes [a, b, c] = [char_of (a * 4 + b div 16), char_of (b mod 16 * 16 + c div 4)]"
| "b64_bytes [a, b] = [char_of (a * 4 + b div 16)]"
| "b64_bytes _ = []"

definition b64_decode :: "string \<Rightarrow> string" where
  "b64_decode s = b64_bytes (List.map_filter b64_digit (takeWhile (\<lambda>c. c \<noteq> CHR ''='') s))"

lemma b64_digit_char: "n < 64 \<Longrightarrow> b64_digit (b64_char n) = Some n"
proof -
  have "\<forall>n\<in>set [0..<64]. b64_digit (b64_char n) = Some n" by code_simp
  then show "n < 64 \<Longrightarrow> b64_digit (b64_char n) = Some n" by simp
qed

lemma b64_char_not_pad: "n < 64 \<Longrightarrow> b64_char n \<noteq> CHR ''=''"
proof -
  have "\<forall>n\<in>set [0..<64]. b64_char n \<noteq> CHR ''=''" by code_simp
  then show "n < 64 \<Longrightarrow> b64_char n \<noteq> CHR ''=''" by simp
qed

lemma of_char_bound: "of_char c < (256 :: nat)"
proof -
  have "of_char c \<in> range (of_char :: char \<Rightarrow> nat)" by simp
  then show ?thesis by (simp only: range_nat_of_char) simp
qed

text \<open>The digits of a byte.\<close>

lemma byte_digits:
  "of_char c div (4 :: nat) < 64" "of_char c mod (4 :: nat) * 16 + of_char d div 16 < 64"
  "of_char c mod (16 :: nat) * 4 + of_char d div 64 < 64"
  "of_char c mod (4 :: nat) * 16 < 64" "of_char c mod (16 :: nat) * 4 < 64"
  using of_char_bound[of c] of_char_bound[of d] mod_less_divisor[of 4 "of_char c :: nat"]
    mod_less_divisor[of 16 "of_char c :: nat"] by linarith+

lemma byte_parts [simp]:
  "of_char c div (16 :: nat) div 16 = 0" "of_char c div (16 :: nat) mod 16 = of_char c div 16"
  "of_char c div (64 :: nat) div 4 = 0" "of_char c div (64 :: nat) mod 4 = of_char c div 64"
  using of_char_bound[of c] less_mult_imp_div_less[of "of_char c" 16 16] less_mult_imp_div_less[of "of_char c" 4 64]
  by (simp_all add: div_mult2_eq[symmetric])

lemma b64_roundtrip: "b64_decode (b64_encode s) = s"
proof -
  have "b64_bytes (List.map_filter b64_digit (takeWhile (\<lambda>c. c \<noteq> CHR ''='') (b64_encode s))) = s"
    by (induction s rule: b64_encode.induct)
      (simp_all add: Let_def b64_char_not_pad b64_digit_char byte_digits List.map_filter_simps)
  then show ?thesis by (simp add: b64_decode_def)
qed

section \<open>Canonical JSON\<close>

text \<open>\<open>canonicalize\<close>; the date that is not valid throws. Property names are not array indices, so an object
  lists its properties in the order they were set.\<close>

fun canonicalize :: "val \<Rightarrow> val option" where
  "canonicalize (VDate i d) = map_option VStr d"
| "canonicalize (VBytes i s) = Some (VObj i [(''__type'', VStr ''base64''), (''data'', VStr (b64_encode s))])"
| "canonicalize (VArr i xs) =
     map_option (VArr i) (those (map (\<lambda>v. if v = VUndef then Some VNull else canonicalize v) xs))"
| "canonicalize (VObj i kvs) =
     map_option (VObj i) (those (map (\<lambda>(k, r). map_option (Pair k) r)
       (sort_key fst (map (\<lambda>(k, v). (k, canonicalize v)) (filter (\<lambda>(k, v). v \<noteq> VUndef) kvs)))))"
| "canonicalize v = Some v"

text \<open>\<open>JSON.stringify\<close> on what is left: a number that is not finite is written as null.\<close>

fun json_text :: "val \<Rightarrow> val" where
  "json_text (VNum x) = (case x of Fin q \<Rightarrow> VNum x | _ \<Rightarrow> VNull)"
| "json_text (VArr i xs) = VArr i (map json_text xs)"
| "json_text (VObj i kvs) = VObj i (map (\<lambda>(k, v). (k, json_text v)) kvs)"
| "json_text v = v"

text \<open>The text of a value; \<open>None\<close> is a throw, and undefined has no text, which \<open>VUndef\<close> stands for.\<close>

definition canonicalJsonStringify :: "val \<Rightarrow> val option" where
  "canonicalJsonStringify v = map_option json_text (canonicalize v)"

definition isBase64Envelope :: "val obj \<Rightarrow> bool" where
  "isBase64Envelope kvs \<longleftrightarrow> map_of kvs ''__type'' = Some (VStr ''base64'') \<and>
     (case map_of kvs ''data'' of Some (VStr t) \<Rightarrow> True | _ \<Rightarrow> False)"

definition envelope_data :: "val obj \<Rightarrow> string" where
  "envelope_data kvs = (case map_of kvs ''data'' of Some (VStr t) \<Rightarrow> t | _ \<Rightarrow> [])"

fun revive :: "val \<Rightarrow> val" where
  "revive (VArr i xs) = VArr i (map revive xs)"
| "revive (VObj i kvs) =
     (if isBase64Envelope kvs then VBytes i (b64_decode (envelope_data kvs))
      else VObj i (map (\<lambda>(k, v). (k, revive v)) kvs))"
| "revive v = v"

definition canonicalJsonParse :: "val \<Rightarrow> val" where
  "canonicalJsonParse text = revive text"

text \<open>A value without its identities.\<close>

fun erase :: "val \<Rightarrow> val" where
  "erase (VArr i xs) = VArr 0 (map erase xs)"
| "erase (VObj i kvs) = VObj 0 (map (\<lambda>(k, v). (k, erase v)) kvs)"
| "erase (VBytes i s) = VBytes 0 s"
| "erase (VDate i d) = VDate 0 d"
| "erase v = v"

section \<open>What storage gives back\<close>

text \<open>The values that storage gives back unchanged: no undefined, date or number that is not finite, the
  properties in order, and no object that reads as the envelope of a buffer.\<close>

fun storable :: "val \<Rightarrow> bool" where
  "storable VUndef \<longleftrightarrow> False"
| "storable (VDate i d) \<longleftrightarrow> False"
| "storable (VNum x) \<longleftrightarrow> (case x of Fin q \<Rightarrow> True | _ \<Rightarrow> False)"
| "storable (VArr i xs) \<longleftrightarrow> list_all storable xs"
| "storable (VObj i kvs) \<longleftrightarrow> sorted_wrt (<) (keys kvs) \<and> \<not> isBase64Envelope kvs \<and> list_all (\<lambda>(k, v). storable v) kvs"
| "storable _ \<longleftrightarrow> True"

lemma those_map_total: "(\<And>x. x \<in> set xs \<Longrightarrow> f x = Some (g x)) \<Longrightarrow> those (map f xs) = Some (map g xs)"
  by (induction xs) auto

text \<open>\<open>stored v\<close> is the JSON value that a storable value is written as.\<close>

fun stored :: "val \<Rightarrow> val" where
  "stored (VBytes i s) = VObj i [(''__type'', VStr ''base64''), (''data'', VStr (b64_encode s))]"
| "stored (VArr i xs) = VArr i (map stored xs)"
| "stored (VObj i kvs) = VObj i (map (\<lambda>(k, v). (k, stored v)) kvs)"
| "stored v = v"

lemma canonicalize_storable: "storable v \<Longrightarrow> canonicalize v = Some (stored v)"
proof (induction v rule: canonicalize.induct)
  case (3 i xs)
  then have "those (map (\<lambda>v. if v = VUndef then Some VNull else canonicalize v) xs) = Some (map stored xs)"
    by (intro those_map_total) (auto simp: list_all_iff)
  then show ?case by simp
next
  case (4 i kvs)
  have f: "filter (\<lambda>(k, v). v \<noteq> VUndef) kvs = kvs"
    using 4(2) by (auto simp: filter_id_conv list_all_iff)
  have "map (fst \<circ> (\<lambda>(k, v). (k, canonicalize v))) kvs = keys kvs" by auto
  moreover have "sorted (keys kvs)" using 4(2) by (simp add: strict_sorted_imp_sorted)
  ultimately have s: "sort_key fst (map (\<lambda>(k, v). (k, canonicalize v)) kvs) = map (\<lambda>(k, v). (k, canonicalize v)) kvs"
    by (intro sort_key_id_if_sorted) (simp only: map_map)
  have "those (map ((\<lambda>(k, r). map_option (Pair k) r) \<circ> (\<lambda>(k, v). (k, canonicalize v))) kvs) =
      Some (map (\<lambda>(k, v). (k, stored v)) kvs)"
  proof (rule those_map_total)
    fix p assume p: "p \<in> set kvs"
    then have "canonicalize (snd p) = Some (stored (snd p))"
      using 4(1)[of p "fst p" "snd p"] 4(2) f by (auto simp: list_all_iff split_beta)
    then show "((\<lambda>(k, r). map_option (Pair k) r) \<circ> (\<lambda>(k, v). (k, canonicalize v))) p = Some (case p of (k, v) \<Rightarrow> (k, stored v))"
      by (simp add: split_beta)
  qed
  then show ?case by (simp add: f s)
qed auto

lemma json_text_stored: "storable v \<Longrightarrow> json_text (stored v) = stored v"
  by (induction v rule: stored.induct) (auto simp: list_all_iff split: jsnum.splits)

lemma stored_is_str: "stored v = VStr t \<longleftrightarrow> v = VStr t"
  by (cases v) auto

lemma envelope_stored: "isBase64Envelope (map (\<lambda>(k, v). (k, stored v)) kvs) \<longleftrightarrow> isBase64Envelope kvs"
proof -
  have "(case map_option stored d of Some (VStr t) \<Rightarrow> True | _ \<Rightarrow> False) = (case d of Some (VStr t) \<Rightarrow> True | _ \<Rightarrow> False)"
    for d by (cases d) (auto split: val.split simp: stored_is_str)
  then show ?thesis by (simp add: isBase64Envelope_def map_of_map stored_is_str)
qed

lemma revive_stored: "storable v \<Longrightarrow> revive (stored v) = v"
proof (induction v rule: stored.induct)
  case (1 i s)
  then show ?case by (simp add: isBase64Envelope_def envelope_data_def b64_roundtrip)
next
  case (2 i xs)
  then show ?case by (auto simp: list_all_iff intro: map_idI)
next
  case (3 i kvs)
  have "map ((\<lambda>(k, v). (k, revive v)) \<circ> (\<lambda>(k, v). (k, stored v))) kvs = kvs"
  proof (rule map_idI)
    fix p assume p: "p \<in> set kvs"
    then have "revive (stored (snd p)) = snd p"
      using 3(1)[of p "fst p" "snd p"] 3(2) by (auto simp: list_all_iff split_beta)
    then show "((\<lambda>(k, v). (k, revive v)) \<circ> (\<lambda>(k, v). (k, stored v))) p = p"
      by (simp add: split_beta)
  qed
  then show ?case using 3 by (simp add: envelope_stored)
qed auto

lemma storable_text: "storable v \<Longrightarrow> canonicalJsonStringify v = Some (stored v)"
  by (simp add: canonicalJsonStringify_def canonicalize_storable json_text_stored)

lemma stored_defined: "storable v \<Longrightarrow> stored v \<noteq> VUndef"
  by (cases v) auto



text \<open>What does not come back: a date is a string, an object that looks like an envelope is a buffer.\<close>

theorem storage_changes_values:
  "map_option canonicalJsonParse (canonicalJsonStringify (VDate 1 (Some ''2026-01-01T00:00:00.000Z''))) =
     Some (VStr ''2026-01-01T00:00:00.000Z'') \<and>
   map_option canonicalJsonParse (canonicalJsonStringify
     (VObj 1 [(''__type'', VStr ''base64''), (''data'', VStr ''aGk='')])) = Some (VBytes 1 ''hi'') \<and>
   map_option canonicalJsonParse (canonicalJsonStringify (VArr 1 [VUndef, VNum NaN])) = Some (VArr 1 [VNull, VNull])"
  by code_simp

section \<open>Identity of a run\<close>

text \<open>\<open>sha256Hex\<close> of a text; the digest itself is an argument. Hashing undefined throws.\<close>

type_synonym digest = "val \<Rightarrow> string"

definition sha256Hex :: "digest \<Rightarrow> val \<Rightarrow> string option" where
  "sha256Hex sha t = (if t = VUndef then None else Some (sha (erase t)))"

record RunIdInput =
  ri_pack :: string
  ri_skill :: string
  ri_ruleId :: string
  ri_eventKind :: string
  ri_eventPayload :: val

definition runIdFor :: "digest \<Rightarrow> RunIdInput \<Rightarrow> string option" where
  "runIdFor sha r = Option.bind (canonicalJsonStringify (ri_eventPayload r)) (\<lambda>p.
     Option.bind (sha256Hex sha p) (\<lambda>h.
     Option.bind (canonicalJsonStringify (VObj 0 [(''pack'', VStr (ri_pack r)), (''skill'', VStr (ri_skill r)),
       (''ruleId'', VStr (ri_ruleId r)), (''eventKind'', VStr (ri_eventKind r)), (''eventHash'', VStr h)]))
     (sha256Hex sha)))"

section \<open>The checkpoint store\<close>

datatype ck_status = Completed | Errored

record CheckpointRow =
  k_runId :: string
  k_stepIdx :: nat
  k_fn :: string
  k_inputsHash :: string
  k_outputs :: val
  k_asBinding :: "string option"
  k_startedAtMs :: int
  k_completedAtMs :: int
  k_status :: ck_status
  k_errorMessage :: "string option"

record RunManifest =
  m_runId :: string
  m_packId :: string
  m_packVersion :: string
  m_skill :: string
  m_ruleId :: string
  m_eventKind :: string
  m_eventPayload :: val
  m_startedAtMs :: int

record TaskCheckpointRow =
  t_taskId :: string
  t_stage :: string
  t_scopeArtifacts :: "string list"
  t_createdAtMs :: int
  t_updatedAtMs :: int

record ckdb =
  checkpoints :: "CheckpointRow list"
  run_manifests :: "RunManifest list"
  terminal_markers :: "(string \<times> string \<times> int) list"
  task_checkpoints :: "TaskCheckpointRow list"

text \<open>\<open>INSERT OR REPLACE\<close>: the rows with the same key go, the new row comes last.\<close>

definition replace_row :: "('r \<Rightarrow> bool) \<Rightarrow> 'r \<Rightarrow> 'r list \<Rightarrow> 'r list" where
  "replace_row same r rows = filter (\<lambda>x. \<not> same x) rows @ [r]"

definition rowToCheckpoint :: "CheckpointRow \<Rightarrow> CheckpointRow" where
  "rowToCheckpoint r = r\<lparr>k_outputs := canonicalJsonParse (k_outputs r)\<rparr>"

text \<open>A write; binding undefined to a column throws, like a value without a canonical form.\<close>

definition with_text :: "val \<Rightarrow> (val \<Rightarrow> 'a) \<Rightarrow> 'a option" where
  "with_text v f = (case canonicalJsonStringify v of None \<Rightarrow> None | Some t \<Rightarrow> if t = VUndef then None else Some (f t))"

definition append_row :: "CheckpointRow \<Rightarrow> ckdb \<Rightarrow> ckdb option" where
  "append_row w d = with_text (k_outputs w) (\<lambda>t. d\<lparr>checkpoints :=
     replace_row (\<lambda>r. k_runId r = k_runId w \<and> k_stepIdx r = k_stepIdx w) (w\<lparr>k_outputs := t\<rparr>) (checkpoints d)\<rparr>)"

definition run_rows :: "string \<Rightarrow> ckdb \<Rightarrow> CheckpointRow list" where
  "run_rows run d = sort_key k_stepIdx (filter (\<lambda>r. k_runId r = run) (checkpoints d))"

definition completed_rows :: "string \<Rightarrow> ckdb \<Rightarrow> CheckpointRow list" where
  "completed_rows run d = filter (\<lambda>r. k_status r = Completed) (run_rows run d)"

definition lastCompletedStep :: "string \<Rightarrow> ckdb \<Rightarrow> CheckpointRow option" where
  "lastCompletedStep run d = (case rev (completed_rows run d) of [] \<Rightarrow> None | r # rs \<Rightarrow> Some (rowToCheckpoint r))"

definition loadBindings :: "string \<Rightarrow> ckdb \<Rightarrow> val obj" where
  "loadBindings run d = foldl (\<lambda>B r. case k_asBinding r of
     None \<Rightarrow> B | Some x \<Rightarrow> AList.update x (canonicalJsonParse (k_outputs r)) B) [] (completed_rows run d)"

definition fetchRun :: "string \<Rightarrow> ckdb \<Rightarrow> CheckpointRow list" where
  "fetchRun run d = map rowToCheckpoint (run_rows run d)"

definition pruneOlderThan :: "int \<Rightarrow> int \<Rightarrow> ckdb \<Rightarrow> nat \<times> ckdb" where
  "pruneOlderThan ms nowMs d =
     (length (filter (\<lambda>r. k_completedAtMs r < nowMs - ms) (checkpoints d)),
      d\<lparr>checkpoints := filter (\<lambda>r. \<not> k_completedAtMs r < nowMs - ms) (checkpoints d)\<rparr>)"

definition recordRunStart :: "RunManifest \<Rightarrow> ckdb \<Rightarrow> ckdb option" where
  "recordRunStart m d = with_text (m_eventPayload m) (\<lambda>t. d\<lparr>run_manifests :=
     replace_row (\<lambda>r. m_runId r = m_runId m) (m\<lparr>m_eventPayload := t\<rparr>) (run_manifests d)\<rparr>)"

definition rowToManifest :: "RunManifest \<Rightarrow> RunManifest" where
  "rowToManifest r = r\<lparr>m_eventPayload := canonicalJsonParse (m_eventPayload r)\<rparr>"

definition getRunManifest :: "string \<Rightarrow> ckdb \<Rightarrow> RunManifest option" where
  "getRunManifest run d = map_option rowToManifest (List.find (\<lambda>r. m_runId r = run) (run_manifests d))"

definition recordRunTerminal :: "string \<Rightarrow> string \<Rightarrow> int \<Rightarrow> ckdb \<Rightarrow> ckdb" where
  "recordRunTerminal run outcome nowMs d =
     d\<lparr>terminal_markers := replace_row (\<lambda>r. fst r = run) (run, outcome, nowMs) (terminal_markers d)\<rparr>"

definition hasTerminalMarker :: "string \<Rightarrow> ckdb \<Rightarrow> bool" where
  "hasTerminalMarker run d \<longleftrightarrow> (\<exists>r\<in>set (terminal_markers d). fst r = run)"

subsection \<open>Task checkpoints\<close>

definition createTaskCheckpoint :: "string \<Rightarrow> string \<Rightarrow> int \<Rightarrow> string list \<Rightarrow> ckdb \<Rightarrow> ckdb" where
  "createTaskCheckpoint task stage nowMs artifacts d =
     (if \<exists>r\<in>set (task_checkpoints d). t_taskId r = task then d
      else d\<lparr>task_checkpoints := task_checkpoints d @ [\<lparr>t_taskId = task, t_stage = stage,
        t_scopeArtifacts = artifacts, t_createdAtMs = nowMs, t_updatedAtMs = nowMs\<rparr>]\<rparr>)"

definition update_task :: "string \<Rightarrow> (TaskCheckpointRow \<Rightarrow> TaskCheckpointRow) \<Rightarrow> ckdb \<Rightarrow> ckdb" where
  "update_task task f d = d\<lparr>task_checkpoints := map (\<lambda>r. if t_taskId r = task then f r else r) (task_checkpoints d)\<rparr>"

definition updateTaskStage :: "string \<Rightarrow> string \<Rightarrow> int \<Rightarrow> string list option \<Rightarrow> ckdb \<Rightarrow> ckdb" where
  "updateTaskStage task stage nowMs artifacts = update_task task (\<lambda>r. case artifacts of
     None \<Rightarrow> r\<lparr>t_stage := stage, t_updatedAtMs := nowMs\<rparr>
   | Some fs \<Rightarrow> r\<lparr>t_stage := stage, t_scopeArtifacts := fs, t_updatedAtMs := nowMs\<rparr>)"

definition setTaskArtifacts :: "string \<Rightarrow> string list \<Rightarrow> int \<Rightarrow> ckdb \<Rightarrow> ckdb" where
  "setTaskArtifacts task fs nowMs = update_task task (\<lambda>r. r\<lparr>t_scopeArtifacts := fs, t_updatedAtMs := nowMs\<rparr>)"

definition listTaskCheckpoints :: "ckdb \<Rightarrow> TaskCheckpointRow list" where
  "listTaskCheckpoints d = sort_key (\<lambda>r. - t_updatedAtMs r) (task_checkpoints d)"

definition getTaskCheckpoint :: "string \<Rightarrow> ckdb \<Rightarrow> (string \<times> string list) option" where
  "getTaskCheckpoint task d =
     map_option (\<lambda>r. (t_stage r, t_scopeArtifacts r)) (List.find (\<lambda>r. t_taskId r = task) (task_checkpoints d))"

subsection \<open>Interrupted runs\<close>

record InterruptedSummary =
  s_runId :: string
  s_lastCompletedStep :: nat
  s_lastCompletedAtMs :: int

text \<open>The rows that count: of a run without a marker, completed, and in the window if there is one. The
  window is infinite for \<open>None\<close>. Runs that were last active at the same time come in the order of
  their ids.\<close>

definition use_window :: "int option \<Rightarrow> bool" where
  "use_window withinMs \<longleftrightarrow> (case withinMs of None \<Rightarrow> False | Some ms \<Rightarrow> 0 < ms)"

definition resumable :: "int option \<Rightarrow> int \<Rightarrow> ckdb \<Rightarrow> CheckpointRow \<Rightarrow> bool" where
  "resumable withinMs nowMs d r \<longleftrightarrow> \<not> hasTerminalMarker (k_runId r) d \<and> k_status r = Completed \<and>
     (use_window withinMs \<longrightarrow> nowMs - the withinMs \<le> k_completedAtMs r)"

definition summarise :: "CheckpointRow list \<Rightarrow> string \<Rightarrow> InterruptedSummary" where
  "summarise rows run = (let mine = filter (\<lambda>r. k_runId r = run) rows in
     \<lparr>s_runId = run, s_lastCompletedStep = Max (k_stepIdx ` set mine),
      s_lastCompletedAtMs = Max (k_completedAtMs ` set mine)\<rparr>)"

definition scanInterrupted :: "int option \<Rightarrow> int \<Rightarrow> ckdb \<Rightarrow> InterruptedSummary list" where
  "scanInterrupted withinMs nowMs d = (let rows = filter (resumable withinMs nowMs d) (checkpoints d) in
     sort_key (\<lambda>s. - s_lastCompletedAtMs s) (map (summarise rows) (sort (remdups (map k_runId rows)))))"

lemma sort_desc: "sorted_wrt (\<ge>) (map f (sort_key (\<lambda>x. - f x :: int) xs))"
proof -
  have "sorted (map (\<lambda>x. - f x) (sort_key (\<lambda>x. - f x) xs))" by simp
  then show ?thesis by (simp add: sorted_wrt_map)
qed

lemma distinct_map_sort: "distinct (map f (sort_key g xs)) \<longleftrightarrow> distinct (map f xs)"
  by (metis distinct_map distinct_sort set_sort)

text \<open>
  The scan finds exactly the runs to resume. It lists every run once, the latest first: the runs
  without a terminal marker that have a completed step in the window, each with its highest completed
  step and the time of its last completed step in the window. A run whose only rows are errored is
  never found, whatever the window.
\<close>

theorem scanInterrupted_exact:
  "distinct (map s_runId (scanInterrupted w now d)) \<and>
   sorted_wrt (\<ge>) (map s_lastCompletedAtMs (scanInterrupted w now d)) \<and>
   s_runId ` set (scanInterrupted w now d) = k_runId ` {r \<in> set (checkpoints d). resumable w now d r} \<and>
   list_all (\<lambda>s.
      s_lastCompletedStep s = Max (k_stepIdx ` {r \<in> set (checkpoints d). resumable w now d r \<and> k_runId r = s_runId s}) \<and>
      s_lastCompletedAtMs s = Max (k_completedAtMs ` {r \<in> set (checkpoints d). resumable w now d r \<and> k_runId r = s_runId s}))
     (scanInterrupted w now d)"
proof -
  let ?rows = "filter (resumable w now d) (checkpoints d)"
  let ?ids = "sort (remdups (map k_runId ?rows))"
  have id: "s_runId (summarise ?rows run) = run" for run by (simp add: summarise_def Let_def)
  have "distinct (map s_runId (map (summarise ?rows) ?ids))" by (simp add: o_def id)
  then have d: "distinct (map s_runId (scanInterrupted w now d))"
    unfolding scanInterrupted_def Let_def by (simp only: distinct_map_sort)
  have m: "set (scanInterrupted w now d) = summarise ?rows ` k_runId ` set ?rows"
    by (simp add: scanInterrupted_def Let_def)
  have "sorted_wrt (\<ge>) (map s_lastCompletedAtMs (scanInterrupted w now d))"
    unfolding scanInterrupted_def Let_def by (rule sort_desc)
  moreover have "s_runId ` set (scanInterrupted w now d) = k_runId ` {r \<in> set (checkpoints d). resumable w now d r}"
    unfolding m by (auto simp: image_image id)
  moreover have "set (filter (\<lambda>r. k_runId r = run) ?rows) = {r \<in> set (checkpoints d). resumable w now d r \<and> k_runId r = run}" for run
    by auto
  ultimately show ?thesis
    using d unfolding list_all_iff m by (auto simp: id) (simp_all add: summarise_def Let_def)
qed

section \<open>The resumer\<close>

definition DEFAULT_RESUME_WINDOW_MS :: int where
  "DEFAULT_RESUME_WINDOW_MS = 60000"

record InterruptedRun =
  i_run :: InterruptedSummary
  i_manifest :: RunManifest

datatype SkipReason = manifest_missing | pack_missing | pack_version_mismatch | evaluator_error

datatype AuditEntry = resume_summary nat nat nat | resume_run string string nat
  | resume_skipped string SkipReason "string option"

text \<open>The current process of a rule with the version of its pack; the evaluator gets the manifest, the
  restored bindings and the entry step, and may throw a message.\<close>

type_synonym 'p resolver = "RunManifest \<Rightarrow> ('p \<times> string) option"
type_synonym 'w run_evaluator = "RunManifest \<Rightarrow> val obj \<Rightarrow> nat \<Rightarrow> ckdb \<times> 'w \<Rightarrow> string option \<times> ckdb \<times> 'w"

fun joinManifests :: "ckdb \<Rightarrow> InterruptedSummary list \<Rightarrow> InterruptedRun list \<times> AuditEntry list" where
  "joinManifests d [] = ([], [])"
| "joinManifests d (s # ss) = (case joinManifests d ss of (runs, es) \<Rightarrow>
     (case getRunManifest (s_runId s) d of
       None \<Rightarrow> (runs, resume_skipped (s_runId s) manifest_missing None # es)
     | Some m \<Rightarrow> (\<lparr>i_run = s, i_manifest = m\<rparr> # runs, es)))"

text \<open>The manifest handed on carries the time of the last completed step as its start.\<close>

definition resume :: "'p resolver \<Rightarrow> 'w run_evaluator \<Rightarrow> InterruptedRun \<Rightarrow> ckdb \<times> 'w \<Rightarrow>
    SkipReason option \<times> (ckdb \<times> 'w) \<times> AuditEntry list" where
  "resume res eval run st = (let m = (i_manifest run)\<lparr>m_startedAtMs := s_lastCompletedAtMs (i_run run)\<rparr> in
     case res m of
       None \<Rightarrow> (Some pack_missing, st, [resume_skipped (m_runId m) pack_missing None])
     | Some (p, version) \<Rightarrow>
         (if version \<noteq> m_packVersion m
          then (Some pack_version_mismatch, st, [resume_skipped (m_runId m) pack_version_mismatch
             (Some (''was='' @ m_packVersion m @ '' now='' @ version))])
          else let entry = s_lastCompletedStep (i_run run) + 1 in
            case eval m (loadBindings (m_runId m) (fst st)) entry st of
              (Some e, st') \<Rightarrow> (Some evaluator_error, st', [resume_skipped (m_runId m) evaluator_error (Some e)])
            | (None, st') \<Rightarrow> (None, st', [resume_run (m_runId m) (m_packId m) entry])))"

fun resume_all :: "'p resolver \<Rightarrow> 'w run_evaluator \<Rightarrow> InterruptedRun list \<Rightarrow> ckdb \<times> 'w \<Rightarrow>
    nat \<times> nat \<times> (ckdb \<times> 'w) \<times> AuditEntry list" where
  "resume_all res eval [] st = (0, 0, st, [])"
| "resume_all res eval (r # rs) st = (case resume res eval r st of (reason, st1, es) \<Rightarrow>
     (case resume_all res eval rs st1 of (ok, skipped, st2, es2) \<Rightarrow>
       (if reason = None then (ok + 1, skipped, st2, es @ es2) else (ok, skipped + 1, st2, es @ es2))))"

text \<open>Answers the counts, the state and the audit entries in the order they are emitted.\<close>

definition resumeOnStartup :: "'p resolver \<Rightarrow> 'w run_evaluator \<Rightarrow> int option \<Rightarrow> int \<Rightarrow> ckdb \<times> 'w \<Rightarrow>
    nat \<times> nat \<times> (ckdb \<times> 'w) \<times> AuditEntry list" where
  "resumeOnStartup res eval w now st =
     (case joinManifests (fst st) (scanInterrupted w now (fst st)) of (runs, es) \<Rightarrow>
       (case resume_all res eval runs st of (ok, skipped, st', es') \<Rightarrow>
         (ok, skipped, st', es @ es' @ [resume_summary (length runs) ok skipped])))"

text \<open>The run an audit entry is about, the runs whose pack is still there in the same version, and what
  resuming one does to the state.\<close>

fun entry_run :: "AuditEntry \<Rightarrow> string" where
  "entry_run (resume_summary a b c) = []"
| "entry_run (resume_run r p n) = r"
| "entry_run (resume_skipped r why info) = r"

definition handed_on :: "InterruptedRun \<Rightarrow> RunManifest" where
  "handed_on r = (i_manifest r)\<lparr>m_startedAtMs := s_lastCompletedAtMs (i_run r)\<rparr>"

definition same_version :: "'p resolver \<Rightarrow> InterruptedRun \<Rightarrow> bool" where
  "same_version res r \<longleftrightarrow> (\<exists>p. res (handed_on r) = Some (p, m_packVersion (i_manifest r)))"

definition evaluated :: "'w run_evaluator \<Rightarrow> InterruptedRun \<Rightarrow> ckdb \<times> 'w \<Rightarrow> ckdb \<times> 'w" where
  "evaluated eval r st = snd (eval (handed_on r) (loadBindings (m_runId (i_manifest r)) (fst st))
     (s_lastCompletedStep (i_run r) + 1) st)"

definition scanned_runs :: "int option \<Rightarrow> int \<Rightarrow> ckdb \<times> 'w \<Rightarrow> InterruptedRun list" where
  "scanned_runs w now st = fst (joinManifests (fst st) (scanInterrupted w now (fst st)))"

lemma resume_state: "fst (snd (resume res eval r st)) = (if same_version res r then evaluated eval r st else st)"
  by (auto simp: resume_def Let_def same_version_def evaluated_def handed_on_def split: option.split prod.split)

lemma resume_log: "map entry_run (snd (snd (resume res eval r st))) = [m_runId (i_manifest r)]"
  by (auto simp: resume_def Let_def split: option.split prod.split)

lemma resume_all_correct:
  "case resume_all res eval rs st of (ok, skipped, st', es) \<Rightarrow>
     ok + skipped = length rs \<and> st' = fold (evaluated eval) (filter (same_version res) rs) st \<and>
     map entry_run es = map (m_runId \<circ> i_manifest) rs"
proof (induction res eval rs st rule: resume_all.induct)
  case (2 res eval r rs st)
  obtain why st1 es where r: "resume res eval r st = (why, st1, es)" by (metis prod_cases3)
  obtain ok skipped st2 es2 where a: "resume_all res eval rs st1 = (ok, skipped, st2, es2)" by (metis prod_cases4)
  show ?case
    using 2[OF r[symmetric] refl] resume_state[of res eval r st] resume_log[of res eval r st] r a
    by (auto split: if_splits)
qed simp

lemma joinManifests_runs:
  "case joinManifests d ss of (runs, es) \<Rightarrow>
     mset (map (m_runId \<circ> i_manifest) runs @ map entry_run es) = mset (map s_runId ss)"
proof (induction d ss rule: joinManifests.induct)
  case (2 d s ss)
  have "m_runId m = s_runId s" if "getRunManifest (s_runId s) d = Some m" for m
    using that by (auto simp: getRunManifest_def rowToManifest_def dest!: find_Some_mem)
  then show ?case using 2 by (auto split: prod.splits option.splits)
qed simp

text \<open>
  Resuming at start-up. The runs are evaluated one after the other, each from the bindings and the
  step its checkpoints give at that moment, and only those whose pack is still there in the version
  the run was started with; every run that the scan found is accounted for by exactly one audit
  entry, and the summary adds up.
\<close>

theorem resumeOnStartup_accounts:
  "case resumeOnStartup res eval w now st of (ok, skipped, st', es) \<Rightarrow>
     st' = fold (evaluated eval) (filter (same_version res) (scanned_runs w now st)) st \<and>
     (\<exists>es0. es = es0 @ [resume_summary (length (scanned_runs w now st)) ok skipped] \<and> ok + skipped = length (scanned_runs w now st) \<and>
        mset (map entry_run es0) = mset (map s_runId (scanInterrupted w now (fst st))))"
proof -
  obtain rs es where j: "joinManifests (fst st) (scanInterrupted w now (fst st)) = (rs, es)" by fastforce
  obtain ok skipped st2 es2 where a: "resume_all res eval rs st = (ok, skipped, st2, es2)" by (metis prod_cases4)
  have "map entry_run es2 = map (m_runId \<circ> i_manifest) rs"
    using resume_all_correct[where res = res and eval = eval and rs = rs and st = st] a by simp
  then have "mset (map entry_run es2) = mset (map (m_runId \<circ> i_manifest) rs)" by simp
  show ?thesis
    using joinManifests_runs[of "scanInterrupted w now (fst st)" "fst st"] resume_all_correct[where res = res and eval = eval and rs = rs and st = st] j a
    by (auto simp: resumeOnStartup_def scanned_runs_def union_commute simp del: mset_map)
qed

end
