(* ===== verification/MemoCache.thy ===== *)
theory MemoCache
  imports Durable
begin

text \<open>
  Durable execution, memoization: the two-tier cache of \<open>src/src/runtime/durable/memo_cache.ts\<close>, an
  in-memory cache package in front of a table, and its singleflight.
\<close>

section \<open>The two tiers\<close>

record MemoryEntry =
  e_value :: val
  e_expiresAtMs :: "int option"

record MemoRow =
  mr_fn :: string
  mr_hash :: string
  mr_outputs :: val
  mr_cachedAtMs :: int
  mr_ttlMs :: "int option"
  mr_hits :: nat

record 'c memo =
  memory :: 'c
  memo_rows :: "MemoRow list"

definition cacheKey :: "string \<Rightarrow> string \<Rightarrow> string" where
  "cacheKey fn h = fn @ ''::'' @ h"

text \<open>Cut at the first pair of colons.\<close>

fun parseCacheKey :: "string \<Rightarrow> (string \<times> string) option" where
  "parseCacheKey (a # b # r) =
     (if a = CHR '':'' \<and> b = CHR '':'' then Some ([], r) else map_option (apfst (Cons a)) (parseCacheKey (b # r)))"
| "parseCacheKey _ = None"

definition expired :: "int option \<Rightarrow> int \<Rightarrow> bool" where
  "expired e now \<longleftrightarrow> (case e of None \<Rightarrow> False | Some t \<Rightarrow> t \<le> now)"

definition memory_lookup :: "(MemoryEntry, 'c) lru \<Rightarrow> string \<Rightarrow> int \<Rightarrow> 'c \<Rightarrow> val option \<times> 'c" where
  "memory_lookup L key now c = (case lru_get L key c of
     (None, c1) \<Rightarrow> (None, c1)
   | (Some e, c1) \<Rightarrow> if expired (e_expiresAtMs e) now then (None, lru_delete L key c1) else (Some (e_value e), c1))"

definition row_at :: "string \<Rightarrow> string \<Rightarrow> MemoRow \<Rightarrow> bool" where
  "row_at fn h r \<longleftrightarrow> mr_fn r = fn \<and> mr_hash r = h"

definition memo_get :: "(MemoryEntry, 'c) lru \<Rightarrow> string \<Rightarrow> string \<Rightarrow> int option \<Rightarrow> int \<Rightarrow> 'c memo \<Rightarrow> val option \<times> 'c memo" where
  "memo_get L fn h ttl now m = (case memory_lookup L (cacheKey fn h) now (memory m) of
     (Some v, c) \<Rightarrow> (Some v, m\<lparr>memory := c\<rparr>)
   | (None, c) \<Rightarrow> (case List.find (row_at fn h) (memo_rows m) of
       None \<Rightarrow> (None, m\<lparr>memory := c\<rparr>)
     | Some r \<Rightarrow>
         let own = (case mr_ttlMs r of None \<Rightarrow> ttl | t \<Rightarrow> t); e = map_option (\<lambda>t. mr_cachedAtMs r + t) own in
         if expired e now
         then (None, m\<lparr>memory := c, memo_rows := filter (\<lambda>r. \<not> row_at fn h r) (memo_rows m)\<rparr>)
         else let v = canonicalJsonParse (mr_outputs r) in
           (Some v, m\<lparr>memory := lru_set L (cacheKey fn h) \<lparr>e_value = v, e_expiresAtMs = e\<rparr> c,
              memo_rows := map (\<lambda>r. if row_at fn h r then r\<lparr>mr_hits := mr_hits r + 1\<rparr> else r) (memo_rows m)\<rparr>)))"

text \<open>The memory is written first; the answer tells whether the row was written too or the call threw.\<close>

definition memo_set :: "(MemoryEntry, 'c) lru \<Rightarrow> string \<Rightarrow> string \<Rightarrow> val \<Rightarrow> int option \<Rightarrow> int \<Rightarrow> 'c memo \<Rightarrow> bool \<times> 'c memo" where
  "memo_set L fn h v ttl now m =
     (let m1 = m\<lparr>memory := lru_set L (cacheKey fn h) \<lparr>e_value = v, e_expiresAtMs = map_option ((+) now) ttl\<rparr> (memory m)\<rparr> in
      case with_text v (\<lambda>t. m1\<lparr>memo_rows := replace_row (row_at fn h)
          \<lparr>mr_fn = fn, mr_hash = h, mr_outputs = t, mr_cachedAtMs = now, mr_ttlMs = ttl, mr_hits = 0\<rparr> (memo_rows m)\<rparr>) of
        None \<Rightarrow> (False, m1) | Some m2 \<Rightarrow> (True, m2))"

definition memo_clear :: "(MemoryEntry, 'c) lru \<Rightarrow> string option \<Rightarrow> int option \<Rightarrow> int \<Rightarrow> 'c memo \<Rightarrow> nat \<times> 'c memo" where
  "memo_clear L fn olderThanMs now m =
     (let doomed = (\<lambda>r. (case fn of None \<Rightarrow> True | Some f \<Rightarrow> mr_fn r = f) \<and>
            (case olderThanMs of None \<Rightarrow> True | Some ms \<Rightarrow> mr_cachedAtMs r < now - ms));
          keys = filter (\<lambda>k. fn = None \<or> map_option fst (parseCacheKey k) = fn) (lru_keys L (memory m)) in
      (length (filter doomed (memo_rows m)),
       m\<lparr>memory := (if fn \<noteq> None \<or> olderThanMs \<noteq> None then fold (lru_delete L) keys (memory m) else lru_empty L),
         memo_rows := filter (\<lambda>r. \<not> doomed r) (memo_rows m)\<rparr>))"

record MemoStats =
  ms_fn :: string
  ms_hits :: nat
  ms_size :: nat

definition memo_stats :: "int \<Rightarrow> 'c memo \<Rightarrow> MemoStats list" where
  "memo_stats now m = map (\<lambda>f. let mine = filter (\<lambda>r. mr_fn r = f) (memo_rows m) in
     \<lparr>ms_fn = f, ms_hits = sum_list (map mr_hits mine),
      ms_size = length (filter (\<lambda>r. \<not> expired (map_option ((+) (mr_cachedAtMs r)) (mr_ttlMs r)) now) mine)\<rparr>)
     (sort (remdups (map mr_fn (memo_rows m))))"

text \<open>A new process starts with an empty memory and the same table.\<close>

definition memo_restart :: "(MemoryEntry, 'c) lru \<Rightarrow> 'c memo \<Rightarrow> 'c memo" where
  "memo_restart L m = m\<lparr>memory := lru_empty L\<rparr>"

section \<open>What the cache promises\<close>

datatype memo_op = MGet string string int | MSet string string val int | MClear "string option" "int option" int | MRestart int

fun op_time :: "memo_op \<Rightarrow> int" where
  "op_time (MGet f h t) = t"
| "op_time (MSet f h v t) = t"
| "op_time (MClear f o' t) = t"
| "op_time (MRestart t) = t"

text \<open>Operations on the cache, with one life time for each function; a lookup answers.\<close>

fun memo_step :: "(MemoryEntry, 'c) lru \<Rightarrow> (string \<Rightarrow> int option) \<Rightarrow> memo_op \<Rightarrow> 'c memo \<Rightarrow> val option \<times> 'c memo" where
  "memo_step L T (MGet f h t) m = memo_get L f h (T f) t m"
| "memo_step L T (MSet f h v t) m = (None, snd (memo_set L f h v (T f) t m))"
| "memo_step L T (MClear f o' t) m = (None, snd (memo_clear L f o' t m))"
| "memo_step L T (MRestart t) m = (None, memo_restart L m)"

text \<open>The contract: what was set last for a function and a hash, and when; an entry is served until its
  life time is over or it is cleared.\<close>

type_synonym memo_spec = "string \<times> string \<Rightarrow> (val \<times> int) option"

definition alive :: "(string \<Rightarrow> int option) \<Rightarrow> string \<Rightarrow> int \<Rightarrow> int \<Rightarrow> bool" where
  "alive T f since now \<longleftrightarrow> \<not> expired (map_option ((+) since) (T f)) now"

fun spec_step :: "(string \<Rightarrow> int option) \<Rightarrow> memo_op \<Rightarrow> memo_spec \<Rightarrow> val option \<times> memo_spec" where
  "spec_step T (MGet f h t) sp = (case sp (f, h) of None \<Rightarrow> None | Some (v, since) \<Rightarrow> if alive T f since t then Some v else None, sp)"
| "spec_step T (MSet f h v t) sp = (None, sp((f, h) \<mapsto> (v, t)))"
| "spec_step T (MClear f o' t) sp = (None, \<lambda>k. case sp k of None \<Rightarrow> None | Some (v, since) \<Rightarrow>
     if (case f of None \<Rightarrow> True | Some g \<Rightarrow> fst k = g) \<and> (case o' of None \<Rightarrow> True | Some ms \<Rightarrow> since < t - ms)
     then None else Some (v, since))"
| "spec_step T (MRestart t) sp = (None, sp)"

fun run_ops :: "(memo_op \<Rightarrow> 's \<Rightarrow> val option \<times> 's) \<Rightarrow> memo_op list \<Rightarrow> 's \<Rightarrow> val option list" where
  "run_ops one [] s = []"
| "run_ops one (p # ps) s = (case one p s of (r, s1) \<Rightarrow> r # run_ops one ps s1)"

text \<open>Function names and hashes have no colon, and the values set survive storage.\<close>

fun op_ok :: "memo_op \<Rightarrow> bool" where
  "op_ok (MGet f h t) \<longleftrightarrow> CHR '':'' \<notin> set f \<and> CHR '':'' \<notin> set h"
| "op_ok (MSet f h v t) \<longleftrightarrow> CHR '':'' \<notin> set f \<and> CHR '':'' \<notin> set h \<and> storable v"
| "op_ok _ \<longleftrightarrow> True"

lemma parse_cacheKey: "CHR '':'' \<notin> set f \<Longrightarrow> parseCacheKey (cacheKey f h) = Some (f, h)"
proof (induction f)
  case (Cons c f)
  then show ?case by (cases f) (auto simp: cacheKey_def)
qed (simp add: cacheKey_def)

lemma cacheKey_inj:
  "CHR '':'' \<notin> set f \<Longrightarrow> CHR '':'' \<notin> set g \<Longrightarrow> cacheKey f h = cacheKey g k \<longleftrightarrow> f = g \<and> h = k"
  by (metis parse_cacheKey option.inject prod.inject)

text \<open>The table and the memory against the contract: rows and entries are what was set last, and what is
  still alive has its row.\<close>

definition row_sound :: "(string \<Rightarrow> int option) \<Rightarrow> memo_spec \<Rightarrow> MemoRow \<Rightarrow> bool" where
  "row_sound T sp r \<longleftrightarrow> CHR '':'' \<notin> set (mr_fn r) \<and> mr_ttlMs r = T (mr_fn r) \<and>
     sp (mr_fn r, mr_hash r) = Some (canonicalJsonParse (mr_outputs r), mr_cachedAtMs r)"

definition entry_sound :: "(string \<Rightarrow> int option) \<Rightarrow> memo_spec \<Rightarrow> string \<Rightarrow> MemoryEntry \<Rightarrow> bool" where
  "entry_sound T sp key e \<longleftrightarrow> (\<exists>f h v since. CHR '':'' \<notin> set f \<and> key = cacheKey f h \<and> sp (f, h) = Some (v, since) \<and>
     e_value e = v \<and> e_expiresAtMs e = map_option ((+) since) (T f))"

definition row_key :: "MemoRow \<Rightarrow> string \<times> string" where
  "row_key r = (mr_fn r, mr_hash r)"

definition refines :: "('c \<Rightarrow> string \<Rightarrow> MemoryEntry option) \<Rightarrow> (string \<Rightarrow> int option) \<Rightarrow> int \<Rightarrow> 'c memo \<Rightarrow> memo_spec \<Rightarrow> bool" where
  "refines held T now m sp \<longleftrightarrow>
     (\<forall>r\<in>set (memo_rows m). row_sound T sp r) \<and>
     (\<forall>key e. held (memory m) key = Some e \<longrightarrow> entry_sound T sp key e) \<and>
     (\<forall>f h v since. sp (f, h) = Some (v, since) \<longrightarrow> alive T f since now \<longrightarrow> (f, h) \<in> row_key ` set (memo_rows m))"

lemma entry_soundI:
  "CHR '':'' \<notin> set f \<Longrightarrow> sp (f, h) = Some (e_value e, since) \<Longrightarrow> e_expiresAtMs e = map_option ((+) since) (T f) \<Longrightarrow>
   entry_sound T sp (cacheKey f h) e"
  unfolding entry_sound_def by blast

lemma expired_mono: "expired e now \<Longrightarrow> now \<le> later \<Longrightarrow> expired e later"
  by (auto simp: expired_def split: option.splits)

lemma refines_later: "refines held T now m sp \<Longrightarrow> now \<le> later \<Longrightarrow> refines held T later m sp"
  unfolding refines_def alive_def using expired_mono by blast

lemma find_row: "List.find (row_at f h) rows = None \<longleftrightarrow> (f, h) \<notin> row_key ` set rows"
  by (induction rows) (auto simp: row_at_def row_key_def)

locale memo_cache = lru_cache L held bound
  for L :: "(MemoryEntry, 'c) lru" and held :: "'c \<Rightarrow> string \<Rightarrow> MemoryEntry option" and bound :: nat
begin

lemma lookup_memory:
  "fst (memory_lookup L key now c) = (case held c key of
     None \<Rightarrow> None | Some e \<Rightarrow> if expired (e_expiresAtMs e) now then None else Some (e_value e))"
  "held (snd (memory_lookup L key now c)) \<subseteq>\<^sub>m held c"
  using get_held[of key c] held_get[of key c] held_delete[of key]
  by (auto simp: memory_lookup_def map_le_def split: prod.split option.split if_split)

lemma refines_memory:
  "refines held T t m sp \<Longrightarrow> held c \<subseteq>\<^sub>m held (memory m) \<Longrightarrow> refines held T t (m\<lparr>memory := c\<rparr>) sp"
  unfolding refines_def by (auto dest: map_leD)

lemma refines_entry:
  assumes "refines held T t m sp" and "entry_sound T sp key e"
  shows "refines held T t (m\<lparr>memory := lru_set L key e (memory m)\<rparr>) sp"
proof -
  have "entry_sound T sp k e'" if "held (lru_set L key e (memory m)) k = Some e'" for k e'
    using map_leD[OF held_set that] assms by (auto simp: refines_def split: if_splits)
  then show ?thesis using assms(1) by (simp add: refines_def)
qed

lemma refines_rows:
  assumes "refines held T t m sp" and "\<And>r. r \<in> set rows \<Longrightarrow> row_sound T sp r"
    and "\<And>f h v since. sp (f, h) = Some (v, since) \<Longrightarrow> alive T f since t \<Longrightarrow> (f, h) \<in> row_key ` set (memo_rows m) \<Longrightarrow>
      (f, h) \<in> row_key ` set rows"
  shows "refines held T t (m\<lparr>memo_rows := rows\<rparr>) sp"
  using assms unfolding refines_def by simp

lemma refines_hit:
  assumes "refines held T t m sp"
  shows "refines held T t (m\<lparr>memo_rows := map (\<lambda>r. if P r then r\<lparr>mr_hits := mr_hits r + 1\<rparr> else r) (memo_rows m)\<rparr>) sp"
proof (rule refines_rows[OF assms])
  fix r assume "r \<in> set (map (\<lambda>r. if P r then r\<lparr>mr_hits := mr_hits r + 1\<rparr> else r) (memo_rows m))"
  then obtain r' where "r' \<in> set (memo_rows m)" "r = (if P r' then r'\<lparr>mr_hits := mr_hits r' + 1\<rparr> else r')" by auto
  then show "row_sound T sp r" using assms by (simp add: refines_def row_sound_def)
next
  fix f h
  have "row_key (if P r then r\<lparr>mr_hits := mr_hits r + 1\<rparr> else r) = row_key r" for r by (simp add: row_key_def)
  then show "(f, h) \<in> row_key ` set (memo_rows m) \<Longrightarrow>
      (f, h) \<in> row_key ` set (map (\<lambda>r. if P r then r\<lparr>mr_hits := mr_hits r + 1\<rparr> else r) (memo_rows m))"
    unfolding set_map image_image by simp
qed

lemma get_refines:
  assumes r: "refines held T t m sp" and f: "CHR '':'' \<notin> set f"
  shows "fst (memo_get L f h (T f) t m) = fst (spec_step T (MGet f h t) sp) \<and>
    refines held T t (snd (memo_get L f h (T f) t m)) sp"
proof -
  obtain a c where l: "memory_lookup L (cacheKey f h) t (memory m) = (a, c)" by fastforce
  note look = lookup_memory[of "cacheKey f h" t "memory m", unfolded l, simplified]
  have rc: "refines held T t (m\<lparr>memory := c\<rparr>) sp" by (rule refines_memory[OF r look(2)])
  show ?thesis
  proof (cases a)
    case (Some v)
    then obtain e where e: "held (memory m) (cacheKey f h) = Some e" "\<not> expired (e_expiresAtMs e) t" "v = e_value e"
      using look(1) by (auto split: option.splits if_splits)
    then have "entry_sound T sp (cacheKey f h) e" using r by (simp add: refines_def)
    then obtain since where "sp (f, h) = Some (v, since)" "e_expiresAtMs e = map_option ((+) since) (T f)"
      using f e(3) by (auto simp: entry_sound_def cacheKey_inj)
    then show ?thesis using rc e(2) by (simp add: memo_get_def l Some alive_def)
  next
    case None
    show ?thesis
    proof (cases "List.find (row_at f h) (memo_rows m)")
      case n: None
      then have "\<not> (\<exists>v since. sp (f, h) = Some (v, since) \<and> alive T f since t)"
        using r by (auto simp: refines_def find_row)
      then show ?thesis using rc by (auto simp: memo_get_def l None n split: option.split)
    next
      case (Some row)
      then have row: "row \<in> set (memo_rows m)" "mr_fn row = f" "mr_hash row = h"
        by (auto dest!: find_Some_mem simp: row_at_def)
      then have rs: "mr_ttlMs row = T f" "sp (f, h) = Some (canonicalJsonParse (mr_outputs row), mr_cachedAtMs row)"
        using r by (auto simp: refines_def row_sound_def)
      have own: "(case mr_ttlMs row of None \<Rightarrow> T f | x \<Rightarrow> x) = T f" using rs(1) by (auto split: option.split)
      have ex: "map_option (\<lambda>x. mr_cachedAtMs row + x) (T f) = map_option ((+) (mr_cachedAtMs row)) (T f)" by simp
      show ?thesis
      proof (cases "expired (map_option ((+) (mr_cachedAtMs row)) (T f)) t")
        case True
        have "refines held T t (m\<lparr>memory := c, memo_rows := filter (\<lambda>r. \<not> row_at f h r) (memo_rows m)\<rparr>) sp"
        proof (rule refines_rows[OF rc])
          fix g k v since
          assume "sp (g, k) = Some (v, since)" "alive T g since t" "(g, k) \<in> row_key ` set (memo_rows (m\<lparr>memory := c\<rparr>))"
          moreover from this have "(g, k) \<noteq> (f, h)" using True rs(2) by (auto simp: alive_def)
          ultimately show "(g, k) \<in> row_key ` set (filter (\<lambda>r. \<not> row_at f h r) (memo_rows m))"
            by (auto simp: row_at_def row_key_def image_iff)
        qed (use r in \<open>simp add: refines_def\<close>)
        then show ?thesis using True rs(2) by (simp add: memo_get_def l None Some own Let_def alive_def)
      next
        case False
        let ?e = "\<lparr>e_value = canonicalJsonParse (mr_outputs row), e_expiresAtMs = map_option ((+) (mr_cachedAtMs row)) (T f)\<rparr>"
        have "entry_sound T sp (cacheKey f h) ?e" using f rs(2) by (auto simp: entry_sound_def)
        from refines_hit[OF refines_entry[OF rc this], where P = "row_at f h"]
        have "refines held T t (m\<lparr>memory := lru_set L (cacheKey f h) ?e c,
            memo_rows := map (\<lambda>r. if row_at f h r then r\<lparr>mr_hits := mr_hits r + 1\<rparr> else r) (memo_rows m)\<rparr>) sp"
          by simp
        then show ?thesis using False rs(2) by (simp add: memo_get_def l None Some own Let_def alive_def)
      qed
    qed
  qed
qed

lemma set_refines:
  assumes r: "refines held T t m sp" and ok: "op_ok (MSet f h v t)"
  shows "refines held T t (snd (memo_set L f h v (T f) t m)) (sp((f, h) \<mapsto> (v, t)))"
proof -
  let ?sp = "sp((f, h) \<mapsto> (v, t))"
  let ?row = "\<lparr>mr_fn = f, mr_hash = h, mr_outputs = stored v, mr_cachedAtMs = t, mr_ttlMs = T f, mr_hits = 0\<rparr>"
  let ?rows = "replace_row (row_at f h) ?row (memo_rows m)"
  let ?e = "\<lparr>e_value = v, e_expiresAtMs = map_option ((+) t) (T f)\<rparr>"
  let ?c = "lru_set L (cacheKey f h) ?e (memory m)"
  have v: "storable v" and f: "CHR '':'' \<notin> set f" using ok by auto
  have "row_sound T ?sp r'" if "r' \<in> set ?rows" for r'
    using that r f revive_stored[OF v]
    by (auto simp: replace_row_def row_at_def refines_def row_sound_def canonicalJsonParse_def)
  moreover have "entry_sound T ?sp k e" if "held ?c k = Some e" for k e
  proof (cases "k = cacheKey f h")
    case True
    then have "e = ?e" using map_leD[OF held_set that] by simp
    then show ?thesis using f True entry_soundI[of f ?sp h ?e t T] by simp
  next
    case False
    then have "held (memory m) k = Some e" using map_leD[OF held_set that] by simp
    then have "entry_sound T sp k e" using r by (simp add: refines_def)
    then obtain g j w since where g: "CHR '':'' \<notin> set g" "k = cacheKey g j" "sp (g, j) = Some (w, since)"
      "e_value e = w" "e_expiresAtMs e = map_option ((+) since) (T g)"
      unfolding entry_sound_def by blast
    then have "(g, j) \<noteq> (f, h)" using False by auto
    then have "?sp (g, j) = sp (g, j)" by auto
    then show ?thesis using g entry_soundI[of g ?sp j e since T] by simp
  qed
  moreover have "(g, j) \<in> row_key ` set ?rows" if "?sp (g, j) = Some (w, since)" "alive T g since t" for g j w since
  proof (cases "(g, j) = (f, h)")
    case True
    then show ?thesis by (auto simp: replace_row_def row_key_def)
  next
    case False
    then have "(g, j) \<in> row_key ` set (memo_rows m)" using that r by (auto simp: refines_def)
    then show ?thesis using False by (auto simp: replace_row_def row_key_def row_at_def)
  qed
  ultimately show ?thesis
    by (simp add: memo_set_def Let_def with_text_def storable_text[OF v] stored_defined[OF v] refines_def)
qed

lemma held_deletes: "held (fold (lru_delete L) ks c) = (\<lambda>k. if k \<in> set ks then None else held c k)"
  by (induction ks arbitrary: c) (auto simp: held_delete fun_eq_iff)

lemma clear_refines:
  assumes r: "refines held T t m sp"
  shows "refines held T t (snd (memo_clear L fn older t m)) (snd (spec_step T (MClear fn older t) sp))"
proof -
  let ?m = "snd (memo_clear L fn older t m)" and ?sp = "snd (spec_step T (MClear fn older t) sp)"
  have kept: "?sp (mr_fn x, mr_hash x) = sp (mr_fn x, mr_hash x)" if "x \<in> set (memo_rows ?m)" for x
  proof -
    from that have "x \<in> set (memo_rows m)" by (auto simp: memo_clear_def Let_def)
    then have "row_sound T sp x" using r by (simp add: refines_def)
    then show ?thesis using that by (auto simp: row_sound_def memo_clear_def Let_def split: option.splits)
  qed
  have "row_sound T ?sp x" if "x \<in> set (memo_rows ?m)" for x
  proof -
    have "x \<in> set (memo_rows m)" using that by (auto simp: memo_clear_def Let_def)
    then have "row_sound T sp x" using r by (simp add: refines_def)
    then show ?thesis unfolding row_sound_def kept[OF that] .
  qed
  moreover have "entry_sound T ?sp k e" if h: "held (memory ?m) k = Some e" for k e
  proof -
    have k: "held (memory m) k = Some e" "\<exists>g. fn = Some g \<and> map_option fst (parseCacheKey k) \<noteq> fn"
      using h by (auto simp: memo_clear_def Let_def held_deletes held_empty keys_held split: if_splits)
    then have "entry_sound T sp k e" using r by (simp add: refines_def)
    then obtain g j w since where g: "CHR '':'' \<notin> set g" "k = cacheKey g j" "sp (g, j) = Some (w, since)"
      "e_value e = w" "e_expiresAtMs e = map_option ((+) since) (T g)"
      unfolding entry_sound_def by blast
    then have "?sp (g, j) = sp (g, j)" using k(2) parse_cacheKey[OF g(1)] by auto
    then show ?thesis using g entry_soundI[of g ?sp j e since T] by simp
  qed
  moreover have "(g, j) \<in> row_key ` set (memo_rows ?m)"
    if s: "?sp (g, j) = Some (w, since)" and a: "alive T g since t" for g j w since
  proof -
    have s': "sp (g, j) = Some (w, since)" using s by (auto split: option.splits if_splits)
    then have "(g, j) \<in> row_key ` set (memo_rows m)" using r a by (simp add: refines_def)
    then obtain x where x: "x \<in> set (memo_rows m)" "row_key x = (g, j)" by (metis imageE)
    then have "mr_cachedAtMs x = since" "mr_fn x = g"
      using r s' by (auto simp: refines_def row_sound_def row_key_def)
    then have "x \<in> set (memo_rows ?m)" using x s s' by (auto simp: memo_clear_def Let_def split: option.splits if_splits)
    then show ?thesis using x(2) by force
  qed
  ultimately show ?thesis by (simp add: refines_def)
qed

lemma restart_refines: "refines held T t m sp \<Longrightarrow> refines held T t (memo_restart L m) sp"
  by (simp add: refines_def memo_restart_def held_empty)

lemma step_refines:
  assumes "refines held T (op_time p) m sp" and "op_ok p"
  shows "fst (memo_step L T p m) = fst (spec_step T p sp) \<and>
    refines held T (op_time p) (snd (memo_step L T p m)) (snd (spec_step T p sp))"
proof (cases p)
  case (MGet f h t)
  then show ?thesis using get_refines[of T t m sp f h] assms by simp
next
  case (MSet f h v t)
  then show ?thesis using set_refines[of T t m sp f h v] assms by simp
next
  case (MClear f o' t)
  then show ?thesis using clear_refines[of T t m sp f o'] assms by simp
next
  case (MRestart t)
  then show ?thesis using restart_refines assms by simp
qed

lemma run_refines:
  assumes "refines held T now m sp" and "sorted (map op_time ps)" and "\<forall>p\<in>set ps. now \<le> op_time p" and "\<forall>p\<in>set ps. op_ok p"
  shows "run_ops (memo_step L T) ps m = run_ops (spec_step T) ps sp"
  using assms
proof (induction ps arbitrary: now m sp)
  case (Cons p ps)
  have r: "refines held T (op_time p) m sp" using refines_later[OF Cons.prems(1)] Cons.prems(3) by simp
  obtain a m1 where m: "memo_step L T p m = (a, m1)" by fastforce
  obtain b sp1 where sp: "spec_step T p sp = (b, sp1)" by fastforce
  have "a = b" "refines held T (op_time p) m1 sp1" using step_refines[OF r] Cons.prems(4) m sp by auto
  then show ?case using Cons.IH[of "op_time p" m1 sp1] Cons.prems m sp by auto
qed simp

end

interpretation list_memo: memo_cache "list_lru (Suc n)" map_of "Suc n" for n
  by (rule memo_cache.intro) (rule list_lru.lru_cache_axioms)


definition demo_memo_ops :: "memo_op list" where
  "demo_memo_ops = [MSet ''recall'' ''aa'' (VNum (Fin 7)) 0, MGet ''recall'' ''aa'' 5, MRestart 6, MGet ''recall'' ''aa'' 9,
     MGet ''recall'' ''aa'' 10, MSet ''embed'' ''bb'' VNull 11, MClear (Some ''embed'') None 12, MGet ''embed'' ''bb'' 13]"


section \<open>Callers of one key at once\<close>

text \<open>Callers that miss and then enter \<open>singleflight\<close>, as the evaluator does; between the two a caller waits
  for the database, so the steps of different callers interleave. A leader invokes the primitive and
  lands, with a value that is stored or with an error.\<close>

datatype phase = Asking | Missed | Leading | Following | Answered

record flight =
  inflight :: "nat option"
  cached :: bool
  invocations :: nat
  caller :: "nat \<Rightarrow> phase"

definition ask_cache :: "nat \<Rightarrow> flight \<Rightarrow> flight" where
  "ask_cache i s = s\<lparr>caller := (caller s)(i := if cached s then Answered else Missed)\<rparr>"

definition singleflight :: "nat \<Rightarrow> flight \<Rightarrow> flight" where
  "singleflight i s = (case inflight s of
     Some l \<Rightarrow> s\<lparr>caller := (caller s)(i := Following)\<rparr>
   | None \<Rightarrow> s\<lparr>inflight := Some i, invocations := invocations s + 1, caller := (caller s)(i := Leading)\<rparr>)"

text \<open>The flight ends: the record goes, and everybody who waits on it has the leader's answer.\<close>

definition land :: "bool \<Rightarrow> nat \<Rightarrow> flight \<Rightarrow> flight" where
  "land ok i s = s\<lparr>inflight := None, cached := cached s \<or> ok,
     caller := (\<lambda>j. if j = i \<or> caller s j = Following then Answered else caller s j)\<rparr>"

inductive flight_step :: "flight \<Rightarrow> flight \<Rightarrow> bool" where
  ask: "caller s i = Asking \<Longrightarrow> flight_step s (ask_cache i s)"
| enter: "caller s i = Missed \<Longrightarrow> flight_step s (singleflight i s)"
| landing: "caller s i = Leading \<Longrightarrow> flight_step s (land ok i s)"

inductive flights :: "flight \<Rightarrow> bool" where
  start: "flights \<lparr>inflight = None, cached = False, invocations = 0, caller = (\<lambda>i. Asking)\<rparr>"
| move: "flights s \<Longrightarrow> flight_step s s' \<Longrightarrow> flights s'"

text \<open>The callers that lead are those that the record of the flight names: none or one.\<close>

definition one_leader :: "flight \<Rightarrow> bool" where
  "one_leader s \<longleftrightarrow> (\<forall>i. caller s i = Leading \<longleftrightarrow> inflight s = Some i)"

lemma one_leader_caller: "one_leader s \<Longrightarrow> caller s i \<noteq> Leading \<Longrightarrow> inflight s \<noteq> Some i"
  by (auto simp: one_leader_def)

lemma one_leader_step: "flight_step s s' \<Longrightarrow> one_leader s \<Longrightarrow> one_leader s'"
proof (induction rule: flight_step.induct)
  case (ask s i)
  then show ?case using one_leader_caller[of s i] by (auto simp: one_leader_def ask_cache_def)
next
  case (enter s i)
  then show ?case using one_leader_caller[of s i]
    by (auto simp: one_leader_def singleflight_def split: option.split)
next
  case (landing s i ok)
  then show ?case by (auto simp: one_leader_def land_def)
qed

lemma flights_one_leader: "flights s \<Longrightarrow> one_leader s"
proof (induction rule: flights.induct)
  case start
  show ?case by (simp add: one_leader_def)
qed (rule one_leader_step)

text \<open>
  Singleflight and the stampede. However callers of one key interleave, at most one invocation of
  the primitive is under way at any time. But concurrent misses are not one invocation: a caller that
  has missed and enters only after the flight of another has landed starts a second one, although the
  value is already stored.
\<close>

theorem singleflight_limits:
  "Collect flights \<subseteq> Collect one_leader \<and>
   (\<exists>s. flights s \<and> cached s \<and> caller s 0 = Answered \<and> caller s 1 = Leading \<and> invocations s = 2)"
proof
  show "Collect flights \<subseteq> Collect one_leader" using flights_one_leader by blast
next
  let ?s0 = "\<lparr>inflight = None, cached = False, invocations = 0, caller = (\<lambda>i. Asking)\<rparr>"
  let ?s2 = "ask_cache 1 (ask_cache 0 ?s0)"
  let ?s5 = "singleflight 1 (land True 0 (singleflight 0 ?s2))"
  have "flights (ask_cache 0 ?s0)" by (rule move[OF start ask]) simp
  then have "flights ?s2" by (rule move[OF _ ask]) (simp add: ask_cache_def)
  then have "flights (singleflight 0 ?s2)" by (rule move[OF _ enter]) (simp add: ask_cache_def)
  then have "flights (land True 0 (singleflight 0 ?s2))"
    by (rule move[OF _ landing]) (simp add: ask_cache_def singleflight_def)
  then have "flights ?s5"
    by (rule move[OF _ enter]) (simp add: ask_cache_def singleflight_def land_def)
  then show "\<exists>s. flights s \<and> cached s \<and> caller s 0 = Answered \<and> caller s 1 = Leading \<and> invocations s = 2"
    by (intro exI[of _ ?s5]) (simp add: ask_cache_def singleflight_def land_def)
qed

end
