(* ===== verification/Evaluator.thy ===== *)
theory Evaluator
  imports MemoCache
begin

text \<open>
  The process evaluator: the function registry (\<open>src/src/functions/registry.ts\<close>) and the interpreter of
  the steps of a rule, with its checkpoint and memo layers (\<open>src/src/runtime/evaluator.ts\<close>).

  A primitive is a function of its arguments, the context and the bindings that acts on a world; the
  clock is read off the world. Conditions are evaluated without the parse cache, which
  \<open>evalCondition_cache_transparent\<close> shows to be invisible. How a number is written as text is an
  argument. Within one process the steps run in order, so a singleflight is a call.
\<close>

section \<open>The function registry\<close>

datatype fn_error_kind = arg_invalid | runtime_error | timeout_error | not_found

record FunctionError =
  fe_kind :: fn_error_kind
  fe_message :: string

text \<open>What a call comes to: a value, an error value, or a throw.\<close>

datatype call_result = Done val | Failed FunctionError | Threw string

record ('x, 'w) FunctionDef =
  fd_schema :: "val \<Rightarrow> string + val"
  fd_execute :: "val \<Rightarrow> 'x \<Rightarrow> val obj \<Rightarrow> 'w \<Rightarrow> call_result \<times> 'w"
  fd_durable :: "bool option"
  fd_memoizable :: "bool option"
  fd_costEstimateMs :: "int option"

type_synonym ('x, 'w) registry = "('x, 'w) FunctionDef obj"

definition register :: "string \<Rightarrow> ('x, 'w) FunctionDef \<Rightarrow> ('x, 'w) registry \<Rightarrow> string + ('x, 'w) registry" where
  "register name d R = (if name \<in> set (keys R)
     then Inl (''Function '' @ [DQUOTE] @ name @ [DQUOTE] @ '' already registered'') else Inr (R @ [(name, d)]))"

definition list_names :: "('x, 'w) registry \<Rightarrow> string list" where
  "list_names R = sort (keys R)"

record PrimitiveDurability =
  pd_durable :: bool
  pd_memoizable :: bool
  pd_costEstimateMs :: "int option"

definition durability :: "('x, 'w) registry \<Rightarrow> string \<Rightarrow> PrimitiveDurability option" where
  "durability R name = map_option (\<lambda>d. \<lparr>pd_durable = (fd_durable d = Some True),
     pd_memoizable = (fd_memoizable d = Some True), pd_costEstimateMs = fd_costEstimateMs d\<rparr>) (map_of R name)"

definition registry_call :: "('x, 'w) registry \<Rightarrow> string \<Rightarrow> val \<Rightarrow> 'x \<Rightarrow> val obj \<Rightarrow> 'w \<Rightarrow> call_result \<times> 'w" where
  "registry_call R name args x B w = (case map_of R name of
     None \<Rightarrow> (Failed \<lparr>fe_kind = not_found, fe_message = ''No function '' @ [DQUOTE] @ name @ [DQUOTE]\<rparr>, w)
   | Some d \<Rightarrow> (case fd_schema d args of
       Inl msg \<Rightarrow> (Failed \<lparr>fe_kind = arg_invalid,
         fe_message = ''Invalid args for '' @ [DQUOTE] @ name @ [DQUOTE] @ '': '' @ msg\<rparr>, w)
     | Inr a \<Rightarrow> fd_execute d a x B w))"

section \<open>Templates\<close>

text \<open>A template at the head of a text: its name and what follows it.\<close>

definition template_head :: "string \<Rightarrow> (string \<times> string) option" where
  "template_head s =
     (if \<not> starts_with s ''{{'' then None
      else let t = dropWhile is_space (drop 2 s);
             name = takeWhile (\<lambda>c. is_word c \<or> c = CHR ''.'') t;
             r = dropWhile is_space (drop (length name) t)
        in if name \<noteq> [] \<and> starts_with r ''}}'' then Some (name, drop 2 r) else None)"

lemma template_head_shorter:
  assumes "template_head s = Some (name, r)"
  shows "length r < length s"
proof -
  let ?t = "dropWhile is_space (drop 2 s)"
  let ?u = "dropWhile is_space (drop (length name) ?t)"
  have u: "starts_with ?u ''}}''" "r = drop 2 ?u"
    using assms by (auto simp: template_head_def Let_def split: if_splits)
  then have "2 \<le> length ?u" by (auto simp: starts_with_iff)
  then have "length r < length ?u" using u(2) by simp
  also have "length ?u \<le> length ?t" using length_dropWhile_le[of is_space "drop (length name) ?t"] by simp
  also have "length ?t \<le> length s" using length_dropWhile_le[of is_space "drop 2 s"] by simp
  finally show ?thesis .
qed

function replace_templates :: "(string \<Rightarrow> string) \<Rightarrow> string \<Rightarrow> string" where
  "replace_templates f s = (case s of
     [] \<Rightarrow> []
   | c # cs \<Rightarrow> (case template_head s of
       Some (name, r) \<Rightarrow> f name @ replace_templates f r
     | None \<Rightarrow> c # replace_templates f cs))"
  by pat_completeness auto
termination by (relation "measure (length \<circ> snd)") (auto dest: template_head_shorter)

declare replace_templates.simps [simp del]

text \<open>Property read of an object value; the names are not names of a prototype.\<close>

definition get_property :: "val \<Rightarrow> string \<Rightarrow> val" where
  "get_property v k = (case v of
     VBytes i s \<Rightarrow> if k = ''length'' then num_of (length s) else or_undefined (own_property v k)
   | _ \<Rightarrow> or_undefined (own_property v k))"

definition is_object :: "val \<Rightarrow> bool" where
  "is_object v \<longleftrightarrow> (case v of VArr i xs \<Rightarrow> True | VObj i kvs \<Rightarrow> True | VBytes i s \<Rightarrow> True | VDate i d \<Rightarrow> True | _ \<Rightarrow> False)"

fun walk_path :: "val \<Rightarrow> string list \<Rightarrow> val" where
  "walk_path v [] = v"
| "walk_path v (k # ks) = (if is_object v then walk_path (get_property v k) ks else VUndef)"

definition resolveBindingPath :: "string \<Rightarrow> val obj \<Rightarrow> val" where
  "resolveBindingPath path B = (case splitOn (CHR ''.'') path of
     [] \<Rightarrow> VUndef | k # ks \<Rightarrow> walk_path (or_undefined (map_of B k)) ks)"

definition stringifyBinding :: "(jsnum \<Rightarrow> string) \<Rightarrow> val \<Rightarrow> string" where
  "stringifyBinding show_num v = (case policyToolActualName v of
     Some s \<Rightarrow> s
   | None \<Rightarrow> (case v of VNum x \<Rightarrow> show_num x | VBool b \<Rightarrow> (if b then ''true'' else ''false'') | _ \<Rightarrow> []))"

fun interpolateValue :: "(jsnum \<Rightarrow> string) \<Rightarrow> val obj \<Rightarrow> val \<Rightarrow> val" where
  "interpolateValue sn B (VStr s) = VStr (replace_templates (\<lambda>p. stringifyBinding sn (resolveBindingPath p B)) s)"
| "interpolateValue sn B (VArr i xs) = VArr i (map (interpolateValue sn B) xs)"
| "interpolateValue sn B (VObj i kvs) = VObj i (map (\<lambda>(k, v). (k, interpolateValue sn B v)) kvs)"
| "interpolateValue sn B (VBytes i s) = VObj i (map (\<lambda>n. (show_nat n, num_of (of_char (s ! n)))) [0..<length s])"
| "interpolateValue sn B (VDate i d) = VObj i []"
| "interpolateValue sn B v = v"

definition interpolateArgs :: "(jsnum \<Rightarrow> string) \<Rightarrow> val obj \<Rightarrow> val obj \<Rightarrow> val" where
  "interpolateArgs sn B args = interpolateValue sn B (VObj 0 args)"

section \<open>Results of a rule\<close>

definition isEmpty :: "val \<Rightarrow> bool" where
  "isEmpty v \<longleftrightarrow> (case v of VUndef \<Rightarrow> True | VNull \<Rightarrow> True | VArr i xs \<Rightarrow> xs = [] | VStr s \<Rightarrow> s = [] | _ \<Rightarrow> False)"

definition isVerdict :: "val \<Rightarrow> bool" where
  "isVerdict v \<longleftrightarrow> (case v of
     VObj i kvs \<Rightarrow> (case map_of kvs ''level'' of
         Some (VStr l) \<Rightarrow>
           if l = ''directive'' then (case map_of kvs ''next_action'' of Some a \<Rightarrow> is_object a | None \<Rightarrow> False)
           else (case map_of kvs ''message'' of Some (VStr m) \<Rightarrow> True | _ \<Rightarrow> False)
       | _ \<Rightarrow> False)
   | _ \<Rightarrow> False)"

definition inject_content :: "val \<Rightarrow> string option" where
  "inject_content v = (case v of
     VObj i kvs \<Rightarrow> (case (map_of kvs ''kind'', map_of kvs ''content'') of
         (Some (VStr k), Some (VStr c)) \<Rightarrow> if k = ''inject_context'' then Some c else None | _ \<Rightarrow> None)
   | _ \<Rightarrow> None)"

datatype RuleResult = no_verdict | verdict_result val | directive_result val | inject_context string
  | error_result string nat

section \<open>Evaluating a process\<close>

datatype on_empty = EmptyPass | EmptyBlock | EmptyContinue
datatype on_error = ErrorAbort | ErrorContinue

record ProcessStep =
  ps_call :: string
  ps_args :: "val obj option"
  ps_as :: "string option"
  ps_if :: "string option"
  ps_on_empty :: "on_empty option"
  ps_on_error :: "on_error option"

text \<open>The surroundings of an evaluation: registry, context, engines and packages, and the options: the run
  that is checkpointed, if any, and whether results are memoized, with the life time for each function.\<close>

record ('x, 'w, 'c) eval_env =
  ee_registry :: "('x, 'w) registry"
  ee_ctx :: 'x
  ee_re2 :: re2
  ee_show_num :: "jsnum \<Rightarrow> string"
  ee_sha :: digest
  ee_lru :: "(MemoryEntry, 'c) lru"
  ee_now :: "'w \<Rightarrow> int"
  ee_runId :: "string option"
  ee_memo :: bool
  ee_ttl :: "string \<Rightarrow> int option"

record ('w, 'c) eval_state =
  es_bindings :: "val obj"
  es_world :: 'w
  es_db :: ckdb
  es_memo :: "'c memo"

definition call_primitive :: "('x, 'w, 'c) eval_env \<Rightarrow> string \<Rightarrow> val \<Rightarrow> ('w, 'c) eval_state \<Rightarrow> call_result \<times> ('w, 'c) eval_state" where
  "call_primitive E fn args st =
     (case registry_call (ee_registry E) fn args (ee_ctx E) (es_bindings st) (es_world st) of
       (r, w) \<Rightarrow> (r, st\<lparr>es_world := w\<rparr>))"

definition inputs_hash :: "('x, 'w, 'c) eval_env \<Rightarrow> string \<Rightarrow> val \<Rightarrow> string option" where
  "inputs_hash E fn args =
     Option.bind (canonicalJsonStringify (VObj 0 [(''fn'', VStr fn), (''args'', args)])) (sha256Hex (ee_sha E))"

text \<open>A lookup or a write of the memo; \<open>False\<close> is a throw.\<close>

definition memo_lookup :: "('x, 'w, 'c) eval_env \<Rightarrow> string \<Rightarrow> string \<Rightarrow> ('w, 'c) eval_state \<Rightarrow> val option \<times> ('w, 'c) eval_state" where
  "memo_lookup E fn h st =
     (case memo_get (ee_lru E) fn h (ee_ttl E fn) (ee_now E (es_world st)) (es_memo st) of
       (r, m) \<Rightarrow> (r, st\<lparr>es_memo := m\<rparr>))"

definition memo_store :: "('x, 'w, 'c) eval_env \<Rightarrow> string \<Rightarrow> string \<Rightarrow> val \<Rightarrow> ('w, 'c) eval_state \<Rightarrow> bool \<times> ('w, 'c) eval_state" where
  "memo_store E fn h v st =
     (case memo_set (ee_lru E) fn h v (ee_ttl E fn) (ee_now E (es_world st)) (es_memo st) of
       (ok, m) \<Rightarrow> (ok, st\<lparr>es_memo := m\<rparr>))"

definition invokePrimitive ::
  "('x, 'w, 'c) eval_env \<Rightarrow> string \<Rightarrow> string \<Rightarrow> val \<Rightarrow> bool \<Rightarrow> ('w, 'c) eval_state \<Rightarrow> call_result \<times> ('w, 'c) eval_state" where
  "invokePrimitive E fn h args memo st = (case call_primitive E fn args st of
     (Done v, st1) \<Rightarrow> (if memo then (case memo_store E fn h v st1 of
         (ok, st2) \<Rightarrow> (if ok then Done v else Threw ''memo'', st2)) else (Done v, st1))
   | r \<Rightarrow> r)"

definition checkpoint_row ::
  "string \<Rightarrow> nat \<Rightarrow> ProcessStep \<Rightarrow> string \<Rightarrow> int \<Rightarrow> int \<Rightarrow> val \<Rightarrow> ck_status \<Rightarrow> string option \<Rightarrow> CheckpointRow" where
  "checkpoint_row run i sp h t1 t2 v status msg =
     \<lparr>k_runId = run, k_stepIdx = i, k_fn = ps_call sp, k_inputsHash = h, k_outputs = v, k_asBinding = ps_as sp,
      k_startedAtMs = t1, k_completedAtMs = t2, k_status = status, k_errorMessage = msg\<rparr>"

text \<open>A row is written before the result is handed on, and a write that fails is a throw.\<close>

definition persist :: "CheckpointRow \<Rightarrow> call_result \<Rightarrow> ('w, 'c) eval_state \<Rightarrow> call_result \<times> ('w, 'c) eval_state" where
  "persist row r st = (case append_row row (es_db st) of
     None \<Rightarrow> (Threw ''checkpoint'', st) | Some d \<Rightarrow> (r, st\<lparr>es_db := d\<rparr>))"

definition invoke_fresh ::
  "('x, 'w, 'c) eval_env \<Rightarrow> string \<Rightarrow> nat \<Rightarrow> ProcessStep \<Rightarrow> string \<Rightarrow> val \<Rightarrow> bool \<Rightarrow> ('w, 'c) eval_state \<Rightarrow>
   call_result \<times> ('w, 'c) eval_state" where
  "invoke_fresh E run i sp h args memo st = (let t1 = ee_now E (es_world st) in
     case invokePrimitive E (ps_call sp) h args memo st of
       (Threw e, st1) \<Rightarrow> (Threw e, st1)
     | (Done v, st1) \<Rightarrow>
         persist (checkpoint_row run i sp h t1 (ee_now E (es_world st1)) v Completed None) (Done v) st1
     | (Failed e, st1) \<Rightarrow>
         persist (checkpoint_row run i sp h t1 (ee_now E (es_world st1)) VNull Errored (Some (fe_message e))) (Failed e) st1)"

definition checkpoint_hit :: "CheckpointRow option \<Rightarrow> string \<Rightarrow> val option" where
  "checkpoint_hit prior h = (case prior of
     None \<Rightarrow> None | Some r \<Rightarrow> if k_status r = Completed \<and> k_inputsHash r = h then Some (k_outputs r) else None)"

definition invokeDurable ::
  "('x, 'w, 'c) eval_env \<Rightarrow> string \<Rightarrow> nat \<Rightarrow> ProcessStep \<Rightarrow> val \<Rightarrow> CheckpointRow option \<Rightarrow> bool \<Rightarrow> ('w, 'c) eval_state \<Rightarrow>
   call_result \<times> ('w, 'c) eval_state" where
  "invokeDurable E run i sp args prior memo st = (case inputs_hash E (ps_call sp) args of
     None \<Rightarrow> (Threw ''hash'', st)
   | Some h \<Rightarrow>
       (case checkpoint_hit prior h of
         Some v \<Rightarrow> (Done v, st)
       | None \<Rightarrow>
           if memo
           then (case memo_lookup E (ps_call sp) h st of
               (Some v, st1) \<Rightarrow> (let t = ee_now E (es_world st1) in
                 persist (checkpoint_row run i sp h t t v Completed None) (Done v) st1)
             | (None, st1) \<Rightarrow> invoke_fresh E run i sp h args memo st1)
           else invoke_fresh E run i sp h args memo st))"

definition invokeMemoized ::
  "('x, 'w, 'c) eval_env \<Rightarrow> ProcessStep \<Rightarrow> val \<Rightarrow> ('w, 'c) eval_state \<Rightarrow> call_result \<times> ('w, 'c) eval_state" where
  "invokeMemoized E sp args st = (case inputs_hash E (ps_call sp) args of
     None \<Rightarrow> (Threw ''hash'', st)
   | Some h \<Rightarrow> (case memo_lookup E (ps_call sp) h st of
       (Some v, st1) \<Rightarrow> (Done v, st1) | (None, st1) \<Rightarrow> invokePrimitive E (ps_call sp) h args True st1))"

definition flag :: "('x, 'w, 'c) eval_env \<Rightarrow> (PrimitiveDurability \<Rightarrow> bool) \<Rightarrow> ProcessStep \<Rightarrow> bool" where
  "flag E f sp \<longleftrightarrow> (case durability (ee_registry E) (ps_call sp) of None \<Rightarrow> False | Some d \<Rightarrow> f d)"

definition dispatch_step ::
  "('x, 'w, 'c) eval_env \<Rightarrow> CheckpointRow list \<Rightarrow> nat \<Rightarrow> ProcessStep \<Rightarrow> val \<Rightarrow> ('w, 'c) eval_state \<Rightarrow>
   call_result \<times> ('w, 'c) eval_state" where
  "dispatch_step E prior i sp args st = (let memo = (ee_memo E \<and> flag E pd_memoizable sp) in
     case ee_runId E of
       Some run \<Rightarrow>
         if flag E pd_durable sp
         then invokeDurable E run i sp args (List.find (\<lambda>r. k_stepIdx r = i) prior) memo st
         else if memo then invokeMemoized E sp args st else call_primitive E (ps_call sp) args st
     | None \<Rightarrow> if memo then invokeMemoized E sp args st else call_primitive E (ps_call sp) args st)"

definition bind :: "string option \<Rightarrow> val \<Rightarrow> ('w, 'c) eval_state \<Rightarrow> ('w, 'c) eval_state" where
  "bind x v st = (case x of None \<Rightarrow> st | Some n \<Rightarrow> st\<lparr>es_bindings := AList.update n v (es_bindings st)\<rparr>)"

definition block_verdict :: "nat \<Rightarrow> val" where
  "block_verdict i = VObj 0 [(''level'', VStr ''block''), (''message'', VStr (''Step '' @ show_nat i @ '' returned empty''))]"

text \<open>What a value does to the process: a terminal result, or the next step.\<close>

definition settle_value :: "nat \<Rightarrow> ProcessStep \<Rightarrow> val \<Rightarrow> RuleResult option" where
  "settle_value i sp v =
     (if ps_call sp = ''verdict'' \<and> isVerdict v
      then Some (if get_property v ''level'' = VStr ''directive''
        then directive_result (get_property v ''next_action'') else verdict_result v)
      else case inject_content v of
        Some c \<Rightarrow> Some (inject_context c)
      | None \<Rightarrow>
          if isEmpty v \<and> ps_on_empty sp = Some EmptyPass then Some no_verdict
          else if isEmpty v \<and> ps_on_empty sp = Some EmptyBlock then Some (verdict_result (block_verdict i))
          else None)"

definition skips :: "('x, 'w, 'c) eval_env \<Rightarrow> ProcessStep \<Rightarrow> val obj \<Rightarrow> bool" where
  "skips E sp B \<longleftrightarrow> (case ps_if sp of None \<Rightarrow> False | Some e \<Rightarrow> \<not> condition_holds (FUNCTIONS (ee_re2 E)) e B)"

definition step_args :: "('x, 'w, 'c) eval_env \<Rightarrow> ProcessStep \<Rightarrow> val obj \<Rightarrow> val" where
  "step_args E sp B = interpolateArgs (ee_show_num E) B (case ps_args sp of None \<Rightarrow> [] | Some a \<Rightarrow> a)"

text \<open>One step: the outcome that ends the process, if it does, and the state.\<close>

definition eval_step ::
  "('x, 'w, 'c) eval_env \<Rightarrow> CheckpointRow list \<Rightarrow> nat \<Rightarrow> ProcessStep \<Rightarrow> ('w, 'c) eval_state \<Rightarrow>
   (string + RuleResult) option \<times> ('w, 'c) eval_state" where
  "eval_step E prior i sp st =
     (if skips E sp (es_bindings st) then (None, st)
      else case dispatch_step E prior i sp (step_args E sp (es_bindings st)) st of
        (Threw e, st1) \<Rightarrow> (Some (Inl e), st1)
      | (Failed e, st1) \<Rightarrow>
          if ps_on_error sp = Some ErrorContinue then (None, bind (ps_as sp) (VStr (fe_message e)) st1)
          else (Some (Inr (error_result (fe_message e) i)), st1)
      | (Done v, st1) \<Rightarrow> (case settle_value i sp v of
            Some r \<Rightarrow> (Some (Inr r), st1) | None \<Rightarrow> (None, bind (ps_as sp) v st1)))"

fun eval_steps ::
  "('x, 'w, 'c) eval_env \<Rightarrow> CheckpointRow list \<Rightarrow> nat \<Rightarrow> ProcessStep list \<Rightarrow> ('w, 'c) eval_state \<Rightarrow>
   (string + RuleResult) option \<times> ('w, 'c) eval_state" where
  "eval_steps E prior i [] st = (None, st)"
| "eval_steps E prior i (s # ss) st = (case eval_step E prior i s st of
     (Some r, st1) \<Rightarrow> (Some r, st1) | (None, st1) \<Rightarrow> eval_steps E prior (i + 1) ss st1)"

definition loadCheckpointMap :: "('x, 'w, 'c) eval_env \<Rightarrow> ckdb \<Rightarrow> CheckpointRow list" where
  "loadCheckpointMap E d = (case ee_runId E of None \<Rightarrow> [] | Some run \<Rightarrow> fetchRun run d)"

definition evaluateProcess ::
  "('x, 'w, 'c) eval_env \<Rightarrow> ProcessStep list \<Rightarrow> ('w, 'c) eval_state \<Rightarrow> (string + RuleResult) \<times> ('w, 'c) eval_state" where
  "evaluateProcess E steps st = (case eval_steps E (loadCheckpointMap E (es_db st)) 0 steps st of
     (Some r, st1) \<Rightarrow> (r, st1) | (None, st1) \<Rightarrow> (Inr no_verdict, st1))"

section \<open>Interrupted runs\<close>

text \<open>A call that does not touch the world or depend on it.\<close>

definition pure_call :: "('x, 'w, 'c) eval_env \<Rightarrow> string \<Rightarrow> bool" where
  "pure_call E fn \<longleftrightarrow> (\<forall>args B w w'. registry_call (ee_registry E) fn args (ee_ctx E) B w =
     (fst (registry_call (ee_registry E) fn args (ee_ctx E) B w'), w))"

text \<open>What a process needs to be resumed exactly: whatever is not checkpointed is pure, and a checkpointed
  step gives values that survive storage and is not retried on an error.\<close>

definition resumable_step :: "('x, 'w, 'c) eval_env \<Rightarrow> ProcessStep \<Rightarrow> bool" where
  "resumable_step E sp \<longleftrightarrow>
     (if flag E pd_durable sp
      then ps_on_error sp \<noteq> Some ErrorContinue \<and>
        (\<forall>args B w v. fst (registry_call (ee_registry E) (ps_call sp) args (ee_ctx E) B w) = Done v \<longrightarrow> storable v)
      else pure_call E (ps_call sp))"

definition checkpointed :: "('x, 'w, 'c) eval_env \<Rightarrow> string \<Rightarrow> bool" where
  "checkpointed E run \<longleftrightarrow> ee_runId E = Some run \<and> \<not> ee_memo E"

definition at_world :: "('w, 'c) eval_state \<Rightarrow> 'w \<Rightarrow> ckdb \<Rightarrow> ('w, 'c) eval_state" where
  "at_world st w d = st\<lparr>es_world := w, es_db := d\<rparr>"

lemma at_world_simps [simp]:
  "es_bindings (at_world st w d) = es_bindings st" "es_world (at_world st w d) = w" "es_db (at_world st w d) = d"
  "at_world st (es_world st) (es_db st) = st" "bind x v (at_world st w d) = at_world (bind x v st) w d"
  "es_db (bind x v st) = es_db st" "es_world (bind x v st) = es_world st"
  by (auto simp: at_world_def bind_def split: option.split)

text \<open>A pure step: the same outcome in any world and database.\<close>

lemma pure_step:
  assumes E: "checkpointed E run" and f: "\<not> flag E pd_durable sp" and p: "pure_call E (ps_call sp)"
    and s: "eval_step E [] i sp st = (None, st1)"
  shows "es_world st1 = es_world st \<and> es_db st1 = es_db st \<and>
    eval_step E P i sp (at_world st w d) = (None, at_world st1 w d)"
proof (cases "skips E sp (es_bindings st)")
  case True
  then show ?thesis using s by (auto simp: eval_step_def)
next
  case False
  let ?args = "step_args E sp (es_bindings st)"
  obtain r where r: "\<And>w. registry_call (ee_registry E) (ps_call sp) ?args (ee_ctx E) (es_bindings st) w = (r, w)"
    using p unfolding pure_call_def by metis
  have c: "dispatch_step E Q i sp ?args (at_world st v e) = (r, at_world st v e)" for Q v e
    using E f r by (simp add: dispatch_step_def checkpointed_def call_primitive_def at_world_def)
  from c[of "[]" "es_world st" "es_db st"] c[of P w d] show ?thesis
    using s False by (auto simp: eval_step_def split: call_result.splits if_splits option.splits)
qed

lemma invoke_fresh_Done:
  assumes "invoke_fresh E run i sp h args False st = (Done v, st1)" and "storable v"
    and "\<forall>r\<in>set (checkpoints (es_db st)). k_runId r = run \<longrightarrow> k_stepIdx r \<noteq> i"
  shows "\<exists>row. es_db st1 = (es_db st)\<lparr>checkpoints := checkpoints (es_db st) @ [row]\<rparr> \<and> k_runId row = run \<and>
    k_stepIdx row = i \<and> k_status row = Completed \<and> k_inputsHash row = h \<and> k_outputs (rowToCheckpoint row) = v \<and>
    es_bindings st1 = es_bindings st \<and> es_memo st1 = es_memo st"
proof -
  obtain r w where r: "registry_call (ee_registry E) (ps_call sp) args (ee_ctx E) (es_bindings st) (es_world st) = (r, w)"
    by fastforce
  have v: "r = Done v"
    using assms(1) r
    by (auto simp: invoke_fresh_def invokePrimitive_def call_primitive_def persist_def Let_def split: call_result.splits option.splits)
  have f: "filter (\<lambda>r. k_runId r = run \<longrightarrow> k_stepIdx r \<noteq> i) (checkpoints (es_db st)) = checkpoints (es_db st)"
    using assms(3) by (simp add: filter_id_conv)
  show ?thesis
    using assms(1) r f revive_stored[OF assms(2)]
    by (auto simp: v invoke_fresh_def invokePrimitive_def call_primitive_def persist_def Let_def append_row_def with_text_def
        storable_text[OF assms(2)] stored_defined[OF assms(2)] checkpoint_row_def replace_row_def rowToCheckpoint_def
        canonicalJsonParse_def)
qed

text \<open>One step of a walk that goes on: the rows it adds, and that it goes on in the same way from any world
  and database when its row is among the prior ones.\<close>

lemma walk_step:
  assumes E: "checkpointed E run" and ok: "resumable_step E sp" and s: "eval_step E [] i sp st = (None, st1)"
    and fresh: "\<forall>r\<in>set (checkpoints (es_db st)). k_runId r = run \<longrightarrow> k_stepIdx r < i"
  shows "\<exists>new. es_db st1 = (es_db st)\<lparr>checkpoints := checkpoints (es_db st) @ new\<rparr> \<and> length new \<le> 1 \<and>
    (\<forall>r\<in>set new. k_runId r = run \<and> k_stepIdx r = i) \<and>
    (\<forall>P w d. (\<forall>r\<in>set new. List.find (\<lambda>x. k_stepIdx x = i) P = Some (rowToCheckpoint r)) \<longrightarrow>
       eval_step E P i sp (at_world st w d) = (None, at_world st1 w d))"
proof (cases "flag E pd_durable sp \<and> \<not> skips E sp (es_bindings st)")
  case False
  show ?thesis
  proof (cases "skips E sp (es_bindings st)")
    case True
    then show ?thesis using s by (intro exI[of _ "[]"]) (auto simp: eval_step_def)
  next
    case no: False
    then have "\<not> flag E pd_durable sp" "pure_call E (ps_call sp)" using False ok by (auto simp: resumable_step_def)
    from pure_step[OF E this s] show ?thesis by (intro exI[of _ "[]"]) simp
  qed
next
  case True
  let ?args = "step_args E sp (es_bindings st)"
  obtain r st2 where d: "dispatch_step E [] i sp ?args st = (r, st2)" by fastforce
  obtain v where v: "r = Done v" "settle_value i sp v = None" "st1 = bind (ps_as sp) v st2"
    using s True ok d
    by (auto simp: eval_step_def resumable_step_def split: call_result.splits if_splits option.splits)
  obtain h where h: "inputs_hash E (ps_call sp) ?args = Some h" and
    f: "invoke_fresh E run i sp h ?args False st = (Done v, st2)"
    using d E True v(1)
    by (auto simp: dispatch_step_def checkpointed_def invokeDurable_def checkpoint_hit_def split: option.splits)
  have "fst (registry_call (ee_registry E) (ps_call sp) ?args (ee_ctx E) (es_bindings st) (es_world st)) = Done v"
    using f by (auto simp: invoke_fresh_def invokePrimitive_def call_primitive_def persist_def Let_def
        split: prod.splits call_result.splits option.splits)
  then have "storable v" using ok True by (auto simp: resumable_step_def)
  then obtain row where row: "es_db st2 = (es_db st)\<lparr>checkpoints := checkpoints (es_db st) @ [row]\<rparr>"
    "k_runId row = run" "k_stepIdx row = i" "k_status row = Completed" "k_inputsHash row = h"
    "k_outputs (rowToCheckpoint row) = v" "es_bindings st2 = es_bindings st" "es_memo st2 = es_memo st"
    using invoke_fresh_Done[OF f] fresh by blast
  have "eval_step E P i sp (at_world st w d) = (None, at_world st1 w d)"
    if p: "List.find (\<lambda>x. k_stepIdx x = i) P = Some (rowToCheckpoint row)" for P w d
  proof -
    have "dispatch_step E P i sp ?args (at_world st w d) = (Done v, at_world st w d)"
      using E True h p row(4-6)
      by (simp add: dispatch_step_def checkpointed_def invokeDurable_def checkpoint_hit_def rowToCheckpoint_def)
    moreover have "at_world st w d = at_world st2 w d" using row(7,8) by (simp add: at_world_def)
    ultimately show ?thesis using True v by (simp add: eval_step_def row(7))
  qed
  then show ?thesis using row v(3) by (intro exI[of _ "[row]"]) simp
qed

lemma eval_steps_append:
  "eval_steps E P i (xs @ ys) st = (case eval_steps E P i xs st of
     (Some r, st1) \<Rightarrow> (Some r, st1) | (None, st1) \<Rightarrow> eval_steps E P (i + length xs) ys st1)"
  by (induction E P i xs st rule: eval_steps.induct) (auto split: prod.split option.split)

lemma walk_prefix:
  assumes "checkpointed E run" and "\<forall>sp\<in>set ss. resumable_step E sp" and "eval_steps E [] i ss st = (None, st1)"
    and "\<forall>r\<in>set (checkpoints (es_db st)). k_runId r = run \<longrightarrow> k_stepIdx r < i"
  shows "\<exists>new. es_db st1 = (es_db st)\<lparr>checkpoints := checkpoints (es_db st) @ new\<rparr> \<and> distinct (map k_stepIdx new) \<and>
    (\<forall>r\<in>set new. k_runId r = run \<and> i \<le> k_stepIdx r \<and> k_stepIdx r < i + length ss) \<and>
    (\<forall>P w d. (\<forall>r\<in>set new. List.find (\<lambda>x. k_stepIdx x = k_stepIdx r) P = Some (rowToCheckpoint r)) \<longrightarrow>
       eval_steps E P i ss (at_world st w d) = (None, at_world st1 w d))"
  using assms
proof (induction ss arbitrary: i st)
  case Nil
  then show ?case by (intro exI[of _ "[]"]) simp
next
  case (Cons sp ss)
  obtain st2 where s: "eval_step E [] i sp st = (None, st2)" "eval_steps E [] (i + 1) ss st2 = (None, st1)"
    using Cons.prems(3) by (auto split: prod.splits option.splits)
  obtain new where new: "es_db st2 = (es_db st)\<lparr>checkpoints := checkpoints (es_db st) @ new\<rparr>" "length new \<le> 1"
    "\<forall>r\<in>set new. k_runId r = run \<and> k_stepIdx r = i"
    "\<And>P w d. (\<forall>r\<in>set new. List.find (\<lambda>x. k_stepIdx x = i) P = Some (rowToCheckpoint r)) \<Longrightarrow>
       eval_step E P i sp (at_world st w d) = (None, at_world st2 w d)"
    using walk_step[OF Cons.prems(1) _ s(1) Cons.prems(4)] Cons.prems(2) by auto
  have "\<forall>r\<in>set (checkpoints (es_db st2)). k_runId r = run \<longrightarrow> k_stepIdx r < i + 1"
    using new(1,3) Cons.prems(4) by auto
  then obtain more where more: "es_db st1 = (es_db st2)\<lparr>checkpoints := checkpoints (es_db st2) @ more\<rparr>"
    "distinct (map k_stepIdx more)"
    "\<forall>r\<in>set more. k_runId r = run \<and> i + 1 \<le> k_stepIdx r \<and> k_stepIdx r < i + 1 + length ss"
    "\<And>P w d. (\<forall>r\<in>set more. List.find (\<lambda>x. k_stepIdx x = k_stepIdx r) P = Some (rowToCheckpoint r)) \<Longrightarrow>
       eval_steps E P (i + 1) ss (at_world st2 w d) = (None, at_world st1 w d)"
    using Cons.IH[OF Cons.prems(1) _ s(2)] Cons.prems(2) by auto
  have "distinct (map k_stepIdx new)" using new(2) by (cases new) auto
  then have "distinct (map k_stepIdx (new @ more))" using new(3) more(2,3) by fastforce
  moreover have "eval_steps E P i (sp # ss) (at_world st w d) = (None, at_world st1 w d)"
    if p: "\<forall>r\<in>set (new @ more). List.find (\<lambda>x. k_stepIdx x = k_stepIdx r) P = Some (rowToCheckpoint r)" for P w d
  proof -
    have "\<forall>r\<in>set new. List.find (\<lambda>x. k_stepIdx x = i) P = Some (rowToCheckpoint r)" using p new(3) by auto
    then show ?thesis using new(4)[of P w d] more(4)[of P w d] p by simp
  qed
  moreover have "\<forall>r\<in>set (new @ more). k_runId r = run \<and> i \<le> k_stepIdx r \<and> k_stepIdx r < i + length (sp # ss)"
    using new(3) more(3) by auto
  moreover have "es_db st1 = (es_db st)\<lparr>checkpoints := checkpoints (es_db st) @ new @ more\<rparr>"
    using new(1) more(1) by simp
  ultimately show ?case by blast
qed

text \<open>Prior rows of other steps play no part.\<close>

lemma eval_steps_prior:
  "(\<And>j. i \<le> j \<Longrightarrow> List.find (\<lambda>x. k_stepIdx x = j) P = None) \<Longrightarrow> eval_steps E P i ss st = eval_steps E [] i ss st"
proof (induction ss arbitrary: i st)
  case (Cons sp ss)
  have "dispatch_step E P i sp a st = dispatch_step E [] i sp a st" for a
    using Cons.prems[of i] by (simp add: dispatch_step_def Let_def split: option.split)
  then have "eval_step E P i sp st = eval_step E [] i sp st" by (simp add: eval_step_def)
  then show ?case using Cons.IH[of "i + 1"] Cons.prems by (auto split: prod.split option.split)
qed simp

lemma find_the_row:
  "r \<in> set rs \<Longrightarrow> distinct (map k_stepIdx rs) \<Longrightarrow> List.find (\<lambda>x. k_stepIdx x = k_stepIdx r) (map rowToCheckpoint rs) = Some (rowToCheckpoint r)"
  by (induction rs) (auto simp: rowToCheckpoint_def image_iff)


section \<open>What resuming needs\<close>

text \<open>A world that counts effects, and three primitives: one has an effect and answers the count, one
  answers its arguments, one has an effect and answers undefined, and one has an effect and fails.\<close>

definition demo_def :: "(val \<Rightarrow> nat \<Rightarrow> call_result \<times> nat) \<Rightarrow> bool \<Rightarrow> (unit, nat) FunctionDef" where
  "demo_def f durable = \<lparr>fd_schema = Inr, fd_execute = (\<lambda>a x B w. f a w), fd_durable = Some durable,
     fd_memoizable = Some False, fd_costEstimateMs = None\<rparr>"

definition demo_registry :: "(unit, nat) registry" where
  "demo_registry = [(''tick'', demo_def (\<lambda>a w. (Done (num_of (w + 1)), w + 1)) True),
     (''same'', demo_def (\<lambda>a w. (Done a, w)) False), (''verdict'', demo_def (\<lambda>a w. (Done a, w)) False),
     (''store'', demo_def (\<lambda>a w. (Done VUndef, w + 1)) True),
     (''fail'', demo_def (\<lambda>a w. (Failed \<lparr>fe_kind = runtime_error, fe_message = ''no''\<rparr>, w + 1)) True)]"

definition demo_eval :: "(unit, nat, MemoryEntry obj) eval_env" where
  "demo_eval = \<lparr>ee_registry = demo_registry, ee_ctx = (), ee_re2 = (\<lambda>p. None),
     ee_show_num = (\<lambda>x. case x of Fin q \<Rightarrow> show_nat (nat \<lfloor>q\<rfloor>) | _ \<Rightarrow> ''NaN''), ee_sha = (\<lambda>v. ''h''), ee_lru = list_lru 1,
     ee_now = int, ee_runId = Some ''r'', ee_memo = False, ee_ttl = (\<lambda>f. None)\<rparr>"

definition demo_start :: "(nat, MemoryEntry obj) eval_state" where
  "demo_start = \<lparr>es_bindings = [], es_world = 0,
     es_db = \<lparr>checkpoints = [], run_manifests = [], terminal_markers = [], task_checkpoints = []\<rparr>,
     es_memo = \<lparr>memory = [], memo_rows = []\<rparr>\<rparr>"

definition demo_step :: "string \<Rightarrow> string \<Rightarrow> ProcessStep" where
  "demo_step fn x = \<lparr>ps_call = fn, ps_args = None, ps_as = Some x, ps_if = None, ps_on_empty = None, ps_on_error = None\<rparr>"

definition demo_verdict :: "string \<Rightarrow> ProcessStep" where
  "demo_verdict text = (demo_step ''verdict'' ''v'')\<lparr>ps_args := Some [(''level'', VStr ''block''), (''message'', VStr text)]\<rparr>"

definition demo_process :: "ProcessStep list" where
  "demo_process = [demo_step ''tick'' ''a'', demo_step ''tick'' ''b'', demo_verdict ''{{a}} then {{ b }}'']"

lemma flag_demo: "flag demo_eval pd_durable sp \<longleftrightarrow> ps_call sp \<in> {''tick'', ''store'', ''fail''}"
  by (auto simp: flag_def durability_def demo_eval_def demo_registry_def demo_def_def)

lemma resumable_demo:
  assumes "sp \<in> set demo_process"
  shows "resumable_step demo_eval sp"
proof -
  have "ps_call sp = ''tick'' \<and> ps_on_error sp = None \<or> ps_call sp = ''verdict''"
    using assms by (auto simp: demo_process_def demo_verdict_def demo_step_def)
  then show ?thesis
    unfolding resumable_step_def flag_demo pure_call_def
    by (auto simp: registry_call_def demo_eval_def demo_registry_def demo_def_def num_of_def)
qed


text \<open>
  What checkpoints do not cover. A checkpointed step whose value is undefined makes the evaluation
  throw after its effect, and the step is run again when the process is resumed; a checkpointed step
  that fails and is continued is run again as well.
\<close>

theorem resume_repeats_effects:
  "(let first = evaluateProcess demo_eval [demo_step ''store'' ''a''] demo_start;
       again = evaluateProcess demo_eval [demo_step ''store'' ''a''] (at_world demo_start (es_world (snd first)) (es_db (snd first)))
   in fst first = Inl ''checkpoint'' \<and> checkpoints (es_db (snd first)) = [] \<and> es_world (snd first) = 1 \<and> es_world (snd again) = 2) \<and>
   (let sp = (demo_step ''fail'' ''a'')\<lparr>ps_on_error := Some ErrorContinue\<rparr>;
       first = evaluateProcess demo_eval [sp] demo_start;
       again = evaluateProcess demo_eval [sp] (at_world demo_start (es_world (snd first)) (es_db (snd first)))
   in fst first = Inr no_verdict \<and> length (checkpoints (es_db (snd first))) = 1 \<and> es_world (snd first) = 1 \<and> es_world (snd again) = 2)"
  by code_simp

text \<open>A process whose first step depends on a later binding being absent.\<close>

definition hydrated_process :: "ProcessStep list" where
  "hydrated_process = [(demo_step ''same'' ''first'')\<lparr>ps_args := Some [(''k'', VNum (Fin 1))], ps_if := Some ''!ready''\<rparr>,
     demo_step ''tick'' ''ready'', (demo_verdict ''first is missing'')\<lparr>ps_if := Some ''!first''\<rparr>]"

text \<open>
  Restoring the bindings first is not resuming. When the bindings of the checkpoints are loaded
  before the process is evaluated again, as the module asks its caller to do, an earlier condition sees
  a later binding: a process that ends without a verdict, interrupted before its last step, blocks when
  it is resumed that way.
\<close>

theorem hydrated_resume_diverges:
  "let crash = snd (eval_steps demo_eval [] 0 (take 2 hydrated_process) demo_start);
       resumed = at_world demo_start (es_world crash) (es_db crash)
   in fst (evaluateProcess demo_eval hydrated_process demo_start) = Inr no_verdict \<and>
      fst (evaluateProcess demo_eval hydrated_process resumed) = Inr no_verdict \<and>
      fst (evaluateProcess demo_eval hydrated_process (resumed\<lparr>es_bindings := loadBindings ''r'' (es_db crash)\<rparr>)) =
        Inr (verdict_result (VObj 0 [(''level'', VStr ''block''), (''message'', VStr ''first is missing'')]))"
  by code_simp

end
