(* ===== verification/Skills.thy ===== *)
theory Skills
  imports Evaluator PackV2 Bus
begin

text \<open>
  What decides whether a skill runs on an event: events and triggers (\<open>src/src/runtime/event.ts\<close>), load
  matchers (\<open>load_matchers.ts\<close>), unload conditions and their ticks (\<open>unload_conditions.ts\<close>,
  \<open>tick.ts\<close>, \<open>session_state.ts\<close>), preconditions (\<open>skill_requires.ts\<close>), pinned skills
  (\<open>pinned_skills.ts\<close>), lenses (\<open>packs/skill_serves.ts\<close>, \<open>packs/taxonomy.ts\<close>) and profession
  directives (\<open>hooks/profession_resolver.ts\<close>).

  The regular expressions of the language and the glob matcher are arguments; the cache of compiled
  expressions is left out, since an expression without flags keeps no state.
\<close>

section \<open>Events and triggers\<close>

type_synonym EventKind = MessageKind

datatype Event =
    ToolCallEvent string "val obj" "string option"
  | PostToolCallEvent string "val obj" int "string option" "string option" "string option" "jsnum option"
  | PromptSubmitEvent string "string option" "string option" "val option"
  | SessionEndEvent string
  | StopEvent string
  | SessionStartEvent string "string option" "string option"
  | ScheduleEvent string string "val obj"
  | WebhookEvent string string "string obj" val string
  | InboundChannelEvent string string string "string option" string
  | FileChangedEvent string string string

fun kind_of :: "Event \<Rightarrow> EventKind" where
  "kind_of (ToolCallEvent _ _ _) = tool_call"
| "kind_of (PostToolCallEvent _ _ _ _ _ _ _) = post_tool_call"
| "kind_of (PromptSubmitEvent _ _ _ _) = prompt_submit"
| "kind_of (SessionEndEvent _) = session_end"
| "kind_of (StopEvent _) = stop"
| "kind_of (SessionStartEvent _ _ _) = session_start"
| "kind_of (ScheduleEvent _ _ _) = schedule"
| "kind_of (WebhookEvent _ _ _ _ _) = webhook"
| "kind_of (InboundChannelEvent _ _ _ _ _) = inbound_channel"
| "kind_of (FileChangedEvent _ _ _) = file_changed"

fun event_cwd :: "Event \<Rightarrow> string option" where
  "event_cwd (ToolCallEvent t a c) = c"
| "event_cwd (PostToolCallEvent t a x o1 e c d) = c"
| "event_cwd (SessionStartEvent src s c) = c"
| "event_cwd _ = None"

definition EVENT_KINDS :: "(string \<times> EventKind) list" where
  "EVENT_KINDS = [(''tool_call'', tool_call), (''post_tool_call'', post_tool_call), (''prompt_submit'', prompt_submit),
     (''session_end'', session_end), (''stop'', stop), (''session_start'', session_start), (''schedule'', schedule),
     (''webhook'', webhook), (''inbound_channel'', inbound_channel), (''file_changed'', file_changed)]"

definition kind_name :: "EventKind \<Rightarrow> string" where
  "kind_name k = (case map_of (map (\<lambda>(s, c). (c, s)) EVENT_KINDS) k of Some s \<Rightarrow> s | None \<Rightarrow> [])"

datatype Trigger =
    HostTrigger EventKind
  | ScheduleTrigger "string option" "string option"
  | WebhookTrigger "string option" "string option"
  | InboundTrigger "string option" "string option" "string option"
  | FileChangedTrigger "string list option" "string list option" "string option"

fun trigger_kind :: "Trigger \<Rightarrow> EventKind" where
  "trigger_kind (HostTrigger k) = k"
| "trigger_kind (ScheduleTrigger c t) = schedule"
| "trigger_kind (WebhookTrigger p t) = webhook"
| "trigger_kind (InboundTrigger c s t) = inbound_channel"
| "trigger_kind (FileChangedTrigger ps is t) = file_changed"

definition defaultTriggers :: "Trigger list" where
  "defaultTriggers = [HostTrigger tool_call]"

section \<open>Load matchers\<close>

text \<open>\<open>new RegExp(p)\<close>: the test it performs, or \<^const>\<open>None\<close> for a pattern that does not compile.\<close>

type_synonym js_regexp = "string \<Rightarrow> (string \<Rightarrow> bool) option"

datatype Matcher = ToolMatch string | CommandPattern string | FileGlob string | EventTypeMatch EventKind

definition SHORTHAND_KEYS :: "string obj" where
  "SHORTHAND_KEYS = [(''tool_match'', ''tool''), (''command_pattern'', ''pattern''), (''file_glob'', ''glob''), (''event_type'', ''type'')]"

definition normalizeMatcher :: "val \<Rightarrow> val" where
  "normalizeMatcher raw = (case raw of
     VObj i [(k, VStr v)] \<Rightarrow> (case map_of SHORTHAND_KEYS k of
         Some fname \<Rightarrow> VObj 0 [(''kind'', VStr k), (fname, VStr v)]
       | None \<Rightarrow> raw)
   | _ \<Rightarrow> raw)"

definition nonempty_string :: "val obj \<Rightarrow> string \<Rightarrow> string option" where
  "nonempty_string kvs k = (case map_of kvs k of Some (VStr s) \<Rightarrow> if s = [] then None else Some s | _ \<Rightarrow> None)"

text \<open>The schema of a matcher, with the shorthand pass before it.\<close>

definition parse_matcher :: "val \<Rightarrow> Matcher option" where
  "parse_matcher raw = (case normalizeMatcher raw of
     VObj i kvs \<Rightarrow> (case map_of kvs ''kind'' of
         Some (VStr k) \<Rightarrow>
           if k = ''tool_match'' then map_option ToolMatch (nonempty_string kvs ''tool'')
           else if k = ''command_pattern'' then map_option CommandPattern (nonempty_string kvs ''pattern'')
           else if k = ''file_glob'' then map_option FileGlob (nonempty_string kvs ''glob'')
           else if k = ''event_type'' then
             (case map_of kvs ''type'' of Some (VStr t) \<Rightarrow> map_option EventTypeMatch (map_of EVENT_KINDS t) | _ \<Rightarrow> None)
           else None
       | _ \<Rightarrow> None)
   | _ \<Rightarrow> None)"

definition parseWhenToLoad :: "val list \<Rightarrow> Matcher list" where
  "parseWhenToLoad raw = List.map_filter parse_matcher raw"

definition extractFilePath :: "val obj \<Rightarrow> string" where
  "extractFilePath args = (case List.map_filter (nonempty_string args) [''file_path'', ''path'', ''notebook_path''] of
     [] \<Rightarrow> [] | p # ps \<Rightarrow> p)"

definition tool_call_matches :: "js_regexp \<Rightarrow> (string \<Rightarrow> string \<Rightarrow> bool) \<Rightarrow> Matcher \<Rightarrow> string \<Rightarrow> val obj \<Rightarrow> bool" where
  "tool_call_matches re minimatch m tool args = (case m of
     EventTypeMatch k \<Rightarrow> False
   | ToolMatch t \<Rightarrow> toolMatches tool t
   | CommandPattern p \<Rightarrow> (case map_of args ''command'' of
         Some (VStr cmd) \<Rightarrow> (case re p of Some test \<Rightarrow> test cmd | None \<Rightarrow> False)
       | _ \<Rightarrow> False)
   | FileGlob g \<Rightarrow> (let path = extractFilePath args in path \<noteq> [] \<and> minimatch path g))"

definition matcher_hit :: "js_regexp \<Rightarrow> (string \<Rightarrow> string \<Rightarrow> bool) \<Rightarrow> Event \<Rightarrow> Matcher \<Rightarrow> bool" where
  "matcher_hit re minimatch ev m = (case m of
     EventTypeMatch k \<Rightarrow> k = kind_of ev
   | _ \<Rightarrow> (case ev of ToolCallEvent tool args cwd \<Rightarrow> tool_call_matches re minimatch m tool args | _ \<Rightarrow> False))"

definition matchesEvent :: "js_regexp \<Rightarrow> (string \<Rightarrow> string \<Rightarrow> bool) \<Rightarrow> Matcher list \<Rightarrow> Event \<Rightarrow> bool" where
  "matchesEvent re minimatch ms ev = list_ex (matcher_hit re minimatch ev) ms"

section \<open>Unload conditions and ticks\<close>

datatype UnloadCondition = ActiveTaskCompletes | SessionEnds | IdleNTurns int

definition normalizeUnloadCondition :: "val \<Rightarrow> val" where
  "normalizeUnloadCondition raw = (case raw of
     VStr s \<Rightarrow> if s \<in> {''active_task_completes'', ''session_ends''} then VObj 0 [(''kind'', VStr s)] else raw
   | VObj i [(k, VNum x)] \<Rightarrow> if k = ''idle_n_turns'' then VObj 0 [(''kind'', VStr k), (''n'', VNum x)] else raw
   | _ \<Rightarrow> raw)"

definition positive_int :: "val option \<Rightarrow> int option" where
  "positive_int v = (case v of Some (VNum (Fin q)) \<Rightarrow> if q = of_int \<lfloor>q\<rfloor> \<and> 0 < q then Some \<lfloor>q\<rfloor> else None | _ \<Rightarrow> None)"

definition parse_unload :: "val \<Rightarrow> UnloadCondition option" where
  "parse_unload raw = (case normalizeUnloadCondition raw of
     VObj i kvs \<Rightarrow> (case map_of kvs ''kind'' of
         Some (VStr k) \<Rightarrow>
           if k = ''active_task_completes'' then Some ActiveTaskCompletes
           else if k = ''session_ends'' then Some SessionEnds
           else if k = ''idle_n_turns'' then map_option IdleNTurns (positive_int (map_of kvs ''n''))
           else None
       | _ \<Rightarrow> None)
   | _ \<Rightarrow> None)"

definition parseUnloadsWhen :: "val list \<Rightarrow> UnloadCondition list" where
  "parseUnloadsWhen raw = List.map_filter parse_unload raw"

record TickState =
  turnsSinceActivation :: int
  taskCompleted :: bool
  sessionEnded :: bool

definition shouldUnload :: "UnloadCondition list \<Rightarrow> TickState \<Rightarrow> bool" where
  "shouldUnload cs t = list_ex (\<lambda>c. case c of
     SessionEnds \<Rightarrow> sessionEnded t | ActiveTaskCompletes \<Rightarrow> taskCompleted t
   | IdleNTurns n \<Rightarrow> n \<le> turnsSinceActivation t) cs"

definition createTick :: TickState where
  "createTick = \<lparr>turnsSinceActivation = 0, taskCompleted = False, sessionEnded = False\<rparr>"

definition advanceTick :: "TickState \<Rightarrow> Event \<Rightarrow> TickState" where
  "advanceTick t ev = (case kind_of ev of
     prompt_submit \<Rightarrow> t\<lparr>turnsSinceActivation := turnsSinceActivation t + 1\<rparr>
   | stop \<Rightarrow> t\<lparr>taskCompleted := True\<rparr>
   | session_end \<Rightarrow> t\<lparr>sessionEnded := True\<rparr>
   | _ \<Rightarrow> t)"

definition resetTick :: TickState where
  "resetTick = createTick"

text \<open>The file of ticks: absent or unreadable, or an object some of whose values may be malformed.\<close>

type_synonym SkillTicks = "TickState obj"
type_synonym ticks_file = "TickState option obj option"

definition readSkillTicks :: "ticks_file \<Rightarrow> SkillTicks" where
  "readSkillTicks f = (case f of None \<Rightarrow> [] | Some kvs \<Rightarrow> List.map_filter (\<lambda>(k, v). map_option (Pair k) v) kvs)"

definition tick_base :: "SkillTicks \<Rightarrow> string list \<Rightarrow> string \<Rightarrow> TickState" where
  "tick_base prev reactivated n = (case map_of prev n of
     None \<Rightarrow> createTick | Some t \<Rightarrow> if n \<in> set reactivated then createTick else t)"

definition advanceSkillTicks :: "ticks_file \<Rightarrow> Event \<Rightarrow> string list \<Rightarrow> string list \<Rightarrow> SkillTicks \<times> ticks_file" where
  "advanceSkillTicks f ev loaded reactivated =
     (let prev = readSkillTicks f;
          next_ticks = fold (\<lambda>n acc. AList.update n (advanceTick (tick_base prev reactivated n) ev) acc) loaded []
      in (next_ticks, Some (map (\<lambda>(k, t). (k, Some t)) next_ticks)))"

section \<open>Preconditions\<close>

datatype SkillRequires = AutomationModeOn | ActiveTaskPresent

text \<open>What \<open>stat\<close> says of a file.\<close>

datatype probe = Present | Enoent | StatError

definition probePresent :: "probe \<Rightarrow> bool" where
  "probePresent p \<longleftrightarrow> p \<noteq> Enoent"

text \<open>The cache of one dispatch, for its session.\<close>

record RequiresCache =
  rc_automation :: "bool option"
  rc_activeTask :: "bool option"

definition new_cache :: RequiresCache where
  "new_cache = \<lparr>rc_automation = None, rc_activeTask = None\<rparr>"

definition automationModeOn :: "probe \<Rightarrow> RequiresCache \<Rightarrow> bool \<times> RequiresCache" where
  "automationModeOn p c = (case rc_automation c of
     Some b \<Rightarrow> (b, c) | None \<Rightarrow> (probePresent p, c\<lparr>rc_automation := Some (probePresent p)\<rparr>))"

definition activeTaskPresent :: "probe \<Rightarrow> RequiresCache \<Rightarrow> bool \<times> RequiresCache" where
  "activeTaskPresent p c = (case rc_activeTask c of
     Some b \<Rightarrow> (b, c) | None \<Rightarrow> (probePresent p, c\<lparr>rc_activeTask := Some (probePresent p)\<rparr>))"

text \<open>The probes of a session: the automation flag and the active task.\<close>

definition require_holds :: "probe \<times> probe \<Rightarrow> SkillRequires \<Rightarrow> RequiresCache \<Rightarrow> bool \<times> RequiresCache" where
  "require_holds ps r c = (case r of
     AutomationModeOn \<Rightarrow> automationModeOn (fst ps) c | ActiveTaskPresent \<Rightarrow> activeTaskPresent (snd ps) c)"

fun skillRequiresHold :: "probe \<times> probe \<Rightarrow> SkillRequires list \<Rightarrow> RequiresCache \<Rightarrow> bool \<times> RequiresCache" where
  "skillRequiresHold ps [] c = (True, c)"
| "skillRequiresHold ps (r # rs) c = (case require_holds ps r c of
     (True, c1) \<Rightarrow> skillRequiresHold ps rs c1 | (False, c1) \<Rightarrow> (False, c1))"

section \<open>Lenses\<close>

datatype NodeTree = NodeTree "(string \<times> NodeTree) list"

definition leaf :: "string \<Rightarrow> string \<times> NodeTree" where
  "leaf n = (n, NodeTree [])"

definition TAXONOMY :: "NodeTree obj" where
  "TAXONOMY =
     [(''domain'', NodeTree
        [(''coding'', NodeTree [leaf ''frontend'', leaf ''backend'', leaf ''testing'']),
         (''content'', NodeTree [leaf ''seo'', leaf ''brand'']),
         leaf ''research'', leaf ''planning'', leaf ''docs'', leaf ''design'', leaf ''ops'',
         (''meta'', NodeTree [leaf ''pack-authoring'', leaf ''scope-authoring'', leaf ''task-authoring''])]),
      (''lang'', NodeTree [leaf ''typescript'', leaf ''python'', leaf ''go'']),
      (''framework'', NodeTree [leaf ''react'', leaf ''vue'', leaf ''node''])]"

definition segments :: "string \<Rightarrow> string list" where
  "segments path = (if path = [] then [] else splitOn (CHR ''.'') path)"

fun is_path :: "NodeTree \<Rightarrow> string list \<Rightarrow> bool" where
  "is_path t [] = True"
| "is_path (NodeTree ch) (s # ss) = (case map_of ch s of None \<Rightarrow> False | Some t \<Rightarrow> is_path t ss)"

definition isNode :: "string \<Rightarrow> string \<Rightarrow> bool" where
  "isNode axis path = (case segments path of
     [] \<Rightarrow> False | n # ns \<Rightarrow> (case map_of TAXONOMY axis of None \<Rightarrow> False | Some t \<Rightarrow> is_path t (n # ns)))"

definition contains :: "string \<Rightarrow> string \<Rightarrow> bool" where
  "contains anc path =
     (let a = segments anc; p = segments path
      in length a \<le> length p \<and> list_all (\<lambda>i. a ! i = p ! i) [0..<length a])"

record Facets =
  f_intent :: string
  f_domain :: "string option"
  f_stakes :: "string option"
  f_project :: bool
  f_confidence :: string

definition facetMap :: "Facets \<Rightarrow> string obj" where
  "facetMap f = (''intent'', f_intent f)
     # (case f_domain f of Some d \<Rightarrow> [(''domain'', d)] | None \<Rightarrow> [])
     @ (case f_stakes f of Some s \<Rightarrow> [(''stakes'', s)] | None \<Rightarrow> [])"

datatype SkillServes = ServesBlock "string obj" | ServesList "string obj list"

definition HIERARCHICAL :: "string list" where
  "HIERARCHICAL = [''domain'', ''lang'', ''framework'']"

definition facet_ok :: "string obj \<Rightarrow> string \<times> string \<Rightarrow> bool" where
  "facet_ok fm kv = (case kv of (k, v) \<Rightarrow> (case map_of fm k of
     None \<Rightarrow> True | Some turn \<Rightarrow> if k \<in> set HIERARCHICAL then contains v turn else turn = v))"

definition blockMatches :: "string obj \<Rightarrow> string obj \<Rightarrow> bool" where
  "blockMatches b fm = list_all (facet_ok fm) b"

definition blocks_of :: "SkillServes \<Rightarrow> string obj list" where
  "blocks_of s = (case s of ServesBlock b \<Rightarrow> [b] | ServesList bs \<Rightarrow> bs)"

definition skillServesMatches :: "SkillServes \<Rightarrow> Facets \<Rightarrow> bool" where
  "skillServesMatches s f = list_ex (\<lambda>b. blockMatches b (facetMap f)) (blocks_of s)"

definition skillServesDomainMatches :: "SkillServes \<Rightarrow> string \<Rightarrow> bool" where
  "skillServesDomainMatches s d = list_ex (\<lambda>b. case map_of b ''domain'' of None \<Rightarrow> True | Some dm \<Rightarrow> contains dm d) (blocks_of s)"

section \<open>Rules, skills and packs\<close>

datatype Rule = TrackCheckRule string "SkillRequires list" "ProcessStep list"
  | DestinationCheckRule string int string string

datatype LoadMode = preload | lazy

record Skill =
  sk_name :: string
  sk_load :: LoadMode
  sk_when_to_load :: "val list"
  sk_requires :: "SkillRequires list"
  sk_unloads_when :: "val list"
  sk_triggers :: "Trigger list"
  sk_serves :: "SkillServes option"
  sk_rules :: "Rule list"
  sk_prose :: "string option"

datatype DriftPolicy = block_tool | warn_policy | full_stop_and_redo | notify_and_pause | auto_correct
  | escalate | unknown_policy string

record DriftResponseConfig =
  dr_default :: DriftPolicy
  dr_per_rule :: "DriftPolicy obj"
  dr_corrective_skills :: "string obj"

datatype ActivationScope = scope_project | scope_user | scope_hybrid | scope_team | scope_global
datatype PackUsage = usage_active | usage_profession | usage_both

record SubagentRole =
  role_name :: string
  role_pack :: string
  role_model_alias :: "string option"
  role_tools :: "string list option"
  role_handoff_signal :: "string option"
  role_instructions :: "string option"

record Team =
  team_name :: string
  team_roles :: "SubagentRole list"

text \<open>Of a pack, what the dispatcher reads.\<close>

record Pack =
  pk_name :: string
  pk_scope :: PackScope
  pk_skills :: "Skill list"
  pk_models :: "val option"
  pk_driftResponse :: "DriftResponseConfig option"
  pk_activationScope :: "ActivationScope option"
  pk_usage :: "PackUsage option"
  pk_team :: "Team option"
  pk_fsm :: "Fsm option"
  pk_procedure :: "string option"

definition is_pinned :: "Pack \<Rightarrow> Skill \<Rightarrow> bool" where
  "is_pinned p s \<longleftrightarrow> pk_scope p = universal \<and> sk_load s = preload"

record SkillSet =
  ss_pinned :: "(Pack \<times> Skill) list"
  ss_dynamic :: "(Pack \<times> Skill) list"

definition all_skills :: "Pack list \<Rightarrow> (Pack \<times> Skill) list" where
  "all_skills packs = concat (map (\<lambda>p. map (Pair p) (pk_skills p)) packs)"

definition partitionSkills :: "Pack list \<Rightarrow> SkillSet" where
  "partitionSkills packs = \<lparr>ss_pinned = filter (\<lambda>(p, s). is_pinned p s) (all_skills packs),
     ss_dynamic = filter (\<lambda>(p, s). \<not> is_pinned p s) (all_skills packs)\<rparr>"

section \<open>How lenses gate\<close>

lemma contains_take: "contains a p \<longleftrightarrow> take (length (segments a)) (segments p) = segments a"
proof -
  have "(length xs \<le> length ys \<and> (\<forall>i<length xs. xs ! i = ys ! i)) \<longleftrightarrow> take (length xs) ys = xs" for xs ys :: "string list"
  proof
    assume "length xs \<le> length ys \<and> (\<forall>i<length xs. xs ! i = ys ! i)"
    then show "take (length xs) ys = xs" by (intro nth_equalityI) auto
  next
    assume t: "take (length xs) ys = xs"
    then have "length xs \<le> length ys" by (metis length_take min.cobounded1)
    moreover have "xs ! i = ys ! i" if "i < length xs" for i using t that by (metis nth_take)
    ultimately show "length xs \<le> length ys \<and> (\<forall>i<length xs. xs ! i = ys ! i)" by blast
  qed
  from this[of "segments a" "segments p"] show ?thesis
    by (simp only: contains_def Let_def list_all_iff set_upt atLeast0LessThan lessThan_iff Ball_def)
qed

lemma segments_deeper: "p \<noteq> [] \<Longrightarrow> segments (p @ CHR ''.'' # sub) = segments p @ splitOn (CHR ''.'') sub"
  by (simp add: segments_def splitOn_append)

lemma contains_deeper: "contains a p \<Longrightarrow> contains a (p @ CHR ''.'' # sub)"
proof (cases "p = []")
  case True
  assume "contains a p"
  then show ?thesis using True by (simp add: contains_take segments_def[of "[]"])
next
  case False
  assume "contains a p"
  then have t: "take (length (segments a)) (segments p) = segments a" by (simp add: contains_take)
  then have "length (segments a) \<le> length (segments p)" by (metis length_take min.cobounded1)
  then show ?thesis using t by (simp add: contains_take segments_deeper False)
qed

lemma facet_deeper:
  "f_domain f = Some d \<Longrightarrow> facet_ok (facetMap f) kv \<Longrightarrow> facet_ok (facetMap (f\<lparr>f_domain := Some (d @ CHR ''.'' # sub)\<rparr>)) kv"
  by (cases kv) (auto simp: facet_ok_def facetMap_def HIERARCHICAL_def contains_deeper split: option.splits if_splits)

lemma facet_unknown: "facet_ok (facetMap f) kv \<Longrightarrow> facet_ok (facetMap (f\<lparr>f_domain := None\<rparr>)) kv"
  by (cases kv) (auto simp: facet_ok_def facetMap_def split: option.splits if_splits)

lemma skillServes_mono:
  assumes "\<And>kv. facet_ok (facetMap f) kv \<Longrightarrow> facet_ok (facetMap g) kv" and "skillServesMatches s f"
  shows "skillServesMatches s g"
  using assms unfolding skillServesMatches_def blockMatches_def list_ex_iff list_all_iff by blast

definition classified_axis :: "string \<times> string \<Rightarrow> bool" where
  "classified_axis kv \<longleftrightarrow> fst kv \<in> {''intent'', ''domain'', ''stakes''}"

lemma facet_unclassified: "\<not> classified_axis kv \<Longrightarrow> facet_ok (facetMap g) kv"
  by (cases kv) (auto simp: facet_ok_def facetMap_def classified_axis_def split: option.split)

lemma unclassified_ignored: "blockMatches b (facetMap g) = blockMatches (filter classified_axis b) (facetMap g)"
  unfolding blockMatches_def list_all_iff set_filter using facet_unclassified by blast

text \<open>
  Lenses fail open. A lens that is open for a turn stays open when the turn's domain is refined, and
  when it is not known; and whatever a lens demands of an axis that turns are not classified by, such as a
  language or a framework, is ignored.
\<close>

theorem lens_fails_open:
  assumes "skillServesMatches s f" and "f_domain f = Some d"
  shows "skillServesMatches s (f\<lparr>f_domain := Some (d @ CHR ''.'' # sub)\<rparr>) \<and> skillServesMatches s (f\<lparr>f_domain := None\<rparr>) \<and>
    skillServesMatches (ServesBlock b) g = skillServesMatches (ServesBlock (filter classified_axis b)) g"
proof (intro conjI)
  show "skillServesMatches s (f\<lparr>f_domain := Some (d @ CHR ''.'' # sub)\<rparr>)"
    by (rule skillServes_mono[OF facet_deeper[OF assms(2)] assms(1)])
  show "skillServesMatches s (f\<lparr>f_domain := None\<rparr>)" by (rule skillServes_mono[OF facet_unknown assms(1)])
  show "skillServesMatches (ServesBlock b) g = skillServesMatches (ServesBlock (filter classified_axis b)) g"
    by (simp add: skillServesMatches_def blocks_of_def unclassified_ignored[of b])
qed

theorem lens_fails_open_witness:
  "let f = \<lparr>f_intent = ''produce'', f_domain = Some ''coding'', f_stakes = None, f_project = True, f_confidence = ''high''\<rparr>;
       lens = ServesBlock [(''domain'', ''coding''), (''lang'', ''python'')]
   in skillServesMatches lens (f\<lparr>f_domain := Some ''coding.frontend''\<rparr>) \<and> skillServesMatches lens (f\<lparr>f_domain := None\<rparr>) \<and>
      \<not> skillServesMatches lens (f\<lparr>f_domain := Some ''docs''\<rparr>)"
proof -
  let ?f = "\<lparr>f_intent = ''produce'', f_domain = Some ''coding'', f_stakes = None, f_project = True, f_confidence = ''high''\<rparr>"
  let ?lens = "ServesBlock [(''domain'', ''coding''), (''lang'', ''python'')]"
  have "skillServesMatches ?lens ?f" "\<not> skillServesMatches ?lens (?f\<lparr>f_domain := Some ''docs''\<rparr>)" by code_simp+
  with lens_fails_open[of ?lens ?f "''coding''" "''frontend''" "[]" ?f] show ?thesis by (simp add: Let_def)
qed

end
