(* ===== verification/Dispatch.thy ===== *)
theory Dispatch
  imports Skills
begin

text \<open>
  The hook dispatcher: from an event and the loaded packs to the answer of the hook
  (\<open>src/src/runtime/hooks/dispatch.ts\<close>), with the drift policies (\<open>runtime/drift_response.ts\<close>), the
  profession directives (\<open>runtime/hooks/profession_resolver.ts\<close>) and the \<open>verdict\<close> primitive
  (\<open>functions/verdict.ts\<close>).

  Standard error is UTF-8. Rules run in the process evaluator, in a world that holds the files of the
  session; what the dispatcher reads of them is read off the world by arguments, so a rule that changes a
  file is seen by the rules after it, except through the cache of preconditions.
\<close>

section \<open>Drift policies\<close>

datatype severity = severity_error | severity_critical

datatype RuntimeAction = ActBlockTool string | ActWarn string | ActHalt string | ActNotifyPause string severity
  | ActAutoCorrect string val | ActEscalate severity val

definition quoted :: "string \<Rightarrow> string" where
  "quoted s = DQUOTE # s @ [DQUOTE]"

definition em_dash :: string where
  "em_dash = [CHR 0xE2, CHR 0x80, CHR 0x94]"

definition level_of :: "val \<Rightarrow> string" where
  "level_of v = (case get_property v ''level'' of VStr s \<Rightarrow> s | _ \<Rightarrow> [])"

definition message_of :: "val \<Rightarrow> string" where
  "message_of v = (case get_property v ''message'' of VStr s \<Rightarrow> s | _ \<Rightarrow> [])"

definition ruleId_of :: "val \<Rightarrow> string option" where
  "ruleId_of v = (case get_property v ''ruleId'' of VStr s \<Rightarrow> Some s | _ \<Rightarrow> None)"

definition defaultPolicyForLevel :: "string \<Rightarrow> DriftPolicy" where
  "defaultPolicyForLevel level = (if level = ''block'' then block_tool else warn_policy)"

definition correct_automatically :: "val \<Rightarrow> string obj option \<Rightarrow> RuntimeAction" where
  "correct_automatically v skills = (case ruleId_of v of
     None \<Rightarrow> ActNotifyPause ''auto_correct policy requires a verdict with `ruleId`; none provided'' severity_critical
   | Some r \<Rightarrow> (case Option.bind skills (\<lambda>m. map_of m r) of
       Some (c # cs) \<Rightarrow> ActAutoCorrect (c # cs) v
     | _ \<Rightarrow> ActNotifyPause (''auto_correct policy for rule '' @ quoted r @ '' missing entry in corrective_skills'') severity_critical))"

definition applyDriftResponse :: "val \<Rightarrow> DriftPolicy \<Rightarrow> string obj option \<Rightarrow> RuntimeAction" where
  "applyDriftResponse v policy skills = (case policy of
     block_tool \<Rightarrow> ActBlockTool (message_of v)
   | warn_policy \<Rightarrow> ActWarn (message_of v)
   | full_stop_and_redo \<Rightarrow> ActHalt (message_of v)
   | notify_and_pause \<Rightarrow> ActNotifyPause (message_of v) severity_error
   | auto_correct \<Rightarrow> correct_automatically v skills
   | escalate \<Rightarrow> ActEscalate severity_critical v
   | unknown_policy p \<Rightarrow> ActNotifyPause (''Unknown policy '' @ quoted p) severity_critical)"

section \<open>The verdict primitive\<close>

definition nonempty_or_absent :: "val obj \<Rightarrow> string \<Rightarrow> bool" where
  "nonempty_or_absent kvs k \<longleftrightarrow> (case map_of kvs k of
     None \<Rightarrow> True | Some VUndef \<Rightarrow> True | Some (VStr s) \<Rightarrow> s \<noteq> [] | _ \<Rightarrow> False)"

definition defined_in :: "val obj \<Rightarrow> string \<Rightarrow> bool" where
  "defined_in kvs k \<longleftrightarrow> map_of kvs k \<noteq> None \<and> map_of kvs k \<noteq> Some VUndef"

definition pick_fields :: "string list \<Rightarrow> val obj \<Rightarrow> val obj" where
  "pick_fields ks kvs = List.map_filter (\<lambda>k. map_option (Pair k) (map_of kvs k)) ks"

text \<open>\<open>NextAction\<close>: a strict object that names a skill, a tool or a profession, exactly one of them.\<close>

definition NextAction :: "val \<Rightarrow> val option" where
  "NextAction v = (case v of
     VObj i kvs \<Rightarrow>
       if set (keys kvs) \<subseteq> {''skill'', ''tool'', ''profession'', ''args'', ''rationale''}
          \<and> list_all (nonempty_or_absent kvs) [''skill'', ''tool'', ''profession'']
          \<and> (case map_of kvs ''args'' of None \<Rightarrow> True | Some VUndef \<Rightarrow> True | Some (VObj j a) \<Rightarrow> True | _ \<Rightarrow> False)
          \<and> nonempty_string kvs ''rationale'' \<noteq> None
          \<and> length (filter (defined_in kvs) [''skill'', ''tool'', ''profession'']) = 1
       then Some (VObj 0 (pick_fields [''skill'', ''tool'', ''profession'', ''args'', ''rationale''] kvs)) else None
   | _ \<Rightarrow> None)"

definition VerdictArgs :: "string \<Rightarrow> val \<Rightarrow> string + val" where
  "VerdictArgs issues v = (case v of
     VObj i kvs \<Rightarrow> (case map_of kvs ''level'' of
         Some (VStr l) \<Rightarrow>
           if l \<in> {''pass'', ''block'', ''warn'', ''surface''}
           then (case map_of kvs ''message'' of
               Some (VStr m) \<Rightarrow> if set (keys kvs) \<subseteq> {''level'', ''message''}
                 then Inr (VObj 0 [(''level'', VStr l), (''message'', VStr m)]) else Inl issues
             | _ \<Rightarrow> Inl issues)
           else if l = ''directive''
           then (case Option.bind (map_of kvs ''next_action'') NextAction of
               Some a \<Rightarrow> if set (keys kvs) \<subseteq> {''level'', ''next_action''}
                 then Inr (VObj 0 [(''level'', VStr l), (''next_action'', a)]) else Inl issues
             | None \<Rightarrow> Inl issues)
           else Inl issues
       | _ \<Rightarrow> Inl issues)
   | _ \<Rightarrow> Inl issues)"

text \<open>The cost estimate of a tenth of a millisecond is not kept.\<close>

definition verdict_primitive :: "string \<Rightarrow> ('x, 'w) FunctionDef" where
  "verdict_primitive issues = \<lparr>fd_schema = VerdictArgs issues, fd_execute = (\<lambda>a x B w. (Done a, w)),
     fd_durable = Some False, fd_memoizable = Some False, fd_costEstimateMs = None\<rparr>"

section \<open>Profession directives\<close>

datatype ProfessionResolutionError = unknown_pack string | wrong_usage string PackUsage | missing_team string
  | no_roles string | role_not_found string string

definition profession_of :: "val \<Rightarrow> string option" where
  "profession_of na = (case get_property na ''profession'' of VStr s \<Rightarrow> Some s | _ \<Rightarrow> None)"

definition requested_role :: "val \<Rightarrow> string option" where
  "requested_role na = (case get_property (get_property na ''args'') ''role'' of VStr s \<Rightarrow> Some s | _ \<Rightarrow> None)"

definition find_role :: "string \<Rightarrow> val \<Rightarrow> Team \<Rightarrow> ProfessionResolutionError + SubagentRole" where
  "find_role packName na team = (case team_roles team of
     [] \<Rightarrow> Inl (no_roles packName)
   | r # rs \<Rightarrow> (case requested_role na of
       None \<Rightarrow> Inr r
     | Some name \<Rightarrow> (case List.find (\<lambda>x. role_name x = name) (team_roles team) of
         None \<Rightarrow> Inl (role_not_found packName name) | Some x \<Rightarrow> Inr x)))"

definition resolveProfessionDirective ::
  "val \<Rightarrow> Pack list \<Rightarrow> Team obj \<Rightarrow> ProfessionResolutionError + (Pack \<times> Team \<times> SubagentRole)" where
  "resolveProfessionDirective na packs teams = (case profession_of na of
     None \<Rightarrow> Inl (unknown_pack ''<undefined>'')
   | Some packName \<Rightarrow> (case List.find (\<lambda>p. pk_name p = packName) packs of
       None \<Rightarrow> Inl (unknown_pack packName)
     | Some p \<Rightarrow> (let usage = (case pk_usage p of None \<Rightarrow> usage_active | Some u \<Rightarrow> u) in
         if usage = usage_active then Inl (wrong_usage packName usage)
         else (case map_of teams packName of
           None \<Rightarrow> Inl (missing_team packName)
         | Some team \<Rightarrow> map_sum id (\<lambda>r. (p, team, r)) (find_role packName na team)))))"

definition usage_name :: "PackUsage \<Rightarrow> string" where
  "usage_name u = (case u of usage_active \<Rightarrow> ''active'' | usage_profession \<Rightarrow> ''profession'' | usage_both \<Rightarrow> ''both'')"

definition formatProfessionError :: "ProfessionResolutionError \<Rightarrow> string" where
  "formatProfessionError e = (case e of
     unknown_pack n \<Rightarrow> ''directive references profession '' @ quoted n @ '' but no pack with that name is loaded''
   | wrong_usage n u \<Rightarrow> ''directive references profession '' @ quoted n @ '' but its usage is '' @ quoted (usage_name u)
       @ '' '' @ em_dash @ '' must be '' @ quoted ''profession'' @ '' or '' @ quoted ''both''
   | missing_team n \<Rightarrow> ''directive references profession '' @ quoted n @ '' but the pack has no loadable team.yaml''
   | no_roles n \<Rightarrow> ''directive references profession '' @ quoted n @ '' but its team.yaml declares zero roles''
   | role_not_found n r \<Rightarrow> ''directive references profession '' @ quoted n @ '' + role '' @ quoted r @ '' ''
       @ em_dash @ '' role not found in team.yaml'')"

section \<open>Which skills an event reaches\<close>

record DispatchScopeCtx =
  inProject :: bool
  isUserSession :: bool

definition activationScopeApplies :: "ActivationScope \<Rightarrow> DispatchScopeCtx \<Rightarrow> bool" where
  "activationScopeApplies s c = (case s of
     scope_project \<Rightarrow> inProject c | scope_user \<Rightarrow> isUserSession c
   | scope_hybrid \<Rightarrow> inProject c \<and> isUserSession c | scope_team \<Rightarrow> False | scope_global \<Rightarrow> isUserSession c)"

definition platform_of :: "string \<Rightarrow> string option" where
  "platform_of uri = List.find (\<lambda>p. starts_with uri (p @ ''://'')) [''telegram'', ''slack'', ''discord'']"

definition inboundChannelTriggerMatches :: "js_regexp \<Rightarrow> string option \<Rightarrow> string option \<Rightarrow> string \<Rightarrow> string \<Rightarrow> bool" where
  "inboundChannelTriggerMatches re channel pattern uri sender \<longleftrightarrow>
     (channel \<in> {None, Some []} \<or> platform_of uri = channel) \<and>
     (case pattern of
       None \<Rightarrow> True | Some [] \<Rightarrow> True
     | Some p \<Rightarrow> (case re p of None \<Rightarrow> False | Some test \<Rightarrow> test sender))"

definition channel_filter :: "js_regexp \<Rightarrow> Event \<Rightarrow> Trigger list \<Rightarrow> bool" where
  "channel_filter re ev triggers = (case ev of
     InboundChannelEvent uri sender body thread at_time \<Rightarrow>
       list_ex (\<lambda>t. case t of InboundTrigger c s cost \<Rightarrow> inboundChannelTriggerMatches re c s uri sender | _ \<Rightarrow> False) triggers
   | _ \<Rightarrow> True)"

definition lens_open :: "SkillServes option \<Rightarrow> Facets option \<Rightarrow> string option \<Rightarrow> bool" where
  "lens_open serves facets dmn = (case serves of
     None \<Rightarrow> True
   | Some s \<Rightarrow> (case facets of
       Some f \<Rightarrow> skillServesMatches s f
     | None \<Rightarrow> (case dmn of Some d \<Rightarrow> skillServesDomainMatches s d | None \<Rightarrow> True)))"

definition shouldSkillUnload :: "Skill \<Rightarrow> TickState option \<Rightarrow> bool" where
  "shouldSkillUnload s tick = (case tick of
     None \<Rightarrow> False
   | Some t \<Rightarrow> (let cs = parseUnloadsWhen (sk_unloads_when s) in cs \<noteq> [] \<and> shouldUnload cs t))"

definition reactivated_names :: "js_regexp \<Rightarrow> (string \<Rightarrow> string \<Rightarrow> bool) \<Rightarrow> Event \<Rightarrow> Skill list \<Rightarrow> string list" where
  "reactivated_names re minimatch ev dynamic =
     map sk_name (filter (\<lambda>s. matchesEvent re minimatch (parseWhenToLoad (sk_when_to_load s)) ev) dynamic)"

definition computeUnloadSkips ::
  "js_regexp \<Rightarrow> (string \<Rightarrow> string \<Rightarrow> bool) \<Rightarrow> Event \<Rightarrow> Skill list \<Rightarrow> ticks_file \<Rightarrow> string list \<times> ticks_file" where
  "computeUnloadSkips re minimatch ev dynamic f =
     (case advanceSkillTicks f ev (map sk_name dynamic) (reactivated_names re minimatch ev dynamic) of
       (ticks, f1) \<Rightarrow> (map sk_name (filter (\<lambda>s. shouldSkillUnload s (map_of ticks (sk_name s))) dynamic), f1))"

section \<open>The walk\<close>

record EvalCtx =
  cx_event :: Event
  cx_sessionId :: string
  cx_packId :: string
  cx_packModels :: "val option"
  cx_packFsm :: "Fsm option"
  cx_packProcedure :: "string option"

definition eval_ctx :: "Event \<Rightarrow> string \<Rightarrow> Pack \<Rightarrow> EvalCtx" where
  "eval_ctx ev sid p = \<lparr>cx_event = ev, cx_sessionId = sid, cx_packId = pk_name p, cx_packModels = pk_models p,
     cx_packFsm = pk_fsm p, cx_packProcedure = pk_procedure p\<rparr>"

text \<open>An entry of the project's drift catalog.\<close>

record DriftEvent =
  dv_pack :: string
  dv_ruleId :: string
  dv_level :: string
  dv_message :: string

text \<open>The surroundings of the dispatcher: the registry and engines of the evaluator, and what it reads and
  writes of the session and the project. A read that fails is \<^const>\<open>None\<close>, a write that fails leaves the
  world as it is.\<close>

record ('w, 'c) dispatch_env =
  de_eval :: "(unit, 'w, 'c) eval_env"
  de_registry :: "(EvalCtx, 'w) registry"
  de_regexp :: js_regexp
  de_minimatch :: "string \<Rightarrow> string \<Rightarrow> bool"
  de_probes :: "'w \<Rightarrow> probe \<times> probe"
  de_facets :: "'w \<Rightarrow> Facets option"
  de_domain :: "'w \<Rightarrow> string option \<Rightarrow> string option"
  de_record_drift :: "string option \<Rightarrow> DriftEvent \<Rightarrow> 'w \<Rightarrow> 'w"

text \<open>A rule is evaluated with fresh bindings, without checkpoints and without a memo.\<close>

definition rule_env :: "('w, 'c) dispatch_env \<Rightarrow> Event \<Rightarrow> string \<Rightarrow> Pack \<Rightarrow> (EvalCtx, 'w, 'c) eval_env" where
  "rule_env D ev sid p = \<lparr>ee_registry = de_registry D, ee_ctx = eval_ctx ev sid p, ee_re2 = ee_re2 (de_eval D),
     ee_show_num = ee_show_num (de_eval D), ee_sha = ee_sha (de_eval D), ee_lru = ee_lru (de_eval D),
     ee_now = ee_now (de_eval D), ee_runId = None, ee_memo = False, ee_ttl = (\<lambda>f. None)\<rparr>"

definition fresh_state :: "('w, 'c) dispatch_env \<Rightarrow> 'w \<Rightarrow> ('w, 'c) eval_state" where
  "fresh_state D w = \<lparr>es_bindings = [], es_world = w,
     es_db = \<lparr>checkpoints = [], run_manifests = [], terminal_markers = [], task_checkpoints = []\<rparr>,
     es_memo = \<lparr>memory = lru_empty (ee_lru (de_eval D)), memo_rows = []\<rparr>\<rparr>"

definition run_rule ::
  "('w, 'c) dispatch_env \<Rightarrow> Event \<Rightarrow> string \<Rightarrow> Pack \<Rightarrow> ProcessStep list \<Rightarrow> 'w \<Rightarrow> (string + RuleResult) \<times> 'w" where
  "run_rule D ev sid p steps w = map_prod id es_world (evaluateProcess (rule_env D ev sid p) steps (fresh_state D w))"

record Directive =
  di_next_action :: val
  di_ruleId :: string

record DispatchResult =
  exitCode :: nat
  stderr :: string
  contextInjections :: "string list"
  directives :: "Directive list"

text \<open>What the walk carries: the warnings, the injections, the directives, the number of rules walked, the
  cache of preconditions and the world.\<close>

record 'w walk =
  wk_warnBuf :: string
  wk_injections :: "string list"
  wk_directives :: "Directive list"
  wk_rulesWalked :: nat
  wk_cache :: RequiresCache
  wk_world :: 'w

definition trimEnd :: "string \<Rightarrow> string" where
  "trimEnd s = rev (dropWhile is_space (rev s))"

definition NEWLINE :: char where
  "NEWLINE = CHR 0x0A"

definition appendWarn :: "string \<Rightarrow> string \<Rightarrow> string" where
  "appendWarn err warnBuf =
     (if warnBuf = [] then err else if err = [] then trimEnd warnBuf else err @ NEWLINE # trimEnd warnBuf)"

definition finish :: "nat \<Rightarrow> string \<Rightarrow> 'w walk \<Rightarrow> DispatchResult" where
  "finish code err k = \<lparr>exitCode = code, stderr = appendWarn err (wk_warnBuf k),
     contextInjections = wk_injections k, directives = wk_directives k\<rparr>"

definition rule_place :: "Pack \<Rightarrow> Skill \<Rightarrow> string \<Rightarrow> string" where
  "rule_place p s rid = ''rule '' @ quoted rid @ '' in skill '' @ quoted (sk_name s)"

definition misplaced_injection :: "Event \<Rightarrow> Pack \<Rightarrow> Skill \<Rightarrow> string \<Rightarrow> string" where
  "misplaced_injection ev p s rid = ''[opensquid] WARN: '' @ rule_place p s rid @ '' (pack '' @ quoted (pk_name p)
     @ '') emitted inject_context on event kind '' @ quoted (kind_name (kind_of ev)) @ ''; only '' @ quoted ''prompt_submit''
     @ '' / '' @ quoted ''session_start'' @ '' / '' @ quoted ''tool_call''
     @ '' surface injections (drop). Update the skill's triggers: block.'' @ [NEWLINE]"

definition misplaced_directive :: "Event \<Rightarrow> Pack \<Rightarrow> Skill \<Rightarrow> string \<Rightarrow> string" where
  "misplaced_directive ev p s rid = ''[opensquid] WARN: '' @ rule_place p s rid @ '' (pack '' @ quoted (pk_name p)
     @ '') emitted a directive on event kind '' @ quoted (kind_name (kind_of ev)) @ ''; only '' @ quoted ''prompt_submit''
     @ '' surfaces directives (drop). Update the skill's triggers: block.'' @ [NEWLINE]"

definition invalid_directive :: "ProfessionResolutionError \<Rightarrow> Pack \<Rightarrow> Skill \<Rightarrow> string \<Rightarrow> string" where
  "invalid_directive e p s rid = ''[opensquid] WARN: dropping invalid profession directive '' @ em_dash @ '' ''
     @ formatProfessionError e @ '' ('' @ rule_place p s rid @ '' pack '' @ quoted (pk_name p) @ '')'' @ [NEWLINE]"

definition rule_errored :: "Pack \<Rightarrow> Skill \<Rightarrow> string \<Rightarrow> string \<Rightarrow> nat \<Rightarrow> string" where
  "rule_errored p s rid e i = ''[opensquid] '' @ pk_name p @ ''/'' @ sk_name s @ '' rule '' @ quoted rid @ '' step ''
     @ show_nat i @ '' errored: '' @ e @ '' '' @ em_dash @ '' rule SKIPPED (gate did not enforce)'' @ [NEWLINE]"

text \<open>\<open>new Map\<close> of the teams: a later pack of the same name replaces an earlier one.\<close>

definition teamsByPack :: "Pack list \<Rightarrow> Team obj" where
  "teamsByPack packs = fold (\<lambda>p acc. case pk_team p of None \<Rightarrow> acc | Some t \<Rightarrow> AList.update (pk_name p) t acc) packs []"

definition add_directive :: "Event \<Rightarrow> Pack list \<Rightarrow> Pack \<Rightarrow> Skill \<Rightarrow> string \<Rightarrow> val \<Rightarrow> 'w walk \<Rightarrow> 'w walk" where
  "add_directive ev packs p s rid na k =
     (if kind_of ev \<noteq> prompt_submit then k\<lparr>wk_warnBuf := wk_warnBuf k @ misplaced_directive ev p s rid\<rparr>
      else case (if profession_of na = None then Inr () else map_sum id (\<lambda>x. ()) (resolveProfessionDirective na packs (teamsByPack packs))) of
        Inl e \<Rightarrow> k\<lparr>wk_warnBuf := wk_warnBuf k @ invalid_directive e p s rid\<rparr>
      | Inr u \<Rightarrow> k\<lparr>wk_directives := wk_directives k @ [\<lparr>di_next_action = na, di_ruleId = rid\<rparr>]\<rparr>)"

definition add_injection :: "Event \<Rightarrow> Pack \<Rightarrow> Skill \<Rightarrow> string \<Rightarrow> string \<Rightarrow> 'w walk \<Rightarrow> 'w walk" where
  "add_injection ev p s rid c k =
     (if kind_of ev \<in> {prompt_submit, session_start, tool_call} then k\<lparr>wk_injections := wk_injections k @ [c]\<rparr>
      else k\<lparr>wk_warnBuf := wk_warnBuf k @ misplaced_injection ev p s rid\<rparr>)"

definition drift_event :: "Pack \<Rightarrow> string \<Rightarrow> val \<Rightarrow> DriftEvent" where
  "drift_event p rid v = \<lparr>dv_pack = pk_name p, dv_ruleId = rid, dv_level = level_of v, dv_message = message_of v\<rparr>"

definition record_drift :: "('w, 'c) dispatch_env \<Rightarrow> Event \<Rightarrow> Pack \<Rightarrow> string \<Rightarrow> val \<Rightarrow> 'w walk \<Rightarrow> 'w walk" where
  "record_drift D ev p rid v k = (if level_of v \<in> {''block'', ''warn'', ''surface''}
     then k\<lparr>wk_world := de_record_drift D (event_cwd ev) (drift_event p rid v) (wk_world k)\<rparr> else k)"

definition resolved_policy :: "Pack \<Rightarrow> string \<Rightarrow> val \<Rightarrow> DriftPolicy" where
  "resolved_policy p rid v = (case pk_driftResponse p of
     None \<Rightarrow> defaultPolicyForLevel (level_of v)
   | Some d \<Rightarrow> (case map_of (dr_per_rule d) rid of Some x \<Rightarrow> x | None \<Rightarrow> dr_default d))"

definition drift_action :: "Pack \<Rightarrow> string \<Rightarrow> val \<Rightarrow> RuntimeAction" where
  "drift_action p rid v = applyDriftResponse v (resolved_policy p rid v) (map_option dr_corrective_skills (pk_driftResponse p))"

text \<open>What an action does to the walk: an answer that ends it, or more warnings.\<close>

definition act :: "RuntimeAction \<Rightarrow> 'w walk \<Rightarrow> DispatchResult option \<times> 'w walk" where
  "act a k = (case a of
     ActBlockTool m \<Rightarrow> (Some (finish 2 m k), k)
   | ActWarn m \<Rightarrow> (None, k\<lparr>wk_warnBuf := wk_warnBuf k @ m @ [NEWLINE]\<rparr>)
   | ActHalt m \<Rightarrow> (Some (finish 2 m k), k)
   | ActNotifyPause m sev \<Rightarrow> (None, k\<lparr>wk_warnBuf := wk_warnBuf k @ m @ [NEWLINE]\<rparr>)
   | ActAutoCorrect s v \<Rightarrow> (None, k)
   | ActEscalate sev v \<Rightarrow> (None, k))"

definition take_result ::
  "('w, 'c) dispatch_env \<Rightarrow> Event \<Rightarrow> Pack list \<Rightarrow> Pack \<Rightarrow> Skill \<Rightarrow> string \<Rightarrow> RuleResult \<Rightarrow> 'w walk \<Rightarrow>
   DispatchResult option \<times> 'w walk" where
  "take_result D ev packs p s rid res k = (case res of
     inject_context c \<Rightarrow> (None, add_injection ev p s rid c k)
   | directive_result na \<Rightarrow> (None, add_directive ev packs p s rid na k)
   | error_result e i \<Rightarrow> (None, k\<lparr>wk_warnBuf := wk_warnBuf k @ rule_errored p s rid e i\<rparr>)
   | no_verdict \<Rightarrow> (None, k)
   | verdict_result v \<Rightarrow> act (drift_action p rid v) (record_drift D ev p rid v k))"

text \<open>A throw of the evaluator leaves the dispatcher.\<close>

definition requires_hold :: "('w, 'c) dispatch_env \<Rightarrow> SkillRequires list \<Rightarrow> 'w walk \<Rightarrow> bool \<times> 'w walk" where
  "requires_hold D rs k = (case skillRequiresHold (de_probes D (wk_world k)) rs (wk_cache k) of
     (b, c) \<Rightarrow> (b, k\<lparr>wk_cache := c\<rparr>))"

definition evaluate_rule ::
  "('w, 'c) dispatch_env \<Rightarrow> Event \<Rightarrow> string \<Rightarrow> Pack list \<Rightarrow> Pack \<Rightarrow> Skill \<Rightarrow> string \<Rightarrow> ProcessStep list \<Rightarrow> 'w walk \<Rightarrow>
   (string + DispatchResult) option \<times> 'w walk" where
  "evaluate_rule D ev sid packs p s rid steps k =
     (case run_rule D ev sid p steps (wk_world k) of
       (Inl e, w) \<Rightarrow> (Some (Inl e), k\<lparr>wk_rulesWalked := wk_rulesWalked k + 1, wk_world := w\<rparr>)
     | (Inr res, w) \<Rightarrow> map_prod (map_option Inr) id
         (take_result D ev packs p s rid res (k\<lparr>wk_rulesWalked := wk_rulesWalked k + 1, wk_world := w\<rparr>)))"

definition walk_rule ::
  "('w, 'c) dispatch_env \<Rightarrow> Event \<Rightarrow> string \<Rightarrow> Pack list \<Rightarrow> Pack \<Rightarrow> Skill \<Rightarrow> Rule \<Rightarrow> 'w walk \<Rightarrow>
   (string + DispatchResult) option \<times> 'w walk" where
  "walk_rule D ev sid packs p s r k = (case r of
     DestinationCheckRule rid n alias prompt \<Rightarrow> (None, k)
   | TrackCheckRule rid reqs steps \<Rightarrow> (case requires_hold D reqs k of
       (False, k1) \<Rightarrow> (None, k1) | (True, k1) \<Rightarrow> evaluate_rule D ev sid packs p s rid steps k1))"

text \<open>A loop whose body may return from the whole.\<close>

fun walk_until :: "('a \<Rightarrow> 's \<Rightarrow> 'r option \<times> 's) \<Rightarrow> 'a list \<Rightarrow> 's \<Rightarrow> 'r option \<times> 's" where
  "walk_until f [] k = (None, k)"
| "walk_until f (x # xs) k = (case f x k of (Some r, k1) \<Rightarrow> (Some r, k1) | (None, k1) \<Rightarrow> walk_until f xs k1)"

text \<open>What the dispatcher reads once: the names to skip and the lenses of the turn.\<close>

record gates =
  g_dynamic :: "string list"
  g_skip :: "string list"
  g_facets :: "Facets option"
  g_domain :: "string option"

definition skill_open :: "('w, 'c) dispatch_env \<Rightarrow> Event \<Rightarrow> gates \<Rightarrow> Skill \<Rightarrow> bool" where
  "skill_open D ev G s \<longleftrightarrow>
     \<not> (sk_name s \<in> set (g_dynamic G) \<and> sk_name s \<in> set (g_skip G)) \<and>
     list_ex (\<lambda>t. trigger_kind t = kind_of ev) (sk_triggers s) \<and> channel_filter (de_regexp D) ev (sk_triggers s)"

definition walk_skill ::
  "('w, 'c) dispatch_env \<Rightarrow> Event \<Rightarrow> string \<Rightarrow> Pack list \<Rightarrow> gates \<Rightarrow> Pack \<Rightarrow> Skill \<Rightarrow> 'w walk \<Rightarrow>
   (string + DispatchResult) option \<times> 'w walk" where
  "walk_skill D ev sid packs G p s k =
     (if \<not> skill_open D ev G s then (None, k)
      else case requires_hold D (sk_requires s) k of
        (False, k1) \<Rightarrow> (None, k1)
      | (True, k1) \<Rightarrow>
          if lens_open (sk_serves s) (g_facets G) (g_domain G)
          then walk_until (walk_rule D ev sid packs p s) (sk_rules s) k1 else (None, k1))"

definition pack_scope :: "Pack \<Rightarrow> ActivationScope" where
  "pack_scope p = (case pk_activationScope p of None \<Rightarrow> scope_project | Some s \<Rightarrow> s)"

definition walk_pack ::
  "('w, 'c) dispatch_env \<Rightarrow> Event \<Rightarrow> string \<Rightarrow> DispatchScopeCtx \<Rightarrow> Pack list \<Rightarrow> gates \<Rightarrow> Pack \<Rightarrow> 'w walk \<Rightarrow>
   (string + DispatchResult) option \<times> 'w walk" where
  "walk_pack D ev sid sc packs G p k =
     (if activationScopeApplies (pack_scope p) sc
      then walk_until (walk_skill D ev sid packs G p) (pk_skills p) k else (None, k))"

definition new_walk :: "'w \<Rightarrow> 'w walk" where
  "new_walk w = \<lparr>wk_warnBuf = [], wk_injections = [], wk_directives = [], wk_rulesWalked = 0, wk_cache = new_cache,
     wk_world = w\<rparr>"

definition read_gates :: "('w, 'c) dispatch_env \<Rightarrow> Event \<Rightarrow> Skill list \<Rightarrow> string list \<Rightarrow> 'w \<Rightarrow> gates" where
  "read_gates D ev dynamic skip w = \<lparr>g_dynamic = map sk_name dynamic, g_skip = skip, g_facets = de_facets D w,
     g_domain = (case de_facets D w of None \<Rightarrow> de_domain D w (event_cwd ev) | Some f \<Rightarrow> None)\<rparr>"

text \<open>The answer, or the throw; the file of ticks; the number of rules walked, for the marker; the world.\<close>

definition dispatchEvent ::
  "('w, 'c) dispatch_env \<Rightarrow> Event \<Rightarrow> Pack list \<Rightarrow> string \<Rightarrow> DispatchScopeCtx \<Rightarrow> ticks_file \<Rightarrow> 'w \<Rightarrow>
   (string + DispatchResult) \<times> ticks_file \<times> nat \<times> 'w" where
  "dispatchEvent D ev packs sid sc f w =
     (let dynamic = map snd (ss_dynamic (partitionSkills packs)) in
      case computeUnloadSkips (de_regexp D) (de_minimatch D) ev dynamic f of
        (skip, f1) \<Rightarrow> (case walk_until (walk_pack D ev sid sc packs (read_gates D ev dynamic skip w)) packs (new_walk w) of
           (Some r, k) \<Rightarrow> (r, f1, wk_rulesWalked k, wk_world k)
         | (None, k) \<Rightarrow> (Inr (finish 0 [] k), f1, wk_rulesWalked k, wk_world k)))"

definition dispatchMarker :: "EventKind \<Rightarrow> nat \<Rightarrow> nat \<Rightarrow> string" where
  "dispatchMarker kind rules packs = ''[opensquid-dispatch] event='' @ kind_name kind @ '' rules='' @ show_nat rules
     @ '' packs='' @ show_nat packs @ [NEWLINE]"

section \<open>The answer as a summary of the rules\<close>

text \<open>What the outcome of one rule contributes, by the policy that its pack declares for it.\<close>

datatype contribution = Adds string "string list" "Directive list" | Stops "string + string"

definition verdict_contribution :: "Pack \<Rightarrow> string \<Rightarrow> val \<Rightarrow> contribution" where
  "verdict_contribution p rid v = (case resolved_policy p rid v of
     block_tool \<Rightarrow> Stops (Inr (message_of v))
   | full_stop_and_redo \<Rightarrow> Stops (Inr (message_of v))
   | warn_policy \<Rightarrow> Adds (message_of v @ [NEWLINE]) [] []
   | notify_and_pause \<Rightarrow> Adds (message_of v @ [NEWLINE]) [] []
   | escalate \<Rightarrow> Adds [] [] []
   | unknown_policy x \<Rightarrow> Adds (''Unknown policy '' @ quoted x @ [NEWLINE]) [] []
   | auto_correct \<Rightarrow> (case correct_automatically v (map_option dr_corrective_skills (pk_driftResponse p)) of
       ActNotifyPause m sev \<Rightarrow> Adds (m @ [NEWLINE]) [] [] | _ \<Rightarrow> Adds [] [] []))"

definition directive_contribution :: "Event \<Rightarrow> Pack list \<Rightarrow> Pack \<Rightarrow> Skill \<Rightarrow> string \<Rightarrow> val \<Rightarrow> contribution" where
  "directive_contribution ev packs p s rid na =
     (if kind_of ev \<noteq> prompt_submit then Adds (misplaced_directive ev p s rid) [] []
      else case (profession_of na, resolveProfessionDirective na packs (teamsByPack packs)) of
        (Some x, Inl e) \<Rightarrow> Adds (invalid_directive e p s rid) [] []
      | _ \<Rightarrow> Adds [] [] [\<lparr>di_next_action = na, di_ruleId = rid\<rparr>])"

type_synonym outcome_of_rule = "Pack \<times> Skill \<times> string \<times> (string + RuleResult)"

definition contribution_of :: "Event \<Rightarrow> Pack list \<Rightarrow> outcome_of_rule \<Rightarrow> contribution" where
  "contribution_of ev packs t = (case t of (p, s, rid, out) \<Rightarrow> (case out of
     Inl e \<Rightarrow> Stops (Inl e)
   | Inr (inject_context c) \<Rightarrow>
       if kind_of ev \<in> {prompt_submit, session_start, tool_call} then Adds [] [c] []
       else Adds (misplaced_injection ev p s rid) [] []
   | Inr (directive_result na) \<Rightarrow> directive_contribution ev packs p s rid na
   | Inr (error_result e i) \<Rightarrow> Adds (rule_errored p s rid e i) [] []
   | Inr no_verdict \<Rightarrow> Adds [] [] []
   | Inr (verdict_result v) \<Rightarrow> verdict_contribution p rid v))"

fun adds :: "contribution \<Rightarrow> bool" where
  "adds (Adds t i d) = True"
| "adds (Stops r) = False"

fun added_text :: "contribution \<Rightarrow> string" where
  "added_text (Adds t i d) = t" | "added_text (Stops r) = []"

fun added_injections :: "contribution \<Rightarrow> string list" where
  "added_injections (Adds t i d) = i" | "added_injections (Stops r) = []"

fun added_directives :: "contribution \<Rightarrow> Directive list" where
  "added_directives (Adds t i d) = d" | "added_directives (Stops r) = []"

definition summed_up :: "nat \<Rightarrow> string \<Rightarrow> contribution list \<Rightarrow> DispatchResult" where
  "summed_up code err cs = \<lparr>exitCode = code, stderr = appendWarn err (concat (map added_text cs)),
     contextInjections = concat (map added_injections cs), directives = concat (map added_directives cs)\<rparr>"

text \<open>The answer: the first rule that stops decides, everything before it is added up.\<close>

definition answer :: "contribution list \<Rightarrow> string + DispatchResult" where
  "answer cs = (case dropWhile adds cs of
     Stops (Inl e) # rest \<Rightarrow> Inl e
   | Stops (Inr m) # rest \<Rightarrow> Inr (summed_up 2 m (takeWhile adds cs))
   | _ \<Rightarrow> Inr (summed_up 0 [] cs))"

text \<open>All the rules that an event reaches, evaluated one after the other without stopping.\<close>

type_synonym 'w survey = "outcome_of_rule list \<times> RequiresCache \<times> 'w"

definition drifted :: "('w, 'c) dispatch_env \<Rightarrow> Event \<Rightarrow> Pack \<Rightarrow> string \<Rightarrow> string + RuleResult \<Rightarrow> 'w \<Rightarrow> 'w" where
  "drifted D ev p rid out w = (case out of
     Inr (verdict_result v) \<Rightarrow> if level_of v \<in> {''block'', ''warn'', ''surface''}
       then de_record_drift D (event_cwd ev) (drift_event p rid v) w else w
   | _ \<Rightarrow> w)"

fun survey_rule :: "('w, 'c) dispatch_env \<Rightarrow> Event \<Rightarrow> string \<Rightarrow> Pack \<Rightarrow> Skill \<Rightarrow> Rule \<Rightarrow> 'w survey \<Rightarrow> 'w survey" where
  "survey_rule D ev sid p s (DestinationCheckRule rid n m prompt) t = t"
| "survey_rule D ev sid p s (TrackCheckRule rid reqs steps) (ts, c, w) = (case skillRequiresHold (de_probes D w) reqs c of
     (False, c1) \<Rightarrow> (ts, c1, w)
   | (True, c1) \<Rightarrow> (case run_rule D ev sid p steps w of (out, w1) \<Rightarrow> (ts @ [(p, s, rid, out)], c1, drifted D ev p rid out w1)))"

fun survey_skill :: "('w, 'c) dispatch_env \<Rightarrow> Event \<Rightarrow> string \<Rightarrow> gates \<Rightarrow> Pack \<Rightarrow> Skill \<Rightarrow> 'w survey \<Rightarrow> 'w survey" where
  "survey_skill D ev sid G p s (ts, c, w) =
     (if \<not> skill_open D ev G s then (ts, c, w)
      else case skillRequiresHold (de_probes D w) (sk_requires s) c of
        (b, c1) \<Rightarrow> if b \<and> lens_open (sk_serves s) (g_facets G) (g_domain G)
          then fold (survey_rule D ev sid p s) (sk_rules s) (ts, c1, w) else (ts, c1, w))"

definition survey_pack :: "('w, 'c) dispatch_env \<Rightarrow> Event \<Rightarrow> string \<Rightarrow> DispatchScopeCtx \<Rightarrow> gates \<Rightarrow> Pack \<Rightarrow> 'w survey \<Rightarrow> 'w survey" where
  "survey_pack D ev sid sc G p t =
     (if activationScopeApplies (pack_scope p) sc then fold (survey_skill D ev sid G p) (pk_skills p) t else t)"

definition rule_outcomes ::
  "('w, 'c) dispatch_env \<Rightarrow> Event \<Rightarrow> Pack list \<Rightarrow> string \<Rightarrow> DispatchScopeCtx \<Rightarrow> ticks_file \<Rightarrow> 'w \<Rightarrow> outcome_of_rule list" where
  "rule_outcomes D ev packs sid sc f w =
     (let dynamic = map snd (ss_dynamic (partitionSkills packs));
          skip = fst (computeUnloadSkips (de_regexp D) (de_minimatch D) ev dynamic f)
      in fst (fold (survey_pack D ev sid sc (read_gates D ev dynamic skip w)) packs ([], new_cache, w)))"

text \<open>The walk and the survey, side by side.\<close>

fun in_step :: "(outcome_of_rule \<Rightarrow> contribution) \<Rightarrow> 'w walk \<Rightarrow> 'w survey \<Rightarrow> bool" where
  "in_step C k (ts, c, w) \<longleftrightarrow> list_all (adds \<circ> C) ts \<and> wk_warnBuf k = concat (map (added_text \<circ> C) ts) \<and>
     wk_injections k = concat (map (added_injections \<circ> C) ts) \<and>
     wk_directives k = concat (map (added_directives \<circ> C) ts) \<and>
     wk_rulesWalked k = length ts \<and> wk_cache k = c \<and> wk_world k = w"

definition stopped_at :: "(outcome_of_rule \<Rightarrow> contribution) \<Rightarrow> string + DispatchResult \<Rightarrow> 'w walk \<Rightarrow> 'w survey \<Rightarrow> bool" where
  "stopped_at C r k t \<longleftrightarrow> (\<exists>pre x post y. fst t = pre @ x # post \<and> list_all (adds \<circ> C) pre \<and> C x = Stops y \<and>
     r = map_sum id (\<lambda>m. summed_up 2 m (map C pre)) y \<and> wk_rulesWalked k = length pre + 1)"

definition follows :: "(outcome_of_rule \<Rightarrow> contribution) \<Rightarrow> (string + DispatchResult) option \<times> 'w walk \<Rightarrow> 'w survey \<Rightarrow> bool" where
  "follows C o1 t \<longleftrightarrow> (case o1 of (None, k) \<Rightarrow> in_step C k t | (Some r, k) \<Rightarrow> stopped_at C r k t)"

lemma stopped_grows: "stopped_at C r k t \<Longrightarrow> fst t' = fst t @ ext \<Longrightarrow> stopped_at C r k t'"
  unfolding stopped_at_def by fastforce

definition extending :: "('w survey \<Rightarrow> 'w survey) \<Rightarrow> bool" where
  "extending g \<longleftrightarrow> (\<forall>t. \<exists>ext. fst (g t) = fst t @ ext)"

lemma extending_fold: "(\<And>x. x \<in> set xs \<Longrightarrow> extending (g x)) \<Longrightarrow> extending (fold g xs)"
proof (induction xs)
  case (Cons x xs)
  then have "extending (fold g xs)" "extending (g x)" by auto
  then show ?case unfolding extending_def by (metis append.assoc comp_apply fold_Cons)
qed (simp add: extending_def)

lemma extending_rule: "extending (survey_rule D ev sid p s r)"
  unfolding extending_def
  by (cases r) (auto split: prod.split bool.split)

lemma extending_skill: "extending (survey_skill D ev sid G p s)"
proof -
  have "extending (fold (survey_rule D ev sid p s) (sk_rules s))" by (rule extending_fold) (rule extending_rule)
  then show ?thesis unfolding extending_def by (auto split: prod.split)
qed

lemma extending_pack: "extending (survey_pack D ev sid sc G p)"
proof -
  have "extending (fold (survey_skill D ev sid G p) (pk_skills p))" by (rule extending_fold) (rule extending_skill)
  then show ?thesis by (simp add: extending_def survey_pack_def)
qed

lemma follows_until:
  assumes "\<And>x k t. x \<in> set xs \<Longrightarrow> in_step C k t \<Longrightarrow> follows C (f x k) (g x t)" and "\<And>x. extending (g x)"
    and "in_step C k t"
  shows "follows C (walk_until f xs k) (fold g xs t)"
  using assms(1,3)
proof (induction xs arbitrary: k t)
  case (Cons x xs)
  have x: "follows C (f x k) (g x t)" using Cons.prems by simp
  obtain o1 k1 where f: "f x k = (o1, k1)" by force
  show ?case
  proof (cases o1)
    case None
    then show ?thesis using Cons x f by (simp add: follows_def)
  next
    case (Some r)
    then have "stopped_at C r k1 (g x t)" using x f by (simp add: follows_def)
    moreover obtain ext where "fst (fold g xs (g x t)) = fst (g x t) @ ext"
      using extending_fold[of xs g] assms(2) unfolding extending_def by blast
    ultimately have "stopped_at C r k1 (fold g xs (g x t))" by (rule stopped_grows)
    then show ?thesis using Some f by (simp add: follows_def)
  qed
qed (simp add: follows_def)

lemma in_step_add:
  "in_step C k (ts, c, w) \<Longrightarrow> C x = Adds t i d \<Longrightarrow> wk_warnBuf k1 = wk_warnBuf k @ t \<Longrightarrow>
   wk_injections k1 = wk_injections k @ i \<Longrightarrow> wk_directives k1 = wk_directives k @ d \<Longrightarrow>
   wk_rulesWalked k1 = wk_rulesWalked k + 1 \<Longrightarrow> wk_cache k1 = c1 \<Longrightarrow> wk_world k1 = w1 \<Longrightarrow>
   in_step C k1 (ts @ [x], c1, w1)"
  by simp

lemma stopped_here:
  "in_step C k (ts, c, w) \<Longrightarrow> C x = Stops y \<Longrightarrow> wk_rulesWalked k1 = length ts + 1 \<Longrightarrow>
   r = map_sum id (\<lambda>m. summed_up 2 m (map C ts)) y \<Longrightarrow> stopped_at C r k1 (ts @ [x], c1, w1)"
  unfolding stopped_at_def by (intro exI[of _ ts] exI[of _ x] exI[of _ "[]"] exI[of _ y]) simp

lemma finish_summed:
  "in_step C k (ts, c, w) \<Longrightarrow> wk_warnBuf k1 = wk_warnBuf k \<Longrightarrow> wk_injections k1 = wk_injections k \<Longrightarrow>
   wk_directives k1 = wk_directives k \<Longrightarrow> finish code m k1 = summed_up code m (map C ts)"
  by (simp add: finish_def summed_up_def)

lemma correct_automatically_cases:
  "(\<exists>m sev. correct_automatically v m0 = ActNotifyPause m sev) \<or> (\<exists>x. correct_automatically v m0 = ActAutoCorrect x v)"
  unfolding correct_automatically_def by (auto split: option.split list.split)

lemma follows_result:
  assumes k: "in_step (contribution_of ev packs) k (ts, c, w0)" and k1: "k1 = k\<lparr>wk_rulesWalked := wk_rulesWalked k + 1, wk_world := w1\<rparr>"
  shows "follows (contribution_of ev packs) (map_prod (map_option Inr) id (take_result D ev packs p s rid res k1))
    (ts @ [(p, s, rid, Inr res)], c, drifted D ev p rid (Inr res) w1)"
proof (cases res)
  case no_verdict
  then show ?thesis using k unfolding k1
    by (simp add: follows_def take_result_def contribution_of_def drifted_def)
next
  case (verdict_result v)
  let ?C = "contribution_of ev packs"
  let ?k = "record_drift D ev p rid v k1"
  have w: "wk_world ?k = drifted D ev p rid (Inr res) w1" "wk_warnBuf ?k = wk_warnBuf k" "wk_injections ?k = wk_injections k"
    "wk_directives ?k = wk_directives k" "wk_rulesWalked ?k = length ts + 1" "wk_cache ?k = c"
    using k verdict_result by (auto simp: record_drift_def drifted_def k1)
  have C: "?C (p, s, rid, Inr res) = verdict_contribution p rid v" by (simp add: contribution_of_def verdict_result)
  have t: "take_result D ev packs p s rid res k1 = act (drift_action p rid v) ?k" by (simp add: take_result_def verdict_result)
  have stop: "follows ?C (Some (Inr (finish 2 m ?k)), ?k) (ts @ [(p, s, rid, Inr res)], c, drifted D ev p rid (Inr res) w1)"
    if "verdict_contribution p rid v = Stops (Inr m)" for m
    using stopped_here[OF k, of "(p, s, rid, Inr res)" "Inr m" ?k] finish_summed[OF k, of ?k 2 m] w that C
    by (simp add: follows_def del: in_step.simps)
  have go: "follows ?C (None, ?k\<lparr>wk_warnBuf := wk_warnBuf ?k @ m\<rparr>) (ts @ [(p, s, rid, Inr res)], c, drifted D ev p rid (Inr res) w1)"
    if "verdict_contribution p rid v = Adds m [] []" for m
    using in_step_add[OF k, of "(p, s, rid, Inr res)" m "[]" "[]"] w that C k by (simp add: follows_def del: in_step.simps) simp
  show ?thesis
    unfolding t using stop go go[of "[]"] correct_automatically_cases[of v "map_option dr_corrective_skills (pk_driftResponse p)"]
    by (cases "resolved_policy p rid v") (auto simp: act_def drift_action_def applyDriftResponse_def verdict_contribution_def)
next
  case (directive_result na)
  then show ?thesis using k unfolding k1
    by (auto simp: follows_def take_result_def contribution_of_def drifted_def add_directive_def directive_contribution_def
        split: option.split sum.split)
next
  case (inject_context x)
  then show ?thesis using k unfolding k1
    by (auto simp: follows_def take_result_def contribution_of_def drifted_def add_injection_def)
next
  case (error_result e i)
  then show ?thesis using k unfolding k1
    by (simp add: follows_def take_result_def contribution_of_def drifted_def)
qed

lemma follows_rule:
  assumes "in_step (contribution_of ev packs) k t"
  shows "follows (contribution_of ev packs) (walk_rule D ev sid packs p s r k) (survey_rule D ev sid p s r t)"
proof -
  let ?C = "contribution_of ev packs"
  obtain ts c w where t: "t = (ts, c, w)" by (cases t)
  show ?thesis
  proof (cases r)
    case (DestinationCheckRule rid n m prompt)
    then show ?thesis using assms by (simp add: walk_rule_def follows_def)
  next
    case (TrackCheckRule rid reqs steps)
    obtain b c1 where h: "skillRequiresHold (de_probes D w) reqs c = (b, c1)" by force
    have k: "in_step ?C (k\<lparr>wk_cache := c1\<rparr>) (ts, c1, w)" and kw: "wk_world k = w" "wk_cache k = c"
      using assms t by auto
    obtain out w1 where o1: "run_rule D ev sid p steps w = (out, w1)" by force
    have "follows ?C (evaluate_rule D ev sid packs p s rid steps (k\<lparr>wk_cache := c1\<rparr>))
        (ts @ [(p, s, rid, out)], c1, drifted D ev p rid out w1)"
    proof (cases out)
      case (Inl e)
      then show ?thesis using o1 kw k
        stopped_here[OF k, of "(p, s, rid, Inl e)" "Inl e" "k\<lparr>wk_cache := c1, wk_rulesWalked := wk_rulesWalked k + 1, wk_world := w1\<rparr>"]
        by (simp add: evaluate_rule_def follows_def contribution_of_def)
    next
      case (Inr res)
      then show ?thesis using o1 kw follows_result[OF k refl] by (simp add: evaluate_rule_def)
    qed
    then show ?thesis
      using TrackCheckRule h t kw o1 k by (cases b) (simp_all add: walk_rule_def requires_hold_def follows_def)
  qed
qed

lemma follows_skill:
  assumes "in_step (contribution_of ev packs) k t"
  shows "follows (contribution_of ev packs) (walk_skill D ev sid packs G p s k) (survey_skill D ev sid G p s t)"
proof -
  let ?C = "contribution_of ev packs"
  obtain ts c w where t: "t = (ts, c, w)" by (cases t)
  obtain b c1 where h: "skillRequiresHold (de_probes D w) (sk_requires s) c = (b, c1)" by force
  have k: "in_step ?C (k\<lparr>wk_cache := c1\<rparr>) (ts, c1, w)" and kw: "wk_world k = w" "wk_cache k = c" using assms t by auto
  have "follows ?C (walk_until (walk_rule D ev sid packs p s) (sk_rules s) (k\<lparr>wk_cache := c1\<rparr>))
      (fold (survey_rule D ev sid p s) (sk_rules s) (ts, c1, w))"
    by (rule follows_until[OF follows_rule extending_rule k])
  moreover have "survey_skill D ev sid G p s t = (if \<not> skill_open D ev G s then (ts, c, w)
      else if b \<and> lens_open (sk_serves s) (g_facets G) (g_domain G) then fold (survey_rule D ev sid p s) (sk_rules s) (ts, c1, w)
      else (ts, c1, w))"
    by (simp add: t h)
  moreover have "walk_skill D ev sid packs G p s k = (if \<not> skill_open D ev G s then (None, k)
      else if b \<and> lens_open (sk_serves s) (g_facets G) (g_domain G)
      then walk_until (walk_rule D ev sid packs p s) (sk_rules s) (k\<lparr>wk_cache := c1\<rparr>) else (None, k\<lparr>wk_cache := c1\<rparr>))"
    by (cases b) (simp_all add: walk_skill_def requires_hold_def kw h)
  moreover have "follows ?C (None, k) (ts, c, w)" "follows ?C (None, k\<lparr>wk_cache := c1\<rparr>) (ts, c1, w)"
    using assms k t by (simp_all add: follows_def del: in_step.simps)
  ultimately show ?thesis by simp
qed

lemma follows_pack:
  "in_step (contribution_of ev packs) k t \<Longrightarrow>
   follows (contribution_of ev packs) (walk_pack D ev sid sc packs G p k) (survey_pack D ev sid sc G p t)"
  using follows_until[of "pk_skills p" "contribution_of ev packs" "walk_skill D ev sid packs G p" "survey_skill D ev sid G p" k t,
      OF follows_skill extending_skill]
  by (simp add: walk_pack_def survey_pack_def follows_def)

lemma adds_Stops: "\<not> adds x \<longleftrightarrow> (\<exists>r. x = Stops r)"
  by (cases x) auto

lemma cut_stops:
  assumes "list_all adds pre"
  shows "takeWhile adds (pre @ Stops y # post) = pre" "dropWhile adds (pre @ Stops y # post) = Stops y # post"
  using assms by (simp_all add: dropWhile_append3 takeWhile_append2 list_all_iff dropWhile_append1)

lemma answer_stops: "list_all adds pre \<Longrightarrow> answer (pre @ Stops y # post) = map_sum id (\<lambda>m. summed_up 2 m pre) y"
  by (cases y) (simp_all add: answer_def cut_stops)

lemma answer_adds: "list_all adds cs \<Longrightarrow> answer cs = Inr (summed_up 0 [] cs)"
proof -
  assume "list_all adds cs"
  then have "dropWhile adds cs = []" by (simp add: list_all_iff dropWhile_eq_Nil_conv)
  then show ?thesis by (simp only: answer_def list.case)
qed

text \<open>
  C17. The answer of a hook is a summary of the rules. Evaluate every rule that the event reaches, in the
  order of packs, skills and rules, without ever stopping; then the dispatcher's answer is that of the first
  rule whose verdict is resolved to blocking, or whose evaluation throws, together with everything the rules
  before it added to the warnings, the injections and the directives, and the tool is allowed if there is no
  such rule. It walks exactly the rules up to that one.
\<close>

theorem dispatch_summarises:
  "let cs = map (contribution_of ev packs) (rule_outcomes D ev packs sid sc f w)
   in fst (dispatchEvent D ev packs sid sc f w) = answer cs \<and>
      fst (snd (snd (dispatchEvent D ev packs sid sc f w))) = min (length cs) (length (takeWhile adds cs) + 1)"
proof -
  let ?C = "contribution_of ev packs"
  define dynamic where "dynamic = map snd (ss_dynamic (partitionSkills packs))"
  obtain skip f1 where s: "computeUnloadSkips (de_regexp D) (de_minimatch D) ev dynamic f = (skip, f1)" by force
  define G where "G = read_gates D ev dynamic skip w"
  define t where "t = fold (survey_pack D ev sid sc G) packs ([], new_cache, w)"
  obtain o1 k where walk: "walk_until (walk_pack D ev sid sc packs G) packs (new_walk w) = (o1, k)" by force
  have "follows ?C (o1, k) t"
    unfolding walk[symmetric] t_def
    by (rule follows_until[OF follows_pack extending_pack]) (simp_all add: new_walk_def)
  moreover have ts: "rule_outcomes D ev packs sid sc f w = fst t"
    by (simp add: rule_outcomes_def t_def G_def dynamic_def[symmetric] s)
  moreover have d: "fst (dispatchEvent D ev packs sid sc f w) = (case o1 of Some r \<Rightarrow> r | None \<Rightarrow> Inr (finish 0 [] k))"
    "fst (snd (snd (dispatchEvent D ev packs sid sc f w))) = wk_rulesWalked k"
    using walk s by (auto simp: dispatchEvent_def dynamic_def G_def Let_def split: option.split)
  ultimately show ?thesis
  proof (cases o1)
    case None
    obtain rs c w1 where t3: "t = (rs, c, w1)" by (cases t)
    then have k: "in_step ?C k (rs, c, w1)" using \<open>follows ?C (o1, k) t\<close> None by (simp add: follows_def)
    then have a: "list_all adds (map ?C rs)" by (simp add: list.pred_map)
    then have "takeWhile adds (map ?C rs) = map ?C rs" by (simp only: takeWhile_eq_all_conv list_all_iff)
    then have "length (takeWhile adds (map ?C rs)) = length rs" by (metis length_map)
    then show ?thesis using d None ts t3 k answer_adds[OF a] finish_summed[OF k refl refl refl]
      by (simp add: Let_def del: in_step.simps) simp
  next
    case (Some r)
    then obtain pre x post y where *: "fst t = pre @ x # post" "list_all (adds \<circ> ?C) pre" "?C x = Stops y"
      "r = map_sum id (\<lambda>m. summed_up 2 m (map ?C pre)) y" "wk_rulesWalked k = length pre + 1"
      using \<open>follows ?C (o1, k) t\<close> by (auto simp: follows_def stopped_at_def)
    then have a: "list_all adds (map ?C pre)" by (simp add: list.pred_map)
    then have "takeWhile adds (map ?C (fst t)) = map ?C pre" using *(1,3) cut_stops(1)[OF a] by simp
    with a show ?thesis using d Some ts * answer_stops[of "map ?C pre" y "map ?C post"] by (simp add: Let_def)
  qed
qed

section \<open>Unloading by history\<close>

text \<open>The last part of a history that starts at an event with a property, or all of it.\<close>

fun since :: "('a \<Rightarrow> bool) \<Rightarrow> 'a list \<Rightarrow> 'a list" where
  "since P [] = []"
| "since P (x # xs) = (if list_ex P xs then since P xs else x # xs)"

lemma since_snoc: "since P (xs @ [x]) = (if P x then [x] else since P xs @ [x])"
  by (induction xs) auto

definition count_kind :: "EventKind \<Rightarrow> Event list \<Rightarrow> nat" where
  "count_kind k evs = length (filter (\<lambda>e. kind_of e = k) evs)"

definition condition_by_history :: "Event list \<Rightarrow> UnloadCondition \<Rightarrow> bool" where
  "condition_by_history evs c = (case c of
     ActiveTaskCompletes \<Rightarrow> 0 < count_kind stop evs
   | SessionEnds \<Rightarrow> 0 < count_kind session_end evs
   | IdleNTurns n \<Rightarrow> n \<le> int (count_kind prompt_submit evs))"

definition ticks_after :: "js_regexp \<Rightarrow> (string \<Rightarrow> string \<Rightarrow> bool) \<Rightarrow> Skill list \<Rightarrow> Event list \<Rightarrow> ticks_file" where
  "ticks_after re mm dynamic evs = fold (\<lambda>ev f. snd (computeUnloadSkips re mm ev dynamic f)) evs None"

definition tick_of :: "Event list \<Rightarrow> TickState" where
  "tick_of evs = \<lparr>turnsSinceActivation = int (count_kind prompt_submit evs), taskCompleted = (0 < count_kind stop evs),
     sessionEnded = (0 < count_kind session_end evs)\<rparr>"

lemma tick_of_Nil: "createTick = tick_of []"
  by (simp add: createTick_def tick_of_def count_kind_def)

lemma advance_tick_of: "advanceTick (tick_of evs) e = tick_of (evs @ [e])"
  by (cases e) (auto simp: advanceTick_def tick_of_def count_kind_def)

lemma shouldUnload_tick_of: "shouldUnload cs (tick_of evs) \<longleftrightarrow> list_ex (condition_by_history evs) cs"
  unfolding shouldUnload_def condition_by_history_def tick_of_def by (auto simp: list_ex_iff split: UnloadCondition.split)

lemma read_written: "readSkillTicks (Some (map (\<lambda>(k, t). (k, Some t)) ts)) = ts"
  by (induction ts) (auto simp: readSkillTicks_def List.map_filter_def)

lemma map_of_updates:
  "map_of (fold (\<lambda>n acc. AList.update n (g n) acc) ns acc) k = (if k \<in> set ns then Some (g k) else map_of acc k)"
  by (induction ns arbitrary: acc) (auto simp: update_conv')

lemma advanced_tick:
  "n \<in> set loaded \<Longrightarrow> map_of (fst (advanceSkillTicks f ev loaded re)) n = Some (advanceTick (tick_base (readSkillTicks f) re n) ev)"
  by (simp add: advanceSkillTicks_def Let_def map_of_updates)

lemma written_ticks: "readSkillTicks (snd (advanceSkillTicks f ev loaded re)) = fst (advanceSkillTicks f ev loaded re)"
  by (simp add: advanceSkillTicks_def Let_def read_written)

lemma ticks_by_history:
  assumes "s \<in> set dynamic"
  shows "map_of (fst (advanceSkillTicks (ticks_after re mm dynamic evs) ev (map sk_name dynamic) (reactivated_names re mm ev dynamic)))
      (sk_name s) = Some (tick_of (since (\<lambda>e. sk_name s \<in> set (reactivated_names re mm e dynamic)) (evs @ [ev])))"
    (is "map_of (fst (?adv evs ev)) _ = Some (tick_of (since ?P _))")
proof (induction evs arbitrary: ev rule: rev_induct)
  case Nil
  show ?case using assms
    by (simp add: advanced_tick ticks_after_def readSkillTicks_def tick_base_def tick_of_Nil advance_tick_of)
next
  case (snoc e evs)
  have "snd (computeUnloadSkips re mm e dynamic f) = snd (advanceSkillTicks f e (map sk_name dynamic) (reactivated_names re mm e dynamic))" for f
    by (simp add: computeUnloadSkips_def split: prod.split)
  then have "readSkillTicks (ticks_after re mm dynamic (evs @ [e])) = fst (?adv evs e)"
    by (simp add: ticks_after_def written_ticks)
  then have "map_of (fst (?adv (evs @ [e]) ev)) (sk_name s) = Some (advanceTick (tick_base (fst (?adv evs e)) (reactivated_names re mm ev dynamic) (sk_name s)) ev)"
    using assms by (simp add: advanced_tick)
  then show ?case using snoc[of e] since_snoc[of ?P "evs @ [e]" ev]
    by (simp add: tick_base_def tick_of_Nil advance_tick_of)
qed

text \<open>
  Unloading by history. In a session that starts without ticks, the skills an event skips are the
  dynamic skills one of whose conditions holds of the events since their load matchers last fired, the
  event itself included: a turn limit reached by the prompts among them, a stop, or an end of the session.
\<close>

theorem unload_by_history:
  "set (fst (computeUnloadSkips re mm ev dynamic (ticks_after re mm dynamic evs))) =
   sk_name ` {s \<in> set dynamic. list_ex (condition_by_history (since (\<lambda>e. sk_name s \<in> set (reactivated_names re mm e dynamic)) (evs @ [ev])))
     (parseUnloadsWhen (sk_unloads_when s))}"
proof -
  let ?adv = "advanceSkillTicks (ticks_after re mm dynamic evs) ev (map sk_name dynamic) (reactivated_names re mm ev dynamic)"
  have "fst (computeUnloadSkips re mm ev dynamic (ticks_after re mm dynamic evs)) =
      map sk_name (filter (\<lambda>s. shouldSkillUnload s (map_of (fst ?adv) (sk_name s))) dynamic)"
    by (simp add: computeUnloadSkips_def split: prod.split)
  moreover have "shouldSkillUnload s (map_of (fst ?adv) (sk_name s)) \<longleftrightarrow>
      list_ex (condition_by_history (since (\<lambda>e. sk_name s \<in> set (reactivated_names re mm e dynamic)) (evs @ [ev])))
        (parseUnloadsWhen (sk_unloads_when s))" if "s \<in> set dynamic" for s
    unfolding ticks_by_history[OF that] by (auto simp: shouldSkillUnload_def Let_def shouldUnload_tick_of)
  ultimately show ?thesis by auto
qed

section \<open>Automatic correction\<close>

lemma verdict_primitive_answers:
  assumes "map_of (ee_registry E) ''verdict'' = Some (verdict_primitive issues)"
    and "registry_call (ee_registry E) ''verdict'' args x B w = (Done v, w1)"
  shows "ruleId_of v = None"
proof -
  have "VerdictArgs issues args = Inr v"
    using assms by (auto simp: registry_call_def verdict_primitive_def split: sum.splits)
  then show ?thesis
    by (auto simp: VerdictArgs_def ruleId_of_def get_property_def or_undefined_def
        split: val.splits option.splits if_splits)
qed

lemma verdict_without_rule:
  assumes "map_of (ee_registry E) ''verdict'' = Some (verdict_primitive issues)" and "ee_runId E = None" and "\<not> ee_memo E"
  shows "eval_steps E P i ss st = (Some (Inr (verdict_result v)), st1) \<Longrightarrow> ruleId_of v = None"
proof (induction ss arbitrary: i st)
  case (Cons sp ss)
  show ?case
  proof (cases "eval_step E P i sp st")
    case (Pair o1 st2)
    show ?thesis
    proof (cases o1)
      case None
      then show ?thesis using Cons Pair by simp
    next
      case (Some r)
      then have "eval_step E P i sp st = (Some (Inr (verdict_result v)), st1)" using Cons.prems Pair by simp
      then obtain u where c: "call_primitive E (ps_call sp) (step_args E sp (es_bindings st)) st = (Done u, st1)"
        "settle_value i sp u = Some (verdict_result v)"
        using assms(2,3) by (auto simp: eval_step_def dispatch_step_def split: if_splits prod.splits call_result.splits option.splits)
      have "u = v \<and> ps_call sp = ''verdict'' \<or> v = block_verdict i"
        using c(2) by (auto simp: settle_value_def split: if_splits option.splits)
      moreover have "ruleId_of (block_verdict i) = None"
        by (simp add: block_verdict_def ruleId_of_def get_property_def or_undefined_def)
      ultimately show ?thesis
        using c(1) verdict_primitive_answers[OF assms(1)] by (auto simp: call_primitive_def split: prod.splits)
    qed
  qed
qed simp

text \<open>
  Automatic correction never happens. With the \<open>verdict\<close> primitive that the program registers, the
  verdict of a rule never carries the id of the rule, so the policy \<open>auto_correct\<close> comes to a critical
  notification that asks for one, whatever corrective skills the pack declares.
\<close>

theorem auto_correct_degrades:
  assumes "map_of (de_registry D) ''verdict'' = Some (verdict_primitive issues)"
    and "run_rule D ev sid p steps w = (Inr (verdict_result v), w1)"
  shows "applyDriftResponse v auto_correct skills =
    ActNotifyPause ''auto_correct policy requires a verdict with `ruleId`; none provided'' severity_critical"
proof -
  let ?E = "rule_env D ev sid p"
  have "map_of (ee_registry ?E) ''verdict'' = Some (verdict_primitive issues)" "ee_runId ?E = None" "\<not> ee_memo ?E"
    using assms(1) by (simp_all add: rule_env_def)
  moreover obtain st1 where "eval_steps ?E (loadCheckpointMap ?E (es_db (fresh_state D w))) 0 steps (fresh_state D w) =
      (Some (Inr (verdict_result v)), st1)"
    using assms(2) by (auto simp: run_rule_def evaluateProcess_def split: prod.splits option.splits)
  ultimately have "ruleId_of v = None" by (rule verdict_without_rule)
  then show ?thesis by (simp add: applyDriftResponse_def correct_automatically_def)
qed

section \<open>A session\<close>

definition demo_dispatch :: "(unit, MemoryEntry obj) dispatch_env" where
  "demo_dispatch = \<lparr>de_eval = \<lparr>ee_registry = [], ee_ctx = (), ee_re2 = (\<lambda>p. None), ee_show_num = (\<lambda>x. ''0''),
       ee_sha = (\<lambda>v. ''h''), ee_lru = list_lru 1, ee_now = (\<lambda>w. 0), ee_runId = None, ee_memo = False, ee_ttl = (\<lambda>f. None)\<rparr>,
     de_registry = [(''verdict'', verdict_primitive ''invalid'')], de_regexp = (\<lambda>p. None), de_minimatch = (\<lambda>p g. False),
     de_probes = (\<lambda>w. (Enoent, Enoent)), de_facets = (\<lambda>w. None), de_domain = (\<lambda>w d. None),
     de_record_drift = (\<lambda>d e w. w)\<rparr>"

definition verdict_step :: "string \<Rightarrow> string \<Rightarrow> ProcessStep" where
  "verdict_step level text = \<lparr>ps_call = ''verdict'', ps_args = Some [(''level'', VStr level), (''message'', VStr text)],
     ps_as = None, ps_if = None, ps_on_empty = None, ps_on_error = None\<rparr>"

definition demo_skill :: "string \<Rightarrow> LoadMode \<Rightarrow> string list \<Rightarrow> Rule list \<Rightarrow> Skill" where
  "demo_skill n load unloads rules = \<lparr>sk_name = n, sk_load = load, sk_when_to_load = [], sk_requires = [],
     sk_unloads_when = map VStr unloads, sk_triggers = defaultTriggers, sk_serves = None, sk_rules = rules, sk_prose = None\<rparr>"

definition demo_pack :: "string \<Rightarrow> PackScope \<Rightarrow> Skill \<Rightarrow> Pack" where
  "demo_pack n scope s = \<lparr>pk_name = n, pk_scope = scope, pk_skills = [s], pk_models = None, pk_driftResponse = None,
     pk_activationScope = None, pk_usage = None, pk_team = None, pk_fsm = None, pk_procedure = None\<rparr>"

definition safety_pack :: Pack where
  "safety_pack = demo_pack ''safety'' universal
     (demo_skill ''guard'' preload [] [TrackCheckRule ''no-rm'' [] [verdict_step ''block'' ''refused'']])"

definition other_pack :: Pack where
  "other_pack = demo_pack ''other'' workflow (demo_skill ''guard'' lazy [''active_task_completes''] [])"

definition demo_scope :: DispatchScopeCtx where
  "demo_scope = \<lparr>inProject = True, isUserSession = True\<rparr>"

theorem auto_correct_degrades_witness:
  "fst (run_rule demo_dispatch (StopEvent ''done'') ''s'' safety_pack [verdict_step ''block'' ''refused''] ()) =
     Inr (verdict_result (VObj 0 [(''level'', VStr ''block''), (''message'', VStr ''refused'')])) \<and>
   applyDriftResponse (VObj 0 [(''level'', VStr ''block''), (''message'', VStr ''refused'')]) auto_correct (Some [(''no-rm'', ''fixer'')]) =
     ActNotifyPause ''auto_correct policy requires a verdict with `ruleId`; none provided'' severity_critical"
proof -
  let ?run = "run_rule demo_dispatch (StopEvent ''done'') ''s'' safety_pack [verdict_step ''block'' ''refused''] ()"
  let ?v = "VObj 0 [(''level'', VStr ''block''), (''message'', VStr ''refused'')]"
  have r: "fst ?run = Inr (verdict_result ?v)" by code_simp
  then have "?run = (Inr (verdict_result ?v), snd ?run)" by (metis prod.collapse)
  moreover have "map_of (de_registry demo_dispatch) ''verdict'' = Some (verdict_primitive ''invalid'')"
    by (simp add: demo_dispatch_def)
  ultimately show ?thesis using r by (simp only: auto_correct_degrades simp_thms)
qed

text \<open>
  A pinned skill can be unloaded. Skills to skip are kept by name alone: after a task completes, a
  dynamic skill of another pack that unloads then takes a pinned safety skill of the same name with it, and
  a call that the safety pack blocks alone is allowed.
\<close>

theorem pinned_skill_skipped:
  "let packs = [safety_pack, other_pack];
       call = ToolCallEvent ''Bash'' [(''command'', VStr ''rm -rf /'')] None;
       after_stop = fst (snd (dispatchEvent demo_dispatch (StopEvent ''done'') packs ''s'' demo_scope None ()))
   in ss_pinned (partitionSkills packs) = [(safety_pack, hd (pk_skills safety_pack))] \<and>
      map_sum id exitCode (fst (dispatchEvent demo_dispatch call packs ''s'' demo_scope None ())) = Inr 2 \<and>
      map_sum id exitCode (fst (dispatchEvent demo_dispatch call packs ''s'' demo_scope after_stop ())) = Inr 0 \<and>
      map_sum id exitCode (fst (dispatchEvent demo_dispatch call [safety_pack] ''s'' demo_scope after_stop ())) = Inr 2"
  by code_simp

end
