(* ===== verification/LoopEvents.thy ===== *)
theory LoopEvents
  imports Prelude
begin

text \<open>
  The event log of the loop monitor (\<open>src/src/runtime/loop/loop_events.ts\<close>): an append-only table with its
  migration, its unique indexes and its triggers, the scope-handoff receipts kept in it, the cursor read, the
  fold to the latest state of every item, and the incremental projection of that fold.

  A row is read at the affinities of the table: text columns hold text or null, integer columns an integer or
  null. SQL conditions keep their three values. The SHA-256 digest is an argument.
\<close>

section \<open>Events\<close>

datatype PhaseLifecycle = Running | Done
datatype Ownership = Control_root | Owned
datatype Requester = Cli | Tui | Web
datatype EvidenceKind = Approval | Legacy_repair
datatype ControlAction = Graceful_stop | Terminate | Force_kill | Resume_process

record MonitorEvent =
  v_seq :: nat
  v_wgId :: string
  v_kind :: string
  v_stage :: "string option"
  v_phase :: "string option"
  v_index :: "int option"
  v_total :: "int option"
  v_lifecycle :: "PhaseLifecycle option"
  v_processId :: "string option"
  v_ownership :: "Ownership option"
  v_processInstanceId :: "string option"
  v_runId :: "string option"
  v_checkpointStage :: "string option"
  v_lap :: "int option"
  v_role :: "string option"
  v_pid :: "int option"
  v_processGroupId :: "int option"
  v_processStartIdentity :: "string option"
  v_windowsJobName :: "string option"
  v_windowsJobMetadata :: "string option"
  v_exitCode :: "int option option"
  v_requestedBy :: "Requester option"
  v_authorizedBy :: "string option"
  v_actionId :: "string option"
  v_scopeArtifactPath :: "string option"
  v_scopeArtifactSha256 :: "string option"
  v_scopeEvidenceKind :: "EvidenceKind option"
  v_controlAction :: "ControlAction option"
  v_requestedAtMs :: "int option"
  v_appliedAtMs :: "int option"
  v_failedAtMs :: "int option"
  v_failure :: "string option"
  v_atMs :: int

record LoopEventRow =
  c_seq :: nat
  c_wg_id :: string
  c_kind :: string
  c_stage :: "string option"
  c_phase :: "string option"
  c_phase_index :: "int option"
  c_phase_total :: "int option"
  c_lifecycle :: "string option"
  c_process_id :: "string option"
  c_ownership :: "string option"
  c_process_instance_id :: "string option"
  c_run_id :: "string option"
  c_checkpoint_stage :: "string option"
  c_lap :: "int option"
  c_role :: "string option"
  c_pid :: "int option"
  c_process_group_id :: "int option"
  c_process_start_identity :: "string option"
  c_windows_job_name :: "string option"
  c_windows_job_metadata :: "string option"
  c_exit_code :: "int option"
  c_requested_by :: "string option"
  c_authorized_by :: "string option"
  c_action_id :: "string option"
  c_scope_artifact_path :: "string option"
  c_scope_artifact_sha256 :: "string option"
  c_scope_evidence_kind :: "string option"
  c_control_action :: "string option"
  c_requested_at_ms :: "int option"
  c_applied_at_ms :: "int option"
  c_failed_at_ms :: "int option"
  c_failure :: "string option"
  c_at_ms :: int

primrec lifecycle_text :: "PhaseLifecycle \<Rightarrow> string" where
  "lifecycle_text Running = ''running''"
| "lifecycle_text Done = ''done''"

primrec ownership_text :: "Ownership \<Rightarrow> string" where
  "ownership_text Control_root = ''control_root''"
| "ownership_text Owned = ''owned''"

primrec requester_text :: "Requester \<Rightarrow> string" where
  "requester_text Cli = ''cli''"
| "requester_text Tui = ''tui''"
| "requester_text Web = ''web''"

primrec evidence_text :: "EvidenceKind \<Rightarrow> string" where
  "evidence_text Approval = ''approval''"
| "evidence_text Legacy_repair = ''legacy_repair''"

primrec control_text :: "ControlAction \<Rightarrow> string" where
  "control_text Graceful_stop = ''graceful_stop''"
| "control_text Terminate = ''terminate''"
| "control_text Force_kill = ''force_kill''"
| "control_text Resume_process = ''resume''"

definition coerceLifecycle :: "string option \<Rightarrow> PhaseLifecycle option" where
  "coerceLifecycle c = map_option (\<lambda>s. if s = ''done'' then Done else Running) c"

definition read_ownership :: "string \<Rightarrow> Ownership option" where
  "read_ownership s = (if s = ''control_root'' then Some Control_root else if s = ''owned'' then Some Owned else None)"

definition read_requester :: "string \<Rightarrow> Requester option" where
  "read_requester s = (if s = ''cli'' then Some Cli else if s = ''tui'' then Some Tui else if s = ''web'' then Some Web else None)"

definition read_evidence :: "string \<Rightarrow> EvidenceKind option" where
  "read_evidence s = (if s = ''approval'' then Some Approval else if s = ''legacy_repair'' then Some Legacy_repair else None)"

definition read_control :: "string \<Rightarrow> ControlAction option" where
  "read_control s = (if s = ''graceful_stop'' then Some Graceful_stop else if s = ''terminate'' then Some Terminate
     else if s = ''force_kill'' then Some Force_kill else if s = ''resume'' then Some Resume_process else None)"

text \<open>The arguments of the insert statement, and the mapping of a row that is read back.\<close>

definition row_of :: "MonitorEvent \<Rightarrow> LoopEventRow" where
  "row_of ev = \<lparr>c_seq = 0, c_wg_id = v_wgId ev, c_kind = v_kind ev,
     c_stage = v_stage ev,
     c_phase = v_phase ev,
     c_phase_index = v_index ev,
     c_phase_total = v_total ev,
     c_lifecycle = map_option lifecycle_text (v_lifecycle ev),
     c_process_id = v_processId ev,
     c_ownership = map_option ownership_text (v_ownership ev),
     c_process_instance_id = v_processInstanceId ev,
     c_run_id = v_runId ev,
     c_checkpoint_stage = v_checkpointStage ev,
     c_lap = v_lap ev,
     c_role = v_role ev,
     c_pid = v_pid ev,
     c_process_group_id = v_processGroupId ev,
     c_process_start_identity = v_processStartIdentity ev,
     c_windows_job_name = v_windowsJobName ev,
     c_windows_job_metadata = v_windowsJobMetadata ev,
     c_exit_code = Option.bind (v_exitCode ev) id,
     c_requested_by = map_option requester_text (v_requestedBy ev),
     c_authorized_by = v_authorizedBy ev,
     c_action_id = v_actionId ev,
     c_scope_artifact_path = v_scopeArtifactPath ev,
     c_scope_artifact_sha256 = v_scopeArtifactSha256 ev,
     c_scope_evidence_kind = map_option evidence_text (v_scopeEvidenceKind ev),
     c_control_action = map_option control_text (v_controlAction ev),
     c_requested_at_ms = v_requestedAtMs ev,
     c_applied_at_ms = v_appliedAtMs ev,
     c_failed_at_ms = v_failedAtMs ev,
     c_failure = v_failure ev,
     c_at_ms = v_atMs ev\<rparr>"

definition event_of :: "LoopEventRow \<Rightarrow> MonitorEvent" where
  "event_of r = \<lparr>v_seq = c_seq r, v_wgId = c_wg_id r, v_kind = c_kind r,
     v_stage = c_stage r,
     v_phase = c_phase r,
     v_index = c_phase_index r,
     v_total = c_phase_total r,
     v_lifecycle = coerceLifecycle (c_lifecycle r),
     v_processId = c_process_id r,
     v_ownership = Option.bind (c_ownership r) read_ownership,
     v_processInstanceId = c_process_instance_id r,
     v_runId = c_run_id r,
     v_checkpointStage = c_checkpoint_stage r,
     v_lap = c_lap r,
     v_role = c_role r,
     v_pid = c_pid r,
     v_processGroupId = c_process_group_id r,
     v_processStartIdentity = c_process_start_identity r,
     v_windowsJobName = c_windows_job_name r,
     v_windowsJobMetadata = c_windows_job_metadata r,
     v_exitCode = map_option Some (c_exit_code r),
     v_requestedBy = Option.bind (c_requested_by r) read_requester,
     v_authorizedBy = c_authorized_by r,
     v_actionId = c_action_id r,
     v_scopeArtifactPath = c_scope_artifact_path r,
     v_scopeArtifactSha256 = c_scope_artifact_sha256 r,
     v_scopeEvidenceKind = Option.bind (c_scope_evidence_kind r) read_evidence,
     v_controlAction = Option.bind (c_control_action r) read_control,
     v_requestedAtMs = c_requested_at_ms r,
     v_appliedAtMs = c_applied_at_ms r,
     v_failedAtMs = c_failed_at_ms r,
     v_failure = c_failure r,
     v_atMs = c_at_ms r\<rparr>"

section \<open>Receipts\<close>

text \<open>\<open>JSON.stringify\<close> of a pair of strings.\<close>

definition hex_digit :: "nat \<Rightarrow> char" where
  "hex_digit n = ''0123456789abcdef'' ! n"

definition json_char :: "char \<Rightarrow> string" where
  "json_char c =
     (if c = CHR 0x22 \<or> c = CHR 0x5C then [CHR 0x5C, c]
      else if c = CHR 0x08 then [CHR 0x5C, CHR 0x62] else if c = CHR 0x09 then [CHR 0x5C, CHR 0x74]
      else if c = CHR 0x0A then [CHR 0x5C, CHR 0x6E] else if c = CHR 0x0C then [CHR 0x5C, CHR 0x66]
      else if c = CHR 0x0D then [CHR 0x5C, CHR 0x72]
      else if of_char c < (32 :: nat) then [CHR 0x5C, CHR 0x75, CHR 0x30, CHR 0x30, hex_digit (of_char c div 16), hex_digit (of_char c mod 16)]
      else [c])"

definition json_pair :: "string \<Rightarrow> string \<Rightarrow> string" where
  "json_pair a b = [CHR 0x5B, CHR 0x22] @ concat (map json_char a) @ [CHR 0x22, CHR 0x2C, CHR 0x22] @
     concat (map json_char b) @ [CHR 0x22, CHR 0x5D]"

definition HANDOFF :: string where
  "HANDOFF = ''scope-handoff:''"

definition HANDOFF_V1 :: string where
  "HANDOFF_V1 = ''scope-handoff:v1:''"

definition scopeHandoffActionId :: "(string \<Rightarrow> string) \<Rightarrow> string \<Rightarrow> string \<Rightarrow> string" where
  "scopeHandoffActionId sha wgId artifactPath = HANDOFF_V1 @ sha (json_pair wgId artifactPath)"

definition lower_hex :: "string \<Rightarrow> bool" where
  "lower_hex s \<longleftrightarrow> list_all (\<lambda>c. c \<in> set ''0123456789abcdef'') s"

definition isSemanticScopeReceipt :: "(string \<Rightarrow> string) \<Rightarrow> string \<Rightarrow> string \<Rightarrow> string \<Rightarrow> string \<Rightarrow> string \<Rightarrow> string \<Rightarrow> bool" where
  "isSemanticScopeReceipt sha wgId actionId stage artifact digest evidence \<longleftrightarrow>
     actionId = scopeHandoffActionId sha wgId artifact \<and> stage \<noteq> [] \<and> length digest = 64 \<and> lower_hex digest \<and>
     evidence \<in> set [''approval'', ''legacy_repair'']"

text \<open>SQL conditions: \<^const>\<open>None\<close> is the third value.\<close>

definition and3 :: "bool option \<Rightarrow> bool option \<Rightarrow> bool option" where
  "and3 a b = (if a = Some False \<or> b = Some False then Some False else if a = None \<or> b = None then None else Some True)"

definition on_text :: "(string \<Rightarrow> bool) \<Rightarrow> string option \<Rightarrow> bool option" where
  "on_text f c = map_option f c"

definition holds :: "bool option \<Rightarrow> bool" where
  "holds c \<longleftrightarrow> c = Some True"

definition lower_char :: "char \<Rightarrow> char" where
  "lower_char c = (if c \<in> set ''ABCDEFGHIJKLMNOPQRSTUVWXYZ'' then char_of (of_char c + 32 :: nat) else c)"

definition like_handoff :: "string \<Rightarrow> bool" where
  "like_handoff s \<longleftrightarrow> starts_with (map lower_char s) HANDOFF"

definition v1_action :: "string \<Rightarrow> bool" where
  "v1_action s \<longleftrightarrow> length s = 81 \<and> take 17 s = HANDOFF_V1 \<and> lower_hex (drop 17 s)"

definition handoff_row :: "LoopEventRow \<Rightarrow> bool" where
  "handoff_row r \<longleftrightarrow> holds (on_text like_handoff (c_action_id r))"

definition SCOPE_HANDOFF_RECEIPT_PREDICATE :: "LoopEventRow \<Rightarrow> bool" where
  "SCOPE_HANDOFF_RECEIPT_PREDICATE r \<longleftrightarrow> c_kind r = ''stage_advance'' \<and>
     (case c_action_id r of None \<Rightarrow> False | Some a \<Rightarrow> v1_action a)"

definition not_null :: "string option \<Rightarrow> bool option" where
  "not_null c = Some (c \<noteq> None)"

definition VALID_NEW_SCOPE_RECEIPT :: "LoopEventRow \<Rightarrow> bool option" where
  "VALID_NEW_SCOPE_RECEIPT r = foldr and3
     [Some (c_kind r = ''stage_advance''), not_null (c_stage r), on_text (\<lambda>s. 0 < length s) (c_stage r),
      not_null (c_action_id r), on_text v1_action (c_action_id r),
      not_null (c_scope_artifact_path r), on_text (\<lambda>s. 0 < length s) (c_scope_artifact_path r),
      not_null (c_scope_artifact_sha256 r), on_text (\<lambda>s. length s = 64) (c_scope_artifact_sha256 r),
      on_text lower_hex (c_scope_artifact_sha256 r),
      on_text (\<lambda>s. s \<in> set [''approval'', ''legacy_repair'']) (c_scope_evidence_kind r)] (Some True)"

definition insert_guard_fires :: "LoopEventRow \<Rightarrow> bool" where
  "insert_guard_fires r \<longleftrightarrow> holds (and3 (on_text like_handoff (c_action_id r)) (map_option Not (VALID_NEW_SCOPE_RECEIPT r)))"

section \<open>The table\<close>

definition COLUMNS :: "string list" where
  "COLUMNS = [''seq'', ''wg_id'', ''kind'', ''stage'', ''phase'', ''phase_index'', ''phase_total'', ''lifecycle'', ''process_id'', ''ownership'', ''process_instance_id'', ''run_id'', ''checkpoint_stage'', ''lap'', ''role'', ''pid'', ''process_group_id'', ''process_start_identity'', ''windows_job_name'', ''windows_job_metadata'', ''exit_code'', ''requested_by'', ''authorized_by'', ''action_id'', ''scope_artifact_path'', ''scope_artifact_sha256'', ''scope_evidence_kind'', ''control_action'', ''requested_at_ms'', ''applied_at_ms'', ''failed_at_ms'', ''failure'', ''at_ms'']"

definition additions :: "string list" where
  "additions = drop 8 (butlast COLUMNS)"

datatype loop_object = WgIndex | ActionIndex | ItemIndex | LegacyIndex | InsertGuard | UpdateGuard | DeleteGuard
  | FullstackTrigger | FullstackIndex

record loop_db =
  le_columns :: "string list"
  le_rows :: "LoopEventRow list"
  le_last :: nat
  le_objects :: "loop_object list"

text \<open>No columns: the table does not exist yet.\<close>

definition new_loop_db :: loop_db where
  "new_loop_db = \<lparr>le_columns = [], le_rows = [], le_last = 0, le_objects = []\<rparr>"

datatype loop_error = Sql_schema | Sql_abort | Sql_constraint | Storage_fault | Reserved_action_id
  | Invalid_receipt | Malformed_receipt | Duplicate_receipt

definition same_action :: "LoopEventRow \<Rightarrow> LoopEventRow \<Rightarrow> bool" where
  "same_action x y \<longleftrightarrow> SCOPE_HANDOFF_RECEIPT_PREDICATE x \<and> SCOPE_HANDOFF_RECEIPT_PREDICATE y \<and> c_action_id x = c_action_id y"

definition same_item :: "LoopEventRow \<Rightarrow> LoopEventRow \<Rightarrow> bool" where
  "same_item x y \<longleftrightarrow> SCOPE_HANDOFF_RECEIPT_PREDICATE x \<and> SCOPE_HANDOFF_RECEIPT_PREDICATE y \<and> c_wg_id x = c_wg_id y"

definition insert_event :: "string list \<Rightarrow> LoopEventRow \<Rightarrow> loop_db \<Rightarrow> loop_error + loop_db" where
  "insert_event columns r d =
     (if \<not> set columns \<subseteq> set (le_columns d) then Inl Sql_schema
      else if InsertGuard \<in> set (le_objects d) \<and> insert_guard_fires r then Inl Sql_abort
      else if ActionIndex \<in> set (le_objects d) \<and> list_ex (same_action r) (le_rows d) then Inl Sql_constraint
      else if ItemIndex \<in> set (le_objects d) \<and> list_ex (same_item r) (le_rows d) then Inl Sql_constraint
      else Inr (d\<lparr>le_rows := le_rows d @ [r\<lparr>c_seq := le_last d + 1\<rparr>], le_last := le_last d + 1\<rparr>))"

section \<open>The schema\<close>

datatype ddl = CreateTable | AddColumn string | CheckReceipts | CreateObject loop_object | DropObject loop_object

definition semantic_row :: "(string \<Rightarrow> string) \<Rightarrow> LoopEventRow \<Rightarrow> bool" where
  "semantic_row sha r \<longleftrightarrow> c_kind r = ''stage_advance'' \<and>
     (case (c_stage r, c_action_id r, c_scope_artifact_path r, c_scope_artifact_sha256 r, c_scope_evidence_kind r) of
        (Some stage, Some actionId, Some artifact, Some digest, Some evidence) \<Rightarrow>
          isSemanticScopeReceipt sha (c_wg_id r) actionId stage artifact digest evidence
      | _ \<Rightarrow> False)"

fun check_receipts :: "(string \<Rightarrow> string) \<Rightarrow> LoopEventRow list \<Rightarrow> string option list \<Rightarrow> string list \<Rightarrow> loop_error option" where
  "check_receipts sha [] actions items = None"
| "check_receipts sha (r # rs) actions items =
     (if \<not> semantic_row sha r then Some Malformed_receipt
      else if c_action_id r \<in> set actions \<or> c_wg_id r \<in> set items then Some Duplicate_receipt
      else check_receipts sha rs (c_action_id r # actions) (c_wg_id r # items))"

fun duplicates :: "('a \<Rightarrow> 'a \<Rightarrow> bool) \<Rightarrow> 'a list \<Rightarrow> bool" where
  "duplicates same [] \<longleftrightarrow> False"
| "duplicates same (x # xs) \<longleftrightarrow> list_ex (same x) xs \<or> duplicates same xs"

definition exec_ddl :: "(string \<Rightarrow> string) \<Rightarrow> ddl \<Rightarrow> loop_db \<Rightarrow> loop_error + loop_db" where
  "exec_ddl sha s d = (case s of
     CreateTable \<Rightarrow> Inr (if le_columns d = [] then d\<lparr>le_columns := COLUMNS\<rparr> else d)
   | AddColumn c \<Rightarrow> Inr (if c \<in> set (le_columns d) then d else d\<lparr>le_columns := le_columns d @ [c]\<rparr>)
   | CheckReceipts \<Rightarrow> (case check_receipts sha (filter handoff_row (le_rows d)) [] [] of Some e \<Rightarrow> Inl e | None \<Rightarrow> Inr d)
   | CreateObject ob \<Rightarrow>
       if ob \<in> set (le_objects d) then Inr d
       else if ob = ActionIndex \<and> duplicates same_action (le_rows d) \<or> ob = ItemIndex \<and> duplicates same_item (le_rows d)
       then Inl Sql_constraint
       else Inr (d\<lparr>le_objects := le_objects d @ [ob]\<rparr>)
   | DropObject ob \<Rightarrow> Inr (d\<lparr>le_objects := filter (\<lambda>x. x \<noteq> ob) (le_objects d)\<rparr>))"

definition SCRIPT :: "ddl list" where
  "SCRIPT = [CreateTable] @ map AddColumn additions @
     [CheckReceipts, CreateObject WgIndex, DropObject InsertGuard, DropObject FullstackTrigger, DropObject FullstackIndex,
      CreateObject ActionIndex, CreateObject ItemIndex, CreateObject LegacyIndex, CreateObject InsertGuard,
      CreateObject UpdateGuard, CreateObject DeleteGuard]"

fun run_ddl :: "(string \<Rightarrow> string) \<Rightarrow> (ddl \<Rightarrow> bool) \<Rightarrow> ddl list \<Rightarrow> loop_db \<Rightarrow> loop_error option \<times> loop_db" where
  "run_ddl sha broken [] d = (None, d)"
| "run_ddl sha broken (s # ss) d =
     (if broken s then (Some Storage_fault, d)
      else (case exec_ddl sha s d of Inl e \<Rightarrow> (Some e, d) | Inr d1 \<Rightarrow> run_ddl sha broken ss d1))"

text \<open>The memory of the process lists the stores whose schema is settled.\<close>

definition ensureLoopEventSchema :: "(string \<Rightarrow> string) \<Rightarrow> (ddl \<Rightarrow> bool) \<Rightarrow> string \<Rightarrow> string list \<Rightarrow> loop_db \<Rightarrow>
    loop_error option \<times> string list \<times> loop_db" where
  "ensureLoopEventSchema sha broken url ddlByUrl d =
     (if url \<in> set ddlByUrl then (None, ddlByUrl, d)
      else (case run_ddl sha broken SCRIPT d of
        (None, d1) \<Rightarrow> (None, url # ddlByUrl, d1)
      | (Some e, d1) \<Rightarrow> (Some e, ddlByUrl, d1)))"

section \<open>Writing and reading\<close>

definition appendMonitorEvent :: "(string \<Rightarrow> string) \<Rightarrow> (ddl \<Rightarrow> bool) \<Rightarrow> string \<Rightarrow> MonitorEvent \<Rightarrow> string list \<Rightarrow> loop_db \<Rightarrow>
    loop_error option \<times> string list \<times> loop_db" where
  "appendMonitorEvent sha broken url ev ddlByUrl d =
     (if (case v_actionId ev of None \<Rightarrow> False | Some a \<Rightarrow> starts_with a HANDOFF) then (Some Reserved_action_id, ddlByUrl, d)
      else (case ensureLoopEventSchema sha broken url ddlByUrl d of
        (Some e, ddl1, d1) \<Rightarrow> (Some e, ddl1, d1)
      | (None, ddl1, d1) \<Rightarrow> (case insert_event (tl COLUMNS) (row_of ev) d1 of
            Inl e \<Rightarrow> (Some e, ddl1, d1)
          | Inr d2 \<Rightarrow> (None, ddl1, d2))))"

definition tailEventsSince :: "nat \<Rightarrow> loop_db \<Rightarrow> MonitorEvent list" where
  "tailEventsSince since d = map event_of (sort_key c_seq (filter (\<lambda>r. since < c_seq r) (le_rows d)))"

record ScopeHandoffReceipt =
  s_seq :: nat
  s_wgId :: string
  s_actionId :: string
  s_stage :: string
  s_artifactPath :: string
  s_artifactSha256 :: string
  s_evidenceKind :: EvidenceKind

definition decodeScopeHandoffReceipt :: "(string \<Rightarrow> string) \<Rightarrow> LoopEventRow \<Rightarrow> loop_error + ScopeHandoffReceipt" where
  "decodeScopeHandoffReceipt sha r =
     (case (c_action_id r, c_stage r, c_scope_artifact_path r, c_scope_artifact_sha256 r, Option.bind (c_scope_evidence_kind r) read_evidence) of
        (Some actionId, Some stage, Some artifact, Some digest, Some evidence) \<Rightarrow>
          if isSemanticScopeReceipt sha (c_wg_id r) actionId stage artifact digest (evidence_text evidence)
          then Inr \<lparr>s_seq = c_seq r, s_wgId = c_wg_id r, s_actionId = actionId, s_stage = stage, s_artifactPath = artifact,
                    s_artifactSha256 = digest, s_evidenceKind = evidence\<rparr>
          else Inl Malformed_receipt
      | _ \<Rightarrow> Inl Malformed_receipt)"

definition only_receipt :: "(string \<Rightarrow> string) \<Rightarrow> loop_object \<Rightarrow> loop_db \<Rightarrow> LoopEventRow list \<Rightarrow> loop_error + ScopeHandoffReceipt option" where
  "only_receipt sha index d rows =
     (if index \<notin> set (le_objects d) then Inl Sql_schema
      else (case rows of
        [] \<Rightarrow> Inr None
      | [r] \<Rightarrow> (case decodeScopeHandoffReceipt sha r of Inl e \<Rightarrow> Inl e | Inr x \<Rightarrow> Inr (Some x))
      | _ \<Rightarrow> Inl Duplicate_receipt))"

definition readScopeHandoffByItem :: "(string \<Rightarrow> string) \<Rightarrow> string \<Rightarrow> loop_db \<Rightarrow> loop_error + ScopeHandoffReceipt option" where
  "readScopeHandoffByItem sha wgId d = only_receipt sha ItemIndex d
     (take 2 (rev (sort_key c_seq (filter (\<lambda>r. c_wg_id r = wgId \<and> SCOPE_HANDOFF_RECEIPT_PREDICATE r) (le_rows d)))))"

definition readScopeHandoffByAction :: "(string \<Rightarrow> string) \<Rightarrow> string \<Rightarrow> loop_db \<Rightarrow> loop_error + ScopeHandoffReceipt option" where
  "readScopeHandoffByAction sha actionId d = only_receipt sha ActionIndex d
     (take 2 (filter (\<lambda>r. c_action_id r = Some actionId \<and> SCOPE_HANDOFF_RECEIPT_PREDICATE r) (le_rows d)))"

definition readLegacyAutomationEntrySeqs :: "string \<Rightarrow> string \<Rightarrow> loop_db \<Rightarrow> loop_error + nat list" where
  "readLegacyAutomationEntrySeqs wgId entryStage d =
     (if LegacyIndex \<notin> set (le_objects d) then Inl Sql_schema
      else Inr (take 2 (rev (sort (map c_seq (filter (\<lambda>r. c_wg_id r = wgId \<and> c_kind r = ''stage_advance'' \<and>
             c_stage r = Some entryStage \<and> c_action_id r = None) (le_rows d)))))))"

definition receipt_row :: "string \<Rightarrow> string \<Rightarrow> string \<Rightarrow> string \<Rightarrow> string \<Rightarrow> string \<Rightarrow> int \<Rightarrow> LoopEventRow" where
  "receipt_row wgId actionId stage artifact digest evidence at = \<lparr>c_seq = 0, c_wg_id = wgId, c_kind = ''stage_advance'', c_stage = Some stage,
     c_phase = None, c_phase_index = None, c_phase_total = None, c_lifecycle = None, c_process_id = None, c_ownership = None, c_process_instance_id = None, c_run_id = None, c_checkpoint_stage = None, c_lap = None, c_role = None, c_pid = None, c_process_group_id = None, c_process_start_identity = None, c_windows_job_name = None, c_windows_job_metadata = None, c_exit_code = None, c_requested_by = None, c_authorized_by = None, c_action_id = Some actionId, c_scope_artifact_path = Some artifact, c_scope_artifact_sha256 = Some digest, c_scope_evidence_kind = Some evidence, c_control_action = None, c_requested_at_ms = None, c_applied_at_ms = None, c_failed_at_ms = None, c_failure = None,
     c_at_ms = at\<rparr>"

definition RECEIPT_COLUMNS :: "string list" where
  "RECEIPT_COLUMNS = [''wg_id'', ''kind'', ''stage'', ''action_id'', ''scope_artifact_path'', ''scope_artifact_sha256'',
     ''scope_evidence_kind'', ''at_ms'']"

definition insertScopeHandoffReceipt :: "(string \<Rightarrow> string) \<Rightarrow> ScopeHandoffReceipt \<Rightarrow> int \<Rightarrow> loop_db \<Rightarrow> loop_error + loop_db" where
  "insertScopeHandoffReceipt sha x at d =
     (if \<not> isSemanticScopeReceipt sha (s_wgId x) (s_actionId x) (s_stage x) (s_artifactPath x) (s_artifactSha256 x)
             (evidence_text (s_evidenceKind x)) then Inl Invalid_receipt
      else insert_event RECEIPT_COLUMNS (receipt_row (s_wgId x) (s_actionId x) (s_stage x) (s_artifactPath x) (s_artifactSha256 x)
             (evidence_text (s_evidenceKind x)) at) d)"

section \<open>The fold\<close>

record LoopFoldState =
  f_wgId :: string
  f_stage :: "string option"
  f_phase :: "string option"
  f_index :: "int option"
  f_total :: "int option"
  f_lifecycle :: "PhaseLifecycle option"
  f_lastEventAtMs :: int
  f_terminal :: bool

definition process_kind :: "string \<Rightarrow> bool" where
  "process_kind k \<longleftrightarrow> starts_with k ''process_''"

definition fold_item :: "MonitorEvent \<Rightarrow> LoopFoldState \<Rightarrow> LoopFoldState" where
  "fold_item e s =
     (if v_kind e = ''stage_advance'' then
        s\<lparr>f_stage := v_stage e, f_phase := None, f_index := None, f_total := None, f_lifecycle := None\<rparr>
      else if v_kind e = ''phase_enter'' then
        s\<lparr>f_phase := v_phase e, f_index := v_index e, f_total := v_total e, f_lifecycle := Some Running\<rparr>
      else if v_kind e = ''phase_leave'' then
        s\<lparr>f_phase := v_phase e, f_index := v_index e, f_total := v_total e, f_lifecycle := Some Done\<rparr>
      else if v_kind e = ''item_shipped'' \<or> v_kind e = ''item_closed'' then s\<lparr>f_terminal := True\<rparr>
      else s)"

definition new_item :: "MonitorEvent \<Rightarrow> LoopFoldState" where
  "new_item e = \<lparr>f_wgId = v_wgId e, f_stage = None, f_phase = None, f_index = None, f_total = None, f_lifecycle = None,
     f_lastEventAtMs = v_atMs e, f_terminal = False\<rparr>"

definition applyMonitorEvent :: "MonitorEvent \<Rightarrow> LoopFoldState obj \<Rightarrow> LoopFoldState obj" where
  "applyMonitorEvent e byWg =
     (if process_kind (v_kind e) then (case map_of byWg (v_wgId e) of
          None \<Rightarrow> byWg
        | Some s \<Rightarrow> AList.update (v_wgId e) (s\<lparr>f_lastEventAtMs := v_atMs e\<rparr>) byWg)
      else (let s = (case map_of byWg (v_wgId e) of None \<Rightarrow> new_item e | Some s \<Rightarrow> s)
            in AList.update (v_wgId e) (fold_item e (s\<lparr>f_lastEventAtMs := v_atMs e\<rparr>)) byWg))"

definition foldEvents :: "MonitorEvent list \<Rightarrow> LoopFoldState list" where
  "foldEvents es = map snd (fold applyMonitorEvent es [])"

definition foldLatestState :: "loop_db \<Rightarrow> LoopFoldState list" where
  "foldLatestState d = foldEvents (tailEventsSince 0 d)"

text \<open>The projection that one process keeps: its cursor and its board. A failed read leaves both.\<close>

record projection =
  projectionCursor :: nat
  projectionState :: "LoopFoldState obj"

definition cold_projection :: projection where
  "cold_projection = \<lparr>projectionCursor = 0, projectionState = []\<rparr>"

definition advance_projection :: "MonitorEvent list \<Rightarrow> projection \<Rightarrow> projection" where
  "advance_projection batch p =
     \<lparr>projectionCursor = (if batch = [] then projectionCursor p else v_seq (last batch)),
      projectionState = fold applyMonitorEvent batch (projectionState p)\<rparr>"

definition foldLatestStateIncremental :: "bool \<Rightarrow> loop_db \<Rightarrow> projection \<Rightarrow> LoopFoldState list option \<times> projection" where
  "foldLatestStateIncremental fault d p =
     (if fault then (None, p)
      else (let p1 = advance_projection (tailEventsSince (projectionCursor p) d) p
            in (Some (map snd (projectionState p1)), p1)))"

text \<open>One turn of the live loop: the events it hands on, and its cursor after them.\<close>

definition subscribe_poll :: "loop_db \<Rightarrow> nat \<times> MonitorEvent list \<Rightarrow> nat \<times> MonitorEvent list" where
  "subscribe_poll d c = fold (\<lambda>e (cursor, out). (v_seq e, out @ [e])) (tailEventsSince (fst c) d) c"

record LoopStateItem =
  i_wgId :: string
  i_stage :: string
  i_phase :: "string option"
  i_phaseIndex :: "int option"
  i_phaseTotal :: "int option"
  i_lifecycle :: "PhaseLifecycle option"
  i_lastActivityMs :: int
  i_updatedAt :: int
  i_terminal :: bool

definition mapFold :: "LoopFoldState list \<Rightarrow> LoopStateItem list" where
  "mapFold fs = map (\<lambda>f. \<lparr>i_wgId = f_wgId f, i_stage = (case f_stage f of None \<Rightarrow> [] | Some s \<Rightarrow> s), i_phase = f_phase f,
     i_phaseIndex = f_index f, i_phaseTotal = f_total f, i_lifecycle = f_lifecycle f,
     i_lastActivityMs = f_lastEventAtMs f, i_updatedAt = f_lastEventAtMs f, i_terminal = f_terminal f\<rparr>) fs"

definition liveItems :: "LoopStateItem list \<Rightarrow> LoopStateItem list" where
  "liveItems st = filter (\<lambda>i. \<not> i_terminal i) st"

definition collectLoopState :: "loop_db \<Rightarrow> LoopStateItem list" where
  "collectLoopState d = mapFold (foldLatestState d)"

section \<open>The log\<close>

lemma lifecycle_text_read [simp]: "coerceLifecycle (map_option lifecycle_text l) = l"
  by (cases l; cases "the l") (auto simp: coerceLifecycle_def)

lemma ownership_text_read [simp]: "read_ownership (ownership_text x) = Some x"
  by (cases x) (auto simp: read_ownership_def)

lemma requester_text_read [simp]: "read_requester (requester_text x) = Some x"
  by (cases x) (auto simp: read_requester_def)

lemma evidence_text_read [simp]: "read_evidence (evidence_text x) = Some x"
  by (cases x) (auto simp: read_evidence_def)

lemma control_text_read [simp]: "read_control (control_text x) = Some x"
  by (cases x) (auto simp: read_control_def)

text \<open>What a stored event reads back as: the sequence number it was given, and a null exit code as none.\<close>

definition stored_event :: "nat \<Rightarrow> MonitorEvent \<Rightarrow> MonitorEvent" where
  "stored_event n ev = ev\<lparr>v_seq := n, v_exitCode := (if v_exitCode ev = Some None then None else v_exitCode ev)\<rparr>"

lemma bind_map_text: "(\<And>x. f (g x) = Some x) \<Longrightarrow> Option.bind (map_option g v) f = v"
  by (cases v) auto

lemma map_Some_bind_id: "map_option Some (Option.bind v id) = (if v = Some None then None else v)"
  by (cases v; cases "the v") auto

lemma event_of_row_of: "event_of ((row_of ev)\<lparr>c_seq := n\<rparr>) = stored_event n ev"
  by (simp add: event_of_def row_of_def stored_event_def bind_map_text map_Some_bind_id)

definition log_ok :: "loop_db \<Rightarrow> bool" where
  "log_ok d \<longleftrightarrow> sorted_wrt (<) (map c_seq (le_rows d)) \<and> (\<forall>r\<in>set (le_rows d). 0 < c_seq r \<and> c_seq r \<le> le_last d)"

lemma log_ok_new [simp]: "log_ok new_loop_db"
  by (simp add: log_ok_def new_loop_db_def)

lemma insert_event_rows:
  assumes "insert_event cols r d = Inr d1"
  shows "le_rows d1 = le_rows d @ [r\<lparr>c_seq := le_last d + 1\<rparr>]" "le_last d1 = le_last d + 1"
    "le_columns d1 = le_columns d" "le_objects d1 = le_objects d"
  using assms by (auto simp: insert_event_def split: if_splits)

lemma insert_event_log: "insert_event cols r d = Inr d1 \<Longrightarrow> log_ok d \<Longrightarrow> log_ok d1"
  by (auto simp: log_ok_def insert_event_rows sorted_wrt_append less_Suc_eq_le)

lemma exec_ddl_rows: "exec_ddl sha s d = Inr d1 \<Longrightarrow> le_rows d1 = le_rows d \<and> le_last d1 = le_last d"
  by (auto simp: exec_ddl_def split: ddl.splits if_splits option.splits)

lemma run_ddl_rows: "le_rows (snd (run_ddl sha broken ss d)) = le_rows d \<and> le_last (snd (run_ddl sha broken ss d)) = le_last d"
proof (induction ss arbitrary: d)
  case (Cons s ss)
  then show ?case using exec_ddl_rows[of sha s d] by (auto split: sum.splits)
qed simp

lemma ensure_rows:
  "ensureLoopEventSchema sha broken url ddl d = (e, ddl1, d1) \<Longrightarrow> le_rows d1 = le_rows d \<and> le_last d1 = le_last d"
  using run_ddl_rows[of sha broken SCRIPT d]
  by (auto simp: ensureLoopEventSchema_def split: if_splits prod.splits option.splits)

lemma append_cases:
  assumes "appendMonitorEvent sha broken url ev ddl d = (e, ddl1, d2)"
  obtains (failed) "e \<noteq> None" "le_rows d2 = le_rows d" "le_last d2 = le_last d"
  | (appended) d1 where "e = None" "insert_event (tl COLUMNS) (row_of ev) d1 = Inr d2" "le_rows d1 = le_rows d" "le_last d1 = le_last d"
      "ensureLoopEventSchema sha broken url ddl d = (None, ddl1, d1)"
  using assms by (auto simp: appendMonitorEvent_def split: if_splits prod.splits option.splits sum.splits dest: ensure_rows)

lemma log_ok_same: "le_rows d1 = le_rows d \<Longrightarrow> le_last d1 = le_last d \<Longrightarrow> log_ok d1 = log_ok d"
  by (simp add: log_ok_def)

lemma append_log: "appendMonitorEvent sha broken url ev ddl d = (e, ddl1, d2) \<Longrightarrow> log_ok d \<Longrightarrow> log_ok d2"
  by (erule append_cases) (metis log_ok_same insert_event_log)+

section \<open>The cursor\<close>

lemma sorted_filter_seq: "sorted_wrt (<) (map c_seq rows) \<Longrightarrow> sort_key c_seq (filter P rows) = filter P rows"
proof -
  assume "sorted_wrt (<) (map c_seq rows)"
  then have "sorted (map c_seq (filter P rows))"
    by (metis sorted_wrt_filter sorted_wrt_map sorted_wrt_mono_rel less_imp_le)
  then show ?thesis by (rule sort_key_id_if_sorted)
qed

lemma tail_rows: "log_ok d \<Longrightarrow> tailEventsSince since d = map event_of (filter (\<lambda>r. since < c_seq r) (le_rows d))"
  by (simp add: tailEventsSince_def log_ok_def sorted_filter_seq)

lemma event_seq [simp]: "v_seq (event_of r) = c_seq r"
  by (simp add: event_of_def)

lemma filter_split_seq:
  "sorted_wrt (<) (map c_seq rows) \<Longrightarrow> a \<le> (b :: nat) \<Longrightarrow>
    filter (\<lambda>r. a < c_seq r) rows = filter (\<lambda>r. a < c_seq r \<and> c_seq r \<le> b) rows @ filter (\<lambda>r. b < c_seq r) rows"
proof (induction rows)
  case (Cons r rows)
  show ?case
  proof (cases "c_seq r \<le> b")
    case True
    then show ?thesis using Cons by auto
  next
    case False
    then have "filter (\<lambda>r. a < c_seq r \<and> c_seq r \<le> b) rows = []" using Cons.prems(1) by (auto simp: filter_empty_conv)
    then show ?thesis using Cons False by auto
  qed
qed simp

lemma tail_split:
  assumes "log_ok d" and "a \<le> b"
  shows "tailEventsSince a d = map event_of (filter (\<lambda>r. a < c_seq r \<and> c_seq r \<le> b) (le_rows d)) @ tailEventsSince b d"
  using filter_split_seq[OF _ assms(2), of "le_rows d"] assms(1) by (simp add: tail_rows log_ok_def)

text \<open>Appending to the log either fails and leaves every cursor read as it was, or makes every reader whose
  cursor lies within the log see exactly one more event, last, with the next sequence number and the fields
  that were given (a null exit code reads back as none).\<close>
theorem append_is_tailed:
  assumes "log_ok d" and "since \<le> le_last d" and "appendMonitorEvent sha broken url ev ddl d = (e, ddl1, d1)"
  shows "tailEventsSince since d1 = tailEventsSince since d @ (if e = None then [stored_event (le_last d + 1) ev] else [])"
  using assms(3)
proof (cases rule: append_cases)
  case failed
  then show ?thesis using assms(1) log_ok_same[OF failed(2,3)] by (simp add: tail_rows)
next
  case (appended d2)
  then have "log_ok d1" using append_log[OF assms(3,1)] by simp
  then show ?thesis using appended assms(1,2) insert_event_rows[OF appended(2)] by (simp add: tail_rows event_of_row_of)
qed

section \<open>Readers\<close>

text \<open>One process on one store: it emits, it publishes its projection, and a subscriber polls.\<close>

datatype feed_op = Emit "ddl \<Rightarrow> bool" MonitorEvent | Publish bool | Poll

record feed =
  fd_db :: loop_db
  fd_ddl :: "string list"
  fd_projection :: projection
  fd_subscriber :: "nat \<times> MonitorEvent list"

fun feed_op_step :: "(string \<Rightarrow> string) \<Rightarrow> string \<Rightarrow> feed_op \<Rightarrow> feed \<Rightarrow> feed" where
  "feed_op_step sha url (Emit broken ev) s =
     (case appendMonitorEvent sha broken url ev (fd_ddl s) (fd_db s) of (e, ddl1, d1) \<Rightarrow> s\<lparr>fd_ddl := ddl1, fd_db := d1\<rparr>)"
| "feed_op_step sha url (Publish fault) s =
     s\<lparr>fd_projection := snd (foldLatestStateIncremental fault (fd_db s) (fd_projection s))\<rparr>"
| "feed_op_step sha url Poll s = s\<lparr>fd_subscriber := subscribe_poll (fd_db s) (fd_subscriber s)\<rparr>"

definition run_feed :: "(string \<Rightarrow> string) \<Rightarrow> string \<Rightarrow> feed_op list \<Rightarrow> feed \<Rightarrow> feed" where
  "run_feed sha url = fold (feed_op_step sha url)"

lemma poll_result: "subscribe_poll d (c, out) =
  (let batch = tailEventsSince c d in (if batch = [] then c else v_seq (last batch), out @ batch))"
proof -
  have "fold (\<lambda>e (cursor, out). (v_seq e, out @ [e])) es (c, out) = (if es = [] then c else v_seq (last es), out @ es)" for es
    by (induction es arbitrary: c out) auto
  then show ?thesis by (simp add: subscribe_poll_def Let_def)
qed

lemma tail_last:
  assumes "log_ok d" and "c \<le> le_last d"
  defines "b \<equiv> (if tailEventsSince c d = [] then c else v_seq (last (tailEventsSince c d)))"
  shows "c \<le> b" "b \<le> le_last d" "tailEventsSince b d = []"
proof -
  let ?rows = "filter (\<lambda>r. c < c_seq r) (le_rows d)"
  have b: "b = (if ?rows = [] then c else c_seq (last ?rows))"
    using assms(1) by (simp add: b_def tail_rows last_map)
  have in_rows: "last ?rows \<in> set (le_rows d)" "c < c_seq (last ?rows)" if "?rows \<noteq> []"
    using last_in_set[OF that] by (simp_all only: set_filter mem_Collect_eq)
  show le: "c \<le> b" using b in_rows by (cases "?rows = []") auto
  show "b \<le> le_last d" using b in_rows assms(1,2) by (cases "?rows = []") (auto simp: log_ok_def)
  have "c_seq r \<le> b" if r: "r \<in> set (le_rows d)" for r
  proof (cases "c < c_seq r")
    case True
    with r have r: "r \<in> set ?rows" by simp
    have ne: "?rows \<noteq> []"
    proof
      assume "?rows = []"
      with r show False by (simp only: list.set empty_iff)
    qed
    then obtain ys z where yz: "?rows = ys @ [z]" by (metis append_butlast_last_id)
    have "sorted (map c_seq ?rows)"
      using assms(1) unfolding log_ok_def by (metis sorted_wrt_filter sorted_wrt_map sorted_wrt_mono_rel less_imp_le)
    then have "\<forall>x\<in>set ys. c_seq x \<le> c_seq z" unfolding yz by (simp add: sorted_append)
    moreover have "r \<in> set (ys @ [z])" using r unfolding yz .
    moreover have "b = c_seq z" using b unfolding yz by simp
    ultimately show ?thesis by auto
  qed (use le in simp)
  then show "tailEventsSince b d = []" using assms(1) by (fastforce simp: tail_rows filter_empty_conv)
qed

text \<open>What a reader with a cursor has seen is the part of the log between its start and its cursor.\<close>

definition upto :: "nat \<Rightarrow> nat \<Rightarrow> loop_db \<Rightarrow> MonitorEvent list" where
  "upto a b d = map event_of (filter (\<lambda>r. a < c_seq r \<and> c_seq r \<le> b) (le_rows d))"

lemma upto_tail:
  assumes "log_ok d" and "a \<le> c" and "c \<le> le_last d"
  defines "b \<equiv> (if tailEventsSince c d = [] then c else v_seq (last (tailEventsSince c d)))"
  shows "upto a c d @ tailEventsSince c d = upto a b d" and "upto a b d = tailEventsSince a d"
proof -
  have t: "c \<le> b" "tailEventsSince b d = []" using tail_last[OF assms(1,3)] by (simp_all add: b_def)
  have "tailEventsSince a d = upto a c d @ tailEventsSince c d" using tail_split[OF assms(1,2)] by (simp add: upto_def)
  moreover have "tailEventsSince a d = upto a b d @ tailEventsSince b d"
    using tail_split[OF assms(1) le_trans[OF assms(2) t(1)]] by (simp add: upto_def)
  ultimately show "upto a c d @ tailEventsSince c d = upto a b d" "upto a b d = tailEventsSince a d" using t(2) by simp_all
qed

definition feed_inv :: "nat \<Rightarrow> feed \<Rightarrow> bool" where
  "feed_inv a s \<longleftrightarrow> log_ok (fd_db s) \<and> projectionCursor (fd_projection s) \<le> le_last (fd_db s) \<and>
     projectionState (fd_projection s) = fold applyMonitorEvent (upto 0 (projectionCursor (fd_projection s)) (fd_db s)) [] \<and>
     a \<le> fst (fd_subscriber s) \<and> fst (fd_subscriber s) \<le> le_last (fd_db s) \<and>
     snd (fd_subscriber s) = upto a (fst (fd_subscriber s)) (fd_db s)"

lemma upto_append:
  "appendMonitorEvent sha broken url ev ddl d = (e, ddl1, d1) \<Longrightarrow> b \<le> le_last d \<Longrightarrow> upto a b d1 = upto a b d \<and> le_last d \<le> le_last d1"
  by (erule append_cases) (auto simp: upto_def insert_event_rows)

lemma advance_inv:
  assumes "log_ok d" and "projectionCursor p \<le> le_last d"
    and "projectionState p = fold applyMonitorEvent (upto 0 (projectionCursor p) d) []"
  defines "p1 \<equiv> advance_projection (tailEventsSince (projectionCursor p) d) p"
  shows "projectionCursor p1 \<le> le_last d" and "projectionState p1 = fold applyMonitorEvent (upto 0 (projectionCursor p1) d) []"
    and "map snd (projectionState p1) = foldLatestState d"
proof -
  note u = upto_tail[OF assms(1) le0 assms(2)]
  show "projectionCursor p1 \<le> le_last d" using tail_last(2)[OF assms(1,2)] by (simp add: p1_def advance_projection_def)
  have st: "projectionState p1 = fold applyMonitorEvent (upto 0 (projectionCursor p) d @ tailEventsSince (projectionCursor p) d) []"
    by (simp add: p1_def advance_projection_def assms(3))
  then show "projectionState p1 = fold applyMonitorEvent (upto 0 (projectionCursor p1) d) []"
    unfolding u(1) by (simp add: p1_def advance_projection_def)
  show "map snd (projectionState p1) = foldLatestState d"
    using st unfolding u by (simp add: foldLatestState_def foldEvents_def)
qed

lemma feed_inv_step: "feed_inv a s \<Longrightarrow> feed_inv a (feed_op_step sha url x s)"
proof (cases x)
  case (Emit broken ev)
  assume inv: "feed_inv a s"
  obtain e ddl1 d1 where r: "appendMonitorEvent sha broken url ev (fd_ddl s) (fd_db s) = (e, ddl1, d1)" by (metis prod_cases3)
  have "log_ok d1" using append_log[OF r] inv by (simp add: feed_inv_def)
  then show ?thesis using inv upto_append[OF r] le_trans by (fastforce simp: feed_inv_def Emit r)
next
  case (Publish fault)
  assume inv: "feed_inv a s"
  then show ?thesis using advance_inv[of "fd_db s" "fd_projection s"]
    by (auto simp: feed_inv_def Publish foldLatestStateIncremental_def Let_def)
next
  case Poll
  assume inv: "feed_inv a s"
  obtain c out where c: "fd_subscriber s = (c, out)" by force
  then have o: "log_ok (fd_db s)" "a \<le> c" "c \<le> le_last (fd_db s)" "out = upto a c (fd_db s)"
    using inv by (auto simp: feed_inv_def)
  show ?thesis using inv upto_tail(1)[OF o(1-3)] tail_last(1,2)[OF o(1,3)] o(2,4)
    by (auto simp: feed_inv_def Poll c poll_result Let_def)
qed

lemma feed_inv_run: "feed_inv a s \<Longrightarrow> feed_inv a (run_feed sha url ops s)"
  unfolding run_feed_def by (induction ops arbitrary: s) (auto simp: feed_inv_step)

definition start_feed :: "nat \<Rightarrow> string list \<Rightarrow> loop_db \<Rightarrow> feed" where
  "start_feed a ddl d = \<lparr>fd_db = d, fd_ddl = ddl, fd_projection = cold_projection, fd_subscriber = (a, [])\<rparr>"

lemma upto_same: "upto a a d = []"
  by (auto simp: upto_def filter_empty_conv)

lemma feed_inv_start: "log_ok d \<Longrightarrow> a \<le> le_last d \<Longrightarrow> feed_inv a (start_feed a ddl d)"
  by (auto simp: feed_inv_def start_feed_def cold_projection_def upto_same)

lemma feed_readers_parts:
  fixes sha :: "string \<Rightarrow> string" and url :: string and ops :: "feed_op list" and ddl :: "string list"
  assumes "log_ok d" and "a \<le> le_last d"
  defines "s \<equiv> run_feed sha url ops (start_feed a ddl d)"
  shows "fst (foldLatestStateIncremental False (fd_db s) (fd_projection s)) = Some (foldLatestState (fd_db s))"
    and "snd (subscribe_poll (fd_db s) (fd_subscriber s)) = tailEventsSince a (fd_db s)"
proof -
  have inv: "feed_inv a s" unfolding s_def by (rule feed_inv_run[OF feed_inv_start[OF assms(1,2)]])
  then show "fst (foldLatestStateIncremental False (fd_db s) (fd_projection s)) = Some (foldLatestState (fd_db s))"
    using advance_inv(3)[of "fd_db s" "fd_projection s"] by (simp add: foldLatestStateIncremental_def Let_def feed_inv_def)
  obtain c out where c: "fd_subscriber s = (c, out)" by force
  then have o: "log_ok (fd_db s)" "a \<le> c" "c \<le> le_last (fd_db s)" "out = upto a c (fd_db s)"
    using inv by (auto simp: feed_inv_def)
  then show "snd (subscribe_poll (fd_db s) (fd_subscriber s)) = tailEventsSince a (fd_db s)"
    using upto_tail[OF o(1-3)] by (simp add: c poll_result Let_def)
qed


definition demo_event :: "string \<Rightarrow> string \<Rightarrow> int \<Rightarrow> MonitorEvent" where
  "demo_event w k t = \<lparr>v_seq = 0, v_wgId = w, v_kind = k, v_stage = Some ''plan'', v_phase = Some ''p'', v_index = Some 1, v_total = Some 2,
     v_lifecycle = Some Done, v_processId = None, v_ownership = Some Owned, v_processInstanceId = None, v_runId = None,
     v_checkpointStage = None, v_lap = None, v_role = None, v_pid = Some 7, v_processGroupId = None, v_processStartIdentity = None,
     v_windowsJobName = None, v_windowsJobMetadata = None, v_exitCode = Some None, v_requestedBy = None, v_authorizedBy = None,
     v_actionId = None, v_scopeArtifactPath = None, v_scopeArtifactSha256 = None, v_scopeEvidenceKind = None,
     v_controlAction = Some Terminate, v_requestedAtMs = None, v_appliedAtMs = None, v_failedAtMs = None, v_failure = None, v_atMs = t\<rparr>"

lemma append_is_tailed_witness:
  "let d1 = snd (snd (appendMonitorEvent (\<lambda>s. []) (\<lambda>s. False) ''u'' (demo_event ''w'' ''phase_enter'' 5) [] new_loop_db))
   in tailEventsSince 0 d1 = [stored_event 1 (demo_event ''w'' ''phase_enter'' 5)]"
proof -
  let ?r = "appendMonitorEvent (\<lambda>s. []) (\<lambda>s. False) ''u'' (demo_event ''w'' ''phase_enter'' 5) [] new_loop_db"
  have "fst ?r = None" by code_simp
  then obtain ddl1 d1 where r: "?r = (None, ddl1, d1)" by (metis prod.collapse)
  have "le_last new_loop_db = 0" "tailEventsSince 0 new_loop_db = []" by code_simp+
  then show ?thesis using append_is_tailed[OF log_ok_new _ r, of 0] by (simp add: r)
qed


section \<open>The items\<close>

text \<open>The state of an item, read off the history: what the last relevant event says.\<close>

definition events_of :: "string \<Rightarrow> MonitorEvent list \<Rightarrow> MonitorEvent list" where
  "events_of w es = filter (\<lambda>e. v_wgId e = w) es"

definition item_event :: "MonitorEvent \<Rightarrow> bool" where
  "item_event e \<longleftrightarrow> \<not> process_kind (v_kind e)"

definition closes :: "MonitorEvent \<Rightarrow> bool" where
  "closes e \<longleftrightarrow> v_kind e \<in> {''item_shipped'', ''item_closed''}"

definition last_such :: "(MonitorEvent \<Rightarrow> bool) \<Rightarrow> MonitorEvent list \<Rightarrow> MonitorEvent option" where
  "last_such P es = List.find P (rev es)"

definition stages :: "MonitorEvent \<Rightarrow> bool" where
  "stages e \<longleftrightarrow> v_kind e = ''stage_advance''"

definition phases :: "MonitorEvent \<Rightarrow> bool" where
  "phases e \<longleftrightarrow> v_kind e \<in> {''stage_advance'', ''phase_enter'', ''phase_leave''}"

definition shown_phase :: "MonitorEvent list \<Rightarrow> (string \<times> PhaseLifecycle) option" where
  "shown_phase es = (case last_such phases es of None \<Rightarrow> None
   | Some e \<Rightarrow> if v_kind e = ''stage_advance'' then None
       else map_option (\<lambda>ph. (ph, if v_kind e = ''phase_enter'' then Running else Done)) (v_phase e))"

definition item_says :: "MonitorEvent list \<Rightarrow> LoopFoldState \<Rightarrow> bool" where
  "item_says es s \<longleftrightarrow> f_terminal s = list_ex closes es \<and> f_lastEventAtMs s = v_atMs (last es) \<and>
     f_stage s = Option.bind (last_such stages es) v_stage \<and>
     map_option (\<lambda>ph. (ph, case f_lifecycle s of Some l \<Rightarrow> l | None \<Rightarrow> Done)) (f_phase s) = shown_phase es"

lemma last_such_snoc: "last_such P (es @ [e]) = (if P e then Some e else last_such P es)"
  by (simp add: last_such_def)

lemma closing_kinds: "closes e \<Longrightarrow> item_event e" "stages e \<Longrightarrow> item_event e" "phases e \<Longrightarrow> item_event e"
  by (auto simp: closes_def stages_def phases_def item_event_def process_kind_def starts_with_def)


lemma process_item_says:
  assumes "item_says es s" and "\<not> item_event e"
  shows "item_says (es @ [e]) (s\<lparr>f_lastEventAtMs := v_atMs e\<rparr>)"
proof -
  have "\<not> closes e" "\<not> stages e" "\<not> phases e" using assms(2) closing_kinds by blast+
  then show ?thesis using assms(1) by (simp add: item_says_def last_such_snoc shown_phase_def)
qed

definition fresh :: "string \<Rightarrow> LoopFoldState \<Rightarrow> bool" where
  "fresh w s \<longleftrightarrow> f_wgId s = w \<and> f_stage s = None \<and> f_phase s = None \<and> \<not> f_terminal s"

lemma fold_item_says:
  assumes "item_says es s \<or> (\<not> list_ex item_event es \<and> fresh w s)"
  shows "item_says (es @ [e]) (fold_item e (s\<lparr>f_lastEventAtMs := v_atMs e\<rparr>))"
proof -
  have none: "last_such P es = None" if "\<not> list_ex item_event es" "\<And>e. P e \<Longrightarrow> item_event e" for P
    using that by (auto simp: last_such_def find_None_iff list_ex_iff)
  have nc: "\<not> list_ex closes es" if "\<not> list_ex item_event es" using that closing_kinds(1) by (auto simp: list_ex_iff)
  have says: "f_terminal s = list_ex closes es" "f_stage s = Option.bind (last_such stages es) v_stage"
    "map_option (\<lambda>ph. (ph, case f_lifecycle s of Some l \<Rightarrow> l | None \<Rightarrow> Done)) (f_phase s) = shown_phase es"
    using assms nc none[of stages] none[of phases] closing_kinds
    by (auto simp: item_says_def fresh_def shown_phase_def)
  show ?thesis
    using says by (auto simp: item_says_def fold_item_def last_such_snoc closes_def stages_def phases_def shown_phase_def split: option.splits)
qed

lemma apply_item_event: "item_event e \<Longrightarrow> map_of (applyMonitorEvent e b) (v_wgId e) =
    Some (fold_item e ((case map_of b (v_wgId e) of None \<Rightarrow> new_item e | Some s \<Rightarrow> s)\<lparr>f_lastEventAtMs := v_atMs e\<rparr>))"
  by (simp add: applyMonitorEvent_def item_event_def update_conv' Let_def)

text \<open>The board after any sequence of events: an item is on it exactly when some event of it is not about a
  process; it is terminal exactly when some event of it closed or shipped it, whatever came after; its stage is
  that of the last stage advance, its phase that of the last phase event since, running or done as that
  event says; and its time is that of its last event.\<close>
theorem board_by_history:
  "case map_of (fold applyMonitorEvent es []) w of
     None \<Rightarrow> \<not> list_ex item_event (events_of w es)
   | Some s \<Rightarrow> f_wgId s = w \<and> list_ex item_event (events_of w es) \<and> item_says (events_of w es) s"
proof (induction es rule: rev_induct)
  case (snoc e es)
  let ?b = "fold applyMonitorEvent es []"
  show ?case
  proof (cases "v_wgId e = w")
    case False
    then have "map_of (applyMonitorEvent e ?b) w = map_of ?b w"
      by (simp add: applyMonitorEvent_def Let_def update_conv' split: option.splits)
    then show ?thesis using snoc False by (simp add: events_of_def split: option.splits)
  next
    case True
    show ?thesis
    proof (cases "item_event e")
      case False
      then show ?thesis using snoc True process_item_says[OF _ False]
        by (auto simp: applyMonitorEvent_def item_event_def events_of_def update_conv' split: option.splits)
    next
      case item: True
      have id: "f_wgId (fold_item e s) = f_wgId s" for s by (simp add: fold_item_def)
      have ev: "events_of w (es @ [e]) = events_of w es @ [e]" using True by (simp add: events_of_def)
      show ?thesis
      proof (cases "map_of ?b w")
        case None
        have "fresh w (new_item e)" using True by (simp add: fresh_def new_item_def)
        then have "item_says (events_of w (es @ [e])) (fold_item e ((new_item e)\<lparr>f_lastEventAtMs := v_atMs e\<rparr>))"
          using fold_item_says[of "events_of w es" "new_item e" w e] snoc None ev by simp
        then show ?thesis using None True item ev apply_item_event[OF item, of ?b] id[of "(new_item e)\<lparr>f_lastEventAtMs := v_atMs e\<rparr>"]
          by (simp add: new_item_def)
      next
        case (Some s)
        then show ?thesis using snoc fold_item_says[of "events_of w es" s w e] True item ev
            apply_item_event[OF item, of ?b] id[of "s\<lparr>f_lastEventAtMs := v_atMs e\<rparr>"]
          by simp
      qed
    qed
  qed
qed (simp add: events_of_def)

section \<open>Receipts are final\<close>

text \<open>What the digest is relied on for: 64 lower-case hexadecimal digits.\<close>

definition hex_digest :: "(string \<Rightarrow> string) \<Rightarrow> bool" where
  "hex_digest sha \<longleftrightarrow> (\<forall>s. length (sha s) = 64 \<and> lower_hex (sha s))"

definition receipts_ok :: "(string \<Rightarrow> string) \<Rightarrow> LoopEventRow list \<Rightarrow> bool" where
  "receipts_ok sha rows \<longleftrightarrow> list_all (semantic_row sha) (filter handoff_row rows) \<and>
     distinct (map c_action_id (filter handoff_row rows)) \<and> distinct (map c_wg_id (filter handoff_row rows))"

definition store_ready :: "(string \<Rightarrow> string) \<Rightarrow> loop_db \<Rightarrow> bool" where
  "store_ready sha d \<longleftrightarrow> set COLUMNS \<subseteq> set (le_columns d) \<and> {ActionIndex, ItemIndex, LegacyIndex, InsertGuard} \<subseteq> set (le_objects d) \<and>
     receipts_ok sha (le_rows d)"

lemma check_receipts_None: "check_receipts sha rs actions items = None \<longleftrightarrow>
  list_all (semantic_row sha) rs \<and> distinct (map c_action_id rs) \<and> distinct (map c_wg_id rs) \<and>
  set (map c_action_id rs) \<inter> set actions = {} \<and> set (map c_wg_id rs) \<inter> set items = {}"
  by (induction rs arbitrary: actions items) auto

lemma length_HANDOFF [simp]: "length HANDOFF_V1 = 17" "length HANDOFF = 14"
  by (simp_all add: HANDOFF_V1_def HANDOFF_def)

lemma v1_is_handoff: "take 17 a = HANDOFF_V1 \<Longrightarrow> starts_with a HANDOFF \<and> like_handoff a"
proof -
  assume a: "take 17 a = HANDOFF_V1"
  have t: "take 14 HANDOFF_V1 = HANDOFF" "map lower_char HANDOFF = HANDOFF" by code_simp+
  have "take 14 a = take 14 (take 17 a)" by simp
  also have "\<dots> = HANDOFF" unfolding a by (rule t(1))
  finally have "take 14 a = HANDOFF" .
  then show ?thesis using t(2) by (simp add: starts_with_def like_handoff_def take_map)
qed

lemma predicate_handoff: "SCOPE_HANDOFF_RECEIPT_PREDICATE r \<Longrightarrow> handoff_row r"
  by (auto simp: SCOPE_HANDOFF_RECEIPT_PREDICATE_def handoff_row_def holds_def on_text_def v1_action_def v1_is_handoff split: option.splits)

lemma action_id_v1: "hex_digest sha \<Longrightarrow> v1_action (scopeHandoffActionId sha w a)"
  by (simp add: v1_action_def scopeHandoffActionId_def hex_digest_def)

lemma semantic_predicate: "hex_digest sha \<Longrightarrow> semantic_row sha r \<Longrightarrow> SCOPE_HANDOFF_RECEIPT_PREDICATE r"
  by (auto simp: semantic_row_def isSemanticScopeReceipt_def SCOPE_HANDOFF_RECEIPT_PREDICATE_def action_id_v1 split: option.splits)

subsection \<open>A settled schema\<close>

fun objects_after :: "ddl \<Rightarrow> loop_object set \<Rightarrow> loop_object set" where
  "objects_after (CreateObject ob) S = insert ob S"
| "objects_after (DropObject ob) S = S - {ob}"
| "objects_after _ S = S"

fun columns_after :: "ddl \<Rightarrow> string set \<Rightarrow> string set" where
  "columns_after CreateTable S = (if S = {} then set COLUMNS else S)"
| "columns_after (AddColumn c) S = insert c S"
| "columns_after _ S = S"

lemma exec_ddl_schema: "exec_ddl sha s d = Inr d1 \<Longrightarrow>
  set (le_objects d1) = objects_after s (set (le_objects d)) \<and> set (le_columns d1) = columns_after s (set (le_columns d))"
  by (cases s) (auto simp: exec_ddl_def split: if_splits option.splits)

lemma run_ddl_schema: "run_ddl sha broken ss d = (None, d1) \<Longrightarrow>
  set (le_objects d1) = fold objects_after ss (set (le_objects d)) \<and> set (le_columns d1) = fold columns_after ss (set (le_columns d))"
proof (induction ss arbitrary: d)
  case (Cons s ss)
  then show ?case using exec_ddl_schema[of sha s d] by (auto split: if_splits sum.splits)
qed simp

lemma run_ddl_checked: "run_ddl sha broken ss d = (None, d1) \<Longrightarrow> CheckReceipts \<in> set ss \<Longrightarrow> receipts_ok sha (le_rows d)"
proof (induction ss arbitrary: d)
  case (Cons s ss)
  then obtain d2 where d2: "exec_ddl sha s d = Inr d2" "run_ddl sha broken ss d2 = (None, d1)" by (auto split: if_splits sum.splits)
  show ?case
  proof (cases "s = CheckReceipts")
    case True
    then show ?thesis using d2(1) by (auto simp: exec_ddl_def receipts_ok_def check_receipts_None split: option.splits)
  next
    case False
    then show ?thesis using Cons.IH[OF d2(2)] Cons.prems(2) exec_ddl_rows[OF d2(1)] by auto
  qed
qed simp

definition BASE_COLUMNS :: "string list" where
  "BASE_COLUMNS = take 8 COLUMNS @ [last COLUMNS]"

definition migratable :: "loop_db \<Rightarrow> bool" where
  "migratable d \<longleftrightarrow> le_columns d = [] \<or> set BASE_COLUMNS \<subseteq> set (le_columns d)"

lemma columns_after_adds: "fold columns_after (map AddColumn cs) S = set cs \<union> S"
  by (induction cs arbitrary: S) auto

lemma columns_split: "set COLUMNS = set BASE_COLUMNS \<union> set additions"
  by code_simp

lemma ensured_ready:
  assumes "ensureLoopEventSchema sha broken url ddl d = (None, ddl1, d1)" and "url \<notin> set ddl" and "migratable d"
  shows "store_ready sha d1" and "ddl1 = url # ddl"
proof -
  have r: "run_ddl sha broken SCRIPT d = (None, d1)" and "ddl1 = url # ddl"
    using assms(1,2) by (auto simp: ensureLoopEventSchema_def split: prod.splits option.splits)
  then show "ddl1 = url # ddl" by simp
  have "receipts_ok sha (le_rows d1)"
    using run_ddl_checked[OF r] run_ddl_rows[of sha broken SCRIPT d] r by (simp add: SCRIPT_def)
  moreover have "{ActionIndex, ItemIndex, LegacyIndex, InsertGuard} \<subseteq> set (le_objects d1)"
  proof -
    have "fold objects_after (map AddColumn cs) S = S" for cs S by (induction cs) auto
    then show ?thesis using run_ddl_schema[OF r] by (simp add: SCRIPT_def)
  qed
  moreover have "set COLUMNS \<subseteq> set (le_columns d1)"
    using run_ddl_schema[OF r] assms(3) by (auto simp: SCRIPT_def columns_after_adds columns_split migratable_def)
  ultimately show "store_ready sha d1" by (simp add: store_ready_def)
qed

lemma unready_refused:
  assumes "\<not> receipts_ok sha (le_rows d)" and "url \<notin> set ddl"
  shows "fst (ensureLoopEventSchema sha broken url ddl d) \<noteq> None"
proof
  assume "fst (ensureLoopEventSchema sha broken url ddl d) = None"
  then obtain d1 where "run_ddl sha broken SCRIPT d = (None, d1)"
    using assms(2) by (auto simp: ensureLoopEventSchema_def split: prod.splits option.splits)
  then show False using run_ddl_checked assms(1) by (fastforce simp: SCRIPT_def)
qed

subsection \<open>Insertions keep the receipts\<close>

lemma valid_false: "v1_action a = False \<Longrightarrow> c_action_id r = Some a \<Longrightarrow> VALID_NEW_SCOPE_RECEIPT r = Some False"
  by (simp add: VALID_NEW_SCOPE_RECEIPT_def on_text_def and3_def)

lemma guarded_event:
  assumes "\<not> (case c_action_id r of None \<Rightarrow> False | Some a \<Rightarrow> starts_with a HANDOFF)" and "\<not> insert_guard_fires r"
  shows "\<not> handoff_row r"
proof
  assume h: "handoff_row r"
  then obtain a where a: "c_action_id r = Some a" "like_handoff a" by (auto simp: handoff_row_def holds_def on_text_def)
  then have "\<not> v1_action a" using assms(1) v1_is_handoff by (auto simp: v1_action_def)
  then have "VALID_NEW_SCOPE_RECEIPT r = Some False" using a(1) valid_false by blast
  then show False using assms(2) a by (simp add: insert_guard_fires_def holds_def on_text_def and3_def)
qed

lemma semantic_seq [simp]:
  "semantic_row sha (r\<lparr>c_seq := n\<rparr>) = semantic_row sha r" "handoff_row (r\<lparr>c_seq := n\<rparr>) = handoff_row r"
  "SCOPE_HANDOFF_RECEIPT_PREDICATE (r\<lparr>c_seq := n\<rparr>) = SCOPE_HANDOFF_RECEIPT_PREDICATE r"
  by (auto simp: semantic_row_def handoff_row_def SCOPE_HANDOFF_RECEIPT_PREDICATE_def split: option.splits)

lemma insert_ready:
  assumes "store_ready sha d" and "hex_digest sha" and "insert_event cols r d = Inr d1" and "\<not> handoff_row r \<or> semantic_row sha r"
  shows "store_ready sha d1"
proof -
  have ok: "receipts_ok sha (le_rows d)" "{ActionIndex, ItemIndex, LegacyIndex, InsertGuard} \<subseteq> set (le_objects d)"
    using assms(1) by (auto simp: store_ready_def)
  have "receipts_ok sha (le_rows d1)"
  proof (cases "handoff_row r")
    case False
    then show ?thesis using ok(1) insert_event_rows[OF assms(3)] by (simp add: receipts_ok_def)
  next
    case True
    then have r: "semantic_row sha r" "SCOPE_HANDOFF_RECEIPT_PREDICATE r" using assms(2,4) semantic_predicate by blast+
    have old: "SCOPE_HANDOFF_RECEIPT_PREDICATE x" if "x \<in> set (le_rows d)" "handoff_row x" for x
      using ok(1) that assms(2) semantic_predicate by (auto simp: receipts_ok_def list_all_iff)
    have "\<not> list_ex (same_action r) (le_rows d)" "\<not> list_ex (same_item r) (le_rows d)"
      using assms(3) ok(2) by (auto simp: insert_event_def split: if_splits)
    then have "c_action_id r \<notin> c_action_id ` set (filter handoff_row (le_rows d))" "c_wg_id r \<notin> c_wg_id ` set (filter handoff_row (le_rows d))"
      using old r(2) by (auto simp: same_action_def same_item_def list_ex_iff)
    then show ?thesis using ok(1) r True insert_event_rows[OF assms(3)] by (simp add: receipts_ok_def)
  qed
  then show ?thesis using assms(1) insert_event_rows[OF assms(3)] by (simp add: store_ready_def)
qed

lemma append_ready:
  assumes "appendMonitorEvent sha broken url ev ddl d = (e, ddl1, d1)" and "store_ready sha d" and "url \<in> set ddl" and "hex_digest sha"
  shows "store_ready sha d1 \<and> ddl1 = ddl"
proof -
  have en: "ensureLoopEventSchema sha broken url ddl d = (None, ddl, d)" using assms(3) by (simp add: ensureLoopEventSchema_def)
  have "\<not> handoff_row (row_of ev)" if "insert_event (tl COLUMNS) (row_of ev) d = Inr d2"
      "\<not> (case v_actionId ev of None \<Rightarrow> False | Some a \<Rightarrow> starts_with a HANDOFF)" for d2
    using that assms(2) by (intro guarded_event) (auto simp: row_of_def insert_event_def store_ready_def split: if_splits)
  then show ?thesis using assms(1,2,4) en insert_ready
    by (auto simp: appendMonitorEvent_def split: if_splits sum.splits)
qed

subsection \<open>Reading a receipt\<close>

lemma filter_by_key:
  "distinct (map f (filter P xs)) \<Longrightarrow> filter (\<lambda>r. f r = k \<and> P r) xs = (case List.find (\<lambda>r. f r = k \<and> P r) xs of None \<Rightarrow> [] | Some r \<Rightarrow> [r])"
proof (induction xs)
  case (Cons x xs)
  then show ?case by (auto simp: filter_empty_conv image_iff split: if_splits option.splits)
qed simp

definition receipt_of :: "LoopEventRow \<Rightarrow> ScopeHandoffReceipt" where
  "receipt_of r = \<lparr>s_seq = c_seq r, s_wgId = c_wg_id r, s_actionId = the (c_action_id r), s_stage = the (c_stage r),
     s_artifactPath = the (c_scope_artifact_path r), s_artifactSha256 = the (c_scope_artifact_sha256 r),
     s_evidenceKind = the (read_evidence (the (c_scope_evidence_kind r)))\<rparr>"

lemma decode_semantic: "semantic_row sha r \<Longrightarrow> decodeScopeHandoffReceipt sha r = Inr (receipt_of r)"
  by (auto simp: semantic_row_def decodeScopeHandoffReceipt_def receipt_of_def isSemanticScopeReceipt_def read_evidence_def
      split: option.splits)

lemma ready_predicate: "store_ready sha d \<Longrightarrow> hex_digest sha \<Longrightarrow> r \<in> set (le_rows d) \<Longrightarrow>
    SCOPE_HANDOFF_RECEIPT_PREDICATE r = handoff_row r \<and> (handoff_row r \<longrightarrow> semantic_row sha r)"
  using predicate_handoff semantic_predicate by (auto simp: store_ready_def receipts_ok_def list_all_iff)

lemma find_cong: "(\<And>x. x \<in> set xs \<Longrightarrow> P x = Q x) \<Longrightarrow> List.find P xs = List.find Q xs"
  by (induction xs) auto

lemma only_receipt_found:
  assumes "store_ready sha d" and "hex_digest sha" and "ix \<in> {ActionIndex, ItemIndex}"
    and "rows = (case List.find P (le_rows d) of None \<Rightarrow> [] | Some r \<Rightarrow> [r])" and "\<And>r. P r \<Longrightarrow> handoff_row r"
  shows "only_receipt sha ix d rows = Inr (map_option receipt_of (List.find P (le_rows d)))"
proof (cases "List.find P (le_rows d)")
  case None
  then show ?thesis using assms(1,3,4) by (auto simp: only_receipt_def store_ready_def)
next
  case (Some r)
  then have "r \<in> set (le_rows d)" "P r" by (auto simp: find_Some_iff)
  then have "semantic_row sha r" using ready_predicate[OF assms(1,2)] assms(5) by blast
  then show ?thesis using Some assms(1,3,4) by (auto simp: only_receipt_def store_ready_def decode_semantic)
qed

lemma read_by_item:
  assumes "store_ready sha d" and "hex_digest sha"
  shows "readScopeHandoffByItem sha w d = Inr (map_option receipt_of (List.find (\<lambda>r. c_wg_id r = w \<and> handoff_row r) (le_rows d)))"
proof -
  have "filter (\<lambda>r. c_wg_id r = w \<and> SCOPE_HANDOFF_RECEIPT_PREDICATE r) (le_rows d) = filter (\<lambda>r. c_wg_id r = w \<and> handoff_row r) (le_rows d)"
    using ready_predicate[OF assms] by (intro filter_cong) auto
  also have "\<dots> = (case List.find (\<lambda>r. c_wg_id r = w \<and> handoff_row r) (le_rows d) of None \<Rightarrow> [] | Some r \<Rightarrow> [r])"
    using assms(1) by (intro filter_by_key) (simp add: store_ready_def receipts_ok_def)
  finally show ?thesis unfolding readScopeHandoffByItem_def
    by (intro only_receipt_found[OF assms]) (auto split: option.splits)
qed

lemma read_by_action:
  assumes "store_ready sha d" and "hex_digest sha"
  shows "readScopeHandoffByAction sha a d = Inr (map_option receipt_of (List.find (\<lambda>r. c_action_id r = Some a \<and> handoff_row r) (le_rows d)))"
proof -
  have "filter (\<lambda>r. c_action_id r = Some a \<and> SCOPE_HANDOFF_RECEIPT_PREDICATE r) (le_rows d) = filter (\<lambda>r. c_action_id r = Some a \<and> handoff_row r) (le_rows d)"
    using ready_predicate[OF assms] by (intro filter_cong) auto
  also have "\<dots> = (case List.find (\<lambda>r. c_action_id r = Some a \<and> handoff_row r) (le_rows d) of None \<Rightarrow> [] | Some r \<Rightarrow> [r])"
    using assms(1) by (intro filter_by_key) (simp add: store_ready_def receipts_ok_def)
  finally show ?thesis unfolding readScopeHandoffByAction_def
    by (intro only_receipt_found[OF assms]) (auto split: option.splits)
qed

subsection \<open>Every writer\<close>

datatype log_op = Record "ddl \<Rightarrow> bool" MonitorEvent | Receipt "ddl \<Rightarrow> bool" ScopeHandoffReceipt int

fun log_step :: "(string \<Rightarrow> string) \<Rightarrow> string \<Rightarrow> log_op \<Rightarrow> string list \<times> loop_db \<Rightarrow> string list \<times> loop_db" where
  "log_step sha url (Record broken ev) (ddl, d) = snd (appendMonitorEvent sha broken url ev ddl d)"
| "log_step sha url (Receipt broken x at) (ddl, d) =
     (case ensureLoopEventSchema sha broken url ddl d of
        (Some e, ddl1, d1) \<Rightarrow> (ddl1, d1)
      | (None, ddl1, d1) \<Rightarrow> (ddl1, case insertScopeHandoffReceipt sha x at d1 of Inl e \<Rightarrow> d1 | Inr d2 \<Rightarrow> d2))"

definition run_log :: "(string \<Rightarrow> string) \<Rightarrow> string \<Rightarrow> log_op list \<Rightarrow> string list \<times> loop_db \<Rightarrow> string list \<times> loop_db" where
  "run_log sha url = fold (log_step sha url)"

lemma receipt_row_semantic: "isSemanticScopeReceipt sha w a st p dg ev \<Longrightarrow> semantic_row sha (receipt_row w a st p dg ev at)"
  by (simp add: semantic_row_def receipt_row_def)

lemma put_ready:
  assumes "insertScopeHandoffReceipt sha x at d = Inr d1" and "store_ready sha d" and "hex_digest sha"
  shows "store_ready sha d1"
  using assms insert_ready receipt_row_semantic by (auto simp: insertScopeHandoffReceipt_def split: if_splits)

lemma log_step_grows: "\<exists>new. le_rows (snd (log_step sha url x (ddl, d))) = le_rows d @ new"
proof (cases x)
  case (Record broken ev)
  obtain e ddl1 d1 where r: "appendMonitorEvent sha broken url ev ddl d = (e, ddl1, d1)" by (metis prod_cases3)
  from r show ?thesis by (cases rule: append_cases) (auto simp: Record r insert_event_rows)
next
  case (Receipt broken y at)
  obtain e ddl1 d1 where r: "ensureLoopEventSchema sha broken url ddl d = (e, ddl1, d1)" by (metis prod_cases3)
  then show ?thesis using ensure_rows[OF r] insert_event_rows
    by (auto simp: Receipt insertScopeHandoffReceipt_def split: option.splits sum.splits)
qed

lemma log_step_ready:
  assumes "store_ready sha d" and "url \<in> set ddl" and "hex_digest sha"
  shows "store_ready sha (snd (log_step sha url x (ddl, d))) \<and> fst (log_step sha url x (ddl, d)) = ddl"
proof (cases x)
  case (Record broken ev)
  obtain e ddl1 d1 where r: "appendMonitorEvent sha broken url ev ddl d = (e, ddl1, d1)" by (metis prod_cases3)
  then show ?thesis using append_ready[OF r assms] by (simp add: Record)
next
  case (Receipt broken y at)
  have "ensureLoopEventSchema sha broken url ddl d = (None, ddl, d)" using assms(2) by (simp add: ensureLoopEventSchema_def)
  then show ?thesis using assms(1,3) put_ready by (auto simp: Receipt split: sum.splits)
qed

lemma run_log_ready:
  assumes "store_ready sha d" and "url \<in> set ddl" and "hex_digest sha"
  shows "store_ready sha (snd (run_log sha url ops (ddl, d))) \<and> fst (run_log sha url ops (ddl, d)) = ddl \<and>
    (\<exists>new. le_rows (snd (run_log sha url ops (ddl, d))) = le_rows d @ new)"
  using assms(1)
proof (induction ops arbitrary: d)
  case (Cons x ops)
  obtain d1 where d1: "log_step sha url x (ddl, d) = (ddl, d1)" "store_ready sha d1"
    using log_step_ready[OF Cons.prems assms(2,3), of x] by (metis prod.collapse)
  obtain new where "le_rows d1 = le_rows d @ new" using log_step_grows[of sha url x ddl d] d1(1) by auto
  then show ?case using Cons.IH[OF d1(2)] d1(1) by (auto simp: run_log_def)
qed (simp add: run_log_def)

lemma receipt_is_final_parts:
  assumes "hex_digest sha" and "store_ready sha d" and "url \<in> set ddl" and "insertScopeHandoffReceipt sha x at d = Inr d1"
    and "run_log sha url ops (ddl, d1) = (ddl2, d2)"
  shows "readScopeHandoffByItem sha (s_wgId x) d2 = Inr (Some (x\<lparr>s_seq := le_last d + 1\<rparr>))"
    and "readScopeHandoffByAction sha (s_actionId x) d2 = Inr (Some (x\<lparr>s_seq := le_last d + 1\<rparr>))"
    and "receipts_ok sha (le_rows d2)"
proof -
  let ?r = "(receipt_row (s_wgId x) (s_actionId x) (s_stage x) (s_artifactPath x) (s_artifactSha256 x)
    (evidence_text (s_evidenceKind x)) at)\<lparr>c_seq := le_last d + 1\<rparr>"
  have ins: "insert_event RECEIPT_COLUMNS (receipt_row (s_wgId x) (s_actionId x) (s_stage x) (s_artifactPath x) (s_artifactSha256 x)
      (evidence_text (s_evidenceKind x)) at) d = Inr d1" and sem: "semantic_row sha ?r"
    using assms(4) by (simp_all add: insertScopeHandoffReceipt_def receipt_row_semantic split: if_splits)
  have none: "\<not> list_ex (same_action ?r) (le_rows d)" "\<not> list_ex (same_item ?r) (le_rows d)"
    using ins assms(2) by (simp_all add: insert_event_def store_ready_def same_action_def[abs_def] same_item_def[abs_def] split: if_splits)
  note ins = insert_event_rows(1)[OF ins]
  have r1: "store_ready sha d1" by (rule put_ready[OF assms(4,2,1)])
  obtain new where new: "le_rows d2 = le_rows d @ ?r # new" and r2: "store_ready sha d2"
    using run_log_ready[OF r1 assms(3,1), of ops] assms(5) ins by auto
  then show "receipts_ok sha (le_rows d2)" by (simp add: store_ready_def)
  have pr: "SCOPE_HANDOFF_RECEIPT_PREDICATE ?r" "handoff_row ?r"
    using semantic_predicate[OF assms(1) sem] predicate_handoff by blast+
  have old: "SCOPE_HANDOFF_RECEIPT_PREDICATE y" if "y \<in> set (le_rows d)" "handoff_row y" for y
    using ready_predicate[OF assms(2,1)] that by blast
  have "List.find (\<lambda>r. c_wg_id r = s_wgId x \<and> handoff_row r) (le_rows d) = None"
    using none(2) old pr by (auto simp: find_None_iff list_ex_iff same_item_def receipt_row_def)
  then have "List.find (\<lambda>r. c_wg_id r = s_wgId x \<and> handoff_row r) (le_rows d2) = Some ?r"
    using pr(2) by (simp add: new find_append) (simp add: receipt_row_def)
  then show "readScopeHandoffByItem sha (s_wgId x) d2 = Inr (Some (x\<lparr>s_seq := le_last d + 1\<rparr>))"
    by (simp add: read_by_item[OF r2 assms(1)] receipt_of_def receipt_row_def)
  have "List.find (\<lambda>r. c_action_id r = Some (s_actionId x) \<and> handoff_row r) (le_rows d) = None"
    using none(1) old pr by (auto simp: find_None_iff list_ex_iff same_action_def receipt_row_def)
  then have "List.find (\<lambda>r. c_action_id r = Some (s_actionId x) \<and> handoff_row r) (le_rows d2) = Some ?r"
    using pr(2) by (simp add: new find_append) (simp add: receipt_row_def)
  then show "readScopeHandoffByAction sha (s_actionId x) d2 = Inr (Some (x\<lparr>s_seq := le_last d + 1\<rparr>))"
    by (simp add: read_by_action[OF r2 assms(1)] receipt_of_def receipt_row_def)
qed

text \<open>C24. A scope-handoff receipt that was written is final: on a store whose schema is settled, once the
  dedicated writer has stored a receipt, then after any events and any other receipts, valid or not, that any
  caller records, the item and the action id still answer that receipt, unchanged, with the sequence number it
  got; and the store never again has an invalid or a second receipt.\<close>
theorem receipt_is_final:
  assumes "hex_digest sha" and "store_ready sha d" and "url \<in> set ddl" and "insertScopeHandoffReceipt sha x at d = Inr d1"
    and "run_log sha url ops (ddl, d1) = (ddl2, d2)"
  shows "readScopeHandoffByItem sha (s_wgId x) d2 = Inr (Some (x\<lparr>s_seq := le_last d + 1\<rparr>)) \<and>
    readScopeHandoffByAction sha (s_actionId x) d2 = Inr (Some (x\<lparr>s_seq := le_last d + 1\<rparr>)) \<and> receipts_ok sha (le_rows d2)"
  using receipt_is_final_parts[OF assms] by blast


section \<open>Concrete stores\<close>

definition demo_sha :: "string \<Rightarrow> string" where
  "demo_sha s = replicate 64 (hex_digit (length s mod 16))"

lemma demo_sha_hex: "hex_digest demo_sha"
proof -
  have "list_all (\<lambda>i. lower_hex (replicate 64 (hex_digit i))) [0..<16]" by code_simp
  then have "lower_hex (replicate 64 (hex_digit (n mod 16)))" for n by (auto simp: list_all_iff)
  then show ?thesis by (simp add: hex_digest_def demo_sha_def)
qed

definition demo_store :: loop_db where
  "demo_store = snd (snd (ensureLoopEventSchema demo_sha (\<lambda>s. False) ''u'' [] new_loop_db))"

lemma demo_store_ready: "store_ready demo_sha demo_store"
proof -
  let ?r = "ensureLoopEventSchema demo_sha (\<lambda>s. False) ''u'' [] new_loop_db"
  have "fst ?r = None" by code_simp
  then obtain ddl1 d1 where r: "?r = (None, ddl1, d1)" by (metis prod.collapse)
  have "migratable new_loop_db" by (simp add: migratable_def new_loop_db_def)
  then show ?thesis using ensured_ready[OF r] by (simp add: demo_store_def r)
qed

definition demo_receipt :: "string \<Rightarrow> string \<Rightarrow> ScopeHandoffReceipt" where
  "demo_receipt w path = \<lparr>s_seq = 0, s_wgId = w, s_actionId = scopeHandoffActionId demo_sha w path, s_stage = ''plan'',
     s_artifactPath = path, s_artifactSha256 = replicate 64 (CHR ''0''), s_evidenceKind = Approval\<rparr>"

theorem receipt_is_final_witness:
  "case insertScopeHandoffReceipt demo_sha (demo_receipt ''w'' ''/d/p'') 5 demo_store of
     Inl e \<Rightarrow> False
   | Inr d1 \<Rightarrow> readScopeHandoffByItem demo_sha ''w''
       (snd (run_log demo_sha ''u'' [Receipt (\<lambda>s. False) (demo_receipt ''w'' ''/d/other'') 6,
          Record (\<lambda>s. False) (demo_event ''w'' ''item_closed'' 7)] ([''u''], d1))) =
       Inr (Some ((demo_receipt ''w'' ''/d/p'')\<lparr>s_seq := 1\<rparr>))"
proof -
  let ?ops = "[Receipt (\<lambda>s. False) (demo_receipt ''w'' ''/d/other'') 6, Record (\<lambda>s. False) (demo_event ''w'' ''item_closed'' 7)]"
  have "case insertScopeHandoffReceipt demo_sha (demo_receipt ''w'' ''/d/p'') 5 demo_store of Inl e \<Rightarrow> False | Inr d1 \<Rightarrow> True"
    by code_simp
  then obtain d1 where d1: "insertScopeHandoffReceipt demo_sha (demo_receipt ''w'' ''/d/p'') 5 demo_store = Inr d1"
    by (auto split: sum.splits)
  obtain ddl2 d2 where r: "run_log demo_sha ''u'' ?ops ([''u''], d1) = (ddl2, d2)" by force
  have "le_last demo_store = 0" by code_simp
  then show ?thesis using receipt_is_final[OF demo_sha_hex demo_store_ready _ d1 r] d1 r by (simp add: demo_receipt_def)
qed

text \<open>A row in the receipt namespace whose evidence kind is null: the guard's condition is then unknown, not false.\<close>

definition null_evidence :: LoopEventRow where
  "null_evidence = (receipt_row ''w'' (scopeHandoffActionId demo_sha ''w'' ''/d/p'') ''plan'' ''/d/p'' (replicate 64 (CHR ''0'')) ''approval'' 5)
     \<lparr>c_scope_evidence_kind := None\<rparr>"

text \<open>The insert trigger is meant to refuse every invalid row in the receipt namespace, but a null evidence kind
  makes its condition unknown and the row is stored; from then on no process that opens the store afresh can append
  any event, whatever the event.\<close>
theorem null_evidence_stops_the_log:
  "case insert_event RECEIPT_COLUMNS null_evidence demo_store of
     Inl e \<Rightarrow> False
   | Inr d1 \<Rightarrow> \<forall>broken url ev. fst (appendMonitorEvent demo_sha broken url ev [] d1) \<noteq> None"
proof -
  have "case insert_event RECEIPT_COLUMNS null_evidence demo_store of Inl e \<Rightarrow> False | Inr d1 \<Rightarrow> \<not> receipts_ok demo_sha (le_rows d1)"
    by code_simp
  then obtain d1 where d1: "insert_event RECEIPT_COLUMNS null_evidence demo_store = Inr d1" "\<not> receipts_ok demo_sha (le_rows d1)"
    by (auto split: sum.splits)
  have "fst (appendMonitorEvent demo_sha broken url ev [] d1) \<noteq> None" for broken url ev
    using unready_refused[OF d1(2), of url "[]" broken] by (auto simp: appendMonitorEvent_def split: prod.splits option.splits)
  then show ?thesis using d1(1) by simp
qed

text \<open>The projection is kept per process, not per store: read on a second store, it answers for neither.\<close>

definition second_store :: loop_db where
  "second_store = snd (snd (appendMonitorEvent demo_sha (\<lambda>s. False) ''v'' (demo_event ''x'' ''stage_advance'' 9) [] new_loop_db))"

definition first_store :: loop_db where
  "first_store = snd (snd (appendMonitorEvent demo_sha (\<lambda>s. False) ''u'' (demo_event ''w'' ''stage_advance'' 5) [] new_loop_db))"

theorem projection_ignores_store:
  "let p1 = snd (foldLatestStateIncremental False first_store cold_projection)
   in fst (foldLatestStateIncremental False second_store p1) = Some (foldLatestState first_store) \<and>
      foldLatestState second_store \<noteq> foldLatestState first_store"
  by code_simp

end
