(* ===== verification/Handoff.thy ===== *)
theory Handoff
  imports LoopEvents Durable
begin

text \<open>
  The hand-over of an approved scope to the autonomous loop (\<open>src/src/runtime/ralph/scope_done.ts\<close>,
  \<open>loop/scope_handoff_store.ts\<close>, \<open>ralph/loop_stage.ts\<close>): the artifact is validated, a receipt and the task's
  checkpoint are written in one transaction, and the loop drives an item only with its receipt.

  The file system, the pack that declares the stages, the work graph lookup and the process that runs the loop
  are arguments. A statement that fails is an argument as well.
\<close>

section \<open>The two tables\<close>

datatype ck_trigger = Handoff_insert_v4 | Handoff_update_v4 | Older_trigger string

record handoff_db =
  ho_log :: loop_db
  ho_ck :: ckdb
  ho_triggers :: "ck_trigger list"

definition matching_receipt :: "string \<Rightarrow> string \<Rightarrow> loop_db \<Rightarrow> bool" where
  "matching_receipt task artifact d = list_ex (\<lambda>r. c_wg_id r = task \<and> SCOPE_HANDOFF_RECEIPT_PREDICATE r \<and>
     (case c_stage r of None \<Rightarrow> False | Some s \<Rightarrow> 0 < length s) \<and>
     (case c_scope_artifact_path r of None \<Rightarrow> False | Some s \<Rightarrow> 0 < length s) \<and>
     (case c_scope_artifact_sha256 r of None \<Rightarrow> False | Some s \<Rightarrow> length s = 64 \<and> lower_hex s) \<and>
     (case c_scope_evidence_kind r of None \<Rightarrow> False | Some s \<Rightarrow> s \<in> set [''approval'', ''legacy_repair'']) \<and>
     c_scope_artifact_path r = Some artifact) (le_rows d)"

definition artifact_guard :: "string \<Rightarrow> string list \<Rightarrow> loop_db \<Rightarrow> bool" where
  "artifact_guard task artifacts d \<longleftrightarrow> (case artifacts of [a] \<Rightarrow> \<not> matching_receipt task a d | _ \<Rightarrow> False)"

definition installScopeHandoffStoreInvariants :: "handoff_db \<Rightarrow> handoff_db" where
  "installScopeHandoffStoreInvariants d =
     d\<lparr>ho_triggers := to_set (filter (\<lambda>t. t \<notin> Older_trigger ` set
         [''trg_task_checkpoints_scope_write_insert'', ''trg_task_checkpoints_scope_write_update'',
          ''trg_task_checkpoints_automated_insert_v2'', ''trg_task_checkpoints_automated_update_v2'',
          ''trg_task_checkpoints_automated_insert_v3'', ''trg_task_checkpoints_automated_update_v3'']) (ho_triggers d)
       @ [Handoff_insert_v4, Handoff_update_v4])\<rparr>"

text \<open>The statements on \<open>task_checkpoints\<close> under the triggers: an aborted statement changes nothing.\<close>

definition insert_checkpoint :: "string \<Rightarrow> string \<Rightarrow> int \<Rightarrow> string list \<Rightarrow> handoff_db \<Rightarrow> handoff_db option" where
  "insert_checkpoint task stage nowMs artifacts d =
     (if Handoff_insert_v4 \<in> set (ho_triggers d) \<and> artifact_guard task artifacts (ho_log d) then None
      else Some (d\<lparr>ho_ck := createTaskCheckpoint task stage nowMs artifacts (ho_ck d)\<rparr>))"

definition update_checkpoint :: "string \<Rightarrow> (ckdb \<Rightarrow> ckdb) \<Rightarrow> handoff_db \<Rightarrow> handoff_db option" where
  "update_checkpoint task upd d =
     (if Handoff_update_v4 \<in> set (ho_triggers d) \<and>
         list_ex (\<lambda>r. t_taskId r = task \<and> artifact_guard task (t_scopeArtifacts r) (ho_log d)) (task_checkpoints (upd (ho_ck d)))
      then None else Some (d\<lparr>ho_ck := upd (ho_ck d)\<rparr>))"

section \<open>The artifact\<close>

definition MAX_SCOPE_ARTIFACT_BYTES :: nat where
  "MAX_SCOPE_ARTIFACT_BYTES = 16 * 1024 * 1024"

record open_file =
  fd_isFile :: bool
  fd_size :: nat
  fd_id :: "nat \<times> nat"
  fd_chunks :: "string list"

text \<open>What the file system answers, in the order of the calls: the path, the descriptor, the second look.\<close>

record fs_answers =
  fs_resolve :: "string \<Rightarrow> string \<Rightarrow> string"
  fs_realpath :: "string \<Rightarrow> string option"
  fs_open :: "string \<Rightarrow> open_file option"
  fs_realpath_again :: "string \<Rightarrow> string option"
  fs_stat_id :: "string \<Rightarrow> (nat \<times> nat) option"

fun read_chunks :: "nat \<Rightarrow> string list \<Rightarrow> string \<Rightarrow> string option" where
  "read_chunks n [] acc = Some acc"
| "read_chunks n (c # cs) acc =
     (if c = [] then Some acc
      else if MAX_SCOPE_ARTIFACT_BYTES < n + length c then None
      else read_chunks (n + length c) cs (acc @ c))"

definition inside :: "string \<Rightarrow> string \<Rightarrow> bool" where
  "inside folder path \<longleftrightarrow> path = folder \<or> starts_with path (folder @ ''/'')"

definition validateArtifact :: "(string \<Rightarrow> string) \<Rightarrow> fs_answers \<Rightarrow> string \<Rightarrow> string \<Rightarrow> string \<Rightarrow> (string \<times> string) option" where
  "validateArtifact sha fs docsRoot cwd inputPath =
     (case fs_realpath fs (fs_resolve fs cwd inputPath) of
        None \<Rightarrow> None
      | Some path \<Rightarrow>
          if \<not> inside docsRoot path then None
          else (case fs_open fs path of
              None \<Rightarrow> None
            | Some fd \<Rightarrow>
                if \<not> fd_isFile fd \<or> MAX_SCOPE_ARTIFACT_BYTES < fd_size fd then None
                else if fs_realpath_again fs path \<noteq> Some path \<or> fs_stat_id fs path \<noteq> Some (fd_id fd) then None
                else map_option (\<lambda>bytes. (path, sha bytes)) (read_chunks 0 (fd_chunks fd) [])))"

section \<open>The transaction\<close>

datatype ScopeHandoffErrorCode = Validation | Conflict | Stale | Persistence
datatype handoff_error = Coded ScopeHandoffErrorCode | Plain

datatype ScopeHandoffTransition = Entered | Reused | Repaired

record ScopeHandoffPolicy =
  initialStage :: string
  entryStage :: string
  repairStages :: "string list"

record handoff_input =
  in_wgId :: string
  in_artifact :: string
  in_sha256 :: string
  in_actionId :: string
  in_nowMs :: int
  in_policy :: ScopeHandoffPolicy

record PersistedClassification =
  pc_transition :: ScopeHandoffTransition
  pc_stage :: string
  pc_receipt :: ScopeHandoffReceipt

definition checkpointPath :: "string list \<Rightarrow> string option" where
  "checkpointPath artifacts = (case artifacts of [a] \<Rightarrow> Some a | _ \<Rightarrow> None)"

definition assertReusableCheckpoint :: "(string \<times> string list) option \<Rightarrow> string \<Rightarrow> ScopeHandoffPolicy \<Rightarrow> string option" where
  "assertReusableCheckpoint cp artifact policy = (case cp of
     None \<Rightarrow> None
   | Some (stage, artifacts) \<Rightarrow>
       if stage \<notin> set (repairStages policy) \<or> stage = initialStage policy \<or> checkpointPath artifacts \<noteq> Some artifact
       then None else Some stage)"

datatype ho_stmt = InitTables | InstallGuards | BeginWrite | ReadCheckpoint | ReadItem | ReadAction | ReadLegacy
  | WriteReceipt | WriteCheckpoint | CommitWrite

definition db_call :: "bool \<Rightarrow> loop_error + 'a \<Rightarrow> handoff_error + 'a" where
  "db_call failed r = (if failed then Inl Plain else (case r of Inl e \<Rightarrow> Inl Plain | Inr x \<Rightarrow> Inr x))"

definition and_then :: "handoff_error + 'a \<Rightarrow> ('a \<Rightarrow> handoff_error + 'b) \<Rightarrow> handoff_error + 'b" where
  "and_then m f = (case m of Inl e \<Rightarrow> Inl e | Inr x \<Rightarrow> f x)"

definition require :: "bool \<Rightarrow> ScopeHandoffErrorCode \<Rightarrow> handoff_error + unit" where
  "require c e = (if c then Inr () else Inl (Coded e))"

definition classify :: "handoff_input \<Rightarrow> (string \<times> string list) option \<Rightarrow> nat list \<Rightarrow>
    handoff_error + ScopeHandoffTransition \<times> string \<times> EvidenceKind" where
  "classify i cp legacySeqs =
     (if cp = None \<or> map_option fst cp = Some (initialStage (in_policy i)) then
        (if legacySeqs \<noteq> [] then Inl (Coded Conflict)
         else if (case cp of None \<Rightarrow> False | Some (stage, artifacts) \<Rightarrow>
              artifacts \<noteq> [] \<and> checkpointPath artifacts \<noteq> Some (in_artifact i)) then Inl (Coded Conflict)
         else Inr (Entered, entryStage (in_policy i), Approval))
      else (case assertReusableCheckpoint cp (in_artifact i) (in_policy i) of
          None \<Rightarrow> Inl (Coded Conflict)
        | Some stage \<Rightarrow> Inr (Repaired, stage, Legacy_repair)))"

definition write_entry :: "handoff_input \<Rightarrow> (string \<times> string list) option \<Rightarrow> handoff_db \<Rightarrow> handoff_db option" where
  "write_entry i cp d = (case cp of
     None \<Rightarrow> insert_checkpoint (in_wgId i) (entryStage (in_policy i)) (in_nowMs i) [in_artifact i] d
   | Some c \<Rightarrow> update_checkpoint (in_wgId i)
       (updateTaskStage (in_wgId i) (entryStage (in_policy i)) (in_nowMs i) (Some [in_artifact i])) d)"

definition reuse :: "handoff_input \<Rightarrow> (string \<times> string list) option \<Rightarrow> ScopeHandoffReceipt option \<Rightarrow> ScopeHandoffReceipt \<Rightarrow>
    handoff_error + PersistedClassification" where
  "reuse i cp byAction receipt =
     (if s_actionId receipt \<noteq> in_actionId i \<or> s_artifactPath receipt \<noteq> in_artifact i \<or>
         map_option s_wgId byAction \<noteq> Some (in_wgId i) then Inl (Coded Conflict)
      else (case assertReusableCheckpoint cp (in_artifact i) (in_policy i) of
          None \<Rightarrow> Inl (Coded Conflict)
        | Some stage \<Rightarrow> Inr \<lparr>pc_transition = Reused, pc_stage = stage, pc_receipt = receipt\<rparr>))"

definition new_receipt :: "handoff_input \<Rightarrow> string \<Rightarrow> EvidenceKind \<Rightarrow> ScopeHandoffReceipt" where
  "new_receipt i stage evidence = \<lparr>s_seq = 0, s_wgId = in_wgId i, s_actionId = in_actionId i, s_stage = stage,
     s_artifactPath = in_artifact i, s_artifactSha256 = in_sha256 i, s_evidenceKind = evidence\<rparr>"

definition enter :: "(string \<Rightarrow> string) \<Rightarrow> (ho_stmt \<Rightarrow> bool) \<Rightarrow> handoff_input \<Rightarrow> (string \<times> string list) option \<Rightarrow>
    ScopeHandoffTransition \<times> string \<times> EvidenceKind \<Rightarrow> handoff_db \<Rightarrow> handoff_error + PersistedClassification \<times> handoff_db" where
  "enter sha fault i cp c d = (case c of (tr, stage, evidence) \<Rightarrow>
     (let receipt = new_receipt i stage evidence in
      and_then (db_call (fault WriteReceipt) (insertScopeHandoffReceipt sha receipt (in_nowMs i) (ho_log d))) (\<lambda>log1.
      (let d1 = d\<lparr>ho_log := log1\<rparr>; out = \<lparr>pc_transition = tr, pc_stage = stage, pc_receipt = receipt\<rparr> in
       if tr = Entered
       then (if fault WriteCheckpoint then Inl Plain
             else (case write_entry i cp d1 of None \<Rightarrow> Inl Plain | Some d2 \<Rightarrow> Inr (out, d2)))
       else Inr (out, d1)))))"

definition persist_body :: "(string \<Rightarrow> string) \<Rightarrow> (ho_stmt \<Rightarrow> bool) \<Rightarrow> handoff_input \<Rightarrow> handoff_db \<Rightarrow>
    handoff_error + PersistedClassification \<times> handoff_db" where
  "persist_body sha fault i d =
     (if fault ReadCheckpoint then Inl Plain else
      (let cp = getTaskCheckpoint (in_wgId i) (ho_ck d) in
       and_then (db_call (fault ReadItem) (readScopeHandoffByItem sha (in_wgId i) (ho_log d))) (\<lambda>byItem.
       and_then (db_call (fault ReadAction) (readScopeHandoffByAction sha (in_actionId i) (ho_log d))) (\<lambda>byAction.
       and_then (db_call (fault ReadLegacy) (readLegacyAutomationEntrySeqs (in_wgId i) (entryStage (in_policy i)) (ho_log d))) (\<lambda>legacySeqs.
       case byItem of
         Some receipt \<Rightarrow> and_then (reuse i cp byAction receipt) (\<lambda>out. Inr (out, d))
       | None \<Rightarrow>
           and_then (require (byAction = None) Conflict) (\<lambda>_.
           and_then (classify i cp legacySeqs) (\<lambda>c. enter sha fault i cp c d)))))))"

definition persistHandoff :: "(string \<Rightarrow> string) \<Rightarrow> (ddl \<Rightarrow> bool) \<Rightarrow> (ho_stmt \<Rightarrow> bool) \<Rightarrow> string \<Rightarrow> handoff_input \<Rightarrow>
    string list \<times> handoff_db \<Rightarrow> (handoff_error + PersistedClassification) \<times> string list \<times> handoff_db" where
  "persistHandoff sha broken fault url i st = (case st of (ddl, d) \<Rightarrow>
     if fault InitTables then (Inl Plain, ddl, d)
     else (case ensureLoopEventSchema sha broken url ddl (ho_log d) of
        (Some e, ddl1, log1) \<Rightarrow> (Inl Plain, ddl1, d\<lparr>ho_log := log1\<rparr>)
      | (None, ddl1, log1) \<Rightarrow>
          if fault InstallGuards then (Inl Plain, ddl1, d\<lparr>ho_log := log1\<rparr>)
          else (let d1 = installScopeHandoffStoreInvariants (d\<lparr>ho_log := log1\<rparr>) in
            if fault BeginWrite then (Inl Plain, ddl1, d1)
            else (case persist_body sha fault i d1 of
                Inl e \<Rightarrow> (Inl e, ddl1, d1)
              | Inr (out, d2) \<Rightarrow> if fault CommitWrite then (Inl Plain, ddl1, d1) else (Inr out, ddl1, d2)))))"

section \<open>The boundary\<close>

datatype LoopAutoSpawnResult = LoopUp string | LoopError string

fun ensure_attempts :: "LoopAutoSpawnResult list \<Rightarrow> LoopAutoSpawnResult \<Rightarrow> LoopAutoSpawnResult" where
  "ensure_attempts [] res = res"
| "ensure_attempts (r # rs) res = (case r of LoopUp s \<Rightarrow> r | LoopError e \<Rightarrow> ensure_attempts rs r)"

text \<open>The answers of the three attempts, after 0, 250 and 1000 milliseconds.\<close>

definition reconcileLoopLiveness :: "(nat \<Rightarrow> LoopAutoSpawnResult) \<Rightarrow> LoopAutoSpawnResult" where
  "reconcileLoopLiveness ensureLoop = ensure_attempts (map ensureLoop [0, 250, 1000]) (LoopError ''loop reconciliation did not run'')"

record CompleteScopeResult =
  cs_wgId :: string
  cs_artifact :: string
  cs_sha256 :: string
  cs_evidence :: EvidenceKind
  cs_actionId :: string
  cs_transition :: ScopeHandoffTransition
  cs_stage :: string
  cs_loop :: LoopAutoSpawnResult

record scope_env =
  env_docsRoot :: "string option"
  env_cwd :: string
  env_fs :: fs_answers
  env_policy :: "ScopeHandoffPolicy option"
  env_policy_first :: bool
  env_issue :: "string \<Rightarrow> (string \<times> string) option"
  env_url :: string
  env_loop :: "nat \<Rightarrow> LoopAutoSpawnResult"

definition completeInteractiveScope :: "(string \<Rightarrow> string) \<Rightarrow> (ddl \<Rightarrow> bool) \<Rightarrow> (ho_stmt \<Rightarrow> bool) \<Rightarrow> scope_env \<Rightarrow> string \<Rightarrow> string \<Rightarrow>
    int \<Rightarrow> string list \<times> handoff_db \<Rightarrow> (handoff_error + CompleteScopeResult) \<times> string list \<times> handoff_db" where
  "completeInteractiveScope sha broken fault env wgId artifact nowMs st =
     (case env_docsRoot env of
        None \<Rightarrow> (Inl (Coded Validation), st)
      | Some docsRoot \<Rightarrow> (case (validateArtifact sha (env_fs env) docsRoot (env_cwd env) artifact, env_policy env) of
          (None, None) \<Rightarrow> (Inl (if env_policy_first env then Plain else Coded Validation), st)
        | (None, Some policy) \<Rightarrow> (Inl (Coded Validation), st)
        | (Some v, None) \<Rightarrow> (Inl Plain, st)
        | (Some (path, digest), Some policy) \<Rightarrow> (case env_issue env wgId of
            None \<Rightarrow> (Inl (Coded Stale), st)
          | Some (canonical, status) \<Rightarrow>
              if status \<noteq> ''open'' then (Inl (Coded Stale), st)
              else (case persistHandoff sha broken fault (env_url env)
                  \<lparr>in_wgId = canonical, in_artifact = path, in_sha256 = digest,
                   in_actionId = scopeHandoffActionId sha canonical path, in_nowMs = nowMs, in_policy = policy\<rparr> st of
                (Inl (Coded e), st1) \<Rightarrow> (Inl (Coded e), st1)
              | (Inl Plain, st1) \<Rightarrow> (Inl (Coded Persistence), st1)
              | (Inr out, st1) \<Rightarrow> (Inr \<lparr>cs_wgId = canonical, cs_artifact = s_artifactPath (pc_receipt out),
                   cs_sha256 = s_artifactSha256 (pc_receipt out), cs_evidence = s_evidenceKind (pc_receipt out),
                   cs_actionId = s_actionId (pc_receipt out), cs_transition = pc_transition out, cs_stage = pc_stage out,
                   cs_loop = reconcileLoopLiveness (env_loop env)\<rparr>, st1)))))"

section \<open>The loop's side\<close>

definition readLoopStage :: "string \<Rightarrow> handoff_db \<Rightarrow> string option" where
  "readLoopStage wgId d = map_option fst (getTaskCheckpoint wgId (ho_ck d))"

definition taskCheckpointExists :: "string \<Rightarrow> handoff_db \<Rightarrow> bool" where
  "taskCheckpointExists wgId d \<longleftrightarrow> getTaskCheckpoint wgId (ho_ck d) \<noteq> None"

definition stage_event :: "string \<Rightarrow> string \<Rightarrow> int \<Rightarrow> MonitorEvent" where
  "stage_event wgId stage nowMs = (event_of (receipt_row wgId [] stage [] [] [] nowMs))
     \<lparr>v_actionId := None, v_scopeArtifactPath := None, v_scopeArtifactSha256 := None, v_scopeEvidenceKind := None\<rparr>"

text \<open>The write seam of the loop: each statement on its own, so what precedes a refused one stays.\<close>

definition upsert_rows :: "string \<Rightarrow> string \<Rightarrow> int \<Rightarrow> string option \<Rightarrow> handoff_db \<Rightarrow> bool \<times> handoff_db" where
  "upsert_rows wgId stage nowMs artifact d =
     (case (if getTaskCheckpoint wgId (ho_ck d) = None then insert_checkpoint wgId stage nowMs [] d
            else update_checkpoint wgId (updateTaskStage wgId stage nowMs None) d) of
        None \<Rightarrow> (False, d)
      | Some d1 \<Rightarrow> (case artifact of
          None \<Rightarrow> (True, d1)
        | Some a \<Rightarrow> (case update_checkpoint wgId (setTaskArtifacts wgId [a] nowMs) d1 of
            None \<Rightarrow> (False, d1)
          | Some d2 \<Rightarrow> (True, d2))))"

definition upsertTaskStage :: "(string \<Rightarrow> string) \<Rightarrow> (ddl \<Rightarrow> bool) \<Rightarrow> string \<Rightarrow> string \<Rightarrow> string \<Rightarrow> int \<Rightarrow> string option \<Rightarrow>
    string list \<times> handoff_db \<Rightarrow> bool \<times> string list \<times> handoff_db" where
  "upsertTaskStage sha broken url wgId stage nowMs artifact st = (case st of (ddl, d) \<Rightarrow>
     (case upsert_rows wgId stage nowMs artifact d of
        (False, d1) \<Rightarrow> (False, ddl, d1)
      | (True, d1) \<Rightarrow> (case appendMonitorEvent sha broken url (stage_event wgId stage nowMs) ddl (ho_log d1) of
          (e, ddl1, log1) \<Rightarrow> (True, ddl1, d1\<lparr>ho_log := log1\<rparr>))))"

datatype admission = Drive | Hold

definition admit :: "(string \<times> string list) option \<Rightarrow> (string \<Rightarrow> bool) \<Rightarrow> (string \<Rightarrow> bool) \<Rightarrow> (string \<Rightarrow> bool) \<Rightarrow> admission" where
  "admit checkpoint isAutomated exists receiptFor = (case checkpoint of
     None \<Rightarrow> Hold
   | Some (stage, artifacts) \<Rightarrow>
       if isAutomated stage \<and> length artifacts = 1
       then (if exists (hd artifacts) \<and> receiptFor (hd artifacts) then Drive else Hold) else Hold)"

definition receipt_for :: "(string \<Rightarrow> string) \<Rightarrow> string \<Rightarrow> loop_db \<Rightarrow> string \<Rightarrow> bool" where
  "receipt_for sha wgId d artifact = (case readScopeHandoffByItem sha wgId d of
     Inl e \<Rightarrow> False | Inr None \<Rightarrow> False | Inr (Some r) \<Rightarrow> s_artifactPath r = artifact)"

definition automationAdmission :: "(string \<Rightarrow> string) \<Rightarrow> (ddl \<Rightarrow> bool) \<Rightarrow> string \<Rightarrow> string \<Rightarrow> (string \<Rightarrow> bool) \<Rightarrow> (string \<Rightarrow> bool) \<Rightarrow>
    string list \<times> handoff_db \<Rightarrow> (loop_error + admission) \<times> string list \<times> handoff_db" where
  "automationAdmission sha broken url wgId isAutomated exists st = (case st of (ddl, d) \<Rightarrow>
     (case ensureLoopEventSchema sha broken url ddl (ho_log d) of
        (Some e, ddl1, log1) \<Rightarrow> (Inl e, ddl1, d\<lparr>ho_log := log1\<rparr>)
      | (None, ddl1, log1) \<Rightarrow> (let d1 = installScopeHandoffStoreInvariants (d\<lparr>ho_log := log1\<rparr>) in
          (Inr (admit (getTaskCheckpoint wgId (ho_ck d1)) isAutomated exists (receipt_for sha wgId (ho_log d1))), ddl1, d1))))"

section \<open>Checkpoints\<close>

lemma exists_checkpoint: "(\<exists>r\<in>set (task_checkpoints d). t_taskId r = t) \<longleftrightarrow> getTaskCheckpoint t d \<noteq> None"
  by (auto simp: getTaskCheckpoint_def find_None_iff)

lemma get_create: "getTaskCheckpoint w (createTaskCheckpoint t s n a d) =
  (if t = w \<and> getTaskCheckpoint w d = None then Some (s, a) else getTaskCheckpoint w d)"
  unfolding createTaskCheckpoint_def exists_checkpoint
  by (simp add: getTaskCheckpoint_def find_append split: option.splits)

lemma get_update: "(\<And>r. t_taskId (f r) = t_taskId r) \<Longrightarrow> getTaskCheckpoint w (update_task t f d) =
    map_option (\<lambda>r. let r1 = (if t_taskId r = t then f r else r) in (t_stage r1, t_scopeArtifacts r1))
      (List.find (\<lambda>r. t_taskId r = w) (task_checkpoints d))"
  by (simp add: getTaskCheckpoint_def update_task_def find_map_same option.map_comp o_def Let_def)

lemma get_found: "List.find (\<lambda>r. t_taskId r = w) (task_checkpoints d) = Some r \<Longrightarrow> t_taskId r = w"
  by (auto simp: find_Some_iff)

lemma get_stage: "getTaskCheckpoint w (updateTaskStage t s n a d) =
  (if t = w then map_option (\<lambda>(st, arts). (s, case a of None \<Rightarrow> arts | Some fs \<Rightarrow> fs)) (getTaskCheckpoint w d) else getTaskCheckpoint w d)"
  unfolding updateTaskStage_def
  by (subst get_update; cases "List.find (\<lambda>r. t_taskId r = w) (task_checkpoints d)")
    (auto simp: getTaskCheckpoint_def Let_def dest!: get_found split: option.splits)

lemma get_artifacts: "getTaskCheckpoint w (setTaskArtifacts t fs n d) =
  (if t = w then map_option (\<lambda>(st, arts). (st, fs)) (getTaskCheckpoint w d) else getTaskCheckpoint w d)"
  unfolding setTaskArtifacts_def
  by (subst get_update; cases "List.find (\<lambda>r. t_taskId r = w) (task_checkpoints d)")
    (auto simp: getTaskCheckpoint_def Let_def dest!: get_found split: option.splits)

lemma install_parts [simp]:
  "ho_log (installScopeHandoffStoreInvariants d) = ho_log d" "ho_ck (installScopeHandoffStoreInvariants d) = ho_ck d"
  "{Handoff_insert_v4, Handoff_update_v4} \<subseteq> set (ho_triggers (installScopeHandoffStoreInvariants d))"
  by (simp_all add: installScopeHandoffStoreInvariants_def)

lemma insert_checkpoint_parts: "insert_checkpoint t s n a d = Some d1 \<Longrightarrow>
    ho_log d1 = ho_log d \<and> ho_triggers d1 = ho_triggers d \<and> ho_ck d1 = createTaskCheckpoint t s n a (ho_ck d)"
  by (auto simp: insert_checkpoint_def split: if_splits)

lemma update_checkpoint_parts: "update_checkpoint t f d = Some d1 \<Longrightarrow>
    ho_log d1 = ho_log d \<and> ho_triggers d1 = ho_triggers d \<and> ho_ck d1 = f (ho_ck d)"
  by (auto simp: update_checkpoint_def split: if_splits)

section \<open>The transaction is all or nothing\<close>

lemma and_then_Inr [simp]: "and_then m f = Inr y \<longleftrightarrow> (\<exists>x. m = Inr x \<and> f x = Inr y)"
  by (auto simp: and_then_def split: sum.splits)

lemma db_call_Inr [simp]: "db_call failed r = Inr x \<longleftrightarrow> \<not> failed \<and> r = Inr x"
  by (auto simp: db_call_def split: sum.splits)

lemma require_Inr [simp]: "require c e = Inr u \<longleftrightarrow> c"
  by (auto simp: require_def)

lemma persist_cases:
  assumes "persistHandoff sha broken fault url i (ddl, d) = (res, ddl1, d1)"
  obtains (failed) e where "res = Inl e" "le_rows (ho_log d1) = le_rows (ho_log d)" "ho_ck d1 = ho_ck d"
  | (committed) log1 out where "res = Inr out" "ensureLoopEventSchema sha broken url ddl (ho_log d) = (None, ddl1, log1)"
      "persist_body sha fault i (installScopeHandoffStoreInvariants (d\<lparr>ho_log := log1\<rparr>)) = Inr (out, d1)"
  using assms
  by (auto simp: persistHandoff_def Let_def split: if_splits prod.splits option.splits sum.splits dest: ensure_rows)


section \<open>What a success leaves\<close>

lemma write_entry_parts: "write_entry i cp d = Some d1 \<Longrightarrow> ho_log d1 = ho_log d \<and> ho_triggers d1 = ho_triggers d"
  by (auto simp: write_entry_def split: option.splits dest: insert_checkpoint_parts update_checkpoint_parts)

lemma enter_result:
  assumes "enter sha fault i cp (tr, stage, evidence) d = Inr (out, d2)"
  shows "\<exists>log1. insertScopeHandoffReceipt sha (new_receipt i stage evidence) (in_nowMs i) (ho_log d) = Inr log1 \<and>
    ho_log d2 = log1 \<and> ho_triggers d2 = ho_triggers d \<and>
    out = \<lparr>pc_transition = tr, pc_stage = stage, pc_receipt = new_receipt i stage evidence\<rparr> \<and>
    (if tr = Entered then write_entry i cp (d\<lparr>ho_log := log1\<rparr>) = Some d2 else ho_ck d2 = ho_ck d)"
proof -
  obtain log1 where "insertScopeHandoffReceipt sha (new_receipt i stage evidence) (in_nowMs i) (ho_log d) = Inr log1"
    using assms by (auto simp: enter_def Let_def)
  note log1 = this
  show ?thesis
  proof (cases "tr = Entered")
    case True
    then have "write_entry i cp (d\<lparr>ho_log := log1\<rparr>) = Some d2" and "out = \<lparr>pc_transition = tr, pc_stage = stage, pc_receipt = new_receipt i stage evidence\<rparr>"
      using assms log1 by (simp_all add: enter_def Let_def split: if_splits option.splits)
    then show ?thesis using log1 True write_entry_parts[of i cp "d\<lparr>ho_log := log1\<rparr>" d2] by simp
  next
    case False
    then show ?thesis using assms log1 by (simp add: enter_def Let_def) auto
  qed
qed

lemma created_entry: "write_entry i (getTaskCheckpoint (in_wgId i) (ho_ck d)) d = Some d1 \<Longrightarrow>
    getTaskCheckpoint (in_wgId i) (ho_ck d1) = Some (entryStage (in_policy i), [in_artifact i]) \<and>
    (\<forall>w. w \<noteq> in_wgId i \<longrightarrow> getTaskCheckpoint w (ho_ck d1) = getTaskCheckpoint w (ho_ck d))"
  by (auto simp: write_entry_def get_create get_stage split: option.splits dest!: insert_checkpoint_parts update_checkpoint_parts)

lemma assert_reusable: "assertReusableCheckpoint cp a p = Some st \<Longrightarrow> cp = Some (st, [a])"
  by (auto simp: assertReusableCheckpoint_def checkpointPath_def split: option.splits if_splits list.splits)

text \<open>The three ways a hand-over succeeds, each with the item's checkpoint and receipt after it.\<close>

lemma persist_body_cases:
  assumes "persist_body sha fault i d = Inr (out, d1)"
  obtains (reused) receipt byAction where "d1 = d" "readScopeHandoffByItem sha (in_wgId i) (ho_log d) = Inr (Some receipt)"
      "readScopeHandoffByAction sha (in_actionId i) (ho_log d) = Inr byAction"
      "s_artifactPath receipt = in_artifact i" "pc_receipt out = receipt" "pc_transition out = Reused"
      "getTaskCheckpoint (in_wgId i) (ho_ck d) = Some (pc_stage out, [in_artifact i])"
  | (written) evidence where "readScopeHandoffByItem sha (in_wgId i) (ho_log d) = Inr None"
      "insertScopeHandoffReceipt sha (new_receipt i (pc_stage out) evidence) (in_nowMs i) (ho_log d) = Inr (ho_log d1)"
      "pc_receipt out = new_receipt i (pc_stage out) evidence" "ho_triggers d1 = ho_triggers d" "pc_transition out \<noteq> Reused"
      "getTaskCheckpoint (in_wgId i) (ho_ck d1) = Some (pc_stage out, [in_artifact i])"
      "\<And>w. w \<noteq> in_wgId i \<Longrightarrow> getTaskCheckpoint w (ho_ck d1) = getTaskCheckpoint w (ho_ck d)"
proof -
  let ?cp = "getTaskCheckpoint (in_wgId i) (ho_ck d)"
  obtain byItem byAction legacySeqs where r: "readScopeHandoffByItem sha (in_wgId i) (ho_log d) = Inr byItem"
      "readScopeHandoffByAction sha (in_actionId i) (ho_log d) = Inr byAction"
    and b: "(case byItem of Some receipt \<Rightarrow> and_then (reuse i ?cp byAction receipt) (\<lambda>out. Inr (out, d))
       | None \<Rightarrow> and_then (require (byAction = None) Conflict) (\<lambda>_.
           and_then (classify i ?cp legacySeqs) (\<lambda>c. enter sha fault i ?cp c d))) = Inr (out, d1)"
    using assms by (auto simp: persist_body_def Let_def split: if_splits)
  show thesis
  proof (cases byItem)
    case (Some receipt)
    then show ?thesis using b r
      by (intro reused[of receipt byAction]) (auto simp: reuse_def split: if_splits option.splits dest: assert_reusable)
  next
    case None
    then obtain tr stage evidence where c: "classify i ?cp legacySeqs = Inr (tr, stage, evidence)"
        "enter sha fault i ?cp (tr, stage, evidence) d = Inr (out, d1)" using b by auto
    obtain log1 where e: "insertScopeHandoffReceipt sha (new_receipt i stage evidence) (in_nowMs i) (ho_log d) = Inr log1"
        "ho_log d1 = log1" "ho_triggers d1 = ho_triggers d" "out = \<lparr>pc_transition = tr, pc_stage = stage, pc_receipt = new_receipt i stage evidence\<rparr>"
        "if tr = Entered then write_entry i ?cp (d\<lparr>ho_log := log1\<rparr>) = Some d1 else ho_ck d1 = ho_ck d"
      using enter_result[OF c(2)] by blast
    have k: "tr = Entered \<and> stage = entryStage (in_policy i) \<or> tr = Repaired \<and> ?cp = Some (stage, [in_artifact i])"
      using c(1) by (auto simp: classify_def split: if_splits option.splits dest: assert_reusable)
    have "getTaskCheckpoint (in_wgId i) (ho_ck d1) = Some (stage, [in_artifact i]) \<and>
      (\<forall>w. w \<noteq> in_wgId i \<longrightarrow> getTaskCheckpoint w (ho_ck d1) = getTaskCheckpoint w (ho_ck d))"
      using k created_entry[of i "d\<lparr>ho_log := log1\<rparr>" d1] e(5) by (cases "tr = Entered") auto
    then show ?thesis using None r(1) e(1-4) k by (intro written[of evidence]) auto
  qed
qed

section \<open>Runs\<close>

text \<open>Everything that touches the two tables, with the hand-overs that succeeded noted on the side.\<close>

datatype ho_op =
    HandOver "ddl \<Rightarrow> bool" "ho_stmt \<Rightarrow> bool" handoff_input
  | Upsert "ddl \<Rightarrow> bool" string string int "string option"
  | LogEvent "ddl \<Rightarrow> bool" MonitorEvent
  | Admission "ddl \<Rightarrow> bool" string

type_synonym granted = "(string \<times> string) list"

fun ho_step :: "(string \<Rightarrow> string) \<Rightarrow> string \<Rightarrow> ho_op \<Rightarrow> granted \<times> string list \<times> handoff_db \<Rightarrow> granted \<times> string list \<times> handoff_db" where
  "ho_step sha url (HandOver broken fault i) (g, st) = (case persistHandoff sha broken fault url i st of
     (Inl e, st1) \<Rightarrow> (g, st1)
   | (Inr out, st1) \<Rightarrow> ((in_wgId i, in_artifact i) # g, st1))"
| "ho_step sha url (Upsert broken w stage nowMs artifact) (g, st) = (g, snd (upsertTaskStage sha broken url w stage nowMs artifact st))"
| "ho_step sha url (LogEvent broken ev) (g, ddl, d) = (case appendMonitorEvent sha broken url ev ddl (ho_log d) of
     (e, ddl1, log1) \<Rightarrow> (g, ddl1, d\<lparr>ho_log := log1\<rparr>))"
| "ho_step sha url (Admission broken w) (g, st) = (g, snd (automationAdmission sha broken url w (\<lambda>s. True) (\<lambda>p. True) st))"

definition run_handoff :: "(string \<Rightarrow> string) \<Rightarrow> string \<Rightarrow> ho_op list \<Rightarrow> granted \<times> string list \<times> handoff_db \<Rightarrow> granted \<times> string list \<times> handoff_db" where
  "run_handoff sha url = fold (ho_step sha url)"

definition receipt_rows :: "loop_db \<Rightarrow> LoopEventRow list" where
  "receipt_rows d = filter SCOPE_HANDOFF_RECEIPT_PREDICATE (le_rows d)"

lemma append_receipt_rows:
  assumes "appendMonitorEvent sha broken url ev ddl d = (e, ddl1, d1)"
  shows "receipt_rows d1 = receipt_rows d"
proof -
  have "\<not> SCOPE_HANDOFF_RECEIPT_PREDICATE (row_of ev)" if "e = None"
    using that assms v1_is_handoff
    by (auto simp: appendMonitorEvent_def SCOPE_HANDOFF_RECEIPT_PREDICATE_def row_of_def v1_action_def split: if_splits option.splits)
  with assms show ?thesis by (cases rule: append_cases) (auto simp: receipt_rows_def insert_event_rows)
qed

lemma put_receipt_rows:
  assumes "insertScopeHandoffReceipt sha x t d = Inr d1"
  shows "\<exists>r. le_rows d1 = le_rows d @ [r] \<and> c_wg_id r = s_wgId x \<and> c_scope_artifact_path r = Some (s_artifactPath x)"
  using assms insert_event_rows(1) by (auto simp: insertScopeHandoffReceipt_def receipt_row_def split: if_splits)

lemma upsert_rows_log: "ho_log (snd (upsert_rows w stage n a d)) = ho_log d \<and> ho_triggers (snd (upsert_rows w stage n a d)) = ho_triggers d"
  by (auto simp: upsert_rows_def split: option.splits dest!: insert_checkpoint_parts update_checkpoint_parts)

lemma upsert_receipts:
  "upsertTaskStage sha broken url w stage n a (ddl, d) = (b, ddl1, d1) \<Longrightarrow> receipt_rows (ho_log d1) = receipt_rows (ho_log d)"
  using upsert_rows_log[of w stage n a d] append_receipt_rows
  by (auto simp: upsertTaskStage_def split: prod.splits bool.splits)

definition granted_only :: "granted \<Rightarrow> loop_db \<Rightarrow> bool" where
  "granted_only g d \<longleftrightarrow> (\<forall>r\<in>set (receipt_rows d). \<exists>a. c_scope_artifact_path r = Some a \<and> (c_wg_id r, a) \<in> set g)"

lemma granted_more: "granted_only g d \<Longrightarrow> receipt_rows d1 = receipt_rows d \<Longrightarrow> set g \<subseteq> set g1 \<Longrightarrow> granted_only g1 d1"
  unfolding granted_only_def by (metis subsetD)

lemma receipt_rows_same: "le_rows d1 = le_rows d \<Longrightarrow> receipt_rows d1 = receipt_rows d"
  by (simp add: receipt_rows_def)

lemma persist_granted:
  assumes "persistHandoff sha broken fault url i (ddl, d) = (res, ddl1, d1)" and "granted_only g (ho_log d)"
  shows "granted_only (case res of Inl e \<Rightarrow> g | Inr out \<Rightarrow> (in_wgId i, in_artifact i) # g) (ho_log d1)"
  using assms(1)
proof (cases rule: persist_cases)
  case (failed e)
  then show ?thesis using assms(2) receipt_rows_same by (auto intro: granted_more)
next
  case (committed log1 out)
  have l: "le_rows log1 = le_rows (ho_log d)" using ensure_rows[OF committed(2)] by simp
  from committed(3) show ?thesis
  proof (cases rule: persist_body_cases)
    case (reused receipt byAction)
    then show ?thesis using committed(1) l assms(2) receipt_rows_same[of log1 "ho_log d"] by (auto intro: granted_more)
  next
    case (written evidence)
    then obtain r where "le_rows (ho_log d1) = le_rows (ho_log d) @ [r]" "c_wg_id r = in_wgId i" "c_scope_artifact_path r = Some (in_artifact i)"
      using put_receipt_rows[OF written(2)] l by (auto simp: new_receipt_def)
    then show ?thesis using committed(1) assms(2) by (auto simp: granted_only_def receipt_rows_def)
  qed
qed

lemma ho_step_granted:
  assumes "granted_only (fst s) (ho_log (snd (snd s)))"
  shows "granted_only (fst (ho_step sha url x s)) (ho_log (snd (snd (ho_step sha url x s))))"
proof -
  obtain g ddl d where s: "s = (g, ddl, d)" by (metis prod_cases3)
  show ?thesis
  proof (cases x)
    case (HandOver broken fault i)
    obtain res ddl1 d1 where r: "persistHandoff sha broken fault url i (ddl, d) = (res, ddl1, d1)" by (metis prod_cases3)
    show ?thesis using persist_granted[OF r] assms by (auto simp: s HandOver r split: sum.splits)
  next
    case (Upsert broken w stage n a)
    obtain b ddl1 d1 where r: "upsertTaskStage sha broken url w stage n a (ddl, d) = (b, ddl1, d1)" by (metis prod_cases3)
    show ?thesis using upsert_receipts[OF r] assms granted_more by (auto simp: s Upsert r)
  next
    case (LogEvent broken ev)
    obtain e ddl1 log1 where r: "appendMonitorEvent sha broken url ev ddl (ho_log d) = (e, ddl1, log1)" by (metis prod_cases3)
    show ?thesis using append_receipt_rows[OF r] assms granted_more by (auto simp: s LogEvent r)
  next
    case (Admission broken w)
    obtain e ddl1 log1 where r: "ensureLoopEventSchema sha broken url ddl (ho_log d) = (e, ddl1, log1)" by (metis prod_cases3)
    have "receipt_rows log1 = receipt_rows (ho_log d)" using ensure_rows[OF r] receipt_rows_same by blast
    then show ?thesis using assms granted_more by (auto simp: s Admission automationAdmission_def r Let_def split: option.splits)
  qed
qed

lemma run_granted:
  "granted_only (fst s) (ho_log (snd (snd s))) \<Longrightarrow> granted_only (fst (run_handoff sha url ops s)) (ho_log (snd (snd (run_handoff sha url ops s))))"
  unfolding run_handoff_def by (induction ops arbitrary: s) (auto simp: ho_step_granted)

lemma read_item_row:
  assumes "readScopeHandoffByItem sha w d = Inr (Some x)"
  shows "\<exists>r\<in>set (receipt_rows d). c_wg_id r = w \<and> c_scope_artifact_path r = Some (s_artifactPath x)"
proof -
  let ?rows = "take 2 (rev (sort_key c_seq (filter (\<lambda>r. c_wg_id r = w \<and> SCOPE_HANDOFF_RECEIPT_PREDICATE r) (le_rows d))))"
  obtain r where r: "?rows = [r]" "decodeScopeHandoffReceipt sha r = Inr x"
    using assms by (auto simp: readScopeHandoffByItem_def only_receipt_def split: if_splits list.splits sum.splits)
  have "r \<in> set ?rows" using r(1) by simp
  then have "r \<in> set (le_rows d) \<and> c_wg_id r = w \<and> SCOPE_HANDOFF_RECEIPT_PREDICATE r" by (auto dest: in_set_takeD)
  moreover have "c_scope_artifact_path r = Some (s_artifactPath x)"
    using r(2) by (auto simp: decodeScopeHandoffReceipt_def split: option.splits if_splits)
  ultimately show ?thesis by (auto simp: receipt_rows_def)
qed

lemma admit_Drive: "admit cp isAut ex rf = Drive \<longleftrightarrow> (\<exists>stage a. cp = Some (stage, [a]) \<and> isAut stage \<and> ex a \<and> rf a)"
  by (auto simp: admit_def length_Suc_conv split: option.splits)

text \<open>C21. The loop drives an item only after an approved hand-over: start from a store without receipts, run any
  hand-overs (any input, any fault), stage writes with any artifact, events and admissions; if admission then
  says drive, the item's stage is automated, its checkpoint has exactly one artifact, that file exists, and a
  hand-over of this very item with this very artifact has succeeded before.\<close>
theorem driven_only_after_handoff:
  assumes "receipt_rows (ho_log d) = []" and "run_handoff sha url ops ([], ddl, d) = (g, ddl1, d1)"
    and "automationAdmission sha broken url w isAutomated fileExists (ddl1, d1) = (Inr Drive, st2)"
  shows "\<exists>stage a. getTaskCheckpoint w (ho_ck d1) = Some (stage, [a]) \<and> isAutomated stage \<and> fileExists a \<and> (w, a) \<in> set g"
proof -
  have g: "granted_only g (ho_log d1)"
    using run_granted[of "([], ddl, d)" sha url ops] assms(1,2) by (simp add: granted_only_def)
  obtain e ddl2 log2 where r: "ensureLoopEventSchema sha broken url ddl1 (ho_log d1) = (e, ddl2, log2)" by (metis prod_cases3)
  then have rows: "receipt_rows log2 = receipt_rows (ho_log d1)" using ensure_rows[OF r] receipt_rows_same by blast
  obtain stage a where a: "getTaskCheckpoint w (ho_ck d1) = Some (stage, [a])" "isAutomated stage" "fileExists a" "receipt_for sha w log2 a"
    using assms(3) by (auto simp: automationAdmission_def r Let_def admit_Drive split: option.splits)
  then obtain x where "readScopeHandoffByItem sha w log2 = Inr (Some x)" "s_artifactPath x = a"
    by (auto simp: receipt_for_def split: sum.splits option.splits)
  then have "(w, a) \<in> set g" using read_item_row[of sha w log2 x] g rows by (force simp: granted_only_def)
  then show ?thesis using a by blast
qed

section \<open>An approval lasts\<close>

definition settled :: "(string \<Rightarrow> string) \<Rightarrow> string \<Rightarrow> string list \<times> handoff_db \<Rightarrow> bool" where
  "settled sha url st \<longleftrightarrow> (case st of (ddl, d) \<Rightarrow>
     if url \<in> set ddl then store_ready sha (ho_log d) else migratable (ho_log d))"

lemma ensure_known: "url \<in> set ddl \<Longrightarrow> ensureLoopEventSchema sha broken url ddl d = (None, ddl, d)"
  by (simp add: ensureLoopEventSchema_def)

lemma settled_ensure:
  assumes "settled sha url (ddl, d)" and "ensureLoopEventSchema sha broken url ddl (ho_log d) = (None, ddl1, log1)"
  shows "url \<in> set ddl1 \<and> store_ready sha log1"
proof (cases "url \<in> set ddl")
  case True
  then show ?thesis using assms by (auto simp: settled_def ensure_known)
next
  case False
  then show ?thesis using assms ensured_ready[OF assms(2)] by (simp add: settled_def)
qed

definition approved :: "(string \<Rightarrow> string) \<Rightarrow> string \<Rightarrow> string \<Rightarrow> string \<Rightarrow> string list \<times> handoff_db \<Rightarrow> bool" where
  "approved sha url w a st \<longleftrightarrow> (case st of (ddl, d) \<Rightarrow> url \<in> set ddl \<and> store_ready sha (ho_log d) \<and>
     {Handoff_insert_v4, Handoff_update_v4} \<subseteq> set (ho_triggers d) \<and>
     (\<exists>x. readScopeHandoffByItem sha w (ho_log d) = Inr (Some x) \<and> s_artifactPath x = a) \<and>
     (\<exists>stage. getTaskCheckpoint w (ho_ck d) = Some (stage, [a])))"

lemma read_item_grows:
  assumes "store_ready sha d" and "store_ready sha d1" and "hex_digest sha" and "le_rows d1 = le_rows d @ new"
    and "readScopeHandoffByItem sha w d = Inr (Some x)"
  shows "readScopeHandoffByItem sha w d1 = Inr (Some x)"
  using assms(5) unfolding read_by_item[OF assms(1,3)] read_by_item[OF assms(2,3)]
  by (auto simp: assms(4) find_append split: option.splits)

lemma matching_unique:
  assumes "store_ready sha d" and "hex_digest sha" and "readScopeHandoffByItem sha w d = Inr (Some x)" and "matching_receipt w b d"
  shows "s_artifactPath x = b"
proof -
  obtain r where r: "r \<in> set (le_rows d)" "c_wg_id r = w" "SCOPE_HANDOFF_RECEIPT_PREDICATE r" "c_scope_artifact_path r = Some b"
    using assms(4) by (auto simp: matching_receipt_def list_ex_iff)
  obtain r0 where r0: "List.find (\<lambda>r. c_wg_id r = w \<and> handoff_row r) (le_rows d) = Some r0" "receipt_of r0 = x"
    using assms(3) by (auto simp: read_by_item[OF assms(1,2)])
  have "filter (\<lambda>r. c_wg_id r = w \<and> handoff_row r) (le_rows d) = [r0]"
    using filter_by_key[of c_wg_id handoff_row "le_rows d" w] assms(1) r0(1) by (simp add: store_ready_def receipts_ok_def)
  moreover have "r \<in> set (filter (\<lambda>r. c_wg_id r = w \<and> handoff_row r) (le_rows d))" using r predicate_handoff by simp
  ultimately have "r = r0" by simp
  then show ?thesis using r0(2) r(4) by (auto simp: receipt_of_def)
qed

lemma find_checkpoint: "getTaskCheckpoint w d = Some (st, arts) \<Longrightarrow>
    \<exists>r\<in>set (task_checkpoints d). t_taskId r = w \<and> t_scopeArtifacts r = arts"
  by (auto simp: getTaskCheckpoint_def find_Some_iff)

lemma guarded_update_kept:
  assumes "update_checkpoint w upd d = Some d1" and "Handoff_update_v4 \<in> set (ho_triggers d)"
    and "getTaskCheckpoint w (upd (ho_ck d)) = Some (st, [b])"
  shows "matching_receipt w b (ho_log d)"
  using assms(1,2) find_checkpoint[OF assms(3)]
  by (auto simp: update_checkpoint_def artifact_guard_def list_ex_iff split: if_splits)

lemma upsert_rows_approved:
  assumes "approved sha url w a (ddl, d)" and "hex_digest sha"
  shows "approved sha url w a (ddl, snd (upsert_rows t stage n art d))"
proof -
  obtain x st where x: "readScopeHandoffByItem sha w (ho_log d) = Inr (Some x)" "s_artifactPath x = a"
      "getTaskCheckpoint w (ho_ck d) = Some (st, [a])" and ready: "store_ready sha (ho_log d)"
      "Handoff_update_v4 \<in> set (ho_triggers d)"
    using assms(1) by (auto simp: approved_def)
  have "\<exists>st. getTaskCheckpoint w (ho_ck (snd (upsert_rows t stage n art d))) = Some (st, [a])"
  proof (cases "t = w")
    case False
    then show ?thesis using x(3)
      by (auto simp: upsert_rows_def get_create get_stage get_artifacts split: option.splits
          dest!: insert_checkpoint_parts update_checkpoint_parts)
  next
    case True
    show ?thesis
    proof (cases "update_checkpoint w (updateTaskStage w stage n None) d")
      case None
      then show ?thesis using True x(3) by (simp add: upsert_rows_def)
    next
      case (Some d1)
      then have d1: "getTaskCheckpoint w (ho_ck d1) = Some (stage, [a])" "ho_log d1 = ho_log d" "ho_triggers d1 = ho_triggers d"
        using update_checkpoint_parts[OF Some] x(3) by (simp_all add: get_stage)
      show ?thesis
      proof (cases art)
        case None
        then show ?thesis using True Some x(3) d1(1) by (simp add: upsert_rows_def)
      next
        case (Some b)
        show ?thesis
        proof (cases "update_checkpoint w (setTaskArtifacts w [b] n) d1")
          case None
          then show ?thesis using True \<open>update_checkpoint w (updateTaskStage w stage n None) d = Some d1\<close> x(3) d1(1) Some
            by (simp add: upsert_rows_def)
        next
          case d2: (Some d2)
          have g: "getTaskCheckpoint w (setTaskArtifacts w [b] n (ho_ck d1)) = Some (stage, [b])" using d1(1) by (simp add: get_artifacts)
          have "matching_receipt w b (ho_log d)" using guarded_update_kept[OF d2 _ g] d1 ready(2) by simp
          then have "b = a" using matching_unique[OF ready(1) assms(2) x(1)] x(2) by simp
          then show ?thesis using True \<open>update_checkpoint w (updateTaskStage w stage n None) d = Some d1\<close> x(3) d2 g Some
              update_checkpoint_parts[OF d2] by (simp add: upsert_rows_def)
        qed
      qed
    qed
  qed
  then show ?thesis using assms(1) upsert_rows_log[of t stage n art d] by (auto simp: approved_def)
qed

lemma append_approved:
  assumes "approved sha url w a (ddl, d)" and "hex_digest sha"
    and "appendMonitorEvent sha broken url ev ddl (ho_log d) = (e, ddl1, log1)"
  shows "approved sha url w a (ddl1, d\<lparr>ho_log := log1\<rparr>)"
proof -
  have u: "url \<in> set ddl" "store_ready sha (ho_log d)" using assms(1) by (auto simp: approved_def)
  have l: "store_ready sha log1 \<and> ddl1 = ddl" by (rule append_ready[OF assms(3) u(2,1) assms(2)])
  obtain new where new: "le_rows log1 = le_rows (ho_log d) @ new"
    using log_step_grows[of sha url "Record broken ev" ddl "ho_log d"] assms(3) by auto
  obtain x where x: "readScopeHandoffByItem sha w (ho_log d) = Inr (Some x)" "s_artifactPath x = a"
    using assms(1) by (auto simp: approved_def)
  have "readScopeHandoffByItem sha w log1 = Inr (Some x)"
    using read_item_grows[OF u(2) conjunct1[OF l] assms(2) new x(1)] .
  then show ?thesis using assms(1) l x(2) by (simp add: approved_def)
qed

lemma install_approved: "approved sha url w a (ddl, d) \<Longrightarrow> approved sha url w a (ddl, installScopeHandoffStoreInvariants d)"
  using install_parts by (simp add: approved_def)

lemma persist_approved:
  assumes "approved sha url w a (ddl, d)" and "hex_digest sha" and "persistHandoff sha broken fault url i (ddl, d) = (res, ddl1, d1)"
  shows "approved sha url w a (ddl1, d1)"
proof -
  let ?d = "installScopeHandoffStoreInvariants d"
  have u: "url \<in> set ddl" using assms(1) by (auto simp: approved_def)
  have base: "approved sha url w a (ddl, ?d)" by (rule install_approved[OF assms(1)])
  consider "d1 = d \<or> d1 = ?d" "ddl1 = ddl" | out where "persist_body sha fault i ?d = Inr (out, d1)" "ddl1 = ddl"
    using assms(3) by (auto simp: persistHandoff_def ensure_known[OF u] Let_def split: if_splits sum.splits)
  then show ?thesis
  proof cases
    case 1
    then show ?thesis using base assms(1) by auto
  next
    case (2 out)
    from 2(1) show ?thesis
    proof (cases rule: persist_body_cases)
      case (reused receipt byAction)
      then show ?thesis using base 2(2) by simp
    next
      case (written evidence)
      have ready: "store_ready sha (ho_log ?d)" and x: "\<exists>x. readScopeHandoffByItem sha w (ho_log ?d) = Inr (Some x) \<and> s_artifactPath x = a"
        using base by (auto simp: approved_def)
      have "w \<noteq> in_wgId i" using x written(1) by auto
      moreover have ready1: "store_ready sha (ho_log d1)" by (rule put_ready[OF written(2) ready assms(2)])
      moreover obtain r where "le_rows (ho_log d1) = le_rows (ho_log ?d) @ [r]" using put_receipt_rows[OF written(2)] by blast
      ultimately show ?thesis
        using base 2(2) written(4,7) read_item_grows[OF ready ready1 assms(2)] by (auto simp: approved_def)
    qed
  qed
qed

lemma ho_step_approved:
  assumes "approved sha url w a (snd s)" and "hex_digest sha"
  shows "approved sha url w a (snd (ho_step sha url x s))"
proof -
  obtain g ddl d where s: "s = (g, ddl, d)" by (metis prod_cases3)
  have ap: "approved sha url w a (ddl, d)" using assms(1) s by simp
  then have u: "url \<in> set ddl" by (auto simp: approved_def)
  show ?thesis
  proof (cases x)
    case (HandOver broken fault i)
    obtain res ddl1 d1 where r: "persistHandoff sha broken fault url i (ddl, d) = (res, ddl1, d1)" by (metis prod_cases3)
    show ?thesis using persist_approved[OF ap assms(2) r] by (simp add: s HandOver r split: sum.splits)
  next
    case (Upsert broken t stage n art)
    obtain b d1 where d1: "upsert_rows t stage n art d = (b, d1)" by force
    have a1: "approved sha url w a (ddl, d1)" using upsert_rows_approved[OF ap assms(2), of t stage n art] d1 by simp
    obtain e ddl2 log2 where r: "appendMonitorEvent sha broken url (stage_event t stage n) ddl (ho_log d1) = (e, ddl2, log2)" by (metis prod_cases3)
    show ?thesis using a1 append_approved[OF a1 assms(2) r] by (simp add: s Upsert upsertTaskStage_def d1 r split: bool.splits)
  next
    case (LogEvent broken ev)
    obtain e ddl2 log2 where r: "appendMonitorEvent sha broken url ev ddl (ho_log d) = (e, ddl2, log2)" by (metis prod_cases3)
    show ?thesis using append_approved[OF ap assms(2) r] by (simp add: s LogEvent r)
  next
    case (Admission broken t)
    then show ?thesis using install_approved[OF ap] by (simp add: s automationAdmission_def ensure_known[OF u] Let_def)
  qed
qed

lemma run_approved: "approved sha url w a (snd s) \<Longrightarrow> hex_digest sha \<Longrightarrow> approved sha url w a (snd (run_handoff sha url ops s))"
  unfolding run_handoff_def by (induction ops arbitrary: s) (auto simp: ho_step_approved)

lemma handoff_approves:
  assumes "hex_digest sha" and "settled sha url (ddl, d)" and "persistHandoff sha broken fault url i (ddl, d) = (Inr out, ddl1, d1)"
  shows "approved sha url (in_wgId i) (in_artifact i) (ddl1, d1)"
  using assms(3)
proof (cases rule: persist_cases)
  case (committed log1 out1)
  let ?d = "installScopeHandoffStoreInvariants (d\<lparr>ho_log := log1\<rparr>)"
  have l: "url \<in> set ddl1" "store_ready sha log1" using settled_ensure[OF assms(2) committed(2)] by simp_all
  have tg: "{Handoff_insert_v4, Handoff_update_v4} \<subseteq> set (ho_triggers ?d)" by (rule install_parts)
  from committed(3) show ?thesis
  proof (cases rule: persist_body_cases)
    case (reused receipt byAction)
    then show ?thesis using l tg by (auto simp: approved_def)
  next
    case (written evidence)
    have "ho_log ?d = log1" by simp
    note w = written(2)[unfolded this]
    have "readScopeHandoffByItem sha (in_wgId i) (ho_log d1) = Inr (Some ((new_receipt i (pc_stage out1) evidence)\<lparr>s_seq := le_last log1 + 1\<rparr>))"
      using receipt_is_final_parts(1)[OF assms(1) l(2,1) w, of "[]"] by (simp add: run_log_def new_receipt_def)
    then show ?thesis using l tg written(4,6) put_ready[OF w l(2) assms(1)] by (auto simp: approved_def new_receipt_def)
  qed
qed simp


lemma approved_admits:
  assumes "approved sha url w a (ddl, d)"
  shows "\<exists>stage. getTaskCheckpoint w (ho_ck d) = Some (stage, [a]) \<and>
      fst (automationAdmission sha broken url w isAutomated fileExists (ddl, d)) =
        Inr (if isAutomated stage \<and> fileExists a then Drive else Hold)"
proof -
  obtain stage x where c: "getTaskCheckpoint w (ho_ck d) = Some (stage, [a])"
      "readScopeHandoffByItem sha w (ho_log d) = Inr (Some x)" "s_artifactPath x = a" "url \<in> set ddl"
    using assms by (auto simp: approved_def)
  then show ?thesis
    by (simp add: automationAdmission_def ensure_known[OF c(4)] Let_def admit_def receipt_for_def)
qed

lemma approval_is_exclusive_parts:
  assumes "hex_digest sha" and "settled sha url (ddl, d)" and "persistHandoff sha broken fault url i (ddl, d) = (Inr out, ddl1, d1)"
    and "run_handoff sha url ops (g, ddl1, d1) = (g2, ddl2, d2)"
  shows "\<exists>stage. getTaskCheckpoint (in_wgId i) (ho_ck d2) = Some (stage, [in_artifact i]) \<and>
      fst (automationAdmission sha broken2 url (in_wgId i) isAutomated fileExists (ddl2, d2)) =
        Inr (if isAutomated stage \<and> fileExists (in_artifact i) then Drive else Hold)"
    and "in_wgId j = in_wgId i \<Longrightarrow> fst (persistHandoff sha broken2 fault2 url j (ddl2, d2)) = Inr out2 \<Longrightarrow> in_artifact j = in_artifact i"
proof -
  have ap: "approved sha url (in_wgId i) (in_artifact i) (ddl2, d2)"
    using run_approved[of sha url "in_wgId i" "in_artifact i" "(g, ddl1, d1)" ops] handoff_approves[OF assms(1-3)] assms(1,4) by simp
  then show "\<exists>stage. getTaskCheckpoint (in_wgId i) (ho_ck d2) = Some (stage, [in_artifact i]) \<and>
      fst (automationAdmission sha broken2 url (in_wgId i) isAutomated fileExists (ddl2, d2)) =
        Inr (if isAutomated stage \<and> fileExists (in_artifact i) then Drive else Hold)"
    by (rule approved_admits)
  assume j: "in_wgId j = in_wgId i" "fst (persistHandoff sha broken2 fault2 url j (ddl2, d2)) = Inr out2"
  then obtain ddl3 d3 where "persistHandoff sha broken2 fault2 url j (ddl2, d2) = (Inr out2, ddl3, d3)" by (metis prod.collapse)
  then have "approved sha url (in_wgId j) (in_artifact j) (ddl3, d3)" "approved sha url (in_wgId i) (in_artifact i) (ddl3, d3)"
    using handoff_approves[OF assms(1) _ \<open>_ = (Inr out2, ddl3, d3)\<close>] persist_approved[OF ap assms(1)] ap
    by (auto simp: settled_def approved_def)
  then show "in_artifact j = in_artifact i" using j(1) by (auto simp: approved_def)
qed

text \<open>C22. An approval is final and exclusive: once a hand-over has succeeded on a store whose schema is settled
  or migratable, then after any hand-overs, stage writes with any artifact, events, admissions and faults the
  item's checkpoint still has exactly the approved artifact, admission drives the item exactly while its stage
  is automated and the file exists, and no hand-over of the item with another artifact succeeds.\<close>
theorem approval_is_exclusive:
  assumes "hex_digest sha" and "settled sha url (ddl, d)" and "persistHandoff sha broken fault url i (ddl, d) = (Inr out, ddl1, d1)"
    and "run_handoff sha url ops (g, ddl1, d1) = (g2, ddl2, d2)"
  shows "(\<exists>stage. getTaskCheckpoint (in_wgId i) (ho_ck d2) = Some (stage, [in_artifact i]) \<and>
      fst (automationAdmission sha broken2 url (in_wgId i) isAutomated fileExists (ddl2, d2)) =
        Inr (if isAutomated stage \<and> fileExists (in_artifact i) then Drive else Hold)) \<and>
    (in_wgId j = in_wgId i \<and> fst (persistHandoff sha broken2 fault2 url j (ddl2, d2)) = Inr out2 \<longrightarrow> in_artifact j = in_artifact i)"
  using approval_is_exclusive_parts[OF assms] by blast


section \<open>Concrete hand-overs\<close>

definition demo_policy :: ScopeHandoffPolicy where
  "demo_policy = \<lparr>initialStage = ''scope'', entryStage = ''plan'', repairStages = [''scope'', ''plan'', ''code'']\<rparr>"

definition demo_input :: "string \<Rightarrow> string \<Rightarrow> handoff_input" where
  "demo_input w path = \<lparr>in_wgId = w, in_artifact = path, in_sha256 = replicate 64 (CHR ''0''),
     in_actionId = scopeHandoffActionId demo_sha w path, in_nowMs = 5, in_policy = demo_policy\<rparr>"

definition demo_handoff_db :: handoff_db where
  "demo_handoff_db = \<lparr>ho_log = demo_store, ho_ck = \<lparr>checkpoints = [], run_manifests = [], terminal_markers = [], task_checkpoints = []\<rparr>,
     ho_triggers = []\<rparr>"

definition demo_run :: "granted \<times> string list \<times> handoff_db" where
  "demo_run = run_handoff demo_sha ''u'' [HandOver (\<lambda>s. False) (\<lambda>s. False) (demo_input ''w'' ''/d/p'')] ([], [''u''], demo_handoff_db)"

lemma demo_handoff_body:
  "case persist_body demo_sha (\<lambda>s. False) (demo_input ''w'' ''/d/p'') (installScopeHandoffStoreInvariants demo_handoff_db) of
     Inr (out, d) \<Rightarrow> pc_transition out = Entered \<and> pc_stage out = ''plan'' | Inl e \<Rightarrow> False"
  by code_simp

lemma demo_handoff_settled: "settled demo_sha ''u'' ([''u''], demo_handoff_db)"
  by (simp add: settled_def demo_handoff_db_def demo_store_ready)

lemma demo_handoff:
  "\<exists>out d1. persistHandoff demo_sha (\<lambda>s. False) (\<lambda>s. False) ''u'' (demo_input ''w'' ''/d/p'') ([''u''], demo_handoff_db) =
     (Inr out, [''u''], d1) \<and> pc_stage out = ''plan'' \<and> demo_run = ([(''w'', ''/d/p'')], [''u''], d1)"
proof -
  obtain out d1 where b: "persist_body demo_sha (\<lambda>s. False) (demo_input ''w'' ''/d/p'') (installScopeHandoffStoreInvariants demo_handoff_db) = Inr (out, d1)"
      "pc_stage out = ''plan''" using demo_handoff_body by (auto split: sum.splits prod.splits)
  then have "persistHandoff demo_sha (\<lambda>s. False) (\<lambda>s. False) ''u'' (demo_input ''w'' ''/d/p'') ([''u''], demo_handoff_db) = (Inr out, [''u''], d1)"
    by (simp add: persistHandoff_def ensure_known Let_def)
  moreover have "in_wgId (demo_input ''w'' ''/d/p'') = ''w''" "in_artifact (demo_input ''w'' ''/d/p'') = ''/d/p''" by (simp_all add: demo_input_def)
  ultimately show ?thesis using b(2) by (simp add: demo_run_def run_handoff_def)
qed

lemma demo_approved: "approved demo_sha ''u'' ''w'' ''/d/p'' (snd demo_run)"
proof -
  obtain out d1 where p: "persistHandoff demo_sha (\<lambda>s. False) (\<lambda>s. False) ''u'' (demo_input ''w'' ''/d/p'') ([''u''], demo_handoff_db) =
     (Inr out, [''u''], d1)" "demo_run = ([(''w'', ''/d/p'')], [''u''], d1)" using demo_handoff by blast
  have "approved demo_sha ''u'' ''w'' ''/d/p'' ([''u''], d1)"
    using handoff_approves[OF demo_sha_hex demo_handoff_settled p(1)] by (simp add: demo_input_def)
  then show ?thesis unfolding p(2) snd_conv .
qed

theorem driven_only_after_handoff_witness:
  "fst (automationAdmission demo_sha (\<lambda>s. False) ''u'' ''w'' (\<lambda>s. True) (\<lambda>p. True) (snd demo_run)) = Inr Drive \<and>
   (\<exists>stage a. getTaskCheckpoint ''w'' (ho_ck (snd (snd demo_run))) = Some (stage, [a]) \<and> (''w'', a) \<in> set (fst demo_run))"
proof -
  obtain g ddl1 d1 where r: "demo_run = (g, ddl1, d1)" by (metis prod_cases3)
  have a: "fst (automationAdmission demo_sha (\<lambda>s. False) ''u'' ''w'' (\<lambda>s. True) (\<lambda>p. True) (ddl1, d1)) = Inr Drive"
    using approved_admits[OF demo_approved[unfolded r snd_conv], of "\<lambda>s. False" "\<lambda>s. True" "\<lambda>p. True"] by simp
  then obtain st2 where d: "automationAdmission demo_sha (\<lambda>s. False) ''u'' ''w'' (\<lambda>s. True) (\<lambda>p. True) (ddl1, d1) = (Inr Drive, st2)"
    by (metis prod.collapse)
  have "receipt_rows demo_store = []" by code_simp
  then have e: "receipt_rows (ho_log demo_handoff_db) = []" by (simp add: demo_handoff_db_def)
  from driven_only_after_handoff[OF e r[unfolded demo_run_def] d] show ?thesis
    unfolding r fst_conv snd_conv using a by auto
qed

theorem approval_is_exclusive_witness:
  "\<not> (\<exists>out2. fst (persistHandoff demo_sha (\<lambda>s. False) (\<lambda>s. False) ''u'' (demo_input ''w'' ''/d/other'') (snd demo_run)) = Inr out2)"
proof
  assume "\<exists>out2. fst (persistHandoff demo_sha (\<lambda>s. False) (\<lambda>s. False) ''u'' (demo_input ''w'' ''/d/other'') (snd demo_run)) = Inr out2"
  then obtain out2 where o: "fst (persistHandoff demo_sha (\<lambda>s. False) (\<lambda>s. False) ''u'' (demo_input ''w'' ''/d/other'') (snd demo_run)) = Inr out2" ..
  obtain out d1 where p: "persistHandoff demo_sha (\<lambda>s. False) (\<lambda>s. False) ''u'' (demo_input ''w'' ''/d/p'') ([''u''], demo_handoff_db) =
     (Inr out, [''u''], d1)" "demo_run = ([(''w'', ''/d/p'')], [''u''], d1)" using demo_handoff by blast
  have n: "run_handoff demo_sha ''u'' [] ([], [''u''], d1) = ([], [''u''], d1)" by (simp add: run_handoff_def)
  have "in_artifact (demo_input ''w'' ''/d/other'') = in_artifact (demo_input ''w'' ''/d/p'')"
    using approval_is_exclusive[OF demo_sha_hex demo_handoff_settled p(1) n, of _ _ _ "demo_input ''w'' ''/d/other''"] o[unfolded p(2) snd_conv]
    by (simp add: demo_input_def)
  then show False by (simp add: demo_input_def)
qed

end
