(* ===== verification/PlanAudit.thy ===== *)
theory PlanAudit
  imports Prelude
begin

text \<open>
  The audit of a plan (\<open>src/src/runtime/loop/plan_audit.ts\<close>): the dependency edges between issues must have
  no cycle, which the code decides by Kahn's algorithm, and every element of the captured scope must be
  covered by an issue that is stamped with it.
\<close>

section \<open>Dependencies\<close>

record plan_edge =
  e_from :: string
  e_to :: string
  e_type :: string

record PlanInput =
  issueIds :: "string list"
  edges :: "plan_edge list"
  designElementIds :: "string list"
  coveredBy :: "string list obj"

record PlanReport =
  pr_acyclic :: bool
  pr_complete :: bool
  pr_cycles :: "string list"
  pr_uncovered :: "string list"

definition dependency_edges :: "PlanInput \<Rightarrow> plan_edge list" where
  "dependency_edges p = filter (\<lambda>e. e_type e = ''blocks'' \<or> e_type e = ''parent-child'') (edges p)"

type_synonym degrees = "int obj"

definition degree :: "degrees \<Rightarrow> string \<Rightarrow> int" where
  "degree indeg n = (case map_of indeg n of None \<Rightarrow> 0 | Some d \<Rightarrow> d)"

definition successors :: "string list obj \<Rightarrow> string \<Rightarrow> string list" where
  "successors adj n = (case map_of adj n of None \<Rightarrow> [] | Some ms \<Rightarrow> ms)"

text \<open>One edge: counted only when both its ends are issues.\<close>

definition add_edge :: "plan_edge \<Rightarrow> degrees \<times> string list obj \<Rightarrow> degrees \<times> string list obj" where
  "add_edge e s = (case s of (indeg, adj) \<Rightarrow>
     if map_of indeg (e_from e) = None \<or> map_of indeg (e_to e) = None then (indeg, adj)
     else (AList.update (e_to e) (degree indeg (e_to e) + 1) indeg,
           AList.update (e_from e) (successors adj (e_from e) @ [e_to e]) adj))"

definition no_degrees :: "string list \<Rightarrow> degrees" where
  "no_degrees ids = fold (\<lambda>n. AList.update n 0) ids []"

definition graph_of :: "PlanInput \<Rightarrow> degrees \<times> string list obj" where
  "graph_of p = fold add_edge (dependency_edges p) (no_degrees (issueIds p), [])"

section \<open>Kahn's algorithm\<close>

text \<open>One successor of the issue that leaves the queue.\<close>

definition relax :: "string \<Rightarrow> degrees \<times> string list \<Rightarrow> degrees \<times> string list" where
  "relax m s = (case s of (indeg, q) \<Rightarrow> (let d = degree indeg m - 1 in
     (AList.update m d indeg, if d = 0 then q @ [m] else q)))"

definition pending :: "degrees \<Rightarrow> nat" where
  "pending indeg = sum_list (map (\<lambda>(n, d). nat d) indeg)"

lemma pending_update: "pending (AList.update k w al) + nat (degree al k) = pending al + nat w"
  by (induction al) (auto simp: pending_def degree_def split: option.splits if_splits)

lemma pending_relax: "pending (fst (relax m s)) + length (snd (relax m s)) \<le> pending (fst s) + length (snd s)"
  using pending_update[of m "degree (fst s) m - 1" "fst s"]
  by (cases s) (auto simp: relax_def Let_def)

lemma pending_relaxes: "pending (fst (fold relax ms s)) + length (snd (fold relax ms s)) \<le> pending (fst s) + length (snd s)"
proof (induction ms arbitrary: s)
  case (Cons m ms)
  then show ?case using pending_relax[of m s] le_trans by fastforce
qed simp

lemma relaxes_less: "(indeg1, q1) = fold relax ms (indeg, q) \<Longrightarrow> pending indeg1 + length q1 < Suc (pending indeg + length q)"
  using pending_relaxes[of ms "(indeg, q)"] by (metis fst_conv le_imp_less_Suc snd_conv)

function kahn :: "string list obj \<Rightarrow> degrees \<Rightarrow> string list \<Rightarrow> nat \<Rightarrow> degrees \<times> nat" where
  "kahn adj indeg [] seen = (indeg, seen)"
| "kahn adj indeg (n # q) seen = (case fold relax (successors adj n) (indeg, q) of
     (indeg1, q1) \<Rightarrow> kahn adj indeg1 q1 (seen + 1))"
  by pat_completeness auto
termination
  by (relation "measure (\<lambda>(adj, indeg, q, seen). pending indeg + length q)") (auto dest: relaxes_less)

definition planAudit :: "PlanInput \<Rightarrow> PlanReport" where
  "planAudit p = (case graph_of p of (indeg, adj) \<Rightarrow>
     (case kahn adj indeg (filter (\<lambda>i. degree indeg i = 0) (issueIds p)) 0 of (indeg1, seen) \<Rightarrow>
       let uncovered = filter (\<lambda>d. successors (coveredBy p) d = []) (designElementIds p);
           ok = (seen = length (issueIds p))
       in \<lparr>pr_acyclic = ok, pr_complete = (uncovered = []),
           pr_cycles = (if ok then [] else filter (\<lambda>i. 0 < degree indeg1 i) (issueIds p)), pr_uncovered = uncovered\<rparr>))"

section \<open>Stamps\<close>

definition STAMP :: string where
  "STAMP = ''sourceElementId:''"

definition stamp_here :: "string \<Rightarrow> string option" where
  "stamp_here s = (if starts_with s STAMP
     then (case takeWhile (\<lambda>c. \<not> is_space c) (drop (length STAMP) s) of [] \<Rightarrow> None | w \<Rightarrow> Some w) else None)"

fun stamp :: "string \<Rightarrow> string option" where
  "stamp [] = None"
| "stamp (c # cs) = (case stamp_here (c # cs) of Some w \<Rightarrow> Some w | None \<Rightarrow> stamp cs)"

record plan_issue =
  is_id :: string
  is_body :: string

definition scopeToDecomposition :: "plan_issue list \<Rightarrow> plan_edge list \<Rightarrow> string list \<Rightarrow> plan_issue list \<times> plan_edge list" where
  "scopeToDecomposition issues es scope =
     (let inScope = filter (\<lambda>i. case stamp (is_body i) of None \<Rightarrow> False | Some w \<Rightarrow> w \<in> set scope) issues;
          ids = map is_id inScope
      in (inScope, filter (\<lambda>e. e_from e \<in> set ids \<and> e_to e \<in> set ids) es))"

definition cover :: "plan_issue \<Rightarrow> string list obj \<Rightarrow> string list obj" where
  "cover i cov = (case stamp (is_body i) of
     None \<Rightarrow> cov
   | Some w \<Rightarrow> (case map_of cov w of None \<Rightarrow> cov | Some ids \<Rightarrow> AList.update w (ids @ [is_id i]) cov))"

definition buildCoveredBy :: "string list \<Rightarrow> plan_issue list \<Rightarrow> string list obj" where
  "buildCoveredBy designIds issues = fold cover issues (fold (\<lambda>d. AList.update d []) designIds [])"

section \<open>The graph that is read\<close>

text \<open>The dependencies between issues as a relation.\<close>

definition known_edges :: "PlanInput \<Rightarrow> plan_edge list" where
  "known_edges p = filter (\<lambda>e. e_from e \<in> set (issueIds p) \<and> e_to e \<in> set (issueIds p)) (dependency_edges p)"

definition depends :: "PlanInput \<Rightarrow> (string \<times> string) set" where
  "depends p = (\<lambda>e. (e_from e, e_to e)) ` set (known_edges p)"

lemma degree_update [simp]: "degree (AList.update k d al) n = (if n = k then d else degree al n)"
  by (simp add: degree_def update_conv')

lemma successors_update [simp]: "successors (AList.update k ms adj) n = (if n = k then ms else successors adj n)"
  by (simp add: successors_def update_conv')

lemma no_degrees_acc: "map_of (fold (\<lambda>n. AList.update n 0) ids al) k = (if k \<in> set ids then Some 0 else map_of al k)"
  by (induction ids arbitrary: al) (auto simp: update_conv')

lemma map_of_no_degrees: "map_of (no_degrees ids) n = (if n \<in> set ids then Some 0 else None)"
  by (simp add: no_degrees_def no_degrees_acc)

lemma graph_edges:
  assumes "\<And>n. map_of indeg n \<noteq> None \<longleftrightarrow> n \<in> N"
  shows "(\<forall>n. map_of (fst (fold add_edge es (indeg, adj))) n \<noteq> None \<longleftrightarrow> n \<in> N) \<and>
    (\<forall>n. degree (fst (fold add_edge es (indeg, adj))) n =
       degree indeg n + int (length (filter (\<lambda>e. e_to e = n \<and> e_from e \<in> N \<and> e_to e \<in> N) es))) \<and>
    (\<forall>n. successors (snd (fold add_edge es (indeg, adj))) n =
       successors adj n @ map e_to (filter (\<lambda>e. e_from e = n \<and> e_from e \<in> N \<and> e_to e \<in> N) es))"
  using assms
proof (induction es arbitrary: indeg adj)
  case (Cons e es)
  show ?case
  proof (cases "e_from e \<in> N \<and> e_to e \<in> N")
    case True
    then have known: "map_of indeg (e_from e) \<noteq> None" "map_of indeg (e_to e) \<noteq> None" using Cons.prems by auto
    let ?indeg = "AList.update (e_to e) (degree indeg (e_to e) + 1) indeg"
    let ?adj = "AList.update (e_from e) (successors adj (e_from e) @ [e_to e]) adj"
    have "add_edge e (indeg, adj) = (?indeg, ?adj)" using known by (auto simp: add_edge_def)
    moreover have "\<And>n. map_of ?indeg n \<noteq> None \<longleftrightarrow> n \<in> N" using Cons.prems True by (auto simp: update_conv')
    ultimately show ?thesis using Cons.IH[of ?indeg ?adj] True by simp
  next
    case False
    then have "add_edge e (indeg, adj) = (indeg, adj)" using Cons.prems by (auto simp: add_edge_def)
    then show ?thesis using Cons False by (auto simp del: not_None_eq)
  qed
qed simp

text \<open>In-degrees count edges, successors list them.\<close>

definition incoming :: "PlanInput \<Rightarrow> string set \<Rightarrow> string \<Rightarrow> nat" where
  "incoming p P n = length (filter (\<lambda>e. e_to e = n \<and> e_from e \<notin> P) (known_edges p))"

lemma graph_of_read:
  "degree (fst (graph_of p)) n = int (incoming p {} n)"
  "successors (snd (graph_of p)) n = map e_to (filter (\<lambda>e. e_from e = n) (known_edges p))"
proof -
  have known: "map_of (no_degrees (issueIds p)) k \<noteq> None \<longleftrightarrow> k \<in> set (issueIds p)" for k
    by (simp add: map_of_no_degrees)
  have zero: "degree (no_degrees (issueIds p)) n = 0" by (simp add: degree_def map_of_no_degrees)
  show "degree (fst (graph_of p)) n = int (incoming p {} n)"
    using graph_edges[OF known, where es = "dependency_edges p" and adj = "[]"] zero
    by (simp add: graph_of_def incoming_def known_edges_def conj_commute conj_left_commute)
  show "successors (snd (graph_of p)) n = map e_to (filter (\<lambda>e. e_from e = n) (known_edges p))"
    using graph_edges[OF known, where es = "dependency_edges p" and adj = "[]"]
    by (simp add: graph_of_def known_edges_def successors_def conj_commute conj_left_commute)
qed

section \<open>What the algorithm processes\<close>

lemma filter_insert_split:
  "n \<notin> P \<Longrightarrow> length (filter (\<lambda>e. e_to e = m \<and> e_from e \<notin> insert n P) es) +
     length (filter (\<lambda>e. e_from e = n \<and> e_to e = m) es) = length (filter (\<lambda>e. e_to e = m \<and> e_from e \<notin> P) es)"
  by (induction es) auto

lemma incoming_insert:
  "n \<notin> P \<Longrightarrow> incoming p (insert n P) m + length (filter (\<lambda>e. e_from e = n \<and> e_to e = m) (known_edges p)) = incoming p P m"
  unfolding incoming_def by (rule filter_insert_split)

lemma incoming_zero: "incoming p P m = 0 \<longleftrightarrow> (\<forall>a. (a, m) \<in> depends p \<longrightarrow> a \<in> P)"
  by (force simp: incoming_def depends_def filter_empty_conv)

lemma relaxed_degree: "degree (fst (fold relax ms (indeg, q))) m = degree indeg m - int (count_list ms m)"
proof (induction ms arbitrary: indeg q)
  case (Cons x ms)
  then show ?case by (simp add: relax_def Let_def)
qed simp

lemma relaxed_queue:
  "\<exists>Q. snd (fold relax ms (indeg, q)) = q @ Q \<and> distinct Q \<and>
     set Q = {m. 1 \<le> degree indeg m \<and> degree indeg m \<le> int (count_list ms m)}"
proof (induction ms arbitrary: indeg q)
  case Nil
  show ?case by auto
next
  case (Cons x ms)
  let ?d = "degree indeg x"
  let ?indeg = "AList.update x (?d - 1) indeg" and ?q = "if ?d - 1 = 0 then q @ [x] else q"
  obtain Q where Q: "snd (fold relax ms (?indeg, ?q)) = ?q @ Q" "distinct Q"
    "set Q = {m. 1 \<le> degree ?indeg m \<and> degree ?indeg m \<le> int (count_list ms m)}"
    using Cons.IH by blast
  let ?Q = "(if ?d - 1 = 0 then [x] else []) @ Q"
  have "snd (fold relax (x # ms) (indeg, q)) = q @ ?Q" using Q(1) by (simp add: relax_def Let_def)
  moreover have "distinct ?Q" using Q(2,3) by auto
  moreover have "set ?Q = {m. 1 \<le> degree indeg m \<and> degree indeg m \<le> int (count_list (x # ms) m)}"
    using Q(3) by auto
  ultimately show ?case by blast
qed

lemma count_successors: "count_list (map e_to (filter (\<lambda>e. e_from e = n) es)) m = length (filter (\<lambda>e. e_from e = n \<and> e_to e = m) es)"
  by (induction es) auto

text \<open>The issues that have left the queue, the queue, and the degrees.\<close>

definition kahn_inv :: "PlanInput \<Rightarrow> string set \<Rightarrow> degrees \<Rightarrow> string list \<Rightarrow> bool" where
  "kahn_inv p P indeg q \<longleftrightarrow> distinct q \<and> P \<inter> set q = {} \<and> P \<union> set q \<subseteq> set (issueIds p) \<and>
     (\<forall>n. degree indeg n = int (incoming p P n)) \<and>
     (\<forall>n\<in>set (issueIds p). n \<in> P \<union> set q \<longleftrightarrow> incoming p P n = 0) \<and>
     acyclic {(a, b) \<in> depends p. b \<in> P}"

lemma kahn_inv_closed: "kahn_inv p P indeg q \<Longrightarrow> (a, b) \<in> depends p \<Longrightarrow> b \<in> P \<union> set q \<Longrightarrow> a \<in> P"
  unfolding kahn_inv_def using incoming_zero by blast

lemma acyclic_sink:
  assumes "acyclic R" and "S \<subseteq> UNIV \<times> {n}" and "n \<notin> Domain (R \<union> S)"
  shows "acyclic (R \<union> S)"
proof -
  have "y = n \<or> (x, y) \<in> R\<^sup>+" if "(x, y) \<in> (R \<union> S)\<^sup>+" for x y
    using that
  proof induction
    case (base y)
    then show ?case using assms(2) by auto
  next
    case (step y z)
    then have "y \<noteq> n" using assms(3) by auto
    then show ?case using step assms(2) by (auto intro: trancl_into_trancl)
  qed
  moreover have "(n, n) \<notin> (R \<union> S)\<^sup>+" using assms(3) by (metis Domain_iff tranclD)
  ultimately show ?thesis using assms(1) unfolding acyclic_def by metis
qed

lemma kahn_inv_step:
  assumes "kahn_inv p P indeg (n # q)" and "\<And>m. successors adj m = map e_to (filter (\<lambda>e. e_from e = m) (known_edges p))"
    and "fold relax (successors adj n) (indeg, q) = (indeg1, q1)"
  shows "kahn_inv p (insert n P) indeg1 q1"
proof -
  let ?out = "\<lambda>m. length (filter (\<lambda>e. e_from e = n \<and> e_to e = m) (known_edges p))"
  have n: "n \<notin> P" "n \<notin> set q" "n \<in> set (issueIds p)" and deg: "degree indeg m = int (incoming p P m)" for m
    using assms(1) by (auto simp: kahn_inv_def)
  have less: "incoming p (insert n P) m + ?out m = incoming p P m" for m by (rule incoming_insert[OF n(1)])
  have deg1: "degree indeg1 m = int (incoming p (insert n P) m)" for m
    using relaxed_degree[of "successors adj n" indeg q m] assms(3) less[of m] deg[of m] by (simp add: assms(2) count_successors)
  obtain Q where Q: "q1 = q @ Q" "distinct Q" "set Q = {m. 1 \<le> degree indeg m \<and> degree indeg m \<le> int (?out m)}"
    using relaxed_queue[of "successors adj n" indeg q] assms(3) by (auto simp: assms(2) count_successors)
  have new: "m \<in> set Q \<longleftrightarrow> incoming p P m \<noteq> 0 \<and> incoming p (insert n P) m = 0" for m
    using Q(3) deg[of m] less[of m] by auto
  have old: "m \<in> insert n (P \<union> set q) \<longleftrightarrow> incoming p P m = 0" if "m \<in> set (issueIds p)" for m
    using assms(1) that by (auto simp: kahn_inv_def)
  have out: "m \<in> set (issueIds p)" if "?out m \<noteq> 0" for m
    using that by (auto simp: known_edges_def filter_empty_conv)
  have sub: "set Q \<subseteq> set (issueIds p)"
  proof
    fix m assume "m \<in> set Q"
    then have "?out m \<noteq> 0" using iffD1[OF new] less[of m] by fastforce
    then show "m \<in> set (issueIds p)" by (rule out)
  qed
  have kept: "incoming p (insert n P) m = 0" if "incoming p P m = 0" for m using less[of m] that by simp
  have states: "\<forall>m\<in>set (issueIds p). m \<in> insert n P \<union> set q1 \<longleftrightarrow> incoming p (insert n P) m = 0"
  proof
    fix m assume "m \<in> set (issueIds p)"
    then show "m \<in> insert n P \<union> set q1 \<longleftrightarrow> incoming p (insert n P) m = 0"
      using old[of m] new[of m] kept[of m] Q(1) by (cases "incoming p P m = 0") auto
  qed
  have disj: "set Q \<inter> insert n (P \<union> set q) = {}" using new old sub by blast
  have "n \<notin> Domain ({(a, b) \<in> depends p. b \<in> P} \<union> {(a, b) \<in> depends p. b = n})"
    using kahn_inv_closed[OF assms(1)] n(1) by auto
  then have "acyclic ({(a, b) \<in> depends p. b \<in> P} \<union> {(a, b) \<in> depends p. b = n})"
    using assms(1) by (intro acyclic_sink[where n = n]) (auto simp: kahn_inv_def)
  moreover have "{(a, b) \<in> depends p. b \<in> insert n P} = {(a, b) \<in> depends p. b \<in> P} \<union> {(a, b) \<in> depends p. b = n}" by auto
  ultimately show ?thesis
    using assms(1) n deg1 Q(1,2) sub states disj by (auto simp: kahn_inv_def)
qed

lemma kahn_processes:
  assumes "\<And>m. successors adj m = map e_to (filter (\<lambda>e. e_from e = m) (known_edges p))"
  shows "kahn_inv p P indeg q \<Longrightarrow> card P = seen \<Longrightarrow> finite P \<Longrightarrow>
    \<exists>P1. kahn_inv p P1 (fst (kahn adj indeg q seen)) [] \<and> card P1 = snd (kahn adj indeg q seen) \<and> finite P1"
  using assms
proof (induction adj indeg q seen arbitrary: P rule: kahn.induct)
  case (1 adj indeg seen)
  then show ?case by auto
next
  case (2 adj indeg n q seen)
  obtain indeg1 q1 where r: "fold relax (successors adj n) (indeg, q) = (indeg1, q1)" by force
  have "n \<notin> P" using "2.prems"(1) by (auto simp: kahn_inv_def)
  then show ?case using "2.IH"[OF r[symmetric] kahn_inv_step[OF "2.prems"(1,4) r]] "2.prems" r by simp
qed

text \<open>An issue depends on a cycle when a cycle leads to it.\<close>

definition behind_cycle :: "PlanInput \<Rightarrow> string \<Rightarrow> bool" where
  "behind_cycle p m \<longleftrightarrow> (\<exists>x. (x, x) \<in> (depends p)\<^sup>+ \<and> (x, m) \<in> (depends p)\<^sup>*)"

lemma finite_depends: "finite (depends p)"
  by (simp add: depends_def)

lemma depends_issues: "(a, b) \<in> depends p \<Longrightarrow> a \<in> set (issueIds p) \<and> b \<in> set (issueIds p)"
  by (auto simp: depends_def known_edges_def)

lemma processed_iff:
  assumes "kahn_inv p P indeg []" and "m \<in> set (issueIds p)"
  shows "m \<in> P \<longleftrightarrow> \<not> behind_cycle p m"
proof
  assume m: "m \<in> P"
  let ?R = "{(a, b) \<in> depends p. b \<in> P}"
  have lead: "(a, b) \<in> (depends p)\<^sup>+ \<Longrightarrow> b \<in> P \<Longrightarrow> a \<in> P \<and> (a, b) \<in> ?R\<^sup>+" for a b
  proof (induction rule: trancl_induct)
    case (base y)
    then show ?case using kahn_inv_closed[OF assms(1)] by blast
  next
    case (step y z)
    then have "y \<in> P" using kahn_inv_closed[OF assms(1)] by blast
    then show ?case using step by (auto intro: trancl_into_trancl)
  qed
  show "\<not> behind_cycle p m"
  proof
    assume "behind_cycle p m"
    then obtain x where x: "(x, x) \<in> (depends p)\<^sup>+" "(x, m) \<in> (depends p)\<^sup>*" by (auto simp: behind_cycle_def)
    then have "x \<in> P" using lead m by (metis rtranclD)
    then have "(x, x) \<in> ?R\<^sup>+" using lead x(1) by blast
    then show False using assms(1) by (auto simp: kahn_inv_def acyclic_def)
  qed
next
  assume no_cycle: "\<not> behind_cycle p m"
  show "m \<in> P"
  proof (rule ccontr)
    assume "m \<notin> P"
    let ?A = "{x \<in> set (issueIds p) - P. (x, m) \<in> (depends p)\<^sup>*}"
    let ?R = "{(a, b) \<in> depends p. (b, m) \<in> (depends p)\<^sup>*}"
    have "finite ?R" by (rule finite_subset[OF _ finite_depends[of p]]) auto
    moreover have "(x, y) \<in> ?R\<^sup>+ \<Longrightarrow> (x, y) \<in> (depends p)\<^sup>+ \<and> (y, m) \<in> (depends p)\<^sup>*" for x y
      by (induction rule: trancl_induct) (auto intro: trancl_into_trancl)
    then have "acyclic ?R" using no_cycle unfolding behind_cycle_def acyclic_def by blast
    ultimately have "wf ?R" by (rule finite_acyclic_wf)
    moreover have "m \<in> ?A" using assms(2) \<open>m \<notin> P\<close> by simp
    ultimately obtain z where z: "z \<in> ?A" "\<And>y. (y, z) \<in> ?R \<Longrightarrow> y \<notin> ?A" using wfE_min[of ?R m ?A] by blast
    then have "incoming p P z \<noteq> 0" using assms(1) by (auto simp: kahn_inv_def)
    then obtain y where y: "(y, z) \<in> depends p" "y \<notin> P" by (auto simp: incoming_zero)
    then have "y \<in> ?A" using z(1) depends_issues by (auto intro: converse_rtrancl_into_rtrancl)
    then show False using z y by blast
  qed
qed

lemma kahn_start: "distinct (issueIds p) \<Longrightarrow> kahn_inv p {} (fst (graph_of p)) (filter (\<lambda>i. degree (fst (graph_of p)) i = 0) (issueIds p))"
  by (auto simp: kahn_inv_def graph_of_read acyclic_def)

lemma behind_cycle_cyclic: "(\<exists>m\<in>set (issueIds p). behind_cycle p m) \<longleftrightarrow> \<not> acyclic (depends p)"
proof
  assume "\<not> acyclic (depends p)"
  then obtain x where x: "(x, x) \<in> (depends p)\<^sup>+" by (auto simp: acyclic_def)
  then have "x \<in> set (issueIds p)" using depends_issues by (metis tranclD)
  then show "\<exists>m\<in>set (issueIds p). behind_cycle p m" using x by (auto simp: behind_cycle_def)
qed (auto simp: behind_cycle_def acyclic_def)

lemma kahn_result:
  assumes "distinct (issueIds p)" and "graph_of p = (indeg, adj)"
    and "kahn adj indeg (filter (\<lambda>i. degree indeg i = 0) (issueIds p)) 0 = (indeg1, seen)"
  shows "seen = length (issueIds p) \<longleftrightarrow> acyclic (depends p)"
    and "m \<in> set (issueIds p) \<Longrightarrow> 0 < degree indeg1 m \<longleftrightarrow> behind_cycle p m"
proof -
  have adj: "successors adj m = map e_to (filter (\<lambda>e. e_from e = m) (known_edges p))" for m
    using graph_of_read(2)[of p m] assms(2) by simp
  have "kahn_inv p {} indeg (filter (\<lambda>i. degree indeg i = 0) (issueIds p))"
    using kahn_start[OF assms(1)] assms(2) by simp
  from kahn_processes[OF adj this, of 0] obtain P where P: "kahn_inv p P indeg1 []" "card P = seen" "finite P"
    using assms(3) by auto
  have sub: "P \<subseteq> set (issueIds p)" and deg: "degree indeg1 m = int (incoming p P m)" for m
    using P(1) by (auto simp: kahn_inv_def)
  have "seen = length (issueIds p) \<longleftrightarrow> P = set (issueIds p)"
    using P(2) sub distinct_card[OF assms(1)] by (metis card_subset_eq finite_set)
  also have "\<dots> \<longleftrightarrow> acyclic (depends p)"
    using processed_iff[OF P(1)] sub behind_cycle_cyclic[of p] by blast
  finally show "seen = length (issueIds p) \<longleftrightarrow> acyclic (depends p)" .
  show "0 < degree indeg1 m \<longleftrightarrow> behind_cycle p m" if "m \<in> set (issueIds p)"
    using P(1) that processed_iff[OF P(1) that] deg[of m] by (auto simp: kahn_inv_def)
qed

section \<open>Coverage\<close>

definition stamped :: "plan_issue list \<Rightarrow> string \<Rightarrow> string list" where
  "stamped issues d = map is_id (filter (\<lambda>i. stamp (is_body i) = Some d) issues)"

lemma cover_read: "map_of (cover i cov) d =
  (if stamp (is_body i) = Some d then map_option (\<lambda>ids. ids @ [is_id i]) (map_of cov d) else map_of cov d)"
  by (auto simp: cover_def update_conv' split: option.splits)

lemma covers_read: "map_of (fold cover issues cov) d = map_option (\<lambda>ids. ids @ stamped issues d) (map_of cov d)"
proof (induction issues arbitrary: cov)
  case (Cons i issues)
  then show ?case by (cases "map_of cov d") (simp_all add: cover_read stamped_def)
qed (simp add: stamped_def option.map_ident)

lemma no_cover_read: "map_of (fold (\<lambda>d. AList.update d ([] :: string list)) ds al) d = (if d \<in> set ds then Some [] else map_of al d)"
  by (induction ds arbitrary: al) (auto simp: update_conv')

lemma buildCoveredBy_read: "successors (buildCoveredBy ds issues) d = (if d \<in> set ds then stamped issues d else [])"
  by (simp add: successors_def buildCoveredBy_def covers_read no_cover_read)

lemma planAudit_exact_parts:
  assumes "distinct (issueIds p)" and "coveredBy p = buildCoveredBy (designElementIds p) issues"
  shows "pr_acyclic (planAudit p) \<longleftrightarrow> acyclic (depends p)"
    and "set (pr_cycles (planAudit p)) = {m. m \<in> set (issueIds p) \<and> behind_cycle p m}"
    and "pr_complete (planAudit p) \<longleftrightarrow> set (map Some (designElementIds p)) \<subseteq> set (map (\<lambda>i. stamp (is_body i)) issues)"
    and "set (pr_uncovered (planAudit p)) = {d. d \<in> set (designElementIds p) \<and> Some d \<notin> set (map (\<lambda>i. stamp (is_body i)) issues)}"
proof -
  obtain indeg adj where g: "graph_of p = (indeg, adj)" by force
  obtain indeg1 seen where k: "kahn adj indeg (filter (\<lambda>i. degree indeg i = 0) (issueIds p)) 0 = (indeg1, seen)" by force
  note r = kahn_result[OF assms(1) g k]
  show "pr_acyclic (planAudit p) \<longleftrightarrow> acyclic (depends p)" using g k r(1) by (simp add: planAudit_def Let_def)
  show "set (pr_cycles (planAudit p)) = {m. m \<in> set (issueIds p) \<and> behind_cycle p m}"
    using g k r behind_cycle_cyclic[of p] by (auto simp: planAudit_def Let_def)
  have none: "stamped issues d = [] \<longleftrightarrow> Some d \<notin> set (map (\<lambda>i. stamp (is_body i)) issues)" for d
    by (force simp: stamped_def filter_empty_conv)
  show u: "set (pr_uncovered (planAudit p)) = {d. d \<in> set (designElementIds p) \<and> Some d \<notin> set (map (\<lambda>i. stamp (is_body i)) issues)}"
    using g k none by (auto simp: planAudit_def Let_def assms(2) buildCoveredBy_read)
  have "pr_complete (planAudit p) \<longleftrightarrow> set (pr_uncovered (planAudit p)) = {}"
    using g k by (simp add: planAudit_def Let_def filter_empty_conv Ball_def)
  then show "pr_complete (planAudit p) \<longleftrightarrow> set (map Some (designElementIds p)) \<subseteq> set (map (\<lambda>i. stamp (is_body i)) issues)"
    unfolding u by auto
qed

text \<open>C27. The plan gate: over distinct issues, the report says acyclic exactly when no chain of
  \<open>blocks\<close> and \<open>parent-child\<close> edges between issues returns to its start; the issues it names are exactly
  those a cycle leads to, its own members included; and with the coverage that \<open>buildCoveredBy\<close> joins
  from the issue bodies, it says complete exactly when each design element is the first stamp of some
  issue's body, and the uncovered ones are those that are not.\<close>
theorem planAudit_exact:
  assumes "distinct (issueIds p)" and "coveredBy p = buildCoveredBy (designElementIds p) issues"
  shows "(pr_acyclic (planAudit p) \<longleftrightarrow> acyclic (depends p)) \<and>
    set (pr_cycles (planAudit p)) = {m. m \<in> set (issueIds p) \<and> behind_cycle p m} \<and>
    (pr_complete (planAudit p) \<longleftrightarrow> set (map Some (designElementIds p)) \<subseteq> set (map (\<lambda>i. stamp (is_body i)) issues)) \<and>
    set (pr_uncovered (planAudit p)) = {d. d \<in> set (designElementIds p) \<and> Some d \<notin> set (map (\<lambda>i. stamp (is_body i)) issues)}"
  using planAudit_exact_parts[OF assms] by blast


definition demo_plan :: PlanInput where
  "demo_plan = \<lparr>issueIds = [''a'', ''b'', ''c'', ''d''],
     edges = [\<lparr>e_from = ''a'', e_to = ''b'', e_type = ''blocks''\<rparr>, \<lparr>e_from = ''b'', e_to = ''c'', e_type = ''parent-child''\<rparr>,
              \<lparr>e_from = ''c'', e_to = ''b'', e_type = ''blocks''\<rparr>, \<lparr>e_from = ''c'', e_to = ''d'', e_type = ''blocks''\<rparr>,
              \<lparr>e_from = ''d'', e_to = ''a'', e_type = ''relates''\<rparr>],
     designElementIds = [''e1'', ''e2''],
     coveredBy = buildCoveredBy [''e1'', ''e2''] [\<lparr>is_id = ''a'', is_body = ''do sourceElementId:e1 sourceElementId:e2''\<rparr>]\<rparr>"

lemma demo_plan_report: "planAudit demo_plan =
  \<lparr>pr_acyclic = False, pr_complete = False, pr_cycles = [''b'', ''c'', ''d''], pr_uncovered = [''e2'']\<rparr>"
  by code_simp

theorem planAudit_exact_witness: "\<not> acyclic (depends demo_plan) \<and> behind_cycle demo_plan ''d'' \<and> \<not> behind_cycle demo_plan ''a''"
proof -
  have d: "distinct (issueIds demo_plan)" "coveredBy demo_plan = buildCoveredBy (designElementIds demo_plan)
    [\<lparr>is_id = ''a'', is_body = ''do sourceElementId:e1 sourceElementId:e2''\<rparr>]" by (simp_all add: demo_plan_def)
  have "\<not> acyclic (depends demo_plan)" using planAudit_exact[OF d] by (simp add: demo_plan_report)
  moreover have hit: "{m. m \<in> set (issueIds demo_plan) \<and> behind_cycle demo_plan m} = {''b'', ''c'', ''d''}"
    using planAudit_exact[OF d] by (simp add: demo_plan_report)
  have "''d'' \<in> {m. m \<in> set (issueIds demo_plan) \<and> behind_cycle demo_plan m}"
    and "''a'' \<notin> {m. m \<in> set (issueIds demo_plan) \<and> behind_cycle demo_plan m}" unfolding hit by simp_all
  moreover have "''a'' \<in> set (issueIds demo_plan)" by (simp add: demo_plan_def)
  ultimately show ?thesis by blast
qed

end
