(* ===== verification/RateLimit.thy ===== *)
theory RateLimit
  imports Prelude Complex_Main
begin

text \<open>
  The token bucket of the trigger limits (\<open>src/src/runtime/rate_limit.ts\<close>).

  The table is a map from bucket to row. One connection serves all callers, so a call is the sequence of
  its statements, and the statements of calls that overlap may interleave; a call that nothing overlaps is
  the sequence run to its end. Which statements the storage fails is an argument. Token counts are exact
  rationals where the code has doubles; clocks are integers.
\<close>

section \<open>Configuration and decisions\<close>

datatype period = minute | hour | day

definition PER_TO_MS :: "period \<Rightarrow> int" where
  "PER_TO_MS p = (case p of minute \<Rightarrow> 60000 | hour \<Rightarrow> 3600000 | day \<Rightarrow> 86400000)"

record RateLimitConfig =
  rl_max :: int
  rl_per :: period
  rl_concurrent :: "int option"

text \<open>What the schema of the manifest accepts.\<close>

definition RateLimitConfig_schema :: "RateLimitConfig \<Rightarrow> bool" where
  "RateLimitConfig_schema c \<longleftrightarrow> 0 < rl_max c \<and> (case rl_concurrent c of None \<Rightarrow> True | Some n \<Rightarrow> 0 < n)"

datatype deny_reason = rate_exceeded | concurrent_exceeded | rate_limit_storage_error

record RateLimitDecision =
  allowed :: bool
  retryAfterMs :: "int option"
  reason :: "deny_reason option"

definition allow :: RateLimitDecision where
  "allow = \<lparr>allowed = True, retryAfterMs = None, reason = None\<rparr>"

definition deny_for :: "int option \<Rightarrow> deny_reason \<Rightarrow> RateLimitDecision" where
  "deny_for retry r = \<lparr>allowed = False, retryAfterMs = retry, reason = Some r\<rparr>"

record BucketRow =
  tokens :: rat
  last_refill_ms :: int
  concurrent_count :: int

definition clamp :: "rat \<Rightarrow> rat \<Rightarrow> rat \<Rightarrow> rat" where
  "clamp value lo hi = (if value < lo then lo else if hi < value then hi else value)"

definition refillPerMs :: "RateLimitConfig \<Rightarrow> rat" where
  "refillPerMs c = of_int (rl_max c) / of_int (PER_TO_MS (rl_per c))"

definition refilled :: "RateLimitConfig \<Rightarrow> int \<Rightarrow> BucketRow option \<Rightarrow> rat" where
  "refilled c now row =
     (let baseTokens = (case row of None \<Rightarrow> of_int (rl_max c) | Some r \<Rightarrow> tokens r);
          elapsed = max 0 (now - (case row of None \<Rightarrow> now | Some r \<Rightarrow> last_refill_ms r))
      in clamp (baseTokens + of_int elapsed * refillPerMs c) 0 (of_int (rl_max c)))"

definition at_cap :: "RateLimitConfig \<Rightarrow> int \<Rightarrow> bool" where
  "at_cap c n \<longleftrightarrow> (case rl_concurrent c of None \<Rightarrow> False | Some k \<Rightarrow> k \<le> n)"

text \<open>The decision over the row that was read, and the row to write.\<close>

definition decide :: "RateLimitConfig \<Rightarrow> int \<Rightarrow> BucketRow option \<Rightarrow> RateLimitDecision \<times> BucketRow" where
  "decide c now row =
     (let t = refilled c now row; n = (case row of None \<Rightarrow> 0 | Some r \<Rightarrow> concurrent_count r) in
      if at_cap c n
      then (deny_for (Some 0) concurrent_exceeded, \<lparr>tokens = t, last_refill_ms = now, concurrent_count = n\<rparr>)
      else if t < 1
      then (deny_for (Some \<lceil>(1 - t) / refillPerMs c\<rceil>) rate_exceeded, \<lparr>tokens = t, last_refill_ms = now, concurrent_count = n\<rparr>)
      else (allow, \<lparr>tokens = t - 1, last_refill_ms = now, concurrent_count = n + 1\<rparr>))"

definition released :: "BucketRow \<Rightarrow> BucketRow" where
  "released r = r\<lparr>concurrent_count := max 0 (concurrent_count r - 1)\<rparr>"

section \<open>Statements on one connection\<close>

type_synonym bucket_key = "string \<times> string \<times> string"

datatype stmt = CreateTable | BeginImmediate | SelectRow | UpsertRow | CommitTx

record limiter_db =
  buckets :: "bucket_key \<Rightarrow> BucketRow option"
  tx :: "(bucket_key \<Rightarrow> BucketRow option) option"
  initialized :: bool

text \<open>\<open>BEGIN\<close> fails inside a transaction, \<open>COMMIT\<close> and \<open>ROLLBACK\<close> fail outside of one.\<close>

definition begin_tx :: "(stmt \<Rightarrow> bool) \<Rightarrow> limiter_db \<Rightarrow> limiter_db option" where
  "begin_tx broken d = (if broken BeginImmediate \<or> tx d \<noteq> None then None else Some (d\<lparr>tx := Some (buckets d)\<rparr>))"

definition commit_tx :: "(stmt \<Rightarrow> bool) \<Rightarrow> limiter_db \<Rightarrow> limiter_db option" where
  "commit_tx broken d = (if broken CommitTx \<or> tx d = None then None else Some (d\<lparr>tx := None\<rparr>))"

definition rollback_tx :: "limiter_db \<Rightarrow> limiter_db" where
  "rollback_tx d = (case tx d of None \<Rightarrow> d | Some saved \<Rightarrow> d\<lparr>buckets := saved, tx := None\<rparr>)"

definition write_bucket :: "bucket_key \<Rightarrow> BucketRow \<Rightarrow> limiter_db \<Rightarrow> limiter_db" where
  "write_bucket k row d = d\<lparr>buckets := (buckets d)(k := Some row)\<rparr>"

text \<open>Where a call of \<open>check\<close> stands between its awaits.\<close>

datatype check_pc = CIdle | CBegan | CRow "BucketRow option" | CWritten RateLimitDecision | CDone RateLimitDecision

definition storage_error :: RateLimitDecision where
  "storage_error = deny_for None rate_limit_storage_error"

definition check_step :: "(stmt \<Rightarrow> bool) \<Rightarrow> RateLimitConfig \<Rightarrow> bucket_key \<Rightarrow> int \<Rightarrow> check_pc \<times> limiter_db \<Rightarrow> check_pc \<times> limiter_db" where
  "check_step broken c k now s = (case s of (pc, d) \<Rightarrow> (case pc of
     CIdle \<Rightarrow> (case begin_tx broken d of None \<Rightarrow> (CDone storage_error, d) | Some d1 \<Rightarrow> (CBegan, d1))
   | CBegan \<Rightarrow> if broken SelectRow then (CDone storage_error, rollback_tx d) else (CRow (buckets d k), d)
   | CRow row \<Rightarrow> if broken UpsertRow then (CDone storage_error, rollback_tx d)
       else (CWritten (fst (decide c now row)), write_bucket k (snd (decide c now row)) d)
   | CWritten v \<Rightarrow> (case commit_tx broken d of None \<Rightarrow> (CDone storage_error, rollback_tx d) | Some d1 \<Rightarrow> (CDone v, d1))
   | CDone v \<Rightarrow> (CDone v, d)))"

datatype release_pc = RIdle | RBegan | RRow "BucketRow option" | RWritten | RDone bool

text \<open>A release ends with whether it went through; a failure only reaches the error sink.\<close>

definition release_step :: "(stmt \<Rightarrow> bool) \<Rightarrow> bucket_key \<Rightarrow> release_pc \<times> limiter_db \<Rightarrow> release_pc \<times> limiter_db" where
  "release_step broken k s = (case s of (pc, d) \<Rightarrow> (case pc of
     RIdle \<Rightarrow> (case begin_tx broken d of None \<Rightarrow> (RDone False, d) | Some d1 \<Rightarrow> (RBegan, d1))
   | RBegan \<Rightarrow> if broken SelectRow then (RDone False, rollback_tx d) else (RRow (buckets d k), d)
   | RRow None \<Rightarrow> (RWritten, d)
   | RRow (Some r) \<Rightarrow> if broken UpsertRow then (RDone False, rollback_tx d) else (RWritten, write_bucket k (released r) d)
   | RWritten \<Rightarrow> (case commit_tx broken d of None \<Rightarrow> (RDone False, rollback_tx d) | Some d1 \<Rightarrow> (RDone True, d1))
   | RDone b \<Rightarrow> (RDone b, d)))"

text \<open>\<open>init\<close> runs outside the error handling of its callers: \<^const>\<open>None\<close> is its throw.\<close>

definition init_limiter :: "(stmt \<Rightarrow> bool) \<Rightarrow> limiter_db \<Rightarrow> limiter_db option" where
  "init_limiter broken d =
     (if initialized d then Some d else if broken CreateTable then None else Some (d\<lparr>initialized := True\<rparr>))"

type_synonym pack_limits = "string \<Rightarrow> string \<Rightarrow> RateLimitConfig option"

definition limit_of :: "pack_limits \<Rightarrow> bucket_key \<Rightarrow> RateLimitConfig option" where
  "limit_of limits k = (case k of (pack, trigger, key) \<Rightarrow> limits pack trigger)"

definition check_done :: "check_pc \<times> limiter_db \<Rightarrow> RateLimitDecision \<times> limiter_db" where
  "check_done s = (case s of (CDone v, d) \<Rightarrow> (v, d) | (pc, d) \<Rightarrow> (storage_error, d))"

text \<open>A call that nothing overlaps: four statements, or fewer when one fails.\<close>

definition check :: "(stmt \<Rightarrow> bool) \<Rightarrow> pack_limits \<Rightarrow> bucket_key \<Rightarrow> int \<Rightarrow> limiter_db \<Rightarrow> (RateLimitDecision \<times> limiter_db) option" where
  "check broken limits k now d = (case limit_of limits k of
     None \<Rightarrow> Some (allow, d)
   | Some c \<Rightarrow> map_option (\<lambda>d1. check_done ((check_step broken c k now ^^ 4) (CIdle, d1))) (init_limiter broken d))"

definition release :: "(stmt \<Rightarrow> bool) \<Rightarrow> pack_limits \<Rightarrow> bucket_key \<Rightarrow> limiter_db \<Rightarrow> limiter_db option" where
  "release broken limits k d = (case limit_of limits k of
     None \<Rightarrow> Some d
   | Some c \<Rightarrow> map_option (\<lambda>d1. snd ((release_step broken k ^^ 4) (RIdle, d1))) (init_limiter broken d))"

definition new_limiter :: limiter_db where
  "new_limiter = \<lparr>buckets = (\<lambda>k. None), tx = None, initialized = False\<rparr>"

section \<open>Calls one after the other\<close>

abbreviation (input) working :: "stmt \<Rightarrow> bool" where
  "working \<equiv> (\<lambda>s. False)"

lemmas check_steps = check_step_def begin_tx_def commit_tx_def write_bucket_def check_done_def numeral_eq_Suc

lemma check_working:
  assumes "limit_of limits k = Some c" and "tx d = None"
  shows "check working limits k now d = Some (fst (decide c now (buckets d k)),
    d\<lparr>initialized := True, buckets := (buckets d)(k \<mapsto> snd (decide c now (buckets d k)))\<rparr>)"
  using assms by (simp add: check_def init_limiter_def check_steps)

lemma release_working:
  assumes "limit_of limits k = Some c" and "tx d = None"
  shows "release working limits k d = Some (d\<lparr>initialized := True,
    buckets := (buckets d)(k := map_option released (buckets d k))\<rparr>)"
  using assms
  by (cases "buckets d k") (simp_all add: release_def init_limiter_def release_step_def begin_tx_def commit_tx_def
      write_bucket_def numeral_eq_Suc fun_upd_idem)

text \<open>A history of one bucket, and how many of its checks were allowed.\<close>

datatype bucket_call = Check int | Release

definition call_bucket :: "pack_limits \<Rightarrow> bucket_key \<Rightarrow> bucket_call \<Rightarrow> limiter_db \<Rightarrow> (bool \<times> limiter_db) option" where
  "call_bucket limits k x d = (case x of
     Check now \<Rightarrow> map_option (\<lambda>(v, d1). (allowed v, d1)) (check working limits k now d)
   | Release \<Rightarrow> map_option (Pair False) (release working limits k d))"

fun run_bucket :: "pack_limits \<Rightarrow> bucket_key \<Rightarrow> bucket_call list \<Rightarrow> limiter_db \<Rightarrow> bool list \<times> limiter_db" where
  "run_bucket limits k [] d = ([], d)"
| "run_bucket limits k (x # xs) d = (case call_bucket limits k x d of
     None \<Rightarrow> ([], d)
   | Some (ok, d1) \<Rightarrow> (case run_bucket limits k xs d1 of (oks, d2) \<Rightarrow> (ok # oks, d2)))"

definition check_times :: "bucket_call list \<Rightarrow> int list" where
  "check_times xs = List.map_filter (\<lambda>x. case x of Check t \<Rightarrow> Some t | Release \<Rightarrow> None) xs"

lemma check_times_simps [simp]:
  "check_times [] = []" "check_times (Check t # xs) = t # check_times xs" "check_times (Release # xs) = check_times xs"
  by (simp_all add: check_times_def List.map_filter_def)

definition grants :: "bool list \<Rightarrow> nat" where
  "grants oks = length (filter id oks)"

lemma grants_simps [simp]: "grants [] = 0" "grants (b # bs) = (if b then 1 else 0) + grants bs"
  by (simp_all add: grants_def)

lemma grants_rat: "of_nat (grants (b # bs)) = of_nat (grants bs) + (if b then 1 else 0 :: rat)"
  by simp

definition sound_row :: "RateLimitConfig \<Rightarrow> BucketRow \<Rightarrow> bool" where
  "sound_row c r \<longleftrightarrow> 0 \<le> tokens r \<and> tokens r \<le> of_int (rl_max c) \<and> 0 \<le> concurrent_count r"

lemma refill_pos: "RateLimitConfig_schema c \<Longrightarrow> 0 < refillPerMs c"
  by (cases "rl_per c") (auto simp: refillPerMs_def RateLimitConfig_schema_def PER_TO_MS_def)

lemma refilled_bounds: "RateLimitConfig_schema c \<Longrightarrow> 0 \<le> refilled c now row \<and> refilled c now row \<le> of_int (rl_max c)"
  by (auto simp: refilled_def clamp_def Let_def RateLimitConfig_schema_def)

lemma refilled_gain:
  assumes "RateLimitConfig_schema c" and "sound_row c r" and "last_refill_ms r \<le> now"
  shows "refilled c now (Some r) \<le> tokens r + of_int (now - last_refill_ms r) * refillPerMs c"
proof -
  have "0 \<le> (of_int (now - last_refill_ms r) :: rat) * refillPerMs c"
    using assms(1,3) refill_pos[OF assms(1)] by (intro mult_nonneg_nonneg) simp_all
  then show ?thesis using assms(2,3) by (auto simp: refilled_def clamp_def Let_def sound_row_def max_def)
qed

lemma decide_sound: "RateLimitConfig_schema c \<Longrightarrow> (case row of None \<Rightarrow> True | Some r \<Rightarrow> sound_row c r) \<Longrightarrow> sound_row c (snd (decide c now row))"
  using refilled_bounds[of c now row]
  by (auto simp: decide_def Let_def sound_row_def split: option.splits)

lemma decide_pays:
  "tokens (snd (decide c now row)) = refilled c now row - (if allowed (fst (decide c now row)) then 1 else 0)"
  "last_refill_ms (snd (decide c now row)) = now"
  by (auto simp: decide_def Let_def allow_def deny_for_def)

lemma run_grants:
  assumes "limit_of limits k = Some c" and "RateLimitConfig_schema c"
  shows "tx d = None \<Longrightarrow> buckets d k = Some r \<Longrightarrow> sound_row c r \<Longrightarrow> sorted (last_refill_ms r # check_times xs) \<Longrightarrow>
    of_nat (grants (fst (run_bucket limits k xs d))) \<le> tokens r + of_int (last (last_refill_ms r # check_times xs) - last_refill_ms r) * refillPerMs c"
proof (induction xs arbitrary: d r)
  case Nil
  then show ?case by (simp add: sound_row_def)
next
  case (Cons x xs)
  show ?case
  proof (cases x)
    case Release
    let ?d = "d\<lparr>initialized := True, buckets := (buckets d)(k \<mapsto> released r)\<rparr>"
    have step: "run_bucket limits k (x # xs) d = (False # fst (run_bucket limits k xs ?d), snd (run_bucket limits k xs ?d))"
      using Release Cons.prems by (simp add: call_bucket_def release_working[OF assms(1)] split: prod.split)
    have "sound_row c (released r)" using Cons.prems(3) by (simp add: sound_row_def released_def)
    then show ?thesis
      using Cons.IH[of ?d "released r"] Cons.prems Release step by (simp add: released_def)
  next
    case (Check now)
    let ?row = "snd (decide c now (Some r))" and ?ok = "allowed (fst (decide c now (Some r)))"
    let ?d = "d\<lparr>initialized := True, buckets := (buckets d)(k \<mapsto> ?row)\<rparr>"
    let ?rest = "check_times xs" and ?rate = "refillPerMs c"
    have step: "run_bucket limits k (x # xs) d = (?ok # fst (run_bucket limits k xs ?d), snd (run_bucket limits k xs ?d))"
      using Check Cons.prems by (simp add: call_bucket_def check_working[OF assms(1)] split: prod.split)
    have times: "check_times (x # xs) = now # ?rest" by (simp add: Check)
    have le: "last_refill_ms r \<le> now" and sorted: "sorted (now # ?rest)" using Cons.prems(4) times by auto
    have "sound_row c ?row" using decide_sound[OF assms(2), of "Some r" now] Cons.prems(3) by simp
    then have "of_nat (grants (fst (run_bucket limits k xs ?d))) \<le> tokens ?row + of_int (last (now # ?rest) - now) * ?rate"
      using Cons.IH[of ?d ?row] Cons.prems sorted by (simp add: decide_pays(2))
    moreover have "tokens ?row + (if ?ok then 1 else 0) = refilled c now (Some r)" by (simp add: decide_pays(1))
    moreover have "refilled c now (Some r) \<le> tokens r + of_int (now - last_refill_ms r) * ?rate"
      by (rule refilled_gain[OF assms(2) Cons.prems(3) le])
    moreover have "of_int (last (last_refill_ms r # now # ?rest) - last_refill_ms r) * ?rate =
        of_int (now - last_refill_ms r) * ?rate + of_int (last (now # ?rest) - now) * ?rate"
      by (simp add: algebra_simps)
    ultimately show ?thesis unfolding step times fst_conv grants_rat by linarith
  qed
qed

lemma run_check:
  assumes "limit_of limits k = Some c" and "tx d = None"
  shows "run_bucket limits k (Check now # xs) d =
    (let (v, row) = decide c now (buckets d k); (oks, d2) = run_bucket limits k xs (d\<lparr>initialized := True, buckets := (buckets d)(k \<mapsto> row)\<rparr>)
     in (allowed v # oks, d2))"
  using assms by (simp add: call_bucket_def check_working[OF assms] Let_def case_prod_beta)

lemma run_release:
  assumes "limit_of limits k = Some c" and "tx d = None"
  shows "run_bucket limits k (Release # xs) d =
    (let (oks, d2) = run_bucket limits k xs (d\<lparr>initialized := True, buckets := (buckets d)(k := map_option released (buckets d k))\<rparr>)
     in (False # oks, d2))"
  using assms by (simp add: call_bucket_def release_working[OF assms] Let_def case_prod_beta)


section \<open>Slots\<close>

text \<open>Slots that are taken and not given back after each call, counted from \<open>n\<close>.\<close>

fun held :: "int \<Rightarrow> bucket_call list \<Rightarrow> bool list \<Rightarrow> int list" where
  "held n (Check t # xs) (ok # oks) = (let m = n + (if ok then 1 else 0) in m # held m xs oks)"
| "held n (Release # xs) (ok # oks) = (n - 1) # held (n - 1) xs oks"
| "held n _ _ = []"

definition in_use :: "limiter_db \<Rightarrow> bucket_key \<Rightarrow> int" where
  "in_use d k = (case buckets d k of None \<Rightarrow> 0 | Some r \<Rightarrow> concurrent_count r)"

lemma decide_slots:
  "concurrent_count (snd (decide c now row)) = (case row of None \<Rightarrow> 0 | Some r \<Rightarrow> concurrent_count r) + (if allowed (fst (decide c now row)) then 1 else 0)"
  "allowed (fst (decide c now row)) \<Longrightarrow> rl_concurrent c = Some m \<Longrightarrow> concurrent_count (snd (decide c now row)) \<le> m"
  by (auto simp: decide_def Let_def allow_def deny_for_def at_cap_def split: if_splits option.splits)

text \<open>
  The cap on concurrent work is kept. As long as no caller gives back a slot that was not taken, the
  counter of a bucket is the number of slots taken and not given back, and that number never exceeds the
  configured cap.
\<close>

theorem rate_limit_slots:
  assumes "limit_of limits k = Some c" and "rl_concurrent c = Some m" and "tx d = None" and "0 \<le> in_use d k" and "in_use d k \<le> m"
    and "list_all (\<lambda>n. 0 \<le> n) (held (in_use d k) xs (fst (run_bucket limits k xs d)))"
  shows "list_all (\<lambda>n. n \<le> m) (held (in_use d k) xs (fst (run_bucket limits k xs d))) \<and>
    in_use (snd (run_bucket limits k xs d)) k = last (in_use d k # held (in_use d k) xs (fst (run_bucket limits k xs d)))"
  using assms(3-6)
proof (induction xs arbitrary: d)
  case (Cons x xs)
  show ?case
  proof (cases x)
    case Release
    let ?d = "d\<lparr>initialized := True, buckets := (buckets d)(k := map_option released (buckets d k))\<rparr>"
    have "0 \<le> in_use d k - 1" using Cons.prems(4) Release run_release[OF assms(1) Cons.prems(1)] by (simp add: case_prod_beta Let_def)
    then have u: "in_use ?d k = in_use d k - 1" by (auto simp: in_use_def released_def split: option.splits)
    show ?thesis using Cons.IH[of ?d] Cons.prems Release run_release[OF assms(1) Cons.prems(1)] u
      by (simp add: case_prod_beta Let_def)
  next
    case (Check now)
    let ?row = "snd (decide c now (buckets d k))" and ?ok = "allowed (fst (decide c now (buckets d k)))"
    let ?d = "d\<lparr>initialized := True, buckets := (buckets d)(k \<mapsto> ?row)\<rparr>"
    have u: "in_use ?d k = in_use d k + (if ?ok then 1 else 0)" by (simp add: in_use_def decide_slots(1))
    moreover have "in_use ?d k \<le> m"
      using decide_slots(2)[OF _ assms(2), of now "buckets d k"] Cons.prems(3) u by (cases ?ok) (simp_all add: in_use_def)
    ultimately show ?thesis using Cons.IH[of ?d] Cons.prems Check run_check[OF assms(1) Cons.prems(1)]
      by (simp add: case_prod_beta Let_def)
  qed
qed (simp add: in_use_def)

section \<open>Waiting\<close>


section \<open>Instances\<close>

definition demo_config :: "int \<Rightarrow> int option \<Rightarrow> RateLimitConfig" where
  "demo_config n cap = \<lparr>rl_max = n, rl_per = minute, rl_concurrent = cap\<rparr>"

definition demo_key :: bucket_key where
  "demo_key = (''pack'', ''webhook'', ''k'')"

definition demo_limits :: "RateLimitConfig \<Rightarrow> pack_limits" where
  "demo_limits c = (\<lambda>p t. Some c)"

lemma demo_limit [simp]: "limit_of (demo_limits c) k = Some c"
  by (cases k) (simp add: limit_of_def demo_limits_def)

lemmas run_demo = run_check[OF demo_limit] run_release[OF demo_limit]

lemmas demo_simps = new_limiter_def decide_def refilled_def clamp_def refillPerMs_def PER_TO_MS_def demo_config_def at_cap_def
  allow_def deny_for_def RateLimitConfig_schema_def in_use_def

lemma demo_checks:
  "fst (run_bucket (demo_limits (demo_config 1 None)) demo_key [Check 0, Check 10, Check 60000] new_limiter) = [True, False, True]"
  by (simp add: run_demo new_limiter_def Let_def case_prod_beta del: run_bucket.simps(2)) (simp add: demo_simps Let_def)


lemma demo_slots:
  "fst (run_bucket (demo_limits (demo_config 9 (Some 1))) demo_key [Check 0, Check 1, Release, Check 2] new_limiter) = [True, False, False, True]"
  by (simp add: run_demo new_limiter_def Let_def case_prod_beta del: run_bucket.simps(2)) (simp add: demo_simps released_def Let_def)

theorem rate_limit_slots_witness:
  "fst (run_bucket (demo_limits (demo_config 9 (Some 1))) demo_key [Check 0, Check 1, Release, Check 2] new_limiter) = [True, False, False, True] \<and>
   in_use (snd (run_bucket (demo_limits (demo_config 9 (Some 1))) demo_key [Check 0, Check 1, Release, Check 2] new_limiter)) demo_key = 1"
  using rate_limit_slots[of "demo_limits (demo_config 9 (Some 1))" demo_key "demo_config 9 (Some 1)" 1 new_limiter
      "[Check 0, Check 1, Release, Check 2]"] demo_slots
  by (simp add: demo_config_def new_limiter_def in_use_def del: run_bucket.simps)


section \<open>What the limits rest on\<close>

text \<open>
  The limiter assumes one caller at a time and a clock that goes forward. On one connection, a check
  that begins while another is between its statements is denied as a storage error although tokens are
  left; a release that begins then is lost, and its slot stays taken. A clock that goes back hands out the
  same minute twice. And a failure to create the table is thrown, not answered as a denial.
\<close>

theorem rate_limit_overlap:
  "(let c = demo_config 9 None; (a, d1) = check_step working c demo_key 0 (CIdle, new_limiter);
        (b, d2) = check_step working c demo_key 0 (CIdle, d1); (a1, d3) = (check_step working c demo_key 0 ^^ 3) (a, d2)
    in b = CDone storage_error \<and> a1 = CDone allow) \<and>
   (let c = demo_config 9 (Some 1); (v, d) = check_done ((check_step working c demo_key 0 ^^ 4) (CIdle, new_limiter));
        (b, d1) = check_step working c demo_key 1 (CIdle, d); (r, d2) = release_step working demo_key (RIdle, d1);
        (b1, d3) = (check_step working c demo_key 1 ^^ 3) (b, d2)
    in v = allow \<and> r = RDone False \<and> b1 = CDone (deny_for (Some 0) concurrent_exceeded) \<and> tx d3 = None \<and> in_use d3 demo_key = 1) \<and>
   fst (run_bucket (demo_limits (demo_config 1 None)) demo_key [Check 60000, Check 0, Check 60000] new_limiter) = [True, False, True] \<and>
   check (\<lambda>s. s = CreateTable) (demo_limits (demo_config 1 None)) demo_key 0 new_limiter = None"
proof (intro conjI)
  show "fst (run_bucket (demo_limits (demo_config 1 None)) demo_key [Check 60000, Check 0, Check 60000] new_limiter) = [True, False, True]"
    by (simp add: run_demo new_limiter_def Let_def case_prod_beta del: run_bucket.simps(2)) (simp add: demo_simps Let_def)
qed (simp_all add: check_steps release_step_def demo_simps check_def init_limiter_def storage_error_def Let_def)

end
