(* ===== verification/ProcessControl.thy ===== *)
theory ProcessControl
  imports LoopEvents
begin

text \<open>
  The control plane of owned processes (\<open>src/src/runtime/processes/process_control.ts\<close>): the state of every
  process folded from the event log, the table of human control requests, the requester that waits for the
  owner and acts itself when it does not answer, and the owner that polls. Requesters and owner run between
  their awaits in any order; which answers an await gets is an oracle.

  Every event that is appended is seen by the next read (\<open>append_is_tailed\<close> of \<open>LoopEvents\<close>), so the log is
  kept as the sequence of stored events. The model is that of a POSIX system; job objects are left out.
\<close>

section \<open>States of processes\<close>

datatype OwnedProcessStatus = Ps_running | Ps_shutdown_pending | Ps_shutdown_requested | Ps_terminate_requested
  | Ps_force_kill_requested | Ps_paused | Ps_resumed | Ps_exited | Ps_spawn_failed

definition ACTIVE_STATUSES :: "OwnedProcessStatus list" where
  "ACTIVE_STATUSES = [Ps_running, Ps_shutdown_pending, Ps_shutdown_requested, Ps_terminate_requested, Ps_force_kill_requested]"

fun actionsFor :: "OwnedProcessStatus \<Rightarrow> ControlAction list" where
  "actionsFor Ps_running = [Graceful_stop, Terminate, Force_kill]"
| "actionsFor Ps_shutdown_pending = [Terminate, Force_kill]"
| "actionsFor Ps_shutdown_requested = [Terminate, Force_kill]"
| "actionsFor Ps_terminate_requested = [Force_kill]"
| "actionsFor Ps_force_kill_requested = []"
| "actionsFor Ps_paused = [Resume_process]"
| "actionsFor Ps_resumed = []"
| "actionsFor Ps_exited = []"
| "actionsFor Ps_spawn_failed = []"

primrec statusEvent :: "OwnedProcessStatus \<Rightarrow> string" where
  "statusEvent Ps_running = ''process_started''"
| "statusEvent Ps_shutdown_pending = ''process_shutdown_pending''"
| "statusEvent Ps_shutdown_requested = ''process_shutdown_requested''"
| "statusEvent Ps_terminate_requested = ''process_terminate_requested''"
| "statusEvent Ps_force_kill_requested = ''process_force_kill_requested''"
| "statusEvent Ps_paused = ''process_paused''"
| "statusEvent Ps_resumed = ''process_resumed''"
| "statusEvent Ps_exited = ''process_exited''"
| "statusEvent Ps_spawn_failed = ''process_spawn_failed''"

definition eventStatus :: "string \<Rightarrow> OwnedProcessStatus option" where
  "eventStatus kind = List.find (\<lambda>st. statusEvent st = kind)
     [Ps_running, Ps_shutdown_pending, Ps_shutdown_requested, Ps_terminate_requested, Ps_force_kill_requested,
      Ps_paused, Ps_resumed, Ps_exited, Ps_spawn_failed]"

record ProcessActionAudit =
  a_actionId :: string
  a_action :: ControlAction
  a_requestedBy :: Requester
  a_authorizedBy :: string
  a_requestedAtMs :: int
  a_appliedAtMs :: "int option"
  a_failedAtMs :: "int option"
  a_failure :: "string option"

record OwnedProcessState =
  ps_processId :: string
  ps_processInstanceId :: string
  ps_ownership :: Ownership
  ps_wgId :: string
  ps_runId :: "string option"
  ps_checkpointStage :: "string option"
  ps_lap :: "int option"
  ps_role :: string
  ps_pid :: int
  ps_processGroupId :: int
  ps_startIdentity :: string
  ps_status :: OwnedProcessStatus
  ps_startedAtMs :: int
  ps_updatedAtMs :: int
  ps_exitCode :: "int option option"
  ps_latestAction :: "ProcessActionAudit option"
  ps_availableActions :: "ControlAction list"

definition show_int :: "int \<Rightarrow> string" where
  "show_int n = (if n < 0 then CHR 0x2D # show_nat (nat (- n)) else show_nat (nat n))"

definition eventInstanceId :: "MonitorEvent \<Rightarrow> string option" where
  "eventInstanceId e = (case v_processInstanceId e of
     Some i \<Rightarrow> Some i
   | None \<Rightarrow> (case (v_processId e, v_pid e) of
       (Some p, Some pid) \<Rightarrow> Some (p @ '':'' @ show_int pid @ '':'' @
         (case v_processStartIdentity e of None \<Rightarrow> ''legacy'' | Some s \<Rightarrow> s))
     | _ \<Rightarrow> None))"

definition actionFromEvent :: "MonitorEvent \<Rightarrow> ProcessActionAudit option" where
  "actionFromEvent e =
     (case (v_actionId e, v_controlAction e, v_requestedBy e, v_authorizedBy e, v_requestedAtMs e) of
        (Some i, Some a, Some by, Some auth, Some t) \<Rightarrow>
          Some \<lparr>a_actionId = i, a_action = a, a_requestedBy = by, a_authorizedBy = auth, a_requestedAtMs = t,
                a_appliedAtMs = v_appliedAtMs e, a_failedAtMs = v_failedAtMs e, a_failure = v_failure e\<rparr>
      | _ \<Rightarrow> None)"

definition started_state :: "string \<Rightarrow> MonitorEvent \<Rightarrow> OwnedProcessState option" where
  "started_state p e = (case (eventInstanceId e, v_pid e, v_processGroupId e, v_role e) of
     (Some inst, Some pid, Some pg, Some role) \<Rightarrow>
       Some \<lparr>ps_processId = p, ps_processInstanceId = inst,
         ps_ownership = (case v_ownership e of Some ow \<Rightarrow> ow
           | None \<Rightarrow> if role = ''control-root'' \<or> role = ''orchestrator'' then Control_root else Owned),
         ps_wgId = v_wgId e, ps_runId = v_runId e, ps_checkpointStage = v_checkpointStage e, ps_lap = v_lap e, ps_role = role,
         ps_pid = pid, ps_processGroupId = abs pg,
         ps_startIdentity = (case v_processStartIdentity e of None \<Rightarrow> [] | Some s \<Rightarrow> s),
         ps_status = Ps_running, ps_startedAtMs = v_atMs e, ps_updatedAtMs = v_atMs e, ps_exitCode = None,
         ps_latestAction = None, ps_availableActions = actionsFor Ps_running\<rparr>
   | _ \<Rightarrow> None)"

definition moved_state :: "MonitorEvent \<Rightarrow> OwnedProcessState \<Rightarrow> OwnedProcessState" where
  "moved_state e prior =
     (if (case v_processInstanceId e of None \<Rightarrow> False | Some i \<Rightarrow> i \<noteq> ps_processInstanceId prior) then prior
      else (case eventStatus (v_kind e) of
          None \<Rightarrow> (case actionFromEvent e of None \<Rightarrow> prior
            | Some a \<Rightarrow> prior\<lparr>ps_latestAction := Some a, ps_updatedAtMs := v_atMs e\<rparr>)
        | Some st \<Rightarrow> prior\<lparr>ps_status := st, ps_updatedAtMs := v_atMs e,
            ps_exitCode := (case v_exitCode e of None \<Rightarrow> ps_exitCode prior | Some c \<Rightarrow> Some c),
            ps_latestAction := (case actionFromEvent e of None \<Rightarrow> ps_latestAction prior | Some a \<Rightarrow> Some a),
            ps_availableActions := actionsFor st\<rparr>))"

definition applyOwnedProcessEvent :: "MonitorEvent \<Rightarrow> OwnedProcessState obj \<Rightarrow> OwnedProcessState obj" where
  "applyOwnedProcessEvent e byId = (case v_processId e of
     None \<Rightarrow> byId
   | Some p \<Rightarrow>
       if eventStatus (v_kind e) = Some Ps_running
       then (case started_state p e of None \<Rightarrow> byId | Some s \<Rightarrow> AList.update p s byId)
       else (case map_of byId p of None \<Rightarrow> byId | Some prior \<Rightarrow> AList.update p (moved_state e prior) byId))"

definition foldOwnedProcesses :: "MonitorEvent list \<Rightarrow> OwnedProcessState list" where
  "foldOwnedProcesses es = sort_key (\<lambda>s. - ps_updatedAtMs s) (map snd (fold applyOwnedProcessEvent es []))"

section \<open>The world of the control plane\<close>

record ProcessControlRequest =
  q_seq :: nat
  q_actionId :: string
  q_processId :: string
  q_processInstanceId :: string
  q_wgId :: string
  q_action :: ControlAction
  q_requestedBy :: Requester
  q_authorizedBy :: string
  q_requestedAtMs :: int
  q_targetPid :: int
  q_targetGroup :: int
  q_targetStart :: string

record control_row =
  r_request :: ProcessControlRequest
  r_handled :: "int option"
  r_applied :: "int option"
  r_failed :: "int option"
  r_result :: "string option"
  r_failure :: "string option"

datatype receipt_result = Queued | Applied | Failed

record ProcessControlReceipt =
  rc_request :: ProcessControlRequest
  rc_result :: receipt_result
  rc_appliedAtMs :: "int option"
  rc_failedAtMs :: "int option"
  rc_failure :: "string option"

record control_world =
  w_events :: "MonitorEvent list"
  w_rows :: "nat \<Rightarrow> control_row option"
  w_last :: nat

definition append_event :: "MonitorEvent \<Rightarrow> control_world \<Rightarrow> control_world" where
  "append_event ev w = w\<lparr>w_events := w_events w @ [stored_event (Suc (length (w_events w))) ev]\<rparr>"

definition projectedOwnedProcesses :: "control_world \<Rightarrow> OwnedProcessState list" where
  "projectedOwnedProcesses w = foldOwnedProcesses (w_events w)"

definition find_process :: "string \<Rightarrow> control_world \<Rightarrow> OwnedProcessState option" where
  "find_process p w = List.find (\<lambda>s. ps_processId s = p) (projectedOwnedProcesses w)"

definition blank_event :: "string \<Rightarrow> string \<Rightarrow> int \<Rightarrow> MonitorEvent" where
  "blank_event w kind t = \<lparr>v_seq = 0, v_wgId = w, v_kind = kind,
     v_stage = None, v_phase = None, v_index = None, v_total = None, v_lifecycle = None, v_processId = None,
     v_ownership = None, v_processInstanceId = None, v_runId = None, v_checkpointStage = None, v_lap = None,
     v_role = None, v_pid = None, v_processGroupId = None, v_processStartIdentity = None, v_windowsJobName = None,
     v_windowsJobMetadata = None, v_exitCode = None, v_requestedBy = None, v_authorizedBy = None,
     v_actionId = None, v_scopeArtifactPath = None, v_scopeArtifactSha256 = None, v_scopeEvidenceKind = None,
     v_controlAction = None, v_requestedAtMs = None, v_appliedAtMs = None, v_failedAtMs = None, v_failure = None,
     v_atMs = t\<rparr>"

subsection \<open>Registration and marks\<close>

record ProcessIdentity =
  pi_group :: int
  pi_start :: string

record register_input =
  g_processId :: string
  g_instance :: string
  g_wgId :: string
  g_runId :: "string option"
  g_checkpointStage :: "string option"
  g_lap :: "int option"
  g_role :: string
  g_ownership :: Ownership
  g_pid :: int
  g_group :: int
  g_startIdentity :: "string option"

text \<open>\<^const>\<open>None\<close> is a throw: no identity, another group than expected, or a process id in use.\<close>

definition registerOwnedProcess :: "ProcessIdentity option \<Rightarrow> register_input \<Rightarrow> int \<Rightarrow> control_world \<Rightarrow> control_world option" where
  "registerOwnedProcess found i nowMs w =
     (case (case g_startIdentity i of Some s \<Rightarrow> Some \<lparr>pi_group = abs (g_group i), pi_start = s\<rparr> | None \<Rightarrow> found) of
        None \<Rightarrow> None
      | Some identity \<Rightarrow>
          if abs (g_group i) \<noteq> pi_group identity then None
          else if (case find_process (g_processId i) w of None \<Rightarrow> False | Some s \<Rightarrow> ps_processInstanceId s \<noteq> g_instance i) then None
          else Some (append_event ((blank_event (g_wgId i) ''process_started'' nowMs)
            \<lparr>v_processId := Some (g_processId i), v_processInstanceId := Some (g_instance i), v_runId := g_runId i,
             v_checkpointStage := g_checkpointStage i, v_lap := g_lap i, v_role := Some (g_role i),
             v_ownership := Some (g_ownership i), v_pid := Some (g_pid i), v_processGroupId := Some (pi_group identity),
             v_processStartIdentity := Some (pi_start identity)\<rparr>) w))"

definition audited :: "ProcessActionAudit \<Rightarrow> MonitorEvent \<Rightarrow> MonitorEvent" where
  "audited a e = e\<lparr>v_requestedBy := Some (a_requestedBy a), v_authorizedBy := Some (a_authorizedBy a),
     v_actionId := Some (a_actionId a), v_controlAction := Some (a_action a), v_requestedAtMs := Some (a_requestedAtMs a),
     v_appliedAtMs := a_appliedAtMs a, v_failedAtMs := a_failedAtMs a, v_failure := a_failure a\<rparr>"

definition markOwnedProcess :: "string \<Rightarrow> OwnedProcessStatus \<Rightarrow> int option option \<Rightarrow> Requester option \<Rightarrow> string option \<Rightarrow>
    string option \<Rightarrow> ProcessActionAudit option \<Rightarrow> int \<Rightarrow> control_world \<Rightarrow> control_world" where
  "markOwnedProcess p st code by knownWgId inst audit nowMs w =
     (case (case knownWgId of Some g \<Rightarrow> Some g | None \<Rightarrow> map_option ps_wgId (find_process p w)) of
        None \<Rightarrow> w
      | Some wg \<Rightarrow> append_event ((case audit of None \<Rightarrow> id | Some a \<Rightarrow> audited a)
          ((blank_event wg (statusEvent st) nowMs)\<lparr>v_processId := Some p, v_processInstanceId := inst, v_exitCode := code,
             v_requestedBy := by\<rparr>)) w)"

datatype id_answer = Found ProcessIdentity | Missing | Unreadable

definition reconcileProcessLiveness :: "id_answer \<Rightarrow> int \<Rightarrow> OwnedProcessState \<Rightarrow> control_world \<Rightarrow> control_world" where
  "reconcileProcessLiveness answer nowMs st w =
     (if ps_status st \<notin> set ACTIVE_STATUSES \<or> answer = Unreadable \<or>
         answer = Found \<lparr>pi_group = ps_processGroupId st, pi_start = ps_startIdentity st\<rparr> then w
      else (case find_process (ps_processId st) w of
          None \<Rightarrow> w
        | Some latest \<Rightarrow>
            if ps_processInstanceId latest \<noteq> ps_processInstanceId st \<or> ps_status latest \<notin> set ACTIVE_STATUSES then w
            else markOwnedProcess (ps_processId st) Ps_exited (Some None) None (Some (ps_wgId st)) (Some (ps_processInstanceId st)) None nowMs w))"

definition listOwnedProcesses :: "(int \<Rightarrow> id_answer) \<Rightarrow> int \<Rightarrow> bool \<Rightarrow> control_world \<Rightarrow> OwnedProcessState list \<times> control_world" where
  "listOwnedProcesses readIdentity nowMs activeOnly w =
     (let w1 = fold (\<lambda>st. reconcileProcessLiveness (readIdentity (ps_pid st)) nowMs st) (projectedOwnedProcesses w) w;
          states = projectedOwnedProcesses w1
      in (if activeOnly then filter (\<lambda>st. ps_status st \<in> set ACTIVE_STATUSES) states else states, w1))"

subsection \<open>The table of requests\<close>

definition control_audit :: "ProcessControlRequest \<Rightarrow> receipt_result \<Rightarrow> int \<Rightarrow> string option \<Rightarrow> MonitorEvent" where
  "control_audit q result t failure =
     (blank_event (q_wgId q) (case result of Queued \<Rightarrow> ''process_control_requested'' | Applied \<Rightarrow> ''process_control_applied''
        | Failed \<Rightarrow> ''process_control_failed'') t)
     \<lparr>v_processId := Some (q_processId q), v_processInstanceId := Some (q_processInstanceId q),
      v_requestedBy := Some (q_requestedBy q), v_authorizedBy := Some (q_authorizedBy q), v_actionId := Some (q_actionId q),
      v_controlAction := Some (q_action q), v_requestedAtMs := Some (q_requestedAtMs q),
      v_appliedAtMs := (if result = Applied then Some t else None), v_failedAtMs := (if result = Failed then Some t else None),
      v_failure := (if result = Failed then failure else None)\<rparr>"

record control_input =
  ci_processId :: string
  ci_action :: ControlAction
  ci_requestedBy :: Requester
  ci_authorizedBy :: string

definition insertControlRequest :: "OwnedProcessState \<Rightarrow> control_input \<Rightarrow> string \<Rightarrow> int \<Rightarrow> control_world \<Rightarrow> ProcessControlRequest \<times> control_world" where
  "insertControlRequest st i actionId nowMs w =
     (let q = \<lparr>q_seq = Suc (w_last w), q_actionId = actionId, q_processId = ps_processId st,
                q_processInstanceId = ps_processInstanceId st, q_wgId = ps_wgId st, q_action = ci_action i,
                q_requestedBy = ci_requestedBy i, q_authorizedBy = trim (ci_authorizedBy i), q_requestedAtMs = nowMs,
                q_targetPid = ps_pid st, q_targetGroup = ps_processGroupId st, q_targetStart = ps_startIdentity st\<rparr>
      in (q, w\<lparr>w_last := Suc (w_last w), w_rows := (w_rows w)(Suc (w_last w) \<mapsto>
        \<lparr>r_request = q, r_handled = None, r_applied = None, r_failed = None, r_result = None, r_failure = None\<rparr>)\<rparr>))"

definition pendingRequests :: "string \<Rightarrow> string \<Rightarrow> control_world \<Rightarrow> ProcessControlRequest list" where
  "pendingRequests p inst w = map r_request (filter (\<lambda>r. q_processId (r_request r) = p \<and> q_processInstanceId (r_request r) = inst \<and>
     r_handled r = None \<and> r_result r = None) (List.map_filter (w_rows w) [0..<Suc (w_last w)]))"

definition claimRequest :: "nat \<Rightarrow> string \<Rightarrow> control_world \<Rightarrow> bool \<times> control_world" where
  "claimRequest n claimant w = (case w_rows w n of
     None \<Rightarrow> (False, w)
   | Some r \<Rightarrow> if r_handled r = None \<and> r_result r = None
       then (True, w\<lparr>w_rows := (w_rows w)(n \<mapsto> r\<lparr>r_result := Some (''authorizing:'' @ claimant)\<rparr>)\<rparr>) else (False, w))"

definition receipt_of_row :: "control_row \<Rightarrow> ProcessControlReceipt" where
  "receipt_of_row r =
     (if r_handled r = None then \<lparr>rc_request = r_request r, rc_result = Queued, rc_appliedAtMs = None, rc_failedAtMs = None, rc_failure = None\<rparr>
      else \<lparr>rc_request = r_request r, rc_result = (if r_result r = Some ''applied'' then Applied else Failed),
             rc_appliedAtMs = r_applied r, rc_failedAtMs = r_failed r, rc_failure = r_failure r\<rparr>)"

definition readReceipt :: "nat \<Rightarrow> control_world \<Rightarrow> ProcessControlReceipt option" where
  "readReceipt n w = map_option receipt_of_row (w_rows w n)"

definition getProcessControlReceipt :: "string \<Rightarrow> control_world \<Rightarrow> ProcessControlReceipt option option" where
  "getProcessControlReceipt actionId w =
     (if trim actionId = [] then None
      else Some (map_option receipt_of_row (List.find (\<lambda>r. q_actionId (r_request r) = trim actionId)
        (List.map_filter (w_rows w) [0..<Suc (w_last w)]))))"

definition finish_row :: "nat \<Rightarrow> string option \<Rightarrow> int \<Rightarrow> control_world \<Rightarrow> control_world" where
  "finish_row n failure nowMs w = (case w_rows w n of
     None \<Rightarrow> w
   | Some r \<Rightarrow> if r_handled r \<noteq> None then w
       else w\<lparr>w_rows := (w_rows w)(n \<mapsto> r\<lparr>r_handled := Some nowMs, r_applied := (if failure = None then Some nowMs else None),
          r_failed := (if failure = None then None else Some nowMs),
          r_result := Some (if failure = None then ''applied'' else ''failed''), r_failure := failure\<rparr>)\<rparr>)"

definition finish_audit :: "nat \<Rightarrow> int \<Rightarrow> control_world \<Rightarrow> control_world" where
  "finish_audit n nowMs w = (case readReceipt n w of
     None \<Rightarrow> w
   | Some rc \<Rightarrow> append_event (control_audit (rc_request rc) (if rc_result rc = Applied then Applied else Failed)
       (case rc_appliedAtMs rc of Some t \<Rightarrow> t | None \<Rightarrow> (case rc_failedAtMs rc of Some t \<Rightarrow> t | None \<Rightarrow> nowMs)) (rc_failure rc)) w)"

section \<open>The requester\<close>

text \<open>What one step meets: the time, whether its await works, fails, or fails after its first write; the identity
  that the system reports; whether the wait is over; and the text of an error.\<close>

datatype luck = Works | Fails | FailsLate

record answers =
  k_now :: int
  k_luck :: luck
  k_identity :: id_answer
  k_timeout :: bool
  k_error :: string

datatype req_pc = RInserted ProcessControlRequest | RGraceful ProcessControlRequest | RWaiting ProcessControlRequest
  | RClaiming ProcessControlRequest | RSecondWait ProcessControlRequest | RClaimed ProcessControlRequest
  | RGone ProcessControlRequest | RMarking ProcessControlRequest | RKill ProcessControlRequest
  | RFinish ProcessControlRequest "string option" bool | RReturned ProcessControlReceipt | RThrew

record control_signal =
  sg_seq :: nat
  sg_direct :: bool
  sg_target :: int
  sg_kill :: bool

definition request_audit :: "ProcessControlRequest \<Rightarrow> ProcessActionAudit" where
  "request_audit q = \<lparr>a_actionId = q_actionId q, a_action = q_action q, a_requestedBy = q_requestedBy q,
     a_authorizedBy = q_authorizedBy q, a_requestedAtMs = q_requestedAtMs q, a_appliedAtMs = None, a_failedAtMs = None, a_failure = None\<rparr>"

definition mark_request :: "ProcessControlRequest \<Rightarrow> OwnedProcessStatus \<Rightarrow> int \<Rightarrow> control_world \<Rightarrow> control_world" where
  "mark_request q st nowMs = markOwnedProcess (q_processId q) st None (Some (q_requestedBy q)) (Some (q_wgId q))
     (Some (q_processInstanceId q)) (Some (request_audit q)) nowMs"

definition queued_receipt :: "ProcessControlRequest \<Rightarrow> ProcessControlReceipt" where
  "queued_receipt q = \<lparr>rc_request = q, rc_result = Queued, rc_appliedAtMs = None, rc_failedAtMs = None, rc_failure = None\<rparr>"

definition await_receipt :: "ProcessControlRequest \<Rightarrow> req_pc \<Rightarrow> control_world \<Rightarrow> req_pc" where
  "await_receipt q again w = (case readReceipt (q_seq q) w of
     None \<Rightarrow> again | Some rc \<Rightarrow> if rc_result rc = Queued then again else RReturned rc)"

fun request_step :: "answers \<Rightarrow> req_pc \<Rightarrow> control_world \<Rightarrow> req_pc \<times> control_world \<times> control_signal list" where
  "request_step k (RInserted q) w = (if k_luck k \<noteq> Works then (RThrew, w, [])
     else (if q_action q = Graceful_stop then RGraceful q else RWaiting q,
           append_event (control_audit q Queued (q_requestedAtMs q) None) w, []))"
| "request_step k (RGraceful q) w = (if k_luck k \<noteq> Works then (RThrew, w, [])
     else (RWaiting q, mark_request q Ps_shutdown_requested (k_now k) w, []))"
| "request_step k (RWaiting q) w = (if k_luck k \<noteq> Works then (RThrew, w, [])
     else if \<not> k_timeout k then (await_receipt q (RWaiting q) w, w, [])
     else (if q_action q = Graceful_stop then RReturned (queued_receipt q) else RClaiming q, w, []))"
| "request_step k (RClaiming q) w = (if k_luck k \<noteq> Works then (RThrew, w, [])
     else (case claimRequest (q_seq q) ''direct'' w of (won, w1) \<Rightarrow> (if won then RClaimed q else RSecondWait q, w1, [])))"
| "request_step k (RSecondWait q) w = (if k_luck k \<noteq> Works then (RThrew, w, [])
     else (if k_timeout k then RReturned (queued_receipt q) else await_receipt q (RSecondWait q) w, w, []))"
| "request_step k (RClaimed q) w = (case k_identity k of
     Missing \<Rightarrow> (RGone q, w, [])
   | Unreadable \<Rightarrow> (RFinish q (Some (k_error k)) True, w, [])
   | Found identity \<Rightarrow> (if pi_start identity \<noteq> q_targetStart q \<or> pi_group identity \<noteq> q_targetGroup q
       then RFinish q (Some (k_error k)) True else RMarking q, w, []))"
| "request_step k (RGone q) w = (if k_luck k \<noteq> Works then (RFinish q (Some (k_error k)) True, w, [])
     else (RFinish q None False, mark_request q Ps_paused (k_now k) w, []))"
| "request_step k (RMarking q) w = (if k_luck k \<noteq> Works then (RFinish q (Some (k_error k)) True, w, [])
     else (RKill q, mark_request q (if q_action q = Terminate then Ps_terminate_requested else Ps_force_kill_requested) (k_now k) w, []))"
| "request_step k (RKill q) w = (if k_luck k \<noteq> Works then (RFinish q (Some (k_error k)) True, w, [])
     else (RFinish q None False, w,
       [\<lparr>sg_seq = q_seq q, sg_direct = True, sg_target = - q_targetGroup q, sg_kill = (q_action q \<noteq> Terminate)\<rparr>]))"
| "request_step k (RFinish q failure in_catch) w =
     (if k_luck k = Works then (case finish_audit (q_seq q) (k_now k) (finish_row (q_seq q) failure (k_now k) w) of
         w1 \<Rightarrow> (case readReceipt (q_seq q) w1 of None \<Rightarrow> RThrew | Some rc \<Rightarrow> RReturned rc, w1, []))
      else (if in_catch then RThrew else RFinish q (Some (k_error k)) True,
            if k_luck k = FailsLate then finish_row (q_seq q) failure (k_now k) w else w, []))"
| "request_step k pc w = (pc, w, [])"

text \<open>The call as far as the inserted row: refused without an identity of the authorizer or when the state of the
  process does not allow the action.\<close>

definition open_request :: "control_input \<Rightarrow> string \<Rightarrow> int \<Rightarrow> control_world \<Rightarrow> (ProcessControlRequest \<times> control_world) option" where
  "open_request i actionId nowMs w =
     (if trim (ci_authorizedBy i) = [] then None
      else (case find_process (ci_processId i) w of
          None \<Rightarrow> None
        | Some st \<Rightarrow> if ci_action i \<notin> set (ps_availableActions st) \<or> ci_action i = Resume_process then None
            else Some (insertControlRequest st i actionId nowMs w)))"

text \<open>The processes that a request on a control root reaches as well.\<close>

definition related_processes :: "control_input \<Rightarrow> control_world \<Rightarrow> OwnedProcessState list" where
  "related_processes i w = (case find_process (ci_processId i) w of
     None \<Rightarrow> []
   | Some target \<Rightarrow> if ps_ownership target \<noteq> Control_root \<or> ps_runId target = None then []
       else filter (\<lambda>st. ps_processId st \<noteq> ps_processId target \<and> ps_runId st = ps_runId target \<and>
              ci_action i \<in> set (ps_availableActions st)) (projectedOwnedProcesses w))"

section \<open>The owner\<close>

datatype shutdown_cause = Automatic | Human ProcessControlRequest

datatype owner_pc = OIdle | ONext "ProcessControlRequest list" | OHolding ProcessControlRequest "ProcessControlRequest list"
  | OSignal ProcessControlRequest "ProcessControlRequest list" | OFinish ProcessControlRequest "string option" bool "ProcessControlRequest list"

record owner =
  ow_processId :: string
  ow_instance :: string
  ow_wgId :: string
  ow_child :: int
  ow_detached :: bool
  ow_cause :: "shutdown_cause option"
  ow_closed :: bool
  ow_pc :: owner_pc

fun owner_step :: "answers \<Rightarrow> owner \<Rightarrow> owner_pc \<Rightarrow> control_world \<Rightarrow> owner \<times> control_world \<times> control_signal list" where
  "owner_step k ow OIdle w = (if ow_closed ow \<or> k_luck k \<noteq> Works then (ow, w, [])
     else (ow\<lparr>ow_pc := ONext (pendingRequests (ow_processId ow) (ow_instance ow) w)\<rparr>, w, []))"
| "owner_step k ow (ONext []) w = (ow\<lparr>ow_pc := OIdle\<rparr>, w, [])"
| "owner_step k ow (ONext (q # qs)) w = (if k_luck k \<noteq> Works then (ow\<lparr>ow_pc := OIdle\<rparr>, w, [])
     else (case claimRequest (q_seq q) ''owner'' w of (won, w1) \<Rightarrow>
       (if won then ow\<lparr>ow_cause := Some (Human q), ow_pc := OHolding q qs\<rparr> else ow\<lparr>ow_pc := ONext qs\<rparr>, w1, [])))"
| "owner_step k ow (OHolding q qs) w = (if k_luck k \<noteq> Works then (ow\<lparr>ow_pc := OFinish q (Some (k_error k)) True qs\<rparr>, w, [])
     else (ow\<lparr>ow_pc := (if q_action q = Graceful_stop then OFinish q None False qs else OSignal q qs)\<rparr>,
           mark_request q (case q_action q of Graceful_stop \<Rightarrow> Ps_shutdown_requested | Terminate \<Rightarrow> Ps_terminate_requested
             | _ \<Rightarrow> Ps_force_kill_requested) (k_now k) w, []))"
| "owner_step k ow (OSignal q qs) w = (if k_luck k \<noteq> Works then (ow\<lparr>ow_pc := OFinish q (Some (k_error k)) True qs\<rparr>, w, [])
     else (ow\<lparr>ow_pc := OFinish q None False qs\<rparr>, w,
       [\<lparr>sg_seq = q_seq q, sg_direct = False, sg_target = (if ow_detached ow then - ow_child ow else ow_child ow),
         sg_kill = (q_action q \<noteq> Terminate)\<rparr>]))"
| "owner_step k ow (OFinish q failure in_catch qs) w =
     (if k_luck k = Works then (ow\<lparr>ow_pc := ONext qs\<rparr>, finish_audit (q_seq q) (k_now k) (finish_row (q_seq q) failure (k_now k) w), [])
      else (ow\<lparr>ow_pc := (if in_catch then OIdle else OFinish q (Some (k_error k)) True qs)\<rparr>,
            if k_luck k = FailsLate then finish_row (q_seq q) failure (k_now k) w else w, []))"

text \<open>The close of the child, and the automatic shutdown.\<close>

definition close_status :: "bool \<Rightarrow> shutdown_cause option \<Rightarrow> OwnedProcessStatus" where
  "close_status treeAlive cause = (case cause of
     Some (Human q) \<Rightarrow> (if q_action q = Terminate \<and> treeAlive then Ps_terminate_requested else Ps_paused)
   | _ \<Rightarrow> Ps_exited)"

definition mark_owned :: "owner \<Rightarrow> OwnedProcessStatus \<Rightarrow> int option option \<Rightarrow> int \<Rightarrow> control_world \<Rightarrow> control_world" where
  "mark_owned ow st code = markOwnedProcess (ow_processId ow) st code None (Some (ow_wgId ow)) (Some (ow_instance ow)) None"

definition child_closes :: "bool \<Rightarrow> int option \<Rightarrow> int \<Rightarrow> owner \<Rightarrow> control_world \<Rightarrow> owner \<times> control_world" where
  "child_closes treeAlive code nowMs ow w =
     (ow\<lparr>ow_closed := True\<rparr>, mark_owned ow (close_status (treeAlive \<and> ow_detached ow) (ow_cause ow)) (Some code) nowMs w)"

definition child_errors :: "int \<Rightarrow> owner \<Rightarrow> control_world \<Rightarrow> owner \<times> control_world" where
  "child_errors nowMs ow w = (ow\<lparr>ow_closed := True\<rparr>, mark_owned ow Ps_spawn_failed None nowMs w)"

definition markAutomaticShutdown :: "int \<Rightarrow> owner \<Rightarrow> control_world \<Rightarrow> owner \<times> control_world" where
  "markAutomaticShutdown nowMs ow w =
     (ow\<lparr>ow_cause := (case ow_cause ow of None \<Rightarrow> Some Automatic | c \<Rightarrow> c)\<rparr>, mark_owned ow Ps_shutdown_pending None nowMs w)"

section \<open>Requesters and owner together\<close>

record control_system =
  sy_world :: control_world
  sy_requesters :: "nat \<Rightarrow> req_pc option"
  sy_owner :: owner
  sy_signals :: "control_signal list"

inductive control_step :: "control_system \<Rightarrow> control_system \<Rightarrow> bool" where
  arrive: "open_request i actionId t (sy_world s) = Some (q, w) \<Longrightarrow>
    control_step s (s\<lparr>sy_world := w, sy_requesters := (sy_requesters s)(q_seq q \<mapsto> RInserted q)\<rparr>)"
| requester: "sy_requesters s n = Some pc \<Longrightarrow> request_step k pc (sy_world s) = (pc1, w, sigs) \<Longrightarrow>
    control_step s (s\<lparr>sy_world := w, sy_requesters := (sy_requesters s)(n \<mapsto> pc1), sy_signals := sy_signals s @ sigs\<rparr>)"
| owner: "owner_step k (sy_owner s) (ow_pc (sy_owner s)) (sy_world s) = (ow, w, sigs) \<Longrightarrow>
    control_step s (s\<lparr>sy_world := w, sy_owner := ow, sy_signals := sy_signals s @ sigs\<rparr>)"
| close: "child_closes treeAlive code t (sy_owner s) (sy_world s) = (ow, w) \<Longrightarrow>
    control_step s (s\<lparr>sy_world := w, sy_owner := ow\<rparr>)"
| spawn_error: "child_errors t (sy_owner s) (sy_world s) = (ow, w) \<Longrightarrow>
    control_step s (s\<lparr>sy_world := w, sy_owner := ow\<rparr>)"
| automatic: "markAutomaticShutdown t (sy_owner s) (sy_world s) = (ow, w) \<Longrightarrow>
    control_step s (s\<lparr>sy_world := w, sy_owner := ow\<rparr>)"
| listing: "listOwnedProcesses readIdentity t activeOnly (sy_world s) = (states, w) \<Longrightarrow>
    control_step s (s\<lparr>sy_world := w\<rparr>)"

definition new_system :: "control_system \<Rightarrow> bool" where
  "new_system s \<longleftrightarrow> (\<forall>n. w_rows (sy_world s) n = None \<and> sy_requesters s n = None) \<and> ow_pc (sy_owner s) = OIdle \<and> sy_signals s = []"

section \<open>What a step can change\<close>

lemma append_event_table [simp]: "w_rows (append_event ev w) = w_rows w" "w_last (append_event ev w) = w_last w"
  by (simp_all add: append_event_def)

lemma mark_table [simp]:
  "w_rows (markOwnedProcess p st code by g inst a t w) = w_rows w" "w_last (markOwnedProcess p st code by g inst a t w) = w_last w"
  by (auto simp: markOwnedProcess_def split: option.splits)

lemma mark_request_table [simp]: "w_rows (mark_request q st t w) = w_rows w" "w_last (mark_request q st t w) = w_last w"
  by (simp_all add: mark_request_def)

lemma finish_audit_table [simp]: "w_rows (finish_audit n t w) = w_rows w" "w_last (finish_audit n t w) = w_last w"
  by (auto simp: finish_audit_def split: option.splits)

lemma reconcile_table [simp]:
  "w_rows (reconcileProcessLiveness a t st w) = w_rows w" "w_last (reconcileProcessLiveness a t st w) = w_last w"
  by (auto simp: reconcileProcessLiveness_def split: option.splits)

lemma listing_table:
  assumes "listOwnedProcesses f t b w = (states, w1)"
  shows "w_rows w1 = w_rows w" "w_last w1 = w_last w"
proof -
  have "w_rows (fold (\<lambda>st. reconcileProcessLiveness (f (ps_pid st)) t st) xs w) = w_rows w \<and>
    w_last (fold (\<lambda>st. reconcileProcessLiveness (f (ps_pid st)) t st) xs w) = w_last w" for xs
    by (induction xs arbitrary: w) auto
  then show "w_rows w1 = w_rows w" "w_last w1 = w_last w" using assms by (auto simp: listOwnedProcesses_def Let_def)
qed

text \<open>Rows keep their request, and a result once there is one.\<close>

definition rows_grow :: "control_world \<Rightarrow> control_world \<Rightarrow> bool" where
  "rows_grow w w1 \<longleftrightarrow> (\<forall>n row. w_rows w n = Some row \<longrightarrow> (\<exists>row1. w_rows w1 n = Some row1 \<and> r_request row1 = r_request row \<and>
     (r_result row \<noteq> None \<longrightarrow> r_result row1 \<noteq> None)))"

definition same_keys :: "control_world \<Rightarrow> control_world \<Rightarrow> bool" where
  "same_keys w w1 \<longleftrightarrow> w_last w1 = w_last w \<and> (\<forall>n. w_rows w1 n = None \<longleftrightarrow> w_rows w n = None)"

lemma grow_same: "w_rows w1 = w_rows w \<Longrightarrow> rows_grow w w1"
  by (simp add: rows_grow_def)

lemma keys_same: "w_rows w1 = w_rows w \<Longrightarrow> w_last w1 = w_last w \<Longrightarrow> same_keys w w1"
  by (simp add: same_keys_def)

lemma finish_row_grows: "rows_grow w (finish_row n f t w) \<and> same_keys w (finish_row n f t w)"
  by (auto simp: rows_grow_def same_keys_def finish_row_def split: option.splits)

lemma claim_grows: "claimRequest n c w = (b, w1) \<Longrightarrow> rows_grow w w1 \<and> same_keys w w1"
  by (auto simp: rows_grow_def same_keys_def claimRequest_def split: option.splits if_splits)

definition unclaimed :: "nat \<Rightarrow> control_world \<Rightarrow> bool" where
  "unclaimed n w \<longleftrightarrow> (\<exists>row. w_rows w n = Some row \<and> r_result row = None)"

definition has_result :: "nat \<Rightarrow> control_world \<Rightarrow> bool" where
  "has_result n w \<longleftrightarrow> (\<exists>row. w_rows w n = Some row \<and> r_result row \<noteq> None)"

lemma claim_won: "claimRequest n c w = (True, w1) \<Longrightarrow> unclaimed n w \<and> has_result n w1"
  by (auto simp: claimRequest_def unclaimed_def has_result_def split: option.splits if_splits)

lemma unclaimed_no_result: "unclaimed n w \<Longrightarrow> \<not> has_result n w"
  by (auto simp: unclaimed_def has_result_def)

lemma result_grows: "rows_grow w w1 \<Longrightarrow> has_result n w \<Longrightarrow> has_result n w1"
  by (fastforce simp: rows_grow_def has_result_def)

fun pc_request :: "req_pc \<Rightarrow> ProcessControlRequest option" where
  "pc_request (RInserted q) = Some q" | "pc_request (RGraceful q) = Some q" | "pc_request (RWaiting q) = Some q"
| "pc_request (RClaiming q) = Some q" | "pc_request (RSecondWait q) = Some q" | "pc_request (RClaimed q) = Some q"
| "pc_request (RGone q) = Some q" | "pc_request (RMarking q) = Some q" | "pc_request (RKill q) = Some q"
| "pc_request (RFinish q f b) = Some q" | "pc_request (RReturned rc) = None" | "pc_request RThrew = None"

fun direct_phase :: "req_pc \<Rightarrow> bool" where
  "direct_phase (RClaimed q) \<longleftrightarrow> True" | "direct_phase (RGone q) \<longleftrightarrow> True" | "direct_phase (RMarking q) \<longleftrightarrow> True"
| "direct_phase (RKill q) \<longleftrightarrow> True" | "direct_phase (RFinish q f b) \<longleftrightarrow> True" | "direct_phase _ \<longleftrightarrow> False"

fun may_signal :: "req_pc \<Rightarrow> bool" where
  "may_signal (RClaimed q) \<longleftrightarrow> True" | "may_signal (RMarking q) \<longleftrightarrow> True" | "may_signal (RKill q) \<longleftrightarrow> True" | "may_signal _ \<longleftrightarrow> False"

fun forceful :: "req_pc \<Rightarrow> bool" where
  "forceful (RInserted q) \<longleftrightarrow> True" | "forceful (RGraceful q) \<longleftrightarrow> True" | "forceful (RWaiting q) \<longleftrightarrow> True"
| "forceful (RReturned rc) \<longleftrightarrow> True" | "forceful RThrew \<longleftrightarrow> True"
| "forceful pc \<longleftrightarrow> (case pc_request pc of None \<Rightarrow> True | Some q \<Rightarrow> q_action q \<noteq> Graceful_stop)"

lemma grow_ops [simp]:
  "rows_grow w w" "same_keys w w" "rows_grow w (append_event ev w2) = rows_grow w w2" "same_keys w (append_event ev w2) = same_keys w w2"
  "rows_grow w (mark_request q st t w2) = rows_grow w w2" "same_keys w (mark_request q st t w2) = same_keys w w2"
  "rows_grow w (finish_audit n t w2) = rows_grow w w2" "same_keys w (finish_audit n t w2) = same_keys w w2"
  "rows_grow w (finish_row n f t w)" "same_keys w (finish_row n f t w)"
  using finish_row_grows by (simp_all add: rows_grow_def same_keys_def)

lemma request_step_table:
  "request_step k pc w = (pc1, w1, sigs) \<Longrightarrow> rows_grow w w1 \<and> same_keys w w1"
  by (cases pc) (auto split: if_splits prod.splits id_answer.splits dest: claim_grows)

lemma request_step_pc:
  "request_step k pc w = (pc1, w1, sigs) \<Longrightarrow> pc_request pc = Some q \<Longrightarrow> forceful pc \<Longrightarrow> pc_request pc1 \<in> {None, Some q} \<and> forceful pc1"
  by (cases pc) (auto simp: await_receipt_def split: if_splits option.splits prod.splits id_answer.splits)

lemma request_step_phase:
  "request_step k pc w = (pc1, w1, sigs) \<Longrightarrow> pc_request pc = Some q \<Longrightarrow>
    (direct_phase pc1 \<longrightarrow> direct_phase pc \<or> unclaimed (q_seq q) w \<and> has_result (q_seq q) w1) \<and>
    (may_signal pc1 \<longrightarrow> may_signal pc \<or> unclaimed (q_seq q) w)"
  by (cases pc) (auto simp: await_receipt_def split: if_splits option.splits prod.splits id_answer.splits dest: claim_won)

lemma request_step_signals:
  "request_step k pc w = (pc1, w1, sigs) \<Longrightarrow> sigs \<noteq> [] \<Longrightarrow> \<exists>q. pc = RKill q \<and> \<not> may_signal pc1 \<and> w1 = w \<and>
      sigs = [\<lparr>sg_seq = q_seq q, sg_direct = True, sg_target = - q_targetGroup q, sg_kill = (q_action q \<noteq> Terminate)\<rparr>]"
  by (cases pc) (auto split: if_splits prod.splits id_answer.splits option.splits)

fun owner_request :: "owner_pc \<Rightarrow> ProcessControlRequest option" where
  "owner_request OIdle = None" | "owner_request (ONext qs) = None" | "owner_request (OHolding q qs) = Some q"
| "owner_request (OSignal q qs) = Some q" | "owner_request (OFinish q f b qs) = Some q"

fun owner_list :: "owner_pc \<Rightarrow> ProcessControlRequest list" where
  "owner_list OIdle = []" | "owner_list (ONext qs) = qs" | "owner_list (OHolding q qs) = qs"
| "owner_list (OSignal q qs) = qs" | "owner_list (OFinish q f b qs) = qs"

fun owner_may_signal :: "owner_pc \<Rightarrow> bool" where
  "owner_may_signal (OHolding q qs) \<longleftrightarrow> True" | "owner_may_signal (OSignal q qs) \<longleftrightarrow> True" | "owner_may_signal _ \<longleftrightarrow> False"

fun owner_forceful :: "owner_pc \<Rightarrow> bool" where
  "owner_forceful (OSignal q qs) \<longleftrightarrow> q_action q \<noteq> Graceful_stop" | "owner_forceful _ \<longleftrightarrow> True"

lemma in_map_filter: "y \<in> set (List.map_filter f xs) \<longleftrightarrow> (\<exists>x\<in>set xs. f x = Some y)"
  by (induction xs) (auto simp: List.map_filter_simps split: option.splits)

lemma pending_rows:
  assumes "q \<in> set (pendingRequests p inst w)"
  shows "\<exists>n row. w_rows w n = Some row \<and> r_request row = q"
proof -
  obtain row where "row \<in> set (List.map_filter (w_rows w) [0..<Suc (w_last w)])" "q = r_request row"
    using assms unfolding pendingRequests_def set_map set_filter by blast
  then show ?thesis unfolding in_map_filter by blast
qed

lemma owner_pc_cases:
  obtains "pc = OIdle" | "pc = ONext []" | q qs where "pc = ONext (q # qs)" | q qs where "pc = OHolding q qs"
  | q qs where "pc = OSignal q qs" | q f b qs where "pc = OFinish q f b qs"
  by (metis neq_Nil_conv owner_pc.exhaust)

lemma owner_step_table: "owner_step k ow pc w = (ow1, w1, sigs) \<Longrightarrow> rows_grow w w1 \<and> same_keys w w1"
  by (cases pc rule: owner_pc_cases) (auto split: if_splits prod.splits dest: claim_grows)

lemma owner_step_forceful:
  "owner_step k ow pc w = (ow1, w1, sigs) \<Longrightarrow> ow_pc ow = pc \<Longrightarrow> owner_forceful pc \<Longrightarrow> owner_forceful (ow_pc ow1)"
  by (cases pc rule: owner_pc_cases) (auto split: if_splits prod.splits)

lemma owner_step_list:
  "owner_step k ow pc w = (ow1, w1, sigs) \<Longrightarrow> ow_pc ow = pc \<Longrightarrow> q \<in> set (owner_list (ow_pc ow1)) \<Longrightarrow>
    q \<in> set (owner_list pc) \<or> (\<exists>n row. w_rows w n = Some row \<and> r_request row = q)"
  by (cases pc rule: owner_pc_cases) (auto split: if_splits prod.splits dest: pending_rows)

lemma owner_step_request:
  "owner_step k ow pc w = (ow1, w1, sigs) \<Longrightarrow> ow_pc ow = pc \<Longrightarrow> owner_request (ow_pc ow1) = Some q \<Longrightarrow>
    (owner_request pc = Some q \<and> (owner_may_signal (ow_pc ow1) \<longrightarrow> owner_may_signal pc)) \<or>
    q \<in> set (owner_list pc) \<and> unclaimed (q_seq q) w \<and> has_result (q_seq q) w1"
  by (cases pc rule: owner_pc_cases) (auto split: if_splits prod.splits dest: claim_won)

lemma owner_step_signals:
  "owner_step k ow pc w = (ow1, w1, sigs) \<Longrightarrow> sigs \<noteq> [] \<Longrightarrow> \<exists>q qs. pc = OSignal q qs \<and> \<not> owner_may_signal (ow_pc ow1) \<and> w1 = w \<and>
      owner_request (ow_pc ow1) = Some q \<and>
      sigs = [\<lparr>sg_seq = q_seq q, sg_direct = False, sg_target = (if ow_detached ow then - ow_child ow else ow_child ow),
        sg_kill = (q_action q \<noteq> Terminate)\<rparr>]"
  by (cases pc rule: owner_pc_cases) (auto split: if_splits prod.splits)

section \<open>One signal for one authorized request\<close>

definition authorized_signal :: "control_world \<Rightarrow> control_signal \<Rightarrow> bool" where
  "authorized_signal w sg \<longleftrightarrow> (\<exists>row. w_rows w (sg_seq sg) = Some row \<and> r_result row \<noteq> None \<and>
     q_authorizedBy (r_request row) \<noteq> [] \<and> q_action (r_request row) = (if sg_kill sg then Force_kill else Terminate) \<and>
     (sg_direct sg \<longrightarrow> sg_target sg = - q_targetGroup (r_request row)))"

definition table_ok :: "control_world \<Rightarrow> bool" where
  "table_ok w \<longleftrightarrow> (\<forall>n row. w_rows w n = Some row \<longrightarrow> n \<le> w_last w \<and> q_seq (r_request row) = n \<and>
     q_authorizedBy (r_request row) \<noteq> [] \<and> q_action (r_request row) \<noteq> Resume_process)"

definition row_of_request :: "control_world \<Rightarrow> ProcessControlRequest \<Rightarrow> bool" where
  "row_of_request w q \<longleftrightarrow> (\<exists>row. w_rows w (q_seq q) = Some row \<and> r_request row = q)"

definition requester_ok :: "control_world \<Rightarrow> nat set \<Rightarrow> nat \<Rightarrow> req_pc \<Rightarrow> bool" where
  "requester_ok w sent n pc \<longleftrightarrow> forceful pc \<and> (\<forall>q. pc_request pc = Some q \<longrightarrow> q_seq q = n \<and> row_of_request w q) \<and>
     (direct_phase pc \<longrightarrow> has_result n w) \<and> (may_signal pc \<longrightarrow> n \<notin> sent)"

definition owner_ok :: "control_world \<Rightarrow> nat set \<Rightarrow> (nat \<Rightarrow> req_pc option) \<Rightarrow> owner_pc \<Rightarrow> bool" where
  "owner_ok w sent rs pc \<longleftrightarrow> owner_forceful pc \<and> (\<forall>q. owner_request pc = Some q \<longrightarrow> row_of_request w q \<and> has_result (q_seq q) w \<and>
        (\<forall>rpc. rs (q_seq q) = Some rpc \<longrightarrow> \<not> direct_phase rpc) \<and> (owner_may_signal pc \<longrightarrow> q_seq q \<notin> sent)) \<and>
     (\<forall>q\<in>set (owner_list pc). row_of_request w q)"

definition signals_ok :: "control_world \<Rightarrow> control_signal list \<Rightarrow> bool" where
  "signals_ok w sigs \<longleftrightarrow> distinct (map sg_seq sigs) \<and> (\<forall>sg\<in>set sigs. authorized_signal w sg)"

definition signalled :: "control_system \<Rightarrow> nat set" where
  "signalled s = sg_seq ` set (sy_signals s)"

definition control_inv :: "control_system \<Rightarrow> bool" where
  "control_inv s \<longleftrightarrow> table_ok (sy_world s) \<and>
     (\<forall>n pc. sy_requesters s n = Some pc \<longrightarrow> requester_ok (sy_world s) (signalled s) n pc) \<and>
     owner_ok (sy_world s) (signalled s) (sy_requesters s) (ow_pc (sy_owner s)) \<and> signals_ok (sy_world s) (sy_signals s)"

lemma row_grows: "rows_grow w w1 \<Longrightarrow> row_of_request w q \<Longrightarrow> row_of_request w1 q"
  by (fastforce simp: rows_grow_def row_of_request_def)

lemma table_row: "table_ok w \<Longrightarrow> w_rows w n = Some row \<Longrightarrow> row_of_request w (r_request row)"
  by (auto simp: table_ok_def row_of_request_def)

lemma authorized_grows: "rows_grow w w1 \<Longrightarrow> authorized_signal w sg \<Longrightarrow> authorized_signal w1 sg"
  by (fastforce simp: rows_grow_def authorized_signal_def)

lemma table_grows:
  assumes "rows_grow w w1" and "same_keys w w1" and "table_ok w"
  shows "table_ok w1"
  unfolding table_ok_def
proof (intro allI impI)
  fix n row assume "w_rows w1 n = Some row"
  moreover from this obtain row0 where "w_rows w n = Some row0"
    using assms(2) unfolding same_keys_def by (metis not_Some_eq)
  ultimately show "n \<le> w_last w1 \<and> q_seq (r_request row) = n \<and> q_authorizedBy (r_request row) \<noteq> [] \<and> q_action (r_request row) \<noteq> Resume_process"
    using assms unfolding table_ok_def rows_grow_def same_keys_def by fastforce
qed

lemma requester_grows: "rows_grow w w1 \<Longrightarrow> requester_ok w sent n pc \<Longrightarrow> requester_ok w1 sent n pc"
  by (auto simp: requester_ok_def intro: row_grows result_grows)

lemma owner_grows: "rows_grow w w1 \<Longrightarrow> owner_ok w sent rs pc \<Longrightarrow> owner_ok w1 sent rs pc"
  by (auto simp: owner_ok_def intro: row_grows result_grows)

lemma signals_grow: "rows_grow w w1 \<Longrightarrow> signals_ok w sigs \<Longrightarrow> signals_ok w1 sigs"
  by (auto simp: signals_ok_def intro: authorized_grows)

lemma owner_ok_upd:
  "owner_ok w sent rs pc \<Longrightarrow> (\<And>x. owner_request pc = Some x \<Longrightarrow> q_seq x = n \<Longrightarrow> \<not> direct_phase p) \<Longrightarrow> owner_ok w sent (rs(n \<mapsto> p)) pc"
  by (auto simp: owner_ok_def)

lemma unclaimed_unsignalled: "signals_ok (sy_world s) (sy_signals s) \<Longrightarrow> unclaimed n (sy_world s) \<Longrightarrow> n \<notin> signalled s"
  unfolding signals_ok_def signalled_def unclaimed_def authorized_signal_def by force

lemma may_signal_direct: "may_signal pc \<Longrightarrow> direct_phase pc"
  by (cases pc) auto

text \<open>Steps that leave requests, requesters and the place of the owner alone.\<close>

lemma inv_quiet:
  assumes "control_inv s" and "w_rows w = w_rows (sy_world s)" and "w_last w = w_last (sy_world s)" and "ow_pc ow = ow_pc (sy_owner s)"
  shows "control_inv (s\<lparr>sy_world := w, sy_owner := ow\<rparr>)"
proof -
  have "rows_grow (sy_world s) w" "same_keys (sy_world s) w" using assms(2,3) by (simp_all add: grow_same keys_same)
  then show ?thesis using assms(1,4) table_grows requester_grows owner_grows signals_grow
    by (fastforce simp: control_inv_def signalled_def)
qed

lemma inv_arrive:
  assumes "control_inv s" and "open_request i actionId t (sy_world s) = Some (q, w)"
  shows "control_inv (s\<lparr>sy_world := w, sy_requesters := (sy_requesters s)(q_seq q \<mapsto> RInserted q)\<rparr>)"
proof -
  let ?n = "Suc (w_last (sy_world s))"
  have q: "q_seq q = ?n" "q_authorizedBy q \<noteq> []" "q_action q \<noteq> Resume_process" "w_last w = ?n"
    and rows: "w_rows w = (w_rows (sy_world s))(?n \<mapsto>
      \<lparr>r_request = q, r_handled = None, r_applied = None, r_failed = None, r_result = None, r_failure = None\<rparr>)"
    using assms(2) by (auto simp: open_request_def insertControlRequest_def Let_def split: if_splits option.splits)
  have ok: "table_ok (sy_world s)" using assms(1) by (simp add: control_inv_def)
  have new: "w_rows (sy_world s) ?n = None"
  proof (cases "w_rows (sy_world s) ?n")
    case (Some row)
    then have "?n \<le> w_last (sy_world s)" using ok unfolding table_ok_def by blast
    then show ?thesis by simp
  qed
  have grow: "rows_grow (sy_world s) w" using new by (auto simp: rows_grow_def rows)
  have "table_ok w" using ok q rows by (fastforce simp: table_ok_def)
  moreover have "requester_ok w (signalled s) ?n (RInserted q)" by (simp add: requester_ok_def row_of_request_def rows q(1))
  moreover have "owner_ok w (signalled s) ((sy_requesters s)(?n \<mapsto> RInserted q)) (ow_pc (sy_owner s))"
    using assms(1) owner_grows[OF grow] by (intro owner_ok_upd) (simp_all add: control_inv_def)
  ultimately show ?thesis
    using assms(1) requester_grows[OF grow] signals_grow[OF grow] q(1) by (auto simp: control_inv_def signalled_def)
qed

lemma authorized_kill:
  assumes "table_ok w" and "row_of_request w q" and "has_result (q_seq q) w" and "q_action q \<noteq> Graceful_stop"
    and "direct \<Longrightarrow> target = - q_targetGroup q"
  shows "authorized_signal w \<lparr>sg_seq = q_seq q, sg_direct = direct, sg_target = target, sg_kill = (q_action q \<noteq> Terminate)\<rparr>"
proof -
  obtain row where "w_rows w (q_seq q) = Some row" "r_request row = q" using assms(2) by (auto simp: row_of_request_def)
  moreover from this have "q_authorizedBy q \<noteq> []" "q_action q \<noteq> Resume_process" "r_result row \<noteq> None"
    using assms(1,3) by (auto simp: table_ok_def has_result_def)
  ultimately show ?thesis using assms(4,5) by (cases "q_action q") (auto simp: authorized_signal_def)
qed

lemma inv_requester:
  assumes inv: "control_inv s" and pc: "sy_requesters s n = Some pc" and st: "request_step k pc (sy_world s) = (pc1, w, sigs)"
  shows "control_inv (s\<lparr>sy_world := w, sy_requesters := (sy_requesters s)(n \<mapsto> pc1), sy_signals := sy_signals s @ sigs\<rparr>)"
proof (cases "pc_request pc")
  case None
  then have "pc1 = pc \<and> w = sy_world s \<and> sigs = []" using st by (cases pc) auto
  then show ?thesis using inv pc by (simp add: map_upd_triv fun_upd_idem_iff)
next
  case (Some q)
  note ok = inv[unfolded control_inv_def]
  have r: "requester_ok (sy_world s) (signalled s) n pc" using ok pc by blast
  have n: "q_seq q = n" and row: "row_of_request (sy_world s) q" using r Some by (auto simp: requester_ok_def)
  have grow: "rows_grow (sy_world s) w" and keys: "same_keys (sy_world s) w" using request_step_table[OF st] by auto
  have req: "pc_request pc1 \<in> {None, Some q}" "forceful pc1"
    using request_step_pc[OF st Some] r by (auto simp: requester_ok_def)
  note phase = request_step_phase[OF st Some, unfolded n]
  have quiet: "n \<notin> signalled s" if "may_signal pc1"
    using phase that r ok unclaimed_unsignalled by (auto simp: requester_ok_def)
  show ?thesis
  proof (cases "sigs = []")
    case True
    have "requester_ok w (signalled s) n pc1"
      using req n row row_grows[OF grow] quiet phase r result_grows[OF grow] by (auto simp: requester_ok_def)
    moreover have "owner_ok w (signalled s) ((sy_requesters s)(n \<mapsto> pc1)) (ow_pc (sy_owner s))"
    proof -
      have "\<not> direct_phase pc1" if "owner_request (ow_pc (sy_owner s)) = Some x" "q_seq x = n" for x
        using that ok phase pc unclaimed_no_result unfolding owner_ok_def by metis
      then show ?thesis using ok owner_grows[OF grow] by (intro owner_ok_upd) auto
    qed
    ultimately show ?thesis
      using ok True table_grows[OF grow keys] requester_grows[OF grow] signals_grow[OF grow]
      by (auto simp: control_inv_def signalled_def)
  next
    case False
    obtain q1 where kill: "pc = RKill q1" "\<not> may_signal pc1" "w = sy_world s"
      "sigs = [\<lparr>sg_seq = q_seq q1, sg_direct = True, sg_target = - q_targetGroup q1, sg_kill = (q_action q1 \<noteq> Terminate)\<rparr>]"
      using request_step_signals[OF st False] by blast
    have [simp]: "q1 = q" using kill(1) Some by simp
    have phase_pc: "direct_phase pc" "may_signal pc" "q_action q \<noteq> Graceful_stop"
      using kill(1) r by (simp_all add: requester_ok_def)
    have fresh: "n \<notin> signalled s" using r phase_pc by (auto simp: requester_ok_def)
    have sent: "requester_ok w (insert n (signalled s)) n pc1"
      using req n row kill(2,3) r phase_pc by (auto simp: requester_ok_def)
    have "owner_ok w (insert n (signalled s)) ((sy_requesters s)(n \<mapsto> pc1)) (ow_pc (sy_owner s))"
    proof -
      have "q_seq x \<noteq> n" if "owner_request (ow_pc (sy_owner s)) = Some x" for x
        using that ok pc phase_pc unfolding owner_ok_def by metis
      then show ?thesis using ok kill(3) by (auto simp: owner_ok_def)
    qed
    moreover have "requester_ok w (insert n (signalled s)) m rpc" if "sy_requesters s m = Some rpc" "m \<noteq> n" for m rpc
      using that ok kill(3) by (auto simp: requester_ok_def)
    moreover have "authorized_signal w (hd sigs)"
      using ok r phase_pc row n kill(3,4) authorized_kill[of w q True "- q_targetGroup q"] by (simp add: requester_ok_def)
    ultimately show ?thesis
      using ok sent kill(3,4) fresh n by (auto simp: control_inv_def signalled_def signals_ok_def)
  qed
qed

lemma inv_owner:
  assumes inv: "control_inv s" and st: "owner_step k (sy_owner s) (ow_pc (sy_owner s)) (sy_world s) = (ow, w, sigs)"
  shows "control_inv (s\<lparr>sy_world := w, sy_owner := ow, sy_signals := sy_signals s @ sigs\<rparr>)"
proof -
  note ok = inv[unfolded control_inv_def]
  have grow: "rows_grow (sy_world s) w" and keys: "same_keys (sy_world s) w" using owner_step_table[OF st] by auto
  have tab: "table_ok w" using ok table_grows[OF grow keys] by blast
  have lists: "row_of_request w x" if "x \<in> set (owner_list (ow_pc ow))" for x
    using owner_step_list[OF st refl that] ok row_grows[OF grow] table_row[of "sy_world s"]
    by (auto simp: owner_ok_def)
  have held: "row_of_request w x \<and> has_result (q_seq x) w \<and> (\<forall>rpc. sy_requesters s (q_seq x) = Some rpc \<longrightarrow> \<not> direct_phase rpc) \<and>
      (owner_may_signal (ow_pc ow) \<longrightarrow> q_seq x \<notin> signalled s)" if "owner_request (ow_pc ow) = Some x" for x
    using owner_step_request[OF st refl that]
  proof
    assume "owner_request (ow_pc (sy_owner s)) = Some x \<and> (owner_may_signal (ow_pc ow) \<longrightarrow> owner_may_signal (ow_pc (sy_owner s)))"
    then show ?thesis using ok row_grows[OF grow] result_grows[OF grow] by (auto simp: owner_ok_def)
  next
    assume new: "x \<in> set (owner_list (ow_pc (sy_owner s))) \<and> unclaimed (q_seq x) (sy_world s) \<and> has_result (q_seq x) w"
    then have "\<not> direct_phase rpc" if "sy_requesters s (q_seq x) = Some rpc" for rpc
      using ok that unclaimed_no_result unfolding requester_ok_def by blast
    then show ?thesis using new ok row_grows[OF grow] unclaimed_unsignalled by (auto simp: owner_ok_def)
  qed
  have forceful: "owner_forceful (ow_pc ow)" using owner_step_forceful[OF st refl] ok by (auto simp: owner_ok_def)
  show ?thesis
  proof (cases "sigs = []")
    case True
    have "owner_ok w (signalled s) (sy_requesters s) (ow_pc ow)" using held lists forceful by (auto simp: owner_ok_def)
    then show ?thesis using ok True tab requester_grows[OF grow] signals_grow[OF grow]
      by (auto simp: control_inv_def signalled_def)
  next
    case False
    obtain q qs where kill: "ow_pc (sy_owner s) = OSignal q qs" "\<not> owner_may_signal (ow_pc ow)" "w = sy_world s" "owner_request (ow_pc ow) = Some q"
      "sigs = [\<lparr>sg_seq = q_seq q, sg_direct = False, sg_target = (if ow_detached (sy_owner s) then - ow_child (sy_owner s) else ow_child (sy_owner s)),
        sg_kill = (q_action q \<noteq> Terminate)\<rparr>]"
      using owner_step_signals[OF st False] by blast
    have q: "row_of_request w q" "has_result (q_seq q) w" "q_seq q \<notin> signalled s" "q_action q \<noteq> Graceful_stop"
      and others: "\<And>rpc. sy_requesters s (q_seq q) = Some rpc \<Longrightarrow> \<not> direct_phase rpc"
      using ok kill(1,3) by (auto simp: owner_ok_def)
    have "owner_ok w (insert (q_seq q) (signalled s)) (sy_requesters s) (ow_pc ow)"
      using held lists forceful kill(2) by (auto simp: owner_ok_def)
    moreover have "requester_ok w (insert (q_seq q) (signalled s)) m rpc" if "sy_requesters s m = Some rpc" for m rpc
      using that ok kill(3) others may_signal_direct by (auto simp: requester_ok_def)
    moreover have "authorized_signal w (hd sigs)"
      using authorized_kill[OF tab q(1,2,4)] kill(5) by simp
    ultimately show ?thesis
      using ok tab kill(3,5) q(3) by (auto simp: control_inv_def signalled_def signals_ok_def)
  qed
qed

lemma inv_step: "control_step s s1 \<Longrightarrow> control_inv s \<Longrightarrow> control_inv s1"
proof (induction rule: control_step.induct)
  case (arrive i actionId t s q w) then show ?case by (simp add: inv_arrive)
next
  case (requester s n pc k pc1 w sigs) then show ?case by (simp add: inv_requester)
next
  case (owner k s ow w sigs) then show ?case by (simp add: inv_owner)
next
  case (close treeAlive code t s ow w)
  then show ?case by (intro inv_quiet) (auto simp: child_closes_def mark_owned_def)
next
  case (spawn_error t s ow w)
  then show ?case by (intro inv_quiet) (auto simp: child_errors_def mark_owned_def)
next
  case (automatic t s ow w)
  then show ?case by (intro inv_quiet) (auto simp: markAutomaticShutdown_def mark_owned_def)
next
  case (listing readIdentity t activeOnly s states w)
  then show ?case using inv_quiet[of s w "sy_owner s"] listing_table[of readIdentity t activeOnly "sy_world s" states w] by simp
qed

lemma inv_new: "new_system s \<Longrightarrow> control_inv s"
  by (simp add: new_system_def control_inv_def table_ok_def owner_ok_def signals_ok_def)

lemma inv_reachable: "control_step\<^sup>*\<^sup>* s0 s \<Longrightarrow> new_system s0 \<Longrightarrow> control_inv s"
  by (induction rule: rtranclp_induct) (auto simp: inv_new inv_step)

text \<open>Moves chosen by a schedule, to run the system on concrete inputs.\<close>

datatype control_move = Arrive control_input string int | Requester_moves nat answers | Owner_moves answers
  | Child_closes bool "int option" int

fun do_move :: "control_move \<Rightarrow> control_system \<Rightarrow> control_system" where
  "do_move (Arrive i actionId t) s = (case open_request i actionId t (sy_world s) of
     None \<Rightarrow> s
   | Some (q, w) \<Rightarrow> s\<lparr>sy_world := w, sy_requesters := (sy_requesters s)(q_seq q \<mapsto> RInserted q)\<rparr>)"
| "do_move (Requester_moves n k) s = (case sy_requesters s n of
     None \<Rightarrow> s
   | Some pc \<Rightarrow> (case request_step k pc (sy_world s) of (pc1, w, sigs) \<Rightarrow>
       s\<lparr>sy_world := w, sy_requesters := (sy_requesters s)(n \<mapsto> pc1), sy_signals := sy_signals s @ sigs\<rparr>))"
| "do_move (Owner_moves k) s = (case owner_step k (sy_owner s) (ow_pc (sy_owner s)) (sy_world s) of (ow, w, sigs) \<Rightarrow>
     s\<lparr>sy_world := w, sy_owner := ow, sy_signals := sy_signals s @ sigs\<rparr>)"
| "do_move (Child_closes alive code t) s = (case child_closes alive code t (sy_owner s) (sy_world s) of (ow, w) \<Rightarrow>
     s\<lparr>sy_world := w, sy_owner := ow\<rparr>)"

lemma do_move_steps: "control_step\<^sup>*\<^sup>* s (do_move m s)"
  by (cases m) (auto split: option.splits prod.splits intro: r_into_rtranclp control_step.intros)

lemma moves_step: "control_step\<^sup>*\<^sup>* s (fold do_move ms s)"
  by (induction ms arbitrary: s) (auto intro: rtranclp_trans do_move_steps)

definition demo_world :: control_world where
  "demo_world = \<lparr>w_events = [stored_event 1 ((blank_event ''W'' ''process_started'' 1)
     \<lparr>v_processId := Some ''p'', v_processInstanceId := Some ''i'', v_role := Some ''model'', v_pid := Some 7,
      v_processGroupId := Some 7, v_processStartIdentity := Some ''t0''\<rparr>)], w_rows = (\<lambda>n. None), w_last = 0\<rparr>"

definition demo_system :: control_system where
  "demo_system = \<lparr>sy_world = demo_world, sy_requesters = (\<lambda>n. None),
     sy_owner = \<lparr>ow_processId = ''p'', ow_instance = ''i'', ow_wgId = ''W'', ow_child = 7, ow_detached = True, ow_cause = None,
       ow_closed = False, ow_pc = OIdle\<rparr>, sy_signals = []\<rparr>"

definition demo_answer :: "bool \<Rightarrow> answers" where
  "demo_answer timeout = \<lparr>k_now = 5, k_luck = Works, k_identity = Found \<lparr>pi_group = 7, pi_start = ''t0''\<rparr>, k_timeout = timeout, k_error = []\<rparr>"

definition demo_stop :: control_move where
  "demo_stop = Arrive \<lparr>ci_processId = ''p'', ci_action = Force_kill, ci_requestedBy = Cli, ci_authorizedBy = ''ana''\<rparr> ''a1'' 2"

definition owner_applies :: "control_move list" where
  "owner_applies = demo_stop # Requester_moves 1 (demo_answer False) # replicate 6 (Owner_moves (demo_answer False))
     @ [Child_closes False None 9]"

definition owner_is_slow :: "control_move list" where
  "owner_is_slow = demo_stop # replicate 7 (Requester_moves 1 (demo_answer True)) @ [Child_closes False None 9]"

lemma demo_new: "new_system demo_system"
  by (simp add: new_system_def demo_system_def demo_world_def)

text \<open>C25. However requesters, owner, closes and listings interleave, and whatever fails: no control request causes two
  signals, and every signal that is sent belongs to a request of the table that somebody claimed, that names the
  identity of its authorizer and that asked for this signal; a requester that acts itself reaches the process
  group the request was made for.\<close>

theorem one_authorized_signal:
  assumes "new_system s0" and "control_step\<^sup>*\<^sup>* s0 s"
  shows "distinct (map sg_seq (sy_signals s)) \<and> (\<forall>sg\<in>set (sy_signals s). authorized_signal (sy_world s) sg)"
  using inv_reachable[OF assms(2,1)] by (simp add: control_inv_def signals_ok_def)

lemma owner_applies_signals:
  "sy_signals (fold do_move owner_applies demo_system) = [\<lparr>sg_seq = 1, sg_direct = False, sg_target = -7, sg_kill = True\<rparr>]"
  by code_simp

theorem one_authorized_signal_witness:
  "authorized_signal (sy_world (fold do_move owner_applies demo_system)) \<lparr>sg_seq = 1, sg_direct = False, sg_target = -7, sg_kill = True\<rparr>"
  using one_authorized_signal[OF demo_new moves_step[of demo_system owner_applies]] unfolding owner_applies_signals by simp

subsection \<open>A receipt is final\<close>

definition rows_final :: "control_world \<Rightarrow> control_world \<Rightarrow> bool" where
  "rows_final w w1 \<longleftrightarrow> (\<forall>n row. w_rows w n = Some row \<longrightarrow> r_handled row \<noteq> None \<longrightarrow> w_rows w1 n = Some row)"

lemma final_same: "w_rows w1 = w_rows w \<Longrightarrow> rows_final w w1"
  by (simp add: rows_final_def)

lemma final_ops [simp]:
  "rows_final w w" "rows_final w (append_event ev w2) = rows_final w w2"
  "rows_final w (mark_request q st t w2) = rows_final w w2" "rows_final w (finish_audit n t w2) = rows_final w w2"
  "rows_final w (finish_row n f t w)"
  by (auto simp: rows_final_def finish_row_def split: option.splits)

lemma claim_final: "claimRequest n c w = (b, w1) \<Longrightarrow> rows_final w w1"
  by (auto simp: rows_final_def claimRequest_def split: option.splits if_splits)

lemma request_step_final: "request_step k pc w = (pc1, w1, sigs) \<Longrightarrow> rows_final w w1"
  by (cases pc) (auto split: if_splits prod.splits id_answer.splits dest: claim_final)

lemma owner_step_final: "owner_step k ow pc w = (ow1, w1, sigs) \<Longrightarrow> rows_final w w1"
  by (cases pc rule: owner_pc_cases) (auto split: if_splits prod.splits dest: claim_final)

lemma arrive_final:
  assumes "open_request i actionId t w = Some (q, w1)" and "table_ok w"
  shows "rows_final w w1"
proof -
  have "w_rows w (Suc (w_last w)) = None"
    using assms(2) Suc_n_not_le_n unfolding table_ok_def by (metis not_Some_eq)
  then show ?thesis using assms(1)
    by (auto simp: rows_final_def open_request_def insertControlRequest_def Let_def split: if_splits option.splits)
qed

lemma step_final: "control_step s s1 \<Longrightarrow> control_inv s \<Longrightarrow> rows_final (sy_world s) (sy_world s1)"
proof (induction rule: control_step.induct)
  case (arrive i actionId t s q w) then show ?case by (auto simp: control_inv_def intro: arrive_final)
next
  case (requester s n pc k pc1 w sigs) then show ?case by (auto intro: request_step_final)
next
  case (owner k s ow w sigs) then show ?case by (auto intro: owner_step_final)
qed (auto simp: child_closes_def child_errors_def markAutomaticShutdown_def mark_owned_def listing_table intro!: final_same)

lemma steps_final: "control_step\<^sup>*\<^sup>* s s1 \<Longrightarrow> control_inv s \<Longrightarrow> control_inv s1 \<and> rows_final (sy_world s) (sy_world s1)"
proof (induction rule: rtranclp_induct)
  case (step s1 s2)
  then show ?case using inv_step step_final[of s1 s2] by (auto simp: rows_final_def)
qed simp

text \<open>Once a request has a receipt that says applied or failed, every later reader gets the same receipt, whatever
  owner, requesters and listings do afterwards: nothing handles a request twice.\<close>

theorem receipts_final:
  assumes "new_system s0" and "control_step\<^sup>*\<^sup>* s0 s" and "control_step\<^sup>*\<^sup>* s s1"
    and "readReceipt n (sy_world s) = Some rc" and "rc_result rc \<noteq> Queued"
  shows "readReceipt n (sy_world s1) = Some rc"
proof -
  obtain row where row: "w_rows (sy_world s) n = Some row" "rc = receipt_of_row row"
    using assms(4) by (auto simp: readReceipt_def)
  then have "r_handled row \<noteq> None" using assms(5) by (auto simp: receipt_of_row_def split: if_splits)
  then show ?thesis
    using steps_final[OF assms(3) inv_reachable[OF assms(2,1)]] row by (simp add: rows_final_def readReceipt_def)
qed

lemma demo_receipt: "map_option rc_result (readReceipt 1 (sy_world (fold do_move owner_applies demo_system))) = Some Applied"
  by code_simp

theorem receipts_final_witness:
  "map_option rc_result (readReceipt 1 (sy_world (fold do_move owner_is_slow (fold do_move owner_applies demo_system)))) = Some Applied"
  using demo_receipt receipts_final[OF demo_new moves_step[of demo_system owner_applies] moves_step[of _ owner_is_slow], of 1]
  by (auto simp del: fold_simps)

subsection \<open>What the requester does when the owner does not answer\<close>

definition requester_run :: "answers list \<Rightarrow> req_pc \<Rightarrow> control_world \<Rightarrow> req_pc \<times> control_world \<times> control_signal list" where
  "requester_run ks pc w = fold (\<lambda>k (pc, w, sigs). case request_step k pc w of (pc1, w1, sigs1) \<Rightarrow> (pc1, w1, sigs @ sigs1)) ks (pc, w, [])"

lemma finished_receipt:
  assumes "w_rows w n = Some row" and "r_handled row = None"
  shows "readReceipt n (finish_row n f t w) = Some \<lparr>rc_request = r_request row, rc_result = (if f = None then Applied else Failed),
    rc_appliedAtMs = (if f = None then Some t else None), rc_failedAtMs = (if f = None then None else Some t), rc_failure = f\<rparr>"
  using assms by (auto simp: readReceipt_def finish_row_def receipt_of_row_def)

text \<open>A requester that has claimed its request returns a receipt that is no longer queued. It signals the group
  only when the system reports the registered identity; a process that is gone counts as stopped; another identity,
  or none that can be read, is a failure and no signal.\<close>

theorem direct_outcome:
  assumes "w_rows w (q_seq q) = Some row" and "r_handled row = None" and "\<forall>k\<in>set [k1, k2, k3, k4]. k_luck k = Works"
  shows "\<exists>rc w1 t. requester_run [k1, k2, k3, k4] (RClaimed q) w = (RReturned rc, w1,
      if k_identity k1 = Found \<lparr>pi_group = q_targetGroup q, pi_start = q_targetStart q\<rparr>
      then [\<lparr>sg_seq = q_seq q, sg_direct = True, sg_target = - q_targetGroup q, sg_kill = (q_action q \<noteq> Terminate)\<rparr>] else []) \<and>
    rc_result rc = (if k_identity k1 \<in> {Missing, Found \<lparr>pi_group = q_targetGroup q, pi_start = q_targetStart q\<rparr>} then Applied else Failed) \<and>
    w_rows w1 = w_rows (finish_row (q_seq q) (rc_failure rc) t w)"
proof -
  consider "k_identity k1 = Missing" | "k_identity k1 = Unreadable"
    | "k_identity k1 = Found \<lparr>pi_group = q_targetGroup q, pi_start = q_targetStart q\<rparr>"
    | ident where "k_identity k1 = Found ident" "ident \<noteq> \<lparr>pi_group = q_targetGroup q, pi_start = q_targetStart q\<rparr>"
    by (cases "k_identity k1") auto
  then show ?thesis using assms
    by cases (auto simp: requester_run_def Let_def readReceipt_def finish_row_def receipt_of_row_def)
qed

definition demo_request :: ProcessControlRequest where
  "demo_request = fst (insertControlRequest (hd (projectedOwnedProcesses demo_world))
     \<lparr>ci_processId = ''p'', ci_action = Terminate, ci_requestedBy = Cli, ci_authorizedBy = ''ana''\<rparr> ''a1'' 2 demo_world)"

definition demo_claimed :: control_world where
  "demo_claimed = demo_world\<lparr>w_last := 1, w_rows := [1 \<mapsto> \<lparr>r_request = demo_request, r_handled = None, r_applied = None,
     r_failed = None, r_result = Some ''authorizing:direct'', r_failure = None\<rparr>]\<rparr>"

theorem direct_outcome_witness:
  "\<exists>rc w1. requester_run (replicate 4 (demo_answer True)) (RClaimed demo_request) demo_claimed =
     (RReturned rc, w1, [\<lparr>sg_seq = 1, sg_direct = True, sg_target = -7, sg_kill = False\<rparr>]) \<and> rc_result rc = Applied"
proof -
  have q: "q_seq demo_request = 1" "q_targetGroup demo_request = 7" "q_targetStart demo_request = ''t0''" "q_action demo_request = Terminate"
    by code_simp+
  have r: "replicate 4 (demo_answer True) = [demo_answer True, demo_answer True, demo_answer True, demo_answer True]"
    by (simp add: eval_nat_numeral)
  show ?thesis unfolding r
    using direct_outcome[of demo_claimed demo_request _ "demo_answer True" "demo_answer True" "demo_answer True" "demo_answer True"] q
    by (auto simp: demo_claimed_def demo_answer_def)
qed

text \<open>The same stop, applied by the owner or by the requester because the owner was slow: one kill of the same
  group and an applied receipt both times. But only after the owner's is the process paused and can be resumed;
  after the requester's the close counts as a plain exit and the process allows no action any more.\<close>

theorem slow_owner_loses_resume:
  "map sg_kill (sy_signals (fold do_move owner_applies demo_system)) = [True] \<and>
   map sg_kill (sy_signals (fold do_move owner_is_slow demo_system)) = [True] \<and>
   map_option rc_result (readReceipt 1 (sy_world (fold do_move owner_is_slow demo_system))) = Some Applied \<and>
   map (\<lambda>st. (ps_status st, ps_availableActions st)) (projectedOwnedProcesses (sy_world (fold do_move owner_applies demo_system))) = [(Ps_paused, [Resume_process])] \<and>
   map (\<lambda>st. (ps_status st, ps_availableActions st)) (projectedOwnedProcesses (sy_world (fold do_move owner_is_slow demo_system))) = [(Ps_exited, [])]"
  by (intro conjI; code_simp)

end
