(* ===== verification/Laps.thy ===== *)
theory Laps
  imports Prelude Complex_Main
begin

text \<open>
  One run of a model on a work item: the typed exit it prints (\<open>src/src/runtime/ralph/lap_outcome.ts\<close>) and the
  supervisor that repeats it (\<open>supervisor.ts\<close>). The exit is a line of JSON in the text of the model; the JSON
  grammar of \<open>JSON.parse\<close> is written out, so that the scan for the end of the object can be compared with it.

  Texts are bytes; the strings that a JSON text denotes are lists of code units.
\<close>

section \<open>JSON texts\<close>

datatype jtext = JT_null | JT_bool bool | JT_num string | JT_str "nat list" | JT_arr "jtext list" | JT_obj "(nat list \<times> jtext) list"

definition codes :: "string \<Rightarrow> nat list" where
  "codes = map of_char"

definition json_ws :: "char \<Rightarrow> bool" where
  "json_ws c \<longleftrightarrow> c \<in> {CHR 0x20, CHR 0x09, CHR 0x0A, CHR 0x0D}"

definition skip_ws :: "string \<Rightarrow> string" where
  "skip_ws = dropWhile json_ws"

definition hex_digit :: "char \<Rightarrow> nat option" where
  "hex_digit c = (let n = of_char c in
     if 48 \<le> n \<and> n \<le> 57 then Some (n - 48) else if 97 \<le> n \<and> n \<le> 102 then Some (n - 87)
     else if 65 \<le> n \<and> n \<le> 70 then Some (n - 55) else None)"

definition hex4 :: "char \<Rightarrow> char \<Rightarrow> char \<Rightarrow> char \<Rightarrow> nat option" where
  "hex4 a b c d = (case (hex_digit a, hex_digit b, hex_digit c, hex_digit d) of
     (Some w, Some x, Some y, Some z) \<Rightarrow> Some (4096 * w + 256 * x + 16 * y + z) | _ \<Rightarrow> None)"

definition simple_escape :: "char \<Rightarrow> nat option" where
  "simple_escape c = map_of [(CHR 0x22, 34), (CHR 0x5C, 92), (CHR ''/'', 47), (CHR ''b'', 8), (CHR ''f'', 12),
     (CHR ''n'', 10), (CHR ''r'', 13), (CHR ''t'', 9)] c"

definition consed :: "'a \<Rightarrow> ('a list \<times> 'b) option \<Rightarrow> ('a list \<times> 'b) option" where
  "consed x r = map_option (apfst (Cons x)) r"

text \<open>The characters of a string after its opening quote.\<close>

fun p_chars :: "string \<Rightarrow> (nat list \<times> string) option" where
  "p_chars [] = None"
| "p_chars (c # s) =
     (if c = CHR 0x22 then Some ([], s)
      else if c = CHR 0x5C then (case s of
          [] \<Rightarrow> None
        | e # s1 \<Rightarrow> if e = CHR ''u'' then (case s1 of
              h1 # h2 # h3 # h4 # s2 \<Rightarrow> (case hex4 h1 h2 h3 h4 of None \<Rightarrow> None | Some n \<Rightarrow> consed n (p_chars s2))
            | _ \<Rightarrow> None)
          else (case simple_escape e of None \<Rightarrow> None | Some n \<Rightarrow> consed n (p_chars s1)))
      else if of_char c < (32::nat) then None
      else consed (of_char c) (p_chars s))"

definition is_digit :: "char \<Rightarrow> bool" where
  "is_digit c \<longleftrightarrow> 48 \<le> (of_char c :: nat) \<and> (of_char c :: nat) \<le> 57"

definition digits1 :: "string \<Rightarrow> string option" where
  "digits1 s = (if takeWhile is_digit s = [] then None else Some (dropWhile is_digit s))"

definition int_part :: "string \<Rightarrow> string option" where
  "int_part s = (case s of [] \<Rightarrow> None
     | c # r \<Rightarrow> if c = CHR ''0'' then Some r else if is_digit c then Some (dropWhile is_digit r) else None)"

definition frac_part :: "string \<Rightarrow> string option" where
  "frac_part s = (case s of [] \<Rightarrow> Some [] | c # r \<Rightarrow> if c = CHR ''.'' then digits1 r else Some s)"

definition exp_part :: "string \<Rightarrow> string option" where
  "exp_part s = (case s of [] \<Rightarrow> Some []
     | c # r \<Rightarrow> if c \<in> {CHR ''e'', CHR ''E''}
         then digits1 (case r of [] \<Rightarrow> [] | d # r1 \<Rightarrow> if d \<in> {CHR ''+'', CHR ''-''} then r1 else r) else Some s)"

definition json_number :: "string \<Rightarrow> bool" where
  "json_number s \<longleftrightarrow> Option.bind (int_part (case s of [] \<Rightarrow> [] | c # r \<Rightarrow> if c = CHR ''-'' then r else s))
     (\<lambda>s. Option.bind (frac_part s) exp_part) = Some []"

definition atom_char :: "char \<Rightarrow> bool" where
  "atom_char c \<longleftrightarrow> is_digit c \<or> c \<in> {CHR ''+'', CHR ''-'', CHR ''.''} \<or>
     97 \<le> (of_char c :: nat) \<and> (of_char c :: nat) \<le> 122 \<or> 65 \<le> (of_char c :: nat) \<and> (of_char c :: nat) \<le> 90"

text \<open>A literal or a number is followed by white space, a comma or a bracket, so its token may be cut first.\<close>

definition p_atom :: "string \<Rightarrow> (jtext \<times> string) option" where
  "p_atom s = (let w = takeWhile atom_char s; t = dropWhile atom_char s in
     if w = ''null'' then Some (JT_null, t) else if w = ''true'' then Some (JT_bool True, t)
     else if w = ''false'' then Some (JT_bool False, t) else if json_number w then Some (JT_num w, t) else None)"

text \<open>The fuel counts calls of the three rules; \<open>fuel_irrelevant\<close> shows that more than twice the length of the text makes no
  difference.\<close>

fun p_value :: "nat \<Rightarrow> string \<Rightarrow> (jtext \<times> string) option"
  and p_items :: "nat \<Rightarrow> string \<Rightarrow> (jtext list \<times> string) option"
  and p_members :: "nat \<Rightarrow> string \<Rightarrow> ((nat list \<times> jtext) list \<times> string) option" where
  "p_value 0 s = None"
| "p_value (Suc n) s = (case skip_ws s of
     [] \<Rightarrow> None
   | c # r \<Rightarrow>
       if c = CHR 0x22 then map_option (apfst JT_str) (p_chars r)
       else if c = CHR 0x7B then (case skip_ws r of
           [] \<Rightarrow> None
         | d # t \<Rightarrow> if d = CHR 0x7D then Some (JT_obj [], t) else map_option (apfst JT_obj) (p_members n r))
       else if c = CHR 0x5B then (case skip_ws r of
           [] \<Rightarrow> None
         | d # t \<Rightarrow> if d = CHR 0x5D then Some (JT_arr [], t) else map_option (apfst JT_arr) (p_items n r))
       else p_atom (c # r))"
| "p_items 0 s = None"
| "p_items (Suc n) s = (case p_value n s of
     None \<Rightarrow> None
   | Some (v, t) \<Rightarrow> (case skip_ws t of
       [] \<Rightarrow> None
     | c # t1 \<Rightarrow> if c = CHR 0x2C then consed v (p_items n t1) else if c = CHR 0x5D then Some ([v], t1) else None))"
| "p_members 0 s = None"
| "p_members (Suc n) s = (case skip_ws s of
     [] \<Rightarrow> None
   | q # r \<Rightarrow> if q \<noteq> CHR 0x22 then None else (case p_chars r of
       None \<Rightarrow> None
     | Some (k, t) \<Rightarrow> (case skip_ws t of
         [] \<Rightarrow> None
       | c # t1 \<Rightarrow> if c \<noteq> CHR 0x3A then None else (case p_value n t1 of
           None \<Rightarrow> None
         | Some (v, t2) \<Rightarrow> (case skip_ws t2 of
             [] \<Rightarrow> None
           | d # t3 \<Rightarrow> if d = CHR 0x2C then consed (k, v) (p_members n t3)
               else if d = CHR 0x7D then Some ([(k, v)], t3) else None)))))"

definition parse_json :: "string \<Rightarrow> jtext option" where
  "parse_json s = (case p_value (2 * length s + 2) s of
     None \<Rightarrow> None | Some (v, t) \<Rightarrow> if skip_ws t = [] then Some v else None)"

text \<open>The last of several members of one name counts.\<close>

definition obj_get :: "(nat list \<times> jtext) list \<Rightarrow> string \<Rightarrow> jtext option" where
  "obj_get kvs k = map_of (rev kvs) (codes k)"

definition obj_keys :: "(nat list \<times> jtext) list \<Rightarrow> nat list list" where
  "obj_keys kvs = remdups (map fst kvs)"

section \<open>The scan for the end of an object\<close>

fun slice_scan :: "nat \<Rightarrow> bool \<Rightarrow> bool \<Rightarrow> nat \<Rightarrow> string \<Rightarrow> nat option" where
  "slice_scan depth inStr esc i [] = None"
| "slice_scan depth inStr esc i (c # s) =
     (if inStr then slice_scan depth (esc \<or> c \<noteq> CHR 0x22) (\<not> esc \<and> c = CHR 0x5C) (Suc i) s
      else if c = CHR 0x22 then slice_scan depth True esc (Suc i) s
      else if c = CHR 0x7B then slice_scan (Suc depth) False esc (Suc i) s
      else if c = CHR 0x7D then (if depth - 1 = 0 then Some (Suc i) else slice_scan (depth - 1) False esc (Suc i) s)
      else slice_scan depth False esc (Suc i) s)"

definition sliceFirstJsonObject :: "string \<Rightarrow> string option" where
  "sliceFirstJsonObject s = (if \<not> starts_with s [CHR 0x7B] then None
     else map_option (\<lambda>n. take n s) (slice_scan 0 False False 0 s))"

text \<open>\<open>scans s t\<close>: inside an object the scan passes from \<open>s\<close> to its suffix \<open>t\<close> at the same depth.\<close>

definition scans :: "string \<Rightarrow> string \<Rightarrow> bool" where
  "scans s t \<longleftrightarrow> (\<exists>u. s = u @ t \<and>
     (\<forall>d i. slice_scan (Suc d) False False i s = slice_scan (Suc d) False False (i + length u) t))"

lemma scans_refl [simp]: "scans s s"
  by (auto simp: scans_def)

lemma scans_trans [trans]: "scans s t \<Longrightarrow> scans t r \<Longrightarrow> scans s r"
  unfolding scans_def by (fastforce simp: add.assoc)

lemma scans_char: "c \<notin> {CHR 0x22, CHR 0x7B, CHR 0x7D} \<Longrightarrow> scans (c # s) s"
  unfolding scans_def by (rule exI[of _ "[c]"]) simp

lemma scans_dropWhile: "(\<And>c. P c \<Longrightarrow> c \<notin> {CHR 0x22, CHR 0x7B, CHR 0x7D}) \<Longrightarrow> scans s (dropWhile P s)"
  by (induction s) (auto intro: scans_trans scans_char)

lemma scans_ws: "scans s (skip_ws s)"
  unfolding skip_ws_def by (rule scans_dropWhile) (auto simp: json_ws_def)

lemma scans_ws_Cons: "skip_ws s = c # t \<Longrightarrow> c \<notin> {CHR 0x22, CHR 0x7B, CHR 0x7D} \<Longrightarrow> scans s t"
  using scans_ws[of s] scans_char scans_trans by metis

lemma scans_atom: "scans s (dropWhile atom_char s)"
  by (rule scans_dropWhile) (auto simp: atom_char_def is_digit_def)

lemma hex_digit_plain: "hex_digit c = Some n \<Longrightarrow> c \<noteq> CHR 0x22 \<and> c \<noteq> CHR 0x5C"
  by (auto simp: hex_digit_def Let_def split: if_splits)

text \<open>Inside a string the scan reads what the grammar reads, one character or escape at a time.\<close>

lemma p_chars_step:
  assumes "p_chars (c # s) = Some (k, t)" and "c \<noteq> CHR 0x22"
  shows "\<exists>w r n k'. c # s = w @ r \<and> w \<noteq> [] \<and> p_chars r = Some (k', t) \<and>
    (\<forall>x. p_chars (w @ x) = consed n (p_chars x)) \<and> k = n # k' \<and>
    (\<forall>d i x. slice_scan d True False i (w @ x) = slice_scan d True False (i + length w) x)"
proof -
  consider e s1 n where "c = CHR 0x5C" "s = e # s1" "e \<noteq> CHR ''u''" "simple_escape e = Some n" "consed n (p_chars s1) = Some (k, t)"
    | h1 h2 h3 h4 s2 n where "c = CHR 0x5C" "s = CHR ''u'' # h1 # h2 # h3 # h4 # s2" "hex4 h1 h2 h3 h4 = Some n" "consed n (p_chars s2) = Some (k, t)"
    | "c \<noteq> CHR 0x5C" "\<not> of_char c < (32::nat)" "consed (of_char c) (p_chars s) = Some (k, t)"
    using assms by (auto split: if_splits list.splits option.splits)
  then show ?thesis
  proof cases
    case (1 e s1 n)
    then show ?thesis by (intro exI[of _ "[c, e]"] exI[of _ s1] exI[of _ n]) (auto simp: consed_def)
  next
    case (2 h1 h2 h3 h4 s2 n)
    then have "h \<noteq> CHR 0x22 \<and> h \<noteq> CHR 0x5C" if "h \<in> {h1, h2, h3, h4}" for h
      using that by (auto simp: hex4_def dest: hex_digit_plain split: option.splits)
    then show ?thesis using 2
      by (intro exI[of _ "[c, CHR ''u'', h1, h2, h3, h4]"] exI[of _ s2] exI[of _ n]) (auto simp: consed_def)
  next
    case 3
    then show ?thesis using assms(2) by (intro exI[of _ "[c]"] exI[of _ s] exI[of _ "of_char c"]) (auto simp: consed_def)
  qed
qed

lemma p_chars_reads:
  "p_chars s = Some (k, t) \<Longrightarrow> \<exists>u. s = u @ t \<and> u \<noteq> [] \<and> (\<forall>x. p_chars (u @ x) = Some (k, x)) \<and>
     (\<forall>d i x. slice_scan d True False i (u @ x) = slice_scan d False False (i + length u) x)"
proof (induction s arbitrary: k rule: length_induct)
  case (1 s)
  show ?case
  proof (cases s)
    case (Cons c s1)
    show ?thesis
    proof (cases "c = CHR 0x22")
      case True
      then show ?thesis using 1(2) Cons by (intro exI[of _ "[c]"]) simp
    next
      case False
      then obtain w r n k' where w: "s = w @ r" "w \<noteq> []" "p_chars r = Some (k', t)" "\<forall>x. p_chars (w @ x) = consed n (p_chars x)"
        "k = n # k'" "\<forall>d i x. slice_scan d True False i (w @ x) = slice_scan d True False (i + length w) x"
        using p_chars_step[of c s1 k t] 1(2) Cons by metis
      then have "length r < length s" by simp
      then obtain u where "r = u @ t" "\<forall>x. p_chars (u @ x) = Some (k', x)"
        "\<forall>d i x. slice_scan d True False i (u @ x) = slice_scan d False False (i + length u) x"
        using 1(1) w(3) by blast
      then show ?thesis using w by (intro exI[of _ "w @ u"]) (simp add: consed_def add.assoc)
    qed
  qed (use 1(2) in simp)
qed

lemma p_chars_length: "p_chars s = Some (k, t) \<Longrightarrow> length t < length s"
  using p_chars_reads by fastforce

lemma p_chars_append: "p_chars s = Some (k, t) \<Longrightarrow> p_chars (s @ x) = Some (k, t @ x)"
  using p_chars_reads by fastforce

lemma scans_string: "p_chars s = Some (k, t) \<Longrightarrow> scans (CHR 0x22 # s) t"
proof -
  assume "p_chars s = Some (k, t)"
  then obtain u where "s = u @ t" "\<forall>d i x. slice_scan d True False i (u @ x) = slice_scan d False False (i + length u) x"
    using p_chars_reads by blast
  then show ?thesis unfolding scans_def by (intro exI[of _ "CHR 0x22 # u"]) simp
qed

lemma scans_braces: "scans s (CHR 0x7D # t) \<Longrightarrow> scans (CHR 0x7B # s) t"
  unfolding scans_def by (fastforce intro: exI[of _ "CHR 0x7B # _ @ [CHR 0x7D]"])

lemma scans_quoted: "skip_ws s = CHR 0x22 # r \<Longrightarrow> p_chars r = Some (k, t) \<Longrightarrow> scans s t"
  using scans_ws[of s] scans_string scans_trans by metis

lemma json_number_Nil [simp]: "\<not> json_number []"
  by (simp add: json_number_def int_part_def)

lemma p_atom_SomeD: "p_atom s = Some (v, t) \<Longrightarrow> t = dropWhile atom_char s \<and> takeWhile atom_char s \<noteq> []"
  by (auto simp: p_atom_def Let_def split: if_splits)

text \<open>What the grammar takes for a value, a list of items or of members, the scan passes at the same depth.\<close>

lemma grammar_scans:
  "p_value n s = Some (v, t) \<Longrightarrow> scans s t"
  "p_items n s = Some (vs, t) \<Longrightarrow> scans s (CHR 0x5D # t)"
  "p_members n s = Some (kvs, t) \<Longrightarrow> scans s (CHR 0x7D # t)"
proof (induction n s and n s and n s arbitrary: v t and vs t and kvs t rule: p_value_p_items_p_members.induct)
  case (2 n s)
  obtain c r where s: "skip_ws s = c # r" using "2.prems" by (auto split: list.splits)
  have start: "scans s (c # r)" using scans_ws[of s] s by simp
  consider k where "c = CHR 0x22" "p_chars r = Some (k, t)" | "c = CHR 0x7B" "skip_ws r = CHR 0x7D # t"
    | kvs where "c = CHR 0x7B" "p_members n r = Some (kvs, t)" | "c = CHR 0x5B" "skip_ws r = CHR 0x5D # t"
    | vs where "c = CHR 0x5B" "p_items n r = Some (vs, t)" | "p_atom (c # r) = Some (v, t)"
    using "2.prems" s by (auto split: if_splits list.splits)
  then have "scans (c # r) t"
  proof cases
    case 2
    then show ?thesis using scans_ws[of r] scans_braces[of r t] by simp
  next
    case (3 kvs)
    then show ?thesis using "2.IH"(1)[OF s] s scans_braces[of r t] scans_ws[of r] "2.prems" by (auto split: list.splits if_splits)
  next
    case 4
    then show ?thesis using scans_ws_Cons[of r] scans_char[of c r] scans_trans[of "c # r" r t] by simp
  next
    case (5 vs)
    then have "scans r (CHR 0x5D # t)" using "2.IH"(2)[OF s] scans_ws[of r] "2.prems" s by (auto split: list.splits if_splits)
    then show ?thesis using 5 scans_char[of c r] scans_char[of "CHR 0x5D" t] by (auto intro: scans_trans)
  next
    case 6
    then show ?thesis using p_atom_SomeD scans_atom by metis
  qed (simp add: scans_string)
  then show ?case using start scans_trans by blast
next
  case (4 n s)
  obtain x t0 where x: "p_value n s = Some (x, t0)" using 4(3) by (auto split: option.splits)
  then have v: "scans s t0" using 4(1) by blast
  consider t1 vs1 where "skip_ws t0 = CHR 0x2C # t1" "p_items n t1 = Some (vs1, t)" | "skip_ws t0 = CHR 0x5D # t"
    using 4(3) x by (auto simp: consed_def split: list.splits if_splits)
  then show ?case
  proof cases
    case (1 t1 vs1)
    then have "scans t1 (CHR 0x5D # t)" using 4(2) x by auto
    moreover have "scans t0 t1" using 1 by (intro scans_ws_Cons[of _ "CHR 0x2C"]) auto
    ultimately show ?thesis using v by (blast intro: scans_trans)
  next
    case 2
    then show ?thesis using v scans_ws[of t0] by (auto intro: scans_trans)
  qed
next
  case (6 n s)
  obtain r k t0 t1 x t2 where key: "skip_ws s = CHR 0x22 # r" "p_chars r = Some (k, t0)" "skip_ws t0 = CHR 0x3A # t1" "p_value n t1 = Some (x, t2)"
    using 6(3) by (auto split: option.splits list.splits if_splits)
  have "scans s t0" using key scans_quoted by blast
  moreover have "scans t0 t1" using key by (intro scans_ws_Cons[of _ "CHR 0x3A"]) auto
  moreover have "scans t1 t2" using 6(1) key by auto
  ultimately have to2: "scans s t2" by (blast intro: scans_trans)
  consider t3 kvs1 where "skip_ws t2 = CHR 0x2C # t3" "p_members n t3 = Some (kvs1, t)" | "skip_ws t2 = CHR 0x7D # t"
    using 6(3) key by (auto simp: consed_def split: list.splits if_splits)
  then show ?case
  proof cases
    case (1 t3 kvs1)
    then have "scans t3 (CHR 0x7D # t)" using 6(2) key by auto
    moreover have "scans t2 t3" using 1 by (intro scans_ws_Cons[of _ "CHR 0x2C"]) auto
    ultimately show ?thesis using to2 by (blast intro: scans_trans)
  next
    case 2
    then show ?thesis using to2 scans_ws[of t2] by (auto intro: scans_trans)
  qed
qed simp_all

lemma scans_length: "scans s t \<Longrightarrow> length t \<le> length s"
  by (auto simp: scans_def)

lemma skip_ws_length: "skip_ws s = c # r \<Longrightarrow> length r < length s"
  unfolding skip_ws_def using length_dropWhile_le[of json_ws s] by (metis length_Cons less_eq_Suc_le)

lemma items_length: "p_items n s = Some (vs, t) \<Longrightarrow> length t < length s"
  using grammar_scans(2) scans_length by fastforce

lemma members_length: "p_members n s = Some (kvs, t) \<Longrightarrow> length t < length s"
  using grammar_scans(3) scans_length by fastforce

lemma p_atom_length: "p_atom s = Some (v, t) \<Longrightarrow> length t < length s"
  using p_atom_SomeD[of s v t] takeWhile_dropWhile_id[of atom_char s] by (metis append_eq_Cons_conv length_append length_greater_0_conv less_add_same_cancel2)

lemma value_length: "p_value n s = Some (v, t) \<Longrightarrow> length t < length s"
  by (cases n) (auto split: list.splits if_splits dest!: p_chars_length items_length members_length p_atom_length skip_ws_length)

text \<open>More fuel than twice the length makes no difference.\<close>

lemma fuel_irrelevant:
  "(2 * length s < n \<longrightarrow> 2 * length s < m \<longrightarrow> p_value n s = p_value m s) \<and>
   (2 * length s + 1 < n \<longrightarrow> 2 * length s + 1 < m \<longrightarrow> p_items n s = p_items m s \<and> p_members n s = p_members m s)"
proof (induction n arbitrary: m s)
  case (Suc n)
  show ?case
  proof (cases m)
    case (Suc m1)
    have IH: "2 * length s < n \<Longrightarrow> 2 * length s < m1 \<Longrightarrow> p_value n s = p_value m1 s"
      "2 * length s + 1 < n \<Longrightarrow> 2 * length s + 1 < m1 \<Longrightarrow> p_items n s = p_items m1 s"
      "2 * length s + 1 < n \<Longrightarrow> 2 * length s + 1 < m1 \<Longrightarrow> p_members n s = p_members m1 s" for s
      using Suc.IH by blast+
    have val: "p_value (Suc n) s = p_value (Suc m1) s" if "2 * length s < Suc n" "2 * length s < Suc m1"
    proof (cases "skip_ws s")
      case (Cons c r)
      then have "2 * length r + 1 < n" "2 * length r + 1 < m1" using that skip_ws_length by fastforce+
      then show ?thesis using Cons IH(2,3)[of r] by (simp split: list.splits)
    qed simp
    have items: "p_items (Suc n) s = p_items (Suc m1) s" if len: "2 * length s + 1 < Suc n" "2 * length s + 1 < Suc m1"
    proof (cases "p_value n s")
      case (Some vt)
      obtain v t where vt: "vt = (v, t)" by (cases vt)
      show ?thesis
      proof (cases "skip_ws t")
        case (Cons c t1)
        then have "length t1 + 2 \<le> length s" using Some vt value_length skip_ws_length by fastforce
        then have "2 * length t1 + 1 < n" "2 * length t1 + 1 < m1" using len by auto
        then show ?thesis using Cons Some vt len IH(1)[of s] IH(2)[of t1] by simp
      qed (use Some vt len IH(1)[of s] in simp)
    qed (use len IH(1)[of s] in simp)
    have members: "p_members (Suc n) s = p_members (Suc m1) s" if len: "2 * length s + 1 < Suc n" "2 * length s + 1 < Suc m1"
    proof (cases "\<exists>r k t c t1. skip_ws s = CHR 0x22 # r \<and> p_chars r = Some (k, t) \<and> skip_ws t = CHR 0x3A # t1")
      case True
      then obtain r k t t1 where key: "skip_ws s = CHR 0x22 # r" "p_chars r = Some (k, t)" "skip_ws t = CHR 0x3A # t1" by auto
      then have l1: "length t1 + 2 \<le> length s" using skip_ws_length[OF key(1)] p_chars_length[OF key(2)] skip_ws_length[OF key(3)] by linarith
      then have same: "p_value n t1 = p_value m1 t1" using len by (intro IH(1)) auto
      show ?thesis
      proof (cases "p_value n t1")
        case (Some vt)
        obtain v t2 where vt: "vt = (v, t2)" by (cases vt)
        show ?thesis
        proof (cases "skip_ws t2")
          case (Cons d t3)
          then have "length t3 + 2 \<le> length s" using Some vt value_length skip_ws_length l1 by fastforce
          then have "2 * length t3 + 1 < n" "2 * length t3 + 1 < m1" using len by auto
          then show ?thesis using Cons Some vt same key IH(3)[of t3] by simp
        qed (use Some vt same key in simp)
      qed (use same key in simp)
    qed (auto split: list.splits option.splits)
    show ?thesis using val items members Suc by blast
  qed simp
qed simp

text \<open>What is behind a value matters only when the value is a bare word that would go on.\<close>

lemma ws_split:
  "skip_ws s = c # r \<Longrightarrow> \<exists>w. s = w @ c # r \<and> (\<forall>x. skip_ws (w @ c # x) = c # x) \<and> (\<not> atom_char c \<longrightarrow> (\<forall>x. \<not> atom_char (hd (w @ c # x))))"
proof (induction s)
  case (Cons a s)
  show ?case
  proof (cases "json_ws a")
    case True
    then obtain w where "s = w @ c # r" "\<forall>x. skip_ws (w @ c # x) = c # x" using Cons by (auto simp: skip_ws_def)
    moreover have "\<not> atom_char a" using True by (auto simp: json_ws_def atom_char_def is_digit_def)
    ultimately show ?thesis using True by (intro exI[of _ "a # w"]) (auto simp: skip_ws_def)
  next
    case False
    then show ?thesis using Cons(2) by (intro exI[of _ "[]"]) (auto simp: skip_ws_def)
  qed
qed (simp add: skip_ws_def)

definition bracketed :: "jtext \<Rightarrow> bool" where
  "bracketed v \<longleftrightarrow> (case v of JT_str s \<Rightarrow> True | JT_arr vs \<Rightarrow> True | JT_obj kvs \<Rightarrow> True | _ \<Rightarrow> False)"

definition ends_word :: "jtext \<Rightarrow> string \<Rightarrow> bool" where
  "ends_word v x \<longleftrightarrow> bracketed v \<or> x = [] \<or> \<not> atom_char (hd x)"

lemma p_atom_reads:
  assumes "p_atom s = Some (v, t)"
  shows "\<exists>u. s = u @ t \<and> (\<forall>x. ends_word v x \<longrightarrow> p_atom (u @ x) = Some (v, x))"
proof (intro exI conjI allI impI)
  let ?u = "takeWhile atom_char s"
  show "s = ?u @ t" using p_atom_SomeD[OF assms] by simp
  fix x assume "ends_word v x"
  moreover have "\<not> bracketed v" using assms by (auto simp: p_atom_def Let_def bracketed_def split: if_splits)
  ultimately have "takeWhile atom_char (?u @ x) = ?u" "dropWhile atom_char (?u @ x) = x"
    using set_takeWhileD[of _ atom_char s] by (cases x; fastforce simp: ends_word_def takeWhile_append dropWhile_append)+
  then show "p_atom (?u @ x) = Some (v, x)" using assms by (auto simp: p_atom_def Let_def split: if_splits)
qed

lemma members_start: "p_members n s = Some y \<Longrightarrow> \<exists>r. skip_ws s = CHR 0x22 # r"
  by (cases n) (auto split: list.splits if_splits)

lemma no_atom_bracket: "p_atom (CHR 0x5D # r) = None"
  by (simp add: p_atom_def Let_def atom_char_def is_digit_def)

lemma value_start:
  assumes "p_value n s = Some y"
  shows "\<exists>c r. skip_ws s = c # r \<and> c \<noteq> CHR 0x5D"
proof (cases "n = 0 \<or> skip_ws s = []")
  case False
  then obtain m c r where "n = Suc m" "skip_ws s = c # r" by (cases n; cases "skip_ws s") auto
  then show ?thesis using assms no_atom_bracket[of r] by auto
qed (use assms in \<open>cases n; auto\<close>)

lemma items_start: "p_items n s = Some y \<Longrightarrow> \<exists>c r. skip_ws s = c # r \<and> c \<noteq> CHR 0x5D"
  by (cases n) (auto split: option.splits dest: value_start)

lemma grammar_reads:
  "p_value n s = Some (v, t) \<Longrightarrow> \<exists>u. s = u @ t \<and> (\<forall>x. ends_word v x \<longrightarrow> p_value n (u @ x) = Some (v, x))"
  "p_items n s = Some (vs, t) \<Longrightarrow> \<exists>u. s = u @ t \<and> (\<forall>x. p_items n (u @ x) = Some (vs, x))"
  "p_members n s = Some (kvs, t) \<Longrightarrow> \<exists>u. s = u @ t \<and> (\<forall>x. p_members n (u @ x) = Some (kvs, x))"
proof (induction n s and n s and n s arbitrary: v t and vs t and kvs t rule: p_value_p_items_p_members.induct)
  case (2 n s)
  obtain c r where s: "skip_ws s = c # r" using "2.prems" by (auto split: list.splits)
  obtain w where w: "s = w @ c # r" "\<forall>x. skip_ws (w @ c # x) = c # x" using ws_split[OF s] by blast
  consider k where "c = CHR 0x22" "p_chars r = Some (k, t)" "v = JT_str k" | "c = CHR 0x7B" "skip_ws r = CHR 0x7D # t" "v = JT_obj []"
    | kvs d u where "c = CHR 0x7B" "p_members n r = Some (kvs, t)" "v = JT_obj kvs" "skip_ws r = d # u" "d \<noteq> CHR 0x7D"
    | "c = CHR 0x5B" "skip_ws r = CHR 0x5D # t" "v = JT_arr []"
    | vs d u where "c = CHR 0x5B" "p_items n r = Some (vs, t)" "v = JT_arr vs" "skip_ws r = d # u" "d \<noteq> CHR 0x5D"
    | "c \<notin> {CHR 0x22, CHR 0x7B, CHR 0x5B}" "p_atom (c # r) = Some (v, t)"
    using "2.prems"(1) s by (auto split: if_splits list.splits)
  then show ?case
  proof cases
    case (1 k)
    then obtain u where "r = u @ t" "\<forall>x. p_chars (u @ x) = Some (k, x)" using p_chars_reads by blast
    then show ?thesis using w 1 by (intro exI[of _ "w @ c # u"]) simp
  next
    case 2
    then obtain u where "r = u @ CHR 0x7D # t" "\<forall>x. skip_ws (u @ CHR 0x7D # x) = CHR 0x7D # x" using ws_split by blast
    then show ?thesis using w 2 by (intro exI[of _ "w @ c # u @ [CHR 0x7D]"]) simp
  next
    case (3 kvs d u)
    then obtain u0 where u0: "r = u0 @ t" "\<forall>x. p_members n (u0 @ x) = Some (kvs, x)" using "2.IH"(1)[OF s] by blast
    have "p_value (Suc n) (w @ c # u0 @ x) = Some (v, x)" for x
    proof -
      have m: "p_members n (u0 @ x) = Some (kvs, x)" using u0(2) by blast
      then obtain r1 where "skip_ws (u0 @ x) = CHR 0x22 # r1" using members_start by blast
      then show ?thesis using m w(2) 3 by simp
    qed
    then show ?thesis using w(1) u0(1) by (intro exI[of _ "w @ c # u0"]) simp
  next
    case 4
    then obtain u where "r = u @ CHR 0x5D # t" "\<forall>x. skip_ws (u @ CHR 0x5D # x) = CHR 0x5D # x" using ws_split by blast
    then show ?thesis using w 4 by (intro exI[of _ "w @ c # u @ [CHR 0x5D]"]) simp
  next
    case (5 vs d u)
    then obtain u0 where u0: "r = u0 @ t" "\<forall>x. p_items n (u0 @ x) = Some (vs, x)" using "2.IH"(2)[OF s] by blast
    have "p_value (Suc n) (w @ c # u0 @ x) = Some (v, x)" for x
    proof -
      have m: "p_items n (u0 @ x) = Some (vs, x)" using u0(2) by blast
      then obtain d1 r1 where "skip_ws (u0 @ x) = d1 # r1" "d1 \<noteq> CHR 0x5D" using items_start by blast
      then show ?thesis using m w(2) 5 by simp
    qed
    then show ?thesis using w(1) u0(1) by (intro exI[of _ "w @ c # u0"]) simp
  next
    case 6
    then obtain u where u: "c # r = u @ t" "\<forall>x. ends_word v x \<longrightarrow> p_atom (u @ x) = Some (v, x)" using p_atom_reads by blast
    then obtain u1 where "u = c # u1" using p_atom_length[OF 6(2)] by (cases u) auto
    then show ?thesis using w u 6(1) by (intro exI[of _ "w @ u"]) simp
  qed
next
  case (4 n s)
  obtain y t0 where y: "p_value n s = Some (y, t0)" using 4(3) by (auto split: option.splits)
  then obtain u0 where u0: "s = u0 @ t0" "\<forall>x. ends_word y x \<longrightarrow> p_value n (u0 @ x) = Some (y, x)" using 4(1) by blast
  consider t1 vs1 where "skip_ws t0 = CHR 0x2C # t1" "p_items n t1 = Some (vs1, t)" "vs = y # vs1" | "skip_ws t0 = CHR 0x5D # t" "vs = [y]"
    using 4(3) y by (auto simp: consed_def split: list.splits if_splits)
  then show ?case
  proof cases
    case (1 t1 vs1)
    obtain w where w: "t0 = w @ CHR 0x2C # t1" "\<forall>x. skip_ws (w @ CHR 0x2C # x) = CHR 0x2C # x" "\<forall>x. \<not> atom_char (hd (w @ CHR 0x2C # x))"
      using ws_split[OF 1(1)] by (auto simp: atom_char_def is_digit_def)
    moreover obtain u1 where "t1 = u1 @ t" "\<forall>x. p_items n (u1 @ x) = Some (vs1, x)" using 4(2)[OF y refl 1(1)] 1(2) by auto
    ultimately show ?thesis using u0 1(3) by (intro exI[of _ "u0 @ w @ CHR 0x2C # u1"]) (simp add: ends_word_def consed_def)
  next
    case 2
    obtain w where "t0 = w @ CHR 0x5D # t" "\<forall>x. skip_ws (w @ CHR 0x5D # x) = CHR 0x5D # x" "\<forall>x. \<not> atom_char (hd (w @ CHR 0x5D # x))"
      using ws_split[OF 2(1)] by (auto simp: atom_char_def is_digit_def)
    then show ?thesis using u0 2(2) by (intro exI[of _ "u0 @ w @ [CHR 0x5D]"]) (simp add: ends_word_def)
  qed
next
  case (6 n s)
  obtain r k t0 t1 y t2 where key: "skip_ws s = CHR 0x22 # r" "p_chars r = Some (k, t0)" "skip_ws t0 = CHR 0x3A # t1" "p_value n t1 = Some (y, t2)"
    using 6(3) by (auto split: option.splits list.splits if_splits)
  obtain a where a: "s = a @ CHR 0x22 # r" "\<forall>x. skip_ws (a @ CHR 0x22 # x) = CHR 0x22 # x" using ws_split[OF key(1)] by blast
  obtain b where b: "r = b @ t0" "\<forall>x. p_chars (b @ x) = Some (k, x)" using p_chars_reads[OF key(2)] by blast
  obtain c where c: "t0 = c @ CHR 0x3A # t1" "\<forall>x. skip_ws (c @ CHR 0x3A # x) = CHR 0x3A # x" using ws_split[OF key(3)] by blast
  obtain d where d: "t1 = d @ t2" "\<forall>x. ends_word y x \<longrightarrow> p_value n (d @ x) = Some (y, x)" using 6(1) key by blast
  consider t3 kvs1 where "skip_ws t2 = CHR 0x2C # t3" "p_members n t3 = Some (kvs1, t)" "kvs = (k, y) # kvs1" | "skip_ws t2 = CHR 0x7D # t" "kvs = [(k, y)]"
    using 6(3) key by (auto simp: consed_def split: list.splits if_splits)
  then show ?case
  proof cases
    case (1 t3 kvs1)
    obtain w where w: "t2 = w @ CHR 0x2C # t3" "\<forall>x. skip_ws (w @ CHR 0x2C # x) = CHR 0x2C # x" "\<forall>x. \<not> atom_char (hd (w @ CHR 0x2C # x))"
      using ws_split[OF 1(1)] by (auto simp: atom_char_def is_digit_def)
    moreover obtain u1 where "t3 = u1 @ t" "\<forall>x. p_members n (u1 @ x) = Some (kvs1, x)" using 6(2) key 1(1,2) by force
    ultimately show ?thesis using a b c d 1(3)
      by (intro exI[of _ "a @ CHR 0x22 # b @ c @ CHR 0x3A # d @ w @ CHR 0x2C # u1"]) (simp add: ends_word_def consed_def)
  next
    case 2
    obtain w where "t2 = w @ CHR 0x7D # t" "\<forall>x. skip_ws (w @ CHR 0x7D # x) = CHR 0x7D # x" "\<forall>x. \<not> atom_char (hd (w @ CHR 0x7D # x))"
      using ws_split[OF 2(1)] by (auto simp: atom_char_def is_digit_def)
    then show ?thesis using a b c d 2(2)
      by (intro exI[of _ "a @ CHR 0x22 # b @ c @ CHR 0x3A # d @ w @ [CHR 0x7D]"]) (simp add: ends_word_def)
  qed
qed simp_all

subsection \<open>Agreement of scan and grammar\<close>

lemma slice_scan_prefix:
  "slice_scan d a b i s = Some n \<Longrightarrow> i < n \<and> n \<le> i + length s \<and> (\<forall>x. slice_scan d a b i (take (n - i) s @ x) = Some n)"
proof (induction d a b i s rule: slice_scan.induct)
  case (2 d a b i c s)
  have *: "take (n - i) (c # s) = c # take (n - Suc i) s" if "Suc i < n \<or> n = Suc i" for s
  proof -
    have "n - i = Suc (n - Suc i)" using that by auto
    then show ?thesis by simp
  qed
  show ?case
  proof (cases "\<not> a \<and> c = CHR 0x7D \<and> d - 1 = 0")
    case True
    then show ?thesis using 2(6) by auto
  next
    case False
    then have "Suc i < n" "n \<le> Suc (i + length s)" using 2 by (auto split: if_splits)
    then show ?thesis using 2 False * by (auto split: if_splits)
  qed
qed simp

lemma slice_of_object:
  assumes "p_value n (CHR 0x7B # r) = Some (JT_obj kvs, t)"
  shows "\<exists>u. CHR 0x7B # r = u @ t \<and> sliceFirstJsonObject (CHR 0x7B # r) = Some u"
proof -
  obtain m where m: "n = Suc m" using assms by (cases n) auto
  have "skip_ws (CHR 0x7B # r) = CHR 0x7B # r" by (simp add: skip_ws_def json_ws_def)
  then have "scans r (CHR 0x7D # t)"
    using assms m scans_ws[of r] by (auto split: if_splits list.splits dest: grammar_scans(3))
  then obtain u where u: "r = u @ CHR 0x7D # t" "\<forall>d i. slice_scan (Suc d) False False i r = slice_scan (Suc d) False False (i + length u) (CHR 0x7D # t)"
    by (auto simp: scans_def)
  then have "slice_scan 0 False False 0 (CHR 0x7B # r) = Some (2 + length u)" by simp
  then show ?thesis using u(1) by (intro exI[of _ "CHR 0x7B # u @ [CHR 0x7D]"]) (simp add: sliceFirstJsonObject_def starts_with_def)
qed

lemma slice_cuts:
  assumes "sliceFirstJsonObject s = Some u"
  shows "\<exists>t r. s = u @ t \<and> u = CHR 0x7B # r \<and> sliceFirstJsonObject u = Some u"
proof -
  obtain r n where s: "s = CHR 0x7B # r" "slice_scan 0 False False 0 s = Some n" "u = take n s"
    using assms by (auto simp: sliceFirstJsonObject_def starts_with_iff split: if_splits)
  obtain k where k: "n = Suc k" using slice_scan_prefix[OF s(2)] by (cases n) auto
  have "slice_scan 0 False False 0 (take n s) = Some n" "n \<le> length s"
    using slice_scan_prefix[OF s(2)] by (auto dest: spec[of _ "[]"])
  then show ?thesis using s k by (intro exI[of _ "drop k r"] exI[of _ "take k r"]) (simp add: sliceFirstJsonObject_def starts_with_def)
qed

text \<open>The object that the grammar reads at the start of a text, whatever is behind it.\<close>

definition read_object :: "string \<Rightarrow> (nat list \<times> jtext) list option" where
  "read_object s = (if \<not> starts_with s [CHR 0x7B] then None
     else case p_value (2 * length s + 2) s of Some (JT_obj kvs, t) \<Rightarrow> Some kvs | _ \<Rightarrow> None)"

lemma brace_object:
  assumes "p_value n (CHR 0x7B # r) = Some (v, t)"
  shows "\<exists>kvs. v = JT_obj kvs"
  using assms by (cases n) (auto simp: skip_ws_def json_ws_def split: list.splits if_splits)

lemma read_object_iff:
  "read_object s = Some kvs \<longleftrightarrow> (\<exists>r t. s = CHR 0x7B # r \<and> p_value (2 * length s + 2) s = Some (JT_obj kvs, t))"
  by (auto simp: read_object_def starts_with_iff split: option.splits jtext.splits)

text \<open>Cutting by braces and quotes and parsing the cut is reading by the grammar.\<close>

lemma slice_then_parse:
  "Option.bind (sliceFirstJsonObject s) parse_json = map_option JT_obj (read_object s)"
proof (cases "read_object s")
  case (Some kvs)
  then obtain r t where s: "s = CHR 0x7B # r" "p_value (2 * length s + 2) s = Some (JT_obj kvs, t)"
    using read_object_iff[THEN iffD1, OF Some] by blast
  then obtain u where u: "s = u @ t" "sliceFirstJsonObject s = Some u" using slice_of_object by metis
  obtain u1 where "s = u1 @ t" "\<forall>x. ends_word (JT_obj kvs) x \<longrightarrow> p_value (2 * length s + 2) (u1 @ x) = Some (JT_obj kvs, x)"
    using grammar_reads(1)[OF s(2)] by blast
  then have "p_value (2 * length s + 2) u = Some (JT_obj kvs, [])" using u(1) by (metis append_same_eq append_Nil2 ends_word_def)
  moreover have "p_value (2 * length s + 2) u = p_value (2 * length u + 2) u" using u(1) by (intro fuel_irrelevant[THEN conjunct1, rule_format]) auto
  ultimately have p: "p_value (2 * length u + 2) u = Some (JT_obj kvs, [])" by argo
  have "parse_json u = Some (JT_obj kvs)" unfolding parse_json_def p by (simp add: skip_ws_def)
  then show ?thesis using Some u(2) by simp
next
  case None
  have False if sl: "sliceFirstJsonObject s = Some u" and pj: "parse_json u = Some v" for u v
  proof -
    obtain t r where u: "s = u @ t" "u = CHR 0x7B # r" "sliceFirstJsonObject u = Some u" using slice_cuts[OF sl] by blast
    obtain t1 where p: "p_value (2 * length u + 2) u = Some (v, t1)" using pj by (auto simp: parse_json_def split: option.splits if_splits)
    then obtain kvs where v: "v = JT_obj kvs" using brace_object u(2) by blast
    then obtain u1 where "u = u1 @ t1" "sliceFirstJsonObject u = Some u1" using slice_of_object p u(2) by blast
    then have "t1 = []" using u(3) by simp
    moreover have "p_value (2 * length s + 2) u = p_value (2 * length u + 2) u" using u(1) by (intro fuel_irrelevant[THEN conjunct1, rule_format]) auto
    ultimately have "p_value (2 * length s + 2) u = Some (v, [])" using p by simp
    then obtain u2 where "u = u2" "\<forall>x. ends_word v x \<longrightarrow> p_value (2 * length s + 2) (u2 @ x) = Some (v, x)" using grammar_reads(1) by fastforce
    then have "p_value (2 * length s + 2) s = Some (JT_obj kvs, t)" using u(1) v by (simp add: ends_word_def bracketed_def)
    then show False using None u(1,2) by (auto simp: read_object_def starts_with_def)
  qed
  then show ?thesis using None by (cases "sliceFirstJsonObject s"; cases "parse_json (the (sliceFirstJsonObject s))") auto
qed

section \<open>The typed exit\<close>

datatype HumanRequiredReason = IRREVERSIBLE_BOUNDARY | SCOPE_FORK | UNRECOVERABLE_WEDGE | NO_DURABLE_COMMIT | BUDGET
  | RATE_BUDGET | PROCESS_PAUSED | CANCELLED_BY_HUMAN | BOARD_WAITING | BOARD_EMPTY

datatype control_kind = Pause_by_control | Cancel_by_control

record CoreControlOutcome =
  co_kind :: control_kind
  co_processId :: string
  co_action :: string
  co_actionId :: string

datatype lap_payload = Json_payload jtext | Control_payload CoreControlOutcome

datatype LapOutcome = Shipped | Awaiting_input string
  | Human_required HumanRequiredReason "nat list option" "lap_payload option" | Wedge | Timeout | Crash

definition HUMAN_REQUIRED_REASONS :: "(string \<times> HumanRequiredReason) list" where
  "HUMAN_REQUIRED_REASONS = [(''IRREVERSIBLE_BOUNDARY'', IRREVERSIBLE_BOUNDARY), (''SCOPE_FORK'', SCOPE_FORK),
     (''UNRECOVERABLE_WEDGE'', UNRECOVERABLE_WEDGE), (''BUDGET'', BUDGET), (''RATE_BUDGET'', RATE_BUDGET),
     (''BOARD_EMPTY'', BOARD_EMPTY)]"

definition isReason :: "jtext option \<Rightarrow> HumanRequiredReason option" where
  "isReason v = (case v of Some (JT_str r) \<Rightarrow> map_of (map (apfst codes) HUMAN_REQUIRED_REASONS) r | _ \<Rightarrow> None)"

definition TAG :: string where
  "TAG = ''RALPH-EXIT:''"

definition indexOf :: "string \<Rightarrow> string \<Rightarrow> nat option" where
  "indexOf s p = List.find (\<lambda>i. starts_with (drop i s) p) [0..<Suc (length s)]"

definition lastIndexOf :: "string \<Rightarrow> string \<Rightarrow> nat option" where
  "lastIndexOf s p = List.find (\<lambda>i. starts_with (drop i s) p) (rev [0..<Suc (length s)])"

definition exit_of :: "(nat list \<times> jtext) list \<Rightarrow> LapOutcome option" where
  "exit_of kvs = (case obj_get kvs ''kind'' of
     Some (JT_str k) \<Rightarrow>
       if k = codes ''SHIPPED'' then (if length (obj_keys kvs) = 1 then Some Shipped else None)
       else if k = codes ''WEDGE'' then Some Wedge
       else if k = codes ''TIMEOUT'' then Some Timeout
       else if k = codes ''CRASH'' then Some Crash
       else if k = codes ''HUMAN_REQUIRED'' then (case isReason (obj_get kvs ''reason'') of
           None \<Rightarrow> None
         | Some r \<Rightarrow> Some (Human_required r (case obj_get kvs ''item'' of Some (JT_str i) \<Rightarrow> Some i | _ \<Rightarrow> None)
             (map_option Json_payload (obj_get kvs ''payload''))))
       else None
   | _ \<Rightarrow> None)"

definition extractTypedExit :: "string \<Rightarrow> LapOutcome option" where
  "extractTypedExit resultText = (case indexOf resultText TAG of
     None \<Rightarrow> None
   | Some idx \<Rightarrow> if lastIndexOf resultText TAG \<noteq> Some idx then None
       else (case sliceFirstJsonObject (dropWhile is_space (drop (idx + length TAG) resultText)) of
           None \<Rightarrow> None
         | Some text \<Rightarrow> (case parse_json text of Some (JT_obj kvs) \<Rightarrow> exit_of kvs | _ \<Rightarrow> None)))"

definition tagIsPresent :: "string \<Rightarrow> bool" where
  "tagIsPresent resultText \<longleftrightarrow> lastIndexOf resultText TAG \<noteq> None"

record LapEnvelope =
  e_resultText :: string
  e_costUsd :: rat
  e_inputTokens :: int
  e_outputTokens :: int
  e_controlOutcome :: "CoreControlOutcome option"
  e_isError :: bool

definition control_reason :: "control_kind \<Rightarrow> HumanRequiredReason" where
  "control_reason k = (case k of Pause_by_control \<Rightarrow> PROCESS_PAUSED | Cancel_by_control \<Rightarrow> CANCELLED_BY_HUMAN)"

record LapUsage =
  costUsd :: rat
  inputTokens :: int
  outputTokens :: int

definition outcomeFromEnvelope :: "LapEnvelope \<Rightarrow> LapOutcome \<times> LapUsage" where
  "outcomeFromEnvelope env =
     ((case e_controlOutcome env of
         Some c \<Rightarrow> Human_required (control_reason (co_kind c)) None (Some (Control_payload c))
       | None \<Rightarrow> if e_isError env then Crash
           else (case extractTypedExit (e_resultText env) of
               Some t \<Rightarrow> t
             | None \<Rightarrow> if tagIsPresent (e_resultText env) then Wedge else Crash)),
      \<lparr>costUsd = e_costUsd env, inputTokens = e_inputTokens env, outputTokens = e_outputTokens env\<rparr>)"

section \<open>The supervisor\<close>

text \<open>The usage of a thrown run is not known, so it is not counted; \<^const>\<open>None\<close> is a throw.\<close>

record LapResult =
  l_outcome :: LapOutcome
  l_costUsd :: rat
  l_inputTokens :: int
  l_outputTokens :: int
  l_attemptId :: "string option"

definition retryable :: "LapResult option \<Rightarrow> bool" where
  "retryable out \<longleftrightarrow> (case out of None \<Rightarrow> True | Some r \<Rightarrow> l_outcome r = Crash \<or> l_outcome r = Timeout)"

definition add_usage :: "LapResult option \<Rightarrow> LapUsage \<Rightarrow> LapUsage" where
  "add_usage out u = (case out of None \<Rightarrow> u
     | Some r \<Rightarrow> \<lparr>costUsd = costUsd u + l_costUsd r, inputTokens = inputTokens u + l_inputTokens r,
                 outputTokens = outputTokens u + l_outputTokens r\<rparr>)"

definition with_usage :: "LapUsage \<Rightarrow> LapResult \<Rightarrow> LapResult" where
  "with_usage u r = r\<lparr>l_costUsd := costUsd u, l_inputTokens := inputTokens u, l_outputTokens := outputTokens u\<rparr>"

definition exhausted :: "LapUsage \<Rightarrow> LapResult" where
  "exhausted u = \<lparr>l_outcome = Human_required UNRECOVERABLE_WEDGE None None, l_costUsd = costUsd u,
     l_inputTokens = inputTokens u, l_outputTokens = outputTokens u, l_attemptId = None\<rparr>"

definition no_usage :: LapUsage where
  "no_usage = \<lparr>costUsd = 0, inputTokens = 0, outputTokens = 0\<rparr>"

text \<open>The loop with so many attempts left; the state is whatever a run can change.\<close>

fun supervise_from :: "nat \<Rightarrow> ('w \<Rightarrow> LapResult option \<times> 'w) \<Rightarrow> LapUsage \<Rightarrow> 'w \<Rightarrow> LapResult \<times> 'w" where
  "supervise_from 0 run u w = (exhausted u, w)"
| "supervise_from (Suc left) run u w = (case run w of (out, w1) \<Rightarrow>
     if retryable out then supervise_from left run (add_usage out u) w1
     else (with_usage (add_usage out u) (the out), w1))"

definition superviseLap :: "nat \<Rightarrow> ('w \<Rightarrow> LapResult option \<times> 'w) \<Rightarrow> 'w \<Rightarrow> LapResult \<times> 'w" where
  "superviseLap maxRetries run = supervise_from (Suc maxRetries) run no_usage"

section \<open>What the exit line and the supervisor mean\<close>

definition tag_places :: "string \<Rightarrow> nat list" where
  "tag_places s = filter (\<lambda>i. starts_with (drop i s) TAG) [0..<Suc (length s)]"

lemma find_filter: "List.find P xs = (case filter P xs of [] \<Rightarrow> None | x # ys \<Rightarrow> Some x)"
  by (induction xs) auto

lemma find_rev_filter: "List.find P (rev xs) = (case filter P xs of [] \<Rightarrow> None | x # ys \<Rightarrow> Some (last (x # ys)))"
proof -
  have "filter P xs = [] \<longleftrightarrow> rev (filter P xs) = []" by simp
  then show ?thesis unfolding find_filter rev_filter[symmetric]
    by (cases "filter P xs"; cases "rev (filter P xs)") (auto simp: hd_rev[symmetric])
qed

lemma last_not_first:
  assumes "distinct (x # y # ys)"
  shows "last (x # y # ys) \<noteq> x"
  using assms last_in_set[of "y # ys"] by auto

lemma typed_exit_eq:
  "extractTypedExit msg = (case tag_places msg of
     [i] \<Rightarrow> Option.bind (read_object (dropWhile is_space (drop (i + length TAG) msg))) exit_of
   | _ \<Rightarrow> None)"
proof -
  have first: "indexOf msg TAG = (case tag_places msg of [] \<Rightarrow> None | i # is \<Rightarrow> Some i)"
    unfolding indexOf_def tag_places_def by (rule find_filter)
  have final: "lastIndexOf msg TAG = (case tag_places msg of [] \<Rightarrow> None | i # is \<Rightarrow> Some (last (i # is)))"
    unfolding lastIndexOf_def tag_places_def by (rule find_rev_filter)
  have "distinct (tag_places msg)" by (simp add: tag_places_def del: upt_Suc)
  then show ?thesis
  proof (cases "tag_places msg" rule: remdups_adj.cases)
    case (2 i)
    let ?b = "dropWhile is_space (drop (i + length TAG) msg)"
    have "(case sliceFirstJsonObject ?b of None \<Rightarrow> None | Some u \<Rightarrow> (case parse_json u of Some (JT_obj kvs) \<Rightarrow> exit_of kvs | _ \<Rightarrow> None))
      = Option.bind (read_object ?b) exit_of"
      using slice_then_parse[of ?b] by (cases "sliceFirstJsonObject ?b"; cases "read_object ?b") auto
    then show ?thesis using 2 first final by (simp add: extractTypedExit_def)
  next
    case (3 i j js)
    then show ?thesis using first final last_not_first[of i j js] \<open>distinct (tag_places msg)\<close> by (simp add: extractTypedExit_def)
  qed (use first in \<open>simp add: extractTypedExit_def\<close>)
qed

text \<open>C6. A lap ends in the outcome that the JSON grammar reads behind the one exit tag of its text; a text with no
  tag, or with several, or without a JSON object behind the tag has no typed exit. The search for the first and the
  last tag, the scan over quotes and braces and the parse of the cut piece come to just this.\<close>

theorem typed_exit_by_grammar:
  "extractTypedExit msg = (case tag_places msg of
     [i] \<Rightarrow> Option.bind (read_object (dropWhile is_space (drop (i + length TAG) msg))) exit_of
   | _ \<Rightarrow> None)"
  by (rule typed_exit_eq)

lemma tag_place_split:
  assumes "i \<in> set (tag_places msg)"
  shows "\<exists>a b. msg = a @ TAG @ b \<and> length a = i"
proof -
  obtain b where "drop i msg = TAG @ b" "i \<le> length msg" using assms by (auto simp: tag_places_def starts_with_iff simp del: upt_Suc)
  then show ?thesis by (metis append_take_drop_id length_take min.absorb2)
qed

lemma isReason_member: "isReason v = Some r \<Longrightarrow> r \<in> set (map snd HUMAN_REQUIRED_REASONS)"
proof -
  assume "isReason v = Some r"
  then obtain x where "map_of (map (apfst codes) HUMAN_REQUIRED_REASONS) x = Some r"
    by (auto simp: isReason_def split: option.splits jtext.splits)
  then have "(x, r) \<in> apfst codes ` set HUMAN_REQUIRED_REASONS" by (auto dest: map_of_SomeD)
  then show ?thesis by force
qed

lemma exit_reasons: "exit_of kvs = Some (Human_required r i p) \<Longrightarrow> r \<in> set (map snd HUMAN_REQUIRED_REASONS)"
  unfolding exit_of_def by (rule isReason_member) (auto split: option.splits jtext.splits if_splits)

lemma exit_shipped:
  assumes "exit_of kvs = Some Shipped"
  shows "obj_keys kvs = [codes ''kind''] \<and> obj_get kvs ''kind'' = Some (JT_str (codes ''SHIPPED''))"
proof -
  have *: "length (obj_keys kvs) = 1" "obj_get kvs ''kind'' = Some (JT_str (codes ''SHIPPED''))"
    using assms by (auto simp: exit_of_def split: option.splits jtext.splits if_splits)
  then have "codes ''kind'' \<in> set (obj_keys kvs)" by (force simp: obj_get_def obj_keys_def dest: map_of_SomeD)
  then show ?thesis using * by (cases "obj_keys kvs") auto
qed

lemma extract_SomeD:
  assumes "extractTypedExit msg = Some out"
  shows "\<exists>a b kvs. msg = a @ TAG @ b \<and> tag_places msg = [length a] \<and> read_object (dropWhile is_space b) = Some kvs \<and> exit_of kvs = Some out"
proof -
  obtain i where i: "tag_places msg = [i]" using assms by (auto simp: typed_exit_eq split: list.splits)
  moreover obtain a b where "msg = a @ TAG @ b" "length a = i" using tag_place_split[of i msg] i by auto
  ultimately show ?thesis using assms by (auto simp: typed_exit_eq bind_eq_Some_conv)
qed

lemma fold_shipped:
  "fst (outcomeFromEnvelope env) = Shipped \<Longrightarrow> e_controlOutcome env = None \<and> \<not> e_isError env \<and> extractTypedExit (e_resultText env) = Some Shipped"
  by (auto simp: outcomeFromEnvelope_def split: option.splits if_splits)

text \<open>C7. A lap never counts as shipped by default: only when the harness reports no error and no control action, and the
  text has exactly one exit tag followed by a JSON object with the one member kind and the value SHIPPED.\<close>

theorem never_false_shipped:
  assumes "fst (outcomeFromEnvelope env) = Shipped"
  shows "e_controlOutcome env = None \<and> \<not> e_isError env \<and> (\<exists>a b kvs. e_resultText env = a @ TAG @ b \<and>
    tag_places (e_resultText env) = [length a] \<and> read_object (dropWhile is_space b) = Some kvs \<and>
    obj_keys kvs = [codes ''kind''] \<and> obj_get kvs ''kind'' = Some (JT_str (codes ''SHIPPED'')))"
  using fold_shipped[OF assms] extract_SomeD exit_shipped by blast

definition demo_envelope :: LapEnvelope where
  "demo_envelope = \<lparr>e_resultText = ''done RALPH-EXIT: {'' @ [CHR 0x22] @ ''kind'' @ [CHR 0x22] @ '' : '' @ [CHR 0x22] @ ''SHIPPED''
     @ [CHR 0x22] @ ''} bye'', e_costUsd = 0, e_inputTokens = 0, e_outputTokens = 0, e_controlOutcome = None, e_isError = False\<rparr>"

theorem never_false_shipped_witness:
  "fst (outcomeFromEnvelope demo_envelope) = Shipped \<and> (\<exists>a b. e_resultText demo_envelope = a @ TAG @ b)"
proof -
  have *: "fst (outcomeFromEnvelope demo_envelope) = Shipped" by code_simp
  then show ?thesis using never_false_shipped[OF *] by blast
qed

text \<open>A model cannot speak for the core: a lap without a control action of the core asks for a human only with
  one of the six reasons of the exit contract, never with a missing commit, a pause, a cancellation or a waiting board.\<close>

theorem model_reasons_only:
  assumes "fst (outcomeFromEnvelope env) = Human_required r i p" and "e_controlOutcome env = None"
  shows "r \<in> set (map snd HUMAN_REQUIRED_REASONS) \<and> r \<notin> {NO_DURABLE_COMMIT, PROCESS_PAUSED, CANCELLED_BY_HUMAN, BOARD_WAITING}"
proof -
  have "extractTypedExit (e_resultText env) = Some (Human_required r i p)"
    using assms by (auto simp: outcomeFromEnvelope_def split: option.splits if_splits)
  then have "r \<in> set (map snd HUMAN_REQUIRED_REASONS)" using extract_SomeD exit_reasons by blast
  then show ?thesis by (auto simp: HUMAN_REQUIRED_REASONS_def)
qed

definition fork_envelope :: LapEnvelope where
  "fork_envelope = demo_envelope\<lparr>e_resultText := ''RALPH-EXIT: {'' @ [CHR 0x22] @ ''kind'' @ [CHR 0x22] @ '':'' @ [CHR 0x22] @ ''HUMAN_REQUIRED''
     @ [CHR 0x22] @ '', '' @ [CHR 0x22] @ ''reason'' @ [CHR 0x22] @ '':'' @ [CHR 0x22] @ ''SCOPE_FORK'' @ [CHR 0x22] @ ''}''\<rparr>"

theorem model_reasons_only_witness:
  "fst (outcomeFromEnvelope fork_envelope) = Human_required SCOPE_FORK None None \<and> SCOPE_FORK \<in> set (map snd HUMAN_REQUIRED_REASONS)"
proof -
  have *: "fst (outcomeFromEnvelope fork_envelope) = Human_required SCOPE_FORK None None" "e_controlOutcome fork_envelope = None" by code_simp+
  then show ?thesis using model_reasons_only[OF *] by blast
qed

subsection \<open>The supervisor\<close>

fun attempts :: "nat \<Rightarrow> ('w \<Rightarrow> LapResult option \<times> 'w) \<Rightarrow> 'w \<Rightarrow> LapResult option list \<times> 'w" where
  "attempts 0 run w = ([], w)"
| "attempts (Suc n) run w = (case run w of (out, w1) \<Rightarrow> apfst (Cons out) (attempts n run w1))"

abbreviation sum_usage :: "LapUsage \<Rightarrow> LapResult option list \<Rightarrow> LapUsage" where
  "sum_usage \<equiv> foldl (\<lambda>u out. add_usage out u)"

lemma supervise_from_exact:
  "\<exists>n outs w1. n \<le> left \<and> attempts n run w = (outs, w1) \<and>
     ((n = left \<and> list_all retryable outs \<and> supervise_from left run u w = (exhausted (sum_usage u outs), w1)) \<or>
      (\<exists>init t. outs = init @ [Some t] \<and> list_all retryable init \<and> \<not> retryable (Some t) \<and>
         supervise_from left run u w = (with_usage (sum_usage u outs) t, w1)))"
proof (induction left arbitrary: u w)
  case (Suc left)
  obtain out w1 where r: "run w = (out, w1)" by (cases "run w")
  show ?case
  proof (cases "retryable out")
    case True
    obtain n outs w2 where n: "n \<le> left" "attempts n run w1 = (outs, w2)"
      "(n = left \<and> list_all retryable outs \<and> supervise_from left run (add_usage out u) w1 = (exhausted (sum_usage (add_usage out u) outs), w2)) \<or>
       (\<exists>init t. outs = init @ [Some t] \<and> list_all retryable init \<and> \<not> retryable (Some t) \<and>
          supervise_from left run (add_usage out u) w1 = (with_usage (sum_usage (add_usage out u) outs) t, w2))"
      using Suc[of w1 "add_usage out u"] by blast
    then show ?thesis using r True
      by (intro exI[of _ "Suc n"] exI[of _ "out # outs"] exI[of _ w2]) (auto intro: exI[of _ "out # _"])
  next
    case False
    then obtain t where "out = Some t" by (auto simp: retryable_def split: option.splits)
    then show ?thesis using r False by (intro exI[of _ 1] exI[of _ "[out]"] exI[of _ w1]) auto
  qed
qed simp

lemma sum_usage_eq:
  "sum_usage u outs = \<lparr>costUsd = costUsd u + sum_list (map l_costUsd (List.map_filter id outs)),
     inputTokens = inputTokens u + sum_list (map l_inputTokens (List.map_filter id outs)),
     outputTokens = outputTokens u + sum_list (map l_outputTokens (List.map_filter id outs))\<rparr>"
  by (induction outs arbitrary: u) (auto simp: add_usage_def List.map_filter_simps split: option.splits)

text \<open>The supervisor runs a lap again only after a crash, a timeout or a throw and at most so many more times than
  allowed; it returns the first other outcome, or asks for a human when there was none, never a crash or timeout; and the
  usage it returns is the sum over all runs that reported one.\<close>

theorem supervise_exact:
  "\<exists>n outs w1 r. n \<le> Suc maxRetries \<and> attempts n run w = (outs, w1) \<and> superviseLap maxRetries run w = (r, w1) \<and>
     l_costUsd r = sum_list (map l_costUsd (List.map_filter id outs)) \<and>
     l_inputTokens r = sum_list (map l_inputTokens (List.map_filter id outs)) \<and>
     l_outputTokens r = sum_list (map l_outputTokens (List.map_filter id outs)) \<and>
     ((n = Suc maxRetries \<and> list_all retryable outs \<and> l_outcome r = Human_required UNRECOVERABLE_WEDGE None None \<and> l_attemptId r = None) \<or>
      (\<exists>init t. outs = init @ [Some t] \<and> list_all retryable init \<and> l_outcome r = l_outcome t \<and> l_attemptId r = l_attemptId t \<and>
         l_outcome t \<notin> {Crash, Timeout}))"
proof -
  obtain n outs w1 where n: "n \<le> Suc maxRetries" "attempts n run w = (outs, w1)"
    "(n = Suc maxRetries \<and> list_all retryable outs \<and> supervise_from (Suc maxRetries) run no_usage w = (exhausted (sum_usage no_usage outs), w1)) \<or>
     (\<exists>init t. outs = init @ [Some t] \<and> list_all retryable init \<and> \<not> retryable (Some t) \<and>
        supervise_from (Suc maxRetries) run no_usage w = (with_usage (sum_usage no_usage outs) t, w1))"
    using supervise_from_exact[of "Suc maxRetries" run w no_usage] by blast
  then show ?thesis unfolding superviseLap_def
    by (intro exI[of _ n] exI[of _ outs] exI[of _ w1] exI[of _ "fst (supervise_from (Suc maxRetries) run no_usage w)"])
       (auto simp: sum_usage_eq exhausted_def with_usage_def no_usage_def retryable_def simp del: supervise_from.simps)
qed

end
