(* ===== verification/Board.thy ===== *)
theory Board
  imports HarnessSync LoopEvents
begin

text \<open>
  What the autonomous loop reads off the board and tidies on it: why no item is available
  (\<open>src/src/runtime/ralph/board_availability.ts\<close>), orphaned decomposition stubs (\<open>loop/reaper.ts\<close>), parents
  whose children are all done (\<open>loop/parent_rollup.ts\<close>) and the backlog of closed items on the feed
  (\<open>loop/loop_boot_sweep.ts\<close>).

  The work graph is injected there as a facade, so it is a record of operations on a world here; an operation
  answers or throws. The store of \<open>WorkStore\<close> gives such a record, \<open>store_facade\<close>.
\<close>

section \<open>The facade\<close>

type_synonym ('w, 'a) act = "'w \<Rightarrow> (string + 'a) \<times> 'w"

definition then_do :: "('w, 'a) act \<Rightarrow> ('a \<Rightarrow> ('w, 'b) act) \<Rightarrow> ('w, 'b) act" where
  "then_do m k w = (case m w of (Inl e, w1) \<Rightarrow> (Inl e, w1) | (Inr x, w1) \<Rightarrow> k x w1)"

definition answer :: "'a \<Rightarrow> ('w, 'a) act" where
  "answer x w = (Inr x, w)"

fun each_do :: "('a \<Rightarrow> ('w, unit) act) \<Rightarrow> 'a list \<Rightarrow> ('w, unit) act" where
  "each_do f [] = answer ()"
| "each_do f (x # xs) = then_do (f x) (\<lambda>_. each_do f xs)"

record 'w facade =
  f_listIssues :: "IssueStatus option \<Rightarrow> ('w, Issue list) act"
  f_listEdges :: "('w, (string \<times> string \<times> string) list) act"
  f_listReady :: "('w, Issue list) act"
  f_getIssue :: "string \<Rightarrow> ('w, Issue option) act"
  f_claimIssue :: "string \<Rightarrow> ('w, bool) act"
  f_releaseClaim :: "string \<Rightarrow> string option \<Rightarrow> ('w, unit) act"
  f_closeIssue :: "string \<Rightarrow> ('w, unit) act"
  f_wedgeMark :: "string \<Rightarrow> string \<Rightarrow> ('w, unit) act"
  f_clearWedge :: "string \<Rightarrow> ('w, unit) act"
  f_archiveIssue :: "string \<Rightarrow> string \<Rightarrow> ('w, unit) act"

section \<open>Availability of the board\<close>

datatype BoardWaitReason = Wait_admission | Wait_wedged | Wait_claimed | Wait_blocked | Wait_in_progress | Wait_unavailable

record BoardWaitingItem =
  bw_id :: string
  bw_reason :: BoardWaitReason
  bw_detail :: "string option"

datatype BoardAvailability = Board_empty | Board_waiting "BoardWaitingItem list"

definition isTerminalIssue :: "Issue \<Rightarrow> bool" where
  "isTerminalIssue i \<longleftrightarrow> status i = Closed \<or> status i = Archived"

definition hasLiveClaim :: "Issue \<Rightarrow> string \<Rightarrow> bool" where
  "hasLiveClaim i nowIso \<longleftrightarrow> claimToken i \<noteq> None \<and>
     (case claimExpiresAt i of None \<Rightarrow> True | Some t \<Rightarrow> nowIso < t)"

text \<open>Later issues of the same id win in the lookup.\<close>

definition issue_by_id :: "Issue list \<Rightarrow> string \<Rightarrow> Issue option" where
  "issue_by_id issues i = map_of (rev (map (\<lambda>x. (id_of x, x)) issues)) i"

definition blockers_of :: "Issue list \<Rightarrow> (string \<times> string \<times> string) list \<Rightarrow> string \<Rightarrow> string list" where
  "blockers_of issues edges i = map fst (filter (\<lambda>(a, b, ty). ty = ''blocks'' \<and> b = i \<and>
     (case issue_by_id issues a of None \<Rightarrow> False | Some x \<Rightarrow> \<not> isTerminalIssue x)) edges)"

definition wait_reason :: "Issue list \<Rightarrow> (string \<times> string \<times> string) list \<Rightarrow> string list \<Rightarrow> string \<Rightarrow> Issue \<Rightarrow> BoardWaitingItem" where
  "wait_reason issues edges held nowIso i =
     (let item = (\<lambda>r d. \<lparr>bw_id = id_of i, bw_reason = r, bw_detail = d\<rparr>); bs = blockers_of issues edges (id_of i)
      in if status i = In_progress then item Wait_in_progress None
         else if wedgeReason i \<noteq> None then item Wait_wedged (wedgeReason i)
         else if hasLiveClaim i nowIso then item Wait_claimed (claimExpiresAt i)
         else if id_of i \<in> set held then item Wait_admission None
         else if bs \<noteq> [] then item Wait_blocked (Some (joinWith '','' (sort bs)))
         else item Wait_unavailable None)"

definition board_of :: "Issue list \<Rightarrow> (string \<times> string \<times> string) list \<Rightarrow> string list \<Rightarrow> string \<Rightarrow> BoardAvailability" where
  "board_of issues edges held nowIso = (case filter (\<lambda>i. \<not> isTerminalIssue i) issues of
     [] \<Rightarrow> Board_empty | live \<Rightarrow> Board_waiting (map (wait_reason issues edges held nowIso) live))"

definition inspectBoardAvailability :: "'w facade \<Rightarrow> string list \<Rightarrow> string \<Rightarrow> ('w, BoardAvailability) act" where
  "inspectBoardAvailability wg held nowIso =
     then_do (f_listIssues wg None) (\<lambda>issues. then_do (f_listEdges wg) (\<lambda>edges. answer (board_of issues edges held nowIso)))"

section \<open>Orphans\<close>

text \<open>The multiline pattern matches behind a line feed or a carriage return.\<close>

definition has_source_line :: "string \<Rightarrow> bool" where
  "has_source_line b \<longleftrightarrow> list_ex (\<lambda>line. starts_with line ''sourceElementId:'')
     (concat (map (splitOn (CHR 0x0D)) (splitOn (CHR 0x0A) b)))"

definition isOrphan :: "Issue \<Rightarrow> string list \<Rightarrow> bool" where
  "isOrphan i ownedIds \<longleftrightarrow> status i = Open \<and> has_source_line (body i) \<and> id_of i \<notin> set ownedIds"

definition owned_ids :: "(string \<times> string \<times> string) list \<Rightarrow> string list" where
  "owned_ids edges = map (fst \<circ> snd) (filter (\<lambda>(a, b, ty). ty = ''parent-child'') edges)"

definition orphans_of :: "Issue list \<Rightarrow> (string \<times> string \<times> string) list \<Rightarrow> Issue list" where
  "orphans_of issues edges = filter (\<lambda>i. isOrphan i (owned_ids edges)) issues"

definition REAP_REASON :: string where
  "REAP_REASON = ''orphaned decomposition stub (no live owner) '' @ [CHR 0xE2, CHR 0x80, CHR 0x94] @ '' reaped''"

definition reapOrphans :: "'w facade \<Rightarrow> ('w, string list) act" where
  "reapOrphans wg = then_do (f_listIssues wg None) (\<lambda>issues. then_do (f_listEdges wg) (\<lambda>edges.
     let orphans = orphans_of issues edges
     in then_do (each_do (\<lambda>x. f_archiveIssue wg (id_of x) REAP_REASON) orphans) (\<lambda>_. answer (map id_of orphans))))"

section \<open>Parents\<close>

definition isDrivable :: "Issue \<Rightarrow> bool" where
  "isDrivable i \<longleftrightarrow> status i = Open \<and> wedgeReason i = None"

definition childrenOf :: "(string \<Rightarrow> Issue option) \<Rightarrow> (string \<times> string \<times> string) list \<Rightarrow> string \<Rightarrow> Issue list" where
  "childrenOf byId edges p = List.map_filter (\<lambda>(a, b, ty). if ty = ''parent-child'' \<and> a = p then byId b else None) edges"

definition parentsOf :: "(string \<times> string \<times> string) list \<Rightarrow> string \<Rightarrow> string list" where
  "parentsOf edges c = map fst (filter (\<lambda>(a, b, ty). ty = ''parent-child'' \<and> b = c) edges)"

definition rolls_up :: "(string \<Rightarrow> Issue option) \<Rightarrow> (string \<times> string \<times> string) list \<Rightarrow> string \<Rightarrow> bool" where
  "rolls_up byId edges p = (case byId p of
     None \<Rightarrow> False
   | Some parent \<Rightarrow> \<not> isTerminalIssue parent \<and> childrenOf byId edges p \<noteq> [] \<and>
       list_all (\<lambda>k. \<not> isDrivable k) (childrenOf byId edges p))"

text \<open>The walk, with the parents that are still to be looked at in order: those of a parent that was just closed come
  first. \<^term>\<open>n\<close> counts looks at a parent; \<open>roll_returns\<close> gives a number that is always enough.\<close>

fun roll_walk :: "nat \<Rightarrow> 'w facade \<Rightarrow> (string \<times> string \<times> string) list \<Rightarrow> string list \<Rightarrow> (string \<Rightarrow> Issue option) \<Rightarrow> string list \<Rightarrow>
    'w \<Rightarrow> ((string + string list) \<times> 'w) option" where
  "roll_walk 0 wg edges agenda byId closed w = None"
| "roll_walk (Suc n) wg edges [] byId closed w = Some (Inr closed, w)"
| "roll_walk (Suc n) wg edges (p # agenda) byId closed w =
     (if \<not> rolls_up byId edges p then roll_walk n wg edges agenda byId closed w
      else (case f_closeIssue wg p w of
          (Inl e, w1) \<Rightarrow> Some (Inl e, w1)
        | (Inr _, w1) \<Rightarrow> roll_walk n wg edges (parentsOf edges p @ agenda)
            (byId(p := map_option (\<lambda>x. x\<lparr>status := Closed\<rparr>) (byId p))) (closed @ [p]) w1))"

definition roll_fuel :: "Issue list \<Rightarrow> (string \<times> string \<times> string) list \<Rightarrow> nat" where
  "roll_fuel issues edges = Suc (Suc (length issues) * Suc (length edges))"

definition rollUpParents :: "'w facade \<Rightarrow> string \<Rightarrow> ('w, string list) act" where
  "rollUpParents wg closedChildId = then_do (f_listIssues wg None) (\<lambda>issues. then_do (f_listEdges wg) (\<lambda>edges.
     (\<lambda>w. case roll_walk (roll_fuel issues edges) wg edges (parentsOf edges closedChildId) (issue_by_id issues) [] w of
        Some r \<Rightarrow> r | None \<Rightarrow> (Inl ''does not return'', w))))"

section \<open>The backlog of the feed\<close>

text \<open>Emitting never fails: the emit primitive swallows every fault.\<close>

definition terminal_ids :: "Issue list \<Rightarrow> string list" where
  "terminal_ids issues = map id_of (filter isTerminalIssue issues)"

definition sweepTerminalBacklog :: "'w facade \<Rightarrow> ('w, LoopStateItem list) act \<Rightarrow> (string \<Rightarrow> 'w \<Rightarrow> 'w) \<Rightarrow> ('w, nat) act" where
  "sweepTerminalBacklog wg collect emitClosed = then_do collect (\<lambda>st. let live = liveItems st in
     if live = [] then answer 0
     else then_do (f_listIssues wg (Some Closed)) (\<lambda>xs. then_do (f_listIssues wg (Some Archived)) (\<lambda>ys.
       let gone = filter (\<lambda>i. i_wgId i \<in> set (terminal_ids xs @ terminal_ids ys)) live
       in (\<lambda>w. (Inr (length gone), fold (\<lambda>i. emitClosed (i_wgId i)) gone w)))))"

section \<open>The store as the facade\<close>

definition told :: "('a \<Rightarrow> 'b) \<Rightarrow> (wg_error + 'a) \<times> db \<Rightarrow> (string + 'b) \<times> db" where
  "told f = apfst (map_sum (\<lambda>_. ''work graph'') f)"

record claimant =
  c_actor :: string
  c_audience :: json
  c_ttlSec :: int
  c_authorized :: bool

text \<open>One process on a schedule of faults without interference; a claim has a time and a nonce.\<close>

definition db_facade :: "wg_env \<Rightarrow> sched \<Rightarrow> claimant \<Rightarrow> int \<Rightarrow> string \<Rightarrow> db facade" where
  "db_facade E sc c now nonce =
     \<lparr>f_listIssues = (\<lambda>st d. (Inr (listIssues d st), d)), f_listEdges = (\<lambda>d. (Inr (listEdges d), d)),
      f_listReady = (\<lambda>d. (Inr (listReady E now d), d)), f_getIssue = (\<lambda>i d. (Inr (getIssue d i), d)),
      f_claimIssue = (\<lambda>i d. told fst (claimIssue E (calmed sc) (calmed sc) (c_actor c) now now nonce i (c_audience c) (c_ttlSec c)
        (c_authorized c) (c_authorized c) d)),
      f_releaseClaim = (\<lambda>i tok d. told id (releaseClaim E (calmed sc) (c_actor c) now i tok d)),
      f_closeIssue = (\<lambda>i d. told (\<lambda>_. ()) (updateIssue E (calmed sc) (c_actor c) now True i
        \<lparr>p_status = Some Closed, p_title = None, p_body = None\<rparr> d)),
      f_wedgeMark = (\<lambda>i reason d. told id (wedgeMark E (calmed sc) (c_actor c) now i reason d)),
      f_clearWedge = (\<lambda>i d. told id (clearWedge E (calmed sc) (c_actor c) now i d)),
      f_archiveIssue = (\<lambda>i reason d. told id (archiveIssue E (calmed sc) (c_actor c) now i (Some reason) d))\<rparr>"

definition demo_facade_of :: "int \<Rightarrow> db facade" where
  "demo_facade_of t = db_facade demo_env quiet \<lparr>c_actor = ''r'', c_audience = JNull, c_ttlSec = 1, c_authorized = True\<rparr> t ''7''"

section \<open>Parents roll up to a least fixpoint\<close>

lemma roll_walk_more: "roll_walk n wg E ag B cl w = Some r \<Longrightarrow> roll_walk (n + k) wg E ag B cl w = Some r"
  by (induction n wg E ag B cl w rule: roll_walk.induct) (auto split: if_splits prod.splits sum.splits)

definition unfinished :: "(string \<Rightarrow> Issue option) \<Rightarrow> string set" where
  "unfinished B = {p. \<exists>x. B p = Some x \<and> \<not> isTerminalIssue x}"

lemma rolls_up_unfinished: "rolls_up B E p \<Longrightarrow> p \<in> unfinished B"
  by (auto simp: rolls_up_def unfinished_def split: option.splits)

lemma unfinished_close: "unfinished (B(p := map_option (\<lambda>x. x\<lparr>status := Closed\<rparr>) (B p))) = unfinished B - {p}"
  by (auto simp: unfinished_def isTerminalIssue_def)

lemma parentsOf_length: "length (parentsOf E c) \<le> length E"
  by (simp add: parentsOf_def)

lemma roll_returns:
  "finite (unfinished B) \<Longrightarrow> length ag + card (unfinished B) * length E < n \<Longrightarrow> roll_walk n wg E ag B cl w \<noteq> None"
proof (induction n wg E ag B cl w rule: roll_walk.induct)
  case (3 n wg E p ag B cl w)
  show ?case
  proof (cases "rolls_up B E p")
    case True
    then have "p \<in> unfinished B" by (rule rolls_up_unfinished)
    then have "card (unfinished B) = Suc (card (unfinished B - {p}))" using 3(3) by (metis card_Suc_Diff1)
    then have "length (parentsOf E p @ ag) + card (unfinished B - {p}) * length E < n" using 3(4) parentsOf_length[of E p] by simp
    then show ?thesis using 3(2) 3(3) True by (auto simp: unfinished_close simp del: fun_upd_apply split: prod.splits sum.splits)
  qed (use 3 in simp)
qed auto

lemma issue_by_id_id: "issue_by_id issues i = Some x \<Longrightarrow> id_of x = i \<and> x \<in> set issues"
  by (auto simp: issue_by_id_def dest!: map_of_SomeD)

lemma unfinished_issues: "unfinished (issue_by_id issues) \<subseteq> set (map id_of issues)"
  by (auto simp: unfinished_def dest: issue_by_id_id)

text \<open>The parents that a finished child brings down: the least set that has every open parent of the child or of a member
  whose children, one at least, are each not drivable or in the set.\<close>

inductive rolled :: "(string \<Rightarrow> Issue option) \<Rightarrow> (string \<times> string \<times> string) list \<Rightarrow> string \<Rightarrow> string \<Rightarrow> bool"
  for B E start where
  "p \<in> set (parentsOf E c) \<Longrightarrow> c = start \<or> rolled B E start c \<Longrightarrow> p \<in> unfinished B \<Longrightarrow> childrenOf B E p \<noteq> [] \<Longrightarrow>
   (\<forall>k x. (p, k, ''parent-child'') \<in> set E \<longrightarrow> B k = Some x \<longrightarrow> \<not> isDrivable x \<or> rolled B E start k) \<Longrightarrow> rolled B E start p"

definition closed_in :: "(string \<Rightarrow> Issue option) \<Rightarrow> string list \<Rightarrow> string \<Rightarrow> Issue option" where
  "closed_in B cl p = (if p \<in> set cl then map_option (\<lambda>x. x\<lparr>status := Closed\<rparr>) (B p) else B p)"

lemma closed_in_snoc: "(closed_in B cl)(p := map_option (\<lambda>x. x\<lparr>status := Closed\<rparr>) (closed_in B cl p)) = closed_in B (cl @ [p])"
  by (auto simp: closed_in_def fun_eq_iff option.map_comp comp_def)

lemma children_mem: "set (childrenOf B E p) = {x. \<exists>k. (p, k, ''parent-child'') \<in> set E \<and> B k = Some x}"
  by (induction E) (auto simp: childrenOf_def List.map_filter_simps split: option.splits if_splits)

lemma rolls_up_iff:
  "rolls_up B E p \<longleftrightarrow> p \<in> unfinished B \<and> childrenOf B E p \<noteq> [] \<and>
     (\<forall>k x. (p, k, ''parent-child'') \<in> set E \<longrightarrow> B k = Some x \<longrightarrow> \<not> isDrivable x)"
  by (auto simp: rolls_up_def unfinished_def list_all_iff children_mem split: option.splits)

lemma parents_iff: "p \<in> set (parentsOf E c) \<longleftrightarrow> (p, c, ''parent-child'') \<in> set E"
  by (force simp: parentsOf_def)

lemma closed_in_children [simp]: "childrenOf (closed_in B cl) E p = [] \<longleftrightarrow> childrenOf B E p = []"
proof -
  have "set (childrenOf (closed_in B cl) E p) = {} \<longleftrightarrow> set (childrenOf B E p) = {}"
    by (auto simp: children_mem closed_in_def split: if_splits)
  then show ?thesis by simp
qed

lemma unfinished_closed_in: "unfinished (closed_in B cl) = unfinished B - set cl"
  by (auto simp: unfinished_def closed_in_def isTerminalIssue_def)

definition roll_inv :: "(string \<Rightarrow> Issue option) \<Rightarrow> (string \<times> string \<times> string) list \<Rightarrow> string \<Rightarrow> string list \<Rightarrow> string list \<Rightarrow> bool" where
  "roll_inv B E start agenda cl \<longleftrightarrow> distinct cl \<and> (\<forall>p\<in>set cl. rolled B E start p) \<and>
     (\<forall>p\<in>set agenda. \<exists>c. p \<in> set (parentsOf E c) \<and> (c = start \<or> c \<in> set cl)) \<and>
     (\<forall>p c. p \<in> set (parentsOf E c) \<longrightarrow> c = start \<or> c \<in> set cl \<longrightarrow>
        p \<in> set agenda \<or> p \<in> set cl \<or> \<not> rolls_up (closed_in B cl) E p)"

lemma roll_inv_close:
  assumes inv: "roll_inv B E start (p # ag) cl" and up: "rolls_up (closed_in B cl) E p"
  shows "roll_inv B E start (parentsOf E p @ ag) (cl @ [p])"
proof -
  have p: "p \<in> unfinished B" "p \<notin> set cl" using up unfinished_closed_in by (auto simp: rolls_up_iff)
  obtain c where c: "p \<in> set (parentsOf E c)" "c = start \<or> rolled B E start c" using inv by (auto simp: roll_inv_def)
  have kids: "\<not> isDrivable x \<or> rolled B E start k" if "(p, k, ''parent-child'') \<in> set E" "B k = Some x" for k x
    using up that inv by (cases "k \<in> set cl") (auto simp: rolls_up_iff closed_in_def roll_inv_def)
  then have "rolled B E start p"
    using c p(1) up by (intro rolled.intros[of p E c]) (auto simp: rolls_up_iff)
  moreover have stay: "\<not> rolls_up (closed_in B (cl @ [p])) E q"
    if "\<not> rolls_up (closed_in B cl) E q" "q \<notin> set (parentsOf E p)" "q \<noteq> p" for q
  proof -
    have "closed_in B (cl @ [p]) k = closed_in B cl k" if "(q, k, ''parent-child'') \<in> set E" for k
      using that \<open>q \<notin> set (parentsOf E p)\<close> by (auto simp: closed_in_def parents_iff)
    then show ?thesis using that by (auto simp: rolls_up_iff unfinished_closed_in)
  qed
  moreover have "q \<in> set (parentsOf E p @ ag) \<or> q \<in> set (cl @ [p]) \<or> \<not> rolls_up (closed_in B (cl @ [p])) E q"
    if "q \<in> set (parentsOf E c)" "c = start \<or> c \<in> set (cl @ [p])" for q c
    using inv that stay[of q] unfolding roll_inv_def by (cases "c = p"; fastforce)
  ultimately show ?thesis using inv p(2) unfolding roll_inv_def by auto
qed

lemma roll_inv_skip: "roll_inv B E start (p # ag) cl \<Longrightarrow> \<not> rolls_up (closed_in B cl) E p \<Longrightarrow> roll_inv B E start ag cl"
  by (auto simp: roll_inv_def)

lemma roll_walk_inv:
  "roll_walk n wg E ag (closed_in B cl) cl w = Some (Inr ids, w1) \<Longrightarrow> roll_inv B E start ag cl \<Longrightarrow> roll_inv B E start [] ids"
proof (induction n arbitrary: ag cl w)
  case (Suc n)
  show ?case
  proof (cases ag)
    case (Cons p rest)
    show ?thesis
    proof (cases "rolls_up (closed_in B cl) E p")
      case True
      then obtain u w2 where "f_closeIssue wg p w = (Inr u, w2)" using Suc(2) Cons by (auto split: prod.splits sum.splits)
      then have "roll_walk n wg E (parentsOf E p @ rest) (closed_in B (cl @ [p])) (cl @ [p]) w2 = Some (Inr ids, w1)"
        using Suc(2) Cons True by (simp add: closed_in_snoc del: fun_upd_apply)
      then show ?thesis using Suc(1,3) Cons True roll_inv_close by blast
    next
      case False
      then show ?thesis using Suc Cons roll_inv_skip by auto
    qed
  qed (use Suc in simp)
qed simp

lemma roll_inv_end: "roll_inv B E start [] ids \<Longrightarrow> rolled B E start p \<Longrightarrow> p \<in> set ids"
proof (rotate_tac, induction rule: rolled.induct)
  case (1 p c)
  then have "\<not> rolls_up (closed_in B ids) E p \<or> p \<in> set ids" by (auto simp: roll_inv_def)
  moreover have "\<not> isDrivable x" if "(p, k, ''parent-child'') \<in> set E" "closed_in B ids k = Some x" for k x
    using 1 that by (auto simp: closed_in_def isDrivable_def split: if_splits)
  ultimately show ?case using 1 by (auto simp: rolls_up_iff unfinished_closed_in)
qed

lemma closed_in_Nil: "closed_in B [] = B"
  by (simp add: closed_in_def fun_eq_iff)

lemma roll_up_answer:
  assumes "f_listIssues wg None w = (Inr issues, w1)" and "f_listEdges wg w1 = (Inr edges, w2)"
    and "rollUpParents wg child w = (Inr ids, w3)"
  shows "distinct ids \<and> set ids = {p. rolled (issue_by_id issues) edges child p}"
proof -
  have fin: "finite (unfinished (issue_by_id issues))" using unfinished_issues finite_subset by blast
  have "card (unfinished (issue_by_id issues)) \<le> length issues"
    using unfinished_issues[of issues] by (metis card_length card_mono finite_set le_trans length_map)
  then have m: "card (unfinished (issue_by_id issues)) * length edges \<le> length issues * length edges" by (rule mult_le_mono1)
  have "roll_fuel issues edges = Suc (Suc (length issues + (length edges + length issues * length edges)))" by (simp add: roll_fuel_def)
  then have "length (parentsOf edges child) + card (unfinished (issue_by_id issues)) * length edges < roll_fuel issues edges"
    using parentsOf_length[of edges child] m by linarith
  then obtain r where r: "roll_walk (roll_fuel issues edges) wg edges (parentsOf edges child) (issue_by_id issues) [] w2 = Some r"
    using roll_returns[OF fin] by (metis option.exhaust)
  then have "r = (Inr ids, w3)" using assms by (simp add: rollUpParents_def then_do_def)
  moreover have "roll_inv (issue_by_id issues) edges child (parentsOf edges child) []" by (auto simp: roll_inv_def)
  ultimately have "roll_inv (issue_by_id issues) edges child [] ids"
    using r roll_walk_inv[of _ wg edges "parentsOf edges child" "issue_by_id issues" "[]" w2 ids w3 child] by (simp add: closed_in_Nil)
  then have inv: "roll_inv (issue_by_id issues) edges child [] ids" .
  have "distinct ids" "\<forall>p\<in>set ids. rolled (issue_by_id issues) edges child p" using inv unfolding roll_inv_def by blast+
  then show ?thesis using roll_inv_end[OF inv] by blast
qed

text \<open>A closed child, its open parent, a held task and a stub, and a facade on them.\<close>

definition demo_row :: "string \<Rightarrow> string \<Rightarrow> string \<Rightarrow> issue_row" where
  "demo_row i st b = \<lparr>i_id = i, i_title = i, i_body = b, i_status = st, i_created_at = ''0001'', i_updated_at = ''0001'', i_lww = 1,
     i_claim_token = None, i_claim_audience = None, i_claim_expires_at = None, i_wedge_reason = None, i_archive_reason = None,
     i_project = LOCAL_PROJECT, i_created_lamport = 1, i_actor = Some ''r''\<rparr>"

definition family_db :: db where
  "family_db = \<lparr>wg_ops = [], wg_issues = [demo_row ''wg-1'' ''closed'' [], demo_row ''wg-2'' ''open'' [],
       demo_row ''wg-3'' ''open'' (''sourceElementId: x''), demo_row ''wg-4'' ''open'' []],
     wg_edges = [\<lparr>e_key = ''k'', e_from = ''wg-2'', e_to = ''wg-1'', e_type = ''parent-child'', e_project = LOCAL_PROJECT\<rparr>],
     sync_cursor = None, source_dir = None\<rparr>"


lemma family_reads:
  "f_listIssues (demo_facade_of 5) None family_db = (Inr (listIssues family_db None), family_db)"
  "f_listEdges (demo_facade_of 5) family_db = (Inr (listEdges family_db), family_db)"
  by (simp_all add: demo_facade_of_def db_facade_def)

lemma family_roll: "fst (rollUpParents (demo_facade_of 5) ''wg-1'' family_db) = Inr [''wg-2'']"
  by code_simp

lemma family_roll_pair:
  "rollUpParents (demo_facade_of 5) ''wg-1'' family_db = (Inr [''wg-2''], snd (rollUpParents (demo_facade_of 5) ''wg-1'' family_db))"
  using family_roll by (simp add: prod_eq_iff)


section \<open>No item waits without a reason\<close>

text \<open>Rows as the reducer writes them: a known status, and no empty text in a column that may be null.\<close>

definition plain_row :: "issue_row \<Rightarrow> bool" where
  "plain_row r \<longleftrightarrow> i_status r \<in> {''open'', ''in_progress'', ''closed'', ''archived''} \<and>
     i_claim_token r \<noteq> Some [] \<and> i_wedge_reason r \<noteq> Some [] \<and> i_claim_expires_at r \<noteq> Some []"

lemma plain_status: "plain_row r \<Longrightarrow> status_text (status (rowToIssue r)) = i_status r"
  by (auto simp: plain_row_def rowToIssue_def toStatus_def)

lemma plain_terminal: "plain_row r \<Longrightarrow> isTerminalIssue (rowToIssue r) \<longleftrightarrow> i_status r \<in> {''closed'', ''archived''}"
  by (auto simp: plain_row_def rowToIssue_def toStatus_def isTerminalIssue_def)

lemma issue_of_row:
  assumes "distinct (map i_id (wg_issues d))" and "r \<in> set (wg_issues d)"
  shows "issue_by_id (listIssues d None) (i_id r) = Some (rowToIssue r)"
proof -
  have "distinct (map fst (rev (map (\<lambda>x. (id_of x, x)) (listIssues d None))))"
    using assms(1) by (simp add: listIssues_def rev_map[symmetric] comp_def rowToIssue_def distinct_map)
  moreover have "(i_id r, rowToIssue r) \<in> set (rev (map (\<lambda>x. (id_of x, x)) (listIssues d None)))"
    using assms(2) by (force simp: listIssues_def rowToIssue_def)
  ultimately show ?thesis unfolding issue_by_id_def by (simp add: map_of_eq_Some_iff)
qed

lemma open_row_ready:
  assumes "distinct (map i_id (wg_issues d))" and "\<forall>r\<in>set (wg_issues d). plain_row r" and "r \<in> set (wg_issues d)"
    and "status (rowToIssue r) = Open" and "wedgeReason (rowToIssue r) = None" and "\<not> hasLiveClaim (rowToIssue r) (iso E now)"
    and "blockers_of (listIssues d None) (listEdges d) (i_id r) = []"
  shows "ready_row E now d r"
proof -
  have "i_status r = ''open''" using assms(2,3,4) plain_status[of r] by auto
  moreover have "i_wedge_reason r = None" using assms(2,3,5) by (auto simp: plain_row_def rowToIssue_def optStr_def split: option.splits if_splits)
  moreover have "i_claim_token r = None \<or> text_le (i_claim_expires_at r) (iso E now)"
    using assms(2,3,6) by (fastforce simp: plain_row_def rowToIssue_def optStr_def hasLiveClaim_def text_le_def split: option.splits if_splits)
  moreover have "\<not> blocked d (i_id r)"
  proof
    assume "blocked d (i_id r)"
    then obtain e x where e: "e \<in> set (wg_edges d)" "e_to e = i_id r" "e_type e = ''blocks''"
      and x: "x \<in> set (wg_issues d)" "i_id x = e_from e" "i_status x \<notin> {''closed'', ''archived''}"
      by (auto simp: blocked_def list_ex_iff)
    then have "issue_by_id (listIssues d None) (e_from e) = Some (rowToIssue x)" "\<not> isTerminalIssue (rowToIssue x)"
      using issue_of_row[OF assms(1) x(1)] plain_terminal assms(2) by auto
    moreover have "(e_from e, i_id r, ''blocks'') \<in> set (listEdges d)" using e by (force simp: listEdges_def)
    ultimately have "e_from e \<in> set (blockers_of (listIssues d None) (listEdges d) (i_id r))" by (force simp: blockers_of_def)
    then show False using assms(7) by simp
  qed
  ultimately show ?thesis by (simp add: ready_row_def)
qed



section \<open>What tidying touches\<close>

text \<open>Reads leave the issues alone, and a write to one issue leaves the others alone; \<open>look\<close> is the issue as stored.\<close>

locale issue_frame =
  fixes wg :: "'w facade" and look :: "string \<Rightarrow> 'w \<Rightarrow> Issue option"
  assumes list_frame: "f_listIssues wg st w = (r1, w1) \<Longrightarrow> look j w1 = look j w"
    and edges_frame: "f_listEdges wg w = (r2, w1) \<Longrightarrow> look j w1 = look j w"
    and archive_frame: "f_archiveIssue wg i reason w = (r3, w1) \<Longrightarrow> j \<noteq> i \<Longrightarrow> look j w1 = look j w"
    and close_frame: "f_closeIssue wg i w = (r3, w1) \<Longrightarrow> j \<noteq> i \<Longrightarrow> look j w1 = look j w"
begin

lemma archive_all_frame:
  "each_do (\<lambda>x. f_archiveIssue wg (id_of x) reason) xs w = (res, w1) \<Longrightarrow> j \<notin> id_of ` set xs \<Longrightarrow> look j w1 = look j w"
proof (induction xs arbitrary: w)
  case (Cons x xs)
  obtain r w2 where r: "f_archiveIssue wg (id_of x) reason w = (r, w2)" by (cases "f_archiveIssue wg (id_of x) reason w")
  then have "look j w2 = look j w" using archive_frame Cons by auto
  then show ?case using Cons r by (cases r) (auto simp: then_do_def)
qed (simp add: answer_def)

lemma reap_frame:
  assumes "f_listIssues wg None w = (Inr issues, w1)" and "f_listEdges wg w1 = (Inr edges, w2)"
    and "reapOrphans wg w = (res, w3)" and "j \<notin> id_of ` set (orphans_of issues edges)"
  shows "look j w3 = look j w"
proof -
  obtain r where "each_do (\<lambda>x. f_archiveIssue wg (id_of x) REAP_REASON) (orphans_of issues edges) w2 = (r, w3)"
    using assms(1-3) by (auto simp: reapOrphans_def then_do_def Let_def answer_def split: prod.splits sum.splits)
  then show ?thesis using archive_all_frame assms(4) list_frame[OF assms(1)] edges_frame[OF assms(2)] by metis
qed

lemma roll_walk_frame:
  "roll_walk n wg E ag (closed_in B cl) cl w = Some (res, w1) \<Longrightarrow> roll_inv B E start ag cl \<Longrightarrow> \<not> rolled B E start j \<Longrightarrow> look j w1 = look j w"
proof (induction n arbitrary: ag cl w)
  case (Suc n)
  show ?case
  proof (cases ag)
    case (Cons p rest)
    show ?thesis
    proof (cases "rolls_up (closed_in B cl) E p")
      case True
      obtain r w2 where r: "f_closeIssue wg p w = (r, w2)" by (cases "f_closeIssue wg p w")
      have inv: "roll_inv B E start (parentsOf E p @ rest) (cl @ [p])" using Suc(3) Cons True roll_inv_close by blast
      then have "rolled B E start p" by (simp add: roll_inv_def)
      then have same: "look j w2 = look j w" using close_frame[OF r] Suc(4) by metis
      show ?thesis
      proof (cases r)
        case (Inr u)
        then have "roll_walk n wg E (parentsOf E p @ rest) (closed_in B (cl @ [p])) (cl @ [p]) w2 = Some (res, w1)"
          using Suc(2) Cons True r by (simp add: closed_in_snoc del: fun_upd_apply)
        then show ?thesis using Suc(1)[OF _ inv Suc(4)] same by metis
      qed (use Suc(2) Cons True r same in simp)
    next
      case False
      then show ?thesis using Suc Cons roll_inv_skip by auto
    qed
  qed (use Suc in simp)
qed simp

lemma roll_up_frame:
  assumes "f_listIssues wg None w = (Inr issues, w1)" and "f_listEdges wg w1 = (Inr edges, w2)"
    and "rollUpParents wg child w = (res, w3)" and "\<not> rolled (issue_by_id issues) edges child j"
  shows "look j w3 = look j w"
proof -
  have "look j w3 = look j w2"
  proof (cases "roll_walk (roll_fuel issues edges) wg edges (parentsOf edges child) (issue_by_id issues) [] w2")
    case (Some r)
    have "roll_inv (issue_by_id issues) edges child (parentsOf edges child) []" by (auto simp: roll_inv_def)
    then show ?thesis
      using roll_walk_frame[of _ edges "parentsOf edges child" "issue_by_id issues" "[]" w2 res w3 child j] Some assms
      by (simp add: rollUpParents_def then_do_def closed_in_Nil)
  qed (use assms in \<open>simp add: rollUpParents_def then_do_def\<close>)
  then show ?thesis using list_frame[OF assms(1)] edges_frame[OF assms(2)] by metis
qed

end

subsection \<open>The store keeps the frame\<close>

lemma told_state: "told f r = (x, d) \<Longrightarrow> \<exists>y. r = (y, d)"
  by (cases r) (auto simp: told_def)

lemma append_frame:
  assumes "calm sc" and "appendOp E sc actor now (\<lambda>_. i) ty payload d = (res, d')" and "ty \<noteq> issue_created" and "j \<noteq> i"
  shows "getIssue d' j = getIssue d j"
proof -
  have "getIssue (applyOp E (candidate_op E actor (\<lambda>_. i) ty payload (iso E now) l) d) j = getIssue d j" for l
  proof (cases "find_row d j")
    case (Some z)
    then have "step_row (candidate_op E actor (\<lambda>_. i) ty payload (iso E now) l) z = z"
      using assms(4) find_row_id[OF Some] by (intro other_row) (simp add: candidate_op_def)
    then show ?thesis using Some assms(3) by (cases ty) (simp_all add: getIssue_def find_row_applyOp)
  next
    case None
    then show ?thesis using assms(3) by (cases ty) (simp_all add: getIssue_def find_row_applyOp)
  qed
  then show ?thesis using appendOp_issues[OF assms(1,2)] getIssue_cong by metis
qed

interpretation db_frame: issue_frame "db_facade E sc c now nonce" "\<lambda>i d. getIssue d i" for E sc c now nonce
proof unfold_locales
  fix i reason w r3 w1 j
  assume "f_archiveIssue (db_facade E sc c now nonce) i reason w = (r3, w1)" and ne: "j \<noteq> i"
  then obtain y where "archiveIssue E (calmed sc) (c_actor c) now i (Some reason) w = (y, w1)"
    by (auto simp: db_facade_def dest: told_state)
  then consider "w1 = w" | r p where "appendOp E (calmed sc) (c_actor c) now (\<lambda>_. i) issue_archived p w = (r, w1)"
    by (auto simp: archiveIssue_def append_existing_def split: prod.splits sum.splits option.splits if_splits)
  then show "getIssue w1 j = getIssue w j" using append_frame[OF calm_calmed] ne by cases auto
next
  fix i w r3 w1 j
  assume "f_closeIssue (db_facade E sc c now nonce) i w = (r3, w1)" and ne: "j \<noteq> i"
  then obtain y where "updateIssue E (calmed sc) (c_actor c) now True i \<lparr>p_status = Some Closed, p_title = None, p_body = None\<rparr> w = (y, w1)"
    by (auto simp: db_facade_def dest: told_state)
  then consider "w1 = w" | r p where "appendOp E (calmed sc) (c_actor c) now (\<lambda>_. i) issue_set p w = (r, w1)"
    by (auto simp: updateIssue_def split: prod.splits sum.splits option.splits if_splits)
  then show "getIssue w1 j = getIssue w j" using append_frame[OF calm_calmed] ne by cases auto
qed (auto simp: db_facade_def)

text \<open>On the work-graph store the reaper, even when it fails half way, leaves every issue as it is that is not an
  orphan: open, with a source line in its body, and without a parent.\<close>

theorem reaper_spares_the_rest:
  assumes "reapOrphans (db_facade E sc c now nonce) d = (res, d1)" and "j \<notin> id_of ` set (orphans_of (listIssues d None) (listEdges d))"
  shows "getIssue d1 j = getIssue d j"
  by (rule db_frame.reap_frame[OF _ _ assms]) (simp_all add: db_facade_def)

lemma family_reap: "fst (reapOrphans (demo_facade_of 5) family_db) = Inr [''wg-3'']"
  by code_simp

text \<open>An orphan that the loop has parked and asked a human about is reaped all the same.\<close>

lemma parked_stub_reaped:
  "fst (reapOrphans (demo_facade_of 5) (family_db\<lparr>wg_issues := [demo_row ''wg-3'' ''open'' (''sourceElementId: x'')\<lparr>i_wedge_reason := Some ''SCOPE_FORK''\<rparr>]\<rparr>)) =
   Inr [''wg-3'']"
  by code_simp

lemma family_reap_pair:
  "reapOrphans (demo_facade_of 5) family_db = (Inr [''wg-3''], snd (reapOrphans (demo_facade_of 5) family_db))"
  using family_reap by (simp add: prod_eq_iff)

theorem reaper_spares_the_rest_witness:
  "fst (reapOrphans (demo_facade_of 5) family_db) = Inr [''wg-3''] \<and>
   getIssue (snd (reapOrphans (demo_facade_of 5) family_db)) ''wg-4'' = getIssue family_db ''wg-4''"
proof -
  have "''wg-4'' \<notin> id_of ` set (orphans_of (listIssues family_db None) (listEdges family_db))" by code_simp
  then have "getIssue (snd (reapOrphans (demo_facade_of 5) family_db)) ''wg-4'' = getIssue family_db ''wg-4''"
    by (rule reaper_spares_the_rest[OF family_reap_pair[unfolded demo_facade_of_def], folded demo_facade_of_def])
  then show ?thesis using family_reap by simp
qed

text \<open>On the work-graph store the roll-up, even when it fails half way, changes no issue outside the least set of parents
  that the closed child brings down.\<close>

theorem roll_up_spares_the_rest:
  assumes "rollUpParents (db_facade E sc c now nonce) child d = (res, d1)"
    and "\<not> rolled (issue_by_id (listIssues d None)) (listEdges d) child j"
  shows "getIssue d1 j = getIssue d j"
  by (rule db_frame.roll_up_frame[OF _ _ assms]) (simp_all add: db_facade_def)

theorem roll_up_spares_the_rest_witness:
  "getIssue (snd (rollUpParents (demo_facade_of 5) ''wg-1'' family_db)) ''wg-4'' = getIssue family_db ''wg-4''"
proof -
  have eq: "{p. rolled (issue_by_id (listIssues family_db None)) (listEdges family_db) ''wg-1'' p} = {''wg-2''}"
    using roll_up_answer[OF family_reads family_roll_pair] by simp
  have "''wg-4'' \<notin> {p. rolled (issue_by_id (listIssues family_db None)) (listEdges family_db) ''wg-1'' p}" unfolding eq by simp
  then have "\<not> rolled (issue_by_id (listIssues family_db None)) (listEdges family_db) ''wg-1'' ''wg-4''" unfolding mem_Collect_eq .
  then show ?thesis
    by (rule roll_up_spares_the_rest[OF family_roll_pair[unfolded demo_facade_of_def], folded demo_facade_of_def])
qed

end
