(* ===== verification/RalphLoop.thy ===== *)
theory RalphLoop
  imports Board Laps
begin

text \<open>
  The autonomous loop (\<open>src/src/runtime/ralph/orchestrator.ts\<close>): claim the oldest ready item, drive it through
  the stages of the pack by supervised laps, close it when a durable commit is there (\<open>consistency_gate.ts\<close>),
  park and escalate it otherwise (\<open>escalate_lap.ts\<close>), until the board is empty.

  Everything the loop is given (the work graph, laps, git, the stage checkpoints of the pack, the transport of
  escalations) is an action on a world that answers or throws, and may change the world in any way; what other
  processes and the timer of claim renewals do meanwhile is part of these actions. The calls that matter are
  recorded in the order they are made. Narration and reports on the terminal are left out.
\<close>

section \<open>What the loop is given\<close>

record 'w git_seam =
  g_tip :: "string option \<Rightarrow> ('w, string) act"
  g_committedSince :: "string \<Rightarrow> string option \<Rightarrow> ('w, string list) act"
  g_uncommittedPaths :: "('w, string list) act"

definition MAX_COMMIT_REDRIVES :: nat where
  "MAX_COMMIT_REDRIVES = 2"

definition durableItemCommitExists :: "'w git_seam \<Rightarrow> string \<Rightarrow> string option \<Rightarrow> ('w, bool) act" where
  "durableItemCommitExists git baseSha target =
     then_do (g_tip git target) (\<lambda>tip. then_do (g_committedSince git baseSha target) (\<lambda>committed.
       if tip = baseSha \<or> committed = [] then answer False
       else then_do (g_uncommittedPaths git) (\<lambda>dirty. answer (list_all (\<lambda>p. p \<notin> set dirty) committed))))"

record 'w stage_ops =
  sl_initialStage :: string
  sl_isAutomated :: "string \<Rightarrow> bool"
  sl_isTerminal :: "string \<Rightarrow> bool"
  sl_stagePrompt :: "Issue \<Rightarrow> string \<Rightarrow> ('w, string) act"
  sl_completedStage :: "Issue \<Rightarrow> string \<Rightarrow> ('w, string option) act"
  sl_readStage :: "string \<Rightarrow> ('w, string option) act"
  sl_readAttemptStage :: "string \<Rightarrow> string \<Rightarrow> ('w, string) act"
  sl_clearStage :: "string \<Rightarrow> ('w, unit) act"
  sl_admissionGate :: "Issue \<Rightarrow> ('w, bool) act"
  sl_reconcileStage :: "string \<Rightarrow> string \<Rightarrow> ('w, unit) act"

datatype authMode = Api | Subscription

record metric_row =
  m_runId :: string
  m_itemId :: string
  m_stage :: string
  m_harness :: string
  m_authMode :: authMode
  m_startedAtMs :: int
  m_endedAtMs :: int
  m_usage :: LapUsage

record RalphConfig =
  cf_authMode :: authMode
  cf_maxBudgetUsd :: rat
  cf_maxRetries :: nat
  cf_harness :: string
  cf_runId :: string

text \<open>Hooks whose failure is swallowed only change the world. A target is the configured integration branch.\<close>

record 'w RalphDeps =
  d_wg :: "'w facade"
  d_runLap :: "Issue \<Rightarrow> (string \<times> string) option \<Rightarrow> 'w \<Rightarrow> LapResult option \<times> 'w"
  d_escalate :: "HumanRequiredReason \<Rightarrow> string option \<Rightarrow> ('w, bool) act"
  d_onShipped :: "string \<Rightarrow> 'w \<Rightarrow> 'w"
  d_loopPassReconcile :: "'w \<Rightarrow> 'w"
  d_recordMetric :: "metric_row \<Rightarrow> 'w \<Rightarrow> 'w"
  d_emitWedged :: "string \<Rightarrow> 'w \<Rightarrow> 'w"
  d_now :: "'w \<Rightarrow> int"
  d_nowIso :: "'w \<Rightarrow> string"
  d_stageLoop :: "'w stage_ops option"
  d_git :: "'w git_seam option"
  d_target :: "string option"
  d_baseRefresh :: "('w, bool) act option"
  d_collectLoopState :: "('w, LoopStateItem list) act"
  d_emitClosed :: "string \<Rightarrow> 'w \<Rightarrow> 'w"

definition MAX_STAGE_RETRIES :: nat where
  "MAX_STAGE_RETRIES = 10"

definition RESOURCE_PAUSES :: "HumanRequiredReason list" where
  "RESOURCE_PAUSES = [BUDGET, RATE_BUDGET, PROCESS_PAUSED, CANCELLED_BY_HUMAN, BOARD_WAITING, BOARD_EMPTY]"

definition isResourcePause :: "HumanRequiredReason \<Rightarrow> bool" where
  "isResourcePause r \<longleftrightarrow> r \<in> set RESOURCE_PAUSES"

section \<open>A loop that may not end\<close>

partial_function (option) loop_until :: "('s \<Rightarrow> ('s + 'r) option) \<Rightarrow> 's \<Rightarrow> 'r option" where
  "loop_until f s = (case f s of None \<Rightarrow> None | Some (Inr r) \<Rightarrow> Some r | Some (Inl s1) \<Rightarrow> loop_until f s1)"

declare loop_until.simps [code]

inductive passes :: "('s \<Rightarrow> ('s + 'r) option) \<Rightarrow> 's \<Rightarrow> 's \<Rightarrow> bool" for f where
  start: "passes f s s"
| again: "passes f s s1 \<Longrightarrow> f s1 = Some (Inl s2) \<Longrightarrow> passes f s s2"

section \<open>The stages of one item\<close>

datatype stage_event = SE_evidence string string | SE_lap string LapResult | SE_receipt string string | SE_reconcile string

record stage_state =
  st_stage :: string
  st_cost :: rat
  st_same :: nat
  st_usage :: LapUsage
  st_started :: int
  st_events :: "stage_event list"

definition lap_result :: "LapOutcome \<Rightarrow> rat \<Rightarrow> LapResult" where
  "lap_result k cost = \<lparr>l_outcome = k, l_costUsd = cost, l_inputTokens = 0, l_outputTokens = 0, l_attemptId = None\<rparr>"

definition flushStage :: "'w RalphDeps \<Rightarrow> RalphConfig \<Rightarrow> Issue \<Rightarrow> stage_state \<Rightarrow> 'w \<Rightarrow> 'w" where
  "flushStage deps cfg item st w = d_recordMetric deps
     \<lparr>m_runId = cf_runId cfg, m_itemId = id_of item, m_stage = st_stage st, m_harness = cf_harness cfg, m_authMode = cf_authMode cfg,
      m_startedAtMs = st_started st, m_endedAtMs = d_now deps w, m_usage = st_usage st\<rparr> w"

definition advanced :: "'w RalphDeps \<Rightarrow> string \<Rightarrow> 'w \<Rightarrow> stage_state \<Rightarrow> stage_state" where
  "advanced deps stage w st = st\<lparr>st_stage := stage, st_same := 0, st_usage := no_usage, st_started := d_now deps w,
     st_events := st_events st @ [SE_reconcile stage]\<rparr>"

definition after_lap :: "string \<Rightarrow> LapResult \<Rightarrow> stage_state \<Rightarrow> stage_state" where
  "after_lap stage res st = st\<lparr>st_cost := st_cost st + l_costUsd res, st_usage := add_usage (Some res) (st_usage st),
     st_events := st_events st @ [SE_lap stage res]\<rparr>"

type_synonym 'w stage_end = "(string + LapResult) \<times> stage_state \<times> 'w"

text \<open>One turn: go on, or end with the result or the throw.\<close>

definition judge_lap :: "'w RalphDeps \<Rightarrow> RalphConfig \<Rightarrow> 'w stage_ops \<Rightarrow> Issue \<Rightarrow> LapResult \<Rightarrow> stage_state \<Rightarrow> 'w \<Rightarrow>
    ((stage_state \<times> 'w) + 'w stage_end) option" where
  "judge_lap deps cfg sl item res st w =
     (if l_outcome res \<noteq> Shipped then Some (Inr (Inr (res\<lparr>l_costUsd := st_cost st\<rparr>), st, flushStage deps cfg item st w))
      else (case (case l_attemptId res of None \<Rightarrow> (Inr (st_stage st), st, w)
              | Some a \<Rightarrow> (case sl_readAttemptStage sl a (id_of item) w of
                  (Inl e, w1) \<Rightarrow> (Inl e, st, w1)
                | (Inr nxt, w1) \<Rightarrow> (Inr nxt, st\<lparr>st_events := st_events st @ [SE_receipt a nxt]\<rparr>, w1))) of
          (Inl e, st1, w1) \<Rightarrow> Some (Inr (Inl e, st1, w1))
        | (Inr nxt, st1, w1) \<Rightarrow>
            if nxt = st_stage st1
            then (if Suc (st_same st1) \<ge> MAX_STAGE_RETRIES
                then Some (Inr (Inr (lap_result (Human_required UNRECOVERABLE_WEDGE None None) (st_cost st1)), st1, flushStage deps cfg item st1 w1))
                else Some (Inl (st1\<lparr>st_same := Suc (st_same st1)\<rparr>, w1)))
            else (case sl_reconcileStage sl (id_of item) nxt (flushStage deps cfg item st1 w1) of
                (Inl e, w2) \<Rightarrow> Some (Inr (Inl e, st1, w2))
              | (Inr _, w2) \<Rightarrow> Some (Inl (advanced deps nxt w2 st1, w2)))))"

definition stage_turn :: "'w RalphDeps \<Rightarrow> RalphConfig \<Rightarrow> 'w stage_ops \<Rightarrow> Issue \<Rightarrow> (stage_state \<times> 'w) \<Rightarrow> ((stage_state \<times> 'w) + 'w stage_end) option" where
  "stage_turn deps cfg sl item = (\<lambda>(st, w).
     if sl_isTerminal sl (st_stage st) then Some (Inr (Inr (lap_result Shipped (st_cost st)), st, w))
     else if \<not> sl_isAutomated sl (st_stage st) then Some (Inr (Inr (lap_result (Awaiting_input (st_stage st)) (st_cost st)), st, w))
     else (case sl_completedStage sl item (st_stage st) w of
         (Inl e, w1) \<Rightarrow> Some (Inr (Inl e, st, w1))
       | (Inr c, w1) \<Rightarrow>
           if c \<noteq> None \<and> c \<noteq> Some (st_stage st)
           then (case sl_reconcileStage sl (id_of item) (the c) (flushStage deps cfg item st w1) of
               (Inl e, w2) \<Rightarrow> Some (Inr (Inl e, st, w2))
             | (Inr _, w2) \<Rightarrow> Some (Inl (advanced deps (the c) w2 (st\<lparr>st_events := st_events st @ [SE_evidence (st_stage st) (the c)]\<rparr>), w2)))
           else (case sl_stagePrompt sl item (st_stage st) w1 of
               (Inl e, w2) \<Rightarrow> Some (Inr (Inl e, st, w2))
             | (Inr sp, w2) \<Rightarrow> (case superviseLap (cf_maxRetries cfg) (d_runLap deps item (Some (sp, st_stage st))) w2 of
                 (res, w3) \<Rightarrow> judge_lap deps cfg sl item res (after_lap (st_stage st) res st) w3))))"

definition stage_start :: "'w RalphDeps \<Rightarrow> string \<Rightarrow> 'w \<Rightarrow> stage_state" where
  "stage_start deps stage w = \<lparr>st_stage = stage, st_cost = 0, st_same = 0, st_usage = no_usage, st_started = d_now deps w, st_events = []\<rparr>"

definition runItemLaps :: "'w RalphDeps \<Rightarrow> RalphConfig \<Rightarrow> Issue \<Rightarrow> 'w \<Rightarrow> ((string + LapResult) \<times> 'w) option" where
  "runItemLaps deps cfg item w = (case d_stageLoop deps of
     None \<Rightarrow> (case superviseLap (cf_maxRetries cfg) (d_runLap deps item None) w of (res, w1) \<Rightarrow> Some (Inr res, w1))
   | Some sl \<Rightarrow> (case sl_readStage sl (id_of item) w of
       (Inl e, w1) \<Rightarrow> Some (Inl e, w1)
     | (Inr stage, w1) \<Rightarrow>
         map_option (\<lambda>(r, st, w2). (r, w2)) (loop_until (stage_turn deps cfg sl item)
           (stage_start deps (case stage of None \<Rightarrow> sl_initialStage sl | Some x \<Rightarrow> x) w1, w1))))"

section \<open>The loop over items\<close>

datatype loop_event = E_claim string | E_drive string LapResult | E_commit string bool | E_close string | E_rollup "string list"
  | E_wedge string HumanRequiredReason | E_escalate HumanRequiredReason "string option" bool | E_await string | E_reap "string list"

record 'w ralph_state =
  world :: 'w
  closed_ids :: "string list"
  parked_items :: "(string \<times> HumanRequiredReason) list"
  spent :: rat
  awaitingInputIds :: "string list"
  baseConflictSurfaced :: bool
  calls :: "loop_event list"

type_synonym ('w, 'a) ract = "('w ralph_state, 'a) act"
type_synonym ('w, 'a) oact = "'w ralph_state \<Rightarrow> ((string + 'a) \<times> 'w ralph_state) option"

definition lift :: "('w, 'a) act \<Rightarrow> ('w, 'a) ract" where
  "lift m s = (case m (world s) of (r, w) \<Rightarrow> (r, s\<lparr>world := w\<rparr>))"

definition on_world :: "('w \<Rightarrow> 'w) \<Rightarrow> 'w ralph_state \<Rightarrow> 'w ralph_state" where
  "on_world f s = s\<lparr>world := f (world s)\<rparr>"

definition called :: "loop_event \<Rightarrow> 'w ralph_state \<Rightarrow> 'w ralph_state" where
  "called e s = s\<lparr>calls := calls s @ [e]\<rparr>"

text \<open>A failure that is caught and ignored.\<close>

definition swallowed :: "('w, 'a) ract \<Rightarrow> 'w ralph_state \<Rightarrow> 'a option \<times> 'w ralph_state" where
  "swallowed m s = (case m s of (Inl e, s1) \<Rightarrow> (None, s1) | (Inr x, s1) \<Rightarrow> (Some x, s1))"

primrec reason_text :: "HumanRequiredReason \<Rightarrow> string" where
  "reason_text IRREVERSIBLE_BOUNDARY = ''IRREVERSIBLE_BOUNDARY''"
| "reason_text SCOPE_FORK = ''SCOPE_FORK''"
| "reason_text UNRECOVERABLE_WEDGE = ''UNRECOVERABLE_WEDGE''"
| "reason_text NO_DURABLE_COMMIT = ''NO_DURABLE_COMMIT''"
| "reason_text BUDGET = ''BUDGET''"
| "reason_text RATE_BUDGET = ''RATE_BUDGET''"
| "reason_text PROCESS_PAUSED = ''PROCESS_PAUSED''"
| "reason_text CANCELLED_BY_HUMAN = ''CANCELLED_BY_HUMAN''"
| "reason_text BOARD_WAITING = ''BOARD_WAITING''"
| "reason_text BOARD_EMPTY = ''BOARD_EMPTY''"

text \<open>The answer \<open>False\<close> stands for the \<open>EscalationUndeliverableError\<close>, which the caller tells from a transport that throws.\<close>

definition escalateLap :: "'w RalphDeps \<Rightarrow> HumanRequiredReason \<Rightarrow> string option \<Rightarrow> ('w, bool) ract" where
  "escalateLap deps reason item = then_do (lift (d_escalate deps reason item)) (\<lambda>escalated s. (Inr escalated, called (E_escalate reason item escalated) s))"

definition escalate_or_throw :: "'w RalphDeps \<Rightarrow> HumanRequiredReason \<Rightarrow> string option \<Rightarrow> ('w, unit) ract" where
  "escalate_or_throw deps reason item = then_do (escalateLap deps reason item) (\<lambda>escalated s.
     (if escalated \<or> isResourcePause reason then Inr () else Inl ''undeliverable'', s))"

definition parkAndEscalate :: "'w RalphDeps \<Rightarrow> HumanRequiredReason \<Rightarrow> string option \<Rightarrow> ('w, unit) ract" where
  "parkAndEscalate deps reason item = then_do
     (case item of
        None \<Rightarrow> answer ()
      | Some i \<Rightarrow> if isResourcePause reason then answer ()
          else then_do (lift (f_wedgeMark (d_wg deps) i (reason_text reason))) (\<lambda>_ s.
            (Inr (), called (E_wedge i reason) (on_world (d_emitWedged deps i) s\<lparr>parked_items := parked_items s @ [(i, reason)]\<rparr>))))
     (\<lambda>_. escalate_or_throw deps reason item)"

datatype pass_end = Go_on | Stop_run HumanRequiredReason "BoardWaitingItem list option"

definition refresh_base :: "'w RalphDeps \<Rightarrow> 'w ralph_state \<Rightarrow> 'w ralph_state" where
  "refresh_base deps s = (case d_baseRefresh deps of
     None \<Rightarrow> s
   | Some refresh \<Rightarrow> if baseConflictSurfaced s then s
       else (case swallowed (lift refresh) s of
           (Some True, s1) \<Rightarrow> snd (parkAndEscalate deps SCOPE_FORK None (s1\<lparr>baseConflictSurfaced := True\<rparr>))
         | (_, s1) \<Rightarrow> s1))"

fun pick_item :: "'w RalphDeps \<Rightarrow> string list \<Rightarrow> Issue list \<Rightarrow> ('w, Issue option \<times> string list) ract" where
  "pick_item deps held [] s = (Inr (None, held), s)"
| "pick_item deps held (cand # ready) s =
     (if id_of cand \<in> set (awaitingInputIds s) then pick_item deps (held @ [id_of cand]) ready s
      else (case d_stageLoop deps of
          None \<Rightarrow> (Inr (Some cand, held), s)
        | Some sl \<Rightarrow> (case lift (sl_admissionGate sl cand) s of
            (Inl e, s1) \<Rightarrow> (Inl e, s1)
          | (Inr admitted, s1) \<Rightarrow> if admitted then (Inr (Some cand, held), s1) else pick_item deps (held @ [id_of cand]) ready s1)))"

definition board_done :: "'w RalphDeps \<Rightarrow> string list \<Rightarrow> ('w, pass_end) ract" where
  "board_done deps held s = (case swallowed (lift (reapOrphans (d_wg deps))) (on_world (d_loopPassReconcile deps) s) of
     (Some (i # is), s1) \<Rightarrow> (Inr Go_on, called (E_reap (i # is)) s1)
   | (_, s1) \<Rightarrow> (case swallowed (lift (inspectBoardAvailability (d_wg deps) held (d_nowIso deps (world s1)))) s1 of
       (Some Board_empty, s2) \<Rightarrow> then_do (parkAndEscalate deps BOARD_EMPTY None) (\<lambda>_. answer (Stop_run BOARD_EMPTY None)) s2
     | (a, s2) \<Rightarrow> then_do (parkAndEscalate deps BOARD_WAITING None) (\<lambda>_. answer (Stop_run BOARD_WAITING
         (Some (case a of Some (Board_waiting ws) \<Rightarrow> ws | _ \<Rightarrow> [])))) s2))"

definition driveClaimedItem :: "'w RalphDeps \<Rightarrow> RalphConfig \<Rightarrow> Issue \<Rightarrow> ('w, LapResult) oact" where
  "driveClaimedItem deps cfg item s = (case lift (f_getIssue (d_wg deps) (id_of item)) s of
     (Inl e, s1) \<Rightarrow> Some (Inl e, s1)
   | (Inr _, s1) \<Rightarrow> (case runItemLaps deps cfg item (world s1) of
       None \<Rightarrow> None
     | Some (Inl e, w) \<Rightarrow> Some (Inl e, s1\<lparr>world := w\<rparr>)
     | Some (Inr res, w) \<Rightarrow> Some (Inr res, called (E_drive (id_of item) res) (s1\<lparr>world := w, spent := spent s1 + l_costUsd res\<rparr>))))"

text \<open>The consistency gate with so many drives left: the outcome to settle, or nothing when the item was parked.\<close>

fun commit_gate :: "nat \<Rightarrow> 'w RalphDeps \<Rightarrow> RalphConfig \<Rightarrow> Issue \<Rightarrow> 'w git_seam \<Rightarrow> string \<Rightarrow> LapResult \<Rightarrow> ('w, LapResult option) oact" where
  "commit_gate left deps cfg item git baseSha outcome s =
     (case lift (durableItemCommitExists git baseSha (d_target deps)) s of
        (Inl e, s1) \<Rightarrow> Some (Inl e, s1)
      | (Inr True, s1) \<Rightarrow> Some (Inr (Some outcome), called (E_commit (id_of item) True) s1)
      | (Inr False, s1) \<Rightarrow> (case left of
          0 \<Rightarrow> Some (then_do (parkAndEscalate deps NO_DURABLE_COMMIT (Some (id_of item))) (\<lambda>_. answer None) (called (E_commit (id_of item) False) s1))
        | Suc n \<Rightarrow> (case driveClaimedItem deps cfg item (called (E_commit (id_of item) False) s1) of
            None \<Rightarrow> None
          | Some (Inl e, s2) \<Rightarrow> Some (Inl e, s2)
          | Some (Inr re, s2) \<Rightarrow> if l_outcome re \<noteq> Shipped then Some (Inr (Some re), s2)
              else commit_gate n deps cfg item git baseSha outcome s2)))"

definition budget_check :: "'w RalphDeps \<Rightarrow> RalphConfig \<Rightarrow> ('w, pass_end) ract" where
  "budget_check deps cfg s = (if cf_authMode cfg = Api \<and> spent s > cf_maxBudgetUsd cfg
     then then_do (parkAndEscalate deps BUDGET None) (\<lambda>_. answer (Stop_run BUDGET None)) s else (Inr Go_on, s))"

definition close_item :: "'w RalphDeps \<Rightarrow> Issue \<Rightarrow> ('w, unit) ract" where
  "close_item deps item =
     then_do (lift (f_closeIssue (d_wg deps) (id_of item))) (\<lambda>_ s.
       then_do (case d_stageLoop deps of None \<Rightarrow> answer () | Some sl \<Rightarrow> lift (sl_clearStage sl (id_of item))) (\<lambda>_ s.
         (case swallowed (lift (rollUpParents (d_wg deps) (id_of item))) (s\<lparr>closed_ids := closed_ids s @ [id_of item]\<rparr>) of
            (rolled_ids, s1) \<Rightarrow> (let ps = (case rolled_ids of None \<Rightarrow> [] | Some ps \<Rightarrow> ps) in
              (Inr (), on_world (d_onShipped deps (id_of item)) (called (E_rollup ps) (s1\<lparr>closed_ids := closed_ids s1 @ ps\<rparr>))))))
       (called (E_close (id_of item)) s))"

definition await_input :: "'w RalphDeps \<Rightarrow> Issue \<Rightarrow> ('w, unit) ract" where
  "await_input deps item s =
     then_do (lift (f_getIssue (d_wg deps) (id_of item))) (\<lambda>cur. lift (f_releaseClaim (d_wg deps) (id_of item)
       (case cur of None \<Rightarrow> None | Some c \<Rightarrow> claimToken c)))
     (called (E_await (id_of item)) (s\<lparr>awaitingInputIds := awaitingInputIds s @ [id_of item]\<rparr>))"

definition park_reason :: "LapOutcome \<Rightarrow> HumanRequiredReason" where
  "park_reason k = (case k of Human_required r i p \<Rightarrow> r | _ \<Rightarrow> UNRECOVERABLE_WEDGE)"

definition settle_item :: "'w RalphDeps \<Rightarrow> RalphConfig \<Rightarrow> Issue \<Rightarrow> LapResult \<Rightarrow> ('w, pass_end) ract" where
  "settle_item deps cfg item outcome = (case l_outcome outcome of
     Awaiting_input stage \<Rightarrow> then_do (await_input deps item) (\<lambda>_. answer Go_on)
   | Shipped \<Rightarrow> then_do (close_item deps item) (\<lambda>_. budget_check deps cfg)
   | k \<Rightarrow> then_do (parkAndEscalate deps (park_reason k) (Some (id_of item))) (\<lambda>_.
       if isResourcePause (park_reason k) then answer (Stop_run (park_reason k) None) else budget_check deps cfg))"

definition work_item :: "'w RalphDeps \<Rightarrow> RalphConfig \<Rightarrow> Issue \<Rightarrow> ('w, pass_end) oact" where
  "work_item deps cfg item s = (case (case d_git deps of None \<Rightarrow> answer None | Some git \<Rightarrow> then_do (lift (g_tip git (d_target deps))) (\<lambda>t. answer (Some t))) s of
     (Inl e, s1) \<Rightarrow> Some (Inl e, s1)
   | (Inr baseSha, s1) \<Rightarrow> (case driveClaimedItem deps cfg item s1 of
       None \<Rightarrow> None
     | Some (Inl e, s2) \<Rightarrow> Some (Inl e, s2)
     | Some (Inr outcome, s2) \<Rightarrow> (case (d_git deps, baseSha) of
         (Some git, Some sha) \<Rightarrow> if l_outcome outcome = Shipped
           then (case commit_gate MAX_COMMIT_REDRIVES deps cfg item git sha outcome s2 of
               None \<Rightarrow> None
             | Some (Inl e, s3) \<Rightarrow> Some (Inl e, s3)
             | Some (Inr None, s3) \<Rightarrow> Some (Inr Go_on, s3)
             | Some (Inr (Some out), s3) \<Rightarrow> Some (settle_item deps cfg item out s3))
           else Some (settle_item deps cfg item outcome s2)
       | _ \<Rightarrow> Some (settle_item deps cfg item outcome s2))))"

definition ralph_pass :: "'w RalphDeps \<Rightarrow> RalphConfig \<Rightarrow> ('w, pass_end) oact" where
  "ralph_pass deps cfg s0 =
     (case then_do (lift (f_listReady (d_wg deps))) (\<lambda>ready. pick_item deps [] ready) (refresh_base deps s0) of
        (Inl e, s) \<Rightarrow> Some (Inl e, s)
      | (Inr (None, held), s) \<Rightarrow> Some (board_done deps held s)
      | (Inr (Some item, held), s) \<Rightarrow> (case lift (f_claimIssue (d_wg deps) (id_of item)) s of
          (Inl e, s1) \<Rightarrow> Some (Inl e, s1)
        | (Inr False, s1) \<Rightarrow> Some (Inr Go_on, s1)
        | (Inr True, s1) \<Rightarrow> work_item deps cfg item (called (E_claim (id_of item)) s1)))"

datatype run_end = Stopped HumanRequiredReason "BoardWaitingItem list option" | Raised string

definition ralph_turn :: "'w RalphDeps \<Rightarrow> RalphConfig \<Rightarrow> 'w ralph_state \<Rightarrow> ('w ralph_state + run_end \<times> 'w ralph_state) option" where
  "ralph_turn deps cfg s = (case ralph_pass deps cfg s of
     None \<Rightarrow> None
   | Some (Inl e, s1) \<Rightarrow> Some (Inr (Raised e, s1))
   | Some (Inr Go_on, s1) \<Rightarrow> Some (Inl s1)
   | Some (Inr (Stop_run r ws), s1) \<Rightarrow> Some (Inr (Stopped r ws, s1)))"

definition ralph_start :: "'w RalphDeps \<Rightarrow> 'w \<Rightarrow> 'w ralph_state" where
  "ralph_start deps w = snd (swallowed (lift (f_listReady (d_wg deps))) (snd (swallowed (lift (sweepTerminalBacklog (d_wg deps) (d_collectLoopState deps) (d_emitClosed deps)))
     \<lparr>world = w, closed_ids = [], parked_items = [], spent = 0, awaitingInputIds = [], baseConflictSurfaced = False, calls = []\<rparr>)))"

definition runRalphLoop :: "'w RalphDeps \<Rightarrow> RalphConfig \<Rightarrow> 'w \<Rightarrow> (run_end \<times> 'w ralph_state) option" where
  "runRalphLoop deps cfg w = loop_until (ralph_turn deps cfg) (ralph_start deps w)"

text \<open>The human's override of a parked item; the record of the misclassification is an action.\<close>

definition resolveParked :: "'w facade \<Rightarrow> (string \<Rightarrow> ('w, unit) act) \<Rightarrow> string \<Rightarrow> ('w, unit) act" where
  "resolveParked wg recordMisclassification itemId =
     then_do (f_getIssue wg itemId) (\<lambda>item. case item of
        None \<Rightarrow> (\<lambda>w. (Inl ''not a parked item'', w))
      | Some i \<Rightarrow> if wedgeReason i = None then (\<lambda>w. (Inl ''not a parked item'', w))
          else then_do (recordMisclassification (title i)) (\<lambda>_. then_do (f_clearWedge wg itemId) (\<lambda>_. f_releaseClaim wg itemId None)))"


section \<open>Loops and their passes\<close>

lemma passes_first: "passes f s1 s2 \<Longrightarrow> f s = Some (Inl s1) \<Longrightarrow> passes f s s2"
  by (induction rule: passes.induct) (auto intro: passes.intros)

lemma loop_until_ends:
  assumes "loop_until f s = Some r"
  shows "\<exists>s1. passes f s s1 \<and> f s1 = Some (Inr r)"
proof (rule loop_until.raw_induct[where P = "\<lambda>f s r. \<exists>s1. passes f s s1 \<and> f s1 = Some (Inr r)", OF _ assms])
  fix loop f s r
  assume IH: "\<And>f s r. loop f s = Some r \<Longrightarrow> \<exists>s1. passes f s s1 \<and> f s1 = Some (Inr r)"
    and "(case f s of None \<Rightarrow> None | Some (Inl s1) \<Rightarrow> loop f s1 | Some (Inr r) \<Rightarrow> Some r) = Some r"
  then consider "f s = Some (Inr r)" | s1 where "f s = Some (Inl s1)" "loop f s1 = Some r"
    by (auto split: option.splits sum.splits)
  then show "\<exists>s1. passes f s s1 \<and> f s1 = Some (Inr r)"
    by cases (auto intro: passes.start passes_first dest!: IH)
qed

lemma passes_inv:
  assumes "passes f s s1" and "I s" and "\<And>s s1. I s \<Longrightarrow> f s = Some (Inl s1) \<Longrightarrow> I s1"
  shows "I s1"
  using assms(1,2) by induction (auto intro: assms(3))

section \<open>The record of calls\<close>

definition traced :: "('e list \<Rightarrow> 'e \<Rightarrow> bool) \<Rightarrow> 'e list \<Rightarrow> bool" where
  "traced R l \<longleftrightarrow> (\<forall>pre e post. l = pre @ e # post \<longrightarrow> R pre e)"

lemma traced_Nil [simp]: "traced R []"
  by (simp add: traced_def)

lemma traced_snoc [simp]: "traced R (l @ [e]) \<longleftrightarrow> traced R l \<and> R l e"
proof
  assume "traced R (l @ [e])"
  then show "traced R l \<and> R l e" unfolding traced_def by auto
next
  assume t: "traced R l \<and> R l e"
  show "traced R (l @ [e])" unfolding traced_def
  proof (intro allI impI)
    fix pre x post assume "l @ [e] = pre @ x # post"
    then show "R pre x" using t by (cases post rule: rev_cases) (auto simp: traced_def)
  qed
qed

lemma traced_append: "traced R l \<Longrightarrow> (\<And>pre e. e \<in> set es \<Longrightarrow> R pre e) \<Longrightarrow> traced R (l @ es)"
proof (induction es rule: rev_induct)
  case (snoc e es)
  then have "traced R ((l @ es) @ [e])" unfolding traced_snoc by simp
  then show ?case by simp
qed simp

definition cost_of :: "loop_event list \<Rightarrow> rat" where
  "cost_of l = sum_list (map (\<lambda>e. case e of E_drive i r \<Rightarrow> l_costUsd r | _ \<Rightarrow> 0) l)"

definition wedged_of :: "loop_event list \<Rightarrow> (string \<times> HumanRequiredReason) list" where
  "wedged_of l = concat (map (\<lambda>e. case e of E_wedge i r \<Rightarrow> [(i, r)] | _ \<Rightarrow> []) l)"

definition awaits_of :: "loop_event list \<Rightarrow> string list" where
  "awaits_of l = concat (map (\<lambda>e. case e of E_await i \<Rightarrow> [i] | _ \<Rightarrow> []) l)"

definition closes_of :: "loop_event list \<Rightarrow> string list" where
  "closes_of l = concat (map (\<lambda>e. case e of E_close i \<Rightarrow> [i] | E_rollup ps \<Rightarrow> ps | _ \<Rightarrow> []) l)"

lemmas of_defs = cost_of_def wedged_of_def awaits_of_def closes_of_def

lemma of_append [simp]:
  "cost_of (l @ m) = cost_of l + cost_of m" "wedged_of (l @ m) = wedged_of l @ wedged_of m"
  "awaits_of (l @ m) = awaits_of l @ awaits_of m" "closes_of (l @ m) = closes_of l @ closes_of m"
  by (simp_all add: of_defs)

lemma of_Nil [simp]: "cost_of [] = 0" "wedged_of [] = []" "awaits_of [] = []" "closes_of [] = []"
  by (simp_all add: of_defs)

lemma of_single [simp]:
  "cost_of [e] = (case e of E_drive i r \<Rightarrow> l_costUsd r | _ \<Rightarrow> 0)" "wedged_of [e] = (case e of E_wedge i r \<Rightarrow> [(i, r)] | _ \<Rightarrow> [])"
  "awaits_of [e] = (case e of E_await i \<Rightarrow> [i] | _ \<Rightarrow> [])" "closes_of [e] = (case e of E_close i \<Rightarrow> [i] | E_rollup ps \<Rightarrow> ps | _ \<Rightarrow> [])"
  by (simp_all add: of_defs)

lemma awaits_mem: "i \<in> set (awaits_of l) \<longleftrightarrow> E_await i \<in> set l"
  by (induction l) (auto simp: awaits_of_def split: loop_event.splits)

text \<open>An item in hand has been claimed and nothing else has happened since but its drives and commit checks.\<close>

definition in_hand :: "string \<Rightarrow> loop_event list \<Rightarrow> bool" where
  "in_hand i l \<longleftrightarrow> (\<exists>a b. l = a @ E_claim i # b \<and> (\<forall>e\<in>set b. (\<exists>r. e = E_drive i r) \<or> (\<exists>x. e = E_commit i x)))"

lemma in_hand_claim [simp]: "in_hand i (l @ [E_claim i])"
  unfolding in_hand_def by (intro exI[of _ l] exI[of _ "[]"]) simp

lemma in_hand_snoc: "in_hand i l \<Longrightarrow> (\<exists>r. e = E_drive i r) \<or> (\<exists>x. e = E_commit i x) \<Longrightarrow> in_hand i (l @ [e])"
proof -
  assume "in_hand i l" and e: "(\<exists>r. e = E_drive i r) \<or> (\<exists>x. e = E_commit i x)"
  then obtain a b where "l = a @ E_claim i # b" "\<forall>e\<in>set b. (\<exists>r. e = E_drive i r) \<or> (\<exists>x. e = E_commit i x)"
    unfolding in_hand_def by blast
  then show ?thesis unfolding in_hand_def using e by (intro exI[of _ a] exI[of _ "b @ [e]"]) auto
qed

definition shipped_last :: "string \<Rightarrow> loop_event list \<Rightarrow> bool" where
  "shipped_last i l \<longleftrightarrow> (\<exists>l0 r. l = l0 @ [E_drive i r] \<and> in_hand i l0 \<and> l_outcome r = Shipped)"

lemma shipped_in_hand: "shipped_last i l \<Longrightarrow> in_hand i l"
  by (auto simp: shipped_last_def intro: in_hand_snoc)

definition earned :: "bool \<Rightarrow> string \<Rightarrow> loop_event list \<Rightarrow> bool" where
  "earned gated i l \<longleftrightarrow> (if gated then \<exists>l0. l = l0 @ [E_commit i True] \<and> shipped_last i l0 else shipped_last i l)"

text \<open>The passes that leave the loop without its budget check.\<close>

definition budget_skipped :: "loop_event list \<Rightarrow> bool" where
  "budget_skipped l \<longleftrightarrow> (\<exists>i. E_await i \<in> set l \<or> E_wedge i NO_DURABLE_COMMIT \<in> set l)"

definition in_budget :: "RalphConfig \<Rightarrow> loop_event list \<Rightarrow> bool" where
  "in_budget cfg l \<longleftrightarrow> (cf_authMode cfg = Api \<longrightarrow> cost_of l \<le> cf_maxBudgetUsd cfg \<or> budget_skipped l)"

definition call_rule :: "bool \<Rightarrow> RalphConfig \<Rightarrow> loop_event list \<Rightarrow> loop_event \<Rightarrow> bool" where
  "call_rule gated cfg l e \<longleftrightarrow> (case e of
     E_close i \<Rightarrow> earned gated i l
   | E_claim i \<Rightarrow> E_await i \<notin> set l \<and> in_budget cfg l
   | _ \<Rightarrow> True)"

text \<open>Every wedge is followed by its escalation, delivered; or every one but the very last call.\<close>

fun escalated :: "loop_event list \<Rightarrow> bool" where
  "escalated [] \<longleftrightarrow> True"
| "escalated (E_wedge i r # l) \<longleftrightarrow> (\<exists>l1. l = E_escalate r (Some i) True # l1) \<and> escalated l"
| "escalated (e # l) \<longleftrightarrow> escalated l"

definition escalated_or_last :: "loop_event list \<Rightarrow> bool" where
  "escalated_or_last l \<longleftrightarrow> (\<exists>l0 t. l = l0 @ t \<and> escalated l0 \<and>
     (t = [] \<or> (\<exists>i r. t = [E_wedge i r] \<or> t = [E_wedge i r, E_escalate r (Some i) False])))"

lemma escalated_append: "escalated l \<Longrightarrow> escalated m \<Longrightarrow> escalated (l @ m)"
  by (induction l rule: escalated.induct) auto

lemma escalated_snoc: "escalated l \<Longrightarrow> (\<And>i r. e \<noteq> E_wedge i r) \<Longrightarrow> escalated (l @ [e])"
  by (rule escalated_append) (cases e; auto)+

lemma escalated_or_last_append: "escalated l \<Longrightarrow> escalated_or_last m \<Longrightarrow> escalated_or_last (l @ m)"
proof -
  assume l: "escalated l" and "escalated_or_last m"
  then obtain l0 t where m: "m = l0 @ t" "escalated l0"
    "t = [] \<or> (\<exists>i r. t = [E_wedge i r] \<or> t = [E_wedge i r, E_escalate r (Some i) False])"
    unfolding escalated_or_last_def by blast
  show ?thesis unfolding escalated_or_last_def
    by (intro exI[of _ "l @ l0"] exI[of _ t]) (use l m in \<open>auto intro: escalated_append\<close>)
qed

lemma escalated_all: "escalated l \<Longrightarrow> escalated_or_last l"
  unfolding escalated_or_last_def by (intro exI[of _ l] exI[of _ "[]"]) simp

definition plain_call :: "loop_event \<Rightarrow> bool" where
  "plain_call e \<longleftrightarrow> (case e of E_wedge i r \<Rightarrow> True | E_escalate r i b \<Rightarrow> True | _ \<Rightarrow> False)"

lemma plain_of: "list_all plain_call es \<Longrightarrow> cost_of es = 0 \<and> awaits_of es = [] \<and> closes_of es = []"
  by (induction es) (auto simp: of_defs plain_call_def split: loop_event.splits)

lemma plain_rule: "plain_call e \<Longrightarrow> call_rule gated cfg l e"
  by (auto simp: plain_call_def call_rule_def split: loop_event.splits)

abbreviation gated :: "'w RalphDeps \<Rightarrow> bool" where
  "gated deps \<equiv> d_git deps \<noteq> None"

definition book :: "bool \<Rightarrow> RalphConfig \<Rightarrow> 'w ralph_state \<Rightarrow> bool" where
  "book g cfg s \<longleftrightarrow> traced (call_rule g cfg) (calls s) \<and> spent s = cost_of (calls s) \<and>
     parked_items s = wedged_of (calls s) \<and> awaitingInputIds s = awaits_of (calls s) \<and> escalated_or_last (calls s)"

definition settled :: "bool \<Rightarrow> RalphConfig \<Rightarrow> 'w ralph_state \<Rightarrow> bool" where
  "settled g cfg s \<longleftrightarrow> book g cfg s \<and> closed_ids s = closes_of (calls s) \<and> escalated (calls s)"

lemma settled_book: "settled g cfg s \<Longrightarrow> book g cfg s"
  by (simp add: settled_def)

lemma settled_world [simp]: "settled g cfg (s\<lparr>world := w\<rparr>) \<longleftrightarrow> settled g cfg s" "book g cfg (s\<lparr>world := w\<rparr>) \<longleftrightarrow> book g cfg s"
  by (simp_all add: settled_def book_def)

lemma called_book:
  assumes "settled g cfg s" "call_rule g cfg (calls s) e" "\<And>i r. e \<noteq> E_wedge i r"
  shows "book g cfg (called e s\<lparr>spent := spent s + cost_of [e], awaitingInputIds := awaitingInputIds s @ awaits_of [e], closed_ids := c\<rparr>)"
    and "settled g cfg (called e s\<lparr>spent := spent s + cost_of [e], awaitingInputIds := awaitingInputIds s @ awaits_of [e], closed_ids := closed_ids s @ closes_of [e]\<rparr>)"
proof -
  have "wedged_of [e] = []" using assms(3) by (cases e) auto
  moreover have "escalated (calls s @ [e])" using assms escalated_snoc by (auto simp: settled_def)
  ultimately show "book g cfg (called e s\<lparr>spent := spent s + cost_of [e], awaitingInputIds := awaitingInputIds s @ awaits_of [e], closed_ids := c\<rparr>)"
    and "settled g cfg (called e s\<lparr>spent := spent s + cost_of [e], awaitingInputIds := awaitingInputIds s @ awaits_of [e], closed_ids := closed_ids s @ closes_of [e]\<rparr>)"
    using assms(1,2) by (auto simp: settled_def book_def called_def escalated_all simp del: of_single)
qed

section \<open>Steps that change the world, park and escalate\<close>

definition mute :: "bool \<Rightarrow> 'w ralph_state \<Rightarrow> 'w ralph_state \<Rightarrow> bool" where
  "mute ok s s1 \<longleftrightarrow> (\<exists>w es b. s1 = s\<lparr>world := w, parked_items := parked_items s @ wedged_of es, baseConflictSurfaced := b, calls := calls s @ es\<rparr> \<and>
     list_all plain_call es \<and> escalated_or_last es \<and> (ok \<longrightarrow> escalated es))"

lemma muteE:
  assumes "mute ok s s1"
  obtains w es b where "s1 = s\<lparr>world := w, parked_items := parked_items s @ wedged_of es, baseConflictSurfaced := b, calls := calls s @ es\<rparr>"
    "list_all plain_call es" "escalated_or_last es" "ok \<Longrightarrow> escalated es"
  using assms by (auto simp: mute_def)

lemma muteI:
  assumes "s1 = s\<lparr>world := w, parked_items := parked_items s @ wedged_of es, baseConflictSurfaced := b, calls := calls s @ es\<rparr>"
    and "list_all plain_call es" "escalated_or_last es" "ok \<Longrightarrow> escalated es"
  shows "mute ok s s1"
  unfolding mute_def using assms by (intro exI[of _ w] exI[of _ es] exI[of _ b]) simp

lemma mute_world: "s1 = s\<lparr>world := w\<rparr> \<Longrightarrow> mute ok s s1"
  by (rule muteI[where es = "[]" and b = "baseConflictSurfaced s"]) (auto intro: escalated_all)

lemma mute_refl [simp]: "mute ok s s"
  by (rule mute_world[where w = "world s"]) simp

lemma mute_trans: "mute True s s1 \<Longrightarrow> mute b s1 s2 \<Longrightarrow> mute b s s2"
proof (elim muteE, rule muteI)
  fix w es c w2 es2 c2
  assume s1: "s1 = s\<lparr>world := w, parked_items := parked_items s @ wedged_of es, baseConflictSurfaced := c, calls := calls s @ es\<rparr>"
    and s2: "s2 = s1\<lparr>world := w2, parked_items := parked_items s1 @ wedged_of es2, baseConflictSurfaced := c2, calls := calls s1 @ es2\<rparr>"
  show "s2 = s\<lparr>world := w2, parked_items := parked_items s @ wedged_of (es @ es2), baseConflictSurfaced := c2, calls := calls s @ es @ es2\<rparr>"
    using s1 s2 by simp
qed (auto intro: escalated_append escalated_or_last_append)

lemma mute_weaken: "mute a s s1 \<Longrightarrow> (b \<Longrightarrow> a) \<Longrightarrow> mute b s s1"
  by (auto simp: mute_def)

lemma lift_mute: "lift m s = (r, s1) \<Longrightarrow> mute ok s s1"
  by (rule mute_world[where w = "world s1"]) (auto simp: lift_def split: prod.splits)

lemma swallowed_mute: "swallowed (lift m) s = (r, s1) \<Longrightarrow> mute ok s s1"
  by (auto simp: swallowed_def split: prod.splits sum.splits intro: lift_mute)

lemma on_world_mute: "mute ok s (on_world f s)"
  by (rule mute_world[where w = "f (world s)"]) (simp add: on_world_def)

lemma mute_book: "mute ok s s1 \<Longrightarrow> settled g cfg s \<Longrightarrow> book g cfg s1"
proof (elim muteE)
  fix w es c assume b: "settled g cfg s" and p: "list_all plain_call es" "escalated_or_last es"
    and s1: "s1 = s\<lparr>world := w, parked_items := parked_items s @ wedged_of es, baseConflictSurfaced := c, calls := calls s @ es\<rparr>"
  have "traced (call_rule g cfg) (calls s @ es)"
    using b p by (intro traced_append) (auto simp: settled_def book_def list_all_iff plain_rule)
  then show ?thesis using b s1 p plain_of[OF p(1)] by (auto simp: book_def settled_def intro: escalated_or_last_append)
qed

lemma mute_settled: "mute True s s1 \<Longrightarrow> settled g cfg s \<Longrightarrow> settled g cfg s1"
  using mute_book[of True s s1 g cfg] by (auto simp: settled_def mute_def plain_of escalated_append)

lemma mute_budget: "mute ok s s1 \<Longrightarrow> in_budget cfg (calls s) \<Longrightarrow> in_budget cfg (calls s1)"
  by (auto simp: mute_def in_budget_def budget_skipped_def plain_of)

lemma mute_awaits: "mute ok s s1 \<Longrightarrow> awaitingInputIds s1 = awaitingInputIds s"
  by (auto simp: mute_def)

lemma then_do_cases:
  assumes "then_do m k s = (r, s1)"
  obtains e where "m s = (Inl e, s1)" "r = Inl e" | x s0 where "m s = (Inr x, s0)" "k x s0 = (r, s1)"
  using assms by (cases "m s"; cases "fst (m s)") (auto simp: then_do_def)

lemma called_settled:
  assumes "settled g cfg s" "call_rule g cfg (calls s) e" and "e = E_claim i \<or> e = E_commit i x \<or> e = E_reap is"
  shows "settled g cfg (called e s)"
  using called_book(2)[OF assms(1,2)] assms(3) by (auto simp: called_def)

lemma escalateLap_calls:
  assumes "escalate_or_throw deps reason item s = (r, s1)"
  obtains w where "s1 = s\<lparr>world := w\<rparr>" "r \<noteq> Inr ()"
  | w ok where "s1 = s\<lparr>world := w, calls := calls s @ [E_escalate reason item ok]\<rparr>" "r = Inr () \<longleftrightarrow> ok \<or> isResourcePause reason"
proof (cases "d_escalate deps reason item (world s)")
  case (Pair x w)
  show ?thesis
  proof (cases x)
    case (Inl e)
    then show ?thesis using assms Pair that(1) by (auto simp: escalateLap_def escalate_or_throw_def then_do_def lift_def)
  next
    case (Inr ok)
    then show ?thesis using assms Pair that(2) by (auto simp: escalateLap_def escalate_or_throw_def then_do_def lift_def called_def split: if_splits)
  qed
qed

lemma escalate_mute:
  assumes "escalate_or_throw deps reason item s = (r, s1)"
  shows "mute ok s s1"
  using assms
proof (cases rule: escalateLap_calls)
  case (1 w)
  then show ?thesis by (simp add: mute_world)
next
  case (2 w ok)
  then show ?thesis
    by (intro muteI[where es = "[E_escalate reason item ok]" and b = "baseConflictSurfaced s"])
      (auto simp: plain_call_def of_defs intro: escalated_all)
qed

lemma wedge_escalated:
  assumes "mute True s s0" and s1: "s1 = s0\<lparr>world := w, parked_items := parked_items s0 @ [(i, reason)], calls := calls s0 @ [E_wedge i reason]\<rparr>"
    and e: "escalate_or_throw deps reason (Some i) s1 = (r, s2)" and n: "\<not> isResourcePause reason"
  shows "mute (r = Inr ()) s s2 \<and> E_wedge i reason \<in> set (calls s2)"
  using e
proof (cases rule: escalateLap_calls)
  case (1 w1)
  have "mute (r = Inr ()) s0 s2" using 1 s1
    by (intro muteI[where es = "[E_wedge i reason]" and b = "baseConflictSurfaced s0" and w = w1])
      (simp_all add: plain_call_def of_defs escalated_or_last_def exI[of _ "[]"])
  then show ?thesis using mute_trans[OF assms(1)] 1 s1 by simp
next
  case (2 w1 ok)
  have "escalated_or_last [E_wedge i reason, E_escalate reason (Some i) ok]"
  proof (cases ok)
    case False
    then show ?thesis by (simp add: escalated_or_last_def exI[of _ "[]"])
  qed (simp add: escalated_all)
  then have "mute (r = Inr ()) s0 s2" using 2 s1 n
    by (intro muteI[where es = "[E_wedge i reason, E_escalate reason (Some i) ok]" and b = "baseConflictSurfaced s0" and w = w1])
      (auto simp: plain_call_def of_defs)
  then show ?thesis using mute_trans[OF assms(1)] 2 s1 by simp
qed

lemma park_mute:
  assumes "parkAndEscalate deps reason item s = (r, s1)"
  shows "mute (r = Inr () \<or> item = None \<or> isResourcePause reason) s s1 \<and>
    (r = Inr () \<and> \<not> isResourcePause reason \<longrightarrow> (\<forall>i. item = Some i \<longrightarrow> E_wedge i reason \<in> set (calls s1)))"
proof (cases "item = None \<or> isResourcePause reason")
  case True
  then show ?thesis using assms
    by (auto simp: parkAndEscalate_def then_do_def answer_def intro: escalate_mute split: option.splits)
next
  case False
  then obtain i where i: "item = Some i" by auto
  obtain x s0 where m: "lift (f_wedgeMark (d_wg deps) i (reason_text reason)) s = (x, s0)" by fastforce
  show ?thesis
  proof (cases x)
    case (Inl e)
    then show ?thesis using assms i False m lift_mute[OF m]
      by (auto simp: parkAndEscalate_def then_do_def)
  next
    case (Inr u)
    then show ?thesis using assms i False m wedge_escalated[OF lift_mute[OF m] refl]
      by (auto simp: parkAndEscalate_def then_do_def called_def on_world_def)
  qed
qed

section \<open>The parts of a pass\<close>

lemma park_settled:
  assumes "parkAndEscalate deps reason item s = (r, s1)" "settled g cfg s"
  shows "book g cfg s1" and "r = Inr () \<Longrightarrow> settled g cfg s1" and "item = None \<or> isResourcePause reason \<Longrightarrow> settled g cfg s1"
  using park_mute[OF assms(1)] mute_book[OF _ assms(2)] mute_settled[OF _ assms(2)] by auto

lemma refresh_mute: "mute True s (refresh_base deps s)"
proof (cases "d_baseRefresh deps")
  case (Some refresh)
  obtain x s0 where sw: "swallowed (lift refresh) s = (x, s0)" by fastforce
  obtain r s1 where pk: "parkAndEscalate deps SCOPE_FORK None (s0\<lparr>baseConflictSurfaced := True\<rparr>) = (r, s1)" by fastforce
  have "mute True s0 (s0\<lparr>baseConflictSurfaced := True\<rparr>)"
    by (rule muteI[where w = "world s0" and es = "[]" and b = True]) (auto intro: escalated_all)
  moreover have "mute True (s0\<lparr>baseConflictSurfaced := True\<rparr>) s1" using park_mute[OF pk] by simp
  moreover have s0: "mute True s s0" by (rule swallowed_mute[OF sw])
  ultimately have "mute True s s1" by (blast intro: mute_trans)
  then show ?thesis
    by (cases x; cases "the x") (use s0 in \<open>simp_all add: refresh_base_def Some sw pk\<close>)
qed (simp add: refresh_base_def)

lemma drive_calls:
  assumes "driveClaimedItem deps cfg item s = Some (r, s1)"
  obtains e where "r = Inl e" "\<And>ok. mute ok s s1"
  | res w where "r = Inr res" "s1 = s\<lparr>world := w, spent := spent s + l_costUsd res, calls := calls s @ [E_drive (id_of item) res]\<rparr>"
proof -
  obtain x w0 where g: "f_getIssue (d_wg deps) (id_of item) (world s) = (x, w0)" by fastforce
  show ?thesis
  proof (cases x)
    case (Inl e)
    then show ?thesis using that(1) assms g by (auto simp: driveClaimedItem_def lift_def intro: mute_world)
  next
    case (Inr y)
    then obtain x2 w where run: "runItemLaps deps cfg item w0 = Some (x2, w)"
      using assms g by (cases "runItemLaps deps cfg item w0") (auto simp: driveClaimedItem_def lift_def)
    show ?thesis
    proof (cases x2)
      case (Inl e)
      then have "r = Inl e" "s1 = s\<lparr>world := w\<rparr>" using assms g run Inr by (simp_all add: driveClaimedItem_def lift_def)
      then show ?thesis using that(1) by (simp add: mute_world)
    next
      case (Inr res)
      then show ?thesis using that(2)[of res w] assms g run \<open>x = Inr y\<close> by (simp add: driveClaimedItem_def lift_def called_def)
    qed
  qed
qed

lemma drive_settled:
  assumes "driveClaimedItem deps cfg item s = Some (r, s1)" "settled g cfg s" "in_hand (id_of item) (calls s)"
  shows "settled g cfg s1 \<and> (\<forall>res. r = Inr res \<longrightarrow> in_hand (id_of item) (calls s1) \<and> (l_outcome res = Shipped \<longrightarrow> shipped_last (id_of item) (calls s1)))"
  using assms(1)
proof (cases rule: drive_calls)
  case (1 e)
  then show ?thesis using mute_settled assms(2) by blast
next
  case (2 res w)
  have "settled g cfg s1"
    using 2 called_book(2)[OF assms(2), of "E_drive (id_of item) res"] by (simp add: called_def call_rule_def settled_def book_def)
  then show ?thesis using 2 assms(3) by (auto simp: shipped_last_def intro: in_hand_snoc)
qed

definition gate_end :: "RalphConfig \<Rightarrow> string \<Rightarrow> string + LapResult option \<Rightarrow> 'w ralph_state \<Rightarrow> bool" where
  "gate_end cfg i r s \<longleftrightarrow> (case r of
     Inl e \<Rightarrow> book True cfg s
   | Inr None \<Rightarrow> settled True cfg s \<and> budget_skipped (calls s)
   | Inr (Some out) \<Rightarrow> settled True cfg s \<and> in_hand i (calls s) \<and> (l_outcome out = Shipped \<longrightarrow> earned True i (calls s)))"

lemma commit_called:
  assumes "settled True cfg s" "shipped_last i (calls s)"
  shows "settled True cfg (called (E_commit i b) s) \<and> in_hand i (calls (called (E_commit i b) s)) \<and> earned True i (calls (called (E_commit i True) s))"
  using assms called_settled[OF assms(1), of "E_commit i b" i b] in_hand_snoc[OF shipped_in_hand[OF assms(2)], of "E_commit i b"]
  by (auto simp: called_def earned_def call_rule_def)

lemma commit_gate_end:
  "commit_gate n deps cfg item git sha out s = Some (r, s1) \<Longrightarrow> settled True cfg s \<Longrightarrow> shipped_last (id_of item) (calls s) \<Longrightarrow>
   gate_end cfg (id_of item) r s1"
proof (induction n arbitrary: s)
  case (0 s)
  obtain x s0 where m: "lift (durableItemCommitExists git sha (d_target deps)) s = (x, s0)" by fastforce
  have s0: "settled True cfg s0" "shipped_last (id_of item) (calls s0)"
    using mute_settled[OF lift_mute[OF m] 0(2)] 0(3) m by (auto simp: lift_def split: prod.splits)
  note c = commit_called[OF s0]
  show ?case
  proof (cases "x = Inr False")
    case True
    obtain y s2 where p: "parkAndEscalate deps NO_DURABLE_COMMIT (Some (id_of item)) (called (E_commit (id_of item) False) s0) = (y, s2)" by fastforce
    show ?thesis using 0(1) m True p park_settled[OF p conjunct1[OF c]] park_mute[OF p]
      by (auto simp: gate_end_def then_do_def answer_def budget_skipped_def isResourcePause_def RESOURCE_PAUSES_def split: sum.splits)
  next
    case False
    then show ?thesis using 0(1) m c s0 by (auto simp: gate_end_def settled_book split: sum.splits bool.splits)
  qed
next
  case (Suc n s)
  obtain x s0 where m: "lift (durableItemCommitExists git sha (d_target deps)) s = (x, s0)" by fastforce
  have s0: "settled True cfg s0" "shipped_last (id_of item) (calls s0)"
    using mute_settled[OF lift_mute[OF m] Suc(3)] Suc(4) m by (auto simp: lift_def split: prod.splits)
  note c = commit_called[OF s0]
  show ?case
  proof (cases "x = Inr False")
    case True
    then obtain y s2 where d: "driveClaimedItem deps cfg item (called (E_commit (id_of item) False) s0) = Some (y, s2)"
      using Suc(2) m by (cases "driveClaimedItem deps cfg item (called (E_commit (id_of item) False) s0)") auto
    show ?thesis using Suc.prems(1) Suc.IH m True d drive_settled[OF d, of True] c
      by (cases y) (auto simp: gate_end_def settled_book split: if_splits)
  next
    case False
    then show ?thesis using Suc(2) m c s0 by (auto simp: gate_end_def settled_book split: sum.splits bool.splits)
  qed
qed

section \<open>A pass keeps the books\<close>

definition pass_ok :: "bool \<Rightarrow> RalphConfig \<Rightarrow> string + pass_end \<Rightarrow> 'w ralph_state \<Rightarrow> bool" where
  "pass_ok g cfg r s \<longleftrightarrow> (case r of
     Inl e \<Rightarrow> book g cfg s
   | Inr e \<Rightarrow> settled g cfg s \<and> (e = Go_on \<longrightarrow> in_budget cfg (calls s)))"

lemma pass_ok_fail: "settled g cfg s \<Longrightarrow> pass_ok g cfg (Inl e) s"
  by (simp add: pass_ok_def settled_book)

lemma stop_ok:
  assumes "then_do (parkAndEscalate deps reason None) (\<lambda>_. answer (Stop_run reason ws)) s = (r, s1)" "settled g cfg s"
  shows "pass_ok g cfg r s1"
  using assms(1)
proof (cases rule: then_do_cases)
  case (1 e)
  then show ?thesis using park_settled(3)[OF 1(1) assms(2)] by (simp add: pass_ok_fail)
next
  case (2 x s0)
  then show ?thesis using park_settled(3)[OF 2(1) assms(2)] by (auto simp: pass_ok_def answer_def)
qed

lemma budget_ok:
  assumes "budget_check deps cfg s = (r, s1)" "settled g cfg s"
  shows "pass_ok g cfg r s1"
proof (cases "cf_authMode cfg = Api \<and> spent s > cf_maxBudgetUsd cfg")
  case True
  then show ?thesis using assms stop_ok[OF _ assms(2), of deps BUDGET None] by (simp add: budget_check_def)
next
  case False
  then show ?thesis using assms by (auto simp: budget_check_def pass_ok_def in_budget_def settled_def book_def)
qed

lemma pick_mute:
  "pick_item deps held ready s = (r, s1) \<Longrightarrow> mute True s s1 \<and> (\<forall>i h. r = Inr (Some i, h) \<longrightarrow> id_of i \<notin> set (awaitingInputIds s1))"
proof (induction deps held ready s rule: pick_item.induct)
  case (2 deps held cand ready s)
  show ?case
  proof (cases "id_of cand \<in> set (awaitingInputIds s)")
    case True
    then show ?thesis using 2 by simp
  next
    case free: False
    show ?thesis
    proof (cases "d_stageLoop deps")
      case None
      then show ?thesis using 2 free by auto
    next
      case (Some sl)
      obtain x s0 where m: "lift (sl_admissionGate sl cand) s = (x, s0)" by fastforce
      note mm = lift_mute[OF m, of True] mute_awaits[OF lift_mute[OF m]]
      show ?thesis
      proof (cases "x = Inr False")
        case True
        then show ?thesis using 2 free Some m mm by (auto intro: mute_trans)
      next
        case False
        then show ?thesis using 2(3) free Some m mm by (auto split: sum.splits if_splits)
      qed
    qed
  qed
qed auto

lemma reap_settled: "settled g cfg s \<Longrightarrow> settled g cfg (called (E_reap is) s)"
  by (rule called_settled) (simp_all add: call_rule_def)

lemma board_ok:
  assumes "board_done deps held s = (r, s1)" "settled g cfg s" "in_budget cfg (calls s)"
  shows "pass_ok g cfg r s1"
proof -
  obtain x s2 where rp: "swallowed (lift (reapOrphans (d_wg deps))) (on_world (d_loopPassReconcile deps) s) = (x, s2)" by fastforce
  obtain a s3 where av: "swallowed (lift (inspectBoardAvailability (d_wg deps) held (d_nowIso deps (world s2)))) s2 = (a, s3)" by fastforce
  have m2: "mute True s s2" using mute_trans[OF on_world_mute swallowed_mute[OF rp]] .
  have m3: "mute True s s3" using mute_trans[OF m2 swallowed_mute[OF av]] .
  note st = mute_settled[OF m2 assms(2)] mute_settled[OF m3 assms(2)]
  show ?thesis
  proof (cases "\<exists>i is. x = Some (i # is)")
    case True
    then obtain i "is" where x: "x = Some (i # is)" by blast
    then have "r = Inr Go_on" "s1 = called (E_reap (i # is)) s2" using assms(1) rp by (simp_all add: board_done_def)
    then show ?thesis using reap_settled[OF st(1), of "i # is"] mute_budget[OF m2 assms(3)]
      by (auto simp: pass_ok_def called_def in_budget_def budget_skipped_def of_defs)
  next
    case False
    then have x: "x = None \<or> x = Some []" by (cases "the x"; cases x) auto
    show ?thesis
    proof (cases "a = Some Board_empty")
      case True
      then have "board_done deps held s = then_do (parkAndEscalate deps BOARD_EMPTY None) (\<lambda>_. answer (Stop_run BOARD_EMPTY None)) s3"
        using x by (auto simp: board_done_def rp av)
      then show ?thesis using assms(1) stop_ok[OF _ st(2)] by simp
    next
      case False
      define ws where "ws = (case a of Some (Board_waiting ws) \<Rightarrow> ws | _ \<Rightarrow> [])"
      have "board_done deps held s = then_do (parkAndEscalate deps BOARD_WAITING None) (\<lambda>_. answer (Stop_run BOARD_WAITING (Some ws))) s3"
        using x False by (auto simp: board_done_def rp av ws_def split: option.splits BoardAvailability.splits)
      then show ?thesis using assms(1) stop_ok[OF _ st(2)] by simp
    qed
  qed
qed

lemma close_ok:
  assumes "close_item deps item s = (r, s1)" "settled g cfg s" "earned g (id_of item) (calls s)"
  shows "book g cfg s1 \<and> (r = Inr () \<longrightarrow> settled g cfg s1)"
  using assms(1) unfolding close_item_def
proof (cases rule: then_do_cases)
  case (1 e)
  then show ?thesis using mute_settled[OF lift_mute[OF 1(1)] assms(2)] by (simp add: settled_book)
next
  case (2 x s0)
  let ?k = "case d_stageLoop deps of None \<Rightarrow> answer () | Some sl \<Rightarrow> lift (sl_clearStage sl (id_of item))"
  let ?s = "called (E_close (id_of item)) s0"
  have s0: "settled g cfg s0" "earned g (id_of item) (calls s0)"
    using mute_settled[OF lift_mute[OF 2(1)] assms(2)] assms(3) 2(1) by (auto simp: lift_def split: prod.splits)
  have rule: "call_rule g cfg (calls s0) (E_close (id_of item))" using s0 by (simp add: call_rule_def)
  note cl = called_book[OF s0(1) rule, simplified]
  have k: "\<exists>w. s2 = ?s\<lparr>world := w\<rparr>" if "?k ?s = (y, s2)" for y s2
    using that by (auto simp: answer_def lift_def intro: exI[of _ "world ?s"] split: option.splits prod.splits)
  from 2(2) show ?thesis
  proof (cases rule: then_do_cases)
    case (1 e)
    then obtain w where "s1 = ?s\<lparr>world := w\<rparr>" using k by blast
    then show ?thesis using cl(1)[of "closed_ids s0"] 1 by (simp add: called_def book_def)
  next
    case (2 y s2)
    then obtain w where s2: "s2 = ?s\<lparr>world := w\<rparr>" using k by blast
    obtain ro s3 where ru: "swallowed (lift (rollUpParents (d_wg deps) (id_of item))) (s2\<lparr>closed_ids := closed_ids s2 @ [id_of item]\<rparr>) = (ro, s3)"
      by fastforce
    then obtain w3 where s3: "s3 = s2\<lparr>closed_ids := closed_ids s2 @ [id_of item], world := w3\<rparr>"
      by (auto simp: swallowed_def lift_def split: prod.splits sum.splits)
    obtain ps where s1: "s1 = on_world (d_onShipped deps (id_of item)) (called (E_rollup ps) (s3\<lparr>closed_ids := closed_ids s3 @ ps\<rparr>))"
      using 2(2) ru by (auto simp: Let_def)
    have "settled g cfg s3" using cl(2) by (simp add: s2 s3 called_def settled_def book_def)
    then have "settled g cfg s1" using called_book(2)[of g cfg s3 "E_rollup ps"]
      by (simp add: s1 on_world_def called_def call_rule_def settled_def book_def)
    then show ?thesis by (simp add: settled_book)
  qed
qed

lemma await_ok:
  assumes "await_input deps item s = (r, s1)" "settled g cfg s"
  shows "settled g cfg s1 \<and> budget_skipped (calls s1)"
proof -
  let ?s = "called (E_await (id_of item)) (s\<lparr>awaitingInputIds := awaitingInputIds s @ [id_of item]\<rparr>)"
  have s: "settled g cfg ?s" "budget_skipped (calls ?s)"
    using called_book(2)[OF assms(2), of "E_await (id_of item)"]
    by (auto simp: settled_def book_def called_def call_rule_def budget_skipped_def)
  have "mute True ?s s1"
    using assms(1) unfolding await_input_def by (cases rule: then_do_cases) (auto intro: lift_mute mute_trans)
  then show ?thesis using s mute_settled[of ?s s1] by (auto elim!: muteE simp: budget_skipped_def)
qed

lemma settle_ok:
  assumes "settle_item deps cfg item out s = (r, s1)" "settled g cfg s" "l_outcome out = Shipped \<Longrightarrow> earned g (id_of item) (calls s)"
  shows "pass_ok g cfg r s1"
proof (cases "\<exists>stage. l_outcome out = Awaiting_input stage")
  case True
  then have "then_do (await_input deps item) (\<lambda>_. answer Go_on) s = (r, s1)"
    using assms(1) by (auto simp: settle_item_def)
  then show ?thesis
  proof (cases rule: then_do_cases)
    case (2 x s0)
    then show ?thesis using await_ok[OF 2(1) assms(2)] by (auto simp: pass_ok_def answer_def in_budget_def)
  qed (use await_ok[OF _ assms(2)] in \<open>blast intro: pass_ok_fail\<close>)
next
  case waits: False
  show ?thesis
  proof (cases "l_outcome out = Shipped")
    case True
    then have "then_do (close_item deps item) (\<lambda>_. budget_check deps cfg) s = (r, s1)"
      using assms(1) by (simp add: settle_item_def)
    then show ?thesis
    proof (cases rule: then_do_cases)
      case (1 e)
      then show ?thesis using close_ok[OF 1(1) assms(2) assms(3)[OF True]] by (simp add: pass_ok_def)
    next
      case (2 x s0)
      then show ?thesis using close_ok[OF 2(1) assms(2) assms(3)[OF True]] budget_ok by auto
    qed
  next
    case False
    let ?reason = "park_reason (l_outcome out)"
    have "then_do (parkAndEscalate deps ?reason (Some (id_of item)))
        (\<lambda>_. if isResourcePause ?reason then answer (Stop_run ?reason None) else budget_check deps cfg) s = (r, s1)"
      using assms(1) waits False by (cases "l_outcome out") (auto simp: settle_item_def)
    then show ?thesis
    proof (cases rule: then_do_cases)
      case (1 e)
      then show ?thesis using park_settled(1)[OF 1(1) assms(2)] by (simp add: pass_ok_def)
    next
      case (2 x s0)
      then show ?thesis using park_settled(2)[OF 2(1) assms(2)] budget_ok[of deps cfg s0 r s1 g]
        by (auto simp: pass_ok_def answer_def split: if_splits)
    qed
  qed
qed

lemma base_tip:
  assumes "(case d_git deps of None \<Rightarrow> answer None | Some git \<Rightarrow> then_do (lift (g_tip git (d_target deps))) (\<lambda>t. answer (Some t))) s = (x, s1)"
  shows "\<exists>w. s1 = s\<lparr>world := w\<rparr>" and "x = Inr t \<Longrightarrow> t = None \<longleftrightarrow> d_git deps = None"
  using assms by (auto simp: answer_def then_do_def lift_def intro: exI[of _ "world s"] split: option.splits prod.splits sum.splits)

lemma work_ok:
  assumes "work_item deps cfg item s = Some (r, s1)" "settled (gated deps) cfg s" "in_hand (id_of item) (calls s)"
  shows "pass_ok (gated deps) cfg r s1"
proof -
  obtain x s2 where tip: "(case d_git deps of None \<Rightarrow> answer None | Some git \<Rightarrow>
      then_do (lift (g_tip git (d_target deps))) (\<lambda>t. answer (Some t))) s = (x, s2)" by fastforce
  obtain w where w: "s2 = s\<lparr>world := w\<rparr>" using base_tip(1)[OF tip] by blast
  have s2: "settled (gated deps) cfg s2" "in_hand (id_of item) (calls s2)" using assms(2,3) by (simp_all add: w)
  show ?thesis
  proof (cases x)
    case (Inl e)
    then show ?thesis using assms(1) tip s2 by (auto simp: work_item_def pass_ok_fail)
  next
    case (Inr sha)
    then obtain y s3 where d: "driveClaimedItem deps cfg item s2 = Some (y, s3)"
      using assms(1) tip by (cases "driveClaimedItem deps cfg item s2") (auto simp: work_item_def)
    note s3 = drive_settled[OF d s2]
    show ?thesis
    proof (cases y)
      case (Inl e)
      then show ?thesis using assms(1) tip d s3 Inr by (auto simp: work_item_def pass_ok_fail)
    next
      case out: (Inr out)
      show ?thesis
      proof (cases "d_git deps \<noteq> None \<and> l_outcome out = Shipped")
        case False
        then have "settle_item deps cfg item out s3 = (r, s1)"
          using assms(1) tip d out Inr base_tip(2)[OF tip Inr] by (auto simp: work_item_def split: option.splits)
        then show ?thesis by (rule settle_ok) (use s3 False out in \<open>auto simp: earned_def\<close>)
      next
        case True
        then obtain git t where git: "d_git deps = Some git" "sha = Some t" using base_tip(2)[OF tip Inr] by auto
        then obtain z s4 where c: "commit_gate MAX_COMMIT_REDRIVES deps cfg item git t out s3 = Some (z, s4)"
          using assms(1) tip d out Inr True
          by (cases "commit_gate MAX_COMMIT_REDRIVES deps cfg item git t out s3") (auto simp: work_item_def)
        have g: "gate_end cfg (id_of item) z s4"
          using commit_gate_end[OF c] s3 out True git by auto
        consider e where "z = Inl e" | "z = Inr None" | out2 where "z = Inr (Some out2)" by (metis not_Some_eq sumE)
        then show ?thesis
        proof cases
          case 3
          then have "settle_item deps cfg item out2 s4 = (r, s1)"
            using assms(1) tip d out Inr True git c by (simp add: work_item_def del: commit_gate.simps)
          then show ?thesis by (rule settle_ok) (use g git 3 in \<open>auto simp: gate_end_def\<close>)
        qed (use assms(1) tip d out Inr True git c g in \<open>auto simp: work_item_def gate_end_def pass_ok_def in_budget_def simp del: commit_gate.simps\<close>)
      qed
    qed
  qed
qed

lemma pass_keeps:
  assumes "ralph_pass deps cfg s = Some (r, s1)" "settled (gated deps) cfg s" "in_budget cfg (calls s)"
  shows "pass_ok (gated deps) cfg r s1"
proof -
  let ?find = "then_do (lift (f_listReady (d_wg deps))) (\<lambda>ready. pick_item deps [] ready)"
  obtain x s2 where f: "?find (refresh_base deps s) = (x, s2)" by fastforce
  have found: "mute True (refresh_base deps s) s2 \<and> (\<forall>i h. x = Inr (Some i, h) \<longrightarrow> id_of i \<notin> set (awaitingInputIds s2))"
    using f
  proof (cases rule: then_do_cases)
    case (2 ready s3)
    then show ?thesis using pick_mute[OF 2(2)] mute_trans[OF lift_mute[OF 2(1)]] by blast
  qed (auto intro: lift_mute)
  then have m: "mute True s s2" using mute_trans[OF refresh_mute] by blast
  note s2 = mute_settled[OF m assms(2)] mute_budget[OF m assms(3)]
  show ?thesis
  proof (cases "\<exists>item held. x = Inr (Some item, held)")
    case False
    then consider e where "x = Inl e" | held where "x = Inr (None, held)" by (cases x) (auto simp: not_Some_eq)
    then show ?thesis
      by cases (use assms(1) f board_ok[OF _ s2] s2 in \<open>auto simp: ralph_pass_def pass_ok_fail\<close>)
  next
    case True
    then obtain item held where x: "x = Inr (Some item, held)" by blast
    obtain c s3 where cl: "lift (f_claimIssue (d_wg deps) (id_of item)) s2 = (c, s3)" by fastforce
    have m3: "mute True s2 s3" by (rule lift_mute[OF cl])
    note s3 = mute_settled[OF m3 s2(1)] mute_budget[OF m3 s2(2)]
    consider e where "c = Inl e" | "c = Inr False" | "c = Inr True" by (metis sumE)
    then show ?thesis
    proof cases
      case 3
      have "E_await (id_of item) \<notin> set (calls s3)"
        using found x s3(1) mute_awaits[OF m3] by (auto simp: settled_def book_def awaits_mem)
      then have "settled (gated deps) cfg (called (E_claim (id_of item)) s3)"
        using s3 by (intro called_settled) (auto simp: call_rule_def)
      moreover have "in_hand (id_of item) (calls (called (E_claim (id_of item)) s3))" by (simp add: called_def)
      moreover have "work_item deps cfg item (called (E_claim (id_of item)) s3) = Some (r, s1)"
        using assms(1) f x cl 3 by (simp add: ralph_pass_def)
      ultimately show ?thesis by (blast intro: work_ok)
    qed (use assms(1) f x cl s3 in \<open>auto simp: ralph_pass_def pass_ok_def settled_book\<close>)
  qed
qed

lemma start_settled: "settled g cfg (ralph_start deps w)" "calls (ralph_start deps w) = []"
  by (auto simp: ralph_start_def swallowed_def lift_def settled_def book_def escalated_all split: prod.splits sum.splits)

lemma reached_settled:
  assumes "passes (ralph_turn deps cfg) (ralph_start deps w) s" "0 \<le> cf_maxBudgetUsd cfg"
  shows "settled (gated deps) cfg s \<and> in_budget cfg (calls s)"
  using assms(1)
proof (rule passes_inv)
  show "settled (gated deps) cfg (ralph_start deps w) \<and> in_budget cfg (calls (ralph_start deps w))"
    using assms(2) by (simp add: start_settled in_budget_def)
  fix s s1 assume s: "settled (gated deps) cfg s \<and> in_budget cfg (calls s)" and "ralph_turn deps cfg s = Some (Inl s1)"
  then have "ralph_pass deps cfg s = Some (Inr Go_on, s1)"
    by (auto simp: ralph_turn_def split: option.splits sum.splits pass_end.splits)
  from pass_keeps[OF this] s show "settled (gated deps) cfg s1 \<and> in_budget cfg (calls s1)" by (simp add: pass_ok_def)
qed

lemma run_books:
  assumes "runRalphLoop deps cfg w = Some (e, s)" "0 \<le> cf_maxBudgetUsd cfg"
  shows "book (gated deps) cfg s" and "e = Stopped reason ws \<Longrightarrow> settled (gated deps) cfg s"
proof -
  obtain s0 where p: "passes (ralph_turn deps cfg) (ralph_start deps w) s0" "ralph_turn deps cfg s0 = Some (Inr (e, s))"
    using loop_until_ends[OF assms(1)[unfolded runRalphLoop_def]] by blast
  have s0: "settled (gated deps) cfg s0" "in_budget cfg (calls s0)" using reached_settled[OF p(1) assms(2)] by auto
  obtain r s2 where r: "ralph_pass deps cfg s0 = Some (r, s2)"
    using p(2) by (cases "ralph_pass deps cfg s0") (auto simp: ralph_turn_def)
  have e: "s2 = s \<and> (case r of Inl x \<Rightarrow> e = Raised x | Inr x \<Rightarrow> \<exists>q ws. e = Stopped q ws)"
    using p(2) r by (cases r; cases "projr r") (auto simp: ralph_turn_def)
  have ok: "pass_ok (gated deps) cfg r s" by (rule pass_keeps[OF r[unfolded conjunct1[OF e]] s0])
  then show "book (gated deps) cfg s" by (cases r) (auto simp: pass_ok_def settled_book)
  show "settled (gated deps) cfg s" if "e = Stopped reason ws" using ok e that by (cases r) (auto simp: pass_ok_def)
qed

section \<open>The walk through the stages\<close>

definition stage_now :: "string \<Rightarrow> stage_event list \<Rightarrow> string" where
  "stage_now ini l = fold (\<lambda>e s. case e of SE_reconcile n \<Rightarrow> n | _ \<Rightarrow> s) l ini"

definition laps_since :: "stage_event list \<Rightarrow> nat" where
  "laps_since l = fold (\<lambda>e n. case e of SE_reconcile s \<Rightarrow> 0 | SE_lap s r \<Rightarrow> Suc n | _ \<Rightarrow> n) l 0"

definition stage_cost :: "stage_event list \<Rightarrow> rat" where
  "stage_cost l = sum_list (map (\<lambda>e. case e of SE_lap s r \<Rightarrow> l_costUsd r | _ \<Rightarrow> 0) l)"

lemma stage_of_append [simp]:
  "stage_now ini (l @ [e]) = (case e of SE_reconcile n \<Rightarrow> n | _ \<Rightarrow> stage_now ini l)"
  "laps_since (l @ [e]) = (case e of SE_reconcile s \<Rightarrow> 0 | SE_lap s r \<Rightarrow> Suc (laps_since l) | _ \<Rightarrow> laps_since l)"
  "stage_cost (l @ [e]) = stage_cost l + (case e of SE_lap s r \<Rightarrow> l_costUsd r | _ \<Rightarrow> 0)"
  by (cases e; simp add: stage_now_def laps_since_def stage_cost_def)+

lemma stage_of_two [simp]:
  "stage_now ini (l @ [e, SE_reconcile n]) = n" "laps_since (l @ [e, SE_reconcile n]) = 0"
  "stage_cost (l @ [e, SE_reconcile n]) = stage_cost (l @ [e])"
  by (simp_all add: stage_now_def laps_since_def stage_cost_def)

lemma traced_two [simp]: "traced R (l @ [a, b]) \<longleftrightarrow> traced R l \<and> R l a \<and> R (l @ [a]) b"
  using traced_snoc[of R "l @ [a]" b] by simp

lemma stage_of_Nil [simp]: "stage_now ini [] = ini" "laps_since [] = 0" "stage_cost [] = 0"
  by (simp_all add: stage_now_def laps_since_def stage_cost_def)

text \<open>What may happen after what.\<close>

definition stage_rule :: "'w stage_ops \<Rightarrow> string \<Rightarrow> stage_event list \<Rightarrow> stage_event \<Rightarrow> bool" where
  "stage_rule sl ini l e \<longleftrightarrow> (case e of
     SE_lap s r \<Rightarrow> s = stage_now ini l \<and> sl_isAutomated sl s \<and> \<not> sl_isTerminal sl s \<and> laps_since l < MAX_STAGE_RETRIES
   | SE_receipt a n \<Rightarrow> \<exists>l0 s r. l = l0 @ [SE_lap s r] \<and> l_outcome r = Shipped \<and> l_attemptId r = Some a
   | SE_evidence s n \<Rightarrow> s = stage_now ini l \<and> n \<noteq> s
   | SE_reconcile n \<Rightarrow> n \<noteq> stage_now ini l \<and> (\<exists>l0. (\<exists>a. l = l0 @ [SE_receipt a n]) \<or> (\<exists>s. l = l0 @ [SE_evidence s n])))"

definition stage_books :: "'w stage_ops \<Rightarrow> string \<Rightarrow> stage_state \<Rightarrow> bool" where
  "stage_books sl ini st \<longleftrightarrow> traced (stage_rule sl ini) (st_events st) \<and> st_stage st = stage_now ini (st_events st) \<and>
     st_cost st = stage_cost (st_events st)"

definition stage_done :: "'w stage_ops \<Rightarrow> string \<Rightarrow> string + LapResult \<Rightarrow> stage_state \<Rightarrow> bool" where
  "stage_done sl ini r st \<longleftrightarrow> stage_books sl ini st \<and> (\<forall>res. r = Inr res \<longrightarrow>
     l_costUsd res = stage_cost (st_events st) \<and> (l_outcome res = Shipped \<longleftrightarrow> sl_isTerminal sl (stage_now ini (st_events st))))"

lemma stage_books_start: "stage_books sl stage (stage_start deps stage w)"
  by (simp add: stage_books_def stage_start_def)

lemma judge_keeps:
  assumes "judge_lap deps cfg sl item res st w = Some x" and "stage_books sl ini st"
    and "st_events st = l0 @ [SE_lap (st_stage st) res]" "laps_since (st_events st) = Suc (st_same st)" "Suc (st_same st) \<le> MAX_STAGE_RETRIES"
    and "\<not> sl_isTerminal sl (st_stage st)"
  shows "(\<forall>st1 w1. x = Inl (st1, w1) \<longrightarrow> stage_books sl ini st1 \<and> laps_since (st_events st1) = st_same st1 \<and> st_same st1 < MAX_STAGE_RETRIES) \<and>
    (\<forall>r st1 w1. x = Inr (r, st1, w1) \<longrightarrow> stage_done sl ini r st1)"
proof (cases "l_outcome res = Shipped")
  case False
  then show ?thesis using assms(1,2,6) by (auto simp: judge_lap_def stage_done_def stage_books_def)
next
  case shipped: True
  let ?read = "case l_attemptId res of None \<Rightarrow> (Inr (st_stage st), st, w)
    | Some a \<Rightarrow> (case sl_readAttemptStage sl a (id_of item) w of
        (Inl e, w1) \<Rightarrow> (Inl e, st, w1) | (Inr nxt, w1) \<Rightarrow> (Inr nxt, st\<lparr>st_events := st_events st @ [SE_receipt a nxt]\<rparr>, w1))"
  obtain n st1 w1 where rd: "?read = (n, st1, w1)" using prod_cases3 by blast
  have rule: "l_attemptId res = Some a \<Longrightarrow> stage_rule sl ini (st_events st) (SE_receipt a nxt)" for a nxt
    using assms(3) shipped by (auto simp: stage_rule_def)
  have st1: "stage_books sl ini st1" "st_stage st1 = st_stage st" "st_same st1 = st_same st" "laps_since (st_events st1) = Suc (st_same st)"
    and nx: "\<And>nxt. n = Inr nxt \<Longrightarrow> nxt \<noteq> st_stage st \<Longrightarrow> \<exists>a. st_events st1 = st_events st @ [SE_receipt a nxt]"
    using rd assms(2,4) rule by (auto simp: stage_books_def split: option.splits prod.splits sum.splits)
  show ?thesis
  proof (cases n)
    case (Inl e)
    then show ?thesis using assms(1) rd st1 shipped by (auto simp: judge_lap_def stage_done_def)
  next
    case (Inr nxt)
    show ?thesis
    proof (cases "nxt = st_stage st")
      case True
      then show ?thesis using assms(1,5,6) rd st1 shipped Inr
        by (auto simp: judge_lap_def stage_done_def stage_books_def lap_result_def split: if_splits)
    next
      case False
      obtain y w2 where rc: "sl_reconcileStage sl (id_of item) nxt (flushStage deps cfg item st1 w1) = (y, w2)" by fastforce
      obtain a where ev: "st_events st1 = st_events st @ [SE_receipt a nxt]" using nx[OF Inr False] by blast
      have "stage_books sl ini (advanced deps nxt w2 st1) \<and> laps_since (st_events (advanced deps nxt w2 st1)) = 0 \<and> st_same (advanced deps nxt w2 st1) = 0"
        using st1 ev False by (auto simp: stage_books_def advanced_def stage_rule_def)
      then show ?thesis using assms(1) rd st1 shipped Inr False rc
        by (cases y) (auto simp: judge_lap_def stage_done_def MAX_STAGE_RETRIES_def)
    qed
  qed
qed

lemma turn_keeps:
  assumes "stage_turn deps cfg sl item (st, w) = Some x" and "stage_books sl ini st"
    and "laps_since (st_events st) = st_same st" "st_same st < MAX_STAGE_RETRIES"
  shows "(\<forall>st1 w1. x = Inl (st1, w1) \<longrightarrow> stage_books sl ini st1 \<and> laps_since (st_events st1) = st_same st1 \<and> st_same st1 < MAX_STAGE_RETRIES) \<and>
    (\<forall>r st1 w1. x = Inr (r, st1, w1) \<longrightarrow> stage_done sl ini r st1)"
proof (cases "sl_isTerminal sl (st_stage st) \<or> \<not> sl_isAutomated sl (st_stage st)")
  case True
  then show ?thesis using assms(1,2) by (auto simp: stage_turn_def stage_done_def stage_books_def lap_result_def split: if_splits)
next
  case False
  obtain c w1 where co: "sl_completedStage sl item (st_stage st) w = (c, w1)" by fastforce
  show ?thesis
  proof (cases c)
    case (Inl e)
    then show ?thesis using assms False co by (auto simp: stage_turn_def stage_done_def)
  next
    case (Inr cs)
    show ?thesis
    proof (cases "cs \<noteq> None \<and> cs \<noteq> Some (st_stage st)")
      case True
      then obtain n where n: "cs = Some n" "n \<noteq> st_stage st" by auto
      obtain y w2 where rc: "sl_reconcileStage sl (id_of item) n (flushStage deps cfg item st w1) = (y, w2)" by fastforce
      let ?st = "advanced deps n w2 (st\<lparr>st_events := st_events st @ [SE_evidence (st_stage st) n]\<rparr>)"
      have "stage_rule sl ini (st_events st) (SE_evidence (st_stage st) n)"
        "stage_rule sl ini (st_events st @ [SE_evidence (st_stage st) n]) (SE_reconcile n)"
        using assms(2) n by (auto simp: stage_rule_def stage_books_def)
      then have "stage_books sl ini ?st \<and> laps_since (st_events ?st) = 0 \<and> st_same ?st = 0"
        using assms(2)
        by (simp add: stage_books_def advanced_def)
      then show ?thesis using assms False co Inr n rc
        by (cases y) (auto simp: stage_turn_def stage_done_def MAX_STAGE_RETRIES_def)
    next
      case same: False
      obtain p w2 where sp: "sl_stagePrompt sl item (st_stage st) w1 = (p, w2)" by fastforce
      show ?thesis
      proof (cases p)
        case (Inl e)
        then show ?thesis using assms False co Inr same sp by (auto simp: stage_turn_def stage_done_def)
      next
        case (Inr prompt)
        obtain res w3 where lap: "superviseLap (cf_maxRetries cfg) (d_runLap deps item (Some (prompt, st_stage st))) w2 = (res, w3)" by fastforce
        let ?st = "after_lap (st_stage st) res st"
        have j: "judge_lap deps cfg sl item res ?st w3 = Some x"
          using assms(1) False co \<open>c = Inr cs\<close> same sp Inr lap by (auto simp: stage_turn_def)
        have "stage_books sl ini ?st" using assms(2-4) False by (auto simp: stage_books_def after_lap_def stage_rule_def)
        then show ?thesis by (rule judge_keeps[OF j, where ?l0.0 = "st_events st"]) (use assms(3,4) False in \<open>auto simp: after_lap_def\<close>)
      qed
    qed
  qed
qed

lemma walk_keeps:
  assumes "passes (stage_turn deps cfg sl item) (stage_start deps ini w0, w) (st, w1)"
  shows "stage_books sl ini st \<and> laps_since (st_events st) = st_same st \<and> st_same st < MAX_STAGE_RETRIES"
proof -
  have "(\<lambda>(st, w). stage_books sl ini st \<and> laps_since (st_events st) = st_same st \<and> st_same st < MAX_STAGE_RETRIES) (st, w1)"
    using assms
  proof (rule passes_inv)
    show "case (stage_start deps ini w0, w) of (st, w) \<Rightarrow> stage_books sl ini st \<and> laps_since (st_events st) = st_same st \<and> st_same st < MAX_STAGE_RETRIES"
      by (simp add: stage_books_start) (simp add: stage_start_def MAX_STAGE_RETRIES_def)
  next
    fix s s1 :: "stage_state \<times> 'a"
    assume "case s of (st, w) \<Rightarrow> stage_books sl ini st \<and> laps_since (st_events st) = st_same st \<and> st_same st < MAX_STAGE_RETRIES"
      and "stage_turn deps cfg sl item s = Some (Inl s1)"
    then show "case s1 of (st, w) \<Rightarrow> stage_books sl ini st \<and> laps_since (st_events st) = st_same st \<and> st_same st < MAX_STAGE_RETRIES"
      using turn_keeps[of deps cfg sl item "fst s" "snd s" "Inl s1" ini] by (cases s1) auto
  qed
  then show ?thesis by simp
qed

lemma stage_walk_done:
  assumes "loop_until (stage_turn deps cfg sl item) (stage_start deps ini w0, w) = Some (r, st, w1)"
  shows "stage_done sl ini r st"
proof -
  obtain st0 w2 where p: "passes (stage_turn deps cfg sl item) (stage_start deps ini w0, w) (st0, w2)"
    "stage_turn deps cfg sl item (st0, w2) = Some (Inr (r, st, w1))"
    using loop_until_ends[OF assms] by auto
  show ?thesis using turn_keeps[OF p(2)] walk_keeps[OF p(1)] by blast
qed

section \<open>A run\<close>

text \<open>A small board beside a script of laps, each with whether it lands a commit, and the head of the repository.\<close>

type_synonym shop = "Issue list \<times> (LapResult \<times> bool) list \<times> string"

definition shop_set :: "string \<Rightarrow> (Issue \<Rightarrow> Issue) \<Rightarrow> (shop, unit) act" where
  "shop_set i f w = (Inr (), (map (\<lambda>x. if id_of x = i then f x else x) (fst w), snd w))"

definition shop_ready :: "Issue list \<Rightarrow> Issue list" where
  "shop_ready = filter (\<lambda>x. status x = Open \<and> claimToken x = None \<and> wedgeReason x = None)"

definition shop_facade :: "shop facade" where
  "shop_facade = \<lparr>f_listIssues = (\<lambda>st w. (Inr (filter (\<lambda>x. st = None \<or> st = Some (status x)) (fst w)), w)), f_listEdges = answer [],
     f_listReady = (\<lambda>w. (Inr (shop_ready (fst w)), w)), f_getIssue = (\<lambda>i w. (Inr (List.find (\<lambda>x. id_of x = i) (fst w)), w)),
     f_claimIssue = (\<lambda>i. then_do (shop_set i (claimToken_update (\<lambda>_. Some ''t''))) (\<lambda>_. answer True)),
     f_releaseClaim = (\<lambda>i t. shop_set i (claimToken_update (\<lambda>_. None))), f_closeIssue = (\<lambda>i. shop_set i (status_update (\<lambda>_. Closed))),
     f_wedgeMark = (\<lambda>i r. shop_set i (wedgeReason_update (\<lambda>_. Some r))), f_clearWedge = (\<lambda>i. shop_set i (wedgeReason_update (\<lambda>_. None))),
     f_archiveIssue = (\<lambda>i r. shop_set i (status_update (\<lambda>_. Archived)))\<rparr>"

definition shop_lap :: "shop \<Rightarrow> LapResult option \<times> shop" where
  "shop_lap w = (case w of (d, [], h) \<Rightarrow> (None, w) | (d, (r, lands) # rs, h) \<Rightarrow> (Some r, (d, rs, if lands then CHR ''c'' # h else h)))"

definition shop_git :: "shop git_seam" where
  "shop_git = \<lparr>g_tip = (\<lambda>_ w. (Inr (snd (snd w)), w)), g_committedSince = (\<lambda>base _ w. (Inr (if snd (snd w) = base then [] else [''f'']), w)),
     g_uncommittedPaths = answer []\<rparr>"

definition shop_deps :: "shop RalphDeps" where
  "shop_deps = \<lparr>d_wg = shop_facade, d_runLap = (\<lambda>_ _. shop_lap), d_escalate = (\<lambda>_ _. answer True), d_onShipped = (\<lambda>_ w. w),
     d_loopPassReconcile = (\<lambda>w. w), d_recordMetric = (\<lambda>_ w. w), d_emitWedged = (\<lambda>_ w. w), d_now = (\<lambda>_. 5), d_nowIso = (\<lambda>_. ''0''),
     d_stageLoop = None, d_git = Some shop_git, d_target = None, d_baseRefresh = None, d_collectLoopState = answer [], d_emitClosed = (\<lambda>_ w. w)\<rparr>"

definition shop_cfg :: RalphConfig where
  "shop_cfg = \<lparr>cf_authMode = Api, cf_maxBudgetUsd = 2, cf_maxRetries = 0, cf_harness = [], cf_runId = []\<rparr>"

definition shop_item :: "string \<Rightarrow> Issue" where
  "shop_item i = \<lparr>id_of = i, title = [], body = [], status = Open, created_at = [], updatedAt = [], claimToken = None, claimAudience = None,
     claimExpiresAt = None, wedgeReason = None, archiveReason = None\<rparr>"

definition shop_day :: shop where
  "shop_day = ([shop_item ''a'', shop_item ''b''], [(lap_result Shipped 1, True),
     (lap_result Shipped 1, False), (lap_result Shipped 1, False), (lap_result Shipped 1, False)], [])"

lemma shop_run:
  "map_option (\<lambda>(e, s). (e, spent s, closed_ids s, calls s)) (runRalphLoop shop_deps shop_cfg shop_day) =
   Some (Stopped BOARD_WAITING (Some [\<lparr>bw_id = ''b'', bw_reason = Wait_wedged, bw_detail = Some ''NO_DURABLE_COMMIT''\<rparr>]), 4, [''a''],
    [E_claim ''a'', E_drive ''a'' (lap_result Shipped 1), E_commit ''a'' True, E_close ''a'', E_rollup [],
     E_claim ''b'', E_drive ''b'' (lap_result Shipped 1), E_commit ''b'' False, E_drive ''b'' (lap_result Shipped 1), E_commit ''b'' False,
     E_drive ''b'' (lap_result Shipped 1), E_commit ''b'' False, E_wedge ''b'' NO_DURABLE_COMMIT,
     E_escalate NO_DURABLE_COMMIT (Some ''b'') True, E_escalate BOARD_WAITING None True])"
  by code_simp

lemma shop_ends: obtains s where
  "runRalphLoop shop_deps shop_cfg shop_day = Some (Stopped BOARD_WAITING (Some [\<lparr>bw_id = ''b'', bw_reason = Wait_wedged, bw_detail = Some ''NO_DURABLE_COMMIT''\<rparr>]), s)"
  "spent s = 4" "closed_ids s = [''a'']" "E_close ''a'' \<in> set (calls s)" "E_wedge ''b'' NO_DURABLE_COMMIT \<in> set (calls s)"
  using shop_run by (auto simp: map_option_case split: option.splits)

lemma shop_budget: "0 \<le> cf_maxBudgetUsd shop_cfg"
  by (simp add: shop_cfg_def)

text \<open>A lap whose author writes the reason \<open>BOARD_EMPTY\<close> ends the run as an empty board, with an item ready and its own still claimed.\<close>

lemma authored_board_empty:
  "map_option (\<lambda>(e, s). (e, map id_of (shop_ready (fst (world s))), map claimToken (fst (world s))))
     (runRalphLoop shop_deps shop_cfg ([shop_item ''a'', shop_item ''b''], [(lap_result (Human_required BOARD_EMPTY None None) 1, False)], [])) =
   Some (Stopped BOARD_EMPTY None, [''b''], [Some ''t'', None])"
  by code_simp

section \<open>What the loop guarantees\<close>

text \<open>C2. Whatever the work graph, laps, git and transport do: an item is closed only directly after a drive of the item in hand that
  shipped and, with a git seam, after a positive commit check of that item; nothing but its drives and checks lies between its claim and
  there. An item that waits for input is not claimed again in the run, and in API mode no item is claimed with the budget spent,
  unless a pass was taken that skips the check of the budget.\<close>

theorem close_earned:
  assumes "runRalphLoop deps cfg w = Some (e, s)" and "0 \<le> cf_maxBudgetUsd cfg"
  shows "traced (call_rule (d_git deps \<noteq> None) cfg) (calls s)"
  using run_books(1)[OF assms] by (simp add: book_def)

theorem close_earned_witness:
  "\<exists>e s. runRalphLoop shop_deps shop_cfg shop_day = Some (e, s) \<and> E_close ''a'' \<in> set (calls s) \<and> traced (call_rule True shop_cfg) (calls s)"
proof -
  obtain e s where r: "runRalphLoop shop_deps shop_cfg shop_day = Some (e, s)" "E_close ''a'' \<in> set (calls s)" by (rule shop_ends)
  then show ?thesis using close_earned[OF r(1) shop_budget] by (auto simp: shop_deps_def)
qed



text \<open>C3. No item is wedged in silence: in a run that stops every wedge is followed directly by its escalation, delivered; in a run that
  raises the only exception is the very last call, for which it raised.\<close>

theorem no_silent_wedge:
  assumes "runRalphLoop deps cfg w = Some (e, s)" and "0 \<le> cf_maxBudgetUsd cfg"
  shows "escalated_or_last (calls s) \<and> (\<forall>reason ws. e = Stopped reason ws \<longrightarrow> escalated (calls s))"
  using run_books[OF assms] by (auto simp: settled_def book_def)

theorem no_silent_wedge_witness:
  "\<exists>e s. runRalphLoop shop_deps shop_cfg shop_day = Some (e, s) \<and> E_wedge ''b'' NO_DURABLE_COMMIT \<in> set (calls s) \<and> escalated (calls s)"
proof -
  obtain s where r: "runRalphLoop shop_deps shop_cfg shop_day =
      Some (Stopped BOARD_WAITING (Some [\<lparr>bw_id = ''b'', bw_reason = Wait_wedged, bw_detail = Some ''NO_DURABLE_COMMIT''\<rparr>]), s)"
    "E_wedge ''b'' NO_DURABLE_COMMIT \<in> set (calls s)" by (rule shop_ends)
  then show ?thesis using no_silent_wedge[OF r(1) shop_budget] by auto
qed

text \<open>C5. A walk through the stages that returns: laps ran only in automated stages that are not terminal, each in the stage the walk was in,
  at most ten without progress; the stage changed only to what durable evidence for it or the receipt of the lap just run said, a
  lap that shipped; the cost is that of the laps; and the item is reported as shipped exactly when a terminal stage was reached.\<close>

theorem stage_walk_sound:
  assumes "loop_until (stage_turn deps cfg sl item) (stage_start deps ini w0, w) = Some (Inr res, st, w1)"
  shows "traced (stage_rule sl ini) (st_events st) \<and> l_costUsd res = stage_cost (st_events st) \<and>
    (l_outcome res = Shipped \<longleftrightarrow> sl_isTerminal sl (stage_now ini (st_events st)))"
  using stage_walk_done[OF assms] by (simp add: stage_done_def stage_books_def)

definition shop_stages :: "shop stage_ops" where
  "shop_stages = \<lparr>sl_initialStage = ''s'', sl_isAutomated = (\<lambda>x. x = ''s''), sl_isTerminal = (\<lambda>x. x = ''t''), sl_stagePrompt = (\<lambda>_ _. answer []),
     sl_completedStage = (\<lambda>_ _. answer None), sl_readStage = (\<lambda>_. answer None), sl_readAttemptStage = (\<lambda>_ _. answer ''t''),
     sl_clearStage = (\<lambda>_. answer ()), sl_admissionGate = (\<lambda>_. answer True), sl_reconcileStage = (\<lambda>_ _. answer ())\<rparr>"

definition shop_steps :: shop where
  "shop_steps = ([], [(lap_result Shipped 1, False), (lap_result Shipped 1\<lparr>l_attemptId := Some ''k''\<rparr>, False)], [])"

lemma shop_walk:
  "map_option (\<lambda>(r, st, w). (r, map (\<lambda>e. case e of SE_lap s x \<Rightarrow> s | SE_receipt a n \<Rightarrow> n | _ \<Rightarrow> ''!'') (st_events st)))
     (loop_until (stage_turn shop_deps shop_cfg shop_stages (shop_item ''a'')) (stage_start shop_deps ''s'' shop_steps, shop_steps)) =
   Some (Inr (lap_result Shipped 2), [''s'', ''s'', ''t'', ''!''])"
  by code_simp

theorem stage_walk_sound_witness:
  "\<exists>r st w. loop_until (stage_turn shop_deps shop_cfg shop_stages (shop_item ''a'')) (stage_start shop_deps ''s'' shop_steps, shop_steps) = Some (r, st, w) \<and>
     stage_cost (st_events st) = 2 \<and> sl_isTerminal shop_stages (stage_now ''s'' (st_events st))"
proof -
  obtain st w where r: "loop_until (stage_turn shop_deps shop_cfg shop_stages (shop_item ''a'')) (stage_start shop_deps ''s'' shop_steps, shop_steps) =
      Some (Inr (lap_result Shipped 2), st, w)"
    using shop_walk by (auto simp: map_option_case split: option.splits)
  then show ?thesis using stage_walk_sound[OF r]
    by (intro exI[of _ "Inr (lap_result Shipped 2)"] exI[of _ st] exI[of _ w]) (simp add: lap_result_def)
qed

end
