(* ===== verification/Packs.thy ===== *)
theory Packs
  imports Skills
begin

text \<open>
  What happens to packs between the files and the dispatcher: ordering and removal of duplicates
  (\<open>src/src/packs/load_order.ts\<close>), inheritance (\<open>apply_extends.ts\<close>), expansion of composites
  (\<open>composite_resolver.ts\<close>), the checks of skill names and function references (\<open>validate_uniqueness.ts\<close>,
  \<open>validate_functions.ts\<close>) and the choice of a pack for a turn (\<open>match.ts\<close>, \<open>serves.ts\<close>).

  A pack is the record the dispatcher reads, extended by what only the loader reads; the fields that nothing here
  looks at (chat agent, foundation, detection, living-pack versions, seed lessons, gates and guards) are left out, and the
  merge carries them over from the parent like the other fields it does not name. A \<open>Map\<close> is an association
  list in insertion order. The version ranges of the package \<open>semver\<close> (\<open>sv_validRange\<close>: a version or a range, as \<open>isValidRange\<close> asks) and the sort keys behind
  \<open>localeCompare\<close> are arguments.
\<close>

datatype PackKind = kind_focused | kind_composite

record CompositeInclude =
  ci_pack_id :: string
  ci_semver :: string

record LoadedPack = Pack +
  lp_version :: string
  lp_goal :: string
  lp_description :: string
  lp_requires :: "string list"
  lp_conflicts :: "string list"
  lp_extends :: "string option"
  lp_evolves :: bool
  lp_kind :: "PackKind option"
  lp_includes :: "CompositeInclude list option"

text \<open>\<open>new Map(entries)\<close>: a later entry of a key replaces the value and keeps the place of the first.\<close>

definition map_from :: "('k \<times> 'v) list \<Rightarrow> ('k \<times> 'v) list" where
  "map_from kvs = fold (\<lambda>(k, v). AList.update k v) kvs []"

section \<open>Order and duplicates\<close>

definition SCOPE_ORDER :: "PackScope \<Rightarrow> nat" where
  "SCOPE_ORDER s = (case s of universal \<Rightarrow> 0 | domain \<Rightarrow> 1 | specialty \<Rightarrow> 2 | workflow \<Rightarrow> 3 | project \<Rightarrow> 4)"

definition scope_key :: "(string \<Rightarrow> nat list) \<Rightarrow> 'a Pack_scheme \<Rightarrow> nat \<times> nat list" where
  "scope_key collation p = (SCOPE_ORDER (pk_scope p), collation (pk_name p))"

definition sortPacksByScope :: "(string \<Rightarrow> nat list) \<Rightarrow> 'a Pack_scheme list \<Rightarrow> 'a Pack_scheme list" where
  "sortPacksByScope collation packs = sort_key (scope_key collation) packs"

fun dedupe_from :: "string list \<Rightarrow> 'a Pack_scheme list \<Rightarrow> 'a Pack_scheme list" where
  "dedupe_from seen [] = []"
| "dedupe_from seen (p # ps) = (if pk_name p \<in> set seen then dedupe_from seen ps else p # dedupe_from (pk_name p # seen) ps)"

definition dedupePacksByName :: "'a Pack_scheme list \<Rightarrow> 'a Pack_scheme list" where
  "dedupePacksByName packs = dedupe_from [] packs"

text \<open>The composition at the end of the loader (\<open>runtime/bootstrap.ts\<close>).\<close>

definition ordered_packs :: "(string \<Rightarrow> nat list) \<Rightarrow> 'a Pack_scheme list \<Rightarrow> 'a Pack_scheme list" where
  "ordered_packs collation packs = sortPacksByScope collation (dedupePacksByName packs)"

section \<open>Inheritance\<close>

definition merge_skills :: "Skill list \<Rightarrow> Skill list \<Rightarrow> Skill list" where
  "merge_skills parent child = map snd (fold (\<lambda>s. AList.update (sk_name s) s) child (map_from (map (\<lambda>s. (sk_name s, s)) parent)))"

definition applyExtends :: "LoadedPack \<Rightarrow> LoadedPack \<Rightarrow> LoadedPack" where
  "applyExtends child parent = parent\<lparr>pk_name := pk_name child, lp_version := lp_version child, pk_scope := pk_scope child,
     lp_goal := lp_goal child, lp_description := (if lp_description child \<noteq> [] then lp_description child else lp_description parent),
     lp_extends := lp_extends child, lp_evolves := lp_evolves child, lp_requires := lp_requires child,
     lp_conflicts := lp_conflicts child, pk_skills := merge_skills (pk_skills parent) (pk_skills child)\<rparr>"

text \<open>The walk up from one pack; the count is of packs looked at, and \<open>extends_walk_returns\<close> shows that it suffices.\<close>

definition extends_of :: "LoadedPack option \<Rightarrow> string option" where
  "extends_of cur = (case cur of None \<Rightarrow> None | Some p \<Rightarrow> (case lp_extends p of None \<Rightarrow> None | Some e \<Rightarrow> if e = [] then None else Some e))"

fun extends_walk :: "nat \<Rightarrow> (string \<Rightarrow> LoadedPack option) \<Rightarrow> string list \<Rightarrow> LoadedPack option \<Rightarrow> bool option" where
  "extends_walk 0 byName visited cur = None"
| "extends_walk (Suc n) byName visited cur = (case (cur, extends_of cur) of
     (Some p, Some e) \<Rightarrow> if pk_name p \<in> set visited then Some True else extends_walk n byName (visited @ [pk_name p]) (byName e)
   | _ \<Rightarrow> Some False)"

definition by_name :: "'a Pack_scheme list \<Rightarrow> string \<Rightarrow> 'a Pack_scheme option" where
  "by_name packs = map_of (map_from (map (\<lambda>p. (pk_name p, p)) packs))"

definition detectExtendsCycle :: "LoadedPack list \<Rightarrow> string list" where
  "detectExtendsCycle packs =
     map pk_name (filter (\<lambda>p. extends_walk (length packs + 2) (by_name packs) [] (Some p) = Some True) packs)"

section \<open>Composites\<close>

definition MAX_COMPOSITE_DEPTH :: nat where
  "MAX_COMPOSITE_DEPTH = 3"

datatype CompositeResolutionError = Depth_exceeded string "string list" | Invalid_semver string string string
  | Missing_include string string string | Semver_mismatch string string string string | Include_cycle string "string list"

record semver =
  sv_validRange :: "string \<Rightarrow> bool"
  sv_satisfies :: "string \<Rightarrow> string \<Rightarrow> bool"

definition is_composite :: "LoadedPack \<Rightarrow> bool" where
  "is_composite p \<longleftrightarrow> lp_kind p = Some kind_composite"

definition push_pack :: "LoadedPack \<Rightarrow> LoadedPack list \<times> string list \<Rightarrow> LoadedPack list \<times> string list" where
  "push_pack p st = (case st of (out, seen) \<Rightarrow> if pk_name p \<in> set seen then (out, seen) else (out @ [p], seen @ [pk_name p]))"

definition includes_of :: "LoadedPack \<Rightarrow> CompositeInclude list" where
  "includes_of p = (case lp_includes p of None \<Rightarrow> [] | Some is \<Rightarrow> is)"

text \<open>The first argument is the depth that is left.\<close>

function (sequential) walkIncludes :: "nat \<Rightarrow> semver \<Rightarrow> (string \<Rightarrow> LoadedPack option) \<Rightarrow> string \<Rightarrow> LoadedPack \<Rightarrow> string list \<Rightarrow>
    LoadedPack list \<times> string list \<Rightarrow> CompositeResolutionError + LoadedPack list \<times> string list"
  and walk_list :: "nat \<Rightarrow> semver \<Rightarrow> (string \<Rightarrow> LoadedPack option) \<Rightarrow> string \<Rightarrow> LoadedPack \<Rightarrow> string list \<Rightarrow> CompositeInclude list \<Rightarrow>
    LoadedPack list \<times> string list \<Rightarrow> CompositeResolutionError + LoadedPack list \<times> string list" where
  "walkIncludes 0 sv reg origin composite visited st = Inl (Depth_exceeded origin visited)"
| "walkIncludes (Suc n) sv reg origin composite visited st = walk_list n sv reg origin composite visited (includes_of composite) st"
| "walk_list n sv reg origin composite visited [] st = Inr st"
| "walk_list n sv reg origin composite visited (entry # rest) st =
     (if \<not> sv_validRange sv (ci_semver entry) then Inl (Invalid_semver (pk_name composite) (ci_pack_id entry) (ci_semver entry))
      else (case reg (ci_pack_id entry) of
          None \<Rightarrow> Inl (Missing_include (pk_name composite) (ci_pack_id entry) (ci_semver entry))
        | Some found \<Rightarrow>
            if \<not> sv_satisfies sv (lp_version found) (ci_semver entry)
            then Inl (Semver_mismatch (pk_name composite) (ci_pack_id entry) (ci_semver entry) (lp_version found))
            else if pk_name found \<in> set visited then Inl (Include_cycle origin (visited @ [pk_name found]))
            else if is_composite found
            then (case walkIncludes n sv reg origin found (visited @ [pk_name found]) (push_pack found st) of
                Inl e \<Rightarrow> Inl e
              | Inr st1 \<Rightarrow> walk_list n sv reg origin composite visited rest st1)
            else walk_list n sv reg origin composite visited rest (push_pack found st)))"
  by pat_completeness auto
termination
  by (relation "measures [\<lambda>x. case x of Inl (n, _) \<Rightarrow> n | Inr (n, _) \<Rightarrow> n,
      \<lambda>x. case x of Inl _ \<Rightarrow> 0 | Inr (_, _, _, _, _, _, is, _) \<Rightarrow> Suc (length is)]") auto

fun expand_from :: "semver \<Rightarrow> (string \<Rightarrow> LoadedPack option) \<Rightarrow> LoadedPack list \<Rightarrow> LoadedPack list \<times> string list \<Rightarrow>
    CompositeResolutionError + LoadedPack list \<times> string list" where
  "expand_from sv reg [] st = Inr st"
| "expand_from sv reg (p # ps) st =
     (if is_composite p
      then (case walkIncludes MAX_COMPOSITE_DEPTH sv reg (pk_name p) p [pk_name p] (push_pack p st) of
          Inl e \<Rightarrow> Inl e | Inr st1 \<Rightarrow> expand_from sv reg ps st1)
      else expand_from sv reg ps (push_pack p st))"

definition expandComposites :: "semver \<Rightarrow> LoadedPack list \<Rightarrow> CompositeResolutionError + LoadedPack list" where
  "expandComposites sv packs = map_sum id fst (expand_from sv (by_name packs) packs ([], []))"

section \<open>Checks of the active packs\<close>

record UniquenessIssue =
  ui_skill :: string
  ui_packs :: "string list"

definition claim_skill :: "string \<Rightarrow> Skill \<Rightarrow> string list obj \<Rightarrow> string list obj" where
  "claim_skill pack s owners = AList.update (sk_name s) ((case map_of owners (sk_name s) of None \<Rightarrow> [] | Some ps \<Rightarrow> ps) @ [pack]) owners"

definition skill_owners :: "'a Pack_scheme list \<Rightarrow> string list obj" where
  "skill_owners packs = fold (\<lambda>p. fold (claim_skill (pk_name p)) (pk_skills p)) packs []"

definition validateUniqueSkillNames :: "'a Pack_scheme list \<Rightarrow> UniquenessIssue list" where
  "validateUniqueSkillNames packs = map (\<lambda>(s, ps). \<lparr>ui_skill = s, ui_packs = ps\<rparr>) (filter (\<lambda>(s, ps). length ps > 1) (skill_owners packs))"

text \<open>The edit distance, filled in place row by row.\<close>

definition lev_cell :: "string \<Rightarrow> string \<Rightarrow> nat \<Rightarrow> nat list list \<Rightarrow> nat \<Rightarrow> nat" where
  "lev_cell a b i dp j = (let cost = if a ! (i - 1) = b ! (j - 1) then 0 else 1
     in min (min (dp ! (i - 1) ! j + 1) (dp ! i ! (j - 1) + 1)) (dp ! (i - 1) ! (j - 1) + cost))"

definition set_cell :: "nat \<Rightarrow> nat \<Rightarrow> nat \<Rightarrow> nat list list \<Rightarrow> nat list list" where
  "set_cell i j v dp = dp[i := (dp ! i)[j := v]]"

definition lev_start :: "nat \<Rightarrow> nat \<Rightarrow> nat list list" where
  "lev_start m n = fold (\<lambda>j. set_cell 0 j j) [0..<Suc n] (fold (\<lambda>i. set_cell i 0 i) [0..<Suc m] (replicate (Suc m) (replicate (Suc n) 0)))"

definition lev_row :: "string \<Rightarrow> string \<Rightarrow> nat \<Rightarrow> nat list list \<Rightarrow> nat list list" where
  "lev_row a b i dp = fold (\<lambda>j dp. set_cell i j (lev_cell a b i dp j) dp) [1..<Suc (length b)] dp"

definition levenshtein :: "string \<Rightarrow> string \<Rightarrow> nat" where
  "levenshtein a b = fold (lev_row a b) [1..<Suc (length a)] (lev_start (length a) (length b)) ! length a ! length b"

fun closest_from :: "string \<Rightarrow> nat \<Rightarrow> string list \<Rightarrow> (string \<times> nat) option \<Rightarrow> (string \<times> nat) option" where
  "closest_from target maxDist [] best = best"
| "closest_from target maxDist (c # cs) best = (let d = levenshtein target c
     in closest_from target maxDist cs (if d \<le> maxDist \<and> (case best of None \<Rightarrow> True | Some (_, bd) \<Rightarrow> d < bd) then Some (c, d) else best))"

definition closest :: "string \<Rightarrow> string list \<Rightarrow> nat \<Rightarrow> string option" where
  "closest target candidates maxDist = map_option fst (closest_from target maxDist candidates None)"

record ValidationIssue =
  vi_pack :: string
  vi_skill :: string
  vi_ruleId :: string
  vi_step :: nat
  vi_missing :: string
  vi_suggestion :: "string option"

definition rule_calls :: "Rule \<Rightarrow> (string \<times> string list) option" where
  "rule_calls r = (case r of DestinationCheckRule _ _ _ _ \<Rightarrow> None | TrackCheckRule i _ steps \<Rightarrow> Some (i, map ps_call steps))"

definition rule_issues :: "string \<Rightarrow> string \<Rightarrow> string list \<Rightarrow> Rule \<Rightarrow> ValidationIssue list" where
  "rule_issues pack skill known r = (case rule_calls r of
     None \<Rightarrow> []
   | Some (i, called) \<Rightarrow> map (\<lambda>(k, fn). \<lparr>vi_pack = pack, vi_skill = skill, vi_ruleId = i, vi_step = k, vi_missing = fn, vi_suggestion = closest fn known 2\<rparr>)
       (filter (\<lambda>(k, fn). fn \<notin> set known) (List.enumerate 0 called)))"

definition validatePackFunctions :: "'a Pack_scheme \<Rightarrow> string list \<Rightarrow> ValidationIssue list" where
  "validatePackFunctions p known = concat (map (\<lambda>s. concat (map (rule_issues (pk_name p) (sk_name s) known) (sk_rules s))) (pk_skills p))"

section \<open>The pack for a turn\<close>

definition normalizeServes :: "json option \<Rightarrow> json list" where
  "normalizeServes s = (case s of None \<Rightarrow> [] | Some (JArr bs) \<Rightarrow> bs | Some b \<Rightarrow> [b])"

definition servesFacets :: "json \<Rightarrow> string obj" where
  "servesFacets b = (case b of JObj kvs \<Rightarrow> List.map_filter (\<lambda>(k, v). case v of JStr s \<Rightarrow> Some (k, s) | _ \<Rightarrow> None) kvs | _ \<Rightarrow> [])"

fun block_depth :: "string obj \<Rightarrow> string obj \<Rightarrow> nat option" where
  "block_depth fm [] = Some 0"
| "block_depth fm ((k, v) # kvs) =
     (if k \<in> set HIERARCHICAL
      then (case map_of fm k of
          None \<Rightarrow> None
        | Some path \<Rightarrow> if contains v path then map_option (\<lambda>d. length (splitOn (CHR ''.'') v) + d) (block_depth fm kvs) else None)
      else if map_of fm k \<noteq> Some v then None else block_depth fm kvs)"

definition blockMatch :: "string obj \<Rightarrow> string obj \<Rightarrow> nat option" where
  "blockMatch blk fm = map_option (\<lambda>d. length blk + d) (block_depth fm blk)"

definition best_score :: "string obj \<Rightarrow> PackV2 \<Rightarrow> nat option" where
  "best_score fm p = fold (\<lambda>b best. case blockMatch (servesFacets b) fm of
     None \<Rightarrow> best
   | Some s \<Rightarrow> if (case best of None \<Rightarrow> True | Some m \<Rightarrow> m < s) then Some s else best) (normalizeServes (pk_serves p)) None"

definition matchPacks :: "Facets \<Rightarrow> PackV2 list \<Rightarrow> PackV2 option \<times> PackV2 list" where
  "matchPacks facets packs =
     (let fm = facetMap facets; scored = List.map_filter (\<lambda>p. map_option (Pair p) (best_score fm p)) packs
      in if scored = [] then (None, [])
         else let peak = Max (set (map snd scored)); candidates = map fst (filter (\<lambda>(p, s). s = peak) scored)
              in (case candidates of [c] \<Rightarrow> Some c | _ \<Rightarrow> None, candidates))"


section \<open>Lists with named entries\<close>

lemma map_from_lookup: "map_of (fold (\<lambda>(k, v). AList.update k v) kvs al) = map_of al ++ map_of (rev kvs)"
  by (induction kvs arbitrary: al) (auto simp: AList.update_conv' map_add_def fun_eq_iff split: option.splits)

lemma map_from_distinct: "distinct (keys al) \<Longrightarrow> distinct (keys (fold (\<lambda>(k, v). AList.update k v) kvs al))"
  by (induction kvs arbitrary: al) (auto simp: AList.distinct_update)

lemma map_from_of [simp]: "map_of (map_from kvs) = map_of (rev kvs)" "distinct (keys (map_from kvs))"
  by (simp_all add: map_from_def map_from_lookup map_from_distinct)

lemma by_name_rev: "by_name packs = map_of (rev (map (\<lambda>p. (pk_name p, p)) packs))"
  by (simp add: by_name_def)

lemma by_name_in: "by_name packs n = Some p \<Longrightarrow> p \<in> set packs \<and> pk_name p = n"
  by (auto simp: by_name_rev dest!: map_of_SomeD)

lemma dedupe_from_names: "distinct (map pk_name (dedupe_from seen ps)) \<and> pk_name ` set (dedupe_from seen ps) = pk_name ` set ps - set seen"
  by (induction seen ps rule: dedupe_from.induct) auto

lemma dedupe_from_first:
  "map_of (map (\<lambda>p. (pk_name p, p)) (dedupe_from seen ps)) n = (if n \<in> set seen then None else map_of (map (\<lambda>p. (pk_name p, p)) ps) n)"
  by (induction seen ps rule: dedupe_from.induct) auto

lemma dedupe_from_subset: "set (dedupe_from seen ps) \<subseteq> set ps"
  by (induction seen ps rule: dedupe_from.induct) auto

lemma dedupe_from_seen: "set s1 = set s2 \<Longrightarrow> dedupe_from s1 ps = dedupe_from s2 ps"
  by (induction s1 ps arbitrary: s2 rule: dedupe_from.induct) auto

lemma lookup_perm:
  assumes "mset xs = mset ys" "distinct (map f ys)"
  shows "map_of (map (\<lambda>p. (f p, p)) xs) = map_of (map (\<lambda>p. (f p, p)) ys)"
proof (rule map_of_eqI)
  have d: "distinct (map f xs)" using assms by (metis distinct_map mset_eq_imp_distinct_iff mset_map)
  then show "set (map fst (map (\<lambda>p. (f p, p)) xs)) = set (map fst (map (\<lambda>p. (f p, p)) ys))"
    using mset_eq_setD[OF assms(1)] by (simp add: comp_def image_def)
  show "\<forall>k\<in>set (map fst (map (\<lambda>p. (f p, p)) xs)). map_of (map (\<lambda>p. (f p, p)) xs) k = map_of (map (\<lambda>p. (f p, p)) ys) k"
  proof
    fix k assume "k \<in> set (map fst (map (\<lambda>p. (f p, p)) xs))"
    then obtain p where p: "p \<in> set xs" "k = f p" by auto
    then have "p \<in> set ys" using mset_eq_setD[OF assms(1)] by simp
    then show "map_of (map (\<lambda>p. (f p, p)) xs) k = map_of (map (\<lambda>p. (f p, p)) ys) k"
      using p d assms(2) by (simp add: map_of_is_SomeI comp_def image_iff)
  qed
qed

text \<open>The packs in force are sorted by scope and then by name, no name occurs twice, of several packs of a name the
  first listed one is kept, and packs of the same scope whose names collate alike stay in the order they are listed.\<close>

theorem active_packs_order:
  "sorted (map (scope_key collation) (ordered_packs collation packs)) \<and>
   distinct (map pk_name (ordered_packs collation packs)) \<and>
   map_of (map (\<lambda>p. (pk_name p, p)) (ordered_packs collation packs)) = map_of (map (\<lambda>p. (pk_name p, p)) packs) \<and>
   filter (\<lambda>p. scope_key collation p = k) (ordered_packs collation packs) = filter (\<lambda>p. scope_key collation p = k) (dedupePacksByName packs)"
proof -
  have d: "distinct (map pk_name (dedupePacksByName packs))" using dedupe_from_names[of "[]" packs] by (simp add: dedupePacksByName_def)
  have m: "mset (ordered_packs collation packs) = mset (dedupePacksByName packs)" by (simp add: ordered_packs_def sortPacksByScope_def)
  have "distinct (map pk_name (ordered_packs collation packs))" using d m by (metis distinct_map mset_eq_imp_distinct_iff mset_map)
  moreover have "map_of (map (\<lambda>p. (pk_name p, p)) (ordered_packs collation packs)) = map_of (map (\<lambda>p. (pk_name p, p)) packs)"
    using lookup_perm[OF m d] dedupe_from_first[of "[]" packs] by (auto simp: dedupePacksByName_def)
  ultimately show ?thesis by (simp add: ordered_packs_def sortPacksByScope_def sort_key_stable)
qed

section \<open>A child keeps its skills and loses its own parts\<close>

lemma update_subset: "set (AList.update k v al) \<subseteq> insert (k, v) (set al)"
  by (induction al) auto

lemma map_from_named:
  "\<forall>(k, s)\<in>set al. k = f s \<Longrightarrow> \<forall>(k, s)\<in>set (fold (\<lambda>(k, v). AList.update k v) (map (\<lambda>s. (f s, s)) xs) al). k = f s"
proof (induction xs arbitrary: al)
  case (Cons x xs)
  have "\<forall>(k, s)\<in>set (AList.update (f x) x al). k = f s" using Cons.prems update_subset[of "f x" x al] by auto
  then show ?case using Cons.IH by simp
qed simp

lemma merge_lookup:
  "map_of (map (\<lambda>s. (sk_name s, s)) (merge_skills parent child)) =
     map_of (rev (map (\<lambda>s. (sk_name s, s)) parent)) ++ map_of (rev (map (\<lambda>s. (sk_name s, s)) child)) \<and>
   distinct (map sk_name (merge_skills parent child))"
proof -
  let ?kv = "map (\<lambda>s. (sk_name s, s))"
  define m where "m = fold (\<lambda>(k, v). AList.update k v) (?kv child) (map_from (?kv parent))"
  have ms: "merge_skills parent child = map snd m" by (simp add: merge_skills_def m_def fold_map comp_def)
  have "\<forall>(k, s)\<in>set m. k = sk_name s" unfolding m_def map_from_def by (intro map_from_named) simp
  then have kv: "?kv (map snd m) = m" and names: "map sk_name (map snd m) = keys m" by (auto intro!: map_idI nth_equalityI)
  have "map_of m = map_of (rev (?kv parent)) ++ map_of (rev (?kv child))" "distinct (keys m)"
    by (simp_all add: m_def map_from_lookup map_from_distinct)
  then show ?thesis unfolding ms kv names by blast
qed

text \<open>A child that extends a parent answers for every skill name with its own last skill of that name, else with the parent's
  last one, each name once; the fields the merge names are the child's, and everything else (lifecycle machine, drift responses,
  models, team, usage, kind and includes) is the parent's, whatever the child declares.\<close>

theorem extends_merges:
  "map_of (map (\<lambda>s. (sk_name s, s)) (pk_skills (applyExtends child parent))) =
     map_of (rev (map (\<lambda>s. (sk_name s, s)) (pk_skills parent))) ++ map_of (rev (map (\<lambda>s. (sk_name s, s)) (pk_skills child))) \<and>
   distinct (map sk_name (pk_skills (applyExtends child parent))) \<and>
   pk_name (applyExtends child parent) = pk_name child \<and> pk_scope (applyExtends child parent) = pk_scope child \<and>
   lp_requires (applyExtends child parent) = lp_requires child \<and> lp_extends (applyExtends child parent) = lp_extends child \<and>
   pk_fsm (applyExtends child parent) = pk_fsm parent \<and> pk_driftResponse (applyExtends child parent) = pk_driftResponse parent \<and>
   pk_team (applyExtends child parent) = pk_team parent \<and> lp_kind (applyExtends child parent) = lp_kind parent"
  using merge_lookup[of "pk_skills parent" "pk_skills child"] by (simp add: applyExtends_def)

section \<open>Chains of inheritance\<close>

fun chain :: "(string \<Rightarrow> LoadedPack option) \<Rightarrow> LoadedPack \<Rightarrow> nat \<Rightarrow> LoadedPack option" where
  "chain byName start 0 = Some start"
| "chain byName start (Suc n) = (case extends_of (chain byName start n) of None \<Rightarrow> None | Some e \<Rightarrow> byName e)"

definition walked :: "(string \<Rightarrow> LoadedPack option) \<Rightarrow> LoadedPack \<Rightarrow> nat \<Rightarrow> string list \<Rightarrow> bool" where
  "walked byName start k visited \<longleftrightarrow> (\<forall>i<k. extends_of (chain byName start i) \<noteq> None) \<and> distinct visited \<and>
     visited = map (\<lambda>i. pk_name (the (chain byName start i))) [0..<k]"

lemma extends_some: "extends_of cur = Some e \<Longrightarrow> \<exists>p. cur = Some p"
  by (auto simp: extends_of_def split: option.splits)

lemma chain_in:
  assumes "start \<in> set packs" "chain (by_name packs) start n = Some p"
  shows "p \<in> set packs"
  using assms by (cases n) (auto split: option.splits dest: by_name_in)

lemma walked_step:
  assumes "walked byName start k visited" "chain byName start k = Some p" "extends_of (Some p) = Some e" "pk_name p \<notin> set visited"
  shows "walked byName start (Suc k) (visited @ [pk_name p]) \<and> chain byName start (Suc k) = byName e"
  using assms by (auto simp: walked_def less_Suc_eq)

lemma walked_short:
  assumes "walked (by_name packs) start k visited" "start \<in> set packs"
  shows "length visited \<le> length packs"
proof -
  have "set visited \<subseteq> pk_name ` set packs"
  proof
    fix x assume "x \<in> set visited"
    then obtain i where i: "i < k" "x = pk_name (the (chain (by_name packs) start i))" using assms(1) by (auto simp: walked_def)
    then obtain p where "chain (by_name packs) start i = Some p" using assms(1) extends_some by (fastforce simp: walked_def)
    then show "x \<in> pk_name ` set packs" using i chain_in[OF assms(2)] by force
  qed
  then have "card (set visited) \<le> card (pk_name ` set packs)" by (simp add: card_mono)
  also have "\<dots> \<le> length packs" by (metis card_image_le card_length finite_set le_trans)
  finally show ?thesis using assms(1) distinct_card by (metis walked_def)
qed

lemma extends_walk_returns:
  assumes "start \<in> set packs"
  shows "walked (by_name packs) start k visited \<Longrightarrow> cur = chain (by_name packs) start k \<Longrightarrow> length packs + 1 < n + length visited \<Longrightarrow>
    \<exists>b. extends_walk n (by_name packs) visited cur = Some b"
proof (induction n arbitrary: k visited cur)
  case 0
  then show ?case using walked_short[OF _ assms] by fastforce
next
  case (Suc n)
  show ?case
  proof (cases "extends_of cur")
    case None
    then show ?thesis by (cases cur) auto
  next
    case (Some e)
    then obtain p where p: "cur = Some p" using extends_some by blast
    show ?thesis
    proof (cases "pk_name p \<in> set visited")
      case False
      have w: "walked (by_name packs) start (Suc k) (visited @ [pk_name p])" "chain (by_name packs) start (Suc k) = by_name packs e"
        using walked_step[of "by_name packs" start k visited p e] Suc.prems(1,2) Some p False by auto
      have "\<exists>b. extends_walk n (by_name packs) (visited @ [pk_name p]) (by_name packs e) = Some b"
        using Suc.prems(3) by (intro Suc.IH[OF w(1) w(2)[symmetric]]) simp
      then show ?thesis using Some p False by simp
    qed (use Some p in auto)
  qed
qed

lemma chain_loops:
  assumes "i < k" "chain byName start k = chain byName start i"
  shows "\<exists>j<k. chain byName start n = chain byName start j"
proof (induction n)
  case 0
  then show ?case using assms(1) by (metis gr_zeroI not_less_zero)
next
  case (Suc n)
  then obtain j where j: "j < k" "chain byName start n = chain byName start j" by blast
  then have "chain byName start (Suc n) = chain byName start (Suc j)" by simp
  then show ?case using j(1) assms by (metis Suc_lessI)
qed

lemma extends_walk_exact:
  assumes "start \<in> set packs" "distinct (map pk_name packs)"
  shows "walked (by_name packs) start k visited \<Longrightarrow> cur = chain (by_name packs) start k \<Longrightarrow> extends_walk n (by_name packs) visited cur = Some b \<Longrightarrow>
    b \<longleftrightarrow> (\<forall>m. extends_of (chain (by_name packs) start m) \<noteq> None)"
proof (induction n arbitrary: k visited cur)
  case (Suc n)
  show ?case
  proof (cases "extends_of cur")
    case None
    then have "\<not> b" using Suc.prems(3) by (cases cur) simp_all
    then show ?thesis using None Suc.prems(2) by blast
  next
    case (Some e)
    then obtain p where p: "cur = Some p" using extends_some by blast
    show ?thesis
    proof (cases "pk_name p \<in> set visited")
      case False
      have w: "walked (by_name packs) start (Suc k) (visited @ [pk_name p])" "chain (by_name packs) start (Suc k) = by_name packs e"
        using walked_step[of "by_name packs" start k visited p e] Suc.prems(1,2) Some p False by auto
      have "extends_walk n (by_name packs) (visited @ [pk_name p]) (by_name packs e) = Some b"
        using Suc.prems(3) Some p False by simp
      then show ?thesis by (rule Suc.IH[OF w(1) w(2)[symmetric]])
    next
      case True
      then have b: b using Suc.prems(3) Some p by simp
      obtain i where i: "i < k" "pk_name p = pk_name (the (chain (by_name packs) start i))"
        using True Suc.prems(1) by (auto simp: walked_def)
      then obtain q where q: "chain (by_name packs) start i = Some q" using Suc.prems(1) extends_some by (fastforce simp: walked_def)
      then have "q = p" using i chain_in[OF assms(1)] Suc.prems(2) p assms(2) by (metis distinct_map inj_on_def option.sel)
      then have "chain (by_name packs) start k = chain (by_name packs) start i" using Suc.prems(2) p q by simp
      then have "\<forall>m. extends_of (chain (by_name packs) start m) \<noteq> None"
        using chain_loops[OF i(1)] Suc.prems(1) by (metis walked_def)
      then show ?thesis using b by blast
    qed
  qed
qed simp


section \<open>What composites bring in\<close>

text \<open>The packs met, in order and with repetitions.\<close>

function (sequential) preorder :: "nat \<Rightarrow> semver \<Rightarrow> (string \<Rightarrow> LoadedPack option) \<Rightarrow> string \<Rightarrow> LoadedPack \<Rightarrow> string list \<Rightarrow>
    CompositeResolutionError + LoadedPack list"
  and pre_list :: "nat \<Rightarrow> semver \<Rightarrow> (string \<Rightarrow> LoadedPack option) \<Rightarrow> string \<Rightarrow> LoadedPack \<Rightarrow> string list \<Rightarrow> CompositeInclude list \<Rightarrow>
    CompositeResolutionError + LoadedPack list" where
  "preorder 0 sv reg origin composite visited = Inl (Depth_exceeded origin visited)"
| "preorder (Suc n) sv reg origin composite visited = pre_list n sv reg origin composite visited (includes_of composite)"
| "pre_list n sv reg origin composite visited [] = Inr []"
| "pre_list n sv reg origin composite visited (entry # rest) =
     (if \<not> sv_validRange sv (ci_semver entry) then Inl (Invalid_semver (pk_name composite) (ci_pack_id entry) (ci_semver entry))
      else (case reg (ci_pack_id entry) of
          None \<Rightarrow> Inl (Missing_include (pk_name composite) (ci_pack_id entry) (ci_semver entry))
        | Some found \<Rightarrow>
            if \<not> sv_satisfies sv (lp_version found) (ci_semver entry)
            then Inl (Semver_mismatch (pk_name composite) (ci_pack_id entry) (ci_semver entry) (lp_version found))
            else if pk_name found \<in> set visited then Inl (Include_cycle origin (visited @ [pk_name found]))
            else (case (if is_composite found then preorder n sv reg origin found (visited @ [pk_name found]) else Inr []) of
                Inl e \<Rightarrow> Inl e
              | Inr below \<Rightarrow> map_sum id (\<lambda>ps. found # below @ ps) (pre_list n sv reg origin composite visited rest))))"
  by pat_completeness auto
termination
  by (relation "measures [\<lambda>x. case x of Inl (n, _) \<Rightarrow> n | Inr (n, _) \<Rightarrow> n,
      \<lambda>x. case x of Inl _ \<Rightarrow> 0 | Inr (_, _, _, _, _, _, is) \<Rightarrow> Suc (length is)]") auto

lemma map_sum_fold:
  "map_sum id f (map_sum id g x) = map_sum id (\<lambda>y. f (g y)) x" "map_sum (\<lambda>a. a) f (map_sum id g x) = map_sum (\<lambda>a. a) (\<lambda>y. f (g y)) x"
  by (cases x; simp)+

lemma walk_preorder:
  "walkIncludes n sv reg origin c visited st = map_sum id (\<lambda>ps. fold push_pack ps st) (preorder n sv reg origin c visited)"
  "walk_list n sv reg origin c visited is st = map_sum id (\<lambda>ps. fold push_pack ps st) (pre_list n sv reg origin c visited is)"
proof (induction n sv reg origin c visited and n sv reg origin c visited "is" arbitrary: st and st rule: preorder_pre_list.induct)
  case (4 n sv reg origin c visited entry rest)
  show ?case
  proof (cases "\<exists>found. sv_validRange sv (ci_semver entry) \<and> reg (ci_pack_id entry) = Some found \<and>
      sv_satisfies sv (lp_version found) (ci_semver entry) \<and> pk_name found \<notin> set visited")
    case False
    then show ?thesis by (auto split: option.splits)
  next
    case True
    then obtain found where f: "sv_validRange sv (ci_semver entry)" "reg (ci_pack_id entry) = Some found"
      "sv_satisfies sv (lp_version found) (ci_semver entry)" "pk_name found \<notin> set visited" by blast
    show ?thesis
    proof (cases "is_composite found")
      case comp: True
      note below = "4.IH"(1)[OF _ f(2) _ _ comp] and later = "4.IH"(2)[OF _ f(2)]
      show ?thesis using below later f comp
        by (cases "preorder n sv reg origin found (visited @ [pk_name found])") (simp_all add: map_sum_fold)
    next
      case False
      then show ?thesis using "4.IH"(2)[OF _ f(2), of "[]"] f by (simp add: map_sum_fold)
    qed
  qed
qed simp_all

fun listing :: "semver \<Rightarrow> (string \<Rightarrow> LoadedPack option) \<Rightarrow> LoadedPack list \<Rightarrow> CompositeResolutionError + LoadedPack list" where
  "listing sv reg [] = Inr []"
| "listing sv reg (p # ps) = (case (if is_composite p then preorder MAX_COMPOSITE_DEPTH sv reg (pk_name p) p [pk_name p] else Inr []) of
     Inl e \<Rightarrow> Inl e | Inr below \<Rightarrow> map_sum id (\<lambda>qs. p # below @ qs) (listing sv reg ps))"

lemma push_dedupe:
  "fold push_pack ps (out, seen) = (out @ dedupe_from seen ps, seen @ map pk_name (dedupe_from seen ps))"
proof (induction ps arbitrary: out seen)
  case (Cons p ps)
  have perm: "dedupe_from (seen @ [n]) qs = dedupe_from (n # seen) qs" for n seen and qs :: "LoadedPack list"
    by (rule dedupe_from_seen) auto
  show ?case using Cons by (simp add: push_pack_def perm)
qed simp

lemma expand_is_listing_eq: "expandComposites sv packs = map_sum id dedupePacksByName (listing sv (by_name packs) packs)"
proof -
  have "expand_from sv reg ps st = map_sum id (\<lambda>qs. fold push_pack qs st) (listing sv reg ps)" for reg ps st
  proof (induction ps arbitrary: st)
    case (Cons p ps)
    then show ?case
      by (cases "preorder MAX_COMPOSITE_DEPTH sv reg (pk_name p) p [pk_name p]") (simp_all add: walk_preorder map_sum_fold)
  qed simp
  then show ?thesis
    by (cases "listing sv (by_name packs) packs") (simp_all add: expandComposites_def push_dedupe dedupePacksByName_def)
qed

text \<open>Expanding the composites of a list of packs gives the list of the packs met on the way, each composite before what it
  includes, with every later pack of a name already met left out; it fails exactly when the walk without that memory fails,
  and with the same error.\<close>

theorem expand_is_listing: "expandComposites sv packs = map_sum id dedupePacksByName (listing sv (by_name packs) packs)"
  by (rule expand_is_listing_eq)

inductive included :: "(string \<Rightarrow> LoadedPack option) \<Rightarrow> LoadedPack \<Rightarrow> LoadedPack \<Rightarrow> bool" for reg where
  direct: "is_composite c \<Longrightarrow> entry \<in> set (includes_of c) \<Longrightarrow> reg (ci_pack_id entry) = Some f \<Longrightarrow> included reg c f"
| deeper: "is_composite c \<Longrightarrow> entry \<in> set (includes_of c) \<Longrightarrow> reg (ci_pack_id entry) = Some f \<Longrightarrow> included reg f q \<Longrightarrow> included reg c q"

inductive_cases included_cases: "included reg c q"

lemma included_iff:
  "included reg c q \<longleftrightarrow> is_composite c \<and> (\<exists>entry\<in>set (includes_of c). \<exists>f. reg (ci_pack_id entry) = Some f \<and> (q = f \<or> included reg f q))"
  (is "_ \<longleftrightarrow> ?R")
proof
  assume "included reg c q"
  then show ?R by cases blast+
qed (auto intro: included.intros)

definition entry_ok :: "semver \<Rightarrow> (string \<Rightarrow> LoadedPack option) \<Rightarrow> CompositeInclude \<Rightarrow> bool" where
  "entry_ok sv reg entry \<longleftrightarrow> sv_validRange sv (ci_semver entry) \<and>
     (\<exists>f. reg (ci_pack_id entry) = Some f \<and> sv_satisfies sv (lp_version f) (ci_semver entry))"

definition sound_below :: "semver \<Rightarrow> (string \<Rightarrow> LoadedPack option) \<Rightarrow> LoadedPack \<Rightarrow> string list \<Rightarrow> LoadedPack set \<Rightarrow> bool" where
  "sound_below sv reg c visited S \<longleftrightarrow> S = {q. included reg c q} \<and> (\<forall>q\<in>S. pk_name q \<notin> set visited) \<and>
     (\<forall>d. (d = c \<or> d \<in> S) \<and> is_composite d \<longrightarrow> list_all (entry_ok sv reg) (includes_of d))"

definition sound_entries :: "semver \<Rightarrow> (string \<Rightarrow> LoadedPack option) \<Rightarrow> string list \<Rightarrow> CompositeInclude list \<Rightarrow> LoadedPack set \<Rightarrow> bool" where
  "sound_entries sv reg visited es S \<longleftrightarrow>
     S = {q. \<exists>entry\<in>set es. \<exists>f. reg (ci_pack_id entry) = Some f \<and> (q = f \<or> included reg f q)} \<and> (\<forall>q\<in>S. pk_name q \<notin> set visited) \<and>
     list_all (entry_ok sv reg) es \<and> (\<forall>d\<in>S. is_composite d \<longrightarrow> list_all (entry_ok sv reg) (includes_of d))"

lemma preorder_sound:
  "preorder n sv reg origin c visited = Inr ps \<Longrightarrow> is_composite c \<Longrightarrow> sound_below sv reg c visited (set ps)"
  "pre_list n sv reg origin c visited es = Inr ps \<Longrightarrow> sound_entries sv reg visited es (set ps)"
proof (induction n sv reg origin c visited and n sv reg origin c visited es arbitrary: ps and ps rule: preorder_pre_list.induct)
  case (2 n sv reg origin c visited)
  then have e: "sound_entries sv reg visited (includes_of c) (set ps)" by simp
  have eq: "set ps = {q. included reg c q}"
    using e 2(3) by (subst included_iff) (auto simp: sound_entries_def)
  then show ?case using e unfolding sound_below_def sound_entries_def by auto
next
  case (4 n sv reg origin c visited entry rest)
  from "4.prems" obtain found where f: "sv_validRange sv (ci_semver entry)" "reg (ci_pack_id entry) = Some found"
    "sv_satisfies sv (lp_version found) (ci_semver entry)" "pk_name found \<notin> set visited"
    by (auto split: if_splits option.splits)
  obtain below where b: "(if is_composite found then preorder n sv reg origin found (visited @ [pk_name found]) else Inr []) = Inr below"
    using "4.prems" f by (auto split: sum.splits)
  then obtain later where l: "pre_list n sv reg origin c visited rest = Inr later" "ps = found # below @ later"
    using "4.prems" f by (cases "pre_list n sv reg origin c visited rest") auto
  have sl: "sound_entries sv reg visited rest (set later)" using "4.IH"(2)[OF _ f(2)] f b l(1) by auto
  have sb: "set below = {q. included reg found q} \<and> (\<forall>q\<in>set below. pk_name q \<notin> set visited) \<and>
      (\<forall>d. (d = found \<or> d \<in> set below) \<and> is_composite d \<longrightarrow> list_all (entry_ok sv reg) (includes_of d))"
  proof (cases "is_composite found")
    case True
    then show ?thesis using "4.IH"(1)[OF _ f(2)] f b by (auto simp: sound_below_def)
  next
    case False
    then show ?thesis using b by (auto elim: included_cases)
  qed
  have ps: "set ps = insert found (set below \<union> set later)" by (simp add: l(2))
  have "list_all (entry_ok sv reg) (includes_of d)" if "d \<in> set ps" "is_composite d" for d
    using that sl sb unfolding ps sound_entries_def by blast
  moreover have "set ps = {q. \<exists>e\<in>set (entry # rest). \<exists>f. reg (ci_pack_id e) = Some f \<and> (q = f \<or> included reg f q)}"
    using sl sb f(2) unfolding ps sound_entries_def by auto
  moreover have "\<forall>q\<in>set ps. pk_name q \<notin> set visited" using sl sb f(4) unfolding ps sound_entries_def by blast
  moreover have "list_all (entry_ok sv reg) (entry # rest)" using sl f by (simp add: sound_entries_def entry_ok_def)
  ultimately show ?case unfolding sound_entries_def by blast
qed (auto simp: sound_entries_def)

lemma listing_sound:
  "listing sv reg ps = Inr qs \<Longrightarrow>
   set qs = set ps \<union> {q. \<exists>p\<in>set ps. included reg p q} \<and>
   (\<forall>p\<in>set ps. is_composite p \<longrightarrow> sound_below sv reg p [pk_name p] {q. included reg p q})"
proof (induction ps arbitrary: qs)
  case (Cons p ps)
  obtain below where b: "(if is_composite p then preorder MAX_COMPOSITE_DEPTH sv reg (pk_name p) p [pk_name p] else Inr []) = Inr below"
    using Cons.prems by (auto split: sum.splits)
  then obtain later where l: "listing sv reg ps = Inr later" "qs = p # below @ later"
    using Cons.prems by (cases "listing sv reg ps") auto
  have "set below = {q. included reg p q} \<and> (is_composite p \<longrightarrow> sound_below sv reg p [pk_name p] (set below))"
  proof (cases "is_composite p")
    case True
    then show ?thesis using b preorder_sound(1)[of MAX_COMPOSITE_DEPTH sv reg "pk_name p" p "[pk_name p]" below] by (auto simp: sound_below_def)
  next
    case False
    then show ?thesis using b by (auto elim: included_cases)
  qed
  then show ?case using Cons.IH[OF l(1)] l(2) by auto
qed simp


text \<open>The registry is the list itself, so an expansion that succeeds brings in no pack that is not given: it only moves packs. A
  composite that is in force while a pack it includes is not fails to load.\<close>

lemma included_in: "included (by_name packs) p q \<Longrightarrow> q \<in> set packs"
  by (induction rule: included.induct) (auto dest: by_name_in)

lemma expansion_adds_nothing:
  assumes "expandComposites sv packs = Inr out"
  shows "set out \<subseteq> set packs" "pk_name ` set out = pk_name ` set packs"
proof -
  obtain qs where qs: "listing sv (by_name packs) packs = Inr qs" "out = dedupePacksByName qs"
    using assms by (cases "listing sv (by_name packs) packs") (auto simp: expand_is_listing_eq)
  have "set qs = set packs" using listing_sound[OF qs(1)] included_in by blast
  then show "set out \<subseteq> set packs" "pk_name ` set out = pk_name ` set packs"
    using dedupe_from_subset[of "[]" qs] dedupe_from_names[of "[]" qs] by (auto simp: qs(2) dedupePacksByName_def)
qed

section \<open>Names and references\<close>

definition claims_of :: "'a Pack_scheme list \<Rightarrow> (string \<times> string) list" where
  "claims_of packs = concat (map (\<lambda>p. map (\<lambda>s. (sk_name s, pk_name p)) (pk_skills p)) packs)"

definition add_owner :: "string \<times> string \<Rightarrow> string list obj \<Rightarrow> string list obj" where
  "add_owner c owners = (case c of (s, p) \<Rightarrow> AList.update s ((case map_of owners s of None \<Rightarrow> [] | Some ps \<Rightarrow> ps) @ [p]) owners)"

lemma skill_owners_claims: "skill_owners packs = fold add_owner (claims_of packs) []"
proof -
  have one: "fold (claim_skill p) ss = fold add_owner (map (\<lambda>s. (sk_name s, p)) ss)" for p ss
    by (simp add: fold_map comp_def claim_skill_def[abs_def] add_owner_def[abs_def])
  have "fold (\<lambda>p. fold (claim_skill (pk_name p)) (pk_skills p)) packs owners = fold add_owner (claims_of packs) owners" for owners
    by (induction packs arbitrary: owners) (simp_all add: claims_of_def one)
  then show ?thesis by (simp add: skill_owners_def)
qed

definition owners_in :: "(string \<times> string) list \<Rightarrow> string \<Rightarrow> string list" where
  "owners_in cs s = map snd (filter (\<lambda>c. fst c = s) cs)"

lemma add_owner_lookup:
  "distinct (keys owners) \<Longrightarrow> distinct (keys (fold add_owner cs owners)) \<and>
   map_of (fold add_owner cs owners) s = (case map_of owners s of
     None \<Rightarrow> if owners_in cs s = [] then None else Some (owners_in cs s)
   | Some ps \<Rightarrow> Some (ps @ owners_in cs s))"
proof (induction cs arbitrary: owners)
  case (Cons c cs)
  obtain s1 p1 where c: "c = (s1, p1)" by fastforce
  have d: "distinct (keys (add_owner c owners))" using Cons.prems by (simp add: add_owner_def c AList.distinct_update)
  show ?case using Cons.IH[OF d] by (auto simp: c add_owner_def owners_in_def AList.update_conv' split: option.splits)
qed (auto simp: owners_in_def split: option.splits)

lemma owners_count: "length (owners_in cs s) = count (mset (map fst cs)) s"
  by (induction cs) (auto simp: owners_in_def)

lemma distinct_count_le: "distinct xs \<longleftrightarrow> (\<forall>a. count (mset xs) a \<le> Suc 0)"
proof
  assume "\<forall>a. count (mset xs) a \<le> Suc 0"
  then have "count (mset xs) a = (if a \<in> set xs then 1 else 0)" for a
    using count_greater_zero_iff[of "mset xs" a] by (cases "a \<in> set xs") (auto simp: le_Suc_eq not_in_iff)
  then show "distinct xs" by (simp add: distinct_count_atmost_1)
qed (simp add: distinct_count_atmost_1)

text \<open>A skill name is reported exactly when it is declared more than once, with the packs that declare it in order, a pack as often
  as it does; and nothing is reported exactly when all skill names of all packs differ.\<close>

theorem unique_skill_names_exact:
  "(\<lparr>ui_skill = s, ui_packs = ps\<rparr> \<in> set (validateUniqueSkillNames packs) \<longleftrightarrow> ps = owners_in (claims_of packs) s \<and> length ps > 1) \<and>
   distinct (map ui_skill (validateUniqueSkillNames packs)) \<and>
   (validateUniqueSkillNames packs = [] \<longleftrightarrow> distinct (map sk_name (concat (map pk_skills packs))))"
proof -
  note look = add_owner_lookup[of "[]" "claims_of packs", simplified, folded skill_owners_claims]
  have mem: "(s, ps) \<in> set (skill_owners packs) \<longleftrightarrow> ps = owners_in (claims_of packs) s \<and> ps \<noteq> []" for s ps
    using look[of s] by (auto simp: map_of_eq_Some_iff[symmetric] simp del: map_of_eq_Some_iff split: if_splits)
  have names: "map fst (claims_of packs) = map sk_name (concat (map pk_skills packs))"
    by (induction packs) (simp_all add: claims_of_def comp_def)
  have 1: "\<lparr>ui_skill = s, ui_packs = ps\<rparr> \<in> set (validateUniqueSkillNames packs) \<longleftrightarrow> ps = owners_in (claims_of packs) s \<and> length ps > 1" for s ps
    using mem[of s ps] by (force simp: validateUniqueSkillNames_def)
  have "map ui_skill (validateUniqueSkillNames packs) = keys (filter (\<lambda>(s, ps). length ps > 1) (skill_owners packs))"
    by (auto simp: validateUniqueSkillNames_def)
  then have 2: "distinct (map ui_skill (validateUniqueSkillNames packs))" using look by (simp add: distinct_map_filter)
  have "validateUniqueSkillNames packs = [] \<longleftrightarrow> (\<forall>x\<in>set (skill_owners packs). case x of (s, ps) \<Rightarrow> length ps \<le> 1)"
    by (simp add: validateUniqueSkillNames_def filter_empty_conv not_less case_prod_beta)
  also have "\<dots> \<longleftrightarrow> (\<forall>s ps. (s, ps) \<in> set (skill_owners packs) \<longrightarrow> length ps \<le> 1)" by blast
  also have "\<dots> \<longleftrightarrow> (\<forall>s. length (owners_in (claims_of packs) s) \<le> 1)"
    unfolding mem by (metis list.size(3) zero_le)
  also have "\<dots> \<longleftrightarrow> distinct (map fst (claims_of packs))"
    by (simp add: owners_count distinct_count_le)
  finally show ?thesis using 1 2 names by simp
qed

section \<open>The edit distance\<close>

text \<open>Edit scripts that go through both texts from the left, and what they cost.\<close>

inductive edits :: "'a list \<Rightarrow> 'a list \<Rightarrow> nat \<Rightarrow> bool" where
  nothing: "edits [] [] 0"
| delete_last: "edits a b k \<Longrightarrow> edits (a @ [x]) b (Suc k)"
| insert_last: "edits a b k \<Longrightarrow> edits a (b @ [y]) (Suc k)"
| replace_last: "edits a b k \<Longrightarrow> edits (a @ [x]) (b @ [y]) (k + (if x = y then 0 else 1))"

fun ed :: "'a list \<Rightarrow> 'a list \<Rightarrow> nat \<Rightarrow> nat \<Rightarrow> nat" where
  "ed a b 0 j = j"
| "ed a b (Suc i) 0 = Suc i"
| "ed a b (Suc i) (Suc j) = min (min (ed a b i (Suc j) + 1) (ed a b (Suc i) j + 1)) (ed a b i j + (if a ! i = b ! j then 0 else 1))"

lemma ed_reached: "i \<le> length a \<Longrightarrow> j \<le> length b \<Longrightarrow> edits (take i a) (take j b) (ed a b i j)"
proof (induction a b i j rule: ed.induct)
  case (1 a b j)
  then show ?case
  proof (induction j)
    case (Suc j)
    then show ?case using edits.insert_last[of "[]" "take j b" j "b ! j"] by (simp add: take_Suc_conv_app_nth)
  qed (simp add: edits.nothing)
next
  case (2 a b i)
  have "n \<le> length a \<Longrightarrow> edits (take n a) [] n" for n
  proof (induction n)
    case (Suc n)
    then show ?case using edits.delete_last[of "take n a" "[]" n "a ! n"] by (simp add: take_Suc_conv_app_nth)
  qed (simp add: edits.nothing)
  then show ?case using 2 by simp
next
  case (3 a b i j)
  have e: "take (Suc i) a = take i a @ [a ! i]" "take (Suc j) b = take j b @ [b ! j]" using "3.prems" by (simp_all add: take_Suc_conv_app_nth)
  have "edits (take (Suc i) a) (take (Suc j) b) (Suc (ed a b i (Suc j)))"
    unfolding e(1) using 3 by (intro edits.delete_last) simp
  moreover have "edits (take (Suc i) a) (take (Suc j) b) (Suc (ed a b (Suc i) j))"
    unfolding e(2) using 3 by (intro edits.insert_last) simp
  moreover have "edits (take (Suc i) a) (take (Suc j) b) (ed a b i j + (if a ! i = b ! j then 0 else 1))"
    unfolding e using 3 by (intro edits.replace_last) simp
  ultimately show ?case by (auto simp: min_def)
qed

lemma ed_zero [simp]: "ed a b i 0 = i"
  by (cases i) simp_all

lemma ed_step:
  "ed a b (Suc i) j \<le> Suc (ed a b i j)" "ed a b i (Suc j) \<le> Suc (ed a b i j)"
proof -
  show "ed a b (Suc i) j \<le> Suc (ed a b i j)" by (cases j) auto
  show "ed a b i (Suc j) \<le> Suc (ed a b i j)" by (cases i) auto
qed

lemma ed_append: "i \<le> length a \<Longrightarrow> j \<le> length b \<Longrightarrow> ed (a @ xs) (b @ ys) i j = ed a b i j"
  by (induction a b i j rule: ed.induct) (simp_all add: nth_append)

lemma ed_least: "edits a b k \<Longrightarrow> ed a b (length a) (length b) \<le> k"
proof (induction rule: edits.induct)
  case (delete_last a b k x)
  have "ed (a @ [x]) b (Suc (length a)) (length b) \<le> Suc (ed (a @ [x]) b (length a) (length b))" by (rule ed_step)
  also have "ed (a @ [x]) b (length a) (length b) = ed a b (length a) (length b)" using ed_append[of "length a" a "length b" b "[x]" "[]"] by simp
  finally show ?case using delete_last by simp
next
  case (insert_last a b k y)
  have "ed a (b @ [y]) (length a) (Suc (length b)) \<le> Suc (ed a (b @ [y]) (length a) (length b))" by (rule ed_step)
  also have "ed a (b @ [y]) (length a) (length b) = ed a b (length a) (length b)" using ed_append[of "length a" a "length b" b "[]" "[y]"] by simp
  finally show ?case using insert_last by simp
next
  case (replace_last a b k x y)
  have "ed (a @ [x]) (b @ [y]) (length a) (length b) = ed a b (length a) (length b)" by (simp add: ed_append)
  then show ?case using replace_last by (simp add: min_def)
qed simp

lemma ed_is_least: "ed a b (length a) (length b) = (LEAST k. edits a b k)"
  using ed_reached[of "length a" a "length b" b] by (intro Least_equality[symmetric]) (auto intro: ed_least)

text \<open>The table: cells before the current one, the first row and the first column are right.\<close>

definition table_ok :: "string \<Rightarrow> string \<Rightarrow> nat \<Rightarrow> nat \<Rightarrow> nat list list \<Rightarrow> bool" where
  "table_ok a b i j dp \<longleftrightarrow> length dp = Suc (length a) \<and> (\<forall>r<Suc (length a). length (dp ! r) = Suc (length b)) \<and>
     (\<forall>r c. r \<le> length a \<and> c \<le> length b \<and> (r < i \<or> (r = i \<and> c < j) \<or> c = 0) \<longrightarrow> dp ! r ! c = ed a b r c)"

lemma set_cell_at:
  "i < length dp \<Longrightarrow> j < length (dp ! i) \<Longrightarrow> set_cell i j v dp ! r ! c = (if r = i \<and> c = j then v else dp ! r ! c)"
  by (cases "r = i"; cases "c = j") (simp_all add: set_cell_def)

lemma set_cell_shape [simp]: "length (set_cell i j v dp) = length dp" "length (set_cell i j v dp ! r) = length (dp ! r)"
proof -
  show "length (set_cell i j v dp ! r) = length (dp ! r)"
  proof (cases "i < length dp")
    case True
    then show ?thesis by (cases "r = i") (simp_all add: set_cell_def)
  qed (simp add: set_cell_def list_update_beyond)
qed (simp add: set_cell_def)

lemma table_cell: "table_ok a b i j dp \<Longrightarrow> r \<le> length a \<Longrightarrow> c \<le> length b \<Longrightarrow> r < i \<or> (r = i \<and> c < j) \<or> c = 0 \<Longrightarrow> dp ! r ! c = ed a b r c"
  by (simp add: table_ok_def)

lemma table_shape: "table_ok a b i j dp \<Longrightarrow> length dp = Suc (length a) \<and> (\<forall>r<Suc (length a). length (dp ! r) = Suc (length b))"
  by (simp add: table_ok_def)

lemma table_okI:
  assumes "length dp = Suc (length a) \<and> (\<forall>r<Suc (length a). length (dp ! r) = Suc (length b))"
    and "\<And>r c. r \<le> length a \<Longrightarrow> c \<le> length b \<Longrightarrow> r < i \<or> (r = i \<and> c < j) \<or> c = 0 \<Longrightarrow> dp ! r ! c = ed a b r c"
  shows "table_ok a b i j dp"
  unfolding table_ok_def using assms by blast

lemma cell_step:
  assumes "table_ok a b (Suc i) (Suc j) dp" "Suc i \<le> length a" "Suc j \<le> length b"
  shows "table_ok a b (Suc i) (Suc (Suc j)) (set_cell (Suc i) (Suc j) (lev_cell a b (Suc i) dp (Suc j)) dp)"
proof -
  note cells = table_cell[OF assms(1)] and shape = table_shape[OF assms(1)]
  have "lev_cell a b (Suc i) dp (Suc j) = ed a b (Suc i) (Suc j)"
    using assms(2,3) cells[of i "Suc j"] cells[of "Suc i" j] cells[of i j] by (simp add: lev_cell_def Let_def)
  then have at_cell: "set_cell (Suc i) (Suc j) (lev_cell a b (Suc i) dp (Suc j)) dp ! r ! c = (if r = Suc i \<and> c = Suc j then ed a b (Suc i) (Suc j) else dp ! r ! c)"
    for r c using set_cell_at[of "Suc i" dp "Suc j"] shape assms(2,3) by simp
  show ?thesis
  proof (rule table_okI)
    fix r c assume rc: "r \<le> length a" "c \<le> length b" "r < Suc i \<or> (r = Suc i \<and> c < Suc (Suc j)) \<or> c = 0"
    show "set_cell (Suc i) (Suc j) (lev_cell a b (Suc i) dp (Suc j)) dp ! r ! c = ed a b r c"
    proof (cases "r = Suc i \<and> c = Suc j")
      case False
      then have "r < Suc i \<or> (r = Suc i \<and> c < Suc j) \<or> c = 0" using rc(3) by linarith
      then show ?thesis using False cells[OF rc(1,2)] unfolding at_cell by simp
    qed (unfold at_cell, simp)
  qed (use shape in simp)
qed

lemma row_filled:
  assumes "table_ok a b (Suc i) (Suc 0) dp" "Suc i \<le> length a"
  shows "table_ok a b (Suc (Suc i)) (Suc 0) (lev_row a b (Suc i) dp)"
proof -
  have "n \<le> length b \<Longrightarrow> table_ok a b (Suc i) (Suc n) (fold (\<lambda>j dp. set_cell (Suc i) j (lev_cell a b (Suc i) dp j) dp) [1..<Suc n] dp)" for n
  proof (induction n)
    case (Suc n)
    then show ?case using cell_step[OF _ assms(2), of b n] by simp
  qed (use assms(1) in simp)
  then have row: "table_ok a b (Suc i) (Suc (length b)) (lev_row a b (Suc i) dp)" by (simp add: lev_row_def del: upt_Suc)
  show ?thesis
  proof (rule table_okI[OF table_shape[OF row]])
    fix r c assume rc: "r \<le> length a" "c \<le> length b" "r < Suc (Suc i) \<or> (r = Suc (Suc i) \<and> c < Suc 0) \<or> c = 0"
    then have "r < Suc i \<or> (r = Suc i \<and> c < Suc (length b)) \<or> c = 0" by linarith
    then show "lev_row a b (Suc i) dp ! r ! c = ed a b r c" by (rule table_cell[OF row rc(1,2)])
  qed
qed

lemma column_filled:
  assumes "length z = Suc m" "\<And>r. r < Suc m \<Longrightarrow> length (z ! r) = Suc n"
  shows "k \<le> Suc m \<Longrightarrow> length (fold (\<lambda>i. set_cell i 0 i) [0..<k] z) = Suc m \<and> (\<forall>r<Suc m. length (fold (\<lambda>i. set_cell i 0 i) [0..<k] z ! r) = Suc n) \<and>
    (\<forall>r<k. fold (\<lambda>i. set_cell i 0 i) [0..<k] z ! r ! 0 = r)"
proof (induction k)
  case (Suc k)
  let ?d = "fold (\<lambda>i. set_cell i 0 i) [0..<k] z"
  have "set_cell k 0 k ?d ! r ! 0 = (if r = k then k else ?d ! r ! 0)" for r using Suc set_cell_at[of k ?d 0 k r 0] by simp
  then show ?case using Suc by simp
qed (use assms in simp)

lemma head_filled:
  assumes "length z = Suc m" "\<And>r. r < Suc m \<Longrightarrow> length (z ! r) = Suc n" "\<And>r. r < Suc m \<Longrightarrow> z ! r ! 0 = r"
  shows "k \<le> Suc n \<Longrightarrow> length (fold (\<lambda>j. set_cell 0 j j) [0..<k] z) = Suc m \<and> (\<forall>r<Suc m. length (fold (\<lambda>j. set_cell 0 j j) [0..<k] z ! r) = Suc n) \<and>
    (\<forall>r<Suc m. fold (\<lambda>j. set_cell 0 j j) [0..<k] z ! r ! 0 = r) \<and> (\<forall>c<k. fold (\<lambda>j. set_cell 0 j j) [0..<k] z ! 0 ! c = c)"
proof (induction k)
  case (Suc k)
  let ?d = "fold (\<lambda>j. set_cell 0 j j) [0..<k] z"
  have "set_cell 0 k k ?d ! r ! c = (if r = 0 \<and> c = k then k else ?d ! r ! c)" for r c using Suc set_cell_at[of 0 ?d k k r c] by simp
  then show ?case using Suc by simp
qed (use assms in simp)

lemma start_ok: "table_ok a b (Suc 0) (Suc 0) (lev_start (length a) (length b))"
proof -
  let ?z = "replicate (Suc (length a)) (replicate (Suc (length b)) 0) :: nat list list"
  have z: "length ?z = Suc (length a)" "\<And>r. r < Suc (length a) \<Longrightarrow> length (?z ! r) = Suc (length b)"
    by (simp_all add: nth_replicate del: replicate_Suc)
  note c = column_filled[OF z order_refl]
  note h = head_filled[OF c[THEN conjunct1] c[THEN conjunct2, THEN conjunct1, rule_format] c[THEN conjunct2, THEN conjunct2, rule_format] order_refl,
      folded lev_start_def]
  show ?thesis
  proof (rule table_okI)
    fix r c assume "r \<le> length a" "c \<le> length b" "r < Suc 0 \<or> (r = Suc 0 \<and> c < Suc 0) \<or> c = 0"
    then show "lev_start (length a) (length b) ! r ! c = ed a b r c" using h by (auto simp: less_Suc_eq_le)
  qed (use h in blast)
qed

lemma levenshtein_ed: "levenshtein a b = ed a b (length a) (length b)"
proof -
  have "n \<le> length a \<Longrightarrow> table_ok a b (Suc n) (Suc 0) (fold (lev_row a b) [1..<Suc n] (lev_start (length a) (length b)))" for n
  proof (induction n)
    case (Suc n)
    then show ?case using row_filled[of a b n] by simp
  qed (simp add: start_ok)
  from this[of "length a"] show ?thesis by (simp add: levenshtein_def table_ok_def del: upt_Suc)
qed

text \<open>C14. The table that is filled in place holds the least cost of turning one name into the other by deletions, insertions and
  replacements of single characters.\<close>

theorem levenshtein_least: "levenshtein a b = (LEAST k. edits a b k)"
  by (simp add: levenshtein_ed ed_is_least)

section \<open>References to functions\<close>

lemma arg_min_skip: "f b \<le> f c \<Longrightarrow> arg_min_list f (b # c # ys) = arg_min_list f (b # ys)" for f :: "'a \<Rightarrow> nat"
  by (cases ys) (auto simp: Let_def)

lemma arg_min_head: "f (arg_min_list f (c # ys)) \<le> f c" for f :: "'a \<Rightarrow> nat"
  by (cases ys) (auto simp: Let_def)

lemma arg_min_later: "f c < f b \<Longrightarrow> arg_min_list f (b # c # ys) = arg_min_list f (c # ys)" for f :: "'a \<Rightarrow> nat"
  using arg_min_head[of f c ys] by (simp add: Let_def)

lemma closest_from_best:
  "levenshtein t b \<le> d \<Longrightarrow> closest_from t d cs (Some (b, levenshtein t b)) =
     (let c = arg_min_list (levenshtein t) (b # filter (\<lambda>c. levenshtein t c \<le> d) cs) in Some (c, levenshtein t c))"
proof (induction cs arbitrary: b)
  case (Cons c cs)
  then show ?case using arg_min_later[of "levenshtein t" c b] arg_min_skip[of "levenshtein t" b c]
    by (cases "levenshtein t c \<le> d"; cases "levenshtein t c < levenshtein t b") (auto simp: Let_def not_less)
qed simp

definition nearest :: "string \<Rightarrow> string list \<Rightarrow> nat \<Rightarrow> string option" where
  "nearest t cs d = (case filter (\<lambda>c. (LEAST k. edits t c k) \<le> d) cs of [] \<Rightarrow> None | ys \<Rightarrow> Some (arg_min_list (\<lambda>c. LEAST k. edits t c k) ys))"

lemma levenshtein_LEAST: "(LEAST k. edits t c k) = levenshtein t c"
  by (simp add: levenshtein_ed ed_is_least)

lemma closest_nearest: "closest t cs d = nearest t cs d"
proof -
  have "map_option fst (closest_from t d cs None) = (case filter (\<lambda>c. levenshtein t c \<le> d) cs of [] \<Rightarrow> None | ys \<Rightarrow> Some (arg_min_list (levenshtein t) ys))"
  proof (induction cs)
    case (Cons c cs)
    then show ?case using closest_from_best[of t c d cs] by (auto simp: Let_def)
  qed simp
  then show ?thesis by (simp add: closest_def nearest_def levenshtein_LEAST split: list.split)
qed

text \<open>The issues of a pack are exactly its steps that call an unknown function, each with the place it stands at and, as a
  suggestion, the first of the known names at the least edit distance of at most two, if there is one.\<close>

theorem validatePackFunctions_exact:
  "issue \<in> set (validatePackFunctions p known) \<longleftrightarrow>
    (\<exists>s\<in>set (pk_skills p). \<exists>i q steps k. TrackCheckRule i q steps \<in> set (sk_rules s) \<and> k < length steps \<and> ps_call (steps ! k) \<notin> set known \<and>
      issue = \<lparr>vi_pack = pk_name p, vi_skill = sk_name s, vi_ruleId = i, vi_step = k, vi_missing = ps_call (steps ! k),
        vi_suggestion = nearest (ps_call (steps ! k)) known 2\<rparr>)"
proof -
  have "issue \<in> set (rule_issues pack skill known r) \<longleftrightarrow>
    (\<exists>i q steps k. r = TrackCheckRule i q steps \<and> k < length steps \<and> ps_call (steps ! k) \<notin> set known \<and>
      issue = \<lparr>vi_pack = pack, vi_skill = skill, vi_ruleId = i, vi_step = k, vi_missing = ps_call (steps ! k),
        vi_suggestion = nearest (ps_call (steps ! k)) known 2\<rparr>)" for pack skill r
    by (cases r) (auto simp: rule_issues_def rule_calls_def in_set_enumerate_eq closest_nearest image_iff)
  then show ?thesis by (simp add: validatePackFunctions_def) blast
qed

section \<open>The most specific pack\<close>

definition key_matches :: "string obj \<Rightarrow> string \<times> string \<Rightarrow> bool" where
  "key_matches fm kv \<longleftrightarrow> (case map_of fm (fst kv) of
     None \<Rightarrow> False | Some t \<Rightarrow> if fst kv \<in> set HIERARCHICAL then contains (snd kv) t else t = snd kv)"

definition key_depth :: "string \<times> string \<Rightarrow> nat" where
  "key_depth kv = (if fst kv \<in> set HIERARCHICAL then length (splitOn (CHR ''.'') (snd kv)) else 0)"

lemma block_depth_exact:
  "block_depth fm blk = (if list_all (key_matches fm) blk then Some (sum_list (map key_depth blk)) else None)"
proof (induction blk)
  case (Cons kv blk)
  obtain k v where kv: "kv = (k, v)" by fastforce
  have "key_matches fm kv \<longleftrightarrow> (case map_of fm k of None \<Rightarrow> False | Some t \<Rightarrow> if k \<in> set HIERARCHICAL then contains v t else t = v)"
    "key_depth kv = (if k \<in> set HIERARCHICAL then length (splitOn (CHR ''.'') v) else 0)" by (cases "map_of fm k"; simp add: key_matches_def key_depth_def kv)+
  then show ?case using Cons.IH by (cases "map_of fm k"; cases "k \<in> set HIERARCHICAL") (simp_all add: kv)
qed simp

definition scores :: "string obj \<Rightarrow> PackV2 \<Rightarrow> nat set" where
  "scores fm p = {length (servesFacets b) + sum_list (map key_depth (servesFacets b)) |b. b \<in> set (normalizeServes (pk_serves p)) \<and>
     list_all (key_matches fm) (servesFacets b)}"

lemma Max_insert_le: "finite F \<Longrightarrow> a \<le> s \<Longrightarrow> Max (insert a (insert s F)) = Max (insert s F)" for a :: nat
  by (metis Max_ge Max_insert finite_insert insertI1 insert_not_empty le_trans max_absorb2)

lemma best_fold:
  "fold (\<lambda>b best. case g b of None \<Rightarrow> best | Some s \<Rightarrow> if (case best of None \<Rightarrow> True | Some m \<Rightarrow> m < s) then Some s else best) bs best =
   (let F = {s. \<exists>b\<in>set bs. g b = Some s} in case best of None \<Rightarrow> if F = {} then None else Some (Max F) | Some m \<Rightarrow> Some (Max (insert m F)))"
  for g :: "'a \<Rightarrow> nat option"
proof (induction bs arbitrary: best)
  case Nil
  then show ?case by (cases best) simp_all
next
  case (Cons b bs)
  let ?F = "{s. \<exists>b\<in>set bs. g b = Some s}"
  have fin: "finite ?F" by (rule finite_subset[of _ "(\<lambda>b. the (g b)) ` set bs"]) force+
  show ?case
  proof (cases "g b")
    case None
    then show ?thesis using Cons by simp
  next
    case (Some s)
    have eq: "{x. \<exists>c\<in>set (b # bs). g c = Some x} = insert s ?F" using Some by auto
    show ?thesis
    proof (cases best)
      case None
      then show ?thesis unfolding eq using Cons[of "Some s"] Some by (simp add: Let_def)
    next
      case (Some m)
      show ?thesis
      proof (cases "m < s")
        case True
        then show ?thesis unfolding eq using Cons[of "Some s"] Some \<open>g b = Some s\<close> Max_insert_le[OF fin, of m s] by (simp add: Let_def)
      next
        case False
        then show ?thesis unfolding eq using Cons[of "Some m"] Some \<open>g b = Some s\<close> Max_insert_le[OF fin, of s m]
          by (simp add: Let_def insert_commute)
      qed
    qed
  qed
qed

lemma best_score_Max: "best_score fm p = (if scores fm p = {} then None else Some (Max (scores fm p)))"
proof -
  have "{s. \<exists>b\<in>set (normalizeServes (pk_serves p)). blockMatch (servesFacets b) fm = Some s} = scores fm p"
    by (auto simp: scores_def blockMatch_def block_depth_exact split: if_splits)
  then show ?thesis by (simp add: best_score_def best_fold Let_def)
qed

text \<open>C15. The candidates are exactly the packs of the greatest score: the packs with a block all of whose facets the turn meets and whose
  score, facets plus depth of its nodes, no matching block of any pack exceeds; and a pack is chosen exactly when it is the only one.\<close>

theorem matchPacks_exact:
  "set (snd (matchPacks facets packs)) = {p \<in> set packs. \<exists>s\<in>scores (facetMap facets) p. \<forall>q\<in>set packs. \<forall>t\<in>scores (facetMap facets) q. t \<le> s} \<and>
   (fst (matchPacks facets packs) = Some p \<longleftrightarrow> snd (matchPacks facets packs) = [p])"
proof -
  let ?fm = "facetMap facets"
  define scored where "scored = List.map_filter (\<lambda>p. map_option (Pair p) (best_score ?fm p)) packs"
  have fin: "finite (scores ?fm q)" for q
    by (rule finite_subset[of _ "(\<lambda>b. length (servesFacets b) + sum_list (map key_depth (servesFacets b))) ` set (normalizeServes (pk_serves q))"])
      (auto simp: scores_def)
  have mem: "(q, s) \<in> set scored \<longleftrightarrow> q \<in> set packs \<and> scores ?fm q \<noteq> {} \<and> s = Max (scores ?fm q)" for q s
    by (auto simp: scored_def List.map_filter_def best_score_Max image_iff split: if_splits)
  show ?thesis
  proof (cases "scored = []")
    case True
    then have "\<And>q. q \<in> set packs \<Longrightarrow> scores ?fm q = {}" using mem by auto
    then show ?thesis using True by (auto simp: matchPacks_def Let_def scored_def[symmetric])
  next
    case False
    define peak where "peak = Max (set (map snd scored))"
    have mp: "matchPacks facets packs = (let cs = map fst (filter (\<lambda>(p, s). s = peak) scored) in (case cs of [c] \<Rightarrow> Some c | _ \<Rightarrow> None, cs))"
      using False by (simp add: matchPacks_def Let_def scored_def[symmetric] peak_def)
    have le: "t \<le> peak" if "q \<in> set packs" "t \<in> scores ?fm q" for q t
    proof -
      have "(q, Max (scores ?fm q)) \<in> set scored" using mem that by auto
      then have "Max (scores ?fm q) \<le> peak" unfolding peak_def by (intro Max_ge) force+
      then show ?thesis using Max_ge[OF fin that(2)] by linarith
    qed
    have "peak \<in> set (map snd scored)" unfolding peak_def using False by (intro Max_in) auto
    then obtain q0 where q0: "q0 \<in> set packs" "peak \<in> scores ?fm q0" using mem Max_in[OF fin] by fastforce
    have "q \<in> set (map fst (filter (\<lambda>(p, s). s = peak) scored)) \<longleftrightarrow> q \<in> set packs \<and> peak \<in> scores ?fm q" for q
    proof
      assume "q \<in> set (map fst (filter (\<lambda>(p, s). s = peak) scored))"
      then have "(q, peak) \<in> set scored" by auto
      then show "q \<in> set packs \<and> peak \<in> scores ?fm q" using mem Max_in[OF fin] by auto
    next
      assume q: "q \<in> set packs \<and> peak \<in> scores ?fm q"
      then have "Max (scores ?fm q) = peak" using le fin by (intro Max_eqI) auto
      then have "(q, peak) \<in> set scored" using mem q by auto
      then show "q \<in> set (map fst (filter (\<lambda>(p, s). s = peak) scored))" by force
    qed
    moreover have "peak \<in> scores ?fm q \<longleftrightarrow> (\<exists>s\<in>scores ?fm q. \<forall>q\<in>set packs. \<forall>t\<in>scores ?fm q. t \<le> s)" if "q \<in> set packs" for q
      using le q0 that by (metis le_antisym)
    ultimately have "set (map fst (filter (\<lambda>(p, s). s = peak) scored)) =
        {p \<in> set packs. \<exists>s\<in>scores ?fm p. \<forall>q\<in>set packs. \<forall>t\<in>scores ?fm q. t \<le> s}" by blast
    then show ?thesis unfolding mp by (auto simp: Let_def split: list.splits)
  qed
qed

section \<open>Small packs\<close>

definition demo_pack :: "string \<Rightarrow> string option \<Rightarrow> CompositeInclude list \<Rightarrow> LoadedPack" where
  "demo_pack n e is = \<lparr>pk_name = n, pk_scope = project, pk_skills = [], pk_models = None, pk_driftResponse = None, pk_activationScope = None,
     pk_usage = None, pk_team = None, pk_fsm = None, pk_procedure = None, lp_version = ''1'', lp_goal = [], lp_description = [],
     lp_requires = [], lp_conflicts = [], lp_extends = e, lp_evolves = True,
     lp_kind = Some (if is = [] then kind_focused else kind_composite), lp_includes = Some is\<rparr>"

definition demo_semver :: semver where
  "demo_semver = \<lparr>sv_validRange = (\<lambda>_. True), sv_satisfies = (\<lambda>v r. v = r)\<rparr>"

definition entry :: "string \<Rightarrow> string \<Rightarrow> CompositeInclude" where
  "entry p r = \<lparr>ci_pack_id = p, ci_semver = r\<rparr>"

text \<open>A pack that only leads into a cycle is reported with it.\<close>

definition looping :: "LoadedPack list" where
  "looping = [demo_pack ''c'' (Some ''a'') [], demo_pack ''a'' (Some ''a'') [], demo_pack ''b'' None []]"


text \<open>A composite that includes a pack directly and through another one.\<close>

definition gathered :: "LoadedPack list" where
  "gathered = [demo_pack ''m'' None [entry ''n'' ''1'', entry ''a'' ''1''], demo_pack ''a'' None [], demo_pack ''n'' None [entry ''a'' ''1'']]"

lemma gathered_out: "map_sum id (map pk_name) (expandComposites demo_semver gathered) = Inr [''m'', ''n'', ''a'']"
  by code_simp


text \<open>Of two entries for one pack the second one counts too.\<close>

lemma second_range_checked:
  "map_sum id (map pk_name) (expandComposites demo_semver [demo_pack ''m'' None [entry ''a'' ''1'', entry ''a'' ''2''], demo_pack ''a'' None []]) =
   Inl (Semver_mismatch ''m'' ''a'' ''2'' ''1'')"
  by code_simp

text \<open>A composite in force without the pack it includes.\<close>

lemma inactive_include_missing:
  "expandComposites demo_semver [demo_pack ''m'' None [entry ''a'' ''1'']] = Inl (Missing_include ''m'' ''a'' ''1'')"
  by code_simp

text \<open>The deeper of two nodes on the path of a turn is chosen.\<close>

definition served :: "string \<Rightarrow> PackV2" where
  "served d = PackV2.demo_pack\<lparr>pk_serves := Some (JObj [(''domain'', JStr d)])\<rparr>"

definition demo_turn :: Facets where
  "demo_turn = \<lparr>f_intent = ''build'', f_domain = Some ''coding.web'', f_stakes = None, f_project = True, f_confidence = ''high''\<rparr>"

lemma served_score:
  "best_score (facetMap demo_turn) (served ''coding'') = Some 2"
  "best_score (facetMap demo_turn) (served ''coding.web'') = Some 3"
  by code_simp+

theorem matchPacks_exact_witness:
  "snd (matchPacks demo_turn [served ''coding'', served ''coding.web'']) = [served ''coding.web''] \<and>
   fst (matchPacks demo_turn [served ''coding'', served ''coding.web'']) = Some (served ''coding.web'')"
proof -
  have "snd (matchPacks demo_turn [served ''coding'', served ''coding.web'']) = [served ''coding.web'']"
    by (simp add: matchPacks_def Let_def served_score List.map_filter_simps)
  then show ?thesis using matchPacks_exact[of demo_turn "[served ''coding'', served ''coding.web'']" "served ''coding.web''"] by blast
qed

end
