(* ===== verification/Capability.thy ===== *)
theory Capability
  imports Prelude
begin

text \<open>
  The capability gate (\<open>src/src/runtime/capability_gate.ts\<close>, \<open>builtin_denylist.ts\<close>) and the command that grants
  and revokes user overrides (\<open>setup/cli/permissions_state.ts\<close>, \<open>permissions_actions.ts\<close>).

  Of the standard library: regular expressions as the source writes them are syntax trees with an executable
  matcher, shown equal to the relation \<open>span\<close>; \<open>resolve\<close> of \<open>node:path\<close> is \<open>resolve_path\<close> on POSIX paths. The glob
  matcher of the package \<open>minimatch\<close>, with its option \<open>dot\<close>, and the host name that \<open>new URL\<close> finds in a text, if the
  text is a URL, are arguments. The texts of verdicts are represented by their parts.
\<close>

section \<open>Regular expressions\<close>

datatype rx = Chr "char \<Rightarrow> bool" | Word_edge | At_end | Nil_rx | Seq rx rx | Or rx rx | Many rx

definition is_word :: "char \<Rightarrow> bool" where
  "is_word c \<longleftrightarrow> (let n = of_char c :: nat in 48 \<le> n \<and> n \<le> 57 \<or> 65 \<le> n \<and> n \<le> 90 \<or> n = 95 \<or> 97 \<le> n \<and> n \<le> 122)"

definition word_before :: "string \<Rightarrow> nat \<Rightarrow> bool" where
  "word_before s i \<longleftrightarrow> 0 < i \<and> i \<le> length s \<and> is_word (s ! (i - 1))"

definition word_after :: "string \<Rightarrow> nat \<Rightarrow> bool" where
  "word_after s i \<longleftrightarrow> i < length s \<and> is_word (s ! i)"

text \<open>A repetition goes on only after a pass that has moved, as the language has it.\<close>

fun many_ends :: "nat \<Rightarrow> (nat \<Rightarrow> nat list) \<Rightarrow> nat \<Rightarrow> nat list" where
  "many_ends 0 f i = [i]"
| "many_ends (Suc n) f i = concat (map (many_ends n f) (filter (\<lambda>j. i < j) (f i))) @ [i]"

fun rx_ends :: "rx \<Rightarrow> string \<Rightarrow> nat \<Rightarrow> nat list" where
  "rx_ends (Chr P) s i = (if i < length s \<and> P (s ! i) then [Suc i] else [])"
| "rx_ends Word_edge s i = (if word_before s i \<noteq> word_after s i then [i] else [])"
| "rx_ends At_end s i = (if i = length s then [i] else [])"
| "rx_ends Nil_rx s i = [i]"
| "rx_ends (Seq a b) s i = concat (map (rx_ends b s) (rx_ends a s i))"
| "rx_ends (Or a b) s i = rx_ends a s i @ rx_ends b s i"
| "rx_ends (Many a) s i = many_ends (length s - i) (rx_ends a s) i"

definition rx_test :: "rx \<Rightarrow> string \<Rightarrow> bool" where
  "rx_test r s \<longleftrightarrow> list_ex (\<lambda>i. rx_ends r s i \<noteq> []) [0..<Suc (length s)]"

text \<open>What an expression matches, as a relation between places of the text.\<close>

primrec span :: "string \<Rightarrow> rx \<Rightarrow> nat \<Rightarrow> nat \<Rightarrow> bool" where
  "span s (Chr P) = (\<lambda>i j. i < length s \<and> P (s ! i) \<and> j = Suc i)"
| "span s Word_edge = (\<lambda>i j. i = j \<and> word_before s i \<noteq> word_after s i)"
| "span s At_end = (\<lambda>i j. i = j \<and> i = length s)"
| "span s Nil_rx = (\<lambda>i j. i = j)"
| "span s (Seq a b) = span s a OO span s b"
| "span s (Or a b) = (\<lambda>i j. span s a i j \<or> span s b i j)"
| "span s (Many a) = (span s a)\<^sup>*\<^sup>*"

lemma rtranclp_grows: "R\<^sup>*\<^sup>* i j \<Longrightarrow> (\<And>i j. R i j \<Longrightarrow> i \<le> j \<and> (i \<le> n \<longrightarrow> j \<le> n)) \<Longrightarrow> i \<le> j \<and> (i \<le> n \<longrightarrow> j \<le> n)" for n :: nat
proof (induction rule: rtranclp_induct)
  case (step y z)
  then show ?case by (meson order_trans)
qed simp

lemma span_grows: "span s r i j \<Longrightarrow> i \<le> j \<and> (i \<le> length s \<longrightarrow> j \<le> length s)"
proof (induction r arbitrary: i j)
  case (Seq a b)
  then show ?case by (fastforce dest: order_trans)
next
  case (Many a)
  then show ?case using rtranclp_grows[of "span s a" i j "length s"] by auto
qed auto

lemma many_ends_iff:
  assumes "\<And>i j. R i j \<Longrightarrow> i \<le> j \<and> (i \<le> m \<longrightarrow> j \<le> m)" "\<And>i j. i \<le> m \<Longrightarrow> j \<in> set (f i) \<longleftrightarrow> R i j"
  shows "i \<le> m \<Longrightarrow> m - i \<le> n \<Longrightarrow> j \<in> set (many_ends n f i) \<longleftrightarrow> R\<^sup>*\<^sup>* i j"
proof (induction n arbitrary: i)
  case 0
  have "i = j" if "R\<^sup>*\<^sup>* i j" using rtranclp_grows[OF that, of m] assms(1) 0 by auto
  then show ?case by auto
next
  case (Suc n)
  have step: "j \<in> set (many_ends n f k) \<longleftrightarrow> R\<^sup>*\<^sup>* k j" if "i < k" "R i k" for k
    using assms(1)[OF that(2)] that Suc.prems by (intro Suc.IH) auto
  have "R\<^sup>*\<^sup>* i j \<longleftrightarrow> i = j \<or> (\<exists>k. i < k \<and> R i k \<and> R\<^sup>*\<^sup>* k j)"
  proof
    show "R\<^sup>*\<^sup>* i j \<Longrightarrow> i = j \<or> (\<exists>k. i < k \<and> R i k \<and> R\<^sup>*\<^sup>* k j)"
    proof (induction rule: converse_rtranclp_induct)
      case (step x y)
      have "x \<le> y" using assms(1)[OF step(1)] by simp
      then show ?case using step by (cases "x = y") (blast, metis le_neq_implies_less)
    qed simp
  qed (auto intro: converse_rtranclp_into_rtranclp)
  then show ?case using step assms(2) Suc.prems(1) by auto
qed

lemma rx_ends_span: "i \<le> length s \<Longrightarrow> j \<in> set (rx_ends r s i) \<longleftrightarrow> span s r i j"
proof (induction r arbitrary: i j)
  case (Seq a b)
  have "j \<in> set (rx_ends (Seq a b) s i) \<longleftrightarrow> (\<exists>k. span s a i k \<and> j \<in> set (rx_ends b s k))"
    using Seq.IH(1)[OF Seq.prems] by auto
  then show ?case using Seq.IH(2) Seq.prems span_grows[of s a i] by (auto simp: relcompp_apply)
next
  case (Many a)
  show ?case unfolding rx_ends.simps span.simps
    by (rule many_ends_iff[where m = "length s"]) (use Many span_grows in auto)
qed auto

lemma rx_test_span: "rx_test r s \<longleftrightarrow> (\<exists>i j. i \<le> length s \<and> span s r i j)"
proof -
  have "rx_ends r s i \<noteq> [] \<longleftrightarrow> (\<exists>j. span s r i j)" if "i \<le> length s" for i
    using rx_ends_span[OF that, of _ r] by (metis list.set_intros(1) neq_Nil_conv empty_iff empty_set)
  then show ?thesis by (auto simp: rx_test_def list_ex_iff less_Suc_eq_le simp del: upt_Suc)
qed

text \<open>The notations of the source: literals, classes, groups.\<close>

definition in_class :: "string \<Rightarrow> rx" where
  "in_class cs = Chr (\<lambda>c. c \<in> set cs)"

definition seqs :: "rx list \<Rightarrow> rx" where
  "seqs rs = foldr Seq rs Nil_rx"

definition lit :: "string \<Rightarrow> rx" where
  "lit cs = seqs (map (\<lambda>c. Chr (\<lambda>d. d = c)) cs)"

fun ors :: "rx list \<Rightarrow> rx" where
  "ors [] = Chr (\<lambda>_. False)"
| "ors [r] = r"
| "ors (r # rs) = Or r (ors rs)"

definition opt :: "rx \<Rightarrow> rx" where
  "opt r = Or r Nil_rx"

definition some_of :: "rx \<Rightarrow> rx" where
  "some_of r = Seq r (Many r)"

definition blank :: rx where
  "blank = Chr is_space"

definition blanks :: rx where
  "blanks = some_of blank"

definition but :: "string \<Rightarrow> rx" where
  "but cs = Chr (\<lambda>c. c \<notin> set cs)"

definition letter :: rx where
  "letter = Chr (\<lambda>c. let n = of_char c :: nat in 97 \<le> n \<and> n \<le> 122)"

definition digit :: rx where
  "digit = Chr (\<lambda>c. let n = of_char c :: nat in 48 \<le> n \<and> n \<le> 57)"

section \<open>The sealed lists\<close>

text \<open>One expression for each line of the source, in its order.\<close>

definition RM_ROOT :: rx where
  "RM_ROOT = seqs [Word_edge, lit ''rm'', blanks, lit ''-rf'', blanks, lit ''/'', ors [blank, At_end, lit ''*'']]"

definition BUILTIN_SHELL_DENY :: "rx list" where
  "BUILTIN_SHELL_DENY = [
     RM_ROOT,
     seqs [Word_edge, lit ''rm'', blanks, lit ''-rf'', blanks, lit ''--no-preserve-root'', Word_edge],
     seqs [lit '':'', Many blank, lit ''('', Many blank, lit '')'', Many blank, lit ''{'', Many blank, lit '':'', Many blank, lit ''|'',
       Many blank, lit '':'', Many blank, lit ''&'', Many blank, lit ''}'', Many blank, lit '';'', Many blank, lit '':''],
     seqs [Word_edge, lit ''dd'', blanks, opt (Seq (Many (but ''|;&'')) blanks), lit ''if=/dev/'',
       ors [lit ''zero'', lit ''random'', lit ''urandom''], blanks, opt (Seq (Many (but ''|;&'')) blanks), lit ''of=/dev/sd''],
     seqs [lit ''>'', Many blank, lit ''/dev/sd'', letter],
     seqs [Word_edge, lit ''chmod'', blanks, opt (Seq (lit ''-R'') blanks),
       opt (seqs [Many (in_class ''ugoa''), in_class ''=+'', Many blank]),
       ors [seqs [Many (in_class ''ugoa''), some_of (lit ''7''), blank],
         seqs [lit ''777'', opt (lit ''7''), blank], seqs [lit ''777'', opt (lit ''7''), At_end]]],
     seqs [Word_edge, lit ''chmod'', blanks, opt (Seq (lit ''-R'') blanks), opt (in_class ''01234567''), lit ''777'', Word_edge],
     seqs [Word_edge, lit ''curl'', blanks, some_of (but ''|;&''), lit ''|'', Many blank, ors [lit ''sh'', lit ''bash'', lit ''zsh''], Word_edge],
     seqs [Word_edge, lit ''wget'', blanks, some_of (but ''|;&''), lit ''|'', Many blank, ors [lit ''sh'', lit ''bash'', lit ''zsh''], Word_edge],
     seqs [Word_edge, lit ''eval'', blanks, opt (in_class [CHR 0x22, CHR 0x27]), lit ''$(''],
     seqs [Word_edge, lit ''mkfs'', opt (Seq (lit ''.'') (some_of (Or letter digit))), blanks, lit ''/dev/sd''],
     seqs [Word_edge, ors [lit ''shutdown'', lit ''halt'', lit ''poweroff'', lit ''reboot''], blanks,
       Many (seqs [lit ''-'', some_of letter, blanks]), ors [lit ''now'', lit ''0'', seqs [lit ''-h'', blanks, lit ''now'']], Word_edge]]"

definition SHELL_METACHARACTERS :: "string list" where
  "SHELL_METACHARACTERS = ['';'', ''&&'', ''||'', ''`'', ''$('', ''|'', ''>'', ''>>'', ''<('']"

definition BUILTIN_PATH_DENY :: "string list" where
  "BUILTIN_PATH_DENY = [''/etc/**'', ''/usr/**'', ''/bin/**'', ''/sbin/**'', ''/boot/**'', ''/System/**'', ''/Library/**'', ''/dev/**'', ''/proc/**'',
     ''/sys/**'', ''~/.ssh/**'', ''~/.aws/credentials'', ''~/.aws/config'', ''~/.config/op/**'', ''~/.kube/config'', ''~/.gnupg/**'', ''~/.docker/config.json'']"

definition BUILTIN_CHANNEL_DENY :: "string list" where "BUILTIN_CHANNEL_DENY = []"
definition BUILTIN_BINARY_DENY :: "string list" where "BUILTIN_BINARY_DENY = []"
definition BUILTIN_SUBAGENT_DENY :: "string list" where "BUILTIN_SUBAGENT_DENY = []"

definition trustBuiltinDeny :: "string option \<Rightarrow> bool" where
  "trustBuiltinDeny env = (env \<noteq> Some ''0'')"

section \<open>Paths\<close>

text \<open>\<open>resolve(...parts)\<close> of \<open>node:path\<close> on POSIX: from the last part back to the first absolute one, else to the working
  directory, and then the segments from the root.\<close>

fun resolve_raw :: "string \<Rightarrow> string list \<Rightarrow> string \<Rightarrow> string" where
  "resolve_raw cwd [] acc = cwd @ ''/'' @ acc"
| "resolve_raw cwd (p # ps) acc = (if p = [] then resolve_raw cwd ps acc
     else if hd p = CHR ''/'' then p @ ''/'' @ acc else resolve_raw cwd ps (p @ ''/'' @ acc))"

fun norm_segs :: "string list \<Rightarrow> string list \<Rightarrow> string list" where
  "norm_segs acc [] = rev acc"
| "norm_segs acc (w # ws) = (if w = [] \<or> w = ''.'' then norm_segs acc ws else if w = ''..'' then norm_segs (tl acc) ws else norm_segs (w # acc) ws)"

definition resolve_path :: "string \<Rightarrow> string list \<Rightarrow> string" where
  "resolve_path cwd parts = ''/'' @ joinWith ''/'' (norm_segs [] (splitOn (CHR ''/'') (resolve_raw cwd (rev parts) [])))"

section \<open>The gate\<close>

datatype Capability = shell_exec | http_request | file_write | send_message | subprocess_call | subagent_call

record CapabilityRequest =
  rq_pack :: string
  rq_capability :: Capability
  rq_target :: string
  rq_method :: "string option"

datatype verdict_source = declared | user_approved | user_override | denied | denylist

text \<open>What the text of a verdict says: the list that matched, by its label, and the entry of it.\<close>

datatype reason = Matches string string | Shell_rule nat | Invalid_url string | Undeclared Capability string
  | User_answer bool Capability string | Prompt_threw

record CapabilityVerdict =
  vd_allowed :: bool
  vd_source :: verdict_source
  vd_message :: reason

text \<open>A permission block; its list stands under a name of its own for each capability (commands, domains, paths, channels,
  binaries, targets).\<close>

record PermBlock =
  pb_entries :: "string list option"
  pb_methods :: "string list option"
  pb_deny :: "string list option"

record UserOverride =
  ov_pack :: string
  ov_capability :: Capability
  ov_target :: string

text \<open>The world around the gate: packs with their blocks, the two library functions, the working and home directories, the
  prompt, which may throw, and the audit sink, which may throw after it has changed its state.\<close>

record 'a Gate =
  g_packs :: "string \<Rightarrow> (Capability \<Rightarrow> PermBlock option) option"
  g_prompt :: "(CapabilityRequest \<Rightarrow> 'a \<Rightarrow> bool option \<times> 'a) option"
  g_auditLog :: "CapabilityVerdict \<Rightarrow> CapabilityRequest \<Rightarrow> 'a \<Rightarrow> 'a \<times> bool"
  g_trust :: bool
  g_overrides :: "UserOverride list"
  g_minimatch :: "bool \<Rightarrow> string \<Rightarrow> string \<Rightarrow> bool"
  g_hostname :: "string \<Rightarrow> string option"
  g_cwd :: string
  g_home :: string

definition matchHostname :: "string \<Rightarrow> string \<Rightarrow> bool" where
  "matchHostname hostname pattern \<longleftrightarrow> (if pattern = hostname then True
     else if starts_with pattern ''*.'' then ends_with hostname (''.'' @ drop 2 pattern) else False)"

definition expandHome :: "string \<Rightarrow> string \<Rightarrow> string \<Rightarrow> string" where
  "expandHome cwd path home = (if path = ''~'' then home
     else if starts_with path ''~/'' then resolve_path cwd [home, drop 2 path] else path)"

definition expanded :: "'a Gate \<Rightarrow> string \<Rightarrow> string" where
  "expanded g path = resolve_path (g_cwd g) [expandHome (g_cwd g) path (g_home g)]"

text \<open>Loops that return at the first entry that matches.\<close>

definition first_entry :: "string \<Rightarrow> (string \<Rightarrow> bool) \<Rightarrow> string list \<Rightarrow> reason option" where
  "first_entry label P ps = map_option (Matches label) (List.find P ps)"

definition matchPathList :: "'a Gate \<Rightarrow> string \<Rightarrow> string list \<Rightarrow> string \<Rightarrow> reason option" where
  "matchPathList g target patterns label = first_entry label (\<lambda>p. g_minimatch g True (expanded g target) (expanded g p)) patterns"

definition matchGlobList :: "'a Gate \<Rightarrow> string \<Rightarrow> string list \<Rightarrow> string \<Rightarrow> reason option" where
  "matchGlobList g target patterns label = first_entry label (g_minimatch g False target) patterns"

definition has_metacharacter :: "string \<Rightarrow> bool" where
  "has_metacharacter target \<longleftrightarrow> list_ex (str_includes target) SHELL_METACHARACTERS"

definition shell_rule :: "string \<Rightarrow> nat option" where
  "shell_rule target = find_index (\<lambda>re. rx_test re target) BUILTIN_SHELL_DENY"

definition matchBuiltinDeny :: "'a Gate \<Rightarrow> CapabilityRequest \<Rightarrow> reason option" where
  "matchBuiltinDeny g req = (case rq_capability req of
     shell_exec \<Rightarrow> map_option Shell_rule (shell_rule (rq_target req))
   | file_write \<Rightarrow> matchPathList g (rq_target req) BUILTIN_PATH_DENY ''built-in path deny''
   | send_message \<Rightarrow> matchGlobList g (rq_target req) BUILTIN_CHANNEL_DENY ''built-in channel deny''
   | subprocess_call \<Rightarrow> matchGlobList g (rq_target req) BUILTIN_BINARY_DENY ''built-in binary deny''
   | subagent_call \<Rightarrow> matchGlobList g (rq_target req) BUILTIN_SUBAGENT_DENY ''built-in subagent deny''
   | http_request \<Rightarrow> if g_hostname g (rq_target req) = None then Some (Invalid_url (rq_target req)) else None)"

definition entries :: "string list option \<Rightarrow> string list" where
  "entries ps = (case ps of None \<Rightarrow> [] | Some xs \<Rightarrow> xs)"

definition matchPackDeny :: "'a Gate \<Rightarrow> CapabilityRequest \<Rightarrow> PermBlock \<Rightarrow> reason option" where
  "matchPackDeny g req b = (let denies = entries (pb_deny b) in
     if denies = [] then None
     else (case rq_capability req of
         shell_exec \<Rightarrow> first_entry ''pack-local shell deny'' (g_minimatch g False (rq_target req)) denies
       | file_write \<Rightarrow> matchPathList g (rq_target req) denies ''pack-local path deny''
       | _ \<Rightarrow> matchGlobList g (rq_target req) denies ''pack-local deny''))"

text \<open>The body of the loop over the overrides, one override at a time.\<close>

definition override_grants :: "'a Gate \<Rightarrow> CapabilityRequest \<Rightarrow> UserOverride \<Rightarrow> bool" where
  "override_grants g req ov \<longleftrightarrow> (if ov_pack ov \<noteq> rq_pack req then False
     else if ov_capability ov \<noteq> rq_capability req then False
     else (case rq_capability req of
         http_request \<Rightarrow> (case g_hostname g (rq_target req) of None \<Rightarrow> False | Some h \<Rightarrow> matchHostname h (ov_target ov))
       | file_write \<Rightarrow> g_minimatch g True (expanded g (rq_target req)) (expanded g (ov_target ov))
       | shell_exec \<Rightarrow> if ov_target ov = rq_target req then True
           else if has_metacharacter (rq_target req) then False
           else g_minimatch g False (rq_target req) (ov_target ov)
       | _ \<Rightarrow> g_minimatch g False (rq_target req) (ov_target ov)))"

definition matchOverride :: "'a Gate \<Rightarrow> CapabilityRequest \<Rightarrow> reason option" where
  "matchOverride g req = map_option (\<lambda>ov. Matches ''user override'' (ov_target ov)) (List.find (override_grants g req) (g_overrides g))"

definition toUpperCase :: "string \<Rightarrow> string" where
  "toUpperCase s = map (\<lambda>c. let n = of_char c :: nat in if 97 \<le> n \<and> n \<le> 122 then char_of (n - 32) else c) s"

definition matchAllowlist :: "'a Gate \<Rightarrow> CapabilityRequest \<Rightarrow> PermBlock \<Rightarrow> reason option" where
  "matchAllowlist g req b = (let t = rq_target req; ps = entries (pb_entries b) in (case rq_capability req of
     shell_exec \<Rightarrow> if t \<in> set ps then Some (Matches ''shell allowlist exact'' t)
       else if has_metacharacter t then None
       else first_entry ''shell allowlist glob'' (g_minimatch g False t) ps
   | http_request \<Rightarrow> (case g_hostname g t of
         None \<Rightarrow> None
       | Some h \<Rightarrow>
           if toUpperCase (case rq_method req of None \<Rightarrow> ''GET'' | Some m \<Rightarrow> m) \<notin> set (case pb_methods b of None \<Rightarrow> [''GET''] | Some ms \<Rightarrow> ms) then None
           else first_entry ''http allowlist'' (matchHostname h) ps)
   | file_write \<Rightarrow> matchPathList g t ps ''file allowlist''
   | send_message \<Rightarrow> matchGlobList g t ps ''channel allowlist''
   | subprocess_call \<Rightarrow> matchGlobList g t ps ''binary allowlist''
   | subagent_call \<Rightarrow> matchGlobList g t ps ''subagent allowlist''))"

definition audit :: "'a Gate \<Rightarrow> CapabilityVerdict \<Rightarrow> CapabilityRequest \<Rightarrow> 'a \<Rightarrow> CapabilityVerdict \<times> 'a" where
  "audit g v req st = (v, fst (g_auditLog g v req st))"

definition verdict :: "bool \<Rightarrow> verdict_source \<Rightarrow> reason \<Rightarrow> CapabilityVerdict" where
  "verdict b src r = \<lparr>vd_allowed = b, vd_source = src, vd_message = r\<rparr>"

definition handleUndeclared :: "'a Gate \<Rightarrow> CapabilityRequest \<Rightarrow> 'a \<Rightarrow> CapabilityVerdict \<times> 'a" where
  "handleUndeclared g req st = (case g_prompt g of
     None \<Rightarrow> audit g (verdict False denied (Undeclared (rq_capability req) (rq_pack req))) req st
   | Some prompt \<Rightarrow> (case prompt req st of
         (Some True, st1) \<Rightarrow> audit g (verdict True user_approved (User_answer True (rq_capability req) (rq_target req))) req st1
       | (Some False, st1) \<Rightarrow> audit g (verdict False denied (User_answer False (rq_capability req) (rq_target req))) req st1
       | (None, st1) \<Rightarrow> audit g (verdict False denied Prompt_threw) req st1))"

definition gate_check :: "'a Gate \<Rightarrow> CapabilityRequest \<Rightarrow> 'a \<Rightarrow> CapabilityVerdict \<times> 'a" where
  "gate_check g req st = (let b = (case g_packs g (rq_pack req) of None \<Rightarrow> None | Some perms \<Rightarrow> perms (rq_capability req)) in
     (case if g_trust g then matchBuiltinDeny g req else None of
       Some r \<Rightarrow> audit g (verdict False denylist r) req st
     | None \<Rightarrow> (case Option.bind b (matchPackDeny g req) of
         Some r \<Rightarrow> audit g (verdict False denylist r) req st
       | None \<Rightarrow> (case matchOverride g req of
           Some r \<Rightarrow> audit g (verdict True user_override r) req st
         | None \<Rightarrow> (case Option.bind b (matchAllowlist g req) of
             Some r \<Rightarrow> audit g (verdict True declared r) req st
           | None \<Rightarrow> handleUndeclared g req st)))))"

section \<open>Grants and revocations\<close>

record OverrideRecord = UserOverride +
  or_granted_at :: string

definition toRuntimeOverrides :: "OverrideRecord list \<Rightarrow> UserOverride list" where
  "toRuntimeOverrides records = map UserOverride.truncate records"

definition resolveHome :: "string \<Rightarrow> string \<Rightarrow> string \<Rightarrow> string" where
  "resolveHome cwd path home = (if path = ''~'' then resolve_path cwd [home]
     else if starts_with path ''~/'' then resolve_path cwd [home, drop 2 path] else resolve_path cwd [path])"

definition denylistRejectionFor :: "'a Gate \<Rightarrow> Capability \<Rightarrow> string \<Rightarrow> reason option" where
  "denylistRejectionFor g cap target = (if \<not> g_trust g then None else (case cap of
     shell_exec \<Rightarrow> map_option Shell_rule (shell_rule target)
   | file_write \<Rightarrow> (let place = resolveHome (g_cwd g) target (g_home g)
       in first_entry ''path'' (\<lambda>p. g_minimatch g True place (resolveHome (g_cwd g) p (g_home g))) BUILTIN_PATH_DENY)
   | send_message \<Rightarrow> matchGlobList g target BUILTIN_CHANNEL_DENY ''channel''
   | subprocess_call \<Rightarrow> matchGlobList g target BUILTIN_BINARY_DENY ''binary''
   | subagent_call \<Rightarrow> matchGlobList g target BUILTIN_SUBAGENT_DENY ''subagent''
   | http_request \<Rightarrow> None))"

definition parseCapability :: "string \<Rightarrow> Capability option" where
  "parseCapability raw = map_of [(''shell_exec'', shell_exec), (''http_request'', http_request), (''file_write'', file_write),
     (''send_message'', send_message), (''subprocess_call'', subprocess_call), (''subagent_call'', subagent_call)] raw"

datatype permission_error = Unknown_capability string | Target_required | Rejected reason | Exists_already string | No_override

text \<open>The file before a command and, unless it fails, the file it writes.\<close>

definition actGrant :: "'a Gate \<Rightarrow> string \<Rightarrow> string \<Rightarrow> string \<Rightarrow> string option \<Rightarrow> OverrideRecord list \<Rightarrow> permission_error + OverrideRecord list" where
  "actGrant g now pack capability target existing = (case parseCapability capability of
     None \<Rightarrow> Inl (Unknown_capability capability)
   | Some cap \<Rightarrow> (case target of None \<Rightarrow> Inl Target_required | Some t \<Rightarrow>
       if t = [] then Inl Target_required
       else (case denylistRejectionFor g cap t of
           Some r \<Rightarrow> Inl (Rejected r)
         | None \<Rightarrow> (case List.find (\<lambda>r. ov_pack r = pack \<and> ov_capability r = cap \<and> ov_target r = t) existing of
             Some d \<Rightarrow> Inl (Exists_already (or_granted_at d))
           | None \<Rightarrow> Inr (existing @ [\<lparr>ov_pack = pack, ov_capability = cap, ov_target = t, or_granted_at = now\<rparr>])))))"

definition actRevoke :: "string \<Rightarrow> string \<Rightarrow> string option \<Rightarrow> OverrideRecord list \<Rightarrow> permission_error + OverrideRecord list" where
  "actRevoke pack capability target existing = (case parseCapability capability of
     None \<Rightarrow> Inl (Unknown_capability capability)
   | Some cap \<Rightarrow> (let left = filter (\<lambda>r. ov_pack r \<noteq> pack \<or> ov_capability r \<noteq> cap \<or> (target \<noteq> None \<and> target \<noteq> Some (ov_target r))) existing
       in if length existing - length left = 0 then Inl No_override else Inr left))"

datatype permission_command = Grant string string string "string option" | Revoke string string "string option"

text \<open>A command that fails leaves the file as it is.\<close>

definition run_command :: "'a Gate \<Rightarrow> permission_command \<Rightarrow> OverrideRecord list \<Rightarrow> OverrideRecord list" where
  "run_command g c file = (case (case c of Grant now pack cap t \<Rightarrow> actGrant g now pack cap t file | Revoke pack cap t \<Rightarrow> actRevoke pack cap t file) of
     Inl e \<Rightarrow> file | Inr file1 \<Rightarrow> file1)"

section \<open>Facts about paths\<close>

definition proper_seg :: "string \<Rightarrow> bool" where
  "proper_seg w \<longleftrightarrow> w \<noteq> [] \<and> w \<noteq> ''.'' \<and> w \<noteq> ''..'' \<and> CHR ''/'' \<notin> set w"

lemma norm_segs_proper:
  "list_all proper_seg acc \<Longrightarrow> list_all (\<lambda>w. CHR ''/'' \<notin> set w) ws \<Longrightarrow> list_all proper_seg (norm_segs acc ws)"
proof (induction acc ws rule: norm_segs.induct)
  case (2 acc w ws)
  have "list_all proper_seg (tl acc)" using 2(4) by (cases acc) auto
  moreover have "proper_seg w" if "w \<noteq> []" "w \<noteq> ''.''" "w \<noteq> ''..''" using that 2(5) by (simp add: proper_seg_def)
  ultimately show ?case using 2 by simp
qed (simp add: list_all_iff)

lemma norm_segs_same: "list_all proper_seg ws \<Longrightarrow> norm_segs acc ws = rev acc @ ws"
  by (induction ws arbitrary: acc) (auto simp: proper_seg_def)

lemma norm_segs_append: "norm_segs acc (us @ ws) = norm_segs (rev (norm_segs acc us)) ws"
  by (induction acc us rule: norm_segs.induct) auto

lemma split_join:
  "list_all (\<lambda>w. CHR ''/'' \<notin> set w) ws \<Longrightarrow> ws \<noteq> [] \<Longrightarrow> splitOn (CHR ''/'') (joinWith ''/'' ws) = ws"
  by (rule splitOn_joinWith) (auto simp: list_all_iff)

lemma resolve_path_segs:
  obtains ws where "list_all proper_seg ws" "resolve_path cwd parts = ''/'' @ joinWith ''/'' ws"
proof
  show "list_all proper_seg (norm_segs [] (splitOn (CHR ''/'') (resolve_raw cwd (rev parts) [])))"
    by (rule norm_segs_proper) (auto simp: list_all_iff dest: splitOn_no_sep)
qed (simp add: resolve_path_def)

lemma resolve_canonical:
  assumes "list_all proper_seg ws"
  shows "resolve_path cwd [''/'' @ joinWith ''/'' ws] = ''/'' @ joinWith ''/'' ws"
proof -
  have "splitOn (CHR ''/'') (''/'' @ joinWith ''/'' ws @ ''/'') = [] # (if ws = [] then [[], []] else ws @ [[]])"
  proof (cases "ws = []")
    case False
    have "list_all (\<lambda>w. CHR ''/'' \<notin> set w) ws" using assms by (auto simp: list_all_iff proper_seg_def)
    then have "splitOn (CHR ''/'') (joinWith ''/'' ws) = ws" using False by (rule split_join)
    then show ?thesis using False splitOn_append[of "CHR ''/''" "joinWith ''/'' ws" "[]"] by simp
  qed simp
  then have "norm_segs [] (splitOn (CHR ''/'') (resolve_raw cwd (rev [''/'' @ joinWith ''/'' ws]) [])) = ws"
    using assms by (auto simp: norm_segs_append norm_segs_same)
  then show ?thesis by (simp add: resolve_path_def)
qed

lemma resolve_idem [simp]: "resolve_path cwd [resolve_path cwd parts] = resolve_path cwd parts"
  by (rule resolve_path_segs[of cwd parts]) (simp only: resolve_canonical)

lemma resolveHome_expanded: "resolveHome (g_cwd g) p (g_home g) = expanded g p"
  by (simp add: resolveHome_def expanded_def expandHome_def)

section \<open>What the gate decides\<close>

text \<open>One entry covers one target: the same for overrides and for the lists of packs.\<close>

definition covers :: "'a Gate \<Rightarrow> Capability \<Rightarrow> string \<Rightarrow> string \<Rightarrow> bool" where
  "covers g cap t p \<longleftrightarrow> (case cap of
     shell_exec \<Rightarrow> t = p \<or> (\<forall>m\<in>set SHELL_METACHARACTERS. \<nexists>a b. t = a @ m @ b) \<and> g_minimatch g False t p
   | http_request \<Rightarrow> \<exists>h. g_hostname g t = Some h \<and> matchHostname h p
   | file_write \<Rightarrow> g_minimatch g True (expanded g t) (expanded g p)
   | _ \<Rightarrow> g_minimatch g False t p)"

definition block_of :: "'a Gate \<Rightarrow> CapabilityRequest \<Rightarrow> PermBlock option" where
  "block_of g req = Option.bind (g_packs g (rq_pack req)) (\<lambda>perms. perms (rq_capability req))"

definition sealed :: "'a Gate \<Rightarrow> Capability \<Rightarrow> string \<Rightarrow> bool" where
  "sealed g cap t \<longleftrightarrow> g_trust g \<and> (case cap of
     shell_exec \<Rightarrow> \<exists>re\<in>set BUILTIN_SHELL_DENY. \<exists>i j. i \<le> length t \<and> span t re i j
   | file_write \<Rightarrow> \<exists>p\<in>set BUILTIN_PATH_DENY. g_minimatch g True (expanded g t) (expanded g p)
   | http_request \<Rightarrow> g_hostname g t = None
   | _ \<Rightarrow> False)"

definition forbidden :: "'a Gate \<Rightarrow> CapabilityRequest \<Rightarrow> bool" where
  "forbidden g req \<longleftrightarrow> (\<exists>b p. block_of g req = Some b \<and> p \<in> set (entries (pb_deny b)) \<and>
     (if rq_capability req = file_write then g_minimatch g True (expanded g (rq_target req)) (expanded g p) else g_minimatch g False (rq_target req) p))"

definition overridden :: "'a Gate \<Rightarrow> CapabilityRequest \<Rightarrow> bool" where
  "overridden g req \<longleftrightarrow> (\<exists>ov\<in>set (g_overrides g). ov_pack ov = rq_pack req \<and> ov_capability ov = rq_capability req \<and>
     covers g (rq_capability req) (rq_target req) (ov_target ov))"

definition listed :: "'a Gate \<Rightarrow> CapabilityRequest \<Rightarrow> bool" where
  "listed g req \<longleftrightarrow> (\<exists>b p. block_of g req = Some b \<and> p \<in> set (entries (pb_entries b)) \<and> covers g (rq_capability req) (rq_target req) p \<and>
     (rq_capability req = http_request \<longrightarrow>
        toUpperCase (case rq_method req of None \<Rightarrow> ''GET'' | Some m \<Rightarrow> m) \<in> set (case pb_methods b of None \<Rightarrow> [''GET''] | Some ms \<Rightarrow> ms)))"

definition asked :: "'a Gate \<Rightarrow> CapabilityRequest \<Rightarrow> 'a \<Rightarrow> bool option \<times> 'a" where
  "asked g req st = (case g_prompt g of None \<Rightarrow> (None, st) | Some prompt \<Rightarrow> prompt req st)"

lemma first_entry_iff: "first_entry label P ps \<noteq> None \<longleftrightarrow> (\<exists>p\<in>set ps. P p)"
  by (auto simp: first_entry_def find_None_iff)

lemma has_metacharacter_iff: "has_metacharacter t \<longleftrightarrow> (\<exists>m\<in>set SHELL_METACHARACTERS. \<exists>a b. t = a @ m @ b)"
  by (simp add: has_metacharacter_def list_ex_iff includes_iff)

lemma shell_rule_iff: "shell_rule t \<noteq> None \<longleftrightarrow> (\<exists>re\<in>set BUILTIN_SHELL_DENY. \<exists>i j. i \<le> length t \<and> span t re i j)"
  by (simp only: shell_rule_def find_index_None_iff rx_test_span) blast

lemma sealed_iff: "sealed g (rq_capability req) (rq_target req) \<longleftrightarrow> (if g_trust g then matchBuiltinDeny g req else None) \<noteq> None"
  by (cases "rq_capability req")
    (simp_all add: sealed_def matchBuiltinDeny_def matchPathList_def matchGlobList_def first_entry_iff shell_rule_iff
      BUILTIN_CHANNEL_DENY_def BUILTIN_BINARY_DENY_def BUILTIN_SUBAGENT_DENY_def first_entry_def[of _ _ "[]"] del: not_None_eq)

lemma forbidden_iff: "forbidden g req \<longleftrightarrow> Option.bind (block_of g req) (matchPackDeny g req) \<noteq> None"
proof (cases "block_of g req")
  case (Some b)
  have "matchPackDeny g req b \<noteq> None \<longleftrightarrow> (\<exists>p\<in>set (entries (pb_deny b)).
     (if rq_capability req = file_write then g_minimatch g True (expanded g (rq_target req)) (expanded g p) else g_minimatch g False (rq_target req) p))"
    by (cases "rq_capability req")
      (simp_all add: matchPackDeny_def Let_def matchPathList_def matchGlobList_def first_entry_iff del: not_None_eq)
  then show ?thesis using Some by (auto simp: forbidden_def)
qed (simp add: forbidden_def)

lemma covers_override: "override_grants g req ov \<longleftrightarrow> ov_pack ov = rq_pack req \<and> ov_capability ov = rq_capability req \<and>
    covers g (rq_capability req) (rq_target req) (ov_target ov)"
  by (cases "rq_capability req") (auto simp: override_grants_def covers_def has_metacharacter_iff split: option.splits)

lemma overridden_iff: "overridden g req \<longleftrightarrow> matchOverride g req \<noteq> None"
  by (auto simp: overridden_def matchOverride_def find_None_iff covers_override)

lemma listed_iff: "listed g req \<longleftrightarrow> Option.bind (block_of g req) (matchAllowlist g req) \<noteq> None"
proof (cases "block_of g req")
  case (Some b)
  have "matchAllowlist g req b \<noteq> None \<longleftrightarrow> (\<exists>p\<in>set (entries (pb_entries b)). covers g (rq_capability req) (rq_target req) p \<and>
     (rq_capability req = http_request \<longrightarrow>
        toUpperCase (case rq_method req of None \<Rightarrow> ''GET'' | Some m \<Rightarrow> m) \<in> set (case pb_methods b of None \<Rightarrow> [''GET''] | Some ms \<Rightarrow> ms)))"
  proof (cases "rq_capability req")
    case http_request
    then show ?thesis
      by (cases "g_hostname g (rq_target req)") (simp_all add: matchAllowlist_def Let_def covers_def first_entry_iff del: not_None_eq)
  next
    case shell_exec
    have m: "has_metacharacter (rq_target req) \<longleftrightarrow> \<not> (\<forall>m\<in>set SHELL_METACHARACTERS. \<nexists>a b. rq_target req = a @ m @ b)"
      by (simp add: has_metacharacter_iff)
    show ?thesis using first_entry_iff[of _ "g_minimatch g False (rq_target req)" "entries (pb_entries b)"]
      by (auto simp: shell_exec matchAllowlist_def Let_def covers_def m)
  qed (simp_all add: matchAllowlist_def Let_def covers_def matchPathList_def matchGlobList_def first_entry_iff del: not_None_eq)
  then show ?thesis using Some by (auto simp: listed_def)
qed (simp add: listed_def)

lemmas gate_iffs = sealed_iff forbidden_iff overridden_iff listed_iff

lemma block_case: "(case g_packs g (rq_pack req) of None \<Rightarrow> None | Some perms \<Rightarrow> perms (rq_capability req)) = block_of g req"
  by (simp add: block_of_def split: option.split)

lemma gate_check_steps:
  "gate_check g req st =
    (case if g_trust g then matchBuiltinDeny g req else None of
       Some r \<Rightarrow> audit g (verdict False denylist r) req st
     | None \<Rightarrow> (case Option.bind (block_of g req) (matchPackDeny g req) of
         Some r \<Rightarrow> audit g (verdict False denylist r) req st
       | None \<Rightarrow> (case matchOverride g req of
           Some r \<Rightarrow> audit g (verdict True user_override r) req st
         | None \<Rightarrow> (case Option.bind (block_of g req) (matchAllowlist g req) of
             Some r \<Rightarrow> audit g (verdict True declared r) req st
           | None \<Rightarrow> handleUndeclared g req st))))"
  by (simp only: gate_check_def Let_def block_case)

lemma audit_source: "vd_source (fst (audit g (verdict b src r) req st)) = src \<and> vd_allowed (fst (audit g (verdict b src r) req st)) = b"
  by (simp add: audit_def verdict_def)

lemma undeclared_source:
  "vd_source (fst (handleUndeclared g req st)) = (if fst (asked g req st) = Some True then user_approved else denied) \<and>
   vd_allowed (fst (handleUndeclared g req st)) = (fst (asked g req st) = Some True)"
  by (auto simp: handleUndeclared_def asked_def audit_source split: option.splits prod.splits bool.splits)

lemma gate_check_source:
  "vd_source (fst (gate_check g req st)) =
    (if sealed g (rq_capability req) (rq_target req) \<or> forbidden g req then denylist
     else if overridden g req then user_override
     else if listed g req then declared
     else if fst (asked g req st) = Some True then user_approved else denied) \<and>
   (vd_allowed (fst (gate_check g req st)) \<longleftrightarrow> vd_source (fst (gate_check g req st)) \<in> {user_override, declared, user_approved})"
proof (cases "if g_trust g then matchBuiltinDeny g req else None")
  case 1: None
  show ?thesis
  proof (cases "Option.bind (block_of g req) (matchPackDeny g req)")
    case 2: None
    show ?thesis
    proof (cases "matchOverride g req")
      case 3: None
      show ?thesis
        by (cases "Option.bind (block_of g req) (matchAllowlist g req)")
          (simp_all only: gate_check_steps gate_iffs 1 2 3 option.case audit_source undeclared_source, simp_all)
    qed (simp_all only: gate_check_steps gate_iffs 1 2 option.case audit_source, simp)
  qed (simp_all only: gate_check_steps gate_iffs 1 option.case audit_source, simp)
qed (simp_all only: gate_check_steps gate_iffs option.case audit_source, simp)

lemma audit_state: "snd (audit g v req st) = fst (g_auditLog g (fst (audit g v req st)) req st)"
  by (simp add: audit_def)

lemma undeclared_state:
  "snd (handleUndeclared g req st) = fst (g_auditLog g (fst (handleUndeclared g req st)) req (snd (asked g req st)))"
  by (auto simp: handleUndeclared_def asked_def audit_def split: option.splits prod.splits bool.splits)

lemma gate_check_state:
  "snd (gate_check g req st) = fst (g_auditLog g (fst (gate_check g req st)) req
     (if sealed g (rq_capability req) (rq_target req) \<or> forbidden g req \<or> overridden g req \<or> listed g req then st else snd (asked g req st)))"
proof (cases "if g_trust g then matchBuiltinDeny g req else None")
  case 1: None
  show ?thesis
  proof (cases "Option.bind (block_of g req) (matchPackDeny g req)")
    case 2: None
    show ?thesis
    proof (cases "matchOverride g req")
      case 3: None
      show ?thesis
        by (cases "Option.bind (block_of g req) (matchAllowlist g req)")
          (simp_all only: gate_check_steps gate_iffs 1 2 3 option.case audit_state undeclared_state, simp_all)
    qed (simp_all only: gate_check_steps gate_iffs 1 2 option.case audit_state, simp)
  qed (simp_all only: gate_check_steps gate_iffs 1 option.case audit_state, simp)
qed (simp_all only: gate_check_steps gate_iffs option.case audit_state, simp)

text \<open>C10. The gate decides by five questions in this order, whatever the packs, overrides, prompt and audit sink are: is the
  target sealed, does the pack forbid it, does an override of this pack and capability cover it, does the pack list it, does
  the prompt, if there is one and it does not throw, answer yes; and each check is handed to the audit sink once, with its
  verdict, whether or not the sink throws.\<close>

theorem gate_exact:
  "vd_source (fst (gate_check g req st)) =
    (if sealed g (rq_capability req) (rq_target req) \<or> forbidden g req then denylist
     else if overridden g req then user_override
     else if listed g req then declared
     else if fst (asked g req st) = Some True then user_approved else denied) \<and>
   (vd_allowed (fst (gate_check g req st)) \<longleftrightarrow> vd_source (fst (gate_check g req st)) \<in> {user_override, declared, user_approved}) \<and>
   snd (gate_check g req st) = fst (g_auditLog g (fst (gate_check g req st)) req
     (if sealed g (rq_capability req) (rq_target req) \<or> forbidden g req \<or> overridden g req \<or> listed g req then st else snd (asked g req st)))"
  using gate_check_source[of g req st] gate_check_state[of g req st] by blast

section \<open>Shell commands\<close>

text \<open>A command with a metacharacter that the gate lets through without asking is not sealed, not forbidden by its pack, and
  stands word for word among the commands of the pack or the overrides for it: no glob lets it in.\<close>

theorem metacharacters_need_exact_entry:
  assumes "rq_capability req = shell_exec" "rq_target req = a @ m @ b" "m \<in> set SHELL_METACHARACTERS"
    "vd_allowed (fst (gate_check g req st))" "vd_source (fst (gate_check g req st)) \<noteq> user_approved"
  shows "\<not> sealed g shell_exec (rq_target req) \<and> \<not> forbidden g req \<and>
    ((\<exists>ov\<in>set (g_overrides g). ov_pack ov = rq_pack req \<and> ov_capability ov = shell_exec \<and> ov_target ov = rq_target req) \<or>
     (\<exists>blk. block_of g req = Some blk \<and> rq_target req \<in> set (entries (pb_entries blk))))"
proof -
  have c: "covers g shell_exec (rq_target req) p \<longleftrightarrow> rq_target req = p" for p using assms(2,3) by (auto simp: covers_def)
  have s: "\<not> (sealed g shell_exec (rq_target req) \<or> forbidden g req)" "overridden g req \<or> listed g req"
    using gate_check_source[of g req st] assms(1,4,5) by (auto split: if_splits)
  then show ?thesis using assms(1) by (auto simp: overridden_def listed_def c)
qed

lemma span_lit: "i \<le> length s \<Longrightarrow> span s (lit cs) i j \<longleftrightarrow> j = i + length cs \<and> j \<le> length s \<and> take (length cs) (drop i s) = cs"
proof (induction cs arbitrary: i)
  case (Cons c cs)
  show ?case
  proof (cases "i < length s")
    case True
    then have "drop i s = s ! i # drop (Suc i) s" by (simp add: Cons_nth_drop_Suc)
    then show ?thesis using True Cons.IH[of "Suc i"] by (auto simp: lit_def seqs_def relcompp_apply)
  next
    case False
    then show ?thesis by (auto simp: lit_def seqs_def relcompp_apply)
  qed
qed (auto simp: lit_def seqs_def)

lemma span_many:
  assumes "i \<le> length s"
  shows "span s (Many (Chr P)) i j \<longleftrightarrow> i \<le> j \<and> j \<le> length s \<and> (\<forall>k. i \<le> k \<and> k < j \<longrightarrow> P (s ! k))"
proof
  assume "span s (Many (Chr P)) i j"
  then have "(span s (Chr P))\<^sup>*\<^sup>* i j" by simp
  then show "i \<le> j \<and> j \<le> length s \<and> (\<forall>k. i \<le> k \<and> k < j \<longrightarrow> P (s ! k))"
    using assms by (induction rule: rtranclp_induct) (auto simp: less_Suc_eq)
next
  assume r: "i \<le> j \<and> j \<le> length s \<and> (\<forall>k. i \<le> k \<and> k < j \<longrightarrow> P (s ! k))"
  have "(span s (Chr P))\<^sup>*\<^sup>* i (i + n)" if "i + n \<le> j" for n
    using that r by (induction n) (auto intro: rtranclp.rtrancl_into_rtrancl)
  from this[of "j - i"] show "span s (Many (Chr P)) i j" using r by simp
qed

lemma span_blanks:
  assumes "i \<le> length s"
  shows "span s blanks i j \<longleftrightarrow> i < j \<and> j \<le> length s \<and> list_all is_space (take (j - i) (drop i s))"
proof (cases "i < length s")
  case True
  have "span s blanks i j \<longleftrightarrow> is_space (s ! i) \<and> span s (Many (Chr is_space)) (Suc i) j"
    using True by (auto simp: blanks_def some_of_def blank_def relcompp_apply)
  also have "\<dots> \<longleftrightarrow> i < j \<and> j \<le> length s \<and> (\<forall>k. i \<le> k \<and> k < j \<longrightarrow> is_space (s ! k))"
  proof (cases "i < j")
    case lt: True
    have "(\<forall>k. i \<le> k \<and> k < j \<longrightarrow> is_space (s ! k)) \<longleftrightarrow> is_space (s ! i) \<and> (\<forall>k. Suc i \<le> k \<and> k < j \<longrightarrow> is_space (s ! k))"
      using lt by (metis Suc_leI Suc_leD le_eq_less_or_eq)
    then show ?thesis using True lt by (auto simp: span_many simp del: span.simps)
  next
    case False
    then show ?thesis using True by (simp add: span_many del: span.simps)
  qed
  also have "\<dots> \<longleftrightarrow> i < j \<and> j \<le> length s \<and> list_all is_space (take (j - i) (drop i s))"
  proof (cases "i < j \<and> j \<le> length s")
    case r: True
    have "list_all is_space (take (j - i) (drop i s)) \<longleftrightarrow> (\<forall>k<j - i. is_space (s ! (i + k)))"
    proof -
      have "length (take (j - i) (drop i s)) = j - i" using r by auto
      then show ?thesis using r unfolding list_all_length by simp
    qed
    also have "\<dots> \<longleftrightarrow> (\<forall>k. i \<le> k \<and> k < j \<longrightarrow> is_space (s ! k))"
      by (auto simp: le_iff_add less_diff_conv add.commute)
    finally show ?thesis using r by blast
  qed blast
  finally show ?thesis .
next
  case False
  then show ?thesis by (auto simp: blanks_def some_of_def blank_def relcompp_apply)
qed

lemma span_lit_drop: "i \<le> length s \<Longrightarrow> span s (lit cs) i j \<longleftrightarrow> j = i + length cs \<and> drop i s = cs @ drop j s"
proof -
  assume i: "i \<le> length s"
  have "j \<le> length s \<and> take (length cs) (drop i s) = cs \<longleftrightarrow> drop i s = cs @ drop j s" if j: "j = i + length cs"
  proof
    show "j \<le> length s \<and> take (length cs) (drop i s) = cs \<Longrightarrow> drop i s = cs @ drop j s"
      by (metis append_take_drop_id drop_drop add.commute j)
    assume d: "drop i s = cs @ drop j s"
    then have "length s - i = length cs + (length s - j)" by (metis length_append length_drop)
    then show "j \<le> length s \<and> take (length cs) (drop i s) = cs" using i j by (cases "j \<le> length s") (simp_all add: d)
  qed
  then show ?thesis using span_lit[OF i] by blast
qed

lemma span_blanks_drop:
  assumes "i \<le> length s"
  shows "span s blanks i j \<longleftrightarrow> (\<exists>w. w \<noteq> [] \<and> list_all is_space w \<and> j = i + length w \<and> drop i s = w @ drop j s)"
proof
  assume "span s blanks i j"
  then have r: "i < j" "j \<le> length s" "list_all is_space (take (j - i) (drop i s))" using span_blanks[OF assms] by auto
  show "\<exists>w. w \<noteq> [] \<and> list_all is_space w \<and> j = i + length w \<and> drop i s = w @ drop j s"
    using r by (intro exI[of _ "take (j - i) (drop i s)"]) (auto, metis append_take_drop_id drop_drop le_add_diff_inverse2 less_imp_le)
next
  assume "\<exists>w. w \<noteq> [] \<and> list_all is_space w \<and> j = i + length w \<and> drop i s = w @ drop j s"
  then obtain w where w: "w \<noteq> []" "list_all is_space w" "j = i + length w" "drop i s = w @ drop j s" by blast
  have "length s - i = length w + (length s - j)" using w(4) by (metis length_append length_drop)
  then have "j \<le> length s" using assms w(1,3) by (cases "j \<le> length s") auto
  moreover have "take (j - i) (drop i s) = w" using w(3) by (simp add: w(4))
  ultimately show "span s blanks i j" using span_blanks[OF assms] w by auto
qed

lemma word_before_take: "i \<le> length s \<Longrightarrow> word_before s i \<longleftrightarrow> take i s \<noteq> [] \<and> is_word (last (take i s))"
proof (cases "i = 0")
  case False
  assume i: "i \<le> length s"
  then have "take i s \<noteq> []" using False by auto
  then show ?thesis using False i last_conv_nth[of "take i s"] by (simp add: word_before_def)
qed (simp add: word_before_def)

lemma drop_within:
  assumes "i \<le> length s" "drop i s = w @ drop (i + length w) s"
  shows "i + length w \<le> length s"
proof -
  have "length s - i = length w + (length s - (i + length w))" by (metis assms(2) length_append length_drop)
  then show ?thesis using assms(1) by (cases "i + length w \<le> length s") auto
qed

definition removes_root :: "string \<Rightarrow> bool" where
  "removes_root s \<longleftrightarrow> (\<exists>a u v b. s = a @ ''rm'' @ u @ ''-rf'' @ v @ ''/'' @ b \<and> (a = [] \<or> \<not> is_word (last a)) \<and>
     u \<noteq> [] \<and> list_all is_space u \<and> v \<noteq> [] \<and> list_all is_space v \<and> (b = [] \<or> is_space (hd b) \<or> hd b = CHR ''*''))"

lemma rm_tail:
  assumes "i \<le> length s"
  shows "span s (Seq (ors [blank, At_end, lit ''*'']) Nil_rx) i j \<longrightarrow> (drop i s = [] \<or> is_space (hd (drop i s)) \<or> hd (drop i s) = CHR ''*'')"
    and "drop i s = [] \<or> is_space (hd (drop i s)) \<or> hd (drop i s) = CHR ''*'' \<Longrightarrow> \<exists>j. span s (Seq (ors [blank, At_end, lit ''*'']) Nil_rx) i j"
  using assms
  by (cases "i < length s"; auto simp: relcompp_apply blank_def lit_def seqs_def hd_drop_conv_nth)+

lemma seqs_Cons: "span s (seqs (r # rs)) i j \<longleftrightarrow> (\<exists>k. span s r i k \<and> span s (seqs rs) k j)"
  by (auto simp: seqs_def relcompp_apply)

lemma seqs_last: "seqs [r] = Seq r Nil_rx"
  by (simp add: seqs_def)

lemmas seqs_Cons2 = seqs_Cons[where rs = "x # xs" for x xs]

lemma rm_root_span: "span s RM_ROOT i j \<longleftrightarrow> (\<exists>k1 k2 k3 k4 k5. word_before s i \<noteq> word_after s i \<and> span s (lit ''rm'') i k1 \<and> span s blanks k1 k2 \<and>
    span s (lit ''-rf'') k2 k3 \<and> span s blanks k3 k4 \<and> span s (lit ''/'') k4 k5 \<and> span s (Seq (ors [blank, At_end, lit ''*'']) Nil_rx) k5 j)"
  unfolding RM_ROOT_def seqs_Cons2 seqs_last span.simps(2) by blast

lemma first_char: "drop i s = c # r \<Longrightarrow> i < length s \<and> s ! i = c"
  by (metis drop_all hd_drop_conv_nth linorder_not_less list.distinct(1) list.sel(1))

lemma rm_root_parts:
  assumes "i \<le> length s"
  shows "(\<exists>j. span s RM_ROOT i j) \<longleftrightarrow> \<not> word_before s i \<and> (\<exists>u v b. drop i s = ''rm'' @ u @ ''-rf'' @ v @ ''/'' @ b \<and>
     u \<noteq> [] \<and> list_all is_space u \<and> v \<noteq> [] \<and> list_all is_space v \<and> (b = [] \<or> is_space (hd b) \<or> hd b = CHR ''*''))" (is "?L \<longleftrightarrow> ?R")
proof
  assume ?L
  then obtain j k1 k2 k3 k4 k5 where k: "word_before s i \<noteq> word_after s i" "span s (lit ''rm'') i k1" "span s blanks k1 k2" "span s (lit ''-rf'') k2 k3"
    "span s blanks k3 k4" "span s (lit ''/'') k4 k5" "span s (Seq (ors [blank, At_end, lit ''*'']) Nil_rx) k5 j"
    unfolding rm_root_span by blast
  have le: "k1 \<le> length s" "k2 \<le> length s" "k3 \<le> length s" "k4 \<le> length s" "k5 \<le> length s"
    using assms k(2-6) span_grows by blast+
  have d: "drop i s = ''rm'' @ drop k1 s" using k(2) span_lit_drop[OF assms] by blast
  obtain u where u: "u \<noteq> []" "list_all is_space u" "drop k1 s = u @ drop k2 s" using k(3) span_blanks_drop[OF le(1)] by blast
  have d2: "drop k2 s = ''-rf'' @ drop k3 s" using k(4) span_lit_drop[OF le(2)] by blast
  obtain v where v: "v \<noteq> []" "list_all is_space v" "drop k3 s = v @ drop k4 s" using k(5) span_blanks_drop[OF le(3)] by blast
  have d3: "drop k4 s = ''/'' @ drop k5 s" using k(6) span_lit_drop[OF le(4)] by blast
  have t: "drop k5 s = [] \<or> is_space (hd (drop k5 s)) \<or> hd (drop k5 s) = CHR ''*''"
    using k(7) rm_tail(1)[OF le(5)] by blast
  have "i < length s" "s ! i = CHR ''r''" using d first_char[of i s] by simp_all
  then have "word_after s i" by (simp add: word_after_def is_word_def)
  then have "\<not> word_before s i" using k(1) by simp
  moreover have "drop i s = ''rm'' @ u @ ''-rf'' @ v @ ''/'' @ drop k5 s" by (simp only: d u(3) d2 v(3) d3)
  ultimately show ?R using u v t by blast
next
  assume ?R
  then obtain u v b where r: "\<not> word_before s i" "drop i s = ''rm'' @ u @ ''-rf'' @ v @ ''/'' @ b" "u \<noteq> []" "list_all is_space u"
    "v \<noteq> []" "list_all is_space v" "b = [] \<or> is_space (hd b) \<or> hd b = CHR ''*''" by blast
  have dd: "drop (i + length w) s = rest" if "drop i s = w @ rest" for i w rest
    using that by (metis append_eq_conv_conj drop_drop add.commute)
  have d1: "drop (i + 2) s = u @ ''-rf'' @ v @ ''/'' @ b" using dd[of i "''rm''"] r(2) by simp
  have d2: "drop (i + 2 + length u) s = ''-rf'' @ v @ ''/'' @ b" using dd[OF d1] .
  have d3: "drop (i + 2 + length u + 3) s = v @ ''/'' @ b" using dd[OF d2] by (simp add: numeral_eq_Suc)
  have d4: "drop (i + 2 + length u + 3 + length v) s = ''/'' @ b" using dd[OF d3] .
  have d5: "drop (i + 2 + length u + 3 + length v + 1) s = b" using dd[OF d4] by simp
  have lt: "i + 2 + length u + 3 + length v < length s" using d4 by (metis append_Cons drop_all linorder_not_less list.distinct(1))
  have "i < length s" "s ! i = CHR ''r''" using r(2) first_char[of i s] by simp_all
  then have w: "word_before s i \<noteq> word_after s i" using r(1) by (simp add: word_after_def is_word_def)
  have e: "i + 2 + length u + 3 + length v + 1 \<le> length s" using lt by simp
  obtain j where j: "span s (Seq (ors [blank, At_end, lit ''*'']) Nil_rx) (i + 2 + length u + 3 + length v + 1) j"
    using rm_tail(2)[OF e, unfolded d5, OF r(7)] by blast
  have "span s (lit ''rm'') i (i + 2)" using assms r(2) d1 by (simp add: span_lit_drop)
  moreover have "span s blanks (i + 2) (i + 2 + length u)" using lt r(3,4) d1 d2 by (subst span_blanks_drop) auto
  moreover have "span s (lit ''-rf'') (i + 2 + length u) (i + 2 + length u + 3)" using lt d2 d3 by (simp add: span_lit_drop)
  moreover have "span s blanks (i + 2 + length u + 3) (i + 2 + length u + 3 + length v)" using lt r(5,6) d3 d4 by (subst span_blanks_drop) auto
  moreover have "span s (lit ''/'') (i + 2 + length u + 3 + length v) (i + 2 + length u + 3 + length v + 1)"
    using lt d4 d5 by (simp add: span_lit_drop)
  ultimately show ?L using w j unfolding rm_root_span by blast
qed

text \<open>The first sealed rule stops exactly the commands that hold, not after a word character, the word rm, blanks, -rf, blanks and
  a slash that ends the text or stands before a blank or a star; whoever lists or overrides them, the gate denies them.\<close>

theorem rm_root_rule_exact:
  "(rx_test RM_ROOT s \<longleftrightarrow> removes_root s) \<and> (removes_root s \<and> g_trust g \<longrightarrow> sealed g shell_exec s)"
proof -
  have "rx_test RM_ROOT s \<longleftrightarrow> (\<exists>i\<le>length s. \<exists>j. span s RM_ROOT i j)" by (auto simp: rx_test_span)
  also have "\<dots> \<longleftrightarrow> removes_root s"
  proof
    assume "\<exists>i\<le>length s. \<exists>j. span s RM_ROOT i j"
    then obtain i u v b where i: "i \<le> length s" "\<not> word_before s i" and d: "drop i s = ''rm'' @ u @ ''-rf'' @ v @ ''/'' @ b"
      and r: "u \<noteq> []" "list_all is_space u" "v \<noteq> []" "list_all is_space v" "b = [] \<or> is_space (hd b) \<or> hd b = CHR ''*''"
      using rm_root_parts by blast
    have "s = take i s @ ''rm'' @ u @ ''-rf'' @ v @ ''/'' @ b" using append_take_drop_id[of i s] unfolding d by simp
    then show "removes_root s" unfolding removes_root_def using r i(2) word_before_take[OF i(1)] by blast
  next
    assume "removes_root s"
    then obtain a u v b where s: "s = a @ ''rm'' @ u @ ''-rf'' @ v @ ''/'' @ b" "a = [] \<or> \<not> is_word (last a)"
      and r: "u \<noteq> []" "list_all is_space u" "v \<noteq> []" "list_all is_space v" "b = [] \<or> is_space (hd b) \<or> hd b = CHR ''*''"
      unfolding removes_root_def by blast
    have l: "length a \<le> length s" "take (length a) s = a" "drop (length a) s = ''rm'' @ u @ ''-rf'' @ v @ ''/'' @ b" by (simp_all add: s(1))
    have "\<not> word_before s (length a)" using s(2) by (simp add: word_before_take[OF l(1)] l(2))
    then show "\<exists>i\<le>length s. \<exists>j. span s RM_ROOT i j" using rm_root_parts[OF l(1)] l(1,3) r by blast
  qed
  finally have "rx_test RM_ROOT s \<longleftrightarrow> removes_root s" .
  moreover have "RM_ROOT \<in> set BUILTIN_SHELL_DENY" by (simp add: BUILTIN_SHELL_DENY_def)
  ultimately show ?thesis unfolding sealed_def rx_test_span by auto
qed

text \<open>The comment on the rule names any path below the root; and the order and grouping of the options matter.\<close>

lemma rm_forms_not_sealed:
  "shell_rule ''rm -rf /etc'' = None" "shell_rule ''rm -fr /'' = None" "shell_rule ''rm -r -f /'' = None" "shell_rule ''rm -rf  /*'' = Some 0"
  by code_simp+

section \<open>Host names\<close>

text \<open>An entry for hosts covers the host of the same name and, if it starts with a star and a dot, exactly the hosts whose labels
  end with its labels and have one more; a name that merely ends with the same characters, or starts with the name, is not covered.\<close>

theorem hostname_by_labels:
  "matchHostname h p \<longleftrightarrow> p = h \<or>
     (\<exists>q labels. p = ''*.'' @ q \<and> labels \<noteq> [] \<and> splitOn (CHR ''.'') h = labels @ splitOn (CHR ''.'') q)"
proof -
  have "ends_with h (''.'' @ q) \<longleftrightarrow> (\<exists>labels. labels \<noteq> [] \<and> splitOn (CHR ''.'') h = labels @ splitOn (CHR ''.'') q)" for q
  proof
    assume "ends_with h (''.'' @ q)"
    then obtain r where "h = r @ CHR ''.'' # q" by (auto simp: ends_with_iff)
    then show "\<exists>labels. labels \<noteq> [] \<and> splitOn (CHR ''.'') h = labels @ splitOn (CHR ''.'') q"
      by (intro exI[of _ "splitOn (CHR ''.'') r"]) (simp add: splitOn_append)
  next
    assume "\<exists>labels. labels \<noteq> [] \<and> splitOn (CHR ''.'') h = labels @ splitOn (CHR ''.'') q"
    then obtain labels where l: "labels \<noteq> []" "splitOn (CHR ''.'') h = labels @ splitOn (CHR ''.'') q" by blast
    have "h = joinWith ''.'' (labels @ splitOn (CHR ''.'') q)" using joinWith_splitOn[of "CHR ''.''" h] by (simp only: l(2))
    also have "\<dots> = joinWith ''.'' labels @ ''.'' @ q" using l(1) by (simp add: joinWith_append)
    finally show "ends_with h (''.'' @ q)" unfolding ends_with_iff by blast
  qed
  then show ?thesis by (auto simp: matchHostname_def starts_with_iff)
qed

section \<open>Places\<close>

lemma expanded_idem [simp]: "expanded g (expanded g t) = expanded g t"
proof -
  obtain ws where "expanded g t = ''/'' @ joinWith ''/'' ws" by (rule resolve_path_segs) (simp add: expanded_def)
  then have "expandHome (g_cwd g) (expanded g t) (g_home g) = expanded g t" by (simp add: expandHome_def starts_with_def)
  then show ?thesis by (metis expanded_def resolve_idem)
qed

lemma place_only:
  assumes "rq_capability req = file_write" "expanded g t = expanded g (rq_target req)"
  shows "sealed g file_write t = sealed g file_write (rq_target req)" "forbidden g (req\<lparr>rq_target := t\<rparr>) = forbidden g req"
    "overridden g (req\<lparr>rq_target := t\<rparr>) = overridden g req" "listed g (req\<lparr>rq_target := t\<rparr>) = listed g req"
  using assms by (auto simp: sealed_def forbidden_def overridden_def listed_def covers_def block_of_def)

text \<open>For writes the gate sees the place alone: a target and the absolute path it resolves to, which has neither empty nor dot
  segments, get the same answer as long as nobody is asked.\<close>

theorem writes_judged_by_place:
  assumes "rq_capability req = file_write" "g_prompt g = None"
  shows "\<exists>ws. list_all proper_seg ws \<and> expanded g (rq_target req) = ''/'' @ joinWith ''/'' ws \<and>
    vd_source (fst (gate_check g (req\<lparr>rq_target := ''/'' @ joinWith ''/'' ws\<rparr>) st)) = vd_source (fst (gate_check g req st)) \<and>
    vd_allowed (fst (gate_check g (req\<lparr>rq_target := ''/'' @ joinWith ''/'' ws\<rparr>) st)) = vd_allowed (fst (gate_check g req st))"
proof -
  obtain ws where ws: "list_all proper_seg ws" "expanded g (rq_target req) = ''/'' @ joinWith ''/'' ws"
    by (rule resolve_path_segs) (simp add: expanded_def)
  have p: "expanded g (''/'' @ joinWith ''/'' ws) = expanded g (rq_target req)" using expanded_idem[of g "rq_target req"] by (simp only: ws(2))
  note same = place_only[OF assms(1) p]
  have a: "fst (asked g r st) = None" for r using assms(2) by (simp add: asked_def)
  have "vd_source (fst (gate_check g (req\<lparr>rq_target := ''/'' @ joinWith ''/'' ws\<rparr>) st)) = vd_source (fst (gate_check g req st))"
    using gate_check_source[of g req st] gate_check_source[of g "req\<lparr>rq_target := ''/'' @ joinWith ''/'' ws\<rparr>" st]
    by (simp add: assms(1) same a del: append_Cons append.simps)
  then show ?thesis using ws gate_check_source[of g req st] gate_check_source[of g "req\<lparr>rq_target := ''/'' @ joinWith ''/'' ws\<rparr>" st]
    by (metis (no_types, lifting))
qed

section \<open>The file of overrides\<close>

text \<open>What the command refuses to grant is what the gate would seal; only addresses that are no URL are left to the gate.\<close>

lemma rejection_iff: "denylistRejectionFor g cap t \<noteq> None \<longleftrightarrow> cap \<noteq> http_request \<and> sealed g cap t"
  by (cases cap)
    (simp_all add: denylistRejectionFor_def sealed_def Let_def resolveHome_expanded first_entry_iff shell_rule_iff matchGlobList_def
      BUILTIN_CHANNEL_DENY_def BUILTIN_BINARY_DENY_def BUILTIN_SUBAGENT_DENY_def first_entry_def[of _ _ "[]"] del: not_None_eq)

definition triple :: "OverrideRecord \<Rightarrow> string \<times> Capability \<times> string" where
  "triple r = (ov_pack r, ov_capability r, ov_target r)"

definition file_ok :: "'a Gate \<Rightarrow> OverrideRecord list \<Rightarrow> bool" where
  "file_ok g recs \<longleftrightarrow> distinct (map triple recs) \<and>
     list_all (\<lambda>r. ov_target r \<noteq> [] \<and> (ov_capability r = http_request \<or> \<not> sealed g (ov_capability r) (ov_target r))) recs"

lemma grant_cases:
  assumes "actGrant g now pack raw target recs = Inr file1"
  obtains cap t where "parseCapability raw = Some cap" "target = Some t" "t \<noteq> []" "cap = http_request \<or> \<not> sealed g cap t"
    "(pack, cap, t) \<notin> set (map triple recs)" "file1 = recs @ [\<lparr>ov_pack = pack, ov_capability = cap, ov_target = t, or_granted_at = now\<rparr>]"
proof -
  obtain cap t where ct: "parseCapability raw = Some cap" "target = Some t" "t \<noteq> []" "denylistRejectionFor g cap t = None"
      "List.find (\<lambda>r. ov_pack r = pack \<and> ov_capability r = cap \<and> ov_target r = t) recs = None"
      "file1 = recs @ [\<lparr>ov_pack = pack, ov_capability = cap, ov_target = t, or_granted_at = now\<rparr>]"
    using assms by (auto simp: actGrant_def split: option.splits if_splits)
  show ?thesis by (rule that[OF ct(1-3) _ _ ct(6)]) (use ct(4,5) rejection_iff[of g cap t] in \<open>auto simp: find_None_iff triple_def\<close>)
qed

lemma revoke_sub: "actRevoke pack raw target recs = Inr file1 \<Longrightarrow> \<exists>P. file1 = filter P recs"
  by (auto simp: actRevoke_def Let_def split: option.splits if_splits)

lemma run_command_ok: "file_ok g recs \<Longrightarrow> file_ok g (run_command g c recs)"
proof (cases c)
  case (Grant now pack raw target)
  assume ok: "file_ok g recs"
  show ?thesis
  proof (cases "actGrant g now pack raw target recs")
    case (Inr file1)
    then have rc: "run_command g c recs = file1" by (simp add: run_command_def Grant)
    obtain cap t where "cap = http_request \<or> \<not> sealed g cap t" "t \<noteq> []" "(pack, cap, t) \<notin> set (map triple recs)"
        "file1 = recs @ [\<lparr>ov_pack = pack, ov_capability = cap, ov_target = t, or_granted_at = now\<rparr>]"
      by (rule grant_cases[OF Inr])
    then show ?thesis unfolding rc using ok by (auto simp: file_ok_def triple_def)
  qed (simp add: run_command_def Grant ok)
next
  case (Revoke pack raw target)
  assume ok: "file_ok g recs"
  show ?thesis
  proof (cases "actRevoke pack raw target recs")
    case (Inr file1)
    then obtain P where "file1 = filter P recs" using revoke_sub by blast
    then show ?thesis using ok Inr by (auto simp: run_command_def Revoke file_ok_def distinct_map_filter list_all_iff)
  qed (simp add: run_command_def Revoke ok)
qed


text \<open>A grant that succeeds takes effect: the command so granted passes the gate unless its own pack forbids it, whether or not
  it has metacharacters.\<close>

theorem granted_command_passes:
  assumes "actGrant g now (rq_pack req) ''shell_exec'' (Some (rq_target req)) recs = Inr file1" "rq_capability req = shell_exec"
  shows "vd_source (fst (gate_check (g\<lparr>g_overrides := toRuntimeOverrides file1\<rparr>) req st)) = (if forbidden g req then denylist else user_override)"
proof -
  let ?g = "g\<lparr>g_overrides := toRuntimeOverrides file1\<rparr>"
  have sc: "parseCapability ''shell_exec'' = Some shell_exec" by (simp add: parseCapability_def)
  obtain cap t where c: "parseCapability ''shell_exec'' = Some cap" "Some (rq_target req) = Some t" "cap = http_request \<or> \<not> sealed g cap t"
      "file1 = recs @ [\<lparr>ov_pack = rq_pack req, ov_capability = cap, ov_target = t, or_granted_at = now\<rparr>]"
    by (rule grant_cases[OF assms(1)])
  have "cap = shell_exec" "t = rq_target req" using c(1,2) by (simp_all add: sc)
  then have f: "\<not> sealed g shell_exec (rq_target req)"
      "file1 = recs @ [\<lparr>ov_pack = rq_pack req, ov_capability = shell_exec, ov_target = rq_target req, or_granted_at = now\<rparr>]"
    using c(3,4) by simp_all
  have "\<lparr>ov_pack = rq_pack req, ov_capability = shell_exec, ov_target = rq_target req\<rparr> \<in> set (g_overrides ?g)"
    by (simp add: toRuntimeOverrides_def f(2) UserOverride.truncate_def)
  then have "overridden ?g req" using assms(2) unfolding overridden_def by (force simp: covers_def)
  moreover have "sealed ?g shell_exec (rq_target req) = sealed g shell_exec (rq_target req)" "forbidden ?g req = forbidden g req"
    using assms(2) by (simp_all add: sealed_def forbidden_def block_of_def)
  ultimately show ?thesis using gate_check_source[of ?g req st] f(1) assms(2) by simp
qed

section \<open>A small gate\<close>

definition demo_gate :: "unit Gate" where
  "demo_gate = \<lparr>g_packs = (\<lambda>_. None), g_prompt = None, g_auditLog = (\<lambda>_ _ s. (s, True)), g_trust = True, g_overrides = [],
     g_minimatch = (\<lambda>_ t p. t = p), g_hostname = (\<lambda>_. None), g_cwd = ''/w'', g_home = ''/h''\<rparr>"

definition demo_request :: "Capability \<Rightarrow> string \<Rightarrow> CapabilityRequest" where
  "demo_request cap t = \<lparr>rq_pack = ''ci'', rq_capability = cap, rq_target = t, rq_method = None\<rparr>"

definition hand_written :: "OverrideRecord list" where
  "hand_written = [\<lparr>ov_pack = ''ci'', ov_capability = shell_exec, ov_target = ''rm -rf /'', or_granted_at = ''now''\<rparr>]"

lemma root_removal_sealed: "sealed demo_gate shell_exec ''rm -rf /''"
proof -
  have "shell_rule ''rm -rf /'' = Some 0" by code_simp
  then show ?thesis using shell_rule_iff[of "''rm -rf /''"] by (simp add: sealed_def demo_gate_def)
qed


text \<open>The override covers what it names as soon as the sealed lists are switched off.\<close>

lemma untrusted_list_passes:
  "vd_source (fst (gate_check (demo_gate\<lparr>g_trust := False, g_overrides := toRuntimeOverrides hand_written\<rparr>) (demo_request shell_exec ''rm -rf /'') ())) = user_override"
  by code_simp

text \<open>A denial of hosts that a pack writes down the way it lists hosts never matches: it is compared with the whole address.\<close>

lemma host_denial_ignored:
  assumes "g_minimatch g False ''https://evil.com/x'' ''evil.com'' = False" "g_hostname g ''https://evil.com/x'' = Some ''evil.com''"
    "g_packs g ''ci'' = Some (\<lambda>_. Some \<lparr>pb_entries = Some [''evil.com''], pb_methods = None, pb_deny = Some [''evil.com'']\<rparr>)"
    "g_overrides g = []"
  shows "vd_source (fst (gate_check g (demo_request http_request ''https://evil.com/x'') st)) = declared"
  using gate_check_source[of g "demo_request http_request ''https://evil.com/x''" st] assms
  by (simp add: demo_request_def sealed_def forbidden_def overridden_def listed_def block_of_def entries_def covers_def matchHostname_def toUpperCase_def)
end
