(* ===== verification/Spec2Isabelle.thy ===== *)
theory Spec2Isabelle
  imports Prelude Statechart FsmState WorkGraph WorkStore HarnessSync Bus Actors Floors PackV2 LoopDriver ExprSyntax ExprEval
    Durable MemoCache Evaluator Skills Dispatch LoopEvents Handoff PlanAudit RateLimit
    ProcessControl Laps Board RalphLoop Packs Capability
begin

text \<open>
  Verification of the core of \<open>opensquid\<close>, a TypeScript runtime that keeps coding agents on a
  declared workflow.

  \<^bold>\<open>The program.\<close> A pack declares a workflow as a flowchart. The pack compiler turns it into state
  machines; an observed actor moves a machine as tool calls and completions arrive from the harness
  hooks, and the loop driver runs the same machines by calling executors itself. The machines run on
  a statechart engine and their states are kept per session. The decision points of a pack are
  conditions of a small expression language. The rules of a pack's skills are short processes of
  primitive calls; the hook dispatcher evaluates those that an event reaches, and their steps can be
  checkpointed, memoized and resumed. Actors talk over an event bus, under a supervisor;
  every tool call passes the floors (progress, resource, safety) whatever the pack. The work itself,
  issues and their dependencies, is an event-sourced graph that several agents claim from and that is
  kept in step with the task list of the harness.

  \<^bold>\<open>The theories\<close>, with the files under \<open>src/src/\<close> that each models.

  \<^item> \<open>Prelude\<close>: how JavaScript values are read in HOL (numbers, strings, insertion-ordered objects), and
    the facts about lists, options and strings that the components share.
  \<^item> \<open>Statechart\<close>: \<open>runtime/fsm.ts\<close>. A chart is a tree of states, a configuration the list of active leaf
    paths; \<open>initialConfig\<close>, \<open>step\<close>, \<open>settle\<close> and \<open>recordExits\<close> are the engine, \<open>stepFlat\<close> and
    \<open>validateFsm\<close> the flat wire format. The lemmas show which states are reachable, that a flat machine
    is its table, that regions do not interfere and that the engine returns.
  \<^item> \<open>FsmState\<close>: \<open>runtime/fsm_state.ts\<close>, \<open>observe/transition_log.ts\<close>, \<open>goal_map/\<close>, \<open>functions/fsm.ts\<close>.
    Session files are a map from session and key to stored values. Advancing, compare and set, key
    isolation, goal ownership.
  \<^item> \<open>WorkGraph\<close>: \<open>workgraph/events.ts\<close>. Ops, their content address over canonical JSON, and the reducer
    as a guarded row update. Claims exclude, archiving converges, identity ignores key order.
  \<^item> \<open>WorkStore\<close>: \<open>workgraph/store.ts\<close>, \<open>types.ts\<close>, \<open>audience.ts\<close>. The database as a record of tables, the
    operations of the store over it, and the rebuild. Rebuilding gives the live database; what a claim
    answers; what two processes without a shared lock can do to each other.
  \<^item> \<open>HarnessSync\<close>: \<open>workgraph/harness_map.ts\<close>, \<open>harness_sync.ts\<close>. The sync as a client of two interfaces,
    the locales \<open>wg_facade\<close> and \<open>binding_store\<close>, interpreted on the store and the binding table.
  \<^item> \<open>Bus\<close>: \<open>runtime/bus/\<close>. The ring refines the sequence of publications (locale \<open>replay_window\<close>).
  \<^item> \<open>Actors\<close>: \<open>runtime/actor/\<close>, \<open>topology/topology.ts\<close>, \<open>gate/kernel.ts\<close>. The actor contract is the locale
    \<open>actor_port\<close>; supervision, topology and gate actions over the bus.
  \<^item> \<open>Floors\<close>: \<open>runtime/guard/\<close> and the tool aliases. The counters of the progress floor are read as counts
    over the history of calls; the safety floor as a first match over its policy.
  \<^item> \<open>PackV2\<close>: \<open>packs/schemas/pack_v2.ts\<close>, \<open>packs/compile_v2.ts\<close>. Acceptance by the schema and
    compilation, errors included; what compiled packs satisfy.
  \<^item> \<open>LoopDriver\<close>: \<open>runtime/loop/gate_dispatch.ts\<close>, \<open>guard_evaluator.ts\<close>, \<open>driver.ts\<close>,
    \<open>v2_observed_actor.ts\<close>. The actor is an interpretation of \<open>actor_port\<close>; it walks the table of the
    compiled machine. The executor loop and sub-flows with their ends and their failure to end.
  \<^item> \<open>ExprSyntax\<close>, \<open>ExprEval\<close>: \<open>runtime/evaluator/expression/\<close> and \<open>integrations/pi/tool_aliases.ts\<close>. Lexer,
    grammar and trees with a printer that parsing inverts; the interpreter with its caps against the
    meaning without them; the parse cache over the laws of the locale \<open>lru_cache\<close>.
  \<^item> \<open>Durable\<close>: \<open>runtime/durable/\<close> but for the memo cache. Canonical JSON, the checkpoint database as a
    record of lists of rows, the scan for interrupted runs and the resumer that evaluates them.
  \<^item> \<open>MemoCache\<close>: \<open>runtime/durable/memo_cache.ts\<close>. A bounded memory tier before a table, refined to one
    map whatever is evicted; the callers of one key as a step relation.
  \<^item> \<open>Evaluator\<close>: \<open>runtime/evaluator.ts\<close>, \<open>functions/registry.ts\<close>. The steps of a rule with their
    checkpoint and memo layers; resuming an interrupted run is exact, and what that needs.
  \<^item> \<open>Skills\<close>: \<open>runtime/event.ts\<close>, \<open>load_matchers.ts\<close>, \<open>unload_conditions.ts\<close>, \<open>tick.ts\<close>,
    \<open>skill_requires.ts\<close>, \<open>pinned_skills.ts\<close>, \<open>packs/skill_serves.ts\<close>, \<open>packs/taxonomy.ts\<close>. Which skills an
    event reaches.
  \<^item> \<open>Dispatch\<close>: \<open>runtime/hooks/dispatch.ts\<close>, \<open>profession_resolver.ts\<close>, \<open>drift_response.ts\<close>,
    \<open>functions/verdict.ts\<close>. The walk over packs, skills and rules with its early answers, shown equal to
    a summary of all rule outcomes; unloading as a function of the history of events.

  \<^item> \<open>LoopEvents\<close>: \<open>runtime/loop/loop_events.ts\<close>, \<open>loop_state.ts\<close>. The append-only event log with its migration,
    triggers and unique indexes; readers by cursor, the board folded from it whole or incrementally, and the
    receipts of approved scopes, which nothing can alter.
  \<^item> \<open>Handoff\<close>: \<open>runtime/ralph/scope_done.ts\<close>, \<open>loop/scope_handoff_store.ts\<close>, \<open>ralph/loop_stage.ts\<close>. The
    hand-over of an approved artifact to the loop as one transaction over the log and the task checkpoints,
    and the admission of an item to the loop: only after a hand-over, and for its artifact alone.
  \<^item> \<open>PlanAudit\<close>: \<open>runtime/loop/plan_audit.ts\<close>. The cycle check is exact, coverage is by the first stamp.
  \<^item> \<open>RateLimit\<close>: \<open>runtime/rate_limit.ts\<close>. Buckets over exact rationals; a call is a sequence of statements, so
    calls that overlap on the one connection are modelled too.
  \<^item> \<open>ProcessControl\<close>: \<open>runtime/processes/process_control.ts\<close>. Requests to stop a process, the requester that
    waits for the owner and acts itself when it does not answer, and the owner that polls, as a step relation:
    one claim, one signal, one final receipt for each request.

  \<^item> \<open>Laps\<close>: \<open>runtime/ralph/lap_outcome.ts\<close>, \<open>supervisor.ts\<close>. The exit line a lap writes: cutting out the first
    balanced object and parsing it agrees with parsing in place; what can count as shipped; bounded retries.
  \<^item> \<open>Board\<close>: \<open>runtime/ralph/board_availability.ts\<close>, \<open>loop/reaper.ts\<close>, \<open>parent_rollup.ts\<close>, \<open>loop_boot_sweep.ts\<close>,
    over the work graph as a record of actions, which the store implements (locale \<open>issue_frame\<close>). The roll-up
    closes a least fixpoint, no item waits without a reason, the reaper touches orphans only.
  \<^item> \<open>RalphLoop\<close>: \<open>runtime/ralph/orchestrator.ts\<close>, \<open>consistency_gate.ts\<close>, \<open>escalate_lap.ts\<close>. The autonomous loop as
    passes over any world; the calls it makes are recorded, and the theorems say what may follow what: an item
    is closed only after a shipped drive and a commit check, no wedge goes without its escalation, the stages of
    an item move by evidence or receipts. It composes \<open>Laps\<close>, \<open>Board\<close> and the events of \<open>LoopEvents\<close>.
  \<^item> \<open>Packs\<close>: \<open>packs/load_order.ts\<close>, \<open>apply_extends.ts\<close>, \<open>composite_resolver.ts\<close>, \<open>validate_uniqueness.ts\<close>,
    \<open>validate_functions.ts\<close>, \<open>match.ts\<close>, \<open>serves.ts\<close>. Which packs are in force and in which order, inheritance and its
    cycles, the closure of composites, the checks of names and references with the edit distance behind the
    suggestions, and the choice of the most specific pack for a turn.
  \<^item> \<open>Capability\<close>: \<open>runtime/capability_gate.ts\<close>, \<open>builtin_denylist.ts\<close>, \<open>setup/cli/permissions_state.ts\<close>,
    \<open>permissions_actions.ts\<close>. What the gate allows, as five questions in order; the sealed shell rules with an
    executable matcher for regular expressions; hosts by their labels, writes by the place they resolve to; and the
    file of overrides, which grants and revocations keep free of what the gate would seal.

  \<^bold>\<open>Conventions.\<close> A method on a mutable object is a function on a state record that returns the new
  state. A throw is the \<open>Inl\<close> of a sum, or the \<open>None\<close> of an option where nothing reads the reason.
  Asynchronous operations run to completion in the order the code awaits them; where several
  processes interleave, the interleaving is written out as a sequence of steps (\<open>raced_claim_lost_by_rebuild\<close>,
  \<open>raced_op_missed_by_cursor\<close>). Clocks, random identifiers, hashes, third-party packages (the bounded cache, the
  glob matcher, the bounded regular expression engine of the guard language) and callbacks are
  arguments; what is assumed of them is a named hypothesis of the theorem. Stored values keep the
  identity of objects, which nothing reads after storage.

  \<^bold>\<open>Bounds and fuel.\<close> \<open>settle_loop\<close> keeps the backstop of the code, and \<open>settle_reaches_fixpoint\<close> shows it
  is not met. The chain of the observed actor and the steps of the driver keep the limits of the code
  (\<open>MAX_CHAIN\<close>, \<open>MAX_STEPS\<close>). \<open>runToTerminal\<close> counts the nesting of sub-flows: running out means that the
  code has recursed that deep, and \<open>recursive_sub_flow_never_returns\<close> is stated for every count. The
  parser counts calls of its rules, and \<open>parse_fuel\<close> shows that \<open>fuel_for\<close> always suffices. The executor
  loop and the autonomous loop are a \<open>partial_function\<close> into options, so not returning is \<open>None\<close>: the
  autonomous loop ends only when its board does, and its theorems are about every run that returns, with
  \<open>reached_settled\<close> for the states of runs that do not. The JSON reader of \<open>Laps\<close> counts calls of its rules
  (\<open>fuel_irrelevant\<close>), the parent roll-up looks at parents (\<open>roll_returns\<close>), the walk up a
  chain of packs at packs (\<open>extends_walk_returns\<close>); these counts always suffice. The nesting of composites is bounded by
  the code itself.

  \<^bold>\<open>Assumptions of the model.\<close> Property names are not names of \<open>Object.prototype\<close> (the code's \<open>in\<close> tests and
  lookups follow the prototype chain). Calls to one supervised actor do not overlap. The call stack
  is unbounded. Characters are bytes; numbers of the guard language are doubles without a negative
  zero, numbers elsewhere are integers where the code only counts. Source offsets and log lines are
  left out.

  \<^bold>\<open>Not modelled.\<close> Windows job objects, process resumption, hook entry points, transports to chat services, webhooks, model
  clients, retrieval, command line and setup are input and output around the parts above. Of the
  autonomous loop the timer that renews claims, the git commands behind its seam and its reports on
  the terminal are left out. Wedge handling and the reading of packs from
  files (loader and discovery) carry some logic of their own and are not modelled; of the permission commands the
  listing and the query of the audit file are left out.
\<close>

end
